(* ===== verification/Prelude.thy ===== *)
theory Prelude
  imports Complex_Main "HOL-Library.Word"
begin

text \<open>
  What every component of the model shares: Go's clock and durations, 64-bit integer
  wrap-around, rounded floating point, big-endian byte encodings, slices with a length and a
  capacity, and the generic list and arithmetic lemmas used by several component theories.
  A run-time panic of the Go program is \<open>None\<close> of an option type throughout the development.
\<close>

named_theorems go_defs \<open>definitions of the modelled Go primitives\<close>
named_theorems inv_rules \<open>preservation lemmas of component invariants\<close>

section \<open>Machine integers, time and durations\<close>

type_synonym byte = "8 word"
type_synonym bytes = "byte list"

text \<open>
  A \<open>time.Time\<close> is the number of nanoseconds since the Unix epoch, a \<open>time.Duration\<close> a number
  of nanoseconds. \<open>zero_time\<close> is Go's zero value (1 January of year 1), which the code tests
  with \<open>IsZero\<close>. \<open>Time.Sub\<close> saturates at the limits of a 64-bit duration.
\<close>

type_synonym gotime = int
type_synonym duration = int

definition zero_time :: gotime where
  "zero_time = - 62135596800 * 1000000000"

definition max_i64 :: int where
  "max_i64 = 9223372036854775807"

definition min_i64 :: int where
  "min_i64 = - 9223372036854775808"

definition time_sub :: "gotime \<Rightarrow> gotime \<Rightarrow> duration" where
  "time_sub t u = max min_i64 (min max_i64 (t - u))"

definition ns_second :: duration where
  "ns_second = 1000000000"

definition ns_milli :: duration where
  "ns_milli = 1000000"

definition ns_minute :: duration where
  "ns_minute = 60000000000"

text \<open>The signed value of a 64-bit word computation; Go's conversions to \<open>int64\<close> wrap.\<close>

definition i64 :: "int \<Rightarrow> int" where
  "i64 x = sint (word_of_int x :: 64 word)"

definition go_quot :: "int \<Rightarrow> int \<Rightarrow> int" where
  "go_quot a b = sgn a * sgn b * (\<bar>a\<bar> div \<bar>b\<bar>)"

lemma go_quot_nonneg [simp]: "0 \<le> a \<Longrightarrow> 0 < b \<Longrightarrow> go_quot a b = a div b"
  by (cases "a = 0") (auto simp: go_quot_def)

lemma time_sub_id: "min_i64 \<le> t - u \<Longrightarrow> t - u \<le> max_i64 \<Longrightarrow> time_sub t u = t - u"
  by (simp add: time_sub_def)

lemma time_sub_mono: "t \<le> t' \<Longrightarrow> time_sub t u \<le> time_sub t' u"
  by (auto simp: time_sub_def max_def min_def)

lemma time_sub_antimono: "u \<le> u' \<Longrightarrow> time_sub t u' \<le> time_sub t u"
  by (auto simp: time_sub_def max_def min_def)

lemma time_sub_less_iff:
  "min_i64 < d \<Longrightarrow> d \<le> max_i64 \<Longrightarrow> time_sub t u < d \<longleftrightarrow> t - u < d"
  by (auto simp: time_sub_def max_def min_def min_i64_def max_i64_def)

lemma time_sub_le_iff:
  "min_i64 \<le> d \<Longrightarrow> d < max_i64 \<Longrightarrow> time_sub t u \<le> d \<longleftrightarrow> t - u \<le> d"
  by (auto simp: time_sub_def max_def min_def min_i64_def max_i64_def)

section \<open>Floating point\<close>

text \<open>
  A finite \<open>float64\<close> is a rational number, and every operation of the code is the exact
  operation followed by a rounding function, which is a parameter of the definitions that
  compute with floats. Theorems therefore hold for IEEE double rounding and for any other
  rounding their hypotheses allow. Infinities and NaNs do not occur in the modelled code: it
  divides by positive rates only.
\<close>

type_synonym rounding = "rat \<Rightarrow> rat"

definition fl_add :: "rounding \<Rightarrow> rat \<Rightarrow> rat \<Rightarrow> rat" where
  "fl_add r x y = r (x + y)"

definition fl_sub :: "rounding \<Rightarrow> rat \<Rightarrow> rat \<Rightarrow> rat" where
  "fl_sub r x y = r (x - y)"

definition fl_mul :: "rounding \<Rightarrow> rat \<Rightarrow> rat \<Rightarrow> rat" where
  "fl_mul r x y = r (x * y)"

definition fl_div :: "rounding \<Rightarrow> rat \<Rightarrow> rat \<Rightarrow> rat" where
  "fl_div r x y = r (x / y)"

definition fl_of_int :: "rounding \<Rightarrow> int \<Rightarrow> rat" where
  "fl_of_int r n = r (of_int n)"

text \<open>
  What IEEE double rounding guarantees and the bounds below use: it is monotone and exact on
  integers of at most 53 bits.
\<close>

definition ieee_like :: "rounding \<Rightarrow> bool" where
  "ieee_like r \<longleftrightarrow> mono r \<and> (\<forall>n :: int. \<bar>n\<bar> \<le> 2 ^ 53 \<longrightarrow> r (of_int n) = of_int n)"

lemma ieee_like_id: "ieee_like id"
  by (simp add: ieee_like_def mono_def)

lemma ieee_exact: "ieee_like r \<Longrightarrow> \<bar>n\<bar> \<le> 2 ^ 53 \<Longrightarrow> r (of_int n) = of_int n"
  by (simp add: ieee_like_def)

lemma ieee_mono: "ieee_like r \<Longrightarrow> x \<le> y \<Longrightarrow> r x \<le> r y"
  by (simp add: ieee_like_def monoD)

lemma ieee_const: "ieee_like r \<Longrightarrow> r 0 = 0" "ieee_like r \<Longrightarrow> r 1 = 1" "ieee_like r \<Longrightarrow> r 100 = 100"
  using ieee_exact [of r 0] ieee_exact [of r 1] ieee_exact [of r 100] by simp_all

text \<open>
  \<open>math.Sqrt\<close> and \<open>math.Pow\<close> are irrational in general, so their rounded results are functions
  of a record with the rounding. The laws are what the code relies on: rounding is monotone and
  idempotent (a result is a float, and one half is one), and powers of a base above or below one stay on its side.
\<close>

record floats =
  fl_round :: rounding
  fl_sqrt :: "rat \<Rightarrow> rat"
  fl_pow :: "rat \<Rightarrow> rat \<Rightarrow> rat"

definition float_laws :: "floats \<Rightarrow> bool" where
  "float_laws F \<longleftrightarrow> ieee_like (fl_round F) \<and> (\<forall>x. fl_round F (fl_round F x) = fl_round F x)
     \<and> (\<forall>x. 1 / 2 \<le> x \<longrightarrow> 1 / 2 \<le> fl_round F x)
     \<and> (\<forall>x y. 1 \<le> x \<longrightarrow> 0 \<le> y \<longrightarrow> 1 \<le> fl_pow F x y)
     \<and> (\<forall>x y. 0 < x \<longrightarrow> x \<le> 1 \<longrightarrow> 0 \<le> y \<longrightarrow> 0 < fl_pow F x y \<and> fl_pow F x y \<le> 1)
     \<and> (\<forall>x. 1 \<le> x \<longrightarrow> 1 \<le> fl_sqrt F x)"

text \<open>A float: a value the rounding keeps.\<close>

definition is_float :: "floats \<Rightarrow> rat \<Rightarrow> bool" where
  "is_float F x \<longleftrightarrow> fl_round F x = x"

definition exact_floats :: floats where
  "exact_floats = \<lparr>fl_round = id, fl_sqrt = id, fl_pow = (\<lambda>x y. 1)\<rparr>"

lemma exact_floats_laws: "float_laws exact_floats"
  by (simp add: float_laws_def exact_floats_def ieee_like_id)

lemma float_mono: "float_laws F \<Longrightarrow> x \<le> y \<Longrightarrow> fl_round F x \<le> fl_round F y"
  by (simp add: float_laws_def ieee_like_def monoD)

lemma float_le: "float_laws F \<Longrightarrow> is_float F y \<Longrightarrow> x \<le> y \<Longrightarrow> fl_round F x \<le> y"
  using float_mono [of F x y] by (simp add: is_float_def)

lemma float_ge: "float_laws F \<Longrightarrow> is_float F y \<Longrightarrow> y \<le> x \<Longrightarrow> y \<le> fl_round F x"
  using float_mono [of F y x] by (simp add: is_float_def)

lemma float_int: "float_laws F \<Longrightarrow> \<bar>n\<bar> \<le> 2 ^ 53 \<Longrightarrow> fl_round F (of_int n) = of_int n"
  by (simp add: float_laws_def ieee_exact)

lemma is_float_round [simp]: "float_laws F \<Longrightarrow> is_float F (fl_round F x)"
  by (simp add: float_laws_def is_float_def)

lemma is_float_zero: "float_laws F \<Longrightarrow> is_float F 0"
  using float_int [of F 0] by (simp add: is_float_def)

lemma is_float_min: "is_float F x \<Longrightarrow> is_float F y \<Longrightarrow> is_float F (min x y)"
  by (simp add: min_def)

lemma is_float_max: "is_float F x \<Longrightarrow> is_float F y \<Longrightarrow> is_float F (max x y)"
  by (simp add: max_def)

text \<open>Go's conversion of a float to an integer drops the fraction.\<close>

definition fl_trunc :: "rat \<Rightarrow> int" where
  "fl_trunc x = (if 0 \<le> x then \<lfloor>x\<rfloor> else \<lceil>x\<rceil>)"

definition go_rem :: "int \<Rightarrow> int \<Rightarrow> int" where
  "go_rem a b = a - go_quot a b * b"

text \<open>\<open>Duration.Seconds\<close>\<close>

definition fl_seconds :: "rounding \<Rightarrow> duration \<Rightarrow> rat" where
  "fl_seconds r d = fl_add r (fl_of_int r (go_quot d ns_second))
     (fl_div r (fl_of_int r (go_rem d ns_second)) 1000000000)"

lemmas fl_defs = fl_add_def fl_sub_def fl_mul_def fl_div_def fl_of_int_def

section \<open>Big-endian encodings\<close>

fun be_put :: "nat \<Rightarrow> nat \<Rightarrow> bytes" where
  "be_put 0 v = []"
| "be_put (Suc n) v = be_put n (v div 256) @ [word_of_nat v]"

definition be_get :: "bytes \<Rightarrow> nat" where
  "be_get bs = foldl (\<lambda>a b. 256 * a + unat b) 0 bs"

lemma length_be_put [simp]: "length (be_put n v) = n"
  by (induction n arbitrary: v) auto

lemma be_get_Nil [simp]: "be_get [] = 0"
  by (simp add: be_get_def)

lemma be_get_snoc [simp]: "be_get (bs @ [b]) = 256 * be_get bs + unat b"
  by (simp add: be_get_def)

lemma unat_byte_less: "unat (b :: byte) < 256"
  by (rule order_less_le_trans [OF unsigned_less]) simp

lemma unat_u32_less: "unat (w :: 32 word) < 4294967296"
  by (rule order_less_le_trans [OF unsigned_less]) simp

lemma unat_u64_less: "unat (w :: 64 word) < 18446744073709551616"
  by (rule order_less_le_trans [OF unsigned_less]) simp

lemma uint_le_power: "unat w \<le> 2 ^ n \<Longrightarrow> uint w \<le> 2 ^ n"
  unfolding uint_nat by (metis of_nat_le_iff of_nat_numeral of_nat_power)

lemma uint_less_power: "unat w < 2 ^ n \<Longrightarrow> uint w < 2 ^ n"
  unfolding uint_nat by (metis of_nat_less_iff of_nat_numeral of_nat_power)

lemma uint_le_uint: "unat v \<le> unat w \<Longrightarrow> uint v \<le> uint w"
  unfolding uint_nat by (simp only: of_nat_le_iff)

lemma unat_word_of_nat_byte: "unat (word_of_nat v :: byte) = v mod 256"
  by (simp add: unat_of_nat)

lemma be_get_put: "be_get (be_put n v) = v mod 256 ^ n"
proof (induction n arbitrary: v)
  case 0
  then show ?case by simp
next
  case (Suc n)
  have "256 * (v div 256 mod 256 ^ n) + v mod 256 = v mod (256 * 256 ^ n)"
    by (simp add: mod_mult2_eq)
  then show ?case by (simp add: Suc.IH unat_word_of_nat_byte)
qed

lemma be_get_bound: "be_get bs < 256 ^ length bs"
proof (induction bs rule: rev_induct)
  case Nil
  then show ?case by simp
next
  case (snoc b bs)
  have "unat b < 256" by (rule unat_byte_less)
  with snoc show ?case by (simp add: add.commute)
qed

lemma be_put_get: "length bs = n \<Longrightarrow> be_put n (be_get bs) = bs"
proof (induction bs arbitrary: n rule: rev_induct)
  case Nil
  then show ?case by simp
next
  case (snoc b bs)
  then obtain m where n: "n = Suc m" "length bs = m" by auto
  have b: "unat b < 256" by (rule unat_byte_less)
  have "(256 * be_get bs + unat b) div 256 = be_get bs" using b by simp
  moreover have "(word_of_nat (256 * be_get bs + unat b) :: byte) = b"
  proof -
    have "(256 :: byte) = 0" by simp
    then have "256 * x = 0" for x :: byte by (metis mult_zero_left)
    then show ?thesis by simp
  qed
  ultimately show ?case using snoc.IH [of m] n by simp
qed

definition put_u32 :: "32 word \<Rightarrow> bytes" where
  "put_u32 w = be_put 4 (unat w)"

definition get_u32 :: "bytes \<Rightarrow> 32 word" where
  "get_u32 bs = word_of_nat (be_get (take 4 bs))"

definition put_u64 :: "64 word \<Rightarrow> bytes" where
  "put_u64 w = be_put 8 (unat w)"

definition get_u64 :: "bytes \<Rightarrow> 64 word" where
  "get_u64 bs = word_of_nat (be_get (take 8 bs))"

lemma length_put_u32 [simp]: "length (put_u32 w) = 4"
  by (simp add: put_u32_def)

lemma length_put_u64 [simp]: "length (put_u64 w) = 8"
  by (simp add: put_u64_def)

lemma get_put_u32 [simp]: "get_u32 (put_u32 w @ xs) = w"
  using unat_u32_less [of w] by (simp add: get_u32_def put_u32_def be_get_put)

lemma get_put_u64 [simp]: "get_u64 (put_u64 w @ xs) = w"
  using unat_u64_less [of w] by (simp add: get_u64_def put_u64_def be_get_put)

lemma get_put_u32_self [simp]: "get_u32 (put_u32 w) = w"
  using get_put_u32 [of w "[]"] by simp

lemma get_put_u64_self [simp]: "get_u64 (put_u64 w) = w"
  using get_put_u64 [of w "[]"] by simp

lemma put_get_u64: "length bs = 8 \<Longrightarrow> put_u64 (get_u64 bs) = bs"
  using be_get_bound [of bs] be_put_get [of bs 8]
  by (simp add: put_u64_def get_u64_def unat_of_nat)

section \<open>Slices\<close>

text \<open>
  A byte slice is its backing memory from the slice's start to the end of its capacity, and a
  length. Reslicing may grow the length up to the capacity; anything else panics.
\<close>

record slice =
  sl_mem :: bytes
  sl_len :: int

definition sl_cap :: "slice \<Rightarrow> int" where
  "sl_cap s = int (length (sl_mem s))"

definition sl_wf :: "slice \<Rightarrow> bool" where
  "sl_wf s \<longleftrightarrow> 0 \<le> sl_len s \<and> sl_len s \<le> sl_cap s"

definition sl_data :: "slice \<Rightarrow> bytes" where
  "sl_data s = take (nat (sl_len s)) (sl_mem s)"

definition sl_range :: "slice \<Rightarrow> int \<Rightarrow> int \<Rightarrow> slice option" where
  "sl_range s i j = (if 0 \<le> i \<and> i \<le> j \<and> j \<le> sl_cap s
     then Some \<lparr>sl_mem = drop (nat i) (sl_mem s), sl_len = j - i\<rparr> else None)"

text \<open>\<open>b[i:]\<close> runs to the slice's length, not to its capacity.\<close>

definition sl_from :: "slice \<Rightarrow> int \<Rightarrow> slice option" where
  "sl_from s i = sl_range s i (sl_len s)"

definition full_slice :: "bytes \<Rightarrow> slice" where
  "full_slice m = \<lparr>sl_mem = m, sl_len = int (length m)\<rparr>"

text \<open>\<open>copy(m[off:], src)\<close>: as many bytes as fit.\<close>

definition blit :: "'a list \<Rightarrow> nat \<Rightarrow> 'a list \<Rightarrow> 'a list" where
  "blit m off src = take off m @ take (length m - off) src @ drop (off + length src) m"

lemma length_blit [simp]: "length (blit m off src) = length m"
  by (auto simp: blit_def)

lemma blit_fits:
  "off + length src \<le> length m \<Longrightarrow> blit m off src = take off m @ src @ drop (off + length src) m"
  by (auto simp: blit_def)

lemma take_drop_blit:
  "off + length src \<le> length m \<Longrightarrow> take (length src) (drop off (blit m off src)) = src"
  by (simp add: blit_fits)

lemma take_blit_before: "k \<le> off \<Longrightarrow> off \<le> length m \<Longrightarrow> take k (blit m off src) = take k m"
  by (simp add: blit_def min_def)

lemma drop_blit_after:
  "off + length src \<le> k \<Longrightarrow> k \<le> length m \<Longrightarrow> drop k (blit m off src) = drop k m"
  by (auto simp: blit_fits)

lemma sl_cap_full [simp]: "sl_cap (full_slice m) = int (length m)"
  by (simp add: sl_cap_def full_slice_def)

section \<open>Association lists and folds\<close>

lemma sum_list_filter_le: "sum_list (map f (filter P xs)) \<le> sum_list (map f xs)"
  for f :: "'a \<Rightarrow> nat"
  by (induction xs) auto

lemma mod_eq_gap: "a + n \<le> b" if "a mod n = b mod n" "a < b" for a b n :: nat
proof -
  have "n dvd b - a" using that mod_eq_dvd_iff_nat [of a b n] by simp
  then have "n \<le> b - a" using that by (auto intro: dvd_imp_le)
  then show ?thesis using that by simp
qed

lemma option_bind_eq_Some: "Option.bind x f = Some y \<longleftrightarrow> (\<exists>a. x = Some a \<and> f a = Some y)"
  by (cases x) auto

end
