(* ===== verification/Heartbeat.thy ===== *)
theory Heartbeat
  imports Prelude
begin

unbundle bit_operations_syntax

text \<open>
  \<open>src/heartbeat_tracker.go\<close>: per-connection heartbeat accounting (\<open>heartbeatTracker\<close>) and the
  per-component statistics in one-minute buckets (\<open>heartbeatStatsTracker\<close>). The atomics of the
  code are plain fields here: every operation of the model is one uninterrupted call. The
  lemmas relate the packed buckets to the list of recorded events and show that the loss
  counters never overtake the send counters.
\<close>

section \<open>Packed minute buckets\<close>

definition hb_bucket_count :: nat where
  "hb_bucket_count = 1440"

definition packHeartbeatBucket :: "64 word \<Rightarrow> 32 word \<Rightarrow> 64 word" where
  "packHeartbeatBucket minute count = push_bit 32 minute OR ucast count"

definition unpackHeartbeatBucket :: "64 word \<Rightarrow> 64 word \<times> 32 word" where
  "unpackHeartbeatBucket v = (drop_bit 32 v, ucast (v AND mask 32))"

definition minuteIndex :: "64 word \<Rightarrow> nat" where
  "minuteIndex minute = unat minute mod hb_bucket_count"

text \<open>\<open>ts.Unix()\<close> rounds down, the division by 60 truncates.\<close>

definition heartbeatMinute :: "gotime \<Rightarrow> 64 word" where
  "heartbeatMinute ts = word_of_int (go_quot (ts div ns_second) 60)"

definition incrementBucket :: "64 word list \<Rightarrow> 64 word \<Rightarrow> 64 word list" where
  "incrementBucket buckets minute =
     (let i = minuteIndex minute;
          (currentMinute, currentCount) = unpackHeartbeatBucket (buckets ! i)
      in if currentMinute = minute
         then (if currentCount = - 1 then buckets
               else buckets[i := packHeartbeatBucket minute (currentCount + 1)])
         else buckets[i := packHeartbeatBucket minute 1])"

fun countBucketsInRange :: "64 word list \<Rightarrow> 64 word \<Rightarrow> 64 word \<Rightarrow> 64 word" where
  "countBucketsInRange [] cutoff now = 0"
| "countBucketsInRange (v # vs) cutoff now =
     (let (m, c) = unpackHeartbeatBucket v
      in (if cutoff \<le> m \<and> m \<le> now then ucast c else 0) + countBucketsInRange vs cutoff now)"

record hb_window_stats =
  hw_sent :: "64 word"
  hw_lost :: "64 word"
  hw_lossRate :: rat

text \<open>\<open>float64(lost) * 100 / float64(sent)\<close>\<close>

definition lossRate :: "rounding \<Rightarrow> 64 word \<Rightarrow> 64 word \<Rightarrow> rat" where
  "lossRate r sent lost =
     (if 0 < sent then fl_div r (fl_mul r (fl_of_int r (uint lost)) 100) (fl_of_int r (uint sent)) else 0)"

definition newHeartbeatWindowStats :: "rounding \<Rightarrow> 64 word \<Rightarrow> 64 word \<Rightarrow> hb_window_stats" where
  "newHeartbeatWindowStats r sent lost =
     \<lparr>hw_sent = sent, hw_lost = lost, hw_lossRate = lossRate r sent lost\<rparr>"

section \<open>Component statistics\<close>

record hb_stats =
  hs_lastSent :: int
  hs_sentBuckets :: "64 word list"
  hs_lostBuckets :: "64 word list"

definition empty_hb_stats :: hb_stats where
  "empty_hb_stats = \<lparr>hs_lastSent = 0, hs_sentBuckets = replicate hb_bucket_count 0,
     hs_lostBuckets = replicate hb_bucket_count 0\<rparr>"

definition noteHeartbeatSentAt :: "gotime \<Rightarrow> hb_stats \<Rightarrow> hb_stats" where
  "noteHeartbeatSentAt now h = h\<lparr>hs_lastSent := i64 now,
     hs_sentBuckets := incrementBucket (hs_sentBuckets h) (heartbeatMinute now)\<rparr>"

definition noteHeartbeatLostAt :: "gotime \<Rightarrow> hb_stats \<Rightarrow> hb_stats" where
  "noteHeartbeatLostAt now h = h\<lparr>
     hs_lostBuckets := incrementBucket (hs_lostBuckets h) (heartbeatMinute now)\<rparr>"

record hb_snapshot =
  hp_last5m :: hb_window_stats
  hp_last1h :: hb_window_stats
  hp_last24h :: hb_window_stats

definition windowAt :: "rounding \<Rightarrow> hb_stats \<Rightarrow> gotime \<Rightarrow> duration \<Rightarrow> hb_window_stats" where
  "windowAt r h now w =
     newHeartbeatWindowStats r
       (countBucketsInRange (hs_sentBuckets h) (heartbeatMinute (now - w)) (heartbeatMinute now))
       (countBucketsInRange (hs_lostBuckets h) (heartbeatMinute (now - w)) (heartbeatMinute now))"

definition snapshotAt :: "rounding \<Rightarrow> hb_stats \<Rightarrow> gotime \<Rightarrow> hb_snapshot" where
  "snapshotAt r h now = \<lparr>
     hp_last5m = windowAt r h now (5 * ns_minute),
     hp_last1h = windowAt r h now (60 * ns_minute),
     hp_last24h = windowAt r h now (24 * 60 * ns_minute)\<rparr>"

definition statsLastHeartbeatSent :: "hb_stats \<Rightarrow> gotime" where
  "statsLastHeartbeatSent h = (if hs_lastSent h \<le> 0 then zero_time else hs_lastSent h)"

section \<open>Connection tracker\<close>

text \<open>
  The tracker optionally points at the statistics of its component, which the operations
  thread through as \<open>hb_stats option\<close> (\<open>None\<close> when \<open>componentStats\<close> is nil).
\<close>

record hb_tracker =
  ht_lastSent :: int
  ht_sentCount :: "64 word"
  ht_lostCount :: "64 word"
  ht_consecutiveLoss :: "32 word"
  ht_awaitingAck :: bool

definition empty_hb_tracker :: hb_tracker where
  "empty_hb_tracker = \<lparr>ht_lastSent = 0, ht_sentCount = 0, ht_lostCount = 0,
     ht_consecutiveLoss = 0, ht_awaitingAck = False\<rparr>"

definition noteHeartbeatSent ::
    "gotime \<Rightarrow> hb_tracker \<times> hb_stats option \<Rightarrow> hb_tracker \<times> hb_stats option" where
  "noteHeartbeatSent now = (\<lambda>(h, st).
     (h\<lparr>ht_lastSent := i64 now, ht_sentCount := ht_sentCount h + 1, ht_awaitingAck := True\<rparr>,
      map_option (noteHeartbeatSentAt now) st))"

definition markHeartbeatResponse :: "hb_tracker \<Rightarrow> hb_tracker" where
  "markHeartbeatResponse h = h\<lparr>ht_awaitingAck := False, ht_consecutiveLoss := 0\<rparr>"

text \<open>The result is the number of consecutive losses, an \<open>int32\<close>.\<close>

definition markPendingHeartbeatLost ::
    "gotime \<Rightarrow> hb_tracker \<times> hb_stats option \<Rightarrow> (hb_tracker \<times> hb_stats option) \<times> int" where
  "markPendingHeartbeatLost now = (\<lambda>(h, st).
     if ht_awaitingAck h
     then ((h\<lparr>ht_awaitingAck := False, ht_lostCount := ht_lostCount h + 1,
              ht_consecutiveLoss := ht_consecutiveLoss h + 1\<rparr>,
            map_option (noteHeartbeatLostAt now) st),
           sint (ht_consecutiveLoss h + 1))
     else ((h, st), sint (ht_consecutiveLoss h)))"

definition resetHeartbeatState :: "hb_tracker \<Rightarrow> hb_tracker" where
  "resetHeartbeatState h =
     h\<lparr>ht_lastSent := 0, ht_consecutiveLoss := 0, ht_awaitingAck := False\<rparr>"

definition resetHeartbeatStats :: "hb_tracker \<Rightarrow> hb_tracker" where
  "resetHeartbeatStats h = (resetHeartbeatState h)\<lparr>ht_sentCount := 0, ht_lostCount := 0\<rparr>"

definition heartbeatStats :: "rounding \<Rightarrow> hb_tracker \<Rightarrow> 64 word \<times> 64 word \<times> rat" where
  "heartbeatStats r h = (ht_sentCount h, ht_lostCount h,
     lossRate r (ht_sentCount h) (ht_lostCount h))"

definition lastHeartbeatSent :: "hb_tracker \<Rightarrow> gotime" where
  "lastHeartbeatSent h = (if ht_lastSent h \<le> 0 then zero_time else ht_lastSent h)"

definition clearLastHeartbeatSent :: "hb_tracker \<Rightarrow> hb_tracker" where
  "clearLastHeartbeatSent h = h\<lparr>ht_lastSent := 0\<rparr>"

section \<open>Packing is lossless for the minutes that occur\<close>

lemma unpack_pack:
  assumes "unat m < 2 ^ 32"
  shows "unpackHeartbeatBucket (packHeartbeatBucket m c) = (m, c)"
proof -
  have hi: "n < 32" if "bit m n" for n
  proof (rule ccontr)
    assume "\<not> n < 32"
    have "unat m = take_bit 32 (unat m)" using assms by (simp add: take_bit_nat_eq_self)
    then have "bit (unat m) n = bit (take_bit 32 (unat m)) n" by simp
    then show False using that \<open>\<not> n < 32\<close> by (simp add: bit_simps)
  qed
  have "drop_bit 32 (packHeartbeatBucket m c) = m"
    by (rule bit_word_eqI) (use hi in \<open>auto simp: packHeartbeatBucket_def bit_simps dest: bit_imp_le_length\<close>)
  moreover have "(ucast (packHeartbeatBucket m c AND mask 32) :: 32 word) = c"
    by (rule bit_word_eqI) (auto simp: packHeartbeatBucket_def bit_simps)
  ultimately show ?thesis by (simp add: unpackHeartbeatBucket_def)
qed

lemma unpack_zero [simp]: "unpackHeartbeatBucket 0 = (0, 0)"
  by (simp add: unpackHeartbeatBucket_def)

lemma length_incrementBucket [simp]: "length (incrementBucket bs m) = length bs"
  by (simp add: incrementBucket_def Let_def split: prod.splits)


section \<open>Window counts are the number of recorded events\<close>

text \<open>The minute and the count a bucket holds, and what it contributes to a window.\<close>

definition bucket_minute :: "64 word \<Rightarrow> nat" where
  "bucket_minute v = unat (fst (unpackHeartbeatBucket v))"

definition bucket_count :: "64 word \<Rightarrow> nat" where
  "bucket_count v = unat (snd (unpackHeartbeatBucket v))"

definition bucket_share :: "nat \<Rightarrow> nat \<Rightarrow> 64 word \<Rightarrow> nat" where
  "bucket_share lo hi v =
     (if lo \<le> bucket_minute v \<and> bucket_minute v \<le> hi then bucket_count v else 0)"

definition window_total :: "64 word list \<Rightarrow> nat \<Rightarrow> nat \<Rightarrow> nat" where
  "window_total bs lo hi = sum_list (map (bucket_share lo hi) bs)"

lemma bucket_zero [simp]: "bucket_minute 0 = 0" "bucket_count 0 = 0"
  by (simp_all add: bucket_minute_def bucket_count_def)

lemma bucket_pack [simp]:
  assumes "unat m < 2 ^ 32"
  shows "bucket_minute (packHeartbeatBucket m c) = unat m"
    and "bucket_count (packHeartbeatBucket m c) = unat c"
  using unpack_pack [OF assms] by (simp_all add: bucket_minute_def bucket_count_def)

lemma bucket_count_less: "bucket_count v < 2 ^ 32"
  unfolding bucket_count_def using unat_u32_less by simp

lemma countBucketsInRange_total:
  "unat (countBucketsInRange bs lo hi) = window_total bs (unat lo) (unat hi)"
  if "window_total bs (unat lo) (unat hi) < 2 ^ 64"
  using that
proof (induction bs)
  case Nil
  then show ?case by (simp add: window_total_def)
next
  case (Cons v bs)
  obtain m c where mc: "unpackHeartbeatBucket v = (m, c)" by force
  have share: "bucket_share (unat lo) (unat hi) v = (if lo \<le> m \<and> m \<le> hi then unat c else 0)"
    using mc by (simp add: bucket_share_def bucket_minute_def bucket_count_def word_le_nat_alt)
  have tot: "window_total (v # bs) (unat lo) (unat hi)
      = bucket_share (unat lo) (unat hi) v + window_total bs (unat lo) (unat hi)"
    by (simp add: window_total_def)
  have IH: "unat (countBucketsInRange bs lo hi) = window_total bs (unat lo) (unat hi)"
    using Cons tot by simp
  have ec: "unat (ucast c :: 64 word) = unat c"
    using unat_u32_less [of c] by (simp add: unsigned_ucast_eq take_bit_nat_eq_self)
  show ?case
    using Cons.prems tot share IH mc ec
    by (auto simp: unat_word_ariths)
qed

text \<open>
  Recording one event at minute \<open>m\<close>, no earlier than anything recorded so far, adds exactly
  one to every window of less than 1440 minutes that contains \<open>m\<close> and leaves windows
  ending later than 1440 minutes after the bucket's previous content unchanged.
\<close>

definition buckets_ok :: "nat \<Rightarrow> 64 word list \<Rightarrow> bool" where
  "buckets_ok prev bs \<longleftrightarrow> length bs = hb_bucket_count \<and>
     (\<forall>i < length bs. bucket_minute (bs ! i) \<le> prev \<and>
        (bucket_count (bs ! i) \<noteq> 0 \<longrightarrow> bucket_minute (bs ! i) mod hb_bucket_count = i))"

lemma buckets_ok_empty: "buckets_ok prev (replicate hb_bucket_count 0)"
  by (simp add: buckets_ok_def)

lemma window_total_update:
  assumes "i < length bs"
  shows "window_total (bs[i := v]) lo hi + bucket_share lo hi (bs ! i)
       = window_total bs lo hi + bucket_share lo hi v"
proof -
  have "bs = take i bs @ bs ! i # drop (Suc i) bs" using assms by (rule id_take_nth_drop)
  then have "map (bucket_share lo hi) bs = map (bucket_share lo hi) (take i bs)
      @ bucket_share lo hi (bs ! i) # map (bucket_share lo hi) (drop (Suc i) bs)"
    by (metis list.simps(9) map_append)
  then show ?thesis
    using assms by (simp add: window_total_def upd_conv_take_nth_drop)
qed

lemma incrementBucket_cases:
  assumes ok: "buckets_ok prev bs" and m: "prev \<le> unat m" "unat m < 2 ^ 32"
    and room: "\<And>v. v \<in> set bs \<Longrightarrow> bucket_count v < 2 ^ 32 - 1"
  obtains i c where "i = unat m mod hb_bucket_count" "i < length bs"
    "incrementBucket bs m = bs[i := packHeartbeatBucket m c]"
    "if bucket_minute (bs ! i) = unat m then unat c = bucket_count (bs ! i) + 1 else unat c = 1"
proof -
  let ?i = "minuteIndex m"
  have len: "length bs = hb_bucket_count" using ok by (simp add: buckets_ok_def)
  have i: "?i < length bs" by (simp add: minuteIndex_def len hb_bucket_count_def)
  obtain m0 c0 where mc: "unpackHeartbeatBucket (bs ! ?i) = (m0, c0)" by force
  have c0: "unat c0 < 2 ^ 32 - 1"
    using room [OF nth_mem [OF i]] mc by (simp add: bucket_count_def)
  have "c0 \<noteq> - 1"
  proof
    assume "c0 = - 1"
    then have "unat c0 = 2 ^ 32 - 1" by (simp add: unsigned_minus_1_eq_mask mask_eq_exp_minus_1)
    with c0 show False by simp
  qed
  have eq: "bucket_minute (bs ! ?i) = unat m \<longleftrightarrow> m0 = m"
    using mc by (simp add: bucket_minute_def word_unat_eq_iff)
  have inc: "unat (c0 + 1) = unat c0 + 1"
    using c0 by (simp add: unat_word_ariths)
  show ?thesis
  proof (rule that [of ?i "if m0 = m then c0 + 1 else 1"])
    show "?i = unat m mod hb_bucket_count" by (simp add: minuteIndex_def)
    show "?i < length bs" by (rule i)
    show "incrementBucket bs m = bs[?i := packHeartbeatBucket m (if m0 = m then c0 + 1 else 1)]"
      using mc \<open>c0 \<noteq> - 1\<close> by (auto simp: incrementBucket_def Let_def)
    show "if bucket_minute (bs ! ?i) = unat m
      then unat (if m0 = m then c0 + 1 else 1) = bucket_count (bs ! ?i) + 1
      else unat (if m0 = m then c0 + 1 else (1 :: 32 word)) = 1"
      using eq inc mc by (auto simp: bucket_count_def)
  qed
qed

lemma incrementBucket_ok:
  assumes ok: "buckets_ok prev bs" and m: "prev \<le> unat m" "unat m < 2 ^ 32"
    and room: "\<And>v. v \<in> set bs \<Longrightarrow> bucket_count v < 2 ^ 32 - 1"
  shows "buckets_ok (unat m) (incrementBucket bs m)"
proof -
  obtain i c where i: "i = unat m mod hb_bucket_count" "i < length bs"
      "incrementBucket bs m = bs[i := packHeartbeatBucket m c]"
    using incrementBucket_cases [OF assms] by metis
  then show ?thesis
    using ok m by (fastforce simp: buckets_ok_def nth_list_update)
qed

lemma incrementBucket_window:
  assumes ok: "buckets_ok prev bs" and m: "prev \<le> unat m" "unat m < 2 ^ 32"
    and room: "\<And>v. v \<in> set bs \<Longrightarrow> bucket_count v < 2 ^ 32 - 1"
    and narrow: "unat m < lo + hb_bucket_count" and hi: "unat m \<le> hi"
  shows "window_total (incrementBucket bs m) lo hi
       = window_total bs lo hi + (if lo \<le> unat m then 1 else 0)"
proof -
  obtain i c where i: "i = unat m mod hb_bucket_count" "i < length bs"
      "incrementBucket bs m = bs[i := packHeartbeatBucket m c]"
      "if bucket_minute (bs ! i) = unat m then unat c = bucket_count (bs ! i) + 1 else unat c = 1"
    using incrementBucket_cases [OF ok m room] by metis
  have old: "bucket_share lo hi (bs ! i) = 0" if "bucket_minute (bs ! i) \<noteq> unat m"
  proof (cases "bucket_count (bs ! i) = 0")
    case False
    then have cong: "bucket_minute (bs ! i) mod hb_bucket_count = unat m mod hb_bucket_count"
      and le: "bucket_minute (bs ! i) \<le> unat m"
      using ok i(1,2) m(1) by (auto simp: buckets_ok_def)
    have "bucket_minute (bs ! i) + hb_bucket_count \<le> unat m"
      using mod_eq_gap [OF cong] le that by simp
    with narrow show ?thesis by (simp add: bucket_share_def)
  qed (simp add: bucket_share_def)
  have new: "bucket_share lo hi (packHeartbeatBucket m c) = (if lo \<le> unat m then unat c else 0)"
    using m(2) hi by (simp add: bucket_share_def)
  show ?thesis
    using window_total_update [OF i(2), of "packHeartbeatBucket m c" lo hi] i(3,4) old new hi
    by (auto simp: bucket_share_def split: if_splits)
qed

text \<open>Recording a whole history of events.\<close>

fun recordMinutes :: "64 word list \<Rightarrow> 64 word list \<Rightarrow> 64 word list" where
  "recordMinutes bs [] = bs"
| "recordMinutes bs (m # ms) = recordMinutes (incrementBucket bs m) ms"

definition bucket_mass :: "64 word list \<Rightarrow> nat" where
  "bucket_mass bs = sum_list (map bucket_count bs)"

lemma bucket_count_le_mass: "v \<in> set bs \<Longrightarrow> bucket_count v \<le> bucket_mass bs"
  by (simp add: bucket_mass_def member_le_sum_list)

lemma incrementBucket_mass:
  assumes "buckets_ok prev bs" "prev \<le> unat m" "unat m < 2 ^ 32"
    and "\<And>v. v \<in> set bs \<Longrightarrow> bucket_count v < 2 ^ 32 - 1"
  shows "bucket_mass (incrementBucket bs m) \<le> bucket_mass bs + 1"
proof -
  obtain i c where i: "i < length bs" "incrementBucket bs m = bs[i := packHeartbeatBucket m c]"
      "if bucket_minute (bs ! i) = unat m then unat c = bucket_count (bs ! i) + 1 else unat c = 1"
    using incrementBucket_cases [OF assms] by metis
  have "bs = take i bs @ bs ! i # drop (Suc i) bs" using i(1) by (rule id_take_nth_drop)
  then have "map bucket_count bs = map bucket_count (take i bs)
      @ bucket_count (bs ! i) # map bucket_count (drop (Suc i) bs)"
    by (metis list.simps(9) map_append)
  then show ?thesis
    using i assms(3) by (auto simp: bucket_mass_def upd_conv_take_nth_drop split: if_splits)
qed

lemma recordMinutes_window:
  assumes "buckets_ok prev bs" "sorted (prev # map unat ms)" "\<forall>m \<in> set ms. unat m < 2 ^ 32"
    and "bucket_mass bs + length ms < 2 ^ 32 - 1"
    and "\<forall>m \<in> set ms. unat m < lo + hb_bucket_count \<and> unat m \<le> hi"
  shows "window_total (recordMinutes bs ms) lo hi
       = window_total bs lo hi + length (filter (\<lambda>m. lo \<le> unat m) ms)"
  using assms
proof (induction ms arbitrary: prev bs)
  case Nil
  then show ?case by simp
next
  case (Cons m ms)
  have room: "bucket_count v < 2 ^ 32 - 1" if "v \<in> set bs" for v
    using bucket_count_le_mass [OF that] Cons.prems(4) by simp
  have m: "prev \<le> unat m" "unat m < 2 ^ 32" using Cons.prems(2,3) by auto
  note step = Cons.prems(1) m room
  have "window_total (recordMinutes (incrementBucket bs m) ms) lo hi
      = window_total (incrementBucket bs m) lo hi + length (filter (\<lambda>m. lo \<le> unat m) ms)"
    by (rule Cons.IH [OF incrementBucket_ok [OF step]])
      (use Cons.prems incrementBucket_mass [OF step] in auto)
  then show ?case
    using incrementBucket_window [OF step, of lo hi] Cons.prems(5) by auto
qed


section \<open>From clock readings to minutes\<close>

lemma unat_heartbeatMinute:
  assumes "0 \<le> t" "t div ns_minute < 2 ^ 32"
  shows "unat (heartbeatMinute t) = nat (t div ns_minute)"
proof -
  have "t div ns_second div 60 = t div ns_minute"
    using zdiv_zmult2_eq [of 60 t ns_second] by (simp add: ns_second_def ns_minute_def)
  then have "heartbeatMinute t = word_of_int (t div ns_minute)"
    using assms(1) by (simp add: heartbeatMinute_def ns_second_def pos_imp_zdiv_nonneg_iff)
  moreover have "0 \<le> t div ns_minute"
    using assms(1) by (simp add: ns_minute_def pos_imp_zdiv_nonneg_iff)
  ultimately show ?thesis
    using assms(2) by (simp add: unsigned_of_int take_bit_int_eq_self)
qed

fun noteSentTimes :: "hb_stats \<Rightarrow> gotime list \<Rightarrow> hb_stats" where
  "noteSentTimes h [] = h"
| "noteSentTimes h (t # ts) = noteSentTimes (noteHeartbeatSentAt t h) ts"

lemma noteSentTimes_buckets:
  "hs_sentBuckets (noteSentTimes h ts) = recordMinutes (hs_sentBuckets h) (map heartbeatMinute ts)"
  by (induction ts arbitrary: h) (simp_all add: noteHeartbeatSentAt_def)

lemma sorted_minutes:
  assumes "sorted ts" "\<forall>t \<in> set ts. 0 \<le> t \<and> t div ns_minute < 2 ^ 32"
  shows "sorted (map unat (map heartbeatMinute ts))"
proof -
  have eq: "map unat (map heartbeatMinute ts) = map (\<lambda>t. nat (t div ns_minute)) ts"
    using assms(2) by (simp add: unat_heartbeatMinute)
  have "sorted (map (\<lambda>t. nat (t div ns_minute)) ts)"
    using assms(1) by (rule sorted_map_mono) (auto intro!: mono_onI nat_mono zdiv_mono1 simp: ns_minute_def)
  then show ?thesis unfolding eq .
qed

section \<open>Connection trackers: losses never overtake sends\<close>

datatype hb_op = HSent gotime | HResponse | HLost gotime | HResetState | HResetStats | HClearSent

fun hb_step :: "hb_tracker \<times> hb_stats option \<Rightarrow> hb_op \<Rightarrow> hb_tracker \<times> hb_stats option" where
  "hb_step s (HSent t) = noteHeartbeatSent t s"
| "hb_step s HResponse = (markHeartbeatResponse (fst s), snd s)"
| "hb_step s (HLost t) = fst (markPendingHeartbeatLost t s)"
| "hb_step s HResetState = (resetHeartbeatState (fst s), snd s)"
| "hb_step s HResetStats = (resetHeartbeatStats (fst s), snd s)"
| "hb_step s HClearSent = (clearLastHeartbeatSent (fst s), snd s)"

fun hb_run :: "hb_tracker \<times> hb_stats option \<Rightarrow> hb_op list \<Rightarrow> hb_tracker \<times> hb_stats option" where
  "hb_run s [] = s"
| "hb_run s (x # xs) = hb_run (hb_step s x) xs"

definition hb_inv :: "nat \<Rightarrow> hb_tracker \<Rightarrow> bool" where
  "hb_inv n h \<longleftrightarrow> unat (ht_sentCount h) \<le> n \<and>
     unat (ht_lostCount h) + (if ht_awaitingAck h then 1 else 0) \<le> unat (ht_sentCount h)"

lemmas hb_op_defs = noteHeartbeatSent_def markHeartbeatResponse_def markPendingHeartbeatLost_def
  resetHeartbeatState_def resetHeartbeatStats_def clearLastHeartbeatSent_def

lemma unat_Suc_u64: "unat w < n \<Longrightarrow> n < 2 ^ 64 \<Longrightarrow> unat (w + 1 :: 64 word) = unat w + 1"
  by (simp add: unat_word_ariths)

lemma hb_step_inv [inv_rules]:
  assumes inv: "hb_inv n (fst s)" and n: "Suc n < 2 ^ 64"
  shows "hb_inv (Suc n) (fst (hb_step s x))"
proof -
  have s1: "unat (ht_sentCount (fst s) + 1) = unat (ht_sentCount (fst s)) + 1"
    using inv n by (intro unat_Suc_u64 [of _ "Suc n"]) (auto simp: hb_inv_def)
  have l1: "unat (ht_lostCount (fst s) + 1) = unat (ht_lostCount (fst s)) + 1" if "ht_awaitingAck (fst s)"
    using inv n that by (intro unat_Suc_u64 [of _ "Suc n"]) (auto simp: hb_inv_def)
  show ?thesis
    using inv s1 l1
    by (cases x; cases s) (auto simp: hb_inv_def hb_op_defs split: if_splits)
qed

lemma hb_run_inv:
  "hb_inv n (fst s) \<Longrightarrow> n + length xs < 2 ^ 64 \<Longrightarrow> hb_inv (n + length xs) (fst (hb_run s xs))"
proof (induction xs arbitrary: n s)
  case Nil
  then show ?case by simp
next
  case (Cons x xs)
  then show ?case using Cons.IH [OF hb_step_inv [OF Cons.prems(1)]] by simp
qed

lemma hb_inv_empty: "hb_inv 0 empty_hb_tracker"
  by (simp add: hb_inv_def empty_hb_tracker_def)

text \<open>A run of heartbeats that are never answered: each round notes the loss and sends again.\<close>

fun unansweredRounds :: "hb_tracker \<times> hb_stats option \<Rightarrow> gotime list \<Rightarrow> hb_tracker \<times> hb_stats option" where
  "unansweredRounds s [] = s"
| "unansweredRounds s (t # ts) =
     unansweredRounds (noteHeartbeatSent t (fst (markPendingHeartbeatLost t s))) ts"

lemma unansweredRounds_loss:
  assumes "ht_awaitingAck (fst s)" "unat (ht_consecutiveLoss (fst s)) + length ts < 2 ^ 31 - 1"
  shows "ht_awaitingAck (fst (unansweredRounds s ts)) \<and>
    unat (ht_consecutiveLoss (fst (unansweredRounds s ts)))
      = unat (ht_consecutiveLoss (fst s)) + length ts"
  using assms
proof (induction ts arbitrary: s)
  case Nil
  then show ?case by simp
next
  case (Cons t ts)
  let ?s = "noteHeartbeatSent t (fst (markPendingHeartbeatLost t s))"
  have aw: "ht_awaitingAck (fst ?s)" by (simp add: hb_op_defs split: prod.splits)
  have cl: "unat (ht_consecutiveLoss (fst ?s)) = unat (ht_consecutiveLoss (fst s)) + 1"
    using Cons.prems by (cases s) (simp add: hb_op_defs unat_word_ariths)
  show ?case using Cons.IH [OF aw] cl Cons.prems by simp
qed

lemma sint_small_u32: "unat w < 2 ^ 31 \<Longrightarrow> sint (w :: 32 word) = int (unat w)"
  using uint_less_power [of w 31] order_trans [OF _ uint_ge_0, of "- 2147483648" w]
  by (simp add: sint_uint signed_take_bit_int_eq_self)

lemma window_total_replicate: "window_total (replicate n 0) lo hi = 0"
  by (simp add: window_total_def sum_list_replicate bucket_share_def)

lemma windowAt_sent:
  assumes sorted: "sorted ts" and range: "\<forall>t \<in> set ts. 0 \<le> t \<and> t \<le> now"
    and now: "60 * ns_minute \<le> now" "now div ns_minute < 2 ^ 32"
    and few: "length ts < 2 ^ 32 - 1" and k: "0 \<le> k" "k \<le> 60"
  shows "unat (hw_sent (windowAt r (noteSentTimes empty_hb_stats ts) now (k * ns_minute)))
       = length (filter (\<lambda>t. (now - k * ns_minute) div ns_minute \<le> t div ns_minute) ts)"
proof -
  let ?ms = "map heartbeatMinute ts"
  let ?bs = "recordMinutes (replicate hb_bucket_count 0) ?ms"
  let ?lo = "nat ((now - k * ns_minute) div ns_minute)" and ?hi = "nat (now div ns_minute)"
  have pos: "0 < ns_minute" by (simp add: ns_minute_def)
  have cut: "(now - k * ns_minute) div ns_minute = now div ns_minute - k"
    using pos div_mult_self1 [of ns_minute now "- k"] by (simp add: algebra_simps)
  have now60: "60 \<le> now div ns_minute"
    using zdiv_mono1 [OF now(1) pos] pos by simp
  have kmin: "k * ns_minute \<le> now" using k now(1) pos
    by (meson mult_right_mono order_trans less_imp_le)
  have ulo: "unat (heartbeatMinute (now - k * ns_minute)) = ?lo"
    by (rule unat_heartbeatMinute) (use kmin cut k now(2) in auto)
  have uhi: "unat (heartbeatMinute now) = ?hi"
    by (rule unat_heartbeatMinute) (use now pos in auto)
  have um: "unat (heartbeatMinute t) = nat (t div ns_minute)"
      "t div ns_minute \<le> now div ns_minute" "0 \<le> t div ns_minute" if "t \<in> set ts" for t
  proof -
    show le: "t div ns_minute \<le> now div ns_minute"
      using range that pos by (auto intro: zdiv_mono1)
    show "0 \<le> t div ns_minute" using range that pos by (simp add: pos_imp_zdiv_nonneg_iff)
    show "unat (heartbeatMinute t) = nat (t div ns_minute)"
      by (rule unat_heartbeatMinute) (use range that le now(2) in auto)
  qed
  have tot: "window_total ?bs ?lo ?hi = length (filter (\<lambda>m. ?lo \<le> unat m) ?ms)"
  proof -
    have "window_total ?bs ?lo ?hi = window_total (replicate hb_bucket_count 0) ?lo ?hi
        + length (filter (\<lambda>m. ?lo \<le> unat m) ?ms)"
    proof (rule recordMinutes_window [where prev = 0])
      show "sorted (0 # map unat ?ms)"
        using sorted_minutes [OF sorted] range now(2) um(2) by fastforce
      show "\<forall>m \<in> set ?ms. unat m < 2 ^ 32" using um now(2) by fastforce
      show "\<forall>m \<in> set ?ms. unat m < ?lo + hb_bucket_count \<and> unat m \<le> ?hi"
        using um cut k by (fastforce simp: hb_bucket_count_def nat_le_iff)
    qed (use few buckets_ok_empty in \<open>simp_all add: bucket_mass_def sum_list_replicate\<close>)
    then show ?thesis by (simp add: window_total_replicate)
  qed
  have "length (filter (\<lambda>m. ?lo \<le> unat m) ?ms)
      = length (filter (\<lambda>t. (now - k * ns_minute) div ns_minute \<le> t div ns_minute) ts)"
  proof -
    have "?lo \<le> unat (heartbeatMinute t) \<longleftrightarrow> (now - k * ns_minute) div ns_minute \<le> t div ns_minute"
      if "t \<in> set ts" for t
      using um [OF that] by (simp add: nat_le_eq_zle)
    then show ?thesis by (simp add: filter_map o_def cong: filter_cong)
  qed
  moreover have "window_total ?bs ?lo ?hi < 2 ^ 64"
    unfolding tot by (rule order_le_less_trans [OF length_filter_le]) (use few in simp)
  ultimately show ?thesis
    using tot ulo uhi countBucketsInRange_total
      [of ?bs "heartbeatMinute (now - k * ns_minute)" "heartbeatMinute now"]
    by (simp add: windowAt_def newHeartbeatWindowStats_def noteSentTimes_buckets empty_hb_stats_def)
qed

lemma percent_range:
  assumes "ieee_like r" "0 \<le> l" "l \<le> s" "0 < s" "s \<le> 2 ^ 46"
  shows "0 \<le> fl_div r (fl_mul r (fl_of_int r l) 100) (fl_of_int r s) \<and>
    fl_div r (fl_mul r (fl_of_int r l) 100) (fl_of_int r s) \<le> 100"
proof -
  have "r (of_int s) = of_int s" "r (of_int l) = of_int l" "r (of_int (l * 100)) = of_int (l * 100)"
    using assms by (intro ieee_exact; simp)+
  then have q: "fl_div r (fl_mul r (fl_of_int r l) 100) (fl_of_int r s) = r (of_int l * 100 / of_int s)"
    by (simp add: fl_defs)
  have "0 \<le> (of_int l * 100 / of_int s :: rat)" "of_int l * 100 / of_int s \<le> (100 :: rat)"
    using assms by (simp_all add: divide_le_eq)
  then have "r 0 \<le> r (of_int l * 100 / of_int s)" "r (of_int l * 100 / of_int s) \<le> r 100"
    using ieee_mono [OF assms(1)] by auto
  then show ?thesis unfolding q by (simp add: ieee_const [OF assms(1)])
qed

lemma lossRate_range:
  assumes r: "ieee_like r" and le: "unat lost \<le> unat sent" and small: "unat sent \<le> 2 ^ 46"
  shows "0 \<le> lossRate r sent lost \<and> lossRate r sent lost \<le> 100"
proof (cases "0 < sent")
  case True
  then have "0 < uint sent" by (simp add: word_less_def)
  then show ?thesis
    using True percent_range [OF r uint_ge_0 uint_le_uint [OF le] _ uint_le_power [OF small]]
    by (simp only: lossRate_def if_True)
qed (simp add: lossRate_def)

section \<open>Properties\<close>

text \<open>Heartbeats sent at sorted times up to \<open>now\<close> are counted exactly by the five-minute and
  one-hour windows of a snapshot taken at \<open>now\<close>: each window's \<open>Sent\<close> is the number of recorded
  heartbeats whose minute lies between the window's first minute and the current one.\<close>

theorem snapshot_counts_sent:
  assumes "sorted ts" and "\<forall>t \<in> set ts. 0 \<le> t \<and> t \<le> now"
    and "60 * ns_minute \<le> now" and "now div ns_minute < 2 ^ 32"
    and "length ts < 2 ^ 32 - 1"
  shows "unat (hw_sent (hp_last1h (snapshotAt r (noteSentTimes empty_hb_stats ts) now)))
       = length (filter (\<lambda>t. (now - 60 * ns_minute) div ns_minute \<le> t div ns_minute) ts)
    \<and> unat (hw_sent (hp_last5m (snapshotAt r (noteSentTimes empty_hb_stats ts) now)))
       = length (filter (\<lambda>t. (now - 5 * ns_minute) div ns_minute \<le> t div ns_minute) ts)"
  using windowAt_sent [OF assms, of 60 r] windowAt_sent [OF assms, of 5 r]
  by (simp add: snapshotAt_def)

theorem snapshot_counts_sent_witness:
  "unat (hw_sent (hp_last1h (snapshotAt id (noteSentTimes empty_hb_stats
      [100 * ns_minute, 170 * ns_minute, 199 * ns_minute]) (200 * ns_minute)))) = 2"
  using snapshot_counts_sent [of "[100 * ns_minute, 170 * ns_minute, 199 * ns_minute]"
      "200 * ns_minute" id]
  by (simp add: ns_minute_def)

text \<open>Over any sequence of at most \<open>2 ^ 46\<close> tracker operations (sends, responses, loss
  checks, resets) the lost count never exceeds the sent count, and the reported loss rate lies
  between 0 and 100 for every rounding that is monotone and exact on 53-bit integers.\<close>

theorem tracker_loss_bounded:
  assumes "length xs \<le> 2 ^ 46" and "ieee_like r"
    and "h = fst (hb_run (empty_hb_tracker, st) xs)"
  shows "unat (ht_lostCount h) \<le> unat (ht_sentCount h) \<and>
    0 \<le> snd (snd (heartbeatStats r h)) \<and> snd (snd (heartbeatStats r h)) \<le> 100"
proof -
  have inv: "hb_inv (length xs) h"
    using hb_run_inv [of 0 "(empty_hb_tracker, st)" xs] hb_inv_empty assms(1,3) by simp
  then have "unat (ht_lostCount h) \<le> unat (ht_sentCount h)" "unat (ht_sentCount h) \<le> 2 ^ 46"
    using assms(1) by (auto simp: hb_inv_def split: if_splits)
  then show ?thesis using lossRate_range [OF assms(2)] by (simp add: heartbeatStats_def)
qed

theorem tracker_loss_bounded_witness:
  "unat (ht_lostCount (fst (hb_run (empty_hb_tracker, None) [HSent 5, HLost 9, HSent 10])))
   \<le> unat (ht_sentCount (fst (hb_run (empty_hb_tracker, None) [HSent 5, HLost 9, HSent 10])))"
  using tracker_loss_bounded [of "[HSent 5, HLost 9, HSent 10]" id _ None, OF _ ieee_like_id refl]
  by simp

text \<open>A peer that stops answering is noticed after the configured number of rounds: once a
  heartbeat is outstanding, the k-th further unanswered round makes the loss check return
  exactly k more consecutive losses, so the disconnect thresholds of the callers are reached.\<close>

theorem unanswered_rounds_counted:
  assumes "ht_awaitingAck (fst s)" and "unat (ht_consecutiveLoss (fst s)) + length ts < 2 ^ 31 - 1"
  shows "snd (markPendingHeartbeatLost t (unansweredRounds s ts))
    = int (unat (ht_consecutiveLoss (fst s)) + length ts + 1)"
proof -
  let ?h = "fst (unansweredRounds s ts)"
  have h: "ht_awaitingAck ?h"
      "unat (ht_consecutiveLoss ?h) = unat (ht_consecutiveLoss (fst s)) + length ts"
    using unansweredRounds_loss [OF assms] by auto
  then have "unat (ht_consecutiveLoss ?h + 1) = unat (ht_consecutiveLoss (fst s)) + length ts + 1"
    using assms(2) by (simp add: unat_word_ariths)
  then show ?thesis
    using h assms(2) by (simp add: markPendingHeartbeatLost_def split_beta sint_small_u32)
qed

theorem unanswered_rounds_counted_witness:
  "snd (markPendingHeartbeatLost 50 (unansweredRounds
     (noteHeartbeatSent 0 (empty_hb_tracker, None)) [10, 20, 30, 40])) = 5"
  using unanswered_rounds_counted
    [of "noteHeartbeatSent 0 (empty_hb_tracker, None)" "[10, 20, 30, 40]" 50]
  by (simp add: noteHeartbeatSent_def empty_hb_tracker_def)

end
