(* ===== verification/Packet.thy ===== *)
theory Packet
  imports Prelude "HOL-Library.Monad_Syntax"
begin

text \<open>
  \<open>src/packet.go\<close>, the buffer part of \<open>src/router.go\<close> and \<open>src/component.go\<close>: packets, the
  pooled buffers they own, reference counts, connection ids and the send-delay window of a
  component. A buffer is a slice of pool memory; the contents of a buffer the pool hands out
  are arbitrary and are an argument of the operations that call \<open>GetBuffer\<close>.
\<close>

section \<open>Slice operations that may panic\<close>

text \<open>Run an operation on \<open>s[i:j]\<close> or \<open>s[off:]\<close>; it writes the shared memory of \<open>s\<close>.\<close>

definition sl_in :: "slice \<Rightarrow> int \<Rightarrow> int \<Rightarrow> (slice \<Rightarrow> slice option) \<Rightarrow> slice option" where
  "sl_in s i j f = do {
     t \<leftarrow> sl_range s i j;
     t' \<leftarrow> f t;
     Some (s\<lparr>sl_mem := take (nat i) (sl_mem s) @ sl_mem t'\<rparr>)
   }"

definition sl_at :: "slice \<Rightarrow> int \<Rightarrow> (slice \<Rightarrow> slice option) \<Rightarrow> slice option" where
  "sl_at s off f = sl_in s off (sl_len s) f"

definition sl_put64 :: "64 word \<Rightarrow> slice \<Rightarrow> slice option" where
  "sl_put64 v s = (if 8 \<le> sl_len s then Some (s\<lparr>sl_mem := blit (sl_mem s) 0 (put_u64 v)\<rparr>) else None)"

text \<open>The built-in \<open>copy\<close> stops at the shorter of the two slices.\<close>

definition sl_copy :: "bytes \<Rightarrow> slice \<Rightarrow> slice option" where
  "sl_copy src s = Some (s\<lparr>sl_mem := blit (sl_mem s) 0 (take (nat (sl_len s)) src)\<rparr>)"

definition sl_get64 :: "slice \<Rightarrow> 64 word option" where
  "sl_get64 s = (if 8 \<le> sl_len s then Some (get_u64 (sl_mem s)) else None)"

lemma sl_at_put64:
  assumes "0 \<le> off" "off + 8 \<le> sl_len s" "sl_wf s"
  shows "sl_at s off (sl_put64 v) = Some (s\<lparr>sl_mem := blit (sl_mem s) (nat off) (put_u64 v)\<rparr>)"
proof -
  have "nat off + 8 \<le> length (sl_mem s)" using assms by (simp add: sl_wf_def sl_cap_def)
  moreover have "take (nat off) m @ blit (drop (nat off) m) 0 (put_u64 v) = blit m (nat off) (put_u64 v)"
    if "nat off + 8 \<le> length m" for m :: bytes
    using that by (simp add: blit_fits add.commute)
  ultimately show ?thesis
    using assms by (simp add: sl_at_def sl_in_def sl_range_def sl_put64_def sl_wf_def sl_cap_def)
qed

lemma sl_at_None: "off < 0 \<or> sl_len s < off \<Longrightarrow> sl_at s off f = None"
  by (auto simp: sl_at_def sl_in_def sl_range_def)

lemma sl_at_put64_None: "sl_len s < off + 8 \<Longrightarrow> sl_at s off (sl_put64 v) = None"
  by (auto simp: sl_at_def sl_in_def sl_range_def sl_put64_def option_bind_eq_Some split: option.splits)

lemma sl_in_copy:
  assumes "0 \<le> i" "i \<le> j" "j \<le> sl_cap s"
  shows "sl_in s i j (sl_copy d) =
    Some (s\<lparr>sl_mem := blit (sl_mem s) (nat i) (take (nat (j - i)) d)\<rparr>)"
proof -
  have "take (nat i) m @ blit (drop (nat i) m) 0 x = blit m (nat i) x" if "nat i \<le> length m" for m x :: bytes
    using that by (auto simp: blit_def add.commute)
  moreover have "nat i \<le> length (sl_mem s)" using assms by (simp add: sl_cap_def)
  ultimately show ?thesis using assms by (simp add: sl_in_def sl_range_def sl_copy_def sl_cap_def)
qed

section \<open>Addresses, packets and the buffer pool\<close>

text \<open>\<open>net.Addr\<close> values: the IP is the byte slice of \<open>net.IP\<close>.\<close>

datatype addr = UDPAddr bytes int string | TCPAddr bytes int string | OtherAddr string

record packet =
  pk_buf :: slice
  pk_offset :: int
  pk_length :: int
  pk_srcAddr :: "addr option"
  pk_srcTag :: string
  pk_count :: "32 word"
  pk_proto :: string
  pk_connID :: "64 word"
  pk_batchID :: "64 word"
  pk_noDrop :: bool

record router_config =
  rc_bufferSize :: int
  rc_bufferOffset :: int
  rc_queueSize :: int
  rc_workerCount :: int

text \<open>The defaults \<open>NewRouter\<close> puts in.\<close>

definition newRouterConfig :: "router_config \<Rightarrow> router_config" where
  "newRouterConfig c = \<lparr>
     rc_bufferSize = (if rc_bufferSize c \<le> 0 then 1500 else rc_bufferSize c),
     rc_bufferOffset = (if rc_bufferOffset c \<le> 0 then 64 else rc_bufferOffset c),
     rc_queueSize = (if rc_queueSize c \<le> 0 then 10240 else rc_queueSize c),
     rc_workerCount = (if rc_workerCount c \<le> 0 then 4 else rc_workerCount c)\<rparr>"

definition poolSize :: "router_config \<Rightarrow> int" where
  "poolSize c = rc_bufferSize c + rc_bufferOffset c"

text \<open>Memory the pool hands out.\<close>

definition pool_mem :: "router_config \<Rightarrow> bytes \<Rightarrow> bool" where
  "pool_mem c m \<longleftrightarrow> int (length m) = poolSize c"

text \<open>\<open>PutBuffer\<close> reslices to the pool size, which panics for a buffer that is too small.\<close>

definition putBuffer :: "router_config \<Rightarrow> slice \<Rightarrow> slice option" where
  "putBuffer c s = sl_range s 0 (poolSize c)"

definition getData :: "packet \<Rightarrow> slice option" where
  "getData p = sl_range (pk_buf p) (pk_offset p) (pk_offset p + pk_length p)"

definition bufAtOffset :: "packet \<Rightarrow> slice option" where
  "bufAtOffset p = sl_from (pk_buf p) (pk_offset p)"

definition setBuffer :: "router_config \<Rightarrow> slice \<Rightarrow> packet \<Rightarrow> packet option" where
  "setBuffer c b p = do {
     _ \<leftarrow> putBuffer c (pk_buf p);
     Some (p\<lparr>pk_buf := b, pk_length := sl_len b\<rparr>)
   }"

definition addRef :: "32 word \<Rightarrow> packet \<Rightarrow> packet" where
  "addRef n p = p\<lparr>pk_count := pk_count p + n\<rparr>"

text \<open>The flag tells whether the buffer went back to the pool.\<close>

definition release :: "router_config \<Rightarrow> 32 word \<Rightarrow> packet \<Rightarrow> (packet \<times> bool) option" where
  "release c n p =
     (let p' = p\<lparr>pk_count := pk_count p - n\<rparr>
      in if sint (pk_count p') \<le> 0
         then do { _ \<leftarrow> putBuffer c (pk_buf p'); Some (p', True) }
         else Some (p', False))"

text \<open>\<open>Copy\<close>: a fresh buffer \<open>m\<close>, reference count 1, same offset and data.\<close>

definition copyPacket :: "bytes \<Rightarrow> packet \<Rightarrow> packet option" where
  "copyPacket m p =
     (let q = p\<lparr>pk_buf := full_slice m, pk_count := 1\<rparr>
      in if 0 < pk_length p
         then do {
           src \<leftarrow> getData p;
           dst \<leftarrow> sl_range (pk_buf q) (pk_offset q) (pk_offset q + pk_length q);
           dst' \<leftarrow> sl_copy (sl_data src) dst;
           Some (q\<lparr>pk_buf := (pk_buf q)\<lparr>sl_mem := take (nat (pk_offset q)) m @ sl_mem dst'\<rparr>\<rparr>)
         }
         else Some q)"

definition getPacketWithBuffer :: "string \<Rightarrow> slice \<Rightarrow> int \<Rightarrow> packet" where
  "getPacketWithBuffer tag b off = \<lparr>pk_buf = b, pk_offset = off, pk_length = 0,
     pk_srcAddr = None, pk_srcTag = tag, pk_count = 1, pk_proto = '''', pk_connID = 0,
     pk_batchID = 0, pk_noDrop = False\<rparr>"

definition getPacket :: "router_config \<Rightarrow> bytes \<Rightarrow> string \<Rightarrow> packet" where
  "getPacket c m tag = getPacketWithBuffer tag (full_slice m) (rc_bufferOffset c)"

text \<open>Writing a control message into a packet: \<open>f\<close> writes it at the offset and tells its length.\<close>

definition fillPacket :: "(slice \<Rightarrow> (slice \<times> int) option) \<Rightarrow> packet \<Rightarrow> (packet \<times> int) option" where
  "fillPacket f p = do {
     b \<leftarrow> bufAtOffset p;
     (b', n) \<leftarrow> f b;
     Some (p\<lparr>pk_buf := (pk_buf p)\<lparr>sl_mem := take (nat (pk_offset p)) (sl_mem (pk_buf p)) @ sl_mem b'\<rparr>\<rparr>, n)
   }"

text \<open>A packet whose data lies inside its buffer, which came from the pool.\<close>

definition pk_wf :: "router_config \<Rightarrow> packet \<Rightarrow> bool" where
  "pk_wf c p \<longleftrightarrow> pool_mem c (sl_mem (pk_buf p)) \<and> 0 \<le> pk_offset p \<and> 0 \<le> pk_length p \<and>
     pk_offset p + pk_length p \<le> poolSize c \<and>
     0 \<le> sl_len (pk_buf p) \<and> sl_len (pk_buf p) \<le> poolSize c"

text \<open>The bytes the packet carries.\<close>

definition pk_bytes :: "packet \<Rightarrow> bytes" where
  "pk_bytes p = take (nat (pk_length p)) (drop (nat (pk_offset p)) (sl_mem (pk_buf p)))"

lemma getData_wf:
  assumes "pk_wf c p"
  shows "getData p = Some \<lparr>sl_mem = drop (nat (pk_offset p)) (sl_mem (pk_buf p)), sl_len = pk_length p\<rparr>"
  using assms by (simp add: getData_def sl_range_def pk_wf_def pool_mem_def sl_cap_def)

lemma sl_data_getData: "getData p = Some s \<Longrightarrow> sl_data s = pk_bytes p"
  by (auto simp: getData_def sl_range_def sl_data_def pk_bytes_def split: if_splits)

lemma length_pk_bytes: "pk_wf c p \<Longrightarrow> int (length (pk_bytes p)) = pk_length p"
  by (auto simp: pk_wf_def pk_bytes_def pool_mem_def)

lemma putBuffer_pool: "pool_mem c (sl_mem s) \<Longrightarrow> 0 \<le> poolSize c \<Longrightarrow> putBuffer c s \<noteq> None"
  by (simp add: putBuffer_def sl_range_def pool_mem_def sl_cap_def)

lemma setBuffer_wf:
  "pk_wf c p \<Longrightarrow> setBuffer c b p = Some (p\<lparr>pk_buf := b, pk_length := sl_len b\<rparr>)"
  by (simp add: setBuffer_def putBuffer_def sl_range_def pk_wf_def pool_mem_def sl_cap_def)

lemma copyPacket_wf:
  assumes wf: "pk_wf c p" and m: "pool_mem c m"
  shows "\<exists>q. copyPacket m p = Some q \<and> pk_wf c q \<and> pk_bytes q = pk_bytes p \<and> pk_count q = 1
    \<and> pk_srcTag q = pk_srcTag p \<and> pk_connID q = pk_connID p"
proof (cases "0 < pk_length p")
  case True
  let ?o = "nat (pk_offset p)" and ?l = "nat (pk_length p)"
  have lens: "length (sl_mem (pk_buf p)) = length m" "?o + ?l \<le> length m" "?o \<le> length m"
    using wf m by (auto simp: pk_wf_def pool_mem_def)
  have cap: "int ?o + int ?l \<le> int (length m)" using lens by linarith
  let ?mem = "take ?o m @ blit (drop ?o m) 0 (pk_bytes p)"
  have len_b: "length (pk_bytes p) = ?l" using lens by (simp add: pk_bytes_def)
  have "copyPacket m p = Some (p\<lparr>pk_buf := \<lparr>sl_mem = ?mem, sl_len = int (length m)\<rparr>, pk_count := 1\<rparr>)"
    using True wf m cap len_b
    by (auto simp: copyPacket_def getData_wf [OF wf] sl_range_def full_slice_def sl_cap_def
        sl_copy_def pk_wf_def pool_mem_def sl_data_def pk_bytes_def)
  moreover have "drop ?o ?mem = pk_bytes p @ drop (?o + ?l) m"
    using lens len_b by (simp add: blit_fits add.commute)
  then have "take ?l (drop ?o ?mem) = pk_bytes p" using len_b by simp
  ultimately show ?thesis
    using wf m lens by (auto simp: pk_wf_def pool_mem_def pk_bytes_def)
next
  case False
  then have "pk_length p = 0" using wf by (simp add: pk_wf_def)
  then show ?thesis
    using wf m by (auto simp: copyPacket_def pk_wf_def pool_mem_def full_slice_def pk_bytes_def)
qed

section \<open>Connection ids\<close>

text \<open>
  \<open>ConnID\<close>, \<open>PoolID\<close> and \<open>ForwardID\<close> are 8-byte arrays. The model keeps the 64-bit value
  \<open>ToUint64\<close> reads from them, so that the array itself is \<open>put_u64\<close> of the value.
\<close>

type_synonym conn_id = "64 word"

text \<open>\<open>copy(id[:], data)\<close> for short data leaves the rest of the array zero.\<close>

definition idFromBytes :: "bytes \<Rightarrow> conn_id" where
  "idFromBytes d = get_u64 (if length d < 8 then d @ replicate (8 - length d) 0 else take 8 d)"

lemma idFromBytes_put [simp]: "idFromBytes (put_u64 w) = w"
  by (simp add: idFromBytes_def)

section \<open>The send queue delay window\<close>

record base_component =
  bc_delays :: "duration list"
  bc_delayIndex :: "32 word"

definition newBaseComponent :: base_component where
  "newBaseComponent = \<lparr>bc_delays = replicate 10 0, bc_delayIndex = 0\<rparr>"

definition setSendQueueDelay :: "duration \<Rightarrow> base_component \<Rightarrow> base_component" where
  "setSendQueueDelay d b = b\<lparr>bc_delayIndex := bc_delayIndex b + 1,
     bc_delays := (bc_delays b)[unat ((bc_delayIndex b + 1) mod 10) := d]\<rparr>"

text \<open>Sum and number of the positive entries; the sum is a 64-bit duration.\<close>

fun positive_sum :: "duration list \<Rightarrow> duration \<times> int" where
  "positive_sum [] = (0, 0)"
| "positive_sum (d # ds) =
     (let (total, count) = positive_sum ds
      in if 0 < d then (i64 (d + total), count + 1) else (total, count))"

definition average_positive :: "duration list \<Rightarrow> duration" where
  "average_positive ds =
     (let (total, count) = positive_sum ds in if count = 0 then 0 else go_quot total count)"

definition getAverageSendQueueDelay :: "base_component \<Rightarrow> duration" where
  "getAverageSendQueueDelay b = average_positive (bc_delays b)"

lemma i64_id: "min_i64 \<le> x \<Longrightarrow> x \<le> max_i64 \<Longrightarrow> i64 x = x"
  by (simp add: i64_def sint_sbintrunc' signed_take_bit_int_eq_self min_i64_def max_i64_def)

lemma positive_sum_bounds:
  assumes "\<forall>d \<in> set ds. d \<le> hi" "0 \<le> hi" "int (length ds) * hi \<le> max_i64"
  shows "0 \<le> fst (positive_sum ds) \<and> fst (positive_sum ds) \<le> snd (positive_sum ds) * hi \<and>
    0 \<le> snd (positive_sum ds) \<and> snd (positive_sum ds) \<le> int (length ds)"
  using assms
proof (induction ds)
  case Nil
  then show ?case by simp
next
  case (Cons d ds)
  obtain t n where tn: "positive_sum ds = (t, n)" by force
  have le: "int (length ds) * hi \<le> max_i64"
    using Cons.prems(2,3) by (simp add: algebra_simps)
  have IH: "0 \<le> t" "t \<le> n * hi" "0 \<le> n" "n \<le> int (length ds)"
    using Cons.IH Cons.prems le tn by auto
  have "d + t \<le> (n + 1) * hi" using IH Cons.prems(1) by (simp add: algebra_simps)
  also have "\<dots> \<le> int (length (d # ds)) * hi"
    using IH Cons.prems(2) by (intro mult_right_mono) auto
  finally have "d + t \<le> max_i64" using Cons.prems(3) by simp
  then show ?case
    using IH tn Cons.prems(1) by (auto simp: i64_id min_i64_def algebra_simps)
qed

lemma average_positive_bounds:
  assumes "\<forall>d \<in> set ds. d \<le> hi" "0 \<le> hi" "int (length ds) * hi \<le> max_i64"
  shows "0 \<le> average_positive ds \<and> average_positive ds \<le> hi"
proof -
  obtain t n where tn: "positive_sum ds = (t, n)" by force
  have b: "0 \<le> t" "t \<le> n * hi" "0 \<le> n" using positive_sum_bounds [OF assms] tn by auto
  show ?thesis
  proof (cases "n = 0")
    case True
    then show ?thesis using tn assms(2) by (simp add: average_positive_def)
  next
    case False
    then have "0 < n" using b by simp
    then have "t div n \<le> hi"
      using b zdiv_mono1 [OF b(2), of n] by simp
    then show ?thesis
      using tn b \<open>0 < n\<close> by (simp add: average_positive_def pos_imp_zdiv_nonneg_iff)
  qed
qed

end
