(* ===== verification/Dedup.thy ===== *)
theory Dedup
  imports Packet
begin

unbundle bit_operations_syntax

text \<open>
  The deduplication manager of \<open>src/auth_protocol.go\<close>: nonces made of an 8-byte frame id and a
  32-bit sequence number, one bitmap of used sequence numbers per frame, and the cleanup of
  frames that were not used for two minutes. The abstract specification is a set of used
  (frame, sequence) pairs; the locale \<open>replay_window\<close> states what the receive path needs of it.
\<close>

definition BitmapSize :: nat where
  "BitmapSize = 65535"

definition FrameTimeout :: duration where
  "FrameTimeout = 2 * ns_minute"

record frame_tracker =
  ft_frameID :: bytes
  ft_bitmap :: "64 word list"
  ft_lastAccess :: gotime

record dedup =
  dm_frames :: "bytes \<rightharpoonup> frame_tracker"
  dm_currentFrame :: bytes
  dm_currentSeq :: "32 word"

text \<open>The first 8 bytes of a nonce and its last 4.\<close>

definition nonceFrame :: "bytes \<Rightarrow> bytes" where
  "nonceFrame nonce = take 8 nonce"

definition nonceSeq :: "bytes \<Rightarrow> 32 word" where
  "nonceSeq nonce = get_u32 (drop 8 nonce)"

text \<open>\<open>rand\<close> is what \<open>rand.Read\<close> yields for the initial frame id.\<close>

definition newDeduplicationManager :: "bytes \<Rightarrow> dedup" where
  "newDeduplicationManager rand = \<lparr>dm_frames = Map.empty, dm_currentFrame = rand, dm_currentSeq = 0\<rparr>"

text \<open>\<open>rand = None\<close> is a failing random source; it is only read when the frame is exhausted.\<close>

definition generateNextNonce :: "bytes option \<Rightarrow> dedup \<Rightarrow> dedup \<times> bytes option" where
  "generateNextNonce rand dm =
     (if BitmapSize - 1 < unat (dm_currentSeq dm)
      then (case rand of
          None \<Rightarrow> (dm, None)
        | Some frame \<Rightarrow> (dm\<lparr>dm_currentFrame := frame, dm_currentSeq := 1\<rparr>,
            Some (frame @ put_u32 0)))
      else (dm\<lparr>dm_currentSeq := dm_currentSeq dm + 1\<rparr>,
            Some (dm_currentFrame dm @ put_u32 (dm_currentSeq dm))))"

definition setSeqBit :: "64 word list \<Rightarrow> 32 word \<Rightarrow> 64 word list" where
  "setSeqBit bm s = bm[unat (s div 64) := bm ! unat (s div 64) OR push_bit (unat (s mod 64)) 1]"

definition testSeqBit :: "64 word list \<Rightarrow> 32 word \<Rightarrow> bool" where
  "testSeqBit bm s \<longleftrightarrow> (bm ! unat (s div 64)) AND push_bit (unat (s mod 64)) 1 \<noteq> 0"

definition newTracker :: "bytes \<Rightarrow> gotime \<Rightarrow> frame_tracker" where
  "newTracker frame now = \<lparr>ft_frameID = frame,
     ft_bitmap = replicate ((BitmapSize + 63) div 64) 0, ft_lastAccess = now\<rparr>"

definition markAsUsed :: "gotime \<Rightarrow> bytes \<Rightarrow> dedup \<Rightarrow> dedup" where
  "markAsUsed now nonce dm =
     (let frame = nonceFrame nonce;
          s = nonceSeq nonce;
          t0 = (case dm_frames dm frame of None \<Rightarrow> newTracker frame now | Some t \<Rightarrow> t);
          t1 = t0\<lparr>ft_lastAccess := now\<rparr>;
          t2 = (if BitmapSize \<le> unat s then t1 else t1\<lparr>ft_bitmap := setSeqBit (ft_bitmap t1) s\<rparr>)
      in dm\<lparr>dm_frames := (dm_frames dm)(frame \<mapsto> t2)\<rparr>)"

definition isDuplicate :: "bytes \<Rightarrow> dedup \<Rightarrow> bool" where
  "isDuplicate nonce dm =
     (case dm_frames dm (nonceFrame nonce) of
        None \<Rightarrow> False
      | Some t \<Rightarrow> (if BitmapSize \<le> unat (nonceSeq nonce) then False
                   else testSeqBit (ft_bitmap t) (nonceSeq nonce)))"

definition cleanupExpiredFrames :: "gotime \<Rightarrow> dedup \<Rightarrow> dedup" where
  "cleanupExpiredFrames now dm = dm\<lparr>dm_frames :=
     (\<lambda>f. case dm_frames dm f of None \<Rightarrow> None
        | Some t \<Rightarrow> if ft_lastAccess t < now - FrameTimeout then None else Some t)\<rparr>"

section \<open>Bitmaps\<close>

text \<open>The representation invariant: every tracker has the full bitmap.\<close>

definition dedup_inv :: "dedup \<Rightarrow> bool" where
  "dedup_inv dm \<longleftrightarrow> (\<forall>f t. dm_frames dm f = Some t \<longrightarrow>
     length (ft_bitmap t) = (BitmapSize + 63) div 64)"

lemma seq_div_bound:
  fixes s :: "32 word"
  assumes "unat s < BitmapSize"
  shows "unat (s div 64) < (BitmapSize + 63) div 64"
proof -
  have "unat (s div 64) = unat s div 64" by (simp add: unat_div)
  with assms show ?thesis by (simp add: BitmapSize_def)
qed

lemma and_push_bit_one: "w AND push_bit n 1 \<noteq> 0 \<longleftrightarrow> bit w n" for w :: "64 word"
  by (simp add: and_exp_eq_0_iff_not_bit)

lemma testSeqBit_bit: "testSeqBit bm s \<longleftrightarrow> bit (bm ! unat (s div 64)) (unat (s mod 64))"
  unfolding testSeqBit_def and_push_bit_one ..

lemma seq_split:
  fixes s :: "32 word"
  assumes "unat (s div 64) = unat (s' div 64)" "unat (s mod 64) = unat (s' mod 64)"
  shows "s = s'"
proof -
  have "unat s = unat s'"
    using assms by (metis div_mult_mod_eq unat_div unat_mod)
  then show ?thesis by (rule unsigned_word_eqI)
qed

lemma testSeqBit_setSeqBit:
  assumes "unat s < BitmapSize" "length bm = (BitmapSize + 63) div 64"
  shows "testSeqBit (setSeqBit bm s) s' \<longleftrightarrow> s' = s \<or> testSeqBit bm s'"
proof (cases "unat (s' div 64) = unat (s div 64)")
  case True
  have n: "unat (s div 64) < length bm" using seq_div_bound [OF assms(1)] assms(2) by simp
  have lt: "unat (s mod 64) < 64" "unat (s' mod 64) < 64" by (simp_all add: unat_mod)
  show ?thesis
    using True n lt seq_split [of s' s]
    by (auto simp: testSeqBit_bit setSeqBit_def bit_simps)
next
  case False
  then have "s' \<noteq> s" by auto
  with False show ?thesis by (simp add: testSeqBit_bit setSeqBit_def)
qed

lemma testSeqBit_empty:
  "testSeqBit (replicate ((BitmapSize + 63) div 64) 0) s \<Longrightarrow> BitmapSize \<le> unat s"
  by (rule ccontr) (simp add: testSeqBit_bit seq_div_bound)

section \<open>Refinement: a set of used nonces\<close>

text \<open>The set of (frame, sequence) pairs the manager remembers.\<close>

definition dedup_abs :: "dedup \<Rightarrow> (bytes \<times> 32 word) set" where
  "dedup_abs dm = {(f, s). unat s < BitmapSize \<and>
     (\<exists>t. dm_frames dm f = Some t \<and> testSeqBit (ft_bitmap t) s)}"

definition nonceKey :: "bytes \<Rightarrow> bytes \<times> 32 word" where
  "nonceKey n = (nonceFrame n, nonceSeq n)"

text \<open>Sequence numbers a sender of this protocol uses; larger ones are not tracked.\<close>

definition trackable :: "bytes \<Rightarrow> bool" where
  "trackable n \<longleftrightarrow> unat (nonceSeq n) < BitmapSize"

lemma isDuplicate_abs: "isDuplicate n dm \<longleftrightarrow> nonceKey n \<in> dedup_abs dm"
  by (auto simp: isDuplicate_def dedup_abs_def nonceKey_def split: option.splits)

lemma markAsUsed_inv [inv_rules]: "dedup_inv dm \<Longrightarrow> dedup_inv (markAsUsed now n dm)"
  by (auto simp: dedup_inv_def markAsUsed_def Let_def newTracker_def setSeqBit_def
      split: option.splits if_splits)

lemma cleanup_inv [inv_rules]: "dedup_inv dm \<Longrightarrow> dedup_inv (cleanupExpiredFrames now dm)"
  by (auto simp: dedup_inv_def cleanupExpiredFrames_def split: option.splits if_splits)

lemma new_inv [inv_rules]: "dedup_inv (newDeduplicationManager r)"
  by (simp add: dedup_inv_def newDeduplicationManager_def)

lemma generate_frames [simp]: "dm_frames (fst (generateNextNonce r dm)) = dm_frames dm"
  by (simp add: generateNextNonce_def split: option.splits)

lemma generate_inv [inv_rules]: "dedup_inv dm \<Longrightarrow> dedup_inv (fst (generateNextNonce r dm))"
  by (simp add: dedup_inv_def)

lemma markAsUsed_abs:
  assumes "dedup_inv dm"
  shows "dedup_abs (markAsUsed now n dm) =
    (if trackable n then insert (nonceKey n) (dedup_abs dm) else dedup_abs dm)"
proof (cases "dm_frames dm (nonceFrame n)")
  case None
  then show ?thesis
    by (auto simp: dedup_abs_def markAsUsed_def Let_def trackable_def nonceKey_def
        testSeqBit_setSeqBit newTracker_def dest!: testSeqBit_empty split: if_splits)
next
  case (Some t)
  then have "length (ft_bitmap t) = (BitmapSize + 63) div 64"
    using assms by (simp add: dedup_inv_def)
  with Some show ?thesis
    by (auto simp: dedup_abs_def markAsUsed_def Let_def trackable_def nonceKey_def
        testSeqBit_setSeqBit split: if_splits)
qed

lemma cleanup_abs:
  "dedup_abs (cleanupExpiredFrames now dm) =
     {(f, s) \<in> dedup_abs dm. \<exists>t. dm_frames dm f = Some t \<and> now - FrameTimeout \<le> ft_lastAccess t}"
  by (auto simp: dedup_abs_def cleanupExpiredFrames_def split: option.splits if_splits)

section \<open>The contract of a replay window\<close>

text \<open>
  \<open>held n t s\<close>: nonce \<open>n\<close> is remembered and its frame was used at \<open>t\<close> or later. A window must
  remember what is marked and may forget it only when more than \<open>keep\<close> has passed.
\<close>

datatype window_op = WMark gotime bytes | WExpire gotime

fun op_time :: "window_op \<Rightarrow> gotime" where
  "op_time (WMark t n) = t"
| "op_time (WExpire t) = t"

locale replay_window =
  fixes seen :: "bytes \<Rightarrow> 's \<Rightarrow> bool"
    and mark :: "gotime \<Rightarrow> bytes \<Rightarrow> 's \<Rightarrow> 's"
    and expire :: "gotime \<Rightarrow> 's \<Rightarrow> 's"
    and inv :: "'s \<Rightarrow> bool"
    and tracked :: "bytes \<Rightarrow> bool"
    and held :: "bytes \<Rightarrow> gotime \<Rightarrow> 's \<Rightarrow> bool"
    and keep :: duration
  assumes inv_mark: "inv s \<Longrightarrow> inv (mark t n s)"
    and inv_expire: "inv s \<Longrightarrow> inv (expire t s)"
    and held_mark: "inv s \<Longrightarrow> tracked n \<Longrightarrow> held n t (mark t n s)"
    and held_seen: "held n t s \<Longrightarrow> seen n s"
    and held_other: "inv s \<Longrightarrow> held n t0 s \<Longrightarrow> t0 \<le> t \<Longrightarrow> held n t0 (mark t m s)"
    and held_expire: "held n t0 s \<Longrightarrow> t \<le> t0 + keep \<Longrightarrow> held n t0 (expire t s)"
begin

fun window_step :: "'s \<Rightarrow> window_op \<Rightarrow> 's" where
  "window_step s (WMark t n) = mark t n s"
| "window_step s (WExpire t) = expire t s"

lemma window_step_inv: "inv s \<Longrightarrow> inv (window_step s x)"
  by (cases x) (auto intro: inv_mark inv_expire)

lemma window_step_held:
  "inv s \<Longrightarrow> held n t0 s \<Longrightarrow> t0 \<le> op_time x \<Longrightarrow> op_time x \<le> t0 + keep \<Longrightarrow>
   held n t0 (window_step s x)"
  by (cases x) (auto intro: held_other held_expire)

lemma window_run_held:
  assumes "inv s" "held n t0 s" "\<forall>x \<in> set xs. t0 \<le> op_time x \<and> op_time x \<le> t0 + keep"
  shows "inv (foldl window_step s xs) \<and> held n t0 (foldl window_step s xs)"
  using assms
  by (induction xs arbitrary: s) (auto intro: window_step_inv window_step_held)

lemma marked_stays_seen:
  assumes "inv s" "tracked n" "\<forall>x \<in> set xs. t0 \<le> op_time x \<and> op_time x \<le> t0 + keep"
  shows "seen n (foldl window_step (mark t0 n s) xs)"
  using window_run_held [OF inv_mark held_mark] assms held_seen by blast

end

definition dedup_held :: "bytes \<Rightarrow> gotime \<Rightarrow> dedup \<Rightarrow> bool" where
  "dedup_held n t dm \<longleftrightarrow> nonceKey n \<in> dedup_abs dm \<and>
     (\<exists>tr. dm_frames dm (nonceFrame n) = Some tr \<and> t \<le> ft_lastAccess tr)"

lemma markAsUsed_frame:
  "dm_frames (markAsUsed t m dm) f =
     (if f = nonceFrame m then Some ((the (dm_frames (markAsUsed t m dm) f))) else dm_frames dm f)"
  by (simp add: markAsUsed_def Let_def)

lemma markAsUsed_lastAccess:
  "\<exists>tr. dm_frames (markAsUsed t m dm) (nonceFrame m) = Some tr \<and> ft_lastAccess tr = t"
  by (simp add: markAsUsed_def Let_def)

lemma dedup_held_mark:
  assumes "dedup_inv dm" "trackable n"
  shows "dedup_held n t (markAsUsed t n dm)"
  using assms markAsUsed_lastAccess [of t n dm] by (auto simp: dedup_held_def markAsUsed_abs)

lemma dedup_held_other:
  assumes "dedup_inv dm" "dedup_held n t0 dm" "t0 \<le> t"
  shows "dedup_held n t0 (markAsUsed t m dm)"
proof (cases "nonceFrame m = nonceFrame n")
  case True
  then show ?thesis
    using assms markAsUsed_lastAccess [of t m dm] by (auto simp: dedup_held_def markAsUsed_abs)
next
  case False
  then show ?thesis
    using assms markAsUsed_frame [of t m dm "nonceFrame n"]
    by (auto simp: dedup_held_def markAsUsed_abs)
qed

lemma dedup_held_expire:
  "dedup_held n t0 dm \<Longrightarrow> t \<le> t0 + FrameTimeout \<Longrightarrow> dedup_held n t0 (cleanupExpiredFrames t dm)"
proof -
  assume held: "dedup_held n t0 dm" and t: "t \<le> t0 + FrameTimeout"
  then obtain tr where tr: "dm_frames dm (nonceFrame n) = Some tr" "t0 \<le> ft_lastAccess tr"
    by (auto simp: dedup_held_def)
  then have "dm_frames (cleanupExpiredFrames t dm) (nonceFrame n) = Some tr"
    using t by (simp add: cleanupExpiredFrames_def)
  moreover have "nonceKey n \<in> dedup_abs (cleanupExpiredFrames t dm)"
    using held t tr by (auto simp: dedup_held_def cleanup_abs nonceKey_def)
  ultimately show ?thesis using tr by (auto simp: dedup_held_def)
qed

lemma dedup_held_seen: "dedup_held n t dm \<Longrightarrow> isDuplicate n dm"
  by (simp add: dedup_held_def isDuplicate_abs)

interpretation dw: replay_window isDuplicate markAsUsed cleanupExpiredFrames dedup_inv trackable
    dedup_held FrameTimeout
  by unfold_locales
    (auto intro: markAsUsed_inv cleanup_inv dedup_held_mark dedup_held_other dedup_held_expire
      dedup_held_seen)

text \<open>Drawing new nonces leaves the window alone.\<close>

lemma generate_abs [simp]: "dedup_abs (fst (generateNextNonce r dm)) = dedup_abs dm"
  by (simp add: dedup_abs_def)

lemma generate_held [simp]: "dedup_held n t (fst (generateNextNonce r dm)) = dedup_held n t dm"
  by (simp add: dedup_held_def)

section \<open>Generated nonces\<close>

text \<open>One entry of \<open>rs\<close> per call: what the random source would yield if the call reads it.\<close>

fun genNonces :: "dedup \<Rightarrow> bytes option list \<Rightarrow> bytes list" where
  "genNonces dm [] = []"
| "genNonces dm (r # rs) =
     (let (dm', n) = generateNextNonce r dm
      in (case n of None \<Rightarrow> [] | Some x \<Rightarrow> [x]) @ genNonces dm' rs)"

fun somes :: "'a option list \<Rightarrow> 'a list" where
  "somes [] = []"
| "somes (None # xs) = somes xs"
| "somes (Some x # xs) = x # somes xs"

definition gen_ok :: "dedup \<Rightarrow> bytes option list \<Rightarrow> bool" where
  "gen_ok dm rs \<longleftrightarrow> unat (dm_currentSeq dm) \<le> BitmapSize \<and>
     (\<forall>f \<in> set (dm_currentFrame dm # somes rs). length f = 8)"

lemma nonce_parts [simp]:
  assumes "length f = 8"
  shows "nonceFrame (f @ put_u32 s) = f" "nonceSeq (f @ put_u32 s) = s"
  using assms by (simp_all add: nonceFrame_def nonceSeq_def)

lemma generate_cases:
  assumes "gen_ok dm (r # rs)"
  obtains (fresh) f dm' where "r = Some f" "unat (dm_currentSeq dm) = BitmapSize"
      "generateNextNonce r dm = (dm', Some (f @ put_u32 0))"
      "dm_currentFrame dm' = f" "dm_currentSeq dm' = 1"
  | (fail) "r = None" "generateNextNonce r dm = (dm, None)"
  | (same) dm' where "unat (dm_currentSeq dm) < BitmapSize"
      "generateNextNonce r dm = (dm', Some (dm_currentFrame dm @ put_u32 (dm_currentSeq dm)))"
      "dm_currentFrame dm' = dm_currentFrame dm"
      "unat (dm_currentSeq dm') = unat (dm_currentSeq dm) + 1"
proof (cases "BitmapSize - 1 < unat (dm_currentSeq dm)")
  case True
  then have "unat (dm_currentSeq dm) = BitmapSize"
    using assms by (simp add: gen_ok_def BitmapSize_def)
  with True show ?thesis by (cases r) (auto simp: generateNextNonce_def intro: fresh fail)
next
  case False
  then have lt: "unat (dm_currentSeq dm) < BitmapSize" by (simp add: BitmapSize_def)
  then have "unat (dm_currentSeq dm + 1) = unat (dm_currentSeq dm) + 1"
    by (simp add: unat_word_ariths BitmapSize_def)
  with False lt show ?thesis by (intro same [of "dm\<lparr>dm_currentSeq := dm_currentSeq dm + 1\<rparr>"])
      (auto simp: generateNextNonce_def)
qed

lemma genNonces_later:
  assumes "gen_ok dm rs" "x \<in> set (genNonces dm rs)"
  shows "trackable x \<and> (nonceFrame x = dm_currentFrame dm \<and> dm_currentSeq dm \<le> nonceSeq x
    \<or> nonceFrame x \<in> set (somes rs))"
  using assms
proof (induction rs arbitrary: dm)
  case Nil
  then show ?case by simp
next
  case (Cons r rs)
  from Cons.prems(1) show ?case
  proof (cases rule: generate_cases)
    case (fresh f dm')
    then have ok: "gen_ok dm' rs" using Cons.prems(1) by (auto simp: gen_ok_def BitmapSize_def)
    have "length f = 8" using Cons.prems(1) fresh by (simp add: gen_ok_def)
    then show ?thesis
      using Cons.prems(2) Cons.IH [OF ok] fresh by (auto simp: trackable_def BitmapSize_def)
  next
    case fail
    then have "gen_ok dm rs" using Cons.prems(1) by (auto simp: gen_ok_def)
    then show ?thesis using Cons fail by auto
  next
    case (same dm')
    then have ok: "gen_ok dm' rs" using Cons.prems(1) by (cases r) (auto simp: gen_ok_def)
    have sub: "set (somes rs) \<subseteq> set (somes (r # rs))" by (cases r) auto
    show ?thesis
      using Cons.prems same Cons.IH [OF ok] sub
      by (auto simp: gen_ok_def trackable_def word_le_nat_alt)
  qed
qed

lemma genNonces_distinct:
  assumes "gen_ok dm rs" "distinct (dm_currentFrame dm # somes rs)"
  shows "distinct (genNonces dm rs)"
  using assms
proof (induction rs arbitrary: dm)
  case Nil
  then show ?case by simp
next
  case (Cons r rs)
  from Cons.prems(1) show ?case
  proof (cases rule: generate_cases)
    case (fresh f dm')
    then have ok: "gen_ok dm' rs" using Cons.prems(1) by (auto simp: gen_ok_def BitmapSize_def)
    have "f @ put_u32 0 \<notin> set (genNonces dm' rs)"
      using genNonces_later [OF ok] fresh Cons.prems by (fastforce simp: gen_ok_def word_le_nat_alt)
    then show ?thesis using Cons.IH [OF ok] fresh Cons.prems(2) by simp
  next
    case fail
    then have "gen_ok dm rs" using Cons.prems(1) by (auto simp: gen_ok_def)
    then show ?thesis using Cons fail by auto
  next
    case (same dm')
    then have ok: "gen_ok dm' rs" using Cons.prems(1) by (cases r) (auto simp: gen_ok_def)
    have fr: "distinct (dm_currentFrame dm' # somes rs)"
      using Cons.prems(2) same by (cases r) auto
    have "dm_currentFrame dm @ put_u32 (dm_currentSeq dm) \<notin> set (genNonces dm' rs)"
      using genNonces_later [OF ok] same fr Cons.prems(1)
      by (fastforce simp: gen_ok_def word_le_nat_alt)
    then show ?thesis using Cons.IH [OF ok fr] same by simp
  qed
qed

section \<open>Properties\<close>

text \<open>No nonce is ever used twice for encryption: from a fresh manager, any number of calls
  of \<open>generateNextNonce\<close> yields pairwise distinct 12-byte nonces, all of them with a sequence
  number the receiver tracks, provided the random frame ids are distinct 8-byte values.\<close>

theorem generated_nonces_distinct:
  assumes "distinct (f0 # somes rs)" and "\<forall>f \<in> set (f0 # somes rs). length f = 8"
  shows "distinct (genNonces (newDeduplicationManager f0) rs) \<and>
    (\<forall>n \<in> set (genNonces (newDeduplicationManager f0) rs). trackable n)"
proof -
  have "gen_ok (newDeduplicationManager f0) rs"
    using assms(2) by (simp add: gen_ok_def newDeduplicationManager_def)
  then show ?thesis
    using genNonces_distinct genNonces_later assms(1) by (auto simp: newDeduplicationManager_def)
qed

theorem generated_nonces_distinct_witness:
  "distinct (genNonces (newDeduplicationManager (replicate 8 1)) [None, Some (replicate 8 2), None])"
  using generated_nonces_distinct [of "replicate 8 1" "[None, Some (replicate 8 2), None]"]
  by simp

text \<open>C36. Refinement: seen through \<open>dedup_abs\<close>, the bitmaps are a set of used nonces. Marking
  inserts the nonce and nothing else, testing is membership, and cleanup removes exactly the
  nonces of frames that were not used within \<open>FrameTimeout\<close>.\<close>

theorem dedup_refines_set:
  assumes "dedup_inv dm" and "trackable n"
  shows "dedup_abs (markAsUsed t n dm) = insert (nonceKey n) (dedup_abs dm)
    \<and> (isDuplicate m (markAsUsed t n dm) \<longleftrightarrow> m = n \<or> nonceKey m = nonceKey n \<or> isDuplicate m dm)
    \<and> dedup_abs (cleanupExpiredFrames t dm) = {(f, s) \<in> dedup_abs dm.
         \<exists>tr. dm_frames dm f = Some tr \<and> t - FrameTimeout \<le> ft_lastAccess tr}"
  using assms by (auto simp: markAsUsed_abs isDuplicate_abs cleanup_abs)

theorem dedup_refines_set_witness:
  "isDuplicate [1,2,3,4,5,6,7,8,0,0,1,2]
    (markAsUsed 7 [1,2,3,4,5,6,7,8,0,0,1,2] (newDeduplicationManager []))"
  using dedup_refines_set [OF new_inv, of "[1,2,3,4,5,6,7,8,0,0,1,2]" 7 "[]" "[1,2,3,4,5,6,7,8,0,0,1,2]"]
  by (simp add: trackable_def nonceSeq_def get_u32_def be_get_def BitmapSize_def)

end
