(* ===== verification/Auth.thy ===== *)
theory Auth
  imports Dedup
begin

text \<open>
  \<open>src/auth_protocol.go\<close>: the protocol header, the challenge handshake, wrapping and unwrapping
  of data packets with and without encryption, and the delay window. SHA-256, HMAC and AES-GCM
  of Go's standard library are the functions of a record \<open>crypto\<close>, an argument of every
  definition that uses them; \<open>gcm_laws\<close> states what the code relies on. A handler runs at one
  instant \<open>now\<close>.
\<close>

section \<open>Constants, errors, cryptography\<close>

definition ProtocolVersion :: byte where "ProtocolVersion = 2"
definition MsgTypeAuthChallenge :: byte where "MsgTypeAuthChallenge = 1"
definition MsgTypeAuthResponse :: byte where "MsgTypeAuthResponse = 2"
definition MsgTypeHeartbeat :: byte where "MsgTypeHeartbeat = 4"
definition MsgTypeData :: byte where "MsgTypeData = 5"
definition MsgTypeDisconnect :: byte where "MsgTypeDisconnect = 6"
definition MsgTypeHeartbeatAck :: byte where "MsgTypeHeartbeatAck = 7"
definition MsgTypeProbe :: byte where "MsgTypeProbe = 8"
definition MsgTypeProbeAck :: byte where "MsgTypeProbeAck = 9"

definition HeaderSize :: int where "HeaderSize = 8"
definition NonceSize :: int where "NonceSize = 12"
definition HandshakeSize :: int where "HandshakeSize = 88"

definition DefaultAuthTimeout :: duration where "DefaultAuthTimeout = 30 * ns_second"
definition DefaultDataTimeout :: duration where "DefaultDataTimeout = 65 * ns_second"

lemmas auth_consts = ProtocolVersion_def MsgTypeAuthChallenge_def MsgTypeAuthResponse_def
  MsgTypeHeartbeat_def MsgTypeData_def MsgTypeDisconnect_def MsgTypeHeartbeatAck_def
  MsgTypeProbe_def MsgTypeProbeAck_def HeaderSize_def NonceSize_def HandshakeSize_def

datatype auth_error =
    SecretEmpty | BufferTooSmall | RandomFailed | InvalidChallengeLength | DuplicateChallenge
  | ChallengeExpired | InvalidMAC | EncryptionFailed | PacketTooSmall | UnsupportedVersion
  | DeclaredLengthTooLarge | EncryptedTooShort | DuplicatePacket | DecryptionFailed
  | DecryptedTooShort | DataExpired | DataTooShort

record crypto =
  cr_sha256 :: "bytes \<Rightarrow> bytes"
  cr_hmac :: "bytes \<Rightarrow> bytes \<Rightarrow> bytes"
  cr_seal :: "bytes \<Rightarrow> bytes \<Rightarrow> bytes \<Rightarrow> bytes"
  cr_open :: "bytes \<Rightarrow> bytes \<Rightarrow> bytes \<Rightarrow> bytes option"

definition gcm_laws :: "crypto \<Rightarrow> bool" where
  "gcm_laws cr \<longleftrightarrow> (\<forall>k n p. cr_open cr k n (cr_seal cr k n p) = Some p
     \<and> length (cr_seal cr k n p) = length p + 16)
     \<and> (\<forall>k n c p. cr_open cr k n c = Some p \<longrightarrow> length c = length p + 16)"

definition hmac_laws :: "crypto \<Rightarrow> bool" where
  "hmac_laws cr \<longleftrightarrow> (\<forall>k d. length (cr_hmac cr k d) = 32)"

record auth_config =
  ac_enabled :: bool
  ac_secret :: bytes
  ac_enableEncryption :: bool
  ac_heartbeatInterval :: int
  ac_authTimeout :: int
  ac_delayWindowSize :: int

record auth_manager =
  am_secret :: bytes
  am_enableEncryption :: bool
  am_gcm :: "bytes option"
  am_heartbeatInterval :: duration
  am_authTimeout :: duration
  am_dataTimeout :: duration
  am_dedup :: dedup
  am_challengeCache :: "bytes \<rightharpoonup> gotime"
  am_cleanupPending :: bool
  am_delayWindowSize :: int
  am_delays :: "duration list"
  am_delayIndex :: "32 word"

text \<open>\<open>am.enableEncryption && am.gcm != nil\<close>\<close>

definition activeKey :: "auth_manager \<Rightarrow> bytes option" where
  "activeKey am = (if am_enableEncryption am then am_gcm am else None)"

lemma activeKey_dedup [simp]: "activeKey (am\<lparr>am_dedup := d\<rparr>) = activeKey am"
  by (simp add: activeKey_def)

text \<open>
  \<open>NewAuthManager\<close>: \<open>Inr None\<close> is the nil manager of a disabled configuration. The AES key
  is the first half of the hashed secret; \<open>frame\<close> is the random initial frame id.
\<close>

definition newAuthManager ::
    "crypto \<Rightarrow> bytes \<Rightarrow> auth_config option \<Rightarrow> auth_error + auth_manager option" where
  "newAuthManager cr frame cfg = (case cfg of
     None \<Rightarrow> Inr None
   | Some config \<Rightarrow>
       if \<not> ac_enabled config then Inr None
       else if length (ac_secret config) = 0 then Inl SecretEmpty
       else
         let secret = cr_sha256 cr (ac_secret config);
             hb = i64 (ac_heartbeatInterval config * ns_second);
             auth = i64 (ac_authTimeout config * ns_second);
             w = (if ac_delayWindowSize config \<le> 0 then 10 else ac_delayWindowSize config)
         in Inr (Some \<lparr>am_secret = secret,
              am_enableEncryption = ac_enableEncryption config,
              am_gcm = (if ac_enableEncryption config then Some (take 16 secret) else None),
              am_heartbeatInterval = (if hb = 0 then 30 * ns_second else hb),
              am_authTimeout = (if auth = 0 then DefaultAuthTimeout else auth),
              am_dataTimeout = DefaultDataTimeout,
              am_dedup = newDeduplicationManager frame,
              am_challengeCache = Map.empty,
              am_cleanupPending = False,
              am_delayWindowSize = w,
              am_delays = replicate (nat w) 0,
              am_delayIndex = 0\<rparr>))"

section \<open>Header\<close>

record protocol_header =
  ph_version :: byte
  ph_msgType :: byte
  ph_reserved :: "16 word"
  ph_length :: "32 word"

definition parseHeader :: "slice \<Rightarrow> auth_error + protocol_header" where
  "parseHeader b =
     (if sl_len b < HeaderSize then Inl BufferTooSmall
      else Inr \<lparr>ph_version = sl_mem b ! 0, ph_msgType = sl_mem b ! 1,
             ph_reserved = word_of_nat (be_get (take 2 (drop 2 (sl_mem b)))),
             ph_length = get_u32 (drop 4 (sl_mem b))\<rparr>)"

text \<open>
  \<open>buffer[0]\<close> and \<open>buffer[1]\<close> are bounded by the length, the two slices by the capacity.
\<close>

definition headerBytes :: "byte \<Rightarrow> 32 word \<Rightarrow> bytes" where
  "headerBytes t n = [ProtocolVersion, t, 0, 0] @ put_u32 n"

definition writeHeader :: "byte \<Rightarrow> 32 word \<Rightarrow> slice \<Rightarrow> slice option" where
  "writeHeader msgType dataLen b =
     (if 2 \<le> sl_len b \<and> 8 \<le> sl_cap b
      then Some (b\<lparr>sl_mem := blit (sl_mem b) 0 (headerBytes msgType dataLen)\<rparr>) else None)"

definition createHeartbeat :: "slice \<Rightarrow> (slice \<times> int) option" where
  "createHeartbeat b = do { b' \<leftarrow> writeHeader MsgTypeHeartbeat 0 b; Some (b', HeaderSize) }"

definition createHeartbeatAck :: "slice \<Rightarrow> (slice \<times> int) option" where
  "createHeartbeatAck b = do { b' \<leftarrow> writeHeader MsgTypeHeartbeatAck 0 b; Some (b', HeaderSize) }"

section \<open>Challenge handshake\<close>

definition unixMilli :: "gotime \<Rightarrow> 64 word" where
  "unixMilli t = word_of_int (t div ns_milli)"

text \<open>\<open>time.UnixMilli(int64(v))\<close>\<close>

definition timeOfMilli :: "64 word \<Rightarrow> gotime" where
  "timeOfMilli v = sint v * ns_milli"

definition challengeMAC :: "crypto \<Rightarrow> bytes \<Rightarrow> bytes \<Rightarrow> conn_id \<Rightarrow> conn_id \<Rightarrow> bytes \<Rightarrow> bytes" where
  "challengeMAC cr secret challenge forwardID poolID ts =
     cr_hmac cr secret (challenge @ put_u64 forwardID @ put_u64 poolID @ ts)"

text \<open>
  \<open>rand\<close> is the 32-byte challenge, or \<open>None\<close> if the random source fails. The result carries
  the manager, the written buffer and either the error or the message length.
\<close>

definition createAuthChallenge :: "crypto \<Rightarrow> gotime \<Rightarrow> bytes option \<Rightarrow> byte \<Rightarrow> conn_id \<Rightarrow> conn_id
    \<Rightarrow> slice \<Rightarrow> auth_manager \<Rightarrow> (auth_manager \<times> slice \<times> (auth_error + int)) option" where
  "createAuthChallenge cr now rand msgType forwardID poolID buffer am = (case rand of
     None \<Rightarrow> Some (am, buffer, Inl RandomFailed)
   | Some challenge \<Rightarrow>
       let am' = am\<lparr>am_challengeCache := (am_challengeCache am)(challenge \<mapsto> now)\<rparr>;
           ts = put_u64 (unixMilli now);
           mac = challengeMAC cr (am_secret am) challenge forwardID poolID ts
       in do {
         b0 \<leftarrow> writeHeader msgType (word_of_int HandshakeSize) buffer;
         b1 \<leftarrow> sl_at b0 8 (sl_copy challenge);
         b2 \<leftarrow> sl_at b1 40 (sl_copy (put_u64 forwardID));
         b3 \<leftarrow> sl_at b2 48 (sl_copy (put_u64 poolID));
         b4 \<leftarrow> sl_at b3 56 (sl_copy ts);
         b5 \<leftarrow> sl_at b4 64 (sl_copy mac);
         Some (am', b5, Inr (HeaderSize + HandshakeSize))
       })"

definition processAuthChallenge :: "crypto \<Rightarrow> gotime \<Rightarrow> bytes \<Rightarrow> auth_manager
    \<Rightarrow> auth_manager \<times> (auth_error + conn_id \<times> conn_id)" where
  "processAuthChallenge cr now data am =
     (if int (length data) < HandshakeSize then (am, Inl InvalidChallengeLength)
      else
        let challenge = take 32 data in
        if (case am_challengeCache am challenge of None \<Rightarrow> False
            | Some t \<Rightarrow> time_sub now t < am_authTimeout am)
        then (am, Inl DuplicateChallenge)
        else
          let forwardID = idFromBytes (take 8 (drop 32 data));
              poolID = idFromBytes (take 8 (drop 40 data));
              ts = take 8 (drop 48 data);
              receivedMAC = take 32 (drop 56 data)
          in if am_authTimeout am < time_sub now (timeOfMilli (get_u64 ts))
             then (am, Inl ChallengeExpired)
             else if receivedMAC \<noteq> challengeMAC cr (am_secret am) challenge forwardID poolID ts
             then (am, Inl InvalidMAC)
             else (am\<lparr>am_challengeCache := (am_challengeCache am)(challenge \<mapsto> now),
                     am_cleanupPending := True\<rparr>, Inr (forwardID, poolID)))"

definition expireCache :: "duration \<Rightarrow> gotime \<Rightarrow> (bytes \<rightharpoonup> gotime) \<Rightarrow> (bytes \<rightharpoonup> gotime)" where
  "expireCache timeout now cache =
     (\<lambda>k. case cache k of None \<Rightarrow> None | Some t \<Rightarrow> if t < now - timeout then None else Some t)"

definition cleanupExpiredChallenges :: "gotime \<Rightarrow> auth_manager \<Rightarrow> auth_manager" where
  "cleanupExpiredChallenges now am = am\<lparr>am_challengeCache :=
     expireCache (am_authTimeout am) now (am_challengeCache am)\<rparr>"

text \<open>The goroutine that a successful challenge starts: it runs only while pending.\<close>

definition challengeCleanupTask :: "gotime \<Rightarrow> auth_manager \<Rightarrow> auth_manager" where
  "challengeCleanupTask now am =
     (if am_cleanupPending am
      then (cleanupExpiredChallenges now am)\<lparr>am_cleanupPending := False\<rparr> else am)"

section \<open>Wrapping\<close>

text \<open>
  The branch of \<open>WrapData\<close> that encrypts. \<open>m1\<close> and \<open>m2\<close> are the memories of the two pool
  buffers it may take. \<open>Seal\<close> appends in place when the buffer has room; otherwise it
  allocates, and the final reslice of the too small buffer panics.
\<close>

definition prependRoom :: "router_config \<Rightarrow> bytes \<Rightarrow> packet \<Rightarrow> packet option" where
  "prependRoom c m1 p =
     (if 16 < pk_offset p then Some (p\<lparr>pk_offset := pk_offset p - 16\<rparr>)
      else do {
        d \<leftarrow> getData p;
        nb \<leftarrow> sl_at (full_slice m1) 16 (sl_copy (sl_data d));
        nb' \<leftarrow> sl_range nb 0 (pk_length p);
        p' \<leftarrow> setBuffer c nb' p;
        Some (p'\<lparr>pk_offset := 0\<rparr>)
      })"

definition stampPacket :: "gotime \<Rightarrow> packet \<Rightarrow> packet option" where
  "stampPacket now p = do {
     b1 \<leftarrow> sl_at (pk_buf p) (pk_offset p) (sl_put64 (unixMilli now));
     b2 \<leftarrow> sl_at b1 (pk_offset p + 8) (sl_put64 (pk_connID p));
     Some (p\<lparr>pk_buf := b2, pk_length := pk_length p + 16\<rparr>)
   }"

definition sealPacket :: "crypto \<Rightarrow> router_config \<Rightarrow> gotime \<Rightarrow> bytes \<Rightarrow> bytes \<Rightarrow> bytes
    \<Rightarrow> auth_manager \<Rightarrow> packet \<Rightarrow> (auth_manager \<times> packet \<times> auth_error option) option" where
  "sealPacket cr c now m2 key nonce am p = do {
     b1 \<leftarrow> sl_in (full_slice m2) 8 20 (sl_copy nonce);
     _ \<leftarrow> sl_range b1 20 20;
     pt \<leftarrow> getData p;
     let ct = cr_seal cr key nonce (sl_data pt);
     let b2 = (if 20 + int (length ct) \<le> sl_cap b1
               then b1\<lparr>sl_mem := blit (sl_mem b1) 20 ct\<rparr> else b1);
     if length ct = 0 then Some (am, p, Some EncryptionFailed)
     else do {
       let am' = am\<lparr>am_dedup := markAsUsed now nonce (am_dedup am)\<rparr>;
       let total = NonceSize + int (length ct);
       b3 \<leftarrow> writeHeader MsgTypeData (word_of_int total) b2;
       b4 \<leftarrow> sl_range b3 0 (HeaderSize + total);
       p' \<leftarrow> setBuffer c b4 p;
       Some (am', p'\<lparr>pk_offset := 0, pk_length := HeaderSize + total\<rparr>, None)
     }
   }"

definition wrapEncrypted :: "crypto \<Rightarrow> router_config \<Rightarrow> gotime \<Rightarrow> bytes option \<Rightarrow> bytes \<Rightarrow> bytes
    \<Rightarrow> bytes \<Rightarrow> auth_manager \<Rightarrow> packet \<Rightarrow> (auth_manager \<times> packet \<times> auth_error option) option" where
  "wrapEncrypted cr c now rand m1 m2 key am p = do {
     p1 \<leftarrow> prependRoom c m1 p;
     p2 \<leftarrow> stampPacket now p1;
     let (dm, nonce) = generateNextNonce rand (am_dedup am);
     let am1 = am\<lparr>am_dedup := dm\<rparr>;
     (case nonce of
        None \<Rightarrow> Some (am1, p2, Some RandomFailed)
      | Some n \<Rightarrow> sealPacket cr c now m2 key n am1 p2)
   }"

text \<open>The branch without encryption: header and connection id in front of the data.\<close>

definition wrapPlain :: "router_config \<Rightarrow> bytes \<Rightarrow> packet \<Rightarrow> packet option" where
  "wrapPlain c m1 p = do {
     p1 \<leftarrow> (if 16 \<le> pk_offset p then Some (p\<lparr>pk_offset := pk_offset p - 16\<rparr>)
           else do {
             d \<leftarrow> sl_range (pk_buf p) (pk_offset p) (pk_offset p + pk_length p);
             nb \<leftarrow> sl_at (full_slice m1) 16 (sl_copy (sl_data d));
             p' \<leftarrow> setBuffer c nb p;
             Some (p'\<lparr>pk_offset := 0\<rparr>)
           });
     b1 \<leftarrow> sl_at (pk_buf p1) (pk_offset p1)
            (writeHeader MsgTypeData (word_of_int (pk_length p1 + 8)));
     b2 \<leftarrow> sl_at b1 (pk_offset p1 + 8) (sl_put64 (pk_connID p1));
     Some (p1\<lparr>pk_buf := b2, pk_length := pk_length p1 + 16\<rparr>)
   }"

definition wrapData :: "crypto \<Rightarrow> router_config \<Rightarrow> gotime \<Rightarrow> bytes option \<Rightarrow> bytes \<Rightarrow> bytes
    \<Rightarrow> auth_manager \<Rightarrow> packet \<Rightarrow> (auth_manager \<times> packet \<times> auth_error option) option" where
  "wrapData cr c now rand m1 m2 am p =
     (case activeKey am of
        Some key \<Rightarrow> wrapEncrypted cr c now rand m1 m2 key am p
      | None \<Rightarrow> do { p' \<leftarrow> wrapPlain c m1 p; Some (am, p', None) })"

section \<open>Unwrapping\<close>

record unwrap_result =
  ur_am :: auth_manager
  ur_packet :: packet
  ur_header :: "protocol_header option"
  ur_err :: "auth_error option"

text \<open>\<open>Open\<close> appends the plaintext to an empty slice of the pool buffer \<open>m\<close>.\<close>

definition openInto :: "bytes \<Rightarrow> bytes \<Rightarrow> slice" where
  "openInto m pt =
     (if length pt \<le> length m then \<lparr>sl_mem = blit m 0 pt, sl_len = int (length pt)\<rparr>
      else full_slice pt)"

definition unwrapEncrypted :: "crypto \<Rightarrow> router_config \<Rightarrow> gotime \<Rightarrow> bytes \<Rightarrow> bytes \<Rightarrow> bytes
    \<Rightarrow> protocol_header \<Rightarrow> auth_manager \<Rightarrow> packet \<Rightarrow> unwrap_result option" where
  "unwrapEncrypted cr c now m key data header am p =
     (let fail = (\<lambda>e. Some \<lparr>ur_am = am, ur_packet = p, ur_header = Some header, ur_err = Some e\<rparr>)
      in if length data < 12 + 8 + 8 + 16 then fail EncryptedTooShort
      else let nonce = take 12 data in
      if isDuplicate nonce (am_dedup am) then fail DuplicatePacket
      else case cr_open cr key nonce (drop 12 data) of
        None \<Rightarrow> fail DecryptionFailed
      | Some pt \<Rightarrow>
          if length pt < 16 then fail DecryptedTooShort
          else if am_dataTimeout am < time_sub now (timeOfMilli (get_u64 (take 8 pt)))
          then fail DataExpired
          else do {
            let p1 = p\<lparr>pk_connID := get_u64 (take 8 (drop 8 pt))\<rparr>;
            let am' = am\<lparr>am_dedup := markAsUsed now nonce (am_dedup am)\<rparr>;
            p2 \<leftarrow> setBuffer c (openInto m pt) p1;
            Some \<lparr>ur_am = am',
                  ur_packet = p2\<lparr>pk_offset := 16, pk_length := int (length pt) - 16\<rparr>,
                  ur_header = Some header, ur_err = None\<rparr>
          })"

definition unwrapData :: "crypto \<Rightarrow> router_config \<Rightarrow> gotime \<Rightarrow> bytes \<Rightarrow> auth_manager \<Rightarrow> packet
    \<Rightarrow> unwrap_result option" where
  "unwrapData cr c now m am p =
     (let res = (\<lambda>h e. Some \<lparr>ur_am = am, ur_packet = p, ur_header = h, ur_err = e\<rparr>)
      in if pk_length p < HeaderSize then res None (Some PacketTooSmall)
      else do {
        b \<leftarrow> bufAtOffset p;
        (case parseHeader b of
           Inl e \<Rightarrow> res None (Some e)
         | Inr h \<Rightarrow>
             if ph_version h \<noteq> ProtocolVersion then res (Some h) (Some UnsupportedVersion)
             else if ph_msgType h \<noteq> MsgTypeData then res (Some h) None
             else if pk_length p < HeaderSize + uint (ph_length h)
             then res (Some h) (Some DeclaredLengthTooLarge)
             else do {
               let dataOffset = pk_offset p + HeaderSize;
               let dataLen = uint (ph_length h);
               data \<leftarrow> sl_range (pk_buf p) dataOffset (dataOffset + dataLen);
               (case activeKey am of
                  Some key \<Rightarrow> unwrapEncrypted cr c now m key (sl_data data) h am p
                | None \<Rightarrow>
                    if dataLen < 8 then res (Some h) (Some DataTooShort)
                    else Some \<lparr>ur_am = am,
                      ur_packet = p\<lparr>pk_connID := get_u64 (sl_data data),
                        pk_offset := dataOffset + 8, pk_length := dataLen - 8\<rparr>,
                      ur_header = Some h, ur_err = None\<rparr>)
             })
      })"

section \<open>Delay window\<close>

definition recordDelayMeasurement :: "duration \<Rightarrow> auth_manager \<Rightarrow> auth_manager option" where
  "recordDelayMeasurement d am =
     (let w = (word_of_int (am_delayWindowSize am) :: 32 word) in
      if w = 0 then None
      else Some (am\<lparr>am_delayIndex := am_delayIndex am + 1,
        am_delays := (am_delays am)[unat ((am_delayIndex am + 1) mod w) := d]\<rparr>))"

definition getAverageDelay :: "auth_manager \<Rightarrow> duration" where
  "getAverageDelay am = average_positive (am_delays am)"

section \<open>Wire formats\<close>

text \<open>What the two kinds of data message look like on the wire.\<close>

definition plainFrame :: "conn_id \<Rightarrow> bytes \<Rightarrow> bytes" where
  "plainFrame cid d = headerBytes MsgTypeData (word_of_nat (length d + 8)) @ put_u64 cid @ d"

definition sealedFrame :: "crypto \<Rightarrow> bytes \<Rightarrow> bytes \<Rightarrow> 64 word \<Rightarrow> conn_id \<Rightarrow> bytes \<Rightarrow> bytes" where
  "sealedFrame cr key nonce ts cid d =
     (let ct = cr_seal cr key nonce (put_u64 ts @ put_u64 cid @ d)
      in headerBytes MsgTypeData (word_of_nat (12 + length ct)) @ nonce @ ct)"

lemma length_headerBytes [simp]: "length (headerBytes t n) = 8"
  by (simp add: headerBytes_def)

lemma headerBytes_nth:
  "headerBytes t n ! 0 = ProtocolVersion" "headerBytes t n ! Suc 0 = t"
  by (simp_all add: headerBytes_def)

lemma headerBytes_len: "drop 4 (headerBytes t n) = put_u32 n"
  by (simp add: headerBytes_def)

lemma parseHeader_bytes:
  assumes "8 \<le> sl_len b" "sl_mem b = headerBytes t n @ xs"
  shows "\<exists>h. parseHeader b = Inr h \<and> ph_version h = ProtocolVersion \<and> ph_msgType h = t \<and> ph_length h = n"
  using assms by (simp add: parseHeader_def HeaderSize_def nth_append headerBytes_nth headerBytes_len)

text \<open>A packet in a full pool buffer, as the readers and unwrapping without encryption leave it.\<close>

definition pk_full :: "router_config \<Rightarrow> packet \<Rightarrow> bool" where
  "pk_full c p \<longleftrightarrow> pk_wf c p \<and> sl_len (pk_buf p) = poolSize c"

lemma pk_wf_lens:
  assumes "pk_wf c p"
  shows "length (sl_mem (pk_buf p)) = nat (poolSize c)"
    and "nat (pk_offset p) + nat (pk_length p) \<le> nat (poolSize c)"
    and "0 \<le> poolSize c"
  using assms by (auto simp: pk_wf_def pool_mem_def)

lemma pk_bytes_split:
  assumes "pk_wf c p"
  shows "drop (nat (pk_offset p)) (sl_mem (pk_buf p))
    = pk_bytes p @ drop (nat (pk_offset p) + nat (pk_length p)) (sl_mem (pk_buf p))"
  by (simp add: pk_bytes_def add.commute drop_drop [symmetric] del: drop_drop)

section \<open>Wrapping produces the wire formats\<close>

text \<open>Two adjacent 8-byte writes in front of the data.\<close>

lemma blit_two:
  assumes "length a = 8" "length b = 8" "16 \<le> off" "off \<le> length m"
  shows "blit (blit m (off - 16) a) (off - 8) b = take (off - 16) m @ a @ b @ drop off m"
proof -
  have "off - 16 + 16 \<le> length m" using assms by simp
  then show ?thesis
    using assms by (simp add: blit_fits take_drop)
qed

lemma stampPacket_bytes:
  assumes p: "pool_mem c (sl_mem (pk_buf p))" "0 \<le> pk_offset p" "0 \<le> pk_length p"
    and room: "pk_offset p + 16 \<le> sl_len (pk_buf p)" "pk_offset p + 16 + pk_length p \<le> poolSize c"
    and len: "sl_len (pk_buf p) \<le> poolSize c"
    and d: "take (nat (pk_length p)) (drop (nat (pk_offset p) + 16) (sl_mem (pk_buf p))) = d"
  shows "\<exists>q. stampPacket now p = Some q \<and> pk_wf c q \<and> pk_offset q = pk_offset p \<and>
    pk_connID q = pk_connID p \<and>
    pk_bytes q = put_u64 (unixMilli now) @ put_u64 (pk_connID p) @ d"
proof -
  let ?o = "nat (pk_offset p)" and ?m = "sl_mem (pk_buf p)"
  let ?m2 = "blit (blit ?m ?o (put_u64 (unixMilli now))) (?o + 8) (put_u64 (pk_connID p))"
  let ?q = "p\<lparr>pk_buf := (pk_buf p)\<lparr>sl_mem := ?m2\<rparr>, pk_length := pk_length p + 16\<rparr>"
  have lm: "length ?m = nat (poolSize c)" "?o + 16 + nat (pk_length p) \<le> length ?m"
    using p room by (auto simp: pool_mem_def)
  have wf: "sl_wf (pk_buf p)" "0 \<le> sl_len (pk_buf p)"
    using p room len by (auto simp: sl_wf_def sl_cap_def pool_mem_def)
  have o8: "nat (pk_offset p + 8) = ?o + 8" using p by simp
  have "stampPacket now p = Some ?q"
    using p room wf by (simp add: stampPacket_def sl_at_put64 sl_wf_def sl_cap_def o8)
  moreover have "pk_wf c ?q" using p room len wf by (auto simp: pk_wf_def pool_mem_def)
  moreover have m2: "?m2 = take ?o ?m @ put_u64 (unixMilli now) @ put_u64 (pk_connID p) @ drop (?o + 16) ?m"
    using blit_two [of "put_u64 (unixMilli now)" "put_u64 (pk_connID p)" "?o + 16" ?m] lm
    by (simp add: add.commute)
  have "pk_bytes ?q = put_u64 (unixMilli now) @ put_u64 (pk_connID p) @ d"
    using lm p d by (simp add: pk_bytes_def m2 nat_add_distrib)
  ultimately show ?thesis by (intro exI [of _ ?q]) simp
qed

text \<open>Room for the stamp: shift inside the buffer, or copy when the offset is at most 16.\<close>

definition stampable :: "router_config \<Rightarrow> packet \<Rightarrow> bool" where
  "stampable c p \<longleftrightarrow> pk_wf c p \<and>
     (if 16 < pk_offset p then pk_offset p \<le> sl_len (pk_buf p)
      else 16 \<le> pk_length p \<and> pk_length p + 16 \<le> poolSize c)"

lemma prependRoom_stampable:
  assumes st: "stampable c p" and m1: "pool_mem c m1"
  shows "\<exists>q. prependRoom c m1 p = Some q \<and> pool_mem c (sl_mem (pk_buf q)) \<and> 0 \<le> pk_offset q
    \<and> pk_length q = pk_length p \<and> pk_connID q = pk_connID p
    \<and> pk_offset q + 16 \<le> sl_len (pk_buf q) \<and> pk_offset q + 16 + pk_length q \<le> poolSize c
    \<and> sl_len (pk_buf q) \<le> poolSize c
    \<and> take (nat (pk_length q)) (drop (nat (pk_offset q) + 16) (sl_mem (pk_buf q))) = pk_bytes p"
proof (cases "16 < pk_offset p")
  case True
  have "nat (pk_offset p - 16) + 16 = nat (pk_offset p)" using True by simp
  then show ?thesis
    using True st by (auto simp: prependRoom_def stampable_def pk_wf_def pk_bytes_def)
next
  case False
  have wf: "pk_wf c p" and len: "16 \<le> pk_length p" "pk_length p + 16 \<le> poolSize c"
    using False st by (auto simp: stampable_def)
  have lm: "length m1 = nat (poolSize c)" using m1 by (simp add: pool_mem_def)
  have lb: "length (pk_bytes p) = nat (pk_length p)" using length_pk_bytes [OF wf] len by simp
  let ?m = "blit m1 16 (pk_bytes p)"
  let ?q = "p\<lparr>pk_buf := \<lparr>sl_mem = ?m, sl_len = pk_length p\<rparr>, pk_offset := 0\<rparr>"
  have fits: "take (nat (int (length m1) - 16)) (pk_bytes p) = pk_bytes p"
    using lb lm len by simp
  have "prependRoom c m1 p = Some ?q"
    using False len lm fits sl_data_getData [OF getData_wf [OF wf]]
    by (simp add: prependRoom_def getData_wf [OF wf] sl_at_def sl_in_copy full_slice_def sl_cap_def
        sl_range_def setBuffer_wf [OF wf])
  moreover have "take (nat (pk_length p)) (drop 16 ?m) = pk_bytes p"
    using take_drop_blit [of 16 "pk_bytes p" m1] lb lm len by simp
  ultimately show ?thesis using m1 len by (simp add: pool_mem_def)
qed

lemma blit_three:
  assumes "length h = 8" "length n = 12" "20 + length ct \<le> length m"
  shows "blit (blit (blit m 8 n) 20 ct) 0 h = h @ n @ ct @ drop (20 + length ct) m"
  using assms by (simp add: blit_fits take_drop add.commute)

lemma sealPacket_frame:
  assumes wf: "pk_wf c p" and m2: "pool_mem c m2" and n: "length nonce = 12"
    and laws: "gcm_laws cr" and fits: "pk_length p + 36 \<le> poolSize c"
  shows "\<exists>q. sealPacket cr c now m2 key nonce am p =
      Some (am\<lparr>am_dedup := markAsUsed now nonce (am_dedup am)\<rparr>, q, None)
    \<and> pk_wf c q \<and> pk_connID q = pk_connID p
    \<and> pk_bytes q = headerBytes MsgTypeData (word_of_nat (12 + length (cr_seal cr key nonce (pk_bytes p))))
        @ nonce @ cr_seal cr key nonce (pk_bytes p)"
proof -
  let ?ct = "cr_seal cr key nonce (pk_bytes p)"
  let ?h = "headerBytes MsgTypeData (word_of_nat (12 + length ?ct))"
  have lm: "length m2 = nat (poolSize c)" and pos: "0 \<le> poolSize c"
    using m2 pk_wf_lens [OF wf] by (simp_all add: pool_mem_def)
  have ct: "int (length ?ct) = pk_length p + 16" "0 \<le> pk_length p"
    using laws length_pk_bytes [OF wf] wf by (simp_all add: gcm_laws_def pk_wf_def)
  have room: "20 + length ?ct \<le> length m2" using ct fits lm pos by linarith
  let ?mem = "blit (blit (blit m2 8 nonce) 20 ?ct) 0 ?h"
  let ?q = "p\<lparr>pk_buf := \<lparr>sl_mem = ?mem, sl_len = 20 + int (length ?ct)\<rparr>,
              pk_offset := 0, pk_length := 20 + int (length ?ct)\<rparr>"
  have ne: "?ct \<noteq> []" using ct by auto
  have w: "(word_of_nat (length ?ct) :: 32 word) = 16 + word_of_int (pk_length p)"
    using ct(1) by (metis add.commute of_int_add of_int_numeral of_int_of_nat_eq)
  have "sealPacket cr c now m2 key nonce am p =
      Some (am\<lparr>am_dedup := markAsUsed now nonce (am_dedup am)\<rparr>, ?q, None)"
    using room n ct ne w sl_data_getData [OF getData_wf [OF wf]]
    by (simp add: sealPacket_def getData_wf [OF wf] sl_in_copy sl_range_def sl_cap_def full_slice_def
        writeHeader_def setBuffer_wf [OF wf] NonceSize_def HeaderSize_def Let_def)
  moreover have "?mem = ?h @ nonce @ ?ct @ drop (20 + length ?ct) m2"
    using n room by (intro blit_three) simp_all
  moreover have "pk_wf c ?q" using m2 room lm by (simp add: pk_wf_def pool_mem_def)
  ultimately show ?thesis using n by (intro exI [of _ ?q]) (simp add: pk_bytes_def nat_add_distrib)
qed

text \<open>Both branches of \<open>WrapData\<close> in closed form.\<close>

lemma wrapEncrypted_frame:
  assumes st: "stampable c p" and m: "pool_mem c m1" "pool_mem c m2"
    and laws: "gcm_laws cr" and fits: "pk_length p + 52 \<le> poolSize c"
    and gen: "generateNextNonce rand (am_dedup am) = (dm, Some nonce)" and n: "length nonce = 12"
  shows "\<exists>q. wrapEncrypted cr c now rand m1 m2 key am p =
      Some (am\<lparr>am_dedup := markAsUsed now nonce dm\<rparr>, q, None)
    \<and> pk_wf c q \<and> pk_connID q = pk_connID p
    \<and> pk_bytes q = sealedFrame cr key nonce (unixMilli now) (pk_connID p) (pk_bytes p)"
proof -
  obtain p1 where p1: "prependRoom c m1 p = Some p1" "pool_mem c (sl_mem (pk_buf p1))"
      "0 \<le> pk_offset p1" "pk_length p1 = pk_length p" "pk_connID p1 = pk_connID p"
      "pk_offset p1 + 16 \<le> sl_len (pk_buf p1)" "pk_offset p1 + 16 + pk_length p1 \<le> poolSize c"
      "sl_len (pk_buf p1) \<le> poolSize c"
      "take (nat (pk_length p1)) (drop (nat (pk_offset p1) + 16) (sl_mem (pk_buf p1))) = pk_bytes p"
    using prependRoom_stampable [OF st m(1)] by blast
  have len: "0 \<le> pk_length p" using st by (simp add: stampable_def pk_wf_def)
  obtain p2 where p2: "stampPacket now p1 = Some p2" "pk_wf c p2" "pk_connID p2 = pk_connID p"
      "pk_bytes p2 = put_u64 (unixMilli now) @ put_u64 (pk_connID p) @ pk_bytes p"
    using stampPacket_bytes [OF p1(2,3) _ p1(6,7,8,9)] p1(4,5) len by auto
  have l2: "pk_length p2 = pk_length p + 16"
    using length_pk_bytes [OF p2(2)] length_pk_bytes [of c p] st p2(4) by (simp add: stampable_def)
  then show ?thesis
    using sealPacket_frame [OF p2(2) m(2) n laws, of now key "am\<lparr>am_dedup := dm\<rparr>"] fits p1(1) p2 gen
    by (simp add: wrapEncrypted_def sealedFrame_def Let_def)
qed

text \<open>The branch without encryption, for data that needs no copy.\<close>

lemma blit_header_id:
  assumes "length h = 8" "length i = 8" "16 \<le> off" "off \<le> length m"
  shows "blit (take (off - 16) m @ blit (drop (off - 16) m) 0 h) (off - 8) i
    = take (off - 16) m @ h @ i @ drop off m"
proof -
  have "take (off - 16) m @ blit (drop (off - 16) m) 0 h = blit m (off - 16) h"
    using assms by (simp add: blit_fits add.commute)
  then show ?thesis using blit_two [OF assms] by simp
qed

lemma wrapPlain_frame:
  assumes wf: "pk_wf c p" and off: "16 \<le> pk_offset p" "pk_offset p \<le> sl_len (pk_buf p)"
  shows "\<exists>q. wrapPlain c m1 p = Some q \<and> pk_wf c q \<and> pk_connID q = pk_connID p
    \<and> sl_len (pk_buf q) = sl_len (pk_buf p)
    \<and> pk_bytes q = plainFrame (pk_connID p) (pk_bytes p)"
proof -
  let ?m = "sl_mem (pk_buf p)" and ?o = "nat (pk_offset p)"
  let ?h = "headerBytes MsgTypeData (word_of_int (pk_length p + 8))"
  let ?mem = "take (?o - 16) ?m @ ?h @ put_u64 (pk_connID p) @ drop ?o ?m"
  let ?q = "p\<lparr>pk_offset := pk_offset p - 16, pk_length := pk_length p + 16,
      pk_buf := (pk_buf p)\<lparr>sl_mem := ?mem\<rparr>\<rparr>"
  note lens = pk_wf_lens [OF wf]
  have om: "?o \<le> length ?m" "16 \<le> ?o" using lens off by auto
  have o: "nat (pk_offset p - 16) = ?o - 16" "nat (pk_offset p - 8) = ?o - 8" by auto
  have w: "sl_wf (pk_buf p)" using wf by (simp add: sl_wf_def sl_cap_def pk_wf_def pool_mem_def)
  have dl: "int (length ?m - (?o - 16)) = int (length ?m) - pk_offset p + 16"
    using om off by (simp add: of_nat_diff)
  have step1: "sl_at (pk_buf p) (pk_offset p - 16) (writeHeader MsgTypeData (word_of_int (pk_length p + 8)))
      = Some ((pk_buf p)\<lparr>sl_mem := take (?o - 16) ?m @ blit (drop (?o - 16) ?m) 0 ?h\<rparr>)"
    using off w om by (simp add: sl_at_def sl_in_def sl_range_def sl_wf_def sl_cap_def writeHeader_def o dl)
  have step2: "sl_at ((pk_buf p)\<lparr>sl_mem := take (?o - 16) ?m @ blit (drop (?o - 16) ?m) 0 ?h\<rparr>)
       (pk_offset p - 8) (sl_put64 (pk_connID p)) = Some ((pk_buf p)\<lparr>sl_mem := ?mem\<rparr>)"
    using off w om blit_header_id [of ?h "put_u64 (pk_connID p)" ?o ?m]
    by (subst sl_at_put64) (simp_all add: sl_wf_def sl_cap_def o)
  have "wrapPlain c m1 p = Some ?q"
    using off step1 step2 by (simp add: wrapPlain_def algebra_simps)
  moreover have "pk_wf c ?q"
    using wf off om by (auto simp: pk_wf_def pool_mem_def)
  moreover have "pk_bytes ?q = plainFrame (pk_connID p) (pk_bytes p)"
  proof -
    have "int (length (pk_bytes p)) = pk_length p" by (rule length_pk_bytes [OF wf])
    then have hw: "(word_of_int (pk_length p + 8) :: 32 word) = word_of_nat (length (pk_bytes p) + 8)"
      by (metis of_int_of_nat_eq of_nat_add of_nat_numeral)
    have "0 \<le> pk_length p" using wf by (simp add: pk_wf_def)
    then show ?thesis
      using om lens by (simp add: pk_bytes_def plainFrame_def o nat_add_distrib hw [unfolded pk_bytes_def])
  qed
  ultimately show ?thesis by (intro exI [of _ ?q]) simp
qed

section \<open>Unwrapping reads the wire formats back\<close>

lemma bufAtOffset_full:
  assumes "pk_full c p"
  shows "bufAtOffset p = Some \<lparr>sl_mem = drop (nat (pk_offset p)) (sl_mem (pk_buf p)),
    sl_len = poolSize c - pk_offset p\<rparr>"
  using assms
  by (auto simp: bufAtOffset_def sl_from_def sl_range_def sl_cap_def pk_full_def pk_wf_def pool_mem_def)

lemma data_range:
  assumes wf: "pk_wf c p" and L: "0 \<le> L" "HeaderSize + L \<le> pk_length p"
  shows "\<exists>s. sl_range (pk_buf p) (pk_offset p + HeaderSize) (pk_offset p + HeaderSize + L) = Some s
    \<and> sl_data s = take (nat L) (drop 8 (pk_bytes p))"
proof -
  have "take (nat L) (drop (nat (pk_offset p + 8)) (sl_mem (pk_buf p)))
      = take (nat L) (drop 8 (pk_bytes p))"
  proof -
    have "nat L \<le> nat (pk_length p) - 8" using L by (simp add: HeaderSize_def)
    moreover have "drop 8 (pk_bytes p) = take (nat (pk_length p) - 8)
        (drop (nat (pk_offset p) + 8) (sl_mem (pk_buf p)))"
      by (simp add: pk_bytes_def drop_take add.commute)
    moreover have "nat (pk_offset p + 8) = nat (pk_offset p) + 8" using wf by (auto simp: pk_wf_def)
    ultimately show ?thesis by (simp add: min_def)
  qed
  then show ?thesis
    using wf L by (auto simp: sl_range_def sl_data_def sl_cap_def pk_wf_def pool_mem_def HeaderSize_def)
qed

text \<open>The header of a packet, read from its bytes.\<close>

definition frameHeader :: "bytes \<Rightarrow> protocol_header" where
  "frameHeader bs = \<lparr>ph_version = bs ! 0, ph_msgType = bs ! 1,
     ph_reserved = word_of_nat (be_get (take 2 (drop 2 bs))), ph_length = get_u32 (drop 4 bs)\<rparr>"

lemma parseHeader_full:
  assumes full: "pk_full c p" and len: "HeaderSize \<le> pk_length p"
  shows "\<exists>b. bufAtOffset p = Some b \<and> parseHeader b = Inr (frameHeader (pk_bytes p))"
proof -
  have wf: "pk_wf c p" using full by (simp add: pk_full_def)
  have lb: "8 \<le> length (pk_bytes p)" using length_pk_bytes [OF wf] len by (simp add: HeaderSize_def)
  obtain b xs where b: "bufAtOffset p = Some b" "sl_mem b = pk_bytes p @ xs" "HeaderSize \<le> sl_len b"
    using bufAtOffset_full [OF full] pk_bytes_split [OF wf] wf len by (fastforce simp: pk_wf_def)
  moreover have "pk_bytes p \<noteq> []" using lb by auto
  ultimately have "parseHeader b = Inr (frameHeader (pk_bytes p))"
    using lb by (simp add: parseHeader_def frameHeader_def nth_append get_u32_def)
  with b show ?thesis by blast
qed

text \<open>The payload a header declares.\<close>

definition framePayload :: "bytes \<Rightarrow> bytes" where
  "framePayload bs = take (nat (uint (ph_length (frameHeader bs)))) (drop 8 bs)"

text \<open>One equation for \<open>UnwrapData\<close> on a packet in a full buffer, over the packet's bytes.\<close>

lemma unwrapData_full:
  assumes full: "pk_full c p"
  shows "unwrapData cr c now m am p =
    (let h = frameHeader (pk_bytes p);
         res = (\<lambda>h e. Some \<lparr>ur_am = am, ur_packet = p, ur_header = h, ur_err = e\<rparr>)
     in if pk_length p < HeaderSize then res None (Some PacketTooSmall)
        else if ph_version h \<noteq> ProtocolVersion then res (Some h) (Some UnsupportedVersion)
        else if ph_msgType h \<noteq> MsgTypeData then res (Some h) None
        else if pk_length p < HeaderSize + uint (ph_length h)
        then res (Some h) (Some DeclaredLengthTooLarge)
        else case activeKey am of
            Some key \<Rightarrow> unwrapEncrypted cr c now m key (framePayload (pk_bytes p)) h am p
          | None \<Rightarrow>
              if uint (ph_length h) < 8 then res (Some h) (Some DataTooShort)
              else Some \<lparr>ur_am = am,
                ur_packet = p\<lparr>pk_connID := get_u64 (framePayload (pk_bytes p)),
                  pk_offset := pk_offset p + HeaderSize + 8, pk_length := uint (ph_length h) - 8\<rparr>,
                ur_header = Some h, ur_err = None\<rparr>)"
proof (cases "pk_length p < HeaderSize")
  case True
  then show ?thesis by (simp add: unwrapData_def)
next
  case False
  then obtain b where b: "bufAtOffset p = Some b" "parseHeader b = Inr (frameHeader (pk_bytes p))"
    using parseHeader_full [OF full] by fastforce
  let ?L = "uint (ph_length (frameHeader (pk_bytes p)))"
  have wf: "pk_wf c p" using full by (simp add: pk_full_def)
  show ?thesis
  proof (cases "pk_length p < HeaderSize + ?L")
    case True
    with False b show ?thesis by (simp add: unwrapData_def Let_def)
  next
    case F2: False
    then obtain s where "sl_range (pk_buf p) (pk_offset p + HeaderSize) (pk_offset p + HeaderSize + ?L) = Some s"
        "sl_data s = framePayload (pk_bytes p)"
      using data_range [OF wf, of ?L] by (auto simp: framePayload_def)
    with False F2 b show ?thesis
      by (cases "activeKey am") (simp_all add: unwrapData_def Let_def)
  qed
qed

lemma frameHeader_bytes:
  "frameHeader (headerBytes t n @ xs) =
     \<lparr>ph_version = ProtocolVersion, ph_msgType = t, ph_reserved = 0, ph_length = n\<rparr>"
  by (simp add: frameHeader_def nth_append headerBytes_nth headerBytes_len)
    (simp add: headerBytes_def be_get_def)

lemma uint_word_of_nat32: "k < 2 ^ 32 \<Longrightarrow> uint (word_of_nat k :: 32 word) = int k"
  by (simp add: unsigned_of_nat take_bit_nat_eq_self)

lemma unwrap_plainFrame:
  assumes full: "pk_full c q" and bytes: "pk_bytes q = plainFrame cid d"
    and plain: "activeKey am = None" and small: "length d + 8 < 2 ^ 32"
  shows "\<exists>r. unwrapData cr c now m am q = Some r \<and> ur_err r = None \<and> ur_am r = am
    \<and> pk_connID (ur_packet r) = cid \<and> pk_bytes (ur_packet r) = d \<and> pk_wf c (ur_packet r)"
proof -
  have wf: "pk_wf c q" using full by (simp add: pk_full_def)
  have len: "pk_length q = int (length d) + 16"
    using length_pk_bytes [OF wf] bytes by (simp add: plainFrame_def)
  let ?h = "frameHeader (pk_bytes q)"
  have h: "ph_version ?h = ProtocolVersion" "ph_msgType ?h = MsgTypeData"
      "ph_length ?h = word_of_nat (length d + 8)"
    by (simp_all add: bytes plainFrame_def frameHeader_bytes)
  have L: "uint (ph_length ?h) = int (length d) + 8"
    using uint_word_of_nat32 [OF small] h(3) by simp
  have pay: "framePayload (pk_bytes q) = put_u64 cid @ d"
    by (simp add: framePayload_def L nat_add_distrib) (simp add: bytes plainFrame_def)
  let ?p = "q\<lparr>pk_connID := cid, pk_offset := pk_offset q + 16, pk_length := int (length d)\<rparr>"
  have "unwrapData cr c now m am q = Some \<lparr>ur_am = am, ur_packet = ?p, ur_header = Some ?h, ur_err = None\<rparr>"
    using plain len L h pay
    by (auto simp: unwrapData_full [OF full] HeaderSize_def Let_def add.assoc split: option.splits)
  moreover have "pk_bytes ?p = drop 16 (pk_bytes q)"
    using len wf by (simp add: pk_bytes_def drop_take nat_add_distrib pk_wf_def add.commute)
  moreover have "pk_wf c ?p" using wf len by (simp add: pk_wf_def)
  ultimately show ?thesis by (simp add: bytes plainFrame_def)
qed

lemma unwrap_sealedFrame:
  assumes full: "pk_full c q" and bytes: "pk_bytes q = sealedFrame cr key nonce ts cid d"
    and enc: "activeKey am = Some key"
    and laws: "gcm_laws cr" and n: "length nonce = 12" and m: "pool_mem c m"
    and fresh: "\<not> isDuplicate nonce (am_dedup am)"
    and young: "time_sub now (timeOfMilli ts) \<le> am_dataTimeout am"
    and small: "length d + 44 < 2 ^ 32"
  shows "\<exists>r. unwrapData cr c now m am q = Some r \<and> ur_err r = None
    \<and> ur_am r = am\<lparr>am_dedup := markAsUsed now nonce (am_dedup am)\<rparr>
    \<and> pk_connID (ur_packet r) = cid \<and> pk_bytes (ur_packet r) = d \<and> pk_wf c (ur_packet r)"
proof -
  have wf: "pk_wf c q" using full by (simp add: pk_full_def)
  let ?pt = "put_u64 ts @ put_u64 cid @ d"
  let ?ct = "cr_seal cr key nonce ?pt"
  have lct: "length ?ct = length d + 32" using laws by (simp add: gcm_laws_def)
  have len: "pk_length q = int (length d) + 52"
    using length_pk_bytes [OF wf] bytes n lct by (simp add: sealedFrame_def Let_def)
  let ?h = "frameHeader (pk_bytes q)"
  have h: "ph_version ?h = ProtocolVersion" "ph_msgType ?h = MsgTypeData"
      "ph_length ?h = word_of_nat (length d + 44)"
    by (simp_all add: bytes sealedFrame_def Let_def frameHeader_bytes lct)
  have L: "uint (ph_length ?h) = int (length d) + 44"
    using uint_word_of_nat32 [OF small] h(3) by simp
  have pay: "framePayload (pk_bytes q) = nonce @ ?ct"
    using n lct by (simp add: framePayload_def L nat_add_distrib) (simp add: bytes sealedFrame_def Let_def)
  have lm: "length d + 52 \<le> length m" "int (length m) = poolSize c"
    using m wf len by (auto simp: pool_mem_def pk_wf_def)
  let ?p = "q\<lparr>pk_connID := cid, pk_buf := \<lparr>sl_mem = blit m 0 ?pt, sl_len = int (length d) + 16\<rparr>,
      pk_offset := 16, pk_length := int (length d)\<rparr>"
  have op: "cr_open cr key nonce ?ct = Some ?pt" using laws by (simp add: gcm_laws_def)
  have wf1: "pk_wf c (q\<lparr>pk_connID := cid\<rparr>)" using wf by (simp add: pk_wf_def)
  have "unwrapEncrypted cr c now m key (nonce @ ?ct) ?h am q =
      Some \<lparr>ur_am = am\<lparr>am_dedup := markAsUsed now nonce (am_dedup am)\<rparr>, ur_packet = ?p,
            ur_header = Some ?h, ur_err = None\<rparr>"
    using n lct fresh young op lm
    by (simp add: unwrapEncrypted_def setBuffer_wf [OF wf1] openInto_def algebra_simps)
  then have "unwrapData cr c now m am q = Some \<lparr>ur_am = am\<lparr>am_dedup := markAsUsed now nonce (am_dedup am)\<rparr>,
      ur_packet = ?p, ur_header = Some ?h, ur_err = None\<rparr>"
    using enc len L h pay by (simp add: unwrapData_full [OF full] HeaderSize_def Let_def)
  moreover have "pk_wf c ?p" using m lm by (simp add: pk_wf_def pool_mem_def)
  moreover have "pk_bytes ?p = d" using lm by (simp add: pk_bytes_def blit_fits)
  ultimately show ?thesis by simp
qed


section \<open>The manager as a state machine\<close>

text \<open>
  Everything that changes an authentication manager, one event per handler call. The two
  cleanup events are the periodic task of the deduplication manager and the goroutine that a
  successful challenge starts.
\<close>

datatype auth_event =
    EvWrap gotime "bytes option" bytes bytes packet
  | EvUnwrap gotime bytes packet
  | EvCreateChallenge gotime "bytes option" byte conn_id conn_id slice
  | EvChallenge gotime bytes
  | EvFrameCleanup gotime
  | EvChallengeCleanup gotime
  | EvDelay gotime duration

fun ev_time :: "auth_event \<Rightarrow> gotime" where
  "ev_time (EvWrap t r m1 m2 p) = t"
| "ev_time (EvUnwrap t m p) = t"
| "ev_time (EvCreateChallenge t r ty f pl b) = t"
| "ev_time (EvChallenge t d) = t"
| "ev_time (EvFrameCleanup t) = t"
| "ev_time (EvChallengeCleanup t) = t"
| "ev_time (EvDelay t d) = t"

fun authStep :: "crypto \<Rightarrow> router_config \<Rightarrow> auth_manager \<Rightarrow> auth_event \<Rightarrow> auth_manager option" where
  "authStep cr c am (EvWrap t r m1 m2 p) = map_option fst (wrapData cr c t r m1 m2 am p)"
| "authStep cr c am (EvUnwrap t m p) = map_option ur_am (unwrapData cr c t m am p)"
| "authStep cr c am (EvCreateChallenge t r ty f pl b) =
     map_option fst (createAuthChallenge cr t r ty f pl b am)"
| "authStep cr c am (EvChallenge t d) = Some (fst (processAuthChallenge cr t d am))"
| "authStep cr c am (EvFrameCleanup t) = Some (am\<lparr>am_dedup := cleanupExpiredFrames t (am_dedup am)\<rparr>)"
| "authStep cr c am (EvChallengeCleanup t) = Some (challengeCleanupTask t am)"
| "authStep cr c am (EvDelay t d) = recordDelayMeasurement d am"

fun authRun :: "crypto \<Rightarrow> router_config \<Rightarrow> auth_manager \<Rightarrow> auth_event list \<Rightarrow> auth_manager option" where
  "authRun cr c am [] = Some am"
| "authRun cr c am (e # es) = do { am' \<leftarrow> authStep cr c am e; authRun cr c am' es }"

text \<open>What a step does to the replay window, and what it leaves alone.\<close>

definition same_config :: "auth_manager \<Rightarrow> auth_manager \<Rightarrow> bool" where
  "same_config a b \<longleftrightarrow> activeKey a = activeKey b \<and> am_secret a = am_secret b
     \<and> am_authTimeout a = am_authTimeout b \<and> am_dataTimeout a = am_dataTimeout b"

inductive window_moves :: "gotime \<Rightarrow> dedup \<Rightarrow> dedup \<Rightarrow> bool" where
  stay: "window_moves t d d"
| draw: "window_moves t d (fst (generateNextNonce r d))"
| mark: "window_moves t d (markAsUsed t n d)"
| draw_mark: "window_moves t d (markAsUsed t n (fst (generateNextNonce r d)))"
| clean: "window_moves t d (cleanupExpiredFrames t d)"

lemma unwrapEncrypted_am:
  assumes "unwrapEncrypted cr c now m key data h am p = Some r"
  shows "ur_am r = am \<or> ur_am r = am\<lparr>am_dedup := markAsUsed now (take 12 data) (am_dedup am)\<rparr>"
  using assms
  by (auto simp: unwrapEncrypted_def Let_def option_bind_eq_Some split: if_splits option.splits)

lemma unwrapData_am:
  assumes "unwrapData cr c now m am p = Some r"
  shows "ur_am r = am \<or> (\<exists>n. ur_am r = am\<lparr>am_dedup := markAsUsed now n (am_dedup am)\<rparr>)"
proof (cases "pk_length p < HeaderSize")
  case True
  then show ?thesis using assms by (auto simp: unwrapData_def)
next
  case False
  then obtain b where b: "bufAtOffset p = Some b"
    using assms by (auto simp: unwrapData_def Let_def option_bind_eq_Some)
  show ?thesis
  proof (cases "parseHeader b")
    case (Inl e)
    then show ?thesis using assms b False by (auto simp: unwrapData_def Let_def)
  next
    case (Inr h)
    then show ?thesis
      using assms b False unwrapEncrypted_am
      by (cases "activeKey am")
        (fastforce simp: unwrapData_def Let_def option_bind_eq_Some split: if_split_asm)+
  qed
qed

lemma sealPacket_am:
  assumes "sealPacket cr c now m2 key n am p = Some (am', q, e)"
  shows "am' = am \<or> am' = am\<lparr>am_dedup := markAsUsed now n (am_dedup am)\<rparr>"
  using assms by (auto simp: sealPacket_def Let_def option_bind_eq_Some split: if_splits)

lemma wrapData_am:
  assumes "wrapData cr c now rand m1 m2 am p = Some (am', q, e)"
  shows "\<exists>d. am' = am\<lparr>am_dedup := d\<rparr> \<and> window_moves now (am_dedup am) d"
proof (cases "activeKey am")
  case None
  then show ?thesis
    using assms window_moves.stay [of now "am_dedup am"]
    by (auto simp: wrapData_def option_bind_eq_Some intro!: exI [of _ "am_dedup am"])
next
  case (Some key)
  let ?g = "generateNextNonce rand (am_dedup am)"
  obtain p2 where p2: "(case snd ?g of None \<Rightarrow> Some (am\<lparr>am_dedup := fst ?g\<rparr>, p2, Some RandomFailed)
      | Some n \<Rightarrow> sealPacket cr c now m2 key n (am\<lparr>am_dedup := fst ?g\<rparr>) p2) = Some (am', q, e)"
    using assms Some by (auto simp: wrapData_def wrapEncrypted_def option_bind_eq_Some split_def Let_def)
  show ?thesis
  proof (cases "snd ?g")
    case None
    with p2 have "am' = am\<lparr>am_dedup := fst ?g\<rparr>" by simp
    then show ?thesis using window_moves.draw by blast
  next
    case (Some n)
    with p2 have "am' = am\<lparr>am_dedup := fst ?g\<rparr> \<or> am' = am\<lparr>am_dedup := markAsUsed now n (fst ?g)\<rparr>"
      using sealPacket_am by fastforce
    then show ?thesis using window_moves.draw window_moves.draw_mark by blast
  qed
qed


lemma authStep_config:
  assumes "authStep cr c am e = Some am'"
  shows "same_config am am' \<and> window_moves (ev_time e) (am_dedup am) (am_dedup am')"
proof (cases e)
  case (EvWrap t r m1 m2 p)
  then show ?thesis using assms by (auto simp: same_config_def activeKey_def dest!: wrapData_am)
next
  case (EvUnwrap t m p)
  then show ?thesis
    using assms by (auto simp: same_config_def activeKey_def intro: window_moves.intros dest!: unwrapData_am)
next
  case (EvCreateChallenge t r ty f pl b)
  then show ?thesis
    using assms by (auto simp: createAuthChallenge_def Let_def option_bind_eq_Some same_config_def
        activeKey_def intro: window_moves.intros split: option.split_asm)
next
  case (EvChallenge t d)
  then show ?thesis
    using assms by (auto simp: processAuthChallenge_def Let_def same_config_def activeKey_def
        intro: window_moves.intros split: option.split_asm if_split_asm)
next
  case (EvFrameCleanup t)
  then show ?thesis
    using assms by (auto simp: same_config_def activeKey_def intro: window_moves.intros)
next
  case (EvChallengeCleanup t)
  then show ?thesis
    using assms
    by (cases "am_cleanupPending am") (auto simp: challengeCleanupTask_def cleanupExpiredChallenges_def
        same_config_def activeKey_def intro: window_moves.intros)
next
  case (EvDelay t d)
  then show ?thesis
    using assms by (auto simp: recordDelayMeasurement_def Let_def same_config_def activeKey_def
        intro: window_moves.intros split: if_split_asm)
qed

lemma window_moves_inv: "window_moves t d d' \<Longrightarrow> dedup_inv d \<Longrightarrow> dedup_inv d'"
  by (induction rule: window_moves.induct) (simp_all add: inv_rules)

lemma window_moves_held:
  assumes "window_moves t d d'" "dedup_inv d" "dedup_held n t0 d" "t0 \<le> t" "t \<le> t0 + FrameTimeout"
  shows "dedup_held n t0 d'"
  using assms
  by (induction rule: window_moves.induct)
    (simp_all add: inv_rules dw.held_other dw.held_expire)

lemma same_config_trans: "same_config a b \<Longrightarrow> same_config b d \<Longrightarrow> same_config a d"
  by (simp add: same_config_def)

lemma authRun_inv:
  assumes "authRun cr c am es = Some am'" "dedup_inv (am_dedup am)"
  shows "same_config am am' \<and> dedup_inv (am_dedup am')"
  using assms
proof (induction es arbitrary: am)
  case Nil
  then show ?case by (simp add: same_config_def)
next
  case (Cons e es)
  then obtain a where a: "authStep cr c am e = Some a" "authRun cr c a es = Some am'"
    by (auto simp: option_bind_eq_Some)
  with Cons show ?case
    using authStep_config window_moves_inv same_config_trans by blast
qed

lemma authRun_held:
  assumes "authRun cr c am es = Some am'" "dedup_inv (am_dedup am)" "dedup_held n t0 (am_dedup am)"
    and "\<forall>e \<in> set es. t0 \<le> ev_time e \<and> ev_time e \<le> t0 + FrameTimeout"
  shows "dedup_held n t0 (am_dedup am')"
  using assms
proof (induction es arbitrary: am)
  case Nil
  then show ?case by simp
next
  case (Cons e es)
  then obtain a where a: "authStep cr c am e = Some a" "authRun cr c a es = Some am'"
    by (auto simp: option_bind_eq_Some)
  have "dedup_held n t0 (am_dedup a)"
    using Cons.prems authStep_config [OF a(1)] window_moves_held by fastforce
  moreover have "dedup_inv (am_dedup a)"
    using Cons.prems authStep_config [OF a(1)] window_moves_inv by blast
  ultimately show ?case using Cons.IH [OF a(2)] Cons.prems by simp
qed


section \<open>What an accepted packet implies\<close>

lemma unwrapEncrypted_accept:
  assumes "unwrapEncrypted cr c now m key data h am p = Some r" "ur_err r = None"
  obtains pt where "44 \<le> length data" "\<not> isDuplicate (take 12 data) (am_dedup am)"
    "cr_open cr key (take 12 data) (drop 12 data) = Some pt" "16 \<le> length pt"
    "time_sub now (timeOfMilli (get_u64 (take 8 pt))) \<le> am_dataTimeout am"
    "ur_am r = am\<lparr>am_dedup := markAsUsed now (take 12 data) (am_dedup am)\<rparr>"
  using assms
  by (fastforce simp: unwrapEncrypted_def Let_def option_bind_eq_Some
      split: if_split_asm option.split_asm)

lemma unwrapData_accept:
  assumes full: "pk_full c p" and enc: "activeKey am = Some key"
    and r: "unwrapData cr c now m am p = Some r" "ur_err r = None"
    and data: "ph_msgType (frameHeader (pk_bytes p)) = MsgTypeData"
  shows "\<exists>h. unwrapEncrypted cr c now m key (framePayload (pk_bytes p)) h am p = Some r"
  using assms by (auto simp: unwrapData_full Let_def split: if_split_asm)

lemma unwrapData_header:
  assumes full: "pk_full c p" and r: "unwrapData cr c now m am p = Some r" "ur_err r = None"
  shows "ur_header r = Some (frameHeader (pk_bytes p))"
  using assms
  by (auto simp: unwrapData_full Let_def unwrapEncrypted_def option_bind_eq_Some
      split: if_split_asm option.split_asm)

lemma unwrap_total:
  assumes laws: "gcm_laws cr" and full: "pk_full c p" and m: "pool_mem c m"
  shows "\<exists>r. unwrapData cr c now m am p = Some r \<and> pk_wf c (ur_packet r)"
proof -
  have wf: "pk_wf c p" using full by (simp add: pk_full_def)
  have pos: "0 \<le> uint (ph_length (frameHeader (pk_bytes p)))" by simp
  have enc: "\<exists>r. unwrapEncrypted cr c now m key data h am p = Some r \<and> pk_wf c (ur_packet r)"
    if len: "int (length data) \<le> pk_length p" for key data h
  proof (cases "cr_open cr key (take 12 data) (drop 12 data)")
    case None
    then show ?thesis using wf by (simp add: unwrapEncrypted_def Let_def)
  next
    case (Some pt)
    then have "length pt + 16 = length data - 12"
      using laws unfolding gcm_laws_def by (metis length_drop)
    then have "length pt \<le> length m" "int (length pt) \<le> poolSize c"
      using len wf m by (auto simp: pk_wf_def pool_mem_def)
    moreover have "pk_wf c (p\<lparr>pk_connID := x\<rparr>)" for x using wf by (simp add: pk_wf_def)
    ultimately show ?thesis
      using Some wf m
      by (simp add: unwrapEncrypted_def Let_def openInto_def setBuffer_wf) (simp add: pk_wf_def pool_mem_def)
  qed
  have pay: "int (length (framePayload (pk_bytes p))) \<le> pk_length p"
    using length_pk_bytes [OF wf] by (simp add: framePayload_def)
  show ?thesis
    using wf pos enc [OF pay]
    by (cases "activeKey am") (auto simp: unwrapData_full [OF full] Let_def HeaderSize_def pk_wf_def)
qed

text \<open>A datagram as a reader leaves it in a pool buffer.\<close>

definition received :: "router_config \<Rightarrow> bytes \<Rightarrow> packet" where
  "received c bs = (getPacketWithBuffer ''in''
     (full_slice (bs @ replicate (nat (poolSize c) - length bs) 0)) 0)\<lparr>pk_length := int (length bs)\<rparr>"

lemma received_full:
  assumes "int (length bs) \<le> poolSize c"
  shows "pk_full c (received c bs)" "pk_bytes (received c bs) = bs"
  using assms
  by (simp_all add: received_def pk_full_def pk_wf_def pool_mem_def full_slice_def
      getPacketWithBuffer_def pk_bytes_def)

text \<open>A cryptography record with the laws, for concrete instances: a tag of sixteen zero bytes.\<close>

definition demoCrypto :: crypto where
  "demoCrypto = \<lparr>cr_sha256 = (\<lambda>x. take 32 (x @ replicate 32 0)),
     cr_hmac = (\<lambda>k d. take 32 (k @ d @ replicate 32 0)),
     cr_seal = (\<lambda>k n p. p @ replicate 16 0),
     cr_open = (\<lambda>k n x. if 16 \<le> length x then Some (take (length x - 16) x) else None)\<rparr>"

lemma demo_laws: "gcm_laws demoCrypto" "hmac_laws demoCrypto"
  by (auto simp: gcm_laws_def hmac_laws_def demoCrypto_def)

definition demoConfig :: router_config where
  "demoConfig = \<lparr>rc_bufferSize = 100, rc_bufferOffset = 64, rc_queueSize = 8, rc_workerCount = 1\<rparr>"

lemma demo_poolSize [simp]: "poolSize demoConfig = 164"
  by (simp add: poolSize_def demoConfig_def)

definition demoManager :: "bool \<Rightarrow> bytes \<Rightarrow> auth_manager" where
  "demoManager enc frame = (case newAuthManager demoCrypto frame (Some \<lparr>ac_enabled = True,
       ac_secret = [1, 2, 3], ac_enableEncryption = enc, ac_heartbeatInterval = 0,
       ac_authTimeout = 0, ac_delayWindowSize = 0\<rparr>) of Inr (Some am) \<Rightarrow> am)"

definition demoKey :: bytes where
  "demoKey = [1, 2, 3, 0, 0, 0, 0, 0, 0, 0, 0, 0, 0, 0, 0, 0]"

lemma demo_manager:
  "activeKey (demoManager True f) = Some demoKey"
  "activeKey (demoManager False f) = None"
  "am_dedup (demoManager e f) = newDeduplicationManager f"
  "am_dataTimeout (demoManager e f) = DefaultDataTimeout"
  "am_authTimeout (demoManager e f) = DefaultAuthTimeout"
  "am_challengeCache (demoManager e f) = Map.empty"
  by (simp_all add: demoManager_def newAuthManager_def activeKey_def demoCrypto_def demoKey_def
      DefaultAuthTimeout_def i64_def Let_def numeral_nat)

lemma demo_secret: "am_secret (demoManager e f) = [1, 2, 3] @ replicate 29 0"
  by (simp add: demoManager_def newAuthManager_def Let_def demoCrypto_def numeral_nat)

definition demoPacket :: packet where
  "demoPacket = (received demoConfig (replicate 64 0 @ [7, 8, 9]))\<lparr>pk_offset := 64,
     pk_length := 3, pk_connID := 77\<rparr>"

lemma demo_packet:
  "pk_full demoConfig demoPacket" "pk_bytes demoPacket = [7, 8, 9]" "pk_length demoPacket = 3"
  "pk_offset demoPacket = 64" "sl_len (pk_buf demoPacket) = 164" "pk_connID demoPacket = 77"
  by (simp_all add: demoPacket_def received_def pk_full_def pk_wf_def pool_mem_def full_slice_def
      getPacketWithBuffer_def pk_bytes_def)

lemma demo_pool: "pool_mem demoConfig (replicate 164 0)"
  by (simp add: pool_mem_def)


section \<open>The challenge cache is a replay window too\<close>

interpretation cw: replay_window "\<lambda>n s. s n \<noteq> None" "\<lambda>t n s. s(n \<mapsto> t)" "expireCache keep"
    "\<lambda>_. True" "\<lambda>_. True" "\<lambda>n t s. \<exists>u. s n = Some u \<and> t \<le> u" keep for keep :: duration
  by unfold_locales (auto simp: expireCache_def)

lemma authStep_cache:
  assumes "authStep cr c am e = Some am'"
  shows "\<exists>xs. (\<forall>x \<in> set xs. op_time x = ev_time e) \<and>
    am_challengeCache am' = foldl (cw.window_step (am_authTimeout am)) (am_challengeCache am) xs"
    (is "\<exists>xs. ?P xs")
proof -
  have no: "?P []" if "am_challengeCache am' = am_challengeCache am" using that by simp
  show ?thesis
  proof (cases e)
    case (EvWrap t r m1 m2 p)
    then have "am_challengeCache am' = am_challengeCache am" using assms by (auto dest!: wrapData_am)
    then show ?thesis using no by blast
  next
    case (EvUnwrap t m p)
    then have "am_challengeCache am' = am_challengeCache am" using assms by (auto dest!: unwrapData_am)
    then show ?thesis using no by blast
  next
    case (EvCreateChallenge t r ty f pl b)
    show ?thesis
    proof (cases r)
      case None
      then have "am_challengeCache am' = am_challengeCache am"
        using assms EvCreateChallenge by (auto simp: createAuthChallenge_def)
      then show ?thesis using no by blast
    next
      case (Some ch)
      then have "?P [WMark t ch]"
        using assms EvCreateChallenge
        by (auto simp: createAuthChallenge_def Let_def option_bind_eq_Some)
      then show ?thesis ..
    qed
  next
    case (EvChallenge t d)
    show ?thesis
    proof (cases "am_challengeCache am' = am_challengeCache am")
      case True
      then show ?thesis using no by blast
    next
      case False
      then have "?P [WMark t (take 32 d)]"
        using assms EvChallenge
        by (auto simp: processAuthChallenge_def Let_def split: if_split_asm option.split_asm)
      then show ?thesis ..
    qed
  next
    case (EvFrameCleanup t)
    then have "am_challengeCache am' = am_challengeCache am" using assms by auto
    then show ?thesis using no by blast
  next
    case (EvChallengeCleanup t)
    then have "?P (if am_cleanupPending am then [WExpire t] else [])"
      using assms by (cases "am_cleanupPending am")
        (auto simp: challengeCleanupTask_def cleanupExpiredChallenges_def)
    then show ?thesis ..
  next
    case (EvDelay t d)
    then have "am_challengeCache am' = am_challengeCache am"
      using assms by (auto simp: recordDelayMeasurement_def Let_def split: if_split_asm)
    then show ?thesis using no by blast
  qed
qed

lemma authRun_cache:
  assumes "authRun cr c am es = Some am'" "\<exists>u. am_challengeCache am n = Some u \<and> t0 \<le> u"
    and "\<forall>e \<in> set es. t0 \<le> ev_time e \<and> ev_time e \<le> t0 + am_authTimeout am"
  shows "\<exists>u. am_challengeCache am' n = Some u \<and> t0 \<le> u"
  using assms
proof (induction es arbitrary: am)
  case Nil
  then show ?case by simp
next
  case (Cons e es)
  then obtain a where a: "authStep cr c am e = Some a" "authRun cr c a es = Some am'"
    by (auto simp: option_bind_eq_Some)
  obtain xs where xs: "\<forall>x \<in> set xs. op_time x = ev_time e"
      "am_challengeCache a = foldl (cw.window_step (am_authTimeout am)) (am_challengeCache am) xs"
    using authStep_cache [OF a(1)] by blast
  have "\<exists>u. am_challengeCache a n = Some u \<and> t0 \<le> u"
    using cw.window_run_held [of "am_challengeCache am" n t0 xs "am_authTimeout am"]
      xs Cons.prems(2,3) by simp
  moreover have "am_authTimeout a = am_authTimeout am"
    using authStep_config [OF a(1)] by (simp add: same_config_def)
  ultimately show ?case using Cons.IH [OF a(2)] Cons.prems(3) by simp
qed

section \<open>The challenge message\<close>

lemma sl_at_copy:
  assumes "0 \<le> off" "off + int (length d) \<le> sl_len s" "sl_wf s"
  shows "sl_at s off (sl_copy d) = Some (s\<lparr>sl_mem := blit (sl_mem s) (nat off) d\<rparr>)"
  using assms by (simp add: sl_at_def sl_in_copy sl_wf_def)

lemma blit_next:
  "length a = off \<Longrightarrow> length x \<le> length r \<Longrightarrow> blit (a @ r) off x = (a @ x) @ drop (length x) r"
  by (simp add: blit_fits)

definition challengeBytes :: "crypto \<Rightarrow> bytes \<Rightarrow> byte \<Rightarrow> bytes \<Rightarrow> conn_id \<Rightarrow> conn_id \<Rightarrow> 64 word \<Rightarrow> bytes" where
  "challengeBytes cr secret t ch f pl ts = ((((headerBytes t 88 @ ch) @ put_u64 f) @ put_u64 pl)
     @ put_u64 ts) @ challengeMAC cr secret ch f pl (put_u64 ts)"

lemma createAuthChallenge_bytes:
  assumes buf: "sl_wf b" "96 \<le> sl_len b" and ch: "length ch = 32" and laws: "hmac_laws cr"
  shows "createAuthChallenge cr now (Some ch) t f pl b am =
    Some (am\<lparr>am_challengeCache := (am_challengeCache am)(ch \<mapsto> now)\<rparr>,
      b\<lparr>sl_mem := challengeBytes cr (am_secret am) t ch f pl (unixMilli now) @ drop 96 (sl_mem b)\<rparr>,
      Inr 96)"
proof -
  have wf: "sl_wf (b\<lparr>sl_mem := m\<rparr>)" if "length m = length (sl_mem b)" for m
    using buf that by (simp add: sl_wf_def sl_cap_def)
  have mac: "length (challengeMAC cr s ch f pl x) = 32" for s x
    using laws by (simp add: challengeMAC_def hmac_laws_def)
  have lm: "96 \<le> length (sl_mem b)" using buf by (simp add: sl_wf_def sl_cap_def)
  have h: "blit (sl_mem b) 0 (headerBytes t 88) = headerBytes t 88 @ drop 8 (sl_mem b)"
    using lm by (simp add: blit_fits)
  show ?thesis
    using buf lm ch mac wf
    by (simp add: createAuthChallenge_def Let_def writeHeader_def sl_cap_def HandshakeSize_def
        HeaderSize_def h sl_at_copy blit_next challengeBytes_def del: append_assoc)
qed

lemma processAuthChallenge_bytes:
  assumes ch: "length ch = 32" and laws: "hmac_laws cr"
    and data: "data = drop 8 (challengeBytes cr secret t ch f pl ts)"
  shows "length data = 88" "take 32 data = ch" "idFromBytes (take 8 (drop 32 data)) = f"
    "idFromBytes (take 8 (drop 40 data)) = pl" "take 8 (drop 48 data) = put_u64 ts"
    "take 32 (drop 56 data) = challengeMAC cr secret ch f pl (put_u64 ts)"
  using ch laws by (simp_all add: data challengeBytes_def challengeMAC_def hmac_laws_def)

lemma processAuthChallenge_own:
  assumes "length ch = 32" "hmac_laws cr" "data = drop 8 (challengeBytes cr (am_secret am) t ch f pl ts)"
    and "am_challengeCache am ch = None" "time_sub now (timeOfMilli ts) \<le> am_authTimeout am"
  shows "processAuthChallenge cr now data am = (am\<lparr>am_challengeCache := (am_challengeCache am)(ch \<mapsto> now),
    am_cleanupPending := True\<rparr>, Inr (f, pl))"
proof -
  note msg = processAuthChallenge_bytes [OF assms(1-3)]
  show ?thesis
    unfolding processAuthChallenge_def Let_def msg(2-6)
    using assms(4,5) by (simp add: msg(1) HandshakeSize_def)
qed

section \<open>Properties\<close>

text \<open>Encrypted data makes the round trip: what one peer wraps, the other peer, holding the
  same key, unwraps to the same connection id and the same bytes, whatever buffers the pool
  hands out, as long as the nonce is new to it and the clocks agree within the data timeout; the
  receiver then remembers the nonce.\<close>

theorem encrypted_roundtrip:
  assumes keys: "activeKey amS = Some key" "activeKey amR = Some key" and laws: "gcm_laws cr"
    and p: "stampable c p" "pk_length p + 52 \<le> poolSize c" "poolSize c < 2 ^ 32"
    and mem: "pool_mem c m1" "pool_mem c m2" "pool_mem c' m"
    and gen: "generateNextNonce rand (am_dedup amS) = (dm, Some nonce)" "length nonce = 12"
    and fresh: "\<not> isDuplicate nonce (am_dedup amR)"
    and young: "time_sub now' (timeOfMilli (unixMilli now)) \<le> am_dataTimeout amR"
  shows "\<exists>amS' q. wrapData cr c now rand m1 m2 amS p = Some (amS', q, None) \<and> pk_wf c q \<and>
    (\<forall>q'. pk_full c' q' \<and> pk_bytes q' = pk_bytes q \<longrightarrow>
      (\<exists>r. unwrapData cr c' now' m amR q' = Some r \<and> ur_err r = None \<and>
         pk_connID (ur_packet r) = pk_connID p \<and> pk_bytes (ur_packet r) = pk_bytes p \<and>
         ur_am r = amR\<lparr>am_dedup := markAsUsed now' nonce (am_dedup amR)\<rparr>))"
proof -
  obtain q where q: "wrapEncrypted cr c now rand m1 m2 key amS p =
        Some (amS\<lparr>am_dedup := markAsUsed now nonce dm\<rparr>, q, None)" "pk_wf c q"
      "pk_bytes q = sealedFrame cr key nonce (unixMilli now) (pk_connID p) (pk_bytes p)"
    using wrapEncrypted_frame [OF p(1) mem(1,2) laws p(2) gen] by blast
  have "pk_wf c p" using p(1) by (simp add: stampable_def)
  then have "length (pk_bytes p) + 44 < 2 ^ 32" using length_pk_bytes [of c p] p(2,3) by simp
  then show ?thesis
    using q keys unwrap_sealedFrame [OF _ _ keys(2) laws gen(2) mem(3) fresh young]
    by (fastforce simp: wrapData_def)
qed

theorem encrypted_roundtrip_witness:
  "\<exists>amS' q. wrapData demoCrypto demoConfig 5000000 None (replicate 164 0) (replicate 164 0)
      (demoManager True (replicate 8 1)) demoPacket = Some (amS', q, None) \<and> pk_wf demoConfig q \<and>
    (\<forall>q'. pk_full demoConfig q' \<and> pk_bytes q' = pk_bytes q \<longrightarrow>
      (\<exists>r. unwrapData demoCrypto demoConfig 6000000 (replicate 164 0) (demoManager True (replicate 8 2)) q' = Some r
         \<and> ur_err r = None \<and> pk_connID (ur_packet r) = pk_connID demoPacket
         \<and> pk_bytes (ur_packet r) = pk_bytes demoPacket
         \<and> ur_am r = (demoManager True (replicate 8 2))\<lparr>am_dedup :=
             markAsUsed 6000000 (replicate 8 1 @ put_u32 0) (am_dedup (demoManager True (replicate 8 2)))\<rparr>))"
proof (rule encrypted_roundtrip)
  show "stampable demoConfig demoPacket"
    using demo_packet by (simp add: stampable_def pk_full_def)
  show "generateNextNonce None (am_dedup (demoManager True (replicate 8 1))) =
      ((newDeduplicationManager (replicate 8 1))\<lparr>dm_currentSeq := 1\<rparr>, Some (replicate 8 1 @ put_u32 0))"
    by (simp add: demo_manager newDeduplicationManager_def generateNextNonce_def)
  show "\<not> isDuplicate (replicate 8 1 @ put_u32 0) (am_dedup (demoManager True (replicate 8 2)))"
    by (simp add: demo_manager newDeduplicationManager_def isDuplicate_def)
  show "time_sub 6000000 (timeOfMilli (unixMilli 5000000)) \<le> am_dataTimeout (demoManager True (replicate 8 2))"
    by (simp add: demo_manager DefaultDataTimeout_def time_sub_def timeOfMilli_def unixMilli_def
        ns_milli_def ns_second_def min_i64_def max_i64_def)
qed (simp_all add: demo_manager demo_laws demo_packet demo_pool)

text \<open>Data without encryption makes the round trip through the wire format as well.\<close>

theorem plain_roundtrip:
  assumes plain: "activeKey amS = None" "activeKey amR = None"
    and p: "pk_wf c p" "16 \<le> pk_offset p" "pk_offset p \<le> sl_len (pk_buf p)" "poolSize c < 2 ^ 32"
  shows "\<exists>q. wrapData cr c now rand m1 m2 amS p = Some (amS, q, None) \<and> pk_wf c q \<and>
    (\<forall>q'. pk_full c' q' \<and> pk_bytes q' = pk_bytes q \<longrightarrow>
      (\<exists>r. unwrapData cr c' now' m amR q' = Some r \<and> ur_err r = None \<and> ur_am r = amR \<and>
         pk_connID (ur_packet r) = pk_connID p \<and> pk_bytes (ur_packet r) = pk_bytes p))"
proof -
  obtain q where q: "wrapPlain c m1 p = Some q" "pk_wf c q"
      "pk_bytes q = plainFrame (pk_connID p) (pk_bytes p)"
    using wrapPlain_frame [OF p(1-3)] by blast
  have "length (pk_bytes p) + 8 < 2 ^ 32"
    using length_pk_bytes [OF p(1)] p by (simp add: pk_wf_def)
  then show ?thesis
    using q plain unwrap_plainFrame [OF _ _ plain(2)] by (fastforce simp: wrapData_def)
qed

theorem plain_roundtrip_witness:
  "\<exists>q. wrapData demoCrypto demoConfig 0 None [] [] (demoManager False []) demoPacket
      = Some (demoManager False [], q, None) \<and> pk_wf demoConfig q \<and>
    (\<forall>q'. pk_full demoConfig q' \<and> pk_bytes q' = pk_bytes q \<longrightarrow>
      (\<exists>r. unwrapData demoCrypto demoConfig 9 [] (demoManager False [1]) q' = Some r \<and> ur_err r = None
         \<and> ur_am r = demoManager False [1] \<and> pk_connID (ur_packet r) = pk_connID demoPacket
         \<and> pk_bytes (ur_packet r) = pk_bytes demoPacket))"
  by (rule plain_roundtrip) (use demo_packet in \<open>simp_all add: demo_manager pk_full_def\<close>)

text \<open>C32. \<open>UnwrapData\<close> never panics: whatever bytes a datagram carries, in whatever state the
  manager is, it returns, and the packet it returns lies inside its buffer.\<close>

theorem unwrap_never_panics:
  assumes laws: "gcm_laws cr" and full: "pk_full c p" and m: "pool_mem c m"
  shows "\<exists>r. unwrapData cr c now m am p = Some r \<and> pk_wf c (ur_packet r)"
  using assms by (rule unwrap_total)

theorem unwrap_never_panics_witness:
  "\<exists>r. unwrapData demoCrypto demoConfig 3 (replicate 164 0) (demoManager True []) (received demoConfig [2, 5, 0, 0, 255, 255, 255, 255])
     = Some r \<and> pk_wf demoConfig (ur_packet r)"
  by (rule unwrap_never_panics) (simp_all add: demo_laws received_full demo_pool)

text \<open>Wrapping for an encrypted peer panics for a packet of fewer than sixteen bytes whose
  offset is sixteen or less, which is the offset every decrypted packet has: relaying such a
  packet from one encrypted hop to another takes the process down.\<close>

theorem wrap_short_packet_panics:
  assumes "activeKey am = Some key" "pk_wf c p" "pk_offset p \<le> 16" "pk_length p < 16" "pool_mem c m1"
  shows "wrapData cr c now rand m1 m2 am p = None"
proof -
  have "stampPacket now q = None" if q: "prependRoom c m1 p = Some q" for q
  proof -
    have "sl_len (pk_buf q) = pk_length p" "pk_offset q = 0"
      using that assms setBuffer_wf [OF assms(2)]
      by (auto simp: prependRoom_def option_bind_eq_Some sl_range_def split: if_split_asm)
    moreover have "sl_len b' = sl_len b" if "sl_at b i (sl_put64 x) = Some b'" for b b' i x
      using that by (auto simp: sl_at_def sl_in_def option_bind_eq_Some)
    ultimately show ?thesis
      using assms(4) sl_at_put64_None
      by (cases "sl_at (pk_buf q) 0 (sl_put64 (unixMilli now))") (auto simp: stampPacket_def)
  qed
  then show ?thesis
    using assms(1) by (auto simp: wrapData_def wrapEncrypted_def bind_eq_None_conv)
qed

theorem wrap_short_packet_panics_witness:
  "wrapData demoCrypto demoConfig 1 None (replicate 164 0) (replicate 164 0) (demoManager True [])
     (demoPacket\<lparr>pk_offset := 16\<rparr>) = None"
  by (rule wrap_short_packet_panics)
    (use demo_packet in \<open>auto simp: demo_manager demo_pool pk_full_def pk_wf_def\<close>)


definition demoFrame :: bytes where
  "demoFrame = sealedFrame demoCrypto demoKey (replicate 12 0) 1000 42 [7, 8]"

lemma demo_frame:
  "length demoFrame = 54" "ph_msgType (frameHeader demoFrame) = MsgTypeData"
  "framePayload demoFrame = replicate 12 0 @ (put_u64 1000 @ put_u64 42 @ [7, 8]) @ replicate 16 0"
  by (simp_all add: demoFrame_def sealedFrame_def demoCrypto_def Let_def frameHeader_bytes framePayload_def)

lemma demo_accept:
  "\<exists>r. unwrapData demoCrypto demoConfig 2000000000 (replicate 164 0) (demoManager True []) (received demoConfig demoFrame)
     = Some r \<and> ur_err r = None"
proof -
  have "\<exists>r. unwrapData demoCrypto demoConfig 2000000000 (replicate 164 0) (demoManager True [])
      (received demoConfig demoFrame) = Some r \<and> ur_err r = None
    \<and> ur_am r = (demoManager True [])\<lparr>am_dedup := markAsUsed 2000000000 (replicate 12 0) (am_dedup (demoManager True []))\<rparr>
    \<and> pk_connID (ur_packet r) = 42 \<and> pk_bytes (ur_packet r) = [7, 8] \<and> pk_wf demoConfig (ur_packet r)"
    using demo_frame(1)
    by (intro unwrap_sealedFrame [where key = demoKey and ts = 1000])
      (simp_all add: received_full demoFrame_def [symmetric] demo_manager demo_laws demo_pool isDuplicate_def
        newDeduplicationManager_def time_sub_def timeOfMilli_def ns_milli_def DefaultDataTimeout_def
        ns_second_def min_i64_def max_i64_def)
  then show ?thesis by blast
qed

text \<open>The handshake completes: a peer with the same secret accepts the message another peer
  created, learns its forward id and pool id, and the reader of the message sees its type and
  length, provided the message is not older than the timeout and its challenge is new.\<close>

theorem challenge_roundtrip:
  assumes buf: "sl_wf b" "96 \<le> sl_len b" and ch: "length ch = 32" and laws: "hmac_laws cr"
    and secret: "am_secret amR = am_secret amS" and new: "am_challengeCache amR ch = None"
    and young: "time_sub now' (timeOfMilli (unixMilli now)) \<le> am_authTimeout amR"
  shows "\<exists>amS' b'. createAuthChallenge cr now (Some ch) t f pl b amS = Some (amS', b', Inr 96) \<and>
    parseHeader b' = Inr \<lparr>ph_version = ProtocolVersion, ph_msgType = t, ph_reserved = 0, ph_length = 88\<rparr> \<and>
    (\<exists>amR'. processAuthChallenge cr now' (take 88 (drop 8 (sl_mem b'))) amR = (amR', Inr (f, pl))
      \<and> am_challengeCache amR' ch = Some now' \<and> am_cleanupPending amR')"
proof -
  let ?m = "challengeBytes cr (am_secret amS) t ch f pl (unixMilli now)"
  let ?b = "b\<lparr>sl_mem := ?m @ drop 96 (sl_mem b)\<rparr>"
  have lm: "length (challengeMAC cr (am_secret amS) ch f pl x) = 32" for x
    using laws by (simp add: challengeMAC_def hmac_laws_def)
  have "parseHeader ?b = Inr (frameHeader (headerBytes t 88 @ drop 8 ?m))"
    using buf by (simp add: parseHeader_def frameHeader_def HeaderSize_def nth_append get_u32_def
        challengeBytes_def)
  moreover obtain d where d: "d = drop 8 ?m" by simp
  have "take 88 (drop 8 (sl_mem ?b)) = d"
    using ch lm by (simp add: challengeBytes_def d)
  moreover have "\<exists>amR'. processAuthChallenge cr now' d amR = (amR', Inr (f, pl))
      \<and> am_challengeCache amR' ch = Some now' \<and> am_cleanupPending amR'"
    using processAuthChallenge_own [OF ch laws d [folded secret] new young] by simp
  ultimately show ?thesis
    using createAuthChallenge_bytes [OF buf ch laws] by (simp add: frameHeader_bytes)
qed

theorem challenge_roundtrip_witness:
  "\<exists>amS' b'. createAuthChallenge demoCrypto 5000000 (Some (replicate 32 9)) MsgTypeAuthChallenge 11 22
        (full_slice (replicate 164 0)) (demoManager True []) = Some (amS', b', Inr 96) \<and>
    parseHeader b' = Inr \<lparr>ph_version = ProtocolVersion, ph_msgType = MsgTypeAuthChallenge,
      ph_reserved = 0, ph_length = 88\<rparr> \<and>
    (\<exists>amR'. processAuthChallenge demoCrypto 7000000 (take 88 (drop 8 (sl_mem b'))) (demoManager False [1])
        = (amR', Inr (11, 22))
      \<and> am_challengeCache amR' (replicate 32 9) = Some 7000000 \<and> am_cleanupPending amR')"
  by (rule challenge_roundtrip)
    (simp_all add: demo_manager demo_laws demo_secret sl_wf_def full_slice_def sl_cap_def
      time_sub_def timeOfMilli_def unixMilli_def ns_milli_def DefaultAuthTimeout_def ns_second_def
      min_i64_def max_i64_def)

text \<open>An accepted challenge is not accepted again at any later time, whatever happens in
  between: the cache holds it for the timeout, and after that its timestamp, which must lie
  before the first acceptance, has expired.\<close>

theorem replayed_challenge_rejected:
  assumes first: "processAuthChallenge cr t0 data am = (am1, Inr ids)"
    and past: "timeOfMilli (get_u64 (take 8 (drop 48 data))) < t0"
    and timeout: "0 < am_authTimeout am" "am_authTimeout am < max_i64" and inv: "dedup_inv (am_dedup am)"
    and run: "authRun cr c am1 es = Some am2" "\<forall>e \<in> set es. t0 \<le> ev_time e \<and> ev_time e \<le> t1"
    and later: "t0 \<le> t1"
  shows "\<exists>e. processAuthChallenge cr t1 data am2 = (am2, Inl e)"
proof -
  have am1: "am1 = am\<lparr>am_challengeCache := (am_challengeCache am)(take 32 data \<mapsto> t0), am_cleanupPending := True\<rparr>"
      and len: "HandshakeSize \<le> int (length data)"
    using first by (auto simp: processAuthChallenge_def Let_def split: if_split_asm option.split_asm)
  have to: "am_authTimeout am2 = am_authTimeout am"
    using authRun_inv [OF run(1)] am1 inv by (simp add: same_config_def)
  show ?thesis
  proof (cases "t1 < t0 + am_authTimeout am")
    case True
    then obtain u where u: "am_challengeCache am2 (take 32 data) = Some u" "t0 \<le> u"
      using authRun_cache [OF run(1), of "take 32 data" t0] run(2) am1 by fastforce
    then have "time_sub t1 u < am_authTimeout am2"
      using True timeout to time_sub_less_iff [of "am_authTimeout am" t1 u]
      by (simp add: min_i64_def)
    then show ?thesis using u len by (simp add: processAuthChallenge_def Let_def)
  next
    case False
    then have "am_authTimeout am2 < time_sub t1 (timeOfMilli (get_u64 (take 8 (drop 48 data))))"
      using past timeout to time_sub_le_iff [of "am_authTimeout am" t1]
      by (simp add: min_i64_def not_le [symmetric])
    then show ?thesis using len by (auto simp: processAuthChallenge_def Let_def)
  qed
qed

definition demoChallenge :: bytes where
  "demoChallenge = drop 8 (challengeBytes demoCrypto (am_secret (demoManager True [])) MsgTypeAuthChallenge
     (replicate 32 9) 11 22 (unixMilli 5000000))"

theorem replayed_challenge_rejected_witness:
  "\<exists>am1 am2 e. processAuthChallenge demoCrypto 7000000 demoChallenge (demoManager True []) = (am1, Inr (11, 22))
    \<and> authRun demoCrypto demoConfig am1 [EvChallengeCleanup 8000000] = Some am2
    \<and> processAuthChallenge demoCrypto 90000000000 demoChallenge am2 = (am2, Inl e)"
proof -
  note tm = time_sub_def timeOfMilli_def unixMilli_def ns_milli_def DefaultAuthTimeout_def ns_second_def
    min_i64_def max_i64_def
  obtain am1 where first: "processAuthChallenge demoCrypto 7000000 demoChallenge (demoManager True [])
      = (am1, Inr (11, 22))"
    using processAuthChallenge_own [OF _ demo_laws(2) demoChallenge_def, of 7000000]
    by (auto simp: demo_manager tm)
  moreover obtain am2 where run: "authRun demoCrypto demoConfig am1 [EvChallengeCleanup 8000000] = Some am2"
    by simp
  moreover have ts: "take 8 (drop 48 demoChallenge) = put_u64 (unixMilli 5000000)"
    by (rule processAuthChallenge_bytes [OF _ demo_laws(2) demoChallenge_def]) simp
  have "timeOfMilli (get_u64 (take 8 (drop 48 demoChallenge))) < 7000000"
    unfolding ts by (simp add: tm)
  then have "\<exists>e. processAuthChallenge demoCrypto 90000000000 demoChallenge am2 = (am2, Inl e)"
    by (rule replayed_challenge_rejected [OF first _ _ _ _ run])
      (simp_all add: demo_manager new_inv DefaultAuthTimeout_def ns_second_def max_i64_def)
  ultimately show ?thesis by blast
qed

end
