(* ===== verification/AuthCalls.thy ===== *)
theory AuthCalls
  imports Auth
begin

text \<open>
  Concurrent calls of \<open>UnwrapData\<close> (\<open>src/auth_protocol.go\<close>) on one manager: the readers of a
  component's connections share it, and \<open>isDuplicate\<close> and \<open>markAsUsed\<close> lock the replay window
  one after the other, not together. A call is split where another goroutine can run: the parsing
  with the look at the window, the decryption with the check of the timestamp, and the mark.
  Run without interruption the three parts are \<open>unwrapData\<close>; the steps of several calls, of
  senders drawing and marking nonces and of every other operation of the manager interleave freely.
\<close>

section \<open>A call in parts\<close>

text \<open>Where a call is: started, its nonce found new (with the header and the data), decrypted
  and in time (with the nonce and the plaintext), or returned with the packet, header and error.\<close>

datatype unwrap_pc =
    CallStarted
  | CallChecked protocol_header bytes
  | CallOpened protocol_header bytes bytes
  | CallReturned packet "protocol_header option" "auth_error option"

record unwrap_call =
  uc_mem :: bytes
  uc_packet :: packet
  uc_pc :: unwrap_pc

text \<open>Up to and including \<open>isDuplicate\<close>; without encryption the call ends here.\<close>

definition unwrapLook :: "auth_manager \<Rightarrow> packet \<Rightarrow> protocol_header \<Rightarrow> bytes \<Rightarrow> unwrap_pc" where
  "unwrapLook am p h data =
     (case activeKey am of
        Some key \<Rightarrow>
          if length data < 12 + 8 + 8 + 16 then CallReturned p (Some h) (Some EncryptedTooShort)
          else if isDuplicate (take 12 data) (am_dedup am) then CallReturned p (Some h) (Some DuplicatePacket)
          else CallChecked h data
      | None \<Rightarrow>
          if uint (ph_length h) < 8 then CallReturned p (Some h) (Some DataTooShort)
          else CallReturned (p\<lparr>pk_connID := get_u64 data, pk_offset := pk_offset p + HeaderSize + 8,
                 pk_length := uint (ph_length h) - 8\<rparr>) (Some h) None)"

definition unwrapCheck :: "auth_manager \<Rightarrow> packet \<Rightarrow> unwrap_pc option" where
  "unwrapCheck am p =
     (let ret = (\<lambda>h e. Some (CallReturned p h e))
      in if pk_length p < HeaderSize then ret None (Some PacketTooSmall)
      else do {
        b \<leftarrow> bufAtOffset p;
        (case parseHeader b of
           Inl e \<Rightarrow> ret None (Some e)
         | Inr h \<Rightarrow>
             if ph_version h \<noteq> ProtocolVersion then ret (Some h) (Some UnsupportedVersion)
             else if ph_msgType h \<noteq> MsgTypeData then ret (Some h) None
             else if pk_length p < HeaderSize + uint (ph_length h)
             then ret (Some h) (Some DeclaredLengthTooLarge)
             else do {
               data \<leftarrow> sl_range (pk_buf p) (pk_offset p + HeaderSize) (pk_offset p + HeaderSize + uint (ph_length h));
               Some (unwrapLook am p h (sl_data data))
             })
      })"

text \<open>Decryption and the check of the timestamp at time \<open>now\<close>; nothing shared is read but the
  configuration.\<close>

definition unwrapOpen :: "crypto \<Rightarrow> gotime \<Rightarrow> auth_manager \<Rightarrow> packet \<Rightarrow> protocol_header \<Rightarrow> bytes
    \<Rightarrow> unwrap_pc" where
  "unwrapOpen cr now am p h data =
     (case activeKey am of
        None \<Rightarrow> CallReturned p (Some h) (Some DecryptionFailed)
      | Some key \<Rightarrow> (case cr_open cr key (take 12 data) (drop 12 data) of
          None \<Rightarrow> CallReturned p (Some h) (Some DecryptionFailed)
        | Some pt \<Rightarrow>
            if length pt < 16 then CallReturned p (Some h) (Some DecryptedTooShort)
            else if am_dataTimeout am < time_sub now (timeOfMilli (get_u64 (take 8 pt)))
            then CallReturned p (Some h) (Some DataExpired)
            else CallOpened h (take 12 data) pt))"

text \<open>The mark, and the packet handed back.\<close>

definition unwrapMark :: "router_config \<Rightarrow> gotime \<Rightarrow> bytes \<Rightarrow> auth_manager \<Rightarrow> packet
    \<Rightarrow> protocol_header \<Rightarrow> bytes \<Rightarrow> bytes \<Rightarrow> (auth_manager \<times> unwrap_pc) option" where
  "unwrapMark c now m am p h nonce pt =
     do {
       p2 \<leftarrow> setBuffer c (openInto m pt) (p\<lparr>pk_connID := get_u64 (take 8 (drop 8 pt))\<rparr>);
       Some (am\<lparr>am_dedup := markAsUsed now nonce (am_dedup am)\<rparr>,
             CallReturned (p2\<lparr>pk_offset := 16, pk_length := int (length pt) - 16\<rparr>) (Some h) None)
     }"

definition advanceCall :: "crypto \<Rightarrow> router_config \<Rightarrow> gotime \<Rightarrow> auth_manager \<Rightarrow> unwrap_call
    \<Rightarrow> (auth_manager \<times> unwrap_call) option" where
  "advanceCall cr c now am k =
     (case uc_pc k of
        CallStarted \<Rightarrow> do { pc \<leftarrow> unwrapCheck am (uc_packet k); Some (am, k\<lparr>uc_pc := pc\<rparr>) }
      | CallChecked h data \<Rightarrow> Some (am, k\<lparr>uc_pc := unwrapOpen cr now am (uc_packet k) h data\<rparr>)
      | CallOpened h nonce pt \<Rightarrow>
          do { (am', pc) \<leftarrow> unwrapMark c now (uc_mem k) am (uc_packet k) h nonce pt;
               Some (am', k\<lparr>uc_pc := pc\<rparr>) }
      | CallReturned q h e \<Rightarrow> Some (am, k))"

definition callResult :: "auth_manager \<times> unwrap_call \<Rightarrow> unwrap_result option" where
  "callResult s = (case uc_pc (snd s) of
      CallReturned q h e \<Rightarrow> Some \<lparr>ur_am = fst s, ur_packet = q, ur_header = h, ur_err = e\<rparr>
    | _ \<Rightarrow> None)"

section \<open>Interleaved calls\<close>

text \<open>A goroutine enters \<open>UnwrapData\<close>, a call takes its next part, a sender draws a nonce or marks
  its own one (\<open>WrapData\<close> locks for each), or another operation of the manager runs.\<close>

datatype call_event =
    CallEnter gotime bytes packet
  | CallAdvance gotime nat
  | CallDraw gotime "bytes option"
  | CallMark gotime bytes
  | CallOther auth_event

fun call_time :: "call_event \<Rightarrow> gotime" where
  "call_time (CallEnter t m p) = t"
| "call_time (CallAdvance t i) = t"
| "call_time (CallDraw t r) = t"
| "call_time (CallMark t n) = t"
| "call_time (CallOther e) = ev_time e"

type_synonym calls_state = "auth_manager \<times> unwrap_call list"

fun callStep :: "crypto \<Rightarrow> router_config \<Rightarrow> calls_state \<Rightarrow> call_event \<Rightarrow> calls_state option" where
  "callStep cr c (am, ks) (CallEnter t m p) =
     Some (am, ks @ [\<lparr>uc_mem = m, uc_packet = p, uc_pc = CallStarted\<rparr>])"
| "callStep cr c (am, ks) (CallAdvance t i) =
     (if i < length ks
      then do { (am', k) \<leftarrow> advanceCall cr c t am (ks ! i); Some (am', ks[i := k]) }
      else Some (am, ks))"
| "callStep cr c (am, ks) (CallDraw t r) =
     Some (am\<lparr>am_dedup := fst (generateNextNonce r (am_dedup am))\<rparr>, ks)"
| "callStep cr c (am, ks) (CallMark t n) = Some (am\<lparr>am_dedup := markAsUsed t n (am_dedup am)\<rparr>, ks)"
| "callStep cr c (am, ks) (CallOther e) = do { am' \<leftarrow> authStep cr c am e; Some (am', ks) }"

fun callRun :: "crypto \<Rightarrow> router_config \<Rightarrow> calls_state \<Rightarrow> call_event list \<Rightarrow> calls_state option" where
  "callRun cr c s [] = Some s"
| "callRun cr c s (e # es) = do { s' \<leftarrow> callStep cr c s e; callRun cr c s' es }"

section \<open>The parts make up the operation\<close>

abbreviation freshCall :: "bytes \<Rightarrow> packet \<Rightarrow> unwrap_call" where
  "freshCall m p \<equiv> \<lparr>uc_mem = m, uc_packet = p, uc_pc = CallStarted\<rparr>"

definition runCall :: "crypto \<Rightarrow> router_config \<Rightarrow> gotime \<Rightarrow> auth_manager \<Rightarrow> unwrap_call
    \<Rightarrow> unwrap_result option" where
  "runCall cr c now am k =
     do { (a1, k1) \<leftarrow> advanceCall cr c now am k;
          (a2, k2) \<leftarrow> advanceCall cr c now a1 k1;
          s3 \<leftarrow> advanceCall cr c now a2 k2;
          callResult s3 }"

lemma runCall_returned:
  "advanceCall cr c now am k = Some (am', k') \<Longrightarrow> uc_pc k' = CallReturned q h e \<Longrightarrow>
   runCall cr c now am k = Some \<lparr>ur_am = am', ur_packet = q, ur_header = h, ur_err = e\<rparr>"
  by (simp add: runCall_def advanceCall_def [of _ _ _ _ k'] callResult_def)

lemma unwrapOpen_cases:
  "unwrapOpen cr now am p h data = CallOpened h n pt \<longleftrightarrow>
     (\<exists>key. activeKey am = Some key \<and> cr_open cr key n (drop 12 data) = Some pt \<and> n = take 12 data
        \<and> 16 \<le> length pt \<and> time_sub now (timeOfMilli (get_u64 (take 8 pt))) \<le> am_dataTimeout am)"
  by (auto simp: unwrapOpen_def split: option.split if_split_asm)

lemma unwrapOpen_shape:
  "(\<exists>e. unwrapOpen cr now am p h data = CallReturned p (Some h) (Some e)) \<or>
   (\<exists>n pt. unwrapOpen cr now am p h data = CallOpened h n pt)"
  by (auto simp: unwrapOpen_def split: option.split)

lemma runCall_checked:
  assumes check: "unwrapCheck am p = Some (CallChecked h data)" and key: "activeKey am = Some key"
    and len: "44 \<le> length data" and new: "\<not> isDuplicate (take 12 data) (am_dedup am)"
  shows "runCall cr c now am (freshCall m p) = unwrapEncrypted cr c now m key data h am p"
proof -
  let ?k = "\<lambda>pc. \<lparr>uc_mem = m, uc_packet = p, uc_pc = pc\<rparr>"
  have 1: "advanceCall cr c now am (freshCall m p) = Some (am, ?k (CallChecked h data))"
    using check by (simp add: advanceCall_def)
  have 2: "advanceCall cr c now am (?k (CallChecked h data)) = Some (am, ?k (unwrapOpen cr now am p h data))"
    by (simp add: advanceCall_def)
  have ret: "runCall cr c now am (freshCall m p) = Some \<lparr>ur_am = am, ur_packet = q, ur_header = h', ur_err = e\<rparr>"
    if "unwrapOpen cr now am p h data = CallReturned q h' e" for q h' e
    using that by (simp add: runCall_def 1 2) (simp add: advanceCall_def callResult_def)
  have opened: "runCall cr c now am (freshCall m p) = Some \<lparr>ur_am = am\<lparr>am_dedup := markAsUsed now n (am_dedup am)\<rparr>,
        ur_packet = p2\<lparr>pk_offset := 16, pk_length := int (length pt) - 16\<rparr>, ur_header = Some h, ur_err = None\<rparr>"
    if "unwrapOpen cr now am p h data = CallOpened h n pt"
      "setBuffer c (openInto m pt) (p\<lparr>pk_connID := get_u64 (take 8 (drop 8 pt))\<rparr>) = Some p2" for n pt p2
    using that by (simp add: runCall_def 1 2) (simp add: advanceCall_def unwrapMark_def callResult_def)
  have stuck: "runCall cr c now am (freshCall m p) = None"
    if "unwrapOpen cr now am p h data = CallOpened h n pt"
      "setBuffer c (openInto m pt) (p\<lparr>pk_connID := get_u64 (take 8 (drop 8 pt))\<rparr>) = None" for n pt
    using that by (simp add: runCall_def 1 2) (simp add: advanceCall_def unwrapMark_def)
  show ?thesis
  proof (cases "cr_open cr key (take 12 data) (drop 12 data)")
    case None
    then show ?thesis using key len new by (simp add: ret unwrapOpen_def unwrapEncrypted_def Let_def)
  next
    case (Some pt)
    show ?thesis
    proof (cases "length pt < 16 \<or> am_dataTimeout am < time_sub now (timeOfMilli (get_u64 (take 8 pt)))")
      case True
      then show ?thesis using key len new Some by (auto simp: ret unwrapOpen_def unwrapEncrypted_def Let_def)
    next
      case False
      then have "unwrapOpen cr now am p h data = CallOpened h (take 12 data) pt"
        using key Some by (simp add: unwrapOpen_def)
      then show ?thesis
        using False key len new Some
        by (cases "setBuffer c (openInto m pt) (p\<lparr>pk_connID := get_u64 (take 8 (drop 8 pt))\<rparr>)")
          (simp_all add: opened stuck unwrapEncrypted_def Let_def)
    qed
  qed
qed

text \<open>The first part decides the operation, up to the decryption.\<close>

definition afterCheck :: "crypto \<Rightarrow> router_config \<Rightarrow> gotime \<Rightarrow> bytes \<Rightarrow> auth_manager \<Rightarrow> packet
    \<Rightarrow> unwrap_pc \<Rightarrow> unwrap_result option" where
  "afterCheck cr c now m am p pc =
     (case pc of
        CallReturned q h e \<Rightarrow> Some \<lparr>ur_am = am, ur_packet = q, ur_header = h, ur_err = e\<rparr>
      | CallChecked h data \<Rightarrow> unwrapEncrypted cr c now m (the (activeKey am)) data h am p
      | _ \<Rightarrow> None)"

lemma unwrapData_check:
  "unwrapData cr c now m am p = do { pc \<leftarrow> unwrapCheck am p; afterCheck cr c now m am p pc }"
proof (cases "pk_length p < HeaderSize")
  case True
  then show ?thesis by (simp add: unwrapData_def unwrapCheck_def afterCheck_def)
next
  case F1: False
  show ?thesis
  proof (cases "bufAtOffset p")
    case None
    then show ?thesis using F1 by (simp add: unwrapData_def unwrapCheck_def)
  next
    case b: (Some b)
    show ?thesis
    proof (cases "parseHeader b")
      case (Inl e)
      then show ?thesis using F1 b by (simp add: unwrapData_def unwrapCheck_def afterCheck_def)
    next
      case (Inr h)
      let ?r = "sl_range (pk_buf p) (pk_offset p + HeaderSize) (pk_offset p + HeaderSize + uint (ph_length h))"
      show ?thesis
      proof (cases "ph_version h \<noteq> ProtocolVersion \<or> ph_msgType h \<noteq> MsgTypeData \<or> pk_length p < HeaderSize + uint (ph_length h)")
        case True
        then show ?thesis using F1 b Inr by (auto simp: unwrapData_def unwrapCheck_def afterCheck_def)
      next
        case F2: False
        show ?thesis
        proof (cases ?r)
          case None
          then show ?thesis using F1 b Inr F2 by (simp add: unwrapData_def unwrapCheck_def Let_def)
        next
          case (Some d)
          then show ?thesis using F1 b Inr F2
            by (cases "activeKey am")
              (simp_all add: unwrapData_def unwrapCheck_def unwrapLook_def Let_def afterCheck_def unwrapEncrypted_def)
        qed
      qed
    qed
  qed
qed

lemma unwrapCheck_cases:
  assumes "unwrapCheck am p = Some pc"
  obtains q h e where "pc = CallReturned q h e"
  | h data key where "pc = CallChecked h data" "activeKey am = Some key" "44 \<le> length data"
      "\<not> isDuplicate (take 12 data) (am_dedup am)"
proof -
  have look: "(\<exists>q h e. unwrapLook am p h0 d = CallReturned q h e) \<or>
      (\<exists>h data key. unwrapLook am p h0 d = CallChecked h data \<and> activeKey am = Some key \<and> 44 \<le> length data
         \<and> \<not> isDuplicate (take 12 data) (am_dedup am))" for h0 d
    by (cases "activeKey am") (simp_all add: unwrapLook_def)
  have "(\<exists>q h e. pc = CallReturned q h e) \<or> (\<exists>h d. pc = unwrapLook am p h d)"
  proof (cases "pk_length p < HeaderSize")
    case False
    then obtain b where b: "bufAtOffset p = Some b"
      using assms by (auto simp: unwrapCheck_def Let_def option_bind_eq_Some)
    show ?thesis
    proof (cases "parseHeader b")
      case (Inr h)
      then show ?thesis using assms b False
        by (auto simp: unwrapCheck_def option_bind_eq_Some split: if_split_asm)
    qed (use assms b False in \<open>auto simp: unwrapCheck_def\<close>)
  qed (use assms in \<open>auto simp: unwrapCheck_def\<close>)
  then show thesis using look that by metis
qed

lemma unwrapData_parts: "unwrapData cr c now m am p = runCall cr c now am (freshCall m p)"
proof (cases "unwrapCheck am p")
  case None
  then show ?thesis by (simp add: runCall_def advanceCall_def unwrapData_check)
next
  case (Some pc)
  from Some show ?thesis
  proof (cases rule: unwrapCheck_cases)
    case (1 q h e)
    have "runCall cr c now am (freshCall m p) = Some \<lparr>ur_am = am, ur_packet = q, ur_header = h, ur_err = e\<rparr>"
      by (rule runCall_returned [where k' = "\<lparr>uc_mem = m, uc_packet = p, uc_pc = CallReturned q h e\<rparr>"])
        (simp_all add: advanceCall_def Some 1)
    then show ?thesis by (simp add: unwrapData_check Some 1 afterCheck_def)
  next
    case (2 h data key)
    then show ?thesis
      using runCall_checked [of am p h data key] Some by (simp add: unwrapData_check afterCheck_def)
  qed
qed

section \<open>What a step keeps\<close>

lemma advanceCall_window:
  assumes "advanceCall cr c t am k = Some (am', k')"
  shows "same_config am am' \<and> window_moves t (am_dedup am) (am_dedup am')
    \<and> uc_packet k' = uc_packet k \<and> uc_mem k' = uc_mem k"
  using assms
  by (auto simp: advanceCall_def unwrapMark_def option_bind_eq_Some same_config_def activeKey_def
      intro: window_moves.intros split: unwrap_pc.splits)

lemma callStep_window:
  assumes "callStep cr c (am, ks) e = Some (am', ks')"
  shows "same_config am am' \<and> window_moves (call_time e) (am_dedup am) (am_dedup am')"
proof (cases e)
  case (CallAdvance t i)
  show ?thesis
  proof (cases "i < length ks")
    case True
    then obtain k where "advanceCall cr c t am (ks ! i) = Some (am', k)"
      using assms CallAdvance by (auto simp: option_bind_eq_Some)
    then show ?thesis using advanceCall_window CallAdvance by simp
  qed (use assms CallAdvance in \<open>simp add: same_config_def window_moves.stay\<close>)
next
  case (CallOther x)
  then have "authStep cr c am x = Some am'" using assms by (auto simp: option_bind_eq_Some)
  then show ?thesis using authStep_config CallOther by simp
qed (use assms in \<open>auto simp: same_config_def activeKey_def intro: window_moves.intros\<close>)

lemma callStep_calls:
  assumes "callStep cr c (am, ks) e = Some (am', ks')"
  shows "length ks \<le> length ks'"
    and "j < length ks \<Longrightarrow> ks' ! j = ks ! j \<or> (\<exists>t. e = CallAdvance t j \<and> advanceCall cr c t am (ks ! j) = Some (am', ks' ! j))"
    and "j < length ks' \<Longrightarrow> \<not> j < length ks \<Longrightarrow> uc_pc (ks' ! j) = CallStarted"
  using assms
  by (cases e; auto simp: option_bind_eq_Some nth_append nth_list_update split: if_split_asm)+


lemma callRun_packet:
  "callRun cr c (am, ks) es = Some (am', ks') \<Longrightarrow> j < length ks \<Longrightarrow>
   j < length ks' \<and> uc_packet (ks' ! j) = uc_packet (ks ! j)"
proof (induction es arbitrary: am ks)
  case (Cons e es)
  then obtain a s where a: "callStep cr c (am, ks) e = Some (a, s)" "callRun cr c (a, s) es = Some (am', ks')"
    by (auto simp: option_bind_eq_Some)
  have "uc_packet (s ! j) = uc_packet (ks ! j)"
    using callStep_calls(2) [OF a(1) Cons.prems(2)] advanceCall_window by metis
  then show ?case using Cons.IH [OF a(2)] callStep_calls(1) [OF a(1)] Cons.prems(2) by simp
qed simp

section \<open>One call on a packet in a full buffer\<close>

lemma unwrapCheck_full:
  assumes full: "pk_full c p" and data: "ph_msgType (frameHeader (pk_bytes p)) = MsgTypeData"
    and key: "activeKey am = Some key" and pc: "unwrapCheck am p = Some pc"
  shows "(\<exists>h e. pc = CallReturned p h (Some e)) \<or>
    (\<exists>h. pc = CallChecked h (framePayload (pk_bytes p))
       \<and> \<not> isDuplicate (take 12 (framePayload (pk_bytes p))) (am_dedup am))"
proof (cases "pk_length p < HeaderSize")
  case True
  then show ?thesis using pc by (auto simp: unwrapCheck_def)
next
  case F1: False
  then obtain b where b: "bufAtOffset p = Some b" "parseHeader b = Inr (frameHeader (pk_bytes p))"
    using parseHeader_full [OF full] by fastforce
  let ?h = "frameHeader (pk_bytes p)"
  have wf: "pk_wf c p" using full by (simp add: pk_full_def)
  show ?thesis
  proof (cases "ph_version ?h \<noteq> ProtocolVersion \<or> pk_length p < HeaderSize + uint (ph_length ?h)")
    case True
    then show ?thesis using pc F1 b data by (auto simp: unwrapCheck_def split: if_split_asm)
  next
    case F2: False
    then obtain s where "sl_range (pk_buf p) (pk_offset p + HeaderSize) (pk_offset p + HeaderSize + uint (ph_length ?h)) = Some s"
        "sl_data s = framePayload (pk_bytes p)"
      using data_range [OF wf, of "uint (ph_length ?h)"] by (auto simp: framePayload_def)
    then have "pc = unwrapLook am p ?h (framePayload (pk_bytes p))"
      using pc F1 F2 b data by (simp add: unwrapCheck_def)
    then show ?thesis using key by (auto simp: unwrapLook_def)
  qed
qed

text \<open>What a call holds belongs to its packet.\<close>

definition callSound :: "crypto \<Rightarrow> bytes \<Rightarrow> unwrap_call \<Rightarrow> bool" where
  "callSound cr key k \<longleftrightarrow> (let d = framePayload (pk_bytes (uc_packet k)) in
     case uc_pc k of
       CallChecked h d' \<Rightarrow> d' = d
     | CallOpened h n pt \<Rightarrow> n = take 12 d \<and> cr_open cr key n (drop 12 d) = Some pt
     | _ \<Rightarrow> True)"

abbreviation dataPacket :: "router_config \<Rightarrow> packet \<Rightarrow> bool" where
  "dataPacket c p \<equiv> pk_full c p \<and> ph_msgType (frameHeader (pk_bytes p)) = MsgTypeData"

lemma advanceCall_sound:
  assumes "callSound cr key k" "activeKey am = Some key" "dataPacket c (uc_packet k)"
    and "advanceCall cr c t am k = Some (am', k')"
  shows "callSound cr key k'"
proof (cases "uc_pc k")
  case CallStarted
  then obtain pc where "unwrapCheck am (uc_packet k) = Some pc" "k' = k\<lparr>uc_pc := pc\<rparr>"
    using assms(4) by (auto simp: advanceCall_def option_bind_eq_Some)
  then show ?thesis using unwrapCheck_full [of c "uc_packet k" am key pc] assms by (auto simp: callSound_def)
next
  case (CallChecked h d)
  then have k': "k' = k\<lparr>uc_pc := unwrapOpen cr t am (uc_packet k) h d\<rparr>" "d = framePayload (pk_bytes (uc_packet k))"
    using assms by (auto simp: advanceCall_def callSound_def)
  consider e where "unwrapOpen cr t am (uc_packet k) h d = CallReturned (uc_packet k) (Some h) (Some e)"
    | n pt where "unwrapOpen cr t am (uc_packet k) h d = CallOpened h n pt"
    using unwrapOpen_shape by blast
  then show ?thesis
  proof cases
    case (2 n pt)
    then have "n = take 12 d \<and> cr_open cr key n (drop 12 d) = Some pt"
      using assms(2) by (auto simp: unwrapOpen_cases)
    then show ?thesis using k' 2 by (auto simp: callSound_def Let_def)
  qed (simp add: k' callSound_def Let_def)
next
  case (CallOpened h n pt)
  then show ?thesis using assms by (auto simp: advanceCall_def unwrapMark_def callSound_def option_bind_eq_Some)
next
  case (CallReturned q h e)
  then show ?thesis using assms by (simp add: advanceCall_def)
qed

lemma callStep_sound:
  assumes "callStep cr c (am, ks) e = Some (am', ks')" "activeKey am = Some key"
    and "\<forall>k \<in> set ks. dataPacket c (uc_packet k) \<longrightarrow> callSound cr key k"
  shows "\<forall>k \<in> set ks'. dataPacket c (uc_packet k) \<longrightarrow> callSound cr key k"
proof (cases e)
  case (CallAdvance t i)
  show ?thesis
  proof (cases "i < length ks")
    case True
    then obtain k where k: "advanceCall cr c t am (ks ! i) = Some (am', k)" "ks' = ks[i := k]"
      using assms(1) CallAdvance by (auto simp: option_bind_eq_Some)
    then have "dataPacket c (uc_packet k) \<longrightarrow> callSound cr key k"
      using advanceCall_sound [OF _ assms(2) _ k(1)] advanceCall_window [OF k(1)] assms(3) True by auto
    then show ?thesis using assms(3) k(2) set_update_subset_insert [of ks i k] by blast
  qed (use assms CallAdvance in simp)
qed (use assms in \<open>auto simp: callSound_def option_bind_eq_Some\<close>)

lemma callRun_sound:
  assumes "callRun cr c (am, ks) es = Some (am', ks')" "activeKey am = Some key" "dedup_inv (am_dedup am)"
    and "\<forall>k \<in> set ks. dataPacket c (uc_packet k) \<longrightarrow> callSound cr key k"
  shows "(\<forall>k \<in> set ks'. dataPacket c (uc_packet k) \<longrightarrow> callSound cr key k)
    \<and> same_config am am' \<and> dedup_inv (am_dedup am')"
  using assms
proof (induction es arbitrary: am ks)
  case Nil
  then show ?case by (simp add: same_config_def)
next
  case (Cons e es)
  then obtain a s where a: "callStep cr c (am, ks) e = Some (a, s)" "callRun cr c (a, s) es = Some (am', ks')"
    by (auto simp: option_bind_eq_Some)
  have w: "same_config am a" "dedup_inv (am_dedup a)"
    using callStep_window [OF a(1)] Cons.prems(3) window_moves_inv by blast+
  then have "activeKey a = Some key" using Cons.prems(2) by (simp add: same_config_def)
  then show ?case
    using Cons.IH [OF a(2) _ w(2) callStep_sound [OF a(1) Cons.prems(2,4)]] w same_config_trans by blast
qed


section \<open>Replays\<close>

text \<open>Where a later call on the same bytes can be, at time \<open>t\<close> after the mark at \<open>t0\<close>.\<close>

definition lateCall :: "gotime \<Rightarrow> gotime \<Rightarrow> bytes \<Rightarrow> unwrap_call \<Rightarrow> bool" where
  "lateCall t0 t d k \<longleftrightarrow> (case uc_pc k of
       CallStarted \<Rightarrow> True
     | CallChecked h d' \<Rightarrow> d' = d \<and> t0 + FrameTimeout < t
     | CallOpened h n pt \<Rightarrow> False
     | CallReturned q h e \<Rightarrow> e \<noteq> None)"

abbreviation marked :: "gotime \<Rightarrow> gotime \<Rightarrow> bytes \<Rightarrow> auth_manager \<Rightarrow> bool" where
  "marked t0 t n am \<equiv> dedup_inv (am_dedup am) \<and> (t \<le> t0 + FrameTimeout \<longrightarrow> dedup_held n t0 (am_dedup am))"

lemma lateCall_later: "lateCall t0 t d k \<Longrightarrow> t \<le> t' \<Longrightarrow> lateCall t0 t' d k"
  by (auto simp: lateCall_def split: unwrap_pc.splits)

lemma lateCall_advance:
  assumes late: "lateCall t0 t (framePayload (pk_bytes (uc_packet k))) k" and tt: "t \<le> t'"
    and pk: "dataPacket c (uc_packet k)"
    and am: "activeKey am = Some key" "am_dataTimeout am = DefaultDataTimeout"
    and m: "marked t0 t' (take 12 (framePayload (pk_bytes (uc_packet k)))) am"
    and clock: "\<And>pt. cr_open cr key (take 12 (framePayload (pk_bytes (uc_packet k))))
        (drop 12 (framePayload (pk_bytes (uc_packet k)))) = Some pt \<Longrightarrow>
        timeOfMilli (get_u64 (take 8 pt)) \<le> t0 + 55 * ns_second"
    and adv: "advanceCall cr c t' am k = Some (am', k')"
  shows "lateCall t0 t' (framePayload (pk_bytes (uc_packet k))) k'"
proof (cases "uc_pc k")
  case CallStarted
  then obtain pc where pc: "unwrapCheck am (uc_packet k) = Some pc" "k' = k\<lparr>uc_pc := pc\<rparr>"
    using adv by (auto simp: advanceCall_def option_bind_eq_Some)
  show ?thesis
    using unwrapCheck_full [OF conjunct1 [OF pk] conjunct2 [OF pk] am(1) pc(1)] pc(2) m dw.held_seen
    by (auto simp: lateCall_def not_le [symmetric])
next
  case (CallChecked h d)
  then have k': "k' = k\<lparr>uc_pc := unwrapOpen cr t' am (uc_packet k) h d\<rparr>"
    and d: "d = framePayload (pk_bytes (uc_packet k))" "t0 + FrameTimeout < t'"
    using adv late tt by (auto simp: advanceCall_def lateCall_def)
  have "unwrapOpen cr t' am (uc_packet k) h d \<noteq> CallOpened h n pt" for n pt
  proof
    assume "unwrapOpen cr t' am (uc_packet k) h d = CallOpened h n pt"
    then have o: "cr_open cr key (take 12 d) (drop 12 d) = Some pt"
        "time_sub t' (timeOfMilli (get_u64 (take 8 pt))) \<le> DefaultDataTimeout"
      using am by (auto simp: unwrapOpen_cases)
    have "timeOfMilli (get_u64 (take 8 pt)) \<le> t0 + 55 * ns_second" using clock o(1) d(1) by blast
    then show False
      using o(2) d(2) time_sub_le_iff [of DefaultDataTimeout t']
      by (simp add: DefaultDataTimeout_def FrameTimeout_def ns_second_def ns_minute_def min_i64_def max_i64_def)
  qed
  then obtain e where "unwrapOpen cr t' am (uc_packet k) h d = CallReturned (uc_packet k) (Some h) (Some e)"
    using unwrapOpen_shape by blast
  then show ?thesis by (simp add: k' lateCall_def)
next
  case (CallOpened h n pt)
  then show ?thesis using late by (simp add: lateCall_def)
next
  case (CallReturned q h e)
  then show ?thesis using late adv by (auto simp: lateCall_def advanceCall_def)
qed

lemma callStep_marked:
  assumes "callStep cr c (am, ks) e = Some (am', ks')" "marked t0 t n am" "t0 \<le> t" "t \<le> call_time e"
  shows "marked t0 (call_time e) n am'"
proof -
  have w: "window_moves (call_time e) (am_dedup am) (am_dedup am')" using callStep_window assms(1) by blast
  then show ?thesis using window_moves_inv window_moves_held [OF w] assms(2-4) by fastforce
qed

lemma late_call_refused:
  assumes "callRun cr c (am, ks) es = Some (am', ks')" "sorted (t # map call_time es)" "t0 \<le> t"
    and "activeKey am = Some key" "am_dataTimeout am = DefaultDataTimeout"
    and "marked t0 t (take 12 d) am"
    and "j < length ks \<Longrightarrow> lateCall t0 t d (ks ! j)"
    and "\<And>pt. cr_open cr key (take 12 d) (drop 12 d) = Some pt \<Longrightarrow> timeOfMilli (get_u64 (take 8 pt)) \<le> t0 + 55 * ns_second"
    and "j < length ks'" "dataPacket c (uc_packet (ks' ! j))" "framePayload (pk_bytes (uc_packet (ks' ! j))) = d"
  shows "\<exists>t'. lateCall t0 t' d (ks' ! j)"
  using assms
proof (induction es arbitrary: am ks t)
  case Nil
  then show ?case by auto
next
  case (Cons e es)
  then obtain a s where a: "callStep cr c (am, ks) e = Some (a, s)" "callRun cr c (a, s) es = Some (am', ks')"
    by (auto simp: option_bind_eq_Some)
  have le: "t \<le> call_time e" "t0 \<le> call_time e" using Cons.prems(2,3) by auto
  have cfg: "activeKey a = Some key" "am_dataTimeout a = DefaultDataTimeout"
    using callStep_window [OF a(1)] Cons.prems(4,5) by (simp_all add: same_config_def)
  have m: "marked t0 (call_time e) (take 12 d) a"
    by (rule callStep_marked [OF a(1) Cons.prems(6,3) le(1)])
  have late: "lateCall t0 (call_time e) d (s ! j)" if j: "j < length s"
  proof (cases "j < length ks")
    case False
    then show ?thesis using callStep_calls(3) [OF a(1) j] by (simp add: lateCall_def)
  next
    case True
    then consider "s ! j = ks ! j" | t' where "e = CallAdvance t' j" "advanceCall cr c t' am (ks ! j) = Some (a, s ! j)"
      using callStep_calls(2) [OF a(1)] by blast
    then show ?thesis
    proof cases
      case 1
      then show ?thesis using Cons.prems(7) True lateCall_later le(1) by simp
    next
      case 2
      have same: "uc_packet (ks ! j) = uc_packet (ks' ! j)"
        using advanceCall_window [OF 2(2)] callRun_packet [OF a(2) j] by simp
      have held: "marked t0 t' (take 12 d) am"
        using Cons.prems(6) 2(1) le by auto
      show ?thesis
        using lateCall_advance [of t0 t "ks ! j" t' c am key cr a "s ! j"] same held 2 le Cons.prems True by simp
    qed
  qed
  show ?case
    by (rule Cons.IH [OF a(2) _ le(2) cfg m late Cons.prems(8-11)]) (use Cons.prems(2) in \<open>auto\<close>)
qed


text \<open>The step in which a call accepts a data packet is its mark.\<close>

lemma accepting_step:
  assumes adv: "callStep cr c (am, ks) (CallAdvance t0 i) = Some (am1, ks1)" and i: "i < length ks"
    and pk: "dataPacket c (uc_packet (ks ! i))" and key: "activeKey am = Some key"
    and sound: "callSound cr key (ks ! i)"
    and before: "\<And>q h e. uc_pc (ks ! i) \<noteq> CallReturned q h e"
    and acc: "uc_pc (ks1 ! i) = CallReturned q h None"
  shows "am1 = am\<lparr>am_dedup := markAsUsed t0 (take 12 (framePayload (pk_bytes (uc_packet (ks ! i))))) (am_dedup am)\<rparr>"
proof -
  obtain k where k: "advanceCall cr c t0 am (ks ! i) = Some (am1, k)" "ks1 ! i = k"
    using adv i by (auto simp: option_bind_eq_Some)
  show ?thesis
  proof (cases "uc_pc (ks ! i)")
    case CallStarted
    then obtain pc where "unwrapCheck am (uc_packet (ks ! i)) = Some pc" "uc_pc k = pc"
      using k(1) by (auto simp: advanceCall_def option_bind_eq_Some)
    then have False using unwrapCheck_full [OF conjunct1 [OF pk] conjunct2 [OF pk] key] acc k(2) by fastforce
    then show ?thesis ..
  next
    case (CallChecked h' d)
    then have "uc_pc k = unwrapOpen cr t0 am (uc_packet (ks ! i)) h' d" using k(1) by (auto simp: advanceCall_def)
    then have False using unwrapOpen_shape [of cr t0 am "uc_packet (ks ! i)" h' d] acc k(2) by auto
    then show ?thesis ..
  next
    case (CallOpened h' n pt)
    then have "n = take 12 (framePayload (pk_bytes (uc_packet (ks ! i))))" using sound by (simp add: callSound_def Let_def)
    then show ?thesis using k(1) CallOpened by (auto simp: advanceCall_def unwrapMark_def option_bind_eq_Some)
  next
    case (CallReturned q h e)
    then show ?thesis using before by blast
  qed
qed

text \<open>The parts of a call that accepts.\<close>

lemma accepted_parts:
  assumes pk: "dataPacket c p" and key: "activeKey am = Some key"
    and r: "unwrapData cr c t m am p = Some r" "ur_err r = None"
  obtains h n pt where "unwrapCheck am p = Some (CallChecked h (framePayload (pk_bytes p)))"
    "unwrapOpen cr t am p h (framePayload (pk_bytes p)) = CallOpened h n pt"
    "\<forall>a. unwrapMark c t m a p h n pt =
       Some (a\<lparr>am_dedup := markAsUsed t n (am_dedup a)\<rparr>, CallReturned (ur_packet r) (ur_header r) None)"
proof -
  let ?d = "framePayload (pk_bytes p)"
  obtain pc where pc: "unwrapCheck am p = Some pc" "afterCheck cr c t m am p pc = Some r"
    using r(1) by (auto simp: unwrapData_check option_bind_eq_Some)
  obtain h where h: "pc = CallChecked h ?d"
    using unwrapCheck_full [OF conjunct1 [OF pk] conjunct2 [OF pk] key pc(1)] pc(2) r(2) by (auto simp: afterCheck_def)
  then have e: "unwrapEncrypted cr c t m key ?d h am p = Some r" using pc(2) key by (simp add: afterCheck_def)
  obtain pt where pt: "cr_open cr key (take 12 ?d) (drop 12 ?d) = Some pt" "16 \<le> length pt"
      "time_sub t (timeOfMilli (get_u64 (take 8 pt))) \<le> am_dataTimeout am" "44 \<le> length ?d"
      "\<not> isDuplicate (take 12 ?d) (am_dedup am)"
    using unwrapEncrypted_accept [OF e r(2)] by metis
  obtain p2 where p2: "setBuffer c (openInto m pt) (p\<lparr>pk_connID := get_u64 (take 8 (drop 8 pt))\<rparr>) = Some p2"
      "ur_packet r = p2\<lparr>pk_offset := 16, pk_length := int (length pt) - 16\<rparr>" "ur_header r = Some h"
    using e pt by (auto simp: unwrapEncrypted_def Let_def option_bind_eq_Some)
  show thesis
    by (rule that [of h "take 12 ?d" pt]) (use pc(1) h pt key p2 in \<open>simp_all add: unwrapOpen_cases unwrapMark_def\<close>)
qed

text \<open>C25. Two goroutines that receive the same sealed packet at once both accept it: each looks at
  the replay window before either marks the nonce, because \<open>isDuplicate\<close> and \<open>markAsUsed\<close> lock the
  window one after the other. Whatever packet one call accepts, two calls accept twice.\<close>

theorem concurrent_copies_accepted:
  assumes "dataPacket c p" "activeKey am = Some key"
    and "unwrapData cr c t m am p = Some r" "ur_err r = None"
  shows "\<exists>am'. callRun cr c (am, [])
      [CallEnter t m p, CallEnter t m p, CallAdvance t 0, CallAdvance t 1, CallAdvance t 0, CallAdvance t 1,
       CallAdvance t 0, CallAdvance t 1]
    = Some (am', replicate 2 \<lparr>uc_mem = m, uc_packet = p, uc_pc = CallReturned (ur_packet r) (ur_header r) None\<rparr>)"
proof -
  obtain h n pt where s: "unwrapCheck am p = Some (CallChecked h (framePayload (pk_bytes p)))"
    "unwrapOpen cr t am p h (framePayload (pk_bytes p)) = CallOpened h n pt"
    "\<forall>a. unwrapMark c t m a p h n pt =
       Some (a\<lparr>am_dedup := markAsUsed t n (am_dedup a)\<rparr>, CallReturned (ur_packet r) (ur_header r) None)"
    by (rule accepted_parts [OF assms]) blast
  show ?thesis by (simp add: advanceCall_def s numeral_2_eq_2)
qed

lemma demo_copy:
  "dataPacket demoConfig (received demoConfig demoFrame)" "pk_bytes (received demoConfig demoFrame) = demoFrame"
  using demo_frame received_full by simp_all

theorem concurrent_copies_accepted_witness:
  "\<exists>am' (r :: unwrap_result). ur_err r = None \<and> callRun demoCrypto demoConfig (demoManager True [], [])
      [CallEnter 2000000000 (replicate 164 0) (received demoConfig demoFrame),
       CallEnter 2000000000 (replicate 164 0) (received demoConfig demoFrame),
       CallAdvance 2000000000 0, CallAdvance 2000000000 1, CallAdvance 2000000000 0, CallAdvance 2000000000 1,
       CallAdvance 2000000000 0, CallAdvance 2000000000 1]
    = Some (am', replicate 2 \<lparr>uc_mem = replicate 164 0, uc_packet = received demoConfig demoFrame,
        uc_pc = CallReturned (ur_packet r) (ur_header r) None\<rparr>)"
proof -
  obtain r where r: "unwrapData demoCrypto demoConfig 2000000000 (replicate 164 0) (demoManager True [])
      (received demoConfig demoFrame) = Some r" "ur_err r = None" using demo_accept by blast
  obtain am' where "callRun demoCrypto demoConfig (demoManager True [], [])
      [CallEnter 2000000000 (replicate 164 0) (received demoConfig demoFrame),
       CallEnter 2000000000 (replicate 164 0) (received demoConfig demoFrame),
       CallAdvance 2000000000 0, CallAdvance 2000000000 1, CallAdvance 2000000000 0, CallAdvance 2000000000 1,
       CallAdvance 2000000000 0, CallAdvance 2000000000 1]
    = Some (am', replicate 2 \<lparr>uc_mem = replicate 164 0, uc_packet = received demoConfig demoFrame,
        uc_pc = CallReturned (ur_packet r) (ur_header r) None\<rparr>)"
    using concurrent_copies_accepted [OF demo_copy(1) demo_manager(1) r] by (elim exE)
  with r(2) show ?thesis by (intro exI conjI)
qed

text \<open>C30. No replay, on encrypted tunnels: from the moment \<open>t0\<close> at which a call of \<open>UnwrapData\<close> accepts
  a data packet, no call that begins or has not yet looked at the replay window accepts a packet
  with the same bytes, however the parts of all calls, the senders' marks, both cleanups and the
  handshakes interleave. The nonce must be one the bitmaps track (sequence below 65535), and the
  sender's clock at most 55 seconds ahead: inside the frame timeout of two minutes the bitmap
  rejects the copy, after that its timestamp has expired. A call that looked before the mark is
  not covered: \<open>concurrent_copies_accepted\<close>.\<close>

theorem replayed_packet_rejected:
  assumes start: "dedup_inv (am_dedup am0)" "activeKey am0 = Some key" "am_dataTimeout am0 = DefaultDataTimeout"
    and before: "callRun cr c (am0, []) es0 = Some (am, ks)"
    and packet: "i < length ks" "dataPacket c (uc_packet (ks ! i))"
      "trackable (take 12 (framePayload (pk_bytes (uc_packet (ks ! i)))))"
    and accepts: "callStep cr c (am, ks) (CallAdvance t0 i) = Some (am1, ks1)"
      "\<And>q h e. uc_pc (ks ! i) \<noteq> CallReturned q h e" "uc_pc (ks1 ! i) = CallReturned q h None"
    and clock: "\<And>pt. cr_open cr key (take 12 (framePayload (pk_bytes (uc_packet (ks ! i)))))
        (drop 12 (framePayload (pk_bytes (uc_packet (ks ! i))))) = Some pt \<Longrightarrow>
        timeOfMilli (get_u64 (take 8 pt)) \<le> t0 + 55 * ns_second"
    and after: "callRun cr c (am1, ks1) es = Some (am2, ks2)" "sorted (t0 # map call_time es)"
    and copy: "j < length ks2" "pk_full c (uc_packet (ks2 ! j))"
      "pk_bytes (uc_packet (ks2 ! j)) = pk_bytes (uc_packet (ks ! i))"
    and late: "j < length ks1 \<Longrightarrow> uc_pc (ks1 ! j) = CallStarted"
  shows "uc_pc (ks2 ! j) \<noteq> CallReturned q' h' None"
proof -
  let ?d = "framePayload (pk_bytes (uc_packet (ks ! i)))"
  have am: "callSound cr key (ks ! i)" "same_config am0 am" "dedup_inv (am_dedup am)"
    using callRun_sound [OF before start(2,1)] packet(1,2) by auto
  then have cfg: "activeKey am = Some key" "am_dataTimeout am = DefaultDataTimeout"
    using start by (simp_all add: same_config_def)
  have am1: "am1 = am\<lparr>am_dedup := markAsUsed t0 (take 12 ?d) (am_dedup am)\<rparr>"
    by (rule accepting_step [OF accepts(1) packet(1,2) cfg(1) am(1) accepts(2,3)])
  have m: "marked t0 t0 (take 12 ?d) am1"
    using am(3) packet(3) by (simp add: am1 dw.inv_mark dw.held_mark)
  have "\<exists>t'. lateCall t0 t' ?d (ks2 ! j)"
    by (rule late_call_refused [OF after order_refl _ _ m])
      (use am1 cfg late clock copy packet(2) in \<open>auto simp: lateCall_def\<close>)
  then show ?thesis by (auto simp: lateCall_def)
qed


lemma demo_calls:
  fixes p defines "p \<equiv> received demoConfig demoFrame"
  shows "\<exists>am k0 am1 k1. callRun demoCrypto demoConfig (demoManager True [], [])
        [CallEnter 2000000000 (replicate 164 0) p, CallAdvance 2000000000 0, CallAdvance 2000000000 0] = Some (am, [k0])
    \<and> uc_packet k0 = p \<and> (\<forall>q h e. uc_pc k0 \<noteq> CallReturned q h e)
    \<and> callStep demoCrypto demoConfig (am, [k0]) (CallAdvance 2000000000 0) = Some (am1, [k1])
    \<and> (\<exists>q h. uc_pc k1 = CallReturned q h None)"
proof -
  obtain r where r: "unwrapData demoCrypto demoConfig 2000000000 (replicate 164 0) (demoManager True []) p = Some r"
      "ur_err r = None" using demo_accept by (auto simp: p_def)
  obtain h n pt where s: "unwrapCheck (demoManager True []) p = Some (CallChecked h (framePayload (pk_bytes p)))"
    "unwrapOpen demoCrypto 2000000000 (demoManager True []) p h (framePayload (pk_bytes p)) = CallOpened h n pt"
    "\<forall>a. unwrapMark demoConfig 2000000000 (replicate 164 0) a p h n pt =
       Some (a\<lparr>am_dedup := markAsUsed 2000000000 n (am_dedup a)\<rparr>, CallReturned (ur_packet r) (ur_header r) None)"
    by (rule accepted_parts [OF demo_copy(1) [folded p_def] demo_manager(1) r]) blast
  show ?thesis by (simp add: advanceCall_def s)
qed

theorem replayed_packet_rejected_witness:
  "\<exists>am ks am1 ks1 am2 ks2. callRun demoCrypto demoConfig (demoManager True [], [])
        [CallEnter 2000000000 (replicate 164 0) (received demoConfig demoFrame), CallAdvance 2000000000 0,
         CallAdvance 2000000000 0] = Some (am, ks)
    \<and> callStep demoCrypto demoConfig (am, ks) (CallAdvance 2000000000 0) = Some (am1, ks1)
    \<and> callRun demoCrypto demoConfig (am1, ks1)
        [CallEnter 3000000000 (replicate 164 0) (received demoConfig demoFrame), CallAdvance 3000000000 1] = Some (am2, ks2)
    \<and> (\<forall>q' h'. uc_pc (ks2 ! 1) \<noteq> CallReturned q' h' None)"
proof -
  let ?p = "received demoConfig demoFrame"
  let ?d = "framePayload (pk_bytes ?p)"
  obtain am k0 am1 k1 q h where run: "callRun demoCrypto demoConfig (demoManager True [], [])
        [CallEnter 2000000000 (replicate 164 0) ?p, CallAdvance 2000000000 0, CallAdvance 2000000000 0] = Some (am, [k0])"
      and k0: "uc_packet k0 = ?p" "\<And>q h e. uc_pc k0 \<noteq> CallReturned q h e"
      and step: "callStep demoCrypto demoConfig (am, [k0]) (CallAdvance 2000000000 0) = Some (am1, [k1])"
      and k1: "uc_pc k1 = CallReturned q h None"
    using demo_calls by metis
  obtain r' where "unwrapData demoCrypto demoConfig 3000000000 (replicate 164 0) am1 ?p = Some r'"
    using unwrap_total [OF demo_laws(1) conjunct1 [OF demo_copy(1)] demo_pool] by blast
  then obtain pc where pc: "unwrapCheck am1 ?p = Some pc" by (auto simp: unwrapData_check option_bind_eq_Some)
  let ?k2 = "\<lparr>uc_mem = replicate 164 0, uc_packet = ?p, uc_pc = pc\<rparr>"
  have after: "callRun demoCrypto demoConfig (am1, [k1])
      [CallEnter 3000000000 (replicate 164 0) ?p, CallAdvance 3000000000 1] = Some (am1, [k1, ?k2])"
    using pc by (simp add: advanceCall_def)
  have zeros: "get_u32 (replicate 4 0) = 0" by code_simp
  have track: "trackable (take 12 ?d)"
    using zeros by (simp add: demo_copy(2) demo_frame trackable_def nonceSeq_def BitmapSize_def)
  have clock: "timeOfMilli (get_u64 (take 8 pt)) \<le> 2000000000 + 55 * ns_second"
    if "cr_open demoCrypto demoKey (take 12 ?d) (drop 12 ?d) = Some pt" for pt
    using that by (auto simp: demo_copy(2) demo_frame demoCrypto_def timeOfMilli_def ns_milli_def ns_second_def)
  have "uc_pc ([k1, ?k2] ! 1) \<noteq> CallReturned q' h' None" for q' h'
    by (rule replayed_packet_rejected [where i = 0 and j = 1 and ?t0.0 = 2000000000, OF _ demo_manager(1,4) run _ _ _ step _ _ _ after])
      (use demo_copy track clock k0 k1 in \<open>simp_all add: demo_manager new_inv\<close>)
  with run step after show ?thesis by blast
qed

end
