(* ===== verification/Autorate.thy ===== *)
theory Autorate
  imports Auth
begin

unbundle bit_operations_syntax

text \<open>
  \<open>src/autorate.go\<close>: the controller that follows a varying link by the one-way delay of probes,
  and the probe messages. Rates are floats in bytes per second. The invariant keeps the rate
  between the configured limits over any sequence of samples and ticks.
\<close>

section \<open>Settings\<close>

text \<open>\<open>ShaperConfig\<close> of \<open>src/shaper.go\<close>; its floats are rationals, a nil pointer is \<open>None\<close>.\<close>

record shaper_config =
  sc_enabled :: bool
  sc_rate :: rat
  sc_overhead :: int
  sc_prioritySize :: "int option"
  sc_priorityShare :: int
  sc_targetDelay :: rat
  sc_interval :: int
  sc_queueLimit :: int
  sc_autorate :: bool
  sc_minRate :: rat
  sc_maxRate :: rat
  sc_bloatThreshold :: rat
  sc_probeInterval :: int

record autorate_settings =
  as_base :: rat
  as_min :: rat
  as_max :: rat
  as_threshold :: duration
  as_interval :: duration

definition mbit :: "floats \<Rightarrow> rat \<Rightarrow> rat" where
  "mbit F x = fl_div (fl_round F) (fl_mul (fl_round F) x 1000000) 8"

definition newAutorateSettings :: "floats \<Rightarrow> shaper_config \<Rightarrow> rat \<Rightarrow> autorate_settings option" where
  "newAutorateSettings F cfg base =
     (if \<not> sc_autorate cfg then None
      else Some \<lparr>
        as_base = base,
        as_min = (if 0 < sc_minRate cfg then min (mbit F (sc_minRate cfg)) base
                  else fl_div (fl_round F) base 5),
        as_max = (if 0 < sc_maxRate cfg then max (mbit F (sc_maxRate cfg)) base else base),
        as_threshold = (if 0 < sc_bloatThreshold cfg
                        then fl_trunc (fl_mul (fl_round F) (sc_bloatThreshold cfg) 1000000)
                        else 15 * ns_milli),
        as_interval = (if 0 < sc_probeInterval cfg then i64 (sc_probeInterval cfg * ns_milli)
                       else 50 * ns_milli)\<rparr>)"

section \<open>The controller\<close>

record autorate =
  ar_s :: autorate_settings
  ar_baseline :: rat
  ar_hasBaseline :: bool
  ar_delayed :: "8 word"
  ar_fresh :: int
  ar_lastSample :: gotime
  ar_lastDelta :: duration
  ar_lastRTT :: duration
  ar_rate :: rat
  ar_lastTick :: gotime
  ar_lastSent :: "64 word"
  ar_lastDecrease :: gotime
  ar_lastIncrease :: gotime
  ar_achieved :: rat

definition newAutorate :: "autorate_settings \<Rightarrow> gotime \<Rightarrow> autorate" where
  "newAutorate s now = \<lparr>ar_s = s, ar_baseline = 0, ar_hasBaseline = False, ar_delayed = 0,
     ar_fresh = 0, ar_lastSample = zero_time, ar_lastDelta = 0, ar_lastRTT = 0, ar_rate = as_base s,
     ar_lastTick = now, ar_lastSent = 0, ar_lastDecrease = zero_time, ar_lastIncrease = zero_time,
     ar_achieved = 0\<rparr>"

definition addSample :: "floats \<Rightarrow> int \<Rightarrow> duration \<Rightarrow> gotime \<Rightarrow> autorate \<Rightarrow> autorate" where
  "addSample F owd rtt now a =
     (let r = fl_round F;
          d = fl_of_int r owd;
          baseline = (if \<not> ar_hasBaseline a \<or> d < ar_baseline a then d
            else fl_add r (ar_baseline a) (fl_mul r (fl_sub r d (ar_baseline a)) (r (1 / 1000))));
          lastDelta = fl_trunc (fl_sub r d baseline);
          delayed = push_bit 1 (ar_delayed a)
      in a\<lparr>ar_baseline := baseline, ar_hasBaseline := True, ar_lastDelta := lastDelta,
           ar_lastRTT := rtt,
           ar_delayed := (if as_threshold (ar_s a) < lastDelta then delayed OR 1 else delayed),
           ar_fresh := ar_fresh a + 1, ar_lastSample := now\<rparr>)"

text \<open>The loop \<open>for v := ...; v != 0; v &= v - 1\<close> counts the bits that are set.\<close>

lemma clear_lowest_bit: "(v :: 8 word) \<noteq> 0 \<Longrightarrow> unat (v AND (v - 1)) < unat v"
proof -
  assume "v \<noteq> 0"
  then have "unat (v - 1) < unat v" by (metis measure_unat)
  moreover have "unat (v AND (v - 1)) \<le> unat (v - 1)"
    by (metis word_and_le1 word_le_nat_alt)
  ultimately show ?thesis by simp
qed

function countFlags :: "8 word \<Rightarrow> nat" where
  "countFlags v = (if v = 0 then 0 else 1 + countFlags (v AND (v - 1)))"
  by auto
termination
  by (relation "measure unat") (auto intro: clear_lowest_bit)

declare countFlags.simps [simp del]

definition bloated :: "autorate \<Rightarrow> bool" where
  "bloated a \<longleftrightarrow> 2 \<le> countFlags (ar_delayed a AND 15)"

definition tick :: "floats \<Rightarrow> gotime \<Rightarrow> 64 word \<Rightarrow> autorate \<Rightarrow> autorate" where
  "tick F now sent a0 =
     (let dt = time_sub now (ar_lastTick a0) in
      if dt \<le> 0 then a0
      else
        let r = fl_round F;
            s = ar_s a0;
            achieved = fl_div r (fl_of_int r (uint (sent - ar_lastSent a0))) (fl_seconds r dt);
            a = a0\<lparr>ar_achieved := achieved, ar_lastTick := now, ar_lastSent := sent\<rparr>;
            steps = fl_div r (fl_of_int r dt) (fl_of_int r (as_interval s));
            a' = (if ar_lastSample a = zero_time \<or> 2 * ns_second < time_sub now (ar_lastSample a)
                  then a\<lparr>ar_rate := as_base s\<rparr>
                  else if 0 < ar_fresh a \<and> bloated a then
                    (if 300 * ns_milli \<le> time_sub now (ar_lastDecrease a)
                     then a\<lparr>ar_rate := max (as_min s) (fl_mul r (min (ar_rate a) achieved) (r (9 / 10))),
                            ar_lastDecrease := now, ar_delayed := 0\<rparr>
                     else a)
                  else if fl_mul r (ar_rate a) (3 / 4) \<le> achieved then
                    (if 3 * ns_second \<le> time_sub now (ar_lastDecrease a)
                     then a\<lparr>ar_rate := min (as_max s)
                              (fl_mul r (ar_rate a) (fl_pow F (r (101 / 100)) steps)),
                            ar_lastIncrease := now\<rparr>
                     else a)
                  else
                    let f = fl_pow F (r (99 / 100)) steps in
                    if as_base s < ar_rate a
                    then a\<lparr>ar_rate := max (as_base s) (fl_mul r (ar_rate a) f)\<rparr>
                    else if ar_rate a < as_base s
                    then a\<lparr>ar_rate := min (as_base s) (fl_div r (ar_rate a) f)\<rparr>
                    else a)
        in a'\<lparr>ar_fresh := 0\<rparr>)"

definition probeInterval :: "gotime \<Rightarrow> gotime \<Rightarrow> autorate \<Rightarrow> duration" where
  "probeInterval now lastActive a =
     (if 2 * ns_second \<le> time_sub now lastActive then ns_second else as_interval (ar_s a))"

section \<open>Probe messages\<close>

definition createProbe :: "gotime \<Rightarrow> slice \<Rightarrow> (slice \<times> int) option" where
  "createProbe now b = do {
     b1 \<leftarrow> writeHeader MsgTypeProbe 8 b;
     b2 \<leftarrow> sl_at b1 HeaderSize (sl_put64 (word_of_int now));
     Some (b2, HeaderSize + 8)
   }"

text \<open>The result 0 leaves the buffer alone.\<close>

definition createProbeAck :: "gotime \<Rightarrow> bytes \<Rightarrow> slice \<Rightarrow> (slice \<times> int) option" where
  "createProbeAck now msg b =
     (if int (length msg) < HeaderSize + 8 then Some (b, 0)
      else do {
        let sent = get_u64 (drop 8 msg);
        b1 \<leftarrow> writeHeader MsgTypeProbeAck 16 b;
        b2 \<leftarrow> sl_at b1 HeaderSize (sl_put64 sent);
        b3 \<leftarrow> sl_at b2 (HeaderSize + 8) (sl_put64 (word_of_int now - sent));
        Some (b3, HeaderSize + 16)
      })"

definition parseProbeAck :: "gotime \<Rightarrow> bytes \<Rightarrow> (int \<times> duration) option" where
  "parseProbeAck now msg =
     (if int (length msg) < HeaderSize + 16 then None
      else
        let sent = get_u64 (drop 8 msg);
            owd = sint (get_u64 (drop 16 msg));
            rtt = sint (word_of_int now - sent)
        in if rtt < 0 \<or> ns_minute < rtt then None else Some (owd, rtt))"

section \<open>The rate stays between its limits\<close>

definition settings_ok :: "floats \<Rightarrow> autorate_settings \<Rightarrow> bool" where
  "settings_ok F s \<longleftrightarrow> 0 \<le> as_min s \<and> as_min s \<le> as_base s \<and> as_base s \<le> as_max s \<and> 0 \<le> as_interval s
     \<and> is_float F (as_min s) \<and> is_float F (as_base s) \<and> is_float F (as_max s)"

definition rate_ok :: "floats \<Rightarrow> autorate \<Rightarrow> bool" where
  "rate_ok F a \<longleftrightarrow> settings_ok F (ar_s a) \<and> as_min (ar_s a) \<le> ar_rate a \<and> ar_rate a \<le> as_max (ar_s a)
     \<and> is_float F (ar_rate a)"

lemma float_nonneg: "float_laws F \<Longrightarrow> 0 \<le> x \<Longrightarrow> 0 \<le> fl_round F x"
  using float_ge [OF _ is_float_zero] by blast

lemma mbit_nonneg: "float_laws F \<Longrightarrow> 0 \<le> x \<Longrightarrow> 0 \<le> mbit F x"
  by (simp add: mbit_def fl_defs float_nonneg)

lemma newAutorateSettings_ok:
  assumes laws: "float_laws F" and base: "is_float F base" "0 < base"
    and probe: "sc_probeInterval cfg * ns_milli \<le> max_i64" and s: "newAutorateSettings F cfg base = Some s"
  shows "settings_ok F s \<and> as_base s = base"
proof -
  have iv: "0 \<le> i64 (sc_probeInterval cfg * ns_milli)" if "0 < sc_probeInterval cfg"
    using that probe by (subst i64_id) (simp_all add: min_i64_def ns_milli_def)
  have fm: "is_float F (mbit F x)" for x using laws by (simp add: mbit_def fl_defs)
  have "0 \<le> fl_round F (base / 5)" "fl_round F (base / 5) \<le> base" "is_float F (fl_round F (base / 5))"
    using laws base by (simp_all add: float_nonneg float_le)
  then show ?thesis
    using s base fm mbit_nonneg [OF laws] iv
    by (auto simp: newAutorateSettings_def settings_ok_def fl_defs is_float_min is_float_max ns_milli_def
        split: if_split_asm)
qed

lemma newAutorate_ok: "settings_ok F s \<Longrightarrow> rate_ok F (newAutorate s now)"
  by (simp add: newAutorate_def rate_ok_def settings_ok_def)

lemma addSample_ok [inv_rules]: "rate_ok F a \<Longrightarrow> rate_ok F (addSample F owd rtt now a)"
  by (simp add: rate_ok_def addSample_def Let_def)

text \<open>The four ways a tick moves the rate.\<close>

lemma decrease_ok:
  assumes "float_laws F" "settings_ok F s" "x \<le> as_max s" "is_float F x" "0 \<le> x"
  shows "as_min s \<le> max (as_min s) (fl_mul (fl_round F) (min x y) (fl_round F (9 / 10)))
    \<and> max (as_min s) (fl_mul (fl_round F) (min x y) (fl_round F (9 / 10))) \<le> as_max s"
proof -
  have c: "0 \<le> fl_round F (9 / 10)" "fl_round F (9 / 10) \<le> 1"
    using assms(1) float_le [OF assms(1), of 1 "9 / 10"] float_int [OF assms(1), of 1]
    by (simp_all add: float_nonneg is_float_def)
  have "min x y * fl_round F (9 / 10) \<le> x"
  proof (cases "0 \<le> y")
    case True
    then have "min x y * fl_round F (9 / 10) \<le> min x y * 1"
      using c assms(5) by (intro mult_left_mono) auto
    then show ?thesis by simp
  next
    case False
    then have "min x y * fl_round F (9 / 10) \<le> 0"
      using c by (intro mult_nonpos_nonneg) (auto simp: min_def)
    then show ?thesis using assms(5) by simp
  qed
  then have "fl_mul (fl_round F) (min x y) (fl_round F (9 / 10)) \<le> x"
    using assms by (simp add: fl_mul_def float_le)
  then show ?thesis using assms by (auto simp: settings_ok_def)
qed

lemma grow_ge:
  assumes "float_laws F" "is_float F x" "0 \<le> x" "0 \<le> st"
  shows "x \<le> fl_mul (fl_round F) x (fl_pow F (fl_round F (101 / 100)) st)"
proof -
  have "1 \<le> fl_round F (101 / 100)"
    using float_ge [OF assms(1), of 1 "101 / 100"] float_int [OF assms(1), of 1] by (simp add: is_float_def)
  then have "1 \<le> fl_pow F (fl_round F (101 / 100)) st" using assms by (simp add: float_laws_def)
  then have "x * 1 \<le> x * fl_pow F (fl_round F (101 / 100)) st" using assms(3) by (intro mult_left_mono)
  then show ?thesis using assms by (simp add: fl_mul_def float_ge)
qed

lemma decay_factor:
  assumes "float_laws F" "0 \<le> st"
  shows "0 < fl_pow F (fl_round F (99 / 100)) st \<and> fl_pow F (fl_round F (99 / 100)) st \<le> 1"
proof -
  have "fl_round F (99 / 100) \<le> 1"
    using float_le [OF assms(1), of 1 "99 / 100"] float_int [OF assms(1), of 1] by (simp add: is_float_def)
  moreover have "1 / 2 \<le> fl_round F (99 / 100)" using assms(1) by (simp add: float_laws_def)
  then have "0 < fl_round F (99 / 100)" by linarith
  ultimately show ?thesis using assms by (simp add: float_laws_def)
qed

lemma shrink_le:
  assumes "float_laws F" "is_float F x" "0 \<le> x" "0 < f" "f \<le> 1"
  shows "fl_mul (fl_round F) x f \<le> x" and "x \<le> fl_div (fl_round F) x f"
proof -
  have "x * f \<le> x" "x \<le> x / f" using assms by (simp_all add: mult_left_le le_divide_eq)
  then show "fl_mul (fl_round F) x f \<le> x" "x \<le> fl_div (fl_round F) x f"
    using assms by (simp_all add: fl_defs float_le float_ge)
qed

lemma tick_ok [inv_rules]:
  assumes laws: "float_laws F" and ok: "rate_ok F a"
  shows "rate_ok F (tick F now sent a)"
proof -
  let ?s = "ar_s a" and ?x = "ar_rate a"
  define dt where "dt = time_sub now (ar_lastTick a)"
  define st where "st = fl_div (fl_round F) (fl_of_int (fl_round F) dt) (fl_of_int (fl_round F) (as_interval ?s))"
  have s: "settings_ok F ?s" and x: "as_min ?s \<le> ?x" "?x \<le> as_max ?s" "is_float F ?x" "0 \<le> ?x"
    using ok by (auto simp: rate_ok_def settings_ok_def)
  show ?thesis
  proof (cases "dt \<le> 0")
    case True
    then show ?thesis using ok by (simp add: tick_def dt_def)
  next
    case False
    then have st: "0 \<le> st" using laws s by (simp add: st_def fl_defs float_nonneg settings_ok_def)
    note f = decay_factor [OF laws st]
    let ?f = "fl_pow F (fl_round F (99 / 100)) st"
    note facts = decrease_ok [OF laws s x(2,3,4)] grow_ge [OF laws x(3,4) st]
      shrink_le [OF laws x(3,4) conjunct1 [OF f] conjunct2 [OF f]]
    have fl: "is_float F (fl_mul (fl_round F) u v)" "is_float F (fl_div (fl_round F) u v)" for u v
      using laws by (simp_all add: fl_defs)
    show ?thesis
      using False s x facts fl
      unfolding tick_def Let_def dt_def [symmetric] st_def [symmetric]
      by (simp add: rate_ok_def settings_ok_def is_float_min is_float_max) (linarith | fastforce)
  qed
qed

datatype autorate_event = ArSample int duration gotime | ArTick gotime "64 word"

fun autorateRun :: "floats \<Rightarrow> autorate \<Rightarrow> autorate_event list \<Rightarrow> autorate" where
  "autorateRun F a [] = a"
| "autorateRun F a (ArSample owd rtt now # es) = autorateRun F (addSample F owd rtt now a) es"
| "autorateRun F a (ArTick now sent # es) = autorateRun F (tick F now sent a) es"

lemma tick_settings [simp]: "ar_s (tick F now sent a) = ar_s a"
  by (simp add: tick_def Let_def)

lemma addSample_settings [simp]: "ar_s (addSample F owd rtt now a) = ar_s a"
  by (simp add: addSample_def Let_def)

lemma autorateRun_ok:
  assumes "float_laws F" "rate_ok F a"
  shows "rate_ok F (autorateRun F a es) \<and> ar_s (autorateRun F a es) = ar_s a"
  using assms by (induction F a es rule: autorateRun.induct) (simp_all add: inv_rules)

section \<open>Properties\<close>

text \<open>The controller never leaves its limits: from the configuration, over any sequence of
  delay samples and ticks at any times, the shaping rate stays between the minimum and the
  maximum rate, and the base rate lies between these.\<close>

theorem autorate_rate_bounded:
  assumes "float_laws F" "is_float F base" "0 < base"
    and "sc_probeInterval cfg * ns_milli \<le> max_i64" "newAutorateSettings F cfg base = Some s"
  shows "as_min s \<le> ar_rate (autorateRun F (newAutorate s t0) es)
    \<and> ar_rate (autorateRun F (newAutorate s t0) es) \<le> as_max s
    \<and> 0 \<le> as_min s \<and> as_min s \<le> base \<and> base \<le> as_max s"
proof -
  have s: "settings_ok F s" "as_base s = base" using newAutorateSettings_ok assms by blast+
  then have "rate_ok F (autorateRun F (newAutorate s t0) es)"
      "ar_s (autorateRun F (newAutorate s t0) es) = s"
    using autorateRun_ok [OF assms(1) newAutorate_ok [OF s(1)]] by (simp_all add: newAutorate_def)
  then show ?thesis using s by (simp add: rate_ok_def settings_ok_def)
qed

definition demoShaperConfig :: shaper_config where
  "demoShaperConfig = \<lparr>sc_enabled = True, sc_rate = 8, sc_overhead = 0, sc_prioritySize = None,
     sc_priorityShare = 0, sc_targetDelay = 0, sc_interval = 0, sc_queueLimit = 0, sc_autorate = True,
     sc_minRate = 0, sc_maxRate = 16, sc_bloatThreshold = 0, sc_probeInterval = 0\<rparr>"

theorem autorate_rate_bounded_witness:
  "\<exists>s. newAutorateSettings exact_floats demoShaperConfig 1000000 = Some s
    \<and> 200000 \<le> ar_rate (autorateRun exact_floats (newAutorate s 0)
        [ArSample 5 7 1000, ArSample 90000000 7 2000, ArSample 90000000 7 3000, ArTick 4000 1])
    \<and> ar_rate (autorateRun exact_floats (newAutorate s 0)
        [ArSample 5 7 1000, ArSample 90000000 7 2000, ArSample 90000000 7 3000, ArTick 4000 1]) \<le> 2000000"
proof -
  obtain s where s: "newAutorateSettings exact_floats demoShaperConfig 1000000 = Some s"
      "as_min s = 200000" "as_max s = 2000000"
    by (simp add: newAutorateSettings_def demoShaperConfig_def mbit_def fl_defs exact_floats_def)
  have "is_float exact_floats 1000000" by (simp add: exact_floats_def is_float_def)
  then show ?thesis
    using autorate_rate_bounded [OF exact_floats_laws _ _ _ s(1)] s
    by (simp add: demoShaperConfig_def max_i64_def del: autorateRun.simps)
qed

text \<open>A probe measures what it should: answered by the peer and parsed on return, it yields
  the peer's clock minus ours as one-way delay and the time elapsed on our clock as round trip,
  whenever the round trip took between zero and one minute.\<close>

theorem probe_roundtrip:
  assumes b: "sl_wf b1" "16 \<le> sl_len b1" "sl_wf b2" "24 \<le> sl_len b2"
    and rtt: "t0 \<le> t2" "t2 - t0 \<le> ns_minute" and owd: "min_i64 \<le> t1 - t0" "t1 - t0 \<le> max_i64"
  shows "\<exists>b1' b2'. createProbe t0 b1 = Some (b1', 16) \<and>
    createProbeAck t1 (take 16 (sl_mem b1')) b2 = Some (b2', 24) \<and>
    parseProbeAck t2 (take 24 (sl_mem b2')) = Some (t1 - t0, t2 - t0)"
proof -
  have l1: "16 \<le> length (sl_mem b1)" and l2: "24 \<le> length (sl_mem b2)"
    using b by (auto simp: sl_wf_def sl_cap_def)
  have wf: "sl_wf (b\<lparr>sl_mem := m\<rparr>)" if "sl_wf b" "length m = length (sl_mem b)" for b m
    using that by (simp add: sl_wf_def sl_cap_def)
  let ?m1 = "(headerBytes MsgTypeProbe 8 @ put_u64 (word_of_int t0)) @ drop 16 (sl_mem b1)"
  have p1: "createProbe t0 b1 = Some (b1\<lparr>sl_mem := ?m1\<rparr>, 16)"
  proof -
    have h: "blit (sl_mem b1) 0 (headerBytes MsgTypeProbe 8) = headerBytes MsgTypeProbe 8 @ drop 8 (sl_mem b1)"
      using l1 by (simp add: blit_fits)
    show ?thesis
      using b l1 wf [OF b(1)]
      by (simp add: createProbe_def writeHeader_def sl_cap_def HeaderSize_def h sl_at_put64 blit_next
          del: append_assoc)
  qed
  let ?m2 = "((headerBytes MsgTypeProbeAck 16 @ put_u64 (word_of_int t0)) @ put_u64 (word_of_int (t1 - t0)))
    @ drop 24 (sl_mem b2)"
  have msg: "take 16 ?m1 = headerBytes MsgTypeProbe 8 @ put_u64 (word_of_int t0)" by simp
  have p2: "createProbeAck t1 (take 16 ?m1) b2 = Some (b2\<lparr>sl_mem := ?m2\<rparr>, 24)"
  proof -
    have h: "blit (sl_mem b2) 0 (headerBytes MsgTypeProbeAck 16) = headerBytes MsgTypeProbeAck 16 @ drop 8 (sl_mem b2)"
      using l2 by (simp add: blit_fits)
    show ?thesis
      using b l2 wf [OF b(3)]
      by (simp add: createProbeAck_def Let_def msg writeHeader_def sl_cap_def HeaderSize_def h sl_at_put64 blit_next
          del: append_assoc take_append)
  qed
  have "i64 (t1 - t0) = t1 - t0" using owd by (rule i64_id)
  moreover have "i64 (t2 - t0) = t2 - t0"
    using rtt by (intro i64_id) (simp_all add: min_i64_def max_i64_def ns_minute_def)
  ultimately have "parseProbeAck t2 (take 24 ?m2) = Some (t1 - t0, t2 - t0)"
    using rtt by (simp add: parseProbeAck_def HeaderSize_def i64_def flip: of_int_diff)
  with p1 p2 show ?thesis by (intro exI conjI) (assumption | simp)+
qed

theorem probe_roundtrip_witness:
  "\<exists>b1' b2'. createProbe 1000 (full_slice (replicate 64 0)) = Some (b1', 16) \<and>
    createProbeAck 500 (take 16 (sl_mem b1')) (full_slice (replicate 64 0)) = Some (b2', 24) \<and>
    parseProbeAck 3000 (take 24 (sl_mem b2')) = Some (- 500, 2000)"
  using probe_roundtrip [of "full_slice (replicate 64 0)" "full_slice (replicate 64 0)" 1000 3000 500]
  by (simp add: sl_wf_def full_slice_def sl_cap_def ns_minute_def min_i64_def max_i64_def)

end
