(* ===== verification/Codel.thy ===== *)
theory Codel
  imports Prelude
begin

text \<open>
  \<open>src/codel.go\<close>: the CoDel drop law. \<open>shouldDrop\<close> is a state machine over the packets dequeued;
  the lemmas say when it may drop (only above a standing queue) and when it must.
\<close>

record codel =
  cd_target :: duration
  cd_interval :: duration
  cd_firstAbove :: gotime
  cd_dropNext :: gotime
  cd_count :: "32 word"
  cd_lastCount :: "32 word"
  cd_dropping :: bool

definition newCodel :: "duration \<Rightarrow> duration \<Rightarrow> codel" where
  "newCodel target interval = \<lparr>cd_target = target, cd_interval = interval, cd_firstAbove = zero_time,
     cd_dropNext = zero_time, cd_count = 0, cd_lastCount = 0, cd_dropping = False\<rparr>"

definition controlLaw :: "floats \<Rightarrow> gotime \<Rightarrow> codel \<Rightarrow> gotime" where
  "controlLaw F t c = t + fl_trunc (fl_div (fl_round F) (fl_of_int (fl_round F) (cd_interval c))
     (fl_sqrt F (fl_of_int (fl_round F) (uint (cd_count c)))))"

text \<open>The first part of \<open>shouldDrop\<close>: is the sojourn time persistently above the target?\<close>

definition codelAbove :: "gotime \<Rightarrow> duration \<Rightarrow> codel \<Rightarrow> codel \<times> bool" where
  "codelAbove now sojourn c =
     (if sojourn < cd_target c then (c\<lparr>cd_firstAbove := zero_time\<rparr>, False)
      else if cd_firstAbove c = zero_time then (c\<lparr>cd_firstAbove := now + cd_interval c\<rparr>, False)
      else (c, cd_firstAbove c \<le> now))"

definition shouldDrop :: "floats \<Rightarrow> gotime \<Rightarrow> duration \<Rightarrow> codel \<Rightarrow> codel \<times> bool" where
  "shouldDrop F now sojourn c0 =
     (let (c, okToDrop) = codelAbove now sojourn c0 in
      if cd_dropping c then
        (if \<not> okToDrop then (c\<lparr>cd_dropping := False\<rparr>, False)
         else if cd_dropNext c \<le> now then
           (let c1 = c\<lparr>cd_count := cd_count c + 1\<rparr>
            in (c1\<lparr>cd_dropNext := controlLaw F (cd_dropNext c) c1\<rparr>, True))
         else (c, False))
      else if \<not> okToDrop then (c, False)
      else
        let delta = cd_count c - cd_lastCount c;
            count = (if 1 < delta \<and> time_sub now (cd_dropNext c) < i64 (16 * cd_interval c)
                     then delta else 1);
            c1 = c\<lparr>cd_dropping := True, cd_count := count, cd_lastCount := count\<rparr>
        in (c1\<lparr>cd_dropNext := controlLaw F now c1\<rparr>, True))"

fun codelRun :: "floats \<Rightarrow> codel \<Rightarrow> (gotime \<times> duration) list \<Rightarrow> codel" where
  "codelRun F c [] = c"
| "codelRun F c ((now, sojourn) # xs) = codelRun F (fst (shouldDrop F now sojourn c)) xs"

section \<open>When CoDel drops\<close>

lemma codelRun_append: "codelRun F c (xs @ ys) = codelRun F (codelRun F c xs) ys"
  by (induction F c xs rule: codelRun.induct) auto

lemma shouldDrop_firstAbove:
  "cd_firstAbove (fst (shouldDrop F now s c)) =
     (if s < cd_target c then zero_time
      else if cd_firstAbove c = zero_time then now + cd_interval c else cd_firstAbove c)"
  "cd_target (fst (shouldDrop F now s c)) = cd_target c"
  "cd_interval (fst (shouldDrop F now s c)) = cd_interval c"
  by (auto simp: shouldDrop_def codelAbove_def Let_def)

text \<open>The calls seen so far end with a stretch above the target that began when the deadline was
  set, or there is no deadline.\<close>

definition standing :: "duration \<Rightarrow> duration \<Rightarrow> gotime \<Rightarrow> (gotime \<times> duration) list \<Rightarrow> bool" where
  "standing target interval deadline xs \<longleftrightarrow> deadline = zero_time \<or>
     (\<exists>ys t s zs. xs = ys @ (t, s) # zs \<and> deadline = t + interval \<and>
        (\<forall>x \<in> set ((t, s) # zs). target \<le> snd x))"

lemma standing_snoc:
  assumes "standing (cd_target c) (cd_interval c) (cd_firstAbove c) xs"
  shows "standing (cd_target c) (cd_interval c) (cd_firstAbove (fst (shouldDrop F now s c))) (xs @ [(now, s)])"
proof -
  consider "s < cd_target c" | "cd_target c \<le> s" "cd_firstAbove c = zero_time"
    | "cd_target c \<le> s" "cd_firstAbove c \<noteq> zero_time" by linarith
  then show ?thesis
  proof cases
    case 1
    then show ?thesis by (simp add: standing_def shouldDrop_firstAbove)
  next
    case 2
    then have "xs @ [(now, s)] = xs @ (now, s) # []" "\<forall>x \<in> set [(now, s)]. cd_target c \<le> snd x" by auto
    then show ?thesis
      using 2 unfolding standing_def shouldDrop_firstAbove by (metis linorder_not_less)
  next
    case 3
    then obtain ys t u zs where "xs = ys @ (t, u) # zs" "cd_firstAbove c = t + cd_interval c"
        "\<forall>x \<in> set ((t, u) # zs). cd_target c \<le> snd x"
      using assms by (auto simp: standing_def)
    then have "xs @ [(now, s)] = ys @ (t, u) # (zs @ [(now, s)])"
        "\<forall>x \<in> set ((t, u) # (zs @ [(now, s)])). cd_target c \<le> snd x"
      using 3 by auto
    then show ?thesis
      using 3 \<open>cd_firstAbove c = t + cd_interval c\<close>
      unfolding standing_def shouldDrop_firstAbove by (metis linorder_not_less)
  qed
qed

lemma codelRun_standing:
  "standing target interval (cd_firstAbove (codelRun F (newCodel target interval) xs)) xs
    \<and> cd_target (codelRun F (newCodel target interval) xs) = target
    \<and> cd_interval (codelRun F (newCodel target interval) xs) = interval"
proof (induction xs rule: rev_induct)
  case Nil
  then show ?case by (simp add: newCodel_def standing_def)
next
  case (snoc x xs)
  let ?c = "codelRun F (newCodel target interval) xs"
  obtain now s where x: "x = (now, s)" by force
  have "standing (cd_target ?c) (cd_interval ?c) (cd_firstAbove (fst (shouldDrop F now s ?c))) (xs @ [(now, s)])"
    using snoc by (intro standing_snoc) simp
  then show ?case using snoc x by (simp add: codelRun_append shouldDrop_firstAbove)
qed

lemma shouldDrop_needs:
  "snd (shouldDrop F now s c) \<Longrightarrow>
   cd_target c \<le> s \<and> cd_firstAbove c \<noteq> zero_time \<and> cd_firstAbove c \<le> now"
  by (auto simp: shouldDrop_def codelAbove_def Let_def split: if_split_asm)

section \<open>Properties\<close>

text \<open>Bursts pass untouched: a packet is dropped only if some earlier packet came out at least
  one interval before, and from that packet on, every packet waited at least the target.\<close>

theorem codel_drop_needs_standing_queue:
  assumes "snd (shouldDrop F now s (codelRun F (newCodel target interval) xs))"
  shows "target \<le> s \<and> (\<exists>ys t u zs. xs = ys @ (t, u) # zs \<and> t + interval \<le> now \<and>
    (\<forall>x \<in> set ((t, u) # zs). target \<le> snd x))"
proof -
  let ?c = "codelRun F (newCodel target interval) xs"
  have st: "standing target interval (cd_firstAbove ?c) xs" "cd_target ?c = target"
    using codelRun_standing by auto
  then obtain ys t u zs where "xs = ys @ (t, u) # zs" "cd_firstAbove ?c = t + interval"
      "\<forall>x \<in> set ((t, u) # zs). target \<le> snd x"
    using shouldDrop_needs [OF assms] unfolding standing_def by blast
  then show ?thesis using shouldDrop_needs [OF assms] st(2) by auto
qed

theorem codel_drop_needs_standing_queue_witness:
  "(5 :: int) \<le> 9 \<and> (\<exists>ys t u zs. [(1000, 8), (1040, 2), (1050, 7)] = ys @ (t, u) # zs \<and> t + 100 \<le> (1150 :: int) \<and>
    (\<forall>x \<in> set ((t, u) # zs). (5 :: int) \<le> snd x))"
  by (rule codel_drop_needs_standing_queue [where F = exact_floats and s = 9])
    (simp add: shouldDrop_def codelAbove_def newCodel_def zero_time_def Let_def)

text \<open>C37. A standing queue is not tolerated: if every packet since one at \<open>t\<close> waited at least the
  target and CoDel was not dropping before it, the first packet at or after \<open>t + interval\<close> is
  dropped, and dropping goes on at the control law's next time.\<close>

theorem codel_drops_standing_queue:
  assumes idle: "cd_firstAbove c = zero_time" "\<not> cd_dropping c" and above: "cd_target c \<le> u" "cd_target c \<le> s"
    and zs: "\<forall>x \<in> set zs. cd_target c \<le> snd x \<and> fst x < t + cd_interval c"
    and clock: "t + cd_interval c \<noteq> zero_time" and now: "t + cd_interval c \<le> now"
  shows "\<exists>c'. shouldDrop F now s (codelRun F c ((t, u) # zs)) = (c', True)
    \<and> cd_dropping c' \<and> cd_dropNext c' = controlLaw F now c'"
proof -
  have "cd_firstAbove (codelRun F d xs) = t + cd_interval c \<and> \<not> cd_dropping (codelRun F d xs)
      \<and> cd_target (codelRun F d xs) = cd_target c \<and> cd_interval (codelRun F d xs) = cd_interval c"
    if "cd_firstAbove d = t + cd_interval c" "\<not> cd_dropping d" "cd_target d = cd_target c"
      "cd_interval d = cd_interval c" "\<forall>x \<in> set xs. cd_target c \<le> snd x \<and> fst x < t + cd_interval c" for d xs
    using that
  proof (induction F d xs rule: codelRun.induct)
    case (2 F d n so xs)
    have "shouldDrop F n so d = (d, False)"
      using "2.prems" clock by (auto simp: shouldDrop_def codelAbove_def)
    then show ?case using 2 by simp
  qed simp
  moreover have "shouldDrop F t u c = (c\<lparr>cd_firstAbove := t + cd_interval c\<rparr>, False)"
    using idle above by (simp add: shouldDrop_def codelAbove_def)
  ultimately have "cd_firstAbove (codelRun F c ((t, u) # zs)) = t + cd_interval c"
      "\<not> cd_dropping (codelRun F c ((t, u) # zs))" "cd_target (codelRun F c ((t, u) # zs)) = cd_target c"
    using idle zs by simp_all
  then show ?thesis
    using clock now above by (simp add: shouldDrop_def codelAbove_def Let_def controlLaw_def)
qed

theorem codel_drops_standing_queue_witness:
  "\<exists>c'. shouldDrop exact_floats 1100 6 (codelRun exact_floats (newCodel 5 100) [(1000, 8), (1050, 7)]) = (c', True)
    \<and> cd_dropping c' \<and> cd_dropNext c' = controlLaw exact_floats 1100 c'"
  by (rule codel_drops_standing_queue) (simp_all add: newCodel_def zero_time_def)

end
