(* ===== verification/Shaper.thy ===== *)
theory Shaper
  imports Codel Autorate "HOL-Library.Multiset"
begin

text \<open>
  \<open>src/shaper.go\<close>: the resolved settings, the FIFO with lazy compaction (\<open>shaperQueue\<close>) and the
  path shaper with its token buckets, control, priority and bulk queues and CoDel. The queue
  refines a list. \<open>sx_released\<close> records the packets on which \<open>Release(1)\<close> was called, in order;
  it is the effect of \<open>drop\<close> and \<open>reset\<close> on the packets, which the shaper owns by reference.
\<close>

section \<open>Settings\<close>

record shaper_settings =
  ss_rate :: rat
  ss_burst :: rat
  ss_overhead :: int
  ss_prioritySize :: int
  ss_priorityRate :: rat
  ss_priorityBurst :: rat
  ss_target :: duration
  ss_interval :: duration
  ss_queueLimit :: int
  ss_autorate :: "autorate_settings option"

definition newShaperSettings :: "floats \<Rightarrow> shaper_config option \<Rightarrow> string + shaper_settings option" where
  "newShaperSettings F c = (case c of None \<Rightarrow> Inr None | Some cfg \<Rightarrow>
     if \<not> sc_enabled cfg then Inr None
     else if sc_rate cfg \<le> 0 then Inl ''shaper rate must be positive (Mbit/s)''
     else
       let r = fl_round F;
           rate = mbit F (sc_rate cfg);
           burst = max (fl_mul r rate (r (2 / 1000))) 3000;
           share = (if sc_priorityShare cfg \<le> 0 \<or> 100 < sc_priorityShare cfg then 50
                    else sc_priorityShare cfg)
       in Inr (Some \<lparr>
         ss_rate = rate, ss_burst = burst, ss_overhead = max (sc_overhead cfg) 0,
         ss_prioritySize = (case sc_prioritySize cfg of None \<Rightarrow> 1000 | Some n \<Rightarrow> max n 0),
         ss_priorityRate = fl_div r (fl_mul r rate (fl_of_int r share)) 100,
         ss_priorityBurst = max (fl_div r (fl_mul r burst (fl_of_int r share)) 100) 3000,
         ss_target = (if 0 < sc_targetDelay cfg
                      then fl_trunc (fl_mul r (sc_targetDelay cfg) 1000000) else 5 * ns_milli),
         ss_interval = (if 0 < sc_interval cfg then i64 (sc_interval cfg * ns_milli) else 100 * ns_milli),
         ss_queueLimit = (if sc_queueLimit cfg \<le> 0
                          then min (max (fl_trunc (fl_mul r rate (r (1 / 10)))) 262144) 4194304
                          else sc_queueLimit cfg),
         ss_autorate = newAutorateSettings F cfg rate\<rparr>))"

record path_rate =
  pr_rate :: rat
  pr_burst :: rat
  pr_priorityRate :: rat
  pr_priorityBurst :: rat

definition pathRate :: "floats \<Rightarrow> shaper_settings \<Rightarrow> rat \<Rightarrow> path_rate" where
  "pathRate F s rate =
     (let r = fl_round F;
          share = fl_div r (ss_priorityRate s) (ss_rate s);
          burst = max (fl_mul r rate (r (2 / 1000))) 3000
      in \<lparr>pr_rate = rate, pr_burst = burst, pr_priorityRate = fl_mul r rate share,
          pr_priorityBurst = max (fl_mul r burst share) 3000\<rparr>)"

section \<open>The queue\<close>

record shaper_item =
  it_pkt :: packet
  it_addr :: "addr option"
  it_enq :: gotime
  it_wire :: int

definition zeroItem :: shaper_item where
  "zeroItem = \<lparr>it_pkt = getPacketWithBuffer '''' (full_slice []) 0, it_addr = None, it_enq = zero_time,
     it_wire = 0\<rparr>"

record shaper_queue =
  sq_items :: "shaper_item list"
  sq_head :: nat
  sq_bytes :: int

definition sq_empty :: shaper_queue where
  "sq_empty = \<lparr>sq_items = [], sq_head = 0, sq_bytes = 0\<rparr>"

definition sq_len :: "shaper_queue \<Rightarrow> nat" where
  "sq_len q = length (sq_items q) - sq_head q"

definition sq_push :: "shaper_item \<Rightarrow> shaper_queue \<Rightarrow> shaper_queue" where
  "sq_push it q =
     (let q1 = (if 0 < sq_head q \<and> length (sq_items q) div 2 \<le> sq_head q
                then q\<lparr>sq_items := drop (sq_head q) (sq_items q), sq_head := 0\<rparr> else q)
      in q1\<lparr>sq_items := sq_items q1 @ [it], sq_bytes := sq_bytes q1 + it_wire it\<rparr>)"

text \<open>Indexing past the end panics. A cleared slot holds the zero item, whose packet is nil.\<close>

definition sq_pop :: "shaper_queue \<Rightarrow> (shaper_item \<times> shaper_queue) option" where
  "sq_pop q =
     (if sq_head q < length (sq_items q)
      then
        let it = sq_items q ! sq_head q;
            items = (sq_items q)[sq_head q := zeroItem];
            head = sq_head q + 1;
            q1 = q\<lparr>sq_items := items, sq_head := head, sq_bytes := sq_bytes q - it_wire it\<rparr>
        in Some (it, if head = length items then q1\<lparr>sq_items := [], sq_head := 0\<rparr> else q1)
      else None)"

text \<open>The queue as a list.\<close>

definition sq_abs :: "shaper_queue \<Rightarrow> shaper_item list" where
  "sq_abs q = drop (sq_head q) (sq_items q)"

lemma sq_len_abs: "sq_len q = length (sq_abs q)"
  by (simp add: sq_len_def sq_abs_def)

lemma sq_empty_abs [simp]: "sq_abs sq_empty = []" "sq_bytes sq_empty = 0"
  by (simp_all add: sq_abs_def sq_empty_def)

text \<open>The byte counter is the sum of the wire sizes, and the head lies inside.\<close>

definition sq_inv :: "shaper_queue \<Rightarrow> bool" where
  "sq_inv q \<longleftrightarrow> sq_head q \<le> length (sq_items q) \<and> sq_bytes q = sum_list (map it_wire (sq_abs q))"

lemma sq_push_abs:
  assumes "sq_inv q"
  shows "sq_inv (sq_push it q) \<and> sq_abs (sq_push it q) = sq_abs q @ [it]"
  using assms by (auto simp: sq_inv_def sq_push_def sq_abs_def Let_def)

lemma sq_pop_abs:
  assumes "sq_inv q" "sq_abs q = x # xs"
  shows "\<exists>q'. sq_pop q = Some (x, q') \<and> sq_inv q' \<and> sq_abs q' = xs"
proof -
  have h: "sq_head q < length (sq_items q)"
    using assms by (metis drop_all list.distinct(1) not_less sq_abs_def)
  have x: "sq_items q ! sq_head q = x" "drop (Suc (sq_head q)) (sq_items q) = xs"
    using assms(2) Cons_nth_drop_Suc [OF h] by (auto simp: sq_abs_def)
  let ?q = "q\<lparr>sq_items := (sq_items q)[sq_head q := zeroItem], sq_head := sq_head q + 1,
     sq_bytes := sq_bytes q - it_wire x\<rparr>"
  have b: "sq_bytes q - it_wire x = sum_list (map it_wire xs)" using assms by (simp add: sq_inv_def)
  show ?thesis
  proof (cases "Suc (sq_head q) = length (sq_items q)")
    case True
    then have "xs = []" using x by auto
    then show ?thesis using h x b True by (simp add: sq_pop_def Let_def sq_inv_def sq_abs_def)
  next
    case False
    then show ?thesis using h x b by (simp add: sq_pop_def Let_def sq_inv_def sq_abs_def)
  qed
qed

lemma sq_pop_None: "sq_len q = 0 \<Longrightarrow> sq_pop q = None"
  by (auto simp: sq_pop_def sq_len_def)

lemma sq_pop_len: "sq_pop q = Some (it, q') \<Longrightarrow> sq_len q' < sq_len q"
  by (auto simp: sq_pop_def sq_len_def Let_def split: if_split_asm)

section \<open>The contract of the queue\<close>

text \<open>What the shaper and the TCP send queue need of a FIFO, stated over the list it holds.\<close>

locale fifo =
  fixes push :: "'a \<Rightarrow> 'q \<Rightarrow> 'q"
    and pop :: "'q \<Rightarrow> ('a \<times> 'q) option"
    and items :: "'q \<Rightarrow> 'a list"
    and good :: "'q \<Rightarrow> bool"
  assumes good_push: "good q \<Longrightarrow> good (push x q)"
    and items_push: "good q \<Longrightarrow> items (push x q) = items q @ [x]"
    and pop_first: "good q \<Longrightarrow> items q = x # xs \<Longrightarrow> \<exists>q'. pop q = Some (x, q') \<and> good q' \<and> items q' = xs"
    and pop_empty: "good q \<Longrightarrow> items q = [] \<Longrightarrow> pop q = None"
begin

lemma pop_head: "good q \<Longrightarrow> pop q = Some (x, q') \<Longrightarrow> items q = x # items q' \<and> good q'"
  using pop_first [of q] pop_empty [of q] by (cases "items q") fastforce+

lemma pop_total: "good q \<Longrightarrow> items q \<noteq> [] \<Longrightarrow> \<exists>x q'. pop q = Some (x, q') \<and> items q = x # items q' \<and> good q'"
  using pop_first [of q] by (cases "items q") fastforce+

lemma pop_count: "good q \<Longrightarrow> pop q = Some (x, q') \<Longrightarrow> mset (items q) = add_mset x (mset (items q'))"
  using pop_head [of q x q'] by simp

lemma pop_shorter: "good q \<Longrightarrow> pop q = Some (x, q') \<Longrightarrow> length (items q') < length (items q)"
  using pop_head [of q x q'] by simp

end

interpretation sq: fifo sq_push sq_pop sq_abs sq_inv
  by unfold_locales (auto simp: sq_push_abs sq_pop_abs sq_len_abs intro!: sq_pop_None)

lemmas sq_pop_head = sq.pop_head

section \<open>The path shaper\<close>

record shaper_stats =
  st_sentBytes :: "64 word"
  st_priorityPkts :: "64 word"
  st_codelDrops :: "64 word"
  st_overflowDrops :: "64 word"
  st_queuedBytes :: "64 word"
  st_maxDelay :: int

definition observeDelay :: "duration \<Rightarrow> shaper_stats \<Rightarrow> shaper_stats" where
  "observeDelay d st = (if d \<le> st_maxDelay st then st else st\<lparr>st_maxDelay := d\<rparr>)"

record path_shaper =
  ps_s :: shaper_settings
  ps_r :: path_rate
  ps_sent :: "64 word"
  ps_tokens :: rat
  ps_priorityTokens :: rat
  ps_last :: gotime
  ps_control :: shaper_queue
  ps_priority :: shaper_queue
  ps_bulk :: shaper_queue
  ps_codel :: codel
  ps_priorityCodel :: codel
  ps_lastActive :: gotime

record shaper_state =
  sx_p :: path_shaper
  sx_stats :: shaper_stats
  sx_released :: "packet list"

definition newPathShaper :: "floats \<Rightarrow> shaper_settings \<Rightarrow> gotime \<Rightarrow> path_shaper" where
  "newPathShaper F s now = \<lparr>ps_s = s, ps_r = pathRate F s (ss_rate s), ps_sent = 0,
     ps_tokens = ss_burst s, ps_priorityTokens = ss_priorityBurst s, ps_last = now,
     ps_control = sq_empty, ps_priority = sq_empty, ps_bulk = sq_empty,
     ps_codel = newCodel (ss_target s) (ss_interval s),
     ps_priorityCodel = newCodel (ss_target s) (ss_interval s), ps_lastActive = now\<rparr>"

text \<open>\<open>net.IP.To4\<close>: four bytes, or sixteen with the prefix of a mapped address.\<close>

definition isIPv4 :: "bytes \<Rightarrow> bool" where
  "isIPv4 ip \<longleftrightarrow> length ip = 4 \<or> length ip = 16 \<and> take 12 ip = replicate 10 0 @ [255, 255]"

definition udpWireOverhead :: "addr option \<Rightarrow> int" where
  "udpWireOverhead a = (case a of Some (UDPAddr ip port zone) \<Rightarrow>
       if \<not> isIPv4 ip \<and> length ip = 16 then 48 else 28
     | _ \<Rightarrow> 28)"

definition addQueued :: "int \<Rightarrow> shaper_stats \<Rightarrow> shaper_stats" where
  "addQueued n st = st\<lparr>st_queuedBytes := st_queuedBytes st + word_of_int n\<rparr>"

text \<open>\<open>drop\<close> with the overflow and with the CoDel counter.\<close>

definition dropOverflow :: "shaper_item \<Rightarrow> shaper_state \<Rightarrow> shaper_state" where
  "dropOverflow it x = x\<lparr>sx_stats := (sx_stats x)\<lparr>st_overflowDrops := st_overflowDrops (sx_stats x) + 1\<rparr>,
     sx_released := sx_released x @ [it_pkt it]\<rparr>"

definition dropCodel :: "shaper_item \<Rightarrow> shaper_state \<Rightarrow> shaper_state" where
  "dropCodel it x = x\<lparr>sx_stats := (sx_stats x)\<lparr>st_codelDrops := st_codelDrops (sx_stats x) + 1\<rparr>,
     sx_released := sx_released x @ [it_pkt it]\<rparr>"

text \<open>The loop that drops the oldest bulk packets until \<open>wire\<close> more bytes fit.\<close>

function makeRoom :: "int \<Rightarrow> shaper_state \<Rightarrow> shaper_state option" where
  "makeRoom wire x =
     (let p = sx_p x in
      if ss_queueLimit (ps_s p) < sq_bytes (ps_priority p) + sq_bytes (ps_bulk p) + wire
         \<and> 0 < sq_len (ps_bulk p)
      then case sq_pop (ps_bulk p) of
          None \<Rightarrow> None
        | Some (old, q) \<Rightarrow>
            makeRoom wire (dropOverflow old
              (x\<lparr>sx_p := p\<lparr>ps_bulk := q\<rparr>, sx_stats := addQueued (- it_wire old) (sx_stats x)\<rparr>))
      else Some x)"
  by auto
termination
  by (relation "measure (\<lambda>(w, x). sq_len (ps_bulk (sx_p x)))")
    (auto simp: dropOverflow_def intro: sq_pop_len)

declare makeRoom.simps [simp del]

definition enqueue :: "packet \<Rightarrow> addr option \<Rightarrow> bool \<Rightarrow> gotime \<Rightarrow> shaper_state \<Rightarrow> shaper_state option" where
  "enqueue pkt addr control now x =
     (let size = pk_length pkt;
          it = \<lparr>it_pkt = pkt, it_addr = addr, it_enq = now,
                it_wire = size + udpWireOverhead addr + ss_overhead (ps_s (sx_p x))\<rparr>
      in if control then
           (if 1024 \<le> sq_len (ps_control (sx_p x)) then Some (dropOverflow it x)
            else Some (x\<lparr>sx_p := (sx_p x)\<lparr>ps_control := sq_push it (ps_control (sx_p x))\<rparr>,
                        sx_stats := addQueued (it_wire it) (sx_stats x)\<rparr>))
         else do {
           x1 \<leftarrow> makeRoom (it_wire it) x;
           let p = sx_p x1;
           if ss_queueLimit (ps_s p) < sq_bytes (ps_priority p) + sq_bytes (ps_bulk p) + it_wire it
           then Some (dropOverflow it x1)
           else
             let p1 = p\<lparr>ps_lastActive := now\<rparr>;
                 p2 = (if 0 < ss_prioritySize (ps_s p) \<and> size \<le> ss_prioritySize (ps_s p)
                       then p1\<lparr>ps_priority := sq_push it (ps_priority p)\<rparr>
                       else p1\<lparr>ps_bulk := sq_push it (ps_bulk p)\<rparr>)
             in Some (x1\<lparr>sx_p := p2, sx_stats := addQueued (it_wire it) (sx_stats x1)\<rparr>)
         })"

definition refill :: "floats \<Rightarrow> gotime \<Rightarrow> path_shaper \<Rightarrow> path_shaper" where
  "refill F now p =
     (let r = fl_round F; dt = fl_seconds r (time_sub now (ps_last p)) in
      if dt \<le> 0 then p
      else p\<lparr>ps_last := now,
        ps_tokens := min (fl_add r (ps_tokens p) (fl_mul r (pr_rate (ps_r p)) dt)) (pr_burst (ps_r p)),
        ps_priorityTokens := min (fl_add r (ps_priorityTokens p) (fl_mul r (pr_priorityRate (ps_r p)) dt))
          (pr_priorityBurst (ps_r p))\<rparr>)"

definition setRate :: "floats \<Rightarrow> gotime \<Rightarrow> rat \<Rightarrow> path_shaper \<Rightarrow> path_shaper" where
  "setRate F now rate p0 =
     (if rate = pr_rate (ps_r p0) then p0
      else
        let p = refill F now p0; r = pathRate F (ps_s p) rate
        in p\<lparr>ps_r := r, ps_tokens := min (ps_tokens p) (pr_burst r),
             ps_priorityTokens := min (ps_priorityTokens p) (pr_priorityBurst r)\<rparr>)"

definition queueDelay :: "floats \<Rightarrow> path_shaper \<Rightarrow> duration" where
  "queueDelay F p =
     (let r = fl_round F
      in fl_trunc (fl_mul r (fl_div r (fl_of_int r (sq_bytes (ps_priority p) + sq_bytes (ps_bulk p)))
           (pr_rate (ps_r p))) 1000000000))"

definition takeItem :: "shaper_item \<Rightarrow> shaper_item list \<Rightarrow> shaper_state \<Rightarrow> shaper_item list \<times> shaper_state" where
  "takeItem it out x = (out @ [it], x\<lparr>
     sx_p := (sx_p x)\<lparr>ps_sent := ps_sent (sx_p x) + word_of_int (it_wire it)\<rparr>,
     sx_stats := (addQueued (- it_wire it) (sx_stats x))
       \<lparr>st_sentBytes := st_sentBytes (sx_stats x) + word_of_int (it_wire it)\<rparr>\<rparr>)"

definition spend :: "floats \<Rightarrow> shaper_item \<Rightarrow> path_shaper \<Rightarrow> path_shaper" where
  "spend F it p = p\<lparr>ps_tokens := fl_sub (fl_round F) (ps_tokens p) (fl_of_int (fl_round F) (it_wire it))\<rparr>"

text \<open>One round of the loop of \<open>dequeue\<close>: \<open>None\<close> panics, \<open>Some None\<close> breaks.\<close>

definition dequeueControl :: "floats \<Rightarrow> shaper_item list \<Rightarrow> shaper_state
    \<Rightarrow> (shaper_item list \<times> shaper_state) option" where
  "dequeueControl F out x = do {
     (it, q) \<leftarrow> sq_pop (ps_control (sx_p x));
     Some (takeItem it out (x\<lparr>sx_p := spend F it ((sx_p x)\<lparr>ps_control := q\<rparr>)\<rparr>))
   }"

definition dequeuePriority :: "floats \<Rightarrow> gotime \<Rightarrow> shaper_item list \<Rightarrow> shaper_state
    \<Rightarrow> (shaper_item list \<times> shaper_state) option" where
  "dequeuePriority F now out x = do {
     (it, q) \<leftarrow> sq_pop (ps_priority (sx_p x));
     let p = (sx_p x)\<lparr>ps_priority := q\<rparr>;
     let (cd, drop) = (if 1500 \<le> sq_bytes q
        then shouldDrop F now (time_sub now (it_enq it)) (ps_priorityCodel p) else (ps_priorityCodel p, False));
     let p1 = p\<lparr>ps_priorityCodel := cd\<rparr>;
     if drop
     then Some (out, dropCodel it (x\<lparr>sx_p := p1, sx_stats := addQueued (- it_wire it) (sx_stats x)\<rparr>))
     else
       let p2 = spend F it p1;
           p3 = p2\<lparr>ps_priorityTokens := max (fl_sub (fl_round F) (ps_priorityTokens p2)
                    (fl_of_int (fl_round F) (it_wire it))) (- pr_priorityBurst (ps_r p2))\<rparr>
       in Some (takeItem it out (x\<lparr>sx_p := p3,
            sx_stats := (sx_stats x)\<lparr>st_priorityPkts := st_priorityPkts (sx_stats x) + 1\<rparr>\<rparr>))
   }"

definition dequeueBulk :: "floats \<Rightarrow> gotime \<Rightarrow> shaper_item list \<Rightarrow> shaper_state
    \<Rightarrow> (shaper_item list \<times> shaper_state) option" where
  "dequeueBulk F now out x = do {
     (it, q) \<leftarrow> sq_pop (ps_bulk (sx_p x));
     let p = (sx_p x)\<lparr>ps_bulk := q\<rparr>;
     let sojourn = time_sub now (it_enq it);
     let st = observeDelay sojourn (sx_stats x);
     let (cd, drop) = shouldDrop F now (if sq_bytes q < 1500 then 0 else sojourn) (ps_codel p);
     let p1 = p\<lparr>ps_codel := cd\<rparr>;
     if drop
     then Some (out, dropCodel it (x\<lparr>sx_p := p1, sx_stats := addQueued (- it_wire it) st\<rparr>))
     else Some (takeItem it out (x\<lparr>sx_p := spend F it p1, sx_stats := st\<rparr>))
   }"

definition dequeueStep :: "floats \<Rightarrow> gotime \<Rightarrow> shaper_item list \<Rightarrow> shaper_state
    \<Rightarrow> (shaper_item list \<times> shaper_state) option option" where
  "dequeueStep F now out x =
     (let p = sx_p x in
      if 0 < sq_len (ps_control p) then map_option Some (dequeueControl F out x)
      else if ps_tokens p \<le> 0 \<or> sq_len (ps_priority p) + sq_len (ps_bulk p) = 0 then Some None
      else if 0 < sq_len (ps_priority p) \<and> (0 < ps_priorityTokens p \<or> sq_len (ps_bulk p) = 0)
      then map_option Some (dequeuePriority F now out x)
      else map_option Some (dequeueBulk F now out x))"

definition queuedItems :: "path_shaper \<Rightarrow> nat" where
  "queuedItems p = sq_len (ps_control p) + sq_len (ps_priority p) + sq_len (ps_bulk p)"

lemma takeItem_simps [simp]:
  "fst (takeItem it out x) = out @ [it]"
  "sx_released (snd (takeItem it out x)) = sx_released x"
  "sx_p (snd (takeItem it out x)) = (sx_p x)\<lparr>ps_sent := ps_sent (sx_p x) + word_of_int (it_wire it)\<rparr>"
  "st_queuedBytes (sx_stats (snd (takeItem it out x))) = st_queuedBytes (sx_stats x) - word_of_int (it_wire it)"
  by (simp_all add: takeItem_def addQueued_def)

lemma spend_simps [simp]:
  "ps_control (spend F it p) = ps_control p" "ps_priority (spend F it p) = ps_priority p"
  "ps_bulk (spend F it p) = ps_bulk p" "ps_s (spend F it p) = ps_s p" "ps_r (spend F it p) = ps_r p"
  "ps_last (spend F it p) = ps_last p" "ps_sent (spend F it p) = ps_sent p"
  "ps_tokens (spend F it p) = fl_sub (fl_round F) (ps_tokens p) (fl_of_int (fl_round F) (it_wire it))"
  by (simp_all add: spend_def)

lemma dropCodel_simps [simp]:
  "sx_p (dropCodel it x) = sx_p x" "sx_released (dropCodel it x) = sx_released x @ [it_pkt it]"
  "st_queuedBytes (sx_stats (dropCodel it x)) = st_queuedBytes (sx_stats x)"
  by (simp_all add: dropCodel_def)

lemma dropOverflow_simps [simp]:
  "sx_p (dropOverflow it x) = sx_p x" "sx_released (dropOverflow it x) = sx_released x @ [it_pkt it]"
  "st_queuedBytes (sx_stats (dropOverflow it x)) = st_queuedBytes (sx_stats x)"
  by (simp_all add: dropOverflow_def)

lemma stats_simps [simp]:
  "st_queuedBytes (addQueued n st) = st_queuedBytes st + word_of_int n"
  "st_queuedBytes (observeDelay d st) = st_queuedBytes st"
  by (simp_all add: addQueued_def observeDelay_def)

text \<open>
  What one round does: it takes the head \<open>it\<close> of one of the three queues and either sends it,
  paying its wire size in tokens, or drops it.
\<close>

definition movesItem :: "floats \<Rightarrow> shaper_item \<Rightarrow> bool \<Rightarrow> shaper_item list \<times> shaper_state
    \<Rightarrow> shaper_item list \<times> shaper_state \<Rightarrow> bool" where
  "movesItem F it sent = (\<lambda>(out, x) (out', x').
     ps_s (sx_p x') = ps_s (sx_p x) \<and> ps_r (sx_p x') = ps_r (sx_p x) \<and> ps_last (sx_p x') = ps_last (sx_p x)
     \<and> st_queuedBytes (sx_stats x') = st_queuedBytes (sx_stats x) - word_of_int (it_wire it)
     \<and> (if sent
        then out' = out @ [it] \<and> sx_released x' = sx_released x
          \<and> ps_tokens (sx_p x') = fl_sub (fl_round F) (ps_tokens (sx_p x)) (fl_of_int (fl_round F) (it_wire it))
          \<and> ps_sent (sx_p x') = ps_sent (sx_p x) + word_of_int (it_wire it)
        else out' = out \<and> sx_released x' = sx_released x @ [it_pkt it]
          \<and> ps_tokens (sx_p x') = ps_tokens (sx_p x) \<and> ps_sent (sx_p x') = ps_sent (sx_p x)))"

lemma dequeueControl_moves:
  assumes "dequeueControl F out x = Some y"
  obtains it q where "sq_pop (ps_control (sx_p x)) = Some (it, q)" "movesItem F it True (out, x) y"
    "ps_control (sx_p (snd y)) = q" "ps_priority (sx_p (snd y)) = ps_priority (sx_p x)"
    "ps_bulk (sx_p (snd y)) = ps_bulk (sx_p x)"
proof -
  obtain it q where pop: "sq_pop (ps_control (sx_p x)) = Some (it, q)"
      and y: "y = takeItem it out (x\<lparr>sx_p := spend F it ((sx_p x)\<lparr>ps_control := q\<rparr>)\<rparr>)"
    using assms by (auto simp: dequeueControl_def option_bind_eq_Some)
  show thesis by (rule that [OF pop]) (simp_all add: y movesItem_def case_prod_beta)
qed

lemma dequeuePriority_moves:
  assumes "dequeuePriority F now out x = Some y"
  obtains it q sent where "sq_pop (ps_priority (sx_p x)) = Some (it, q)" "movesItem F it sent (out, x) y"
    "ps_priority (sx_p (snd y)) = q" "ps_control (sx_p (snd y)) = ps_control (sx_p x)"
    "ps_bulk (sx_p (snd y)) = ps_bulk (sx_p x)"
proof -
  obtain it q where pop: "sq_pop (ps_priority (sx_p x)) = Some (it, q)"
    using assms by (auto simp: dequeuePriority_def option_bind_eq_Some)
  obtain cd drop where cd: "(if 1500 \<le> sq_bytes q
      then shouldDrop F now (time_sub now (it_enq it)) (ps_priorityCodel ((sx_p x)\<lparr>ps_priority := q\<rparr>))
      else (ps_priorityCodel ((sx_p x)\<lparr>ps_priority := q\<rparr>), False)) = (cd, drop)" by force
  obtain out' x' where y: "y = (out', x')" by force
  have "movesItem F it (\<not> drop) (out, x) y \<and> ps_priority (sx_p x') = q
    \<and> ps_control (sx_p x') = ps_control (sx_p x) \<and> ps_bulk (sx_p x') = ps_bulk (sx_p x)"
    using assms
    by (cases drop) (auto simp: y dequeuePriority_def pop cd Let_def movesItem_def takeItem_def)
  then show thesis using that [OF pop] y by auto
qed

lemma dequeueBulk_moves:
  assumes "dequeueBulk F now out x = Some y"
  obtains it q sent where "sq_pop (ps_bulk (sx_p x)) = Some (it, q)" "movesItem F it sent (out, x) y"
    "ps_bulk (sx_p (snd y)) = q" "ps_control (sx_p (snd y)) = ps_control (sx_p x)"
    "ps_priority (sx_p (snd y)) = ps_priority (sx_p x)"
proof -
  obtain it q where pop: "sq_pop (ps_bulk (sx_p x)) = Some (it, q)"
    using assms by (auto simp: dequeueBulk_def option_bind_eq_Some)
  obtain cd drop where cd: "shouldDrop F now (if sq_bytes q < 1500 then 0 else time_sub now (it_enq it))
      (ps_codel (sx_p x)) = (cd, drop)" by force
  obtain out' x' where y: "y = (out', x')" by force
  have "movesItem F it (\<not> drop) (out, x) y \<and> ps_bulk (sx_p x') = q
    \<and> ps_control (sx_p x') = ps_control (sx_p x) \<and> ps_priority (sx_p x') = ps_priority (sx_p x)"
    using assms
    by (cases drop) (auto simp: y dequeueBulk_def pop cd Let_def movesItem_def takeItem_def)
  then show thesis using that [OF pop] y by auto
qed

lemma dequeueStep_cases:
  assumes "dequeueStep F now out x = Some (Some y)"
  obtains "dequeueControl F out x = Some y"
  | "0 < ps_tokens (sx_p x)" "sq_len (ps_control (sx_p x)) = 0" "dequeuePriority F now out x = Some y"
  | "0 < ps_tokens (sx_p x)" "sq_len (ps_control (sx_p x)) = 0" "dequeueBulk F now out x = Some y"
  using assms by (auto simp: dequeueStep_def Let_def split: if_split_asm)

lemma dequeueStep_decreases:
  assumes "dequeueStep F now out x = Some (Some (out', x'))"
  shows "queuedItems (sx_p x') < queuedItems (sx_p x)"
  using assms
proof (cases rule: dequeueStep_cases)
  case 1
  then show ?thesis by (rule dequeueControl_moves) (auto simp: queuedItems_def dest!: sq_pop_len)
next
  case 2
  show ?thesis by (rule dequeuePriority_moves [OF 2(3)]) (auto simp: queuedItems_def dest!: sq_pop_len)
next
  case 3
  show ?thesis by (rule dequeueBulk_moves [OF 3(3)]) (auto simp: queuedItems_def dest!: sq_pop_len)
qed

function dequeueLoop :: "floats \<Rightarrow> gotime \<Rightarrow> int \<Rightarrow> shaper_item list \<Rightarrow> shaper_state
    \<Rightarrow> (shaper_item list \<times> shaper_state) option" where
  "dequeueLoop F now limit out x =
     (if int (length out) < limit
      then case dequeueStep F now out x of
          None \<Rightarrow> None
        | Some None \<Rightarrow> Some (out, x)
        | Some (Some (out', x')) \<Rightarrow> dequeueLoop F now limit out' x'
      else Some (out, x))"
  by auto
termination
  by (relation "measure (\<lambda>(F, now, limit, out, x). queuedItems (sx_p x))")
    (auto intro: dequeueStep_decreases)

declare dequeueLoop.simps [simp del]

definition dequeue :: "floats \<Rightarrow> gotime \<Rightarrow> int \<Rightarrow> shaper_state \<Rightarrow> (shaper_item list \<times> shaper_state) option" where
  "dequeue F now limit x = dequeueLoop F now limit [] (x\<lparr>sx_p := refill F now (sx_p x)\<rparr>)"

definition wait :: "floats \<Rightarrow> gotime \<Rightarrow> path_shaper \<Rightarrow> path_shaper \<times> duration" where
  "wait F now p0 =
     (if 0 < sq_len (ps_control p0) then (p0, 0)
      else if sq_len (ps_priority p0) + sq_len (ps_bulk p0) = 0 then (p0, - 1)
      else
        let p = refill F now p0; r = fl_round F in
        if 0 < ps_tokens p then (p, 0)
        else
          let need = fl_add r (- ps_tokens p) (fl_div r (pr_burst (ps_r p)) 2)
          in (p, fl_trunc (fl_mul r (fl_div r need (pr_rate (ps_r p))) 1000000000)))"

definition idle :: "gotime \<Rightarrow> duration \<Rightarrow> path_shaper \<Rightarrow> bool" where
  "idle now d p \<longleftrightarrow> queuedItems p = 0 \<and> d \<le> time_sub now (ps_lastActive p)"

text \<open>\<open>reset\<close> empties the three queues in order.\<close>

function drainQueue :: "shaper_queue \<Rightarrow> shaper_stats \<Rightarrow> packet list
    \<Rightarrow> (shaper_queue \<times> shaper_stats \<times> packet list) option" where
  "drainQueue q st rel =
     (if 0 < sq_len q
      then case sq_pop q of None \<Rightarrow> None
        | Some (it, q') \<Rightarrow> drainQueue q' (addQueued (- it_wire it) st) (rel @ [it_pkt it])
      else Some (q, st, rel))"
  by auto
termination
  by (relation "measure (\<lambda>(q, st, rel). sq_len q)") (auto intro: sq_pop_len)

declare drainQueue.simps [simp del]

definition resetShaper :: "shaper_state \<Rightarrow> shaper_state option" where
  "resetShaper x = do {
     (c, st1, r1) \<leftarrow> drainQueue (ps_control (sx_p x)) (sx_stats x) (sx_released x);
     (p, st2, r2) \<leftarrow> drainQueue (ps_priority (sx_p x)) st1 r1;
     (b, st3, r3) \<leftarrow> drainQueue (ps_bulk (sx_p x)) st2 r2;
     Some (x\<lparr>sx_p := (sx_p x)\<lparr>ps_control := c, ps_priority := p, ps_bulk := b\<rparr>,
             sx_stats := st3, sx_released := r3\<rparr>)
   }"

section \<open>Every packet is accounted for\<close>

definition queuedList :: "path_shaper \<Rightarrow> shaper_item list" where
  "queuedList p = sq_abs (ps_control p) @ sq_abs (ps_priority p) @ sq_abs (ps_bulk p)"

definition wires :: "shaper_item list \<Rightarrow> int" where
  "wires its = sum_list (map it_wire its)"

text \<open>The limits of the queues, for wire sizes that are not negative.\<close>

definition queue_bounds :: "path_shaper \<Rightarrow> bool" where
  "queue_bounds p \<longleftrightarrow> (\<forall>it \<in> set (queuedList p). 0 \<le> it_wire it) \<and> sq_len (ps_control p) \<le> 1024
     \<and> sq_bytes (ps_priority p) + sq_bytes (ps_bulk p) \<le> ss_queueLimit (ps_s p)
     \<and> 0 \<le> ss_overhead (ps_s p)"

text \<open>
  The invariant over what has been accepted (\<open>ins\<close>), sent (\<open>outs\<close>) and released so far, with
  the value \<open>st0\<close> of the shared counter at the start.
\<close>

definition shaper_inv :: "packet list \<Rightarrow> shaper_item list \<Rightarrow> 64 word \<Rightarrow> shaper_state \<Rightarrow> bool" where
  "shaper_inv ins outs st0 x \<longleftrightarrow>
     sq_inv (ps_control (sx_p x)) \<and> sq_inv (ps_priority (sx_p x)) \<and> sq_inv (ps_bulk (sx_p x))
     \<and> mset ins = mset (map it_pkt outs) + mset (map it_pkt (queuedList (sx_p x))) + mset (sx_released x)
     \<and> st_queuedBytes (sx_stats x) = st0 + word_of_int (wires (queuedList (sx_p x)))
     \<and> ps_sent (sx_p x) = word_of_int (wires outs) \<and> queue_bounds (sx_p x)"

lemma wires_simps [simp]: "wires [] = 0" "wires (a # xs) = it_wire a + wires xs" "wires (xs @ ys) = wires xs + wires ys"
  by (simp_all add: wires_def)

lemma shaper_inv_step:
  assumes inv: "shaper_inv ins outs st0 x" and mv: "movesItem F it sent (out, x) (out', x')"
    and qs: "mset (queuedList (sx_p x)) = add_mset it (mset (queuedList (sx_p x')))"
      "wires (queuedList (sx_p x)) = it_wire it + wires (queuedList (sx_p x'))"
    and wf: "sq_inv (ps_control (sx_p x'))" "sq_inv (ps_priority (sx_p x'))" "sq_inv (ps_bulk (sx_p x'))"
    and qb: "queue_bounds (sx_p x')" and outs: "outs = pre @ out"
  shows "shaper_inv ins (pre @ out') st0 x'"
  using assms by (auto simp: shaper_inv_def movesItem_def split: if_split_asm)

lemma queued_moves:
  assumes inv: "sq_inv (ps_control p)" "sq_inv (ps_priority p)" "sq_inv (ps_bulk p)"
    and qb: "queue_bounds p" "ps_s p' = ps_s p" and one: "sq_pop (ps_control p) = Some (it, q) \<and> ps_control p' = q \<and> ps_priority p' = ps_priority p \<and> ps_bulk p' = ps_bulk p
      \<or> sq_pop (ps_priority p) = Some (it, q) \<and> ps_priority p' = q \<and> ps_control p' = ps_control p \<and> ps_bulk p' = ps_bulk p
      \<or> sq_pop (ps_bulk p) = Some (it, q) \<and> ps_bulk p' = q \<and> ps_control p' = ps_control p \<and> ps_priority p' = ps_priority p"
  shows "mset (queuedList p) = add_mset it (mset (queuedList p'))
    \<and> wires (queuedList p) = it_wire it + wires (queuedList p')
    \<and> sq_inv (ps_control p') \<and> sq_inv (ps_priority p') \<and> sq_inv (ps_bulk p') \<and> queue_bounds p'"
proof -
  consider (c) "sq_pop (ps_control p) = Some (it, q)" "ps_control p' = q" "ps_priority p' = ps_priority p" "ps_bulk p' = ps_bulk p"
    | (p) "sq_pop (ps_priority p) = Some (it, q)" "ps_priority p' = q" "ps_control p' = ps_control p" "ps_bulk p' = ps_bulk p"
    | (b) "sq_pop (ps_bulk p) = Some (it, q)" "ps_bulk p' = q" "ps_control p' = ps_control p" "ps_priority p' = ps_priority p"
    using one by blast
  then show ?thesis
  proof cases
    case c
    then show ?thesis using inv qb sq_pop_head [OF inv(1) c(1)] sq_pop_len [OF c(1)]
      by (auto simp: queuedList_def queue_bounds_def)
  next
    case p
    then show ?thesis using inv qb sq_pop_head [OF inv(2) p(1)]
      by (auto simp: queuedList_def queue_bounds_def sq_inv_def)
  next
    case b
    then show ?thesis using inv qb sq_pop_head [OF inv(3) b(1)]
      by (auto simp: queuedList_def queue_bounds_def sq_inv_def)
  qed
qed

lemma dequeueStep_moves:
  assumes inv: "shaper_inv ins outs st0 x" and st: "dequeueStep F now out x = Some (Some (out', x'))"
  shows "\<exists>it sent q. movesItem F it sent (out, x) (out', x') \<and> (0 < ps_tokens (sx_p x) \<or> sq_pop (ps_control (sx_p x)) = Some (it, q) \<and> sent)
    \<and> mset (queuedList (sx_p x)) = add_mset it (mset (queuedList (sx_p x')))
    \<and> wires (queuedList (sx_p x)) = it_wire it + wires (queuedList (sx_p x'))
    \<and> sq_inv (ps_control (sx_p x')) \<and> sq_inv (ps_priority (sx_p x')) \<and> sq_inv (ps_bulk (sx_p x'))
    \<and> queue_bounds (sx_p x')"
proof -
  have wf: "sq_inv (ps_control (sx_p x))" "sq_inv (ps_priority (sx_p x))" "sq_inv (ps_bulk (sx_p x))"
      "queue_bounds (sx_p x)"
    using inv by (simp_all add: shaper_inv_def)
  have same: "ps_s (sx_p x') = ps_s (sx_p x)" if "movesItem F it sent (out, x) (out', x')" for it sent
    using that by (simp add: movesItem_def)
  note qm = queued_moves [OF wf]
  from st show ?thesis
  proof (cases rule: dequeueStep_cases)
    case 1
    then obtain it q where "sq_pop (ps_control (sx_p x)) = Some (it, q)" "movesItem F it True (out, x) (out', x')"
      "ps_control (sx_p x') = q" "ps_priority (sx_p x') = ps_priority (sx_p x)" "ps_bulk (sx_p x') = ps_bulk (sx_p x)"
      using dequeueControl_moves by (metis snd_conv)
    then show ?thesis using qm [of "sx_p x'" it q] same by blast
  next
    case 2
    then obtain it q sent where "sq_pop (ps_priority (sx_p x)) = Some (it, q)" "movesItem F it sent (out, x) (out', x')"
      "ps_priority (sx_p x') = q" "ps_control (sx_p x') = ps_control (sx_p x)" "ps_bulk (sx_p x') = ps_bulk (sx_p x)"
      using dequeuePriority_moves by (metis snd_conv)
    then show ?thesis using qm [of "sx_p x'" it q] same 2(1) by blast
  next
    case 3
    then obtain it q sent where "sq_pop (ps_bulk (sx_p x)) = Some (it, q)" "movesItem F it sent (out, x) (out', x')"
      "ps_bulk (sx_p x') = q" "ps_control (sx_p x') = ps_control (sx_p x)" "ps_priority (sx_p x') = ps_priority (sx_p x)"
      using dequeueBulk_moves by (metis snd_conv)
    then show ?thesis using qm [of "sx_p x'" it q] same 3(1) by blast
  qed
qed

lemma dequeueStep_total:
  assumes "shaper_inv ins outs st0 x"
  shows "dequeueStep F now out x \<noteq> None"
proof -
  have pop: "sq_pop q \<noteq> None" if "sq_inv q" "0 < sq_len q" for q
    using that by (auto simp: sq_pop_def sq_len_def Let_def)
  have step: "sq_pop (ps_control (sx_p x)) \<noteq> None \<Longrightarrow> dequeueControl F out x \<noteq> None"
      "sq_pop (ps_priority (sx_p x)) \<noteq> None \<Longrightarrow> dequeuePriority F now out x \<noteq> None"
      "sq_pop (ps_bulk (sx_p x)) \<noteq> None \<Longrightarrow> dequeueBulk F now out x \<noteq> None"
    by (auto simp: dequeueControl_def dequeuePriority_def dequeueBulk_def Let_def split: prod.split)
  have wf: "sq_inv (ps_control (sx_p x))" "sq_inv (ps_priority (sx_p x))" "sq_inv (ps_bulk (sx_p x))"
    using assms by (simp_all add: shaper_inv_def)
  show ?thesis
    using step pop [OF wf(1)] pop [OF wf(2)] pop [OF wf(3)]
    by (auto simp: dequeueStep_def Let_def simp del: not_None_eq)
qed

text \<open>The loop keeps any property that its rounds keep, and it does not panic.\<close>

lemma dequeueLoop_inv:
  assumes "shaper_inv ins (pre @ out) st0 x"
  shows "\<exists>out' x'. dequeueLoop F now limit out x = Some (out', x') \<and> shaper_inv ins (pre @ out') st0 x'
    \<and> ps_s (sx_p x') = ps_s (sx_p x)"
  using assms
proof (induction F now limit out x rule: dequeueLoop.induct)
  case (1 F now limit out x)
  show ?case
  proof (cases "int (length out) < limit")
    case False
    then show ?thesis using "1.prems" by (simp add: dequeueLoop.simps)
  next
    case True
    from dequeueStep_total [OF "1.prems", of F now out] obtain y where y: "dequeueStep F now out x = Some y" by blast
    show ?thesis
    proof (cases y)
      case None
      then show ?thesis using "1.prems" True y by (simp add: dequeueLoop.simps)
    next
      case (Some z)
      obtain out1 x1 where z: "z = (out1, x1)" by force
      note st = y [unfolded Some z]
      obtain it sent where mv: "movesItem F it sent (out, x) (out1, x1)"
          "mset (queuedList (sx_p x)) = add_mset it (mset (queuedList (sx_p x1)))"
          "wires (queuedList (sx_p x)) = it_wire it + wires (queuedList (sx_p x1))"
          "sq_inv (ps_control (sx_p x1))" "sq_inv (ps_priority (sx_p x1))" "sq_inv (ps_bulk (sx_p x1))" "queue_bounds (sx_p x1)"
        using dequeueStep_moves [OF "1.prems" st] by blast
      have "shaper_inv ins (pre @ out1) st0 x1"
        by (rule shaper_inv_step [OF "1.prems" mv refl])
      moreover have "ps_s (sx_p x1) = ps_s (sx_p x)" using mv(1) by (simp add: movesItem_def)
      ultimately show ?thesis
        using "1.IH" [OF True st refl refl] True st by (simp add: dequeueLoop.simps)
    qed
  qed
qed


lemma refill_simps [simp]:
  "ps_control (refill F now p) = ps_control p" "ps_priority (refill F now p) = ps_priority p"
  "ps_bulk (refill F now p) = ps_bulk p" "ps_s (refill F now p) = ps_s p" "ps_r (refill F now p) = ps_r p"
  "ps_sent (refill F now p) = ps_sent p" "queuedList (refill F now p) = queuedList p"
  "queue_bounds (refill F now p) = queue_bounds p"
  by (simp_all add: refill_def Let_def queuedList_def queue_bounds_def)

lemma setRate_simps [simp]:
  "ps_control (setRate F now v p) = ps_control p" "ps_priority (setRate F now v p) = ps_priority p"
  "ps_bulk (setRate F now v p) = ps_bulk p" "ps_s (setRate F now v p) = ps_s p"
  "ps_sent (setRate F now v p) = ps_sent p" "queuedList (setRate F now v p) = queuedList p"
  "queue_bounds (setRate F now v p) = queue_bounds p"
  by (simp_all add: setRate_def Let_def queuedList_def queue_bounds_def)

lemma shaper_inv_same_queues:
  assumes "shaper_inv ins outs st0 x" "ps_control p = ps_control (sx_p x)" "ps_priority p = ps_priority (sx_p x)"
    "ps_bulk p = ps_bulk (sx_p x)" "ps_s p = ps_s (sx_p x)" "ps_sent p = ps_sent (sx_p x)"
  shows "shaper_inv ins outs st0 (x\<lparr>sx_p := p\<rparr>)"
  using assms by (simp add: shaper_inv_def queuedList_def queue_bounds_def)

lemma dequeue_inv:
  assumes "shaper_inv ins outs st0 x"
  shows "\<exists>out x'. dequeue F now limit x = Some (out, x') \<and> shaper_inv ins (outs @ out) st0 x'
    \<and> ps_s (sx_p x') = ps_s (sx_p x)"
  using dequeueLoop_inv [of ins outs "[]" st0 "x\<lparr>sx_p := refill F now (sx_p x)\<rparr>"]
    shaper_inv_same_queues [OF assms, of "refill F now (sx_p x)"]
  by (simp add: dequeue_def)

lemma makeRoom_inv:
  assumes "shaper_inv ins outs st0 x"
  shows "\<exists>x'. makeRoom w x = Some x' \<and> shaper_inv ins outs st0 x' \<and> ps_s (sx_p x') = ps_s (sx_p x)"
  using assms
proof (induction w x rule: makeRoom.induct)
  case (1 w x)
  let ?p = "sx_p x"
  let ?go = "ss_queueLimit (ps_s ?p) < sq_bytes (ps_priority ?p) + sq_bytes (ps_bulk ?p) + w \<and> 0 < sq_len (ps_bulk ?p)"
  show ?case
  proof (cases ?go)
    case False
    then show ?thesis using "1.prems" by (subst makeRoom.simps) (auto simp: Let_def)
  next
    case True
    have wf: "sq_inv (ps_control ?p)" "sq_inv (ps_priority ?p)" "sq_inv (ps_bulk ?p)" "queue_bounds ?p"
      using "1.prems" by (simp_all add: shaper_inv_def)
    obtain old q where pop: "sq_pop (ps_bulk ?p) = Some (old, q)"
      using True by (auto simp: sq_pop_def sq_len_def Let_def)
    let ?x = "dropOverflow old (x\<lparr>sx_p := ?p\<lparr>ps_bulk := q\<rparr>, sx_stats := addQueued (- it_wire old) (sx_stats x)\<rparr>)"
    have "mset (queuedList ?p) = add_mset old (mset (queuedList (?p\<lparr>ps_bulk := q\<rparr>)))
        \<and> wires (queuedList ?p) = it_wire old + wires (queuedList (?p\<lparr>ps_bulk := q\<rparr>))
        \<and> sq_inv (ps_bulk (?p\<lparr>ps_bulk := q\<rparr>)) \<and> queue_bounds (?p\<lparr>ps_bulk := q\<rparr>)"
      using queued_moves [OF wf, of "?p\<lparr>ps_bulk := q\<rparr>" old q] pop by simp
    then have "shaper_inv ins outs st0 ?x"
      using "1.prems" by (simp add: shaper_inv_def)
    then show ?thesis
      using "1.IH" [OF refl True pop refl] True pop by (subst makeRoom.simps) (auto simp: Let_def)
  qed
qed

lemma push_inv:
  assumes inv: "shaper_inv ins outs st0 x" and it: "0 \<le> it_wire it" "it_pkt it = pkt"
    and p: "ps_s p = ps_s (sx_p x)" "ps_sent p = ps_sent (sx_p x)"
    and q: "sq_len (ps_control (sx_p x)) < 1024 \<and> ps_control p = sq_push it (ps_control (sx_p x))
          \<and> ps_priority p = ps_priority (sx_p x) \<and> ps_bulk p = ps_bulk (sx_p x)
      \<or> (sq_bytes (ps_priority (sx_p x)) + sq_bytes (ps_bulk (sx_p x)) + it_wire it \<le> ss_queueLimit (ps_s (sx_p x))
         \<and> ps_control p = ps_control (sx_p x) \<and>
         (ps_priority p = sq_push it (ps_priority (sx_p x)) \<and> ps_bulk p = ps_bulk (sx_p x)
          \<or> ps_bulk p = sq_push it (ps_bulk (sx_p x)) \<and> ps_priority p = ps_priority (sx_p x)))"
  shows "shaper_inv (ins @ [pkt]) outs st0 (x\<lparr>sx_p := p, sx_stats := addQueued (it_wire it) (sx_stats x)\<rparr>)"
proof -
  have wf: "sq_inv (ps_control (sx_p x))" "sq_inv (ps_priority (sx_p x))" "sq_inv (ps_bulk (sx_p x))"
    using inv by (simp_all add: shaper_inv_def)
  note push = sq_push_abs [OF wf(1), of it] sq_push_abs [OF wf(2), of it] sq_push_abs [OF wf(3), of it]
  have bytes: "sq_bytes (sq_push it q) = sq_bytes q + it_wire it" for q by (simp add: sq_push_def Let_def)
  show ?thesis
    using inv it p q push
    by (auto simp: shaper_inv_def queuedList_def queue_bounds_def sq_len_abs bytes)
qed

lemma enqueue_inv:
  assumes inv: "shaper_inv ins outs st0 x" and len: "0 \<le> pk_length pkt"
  shows "\<exists>x'. enqueue pkt addr control now x = Some x' \<and> shaper_inv (ins @ [pkt]) outs st0 x'
    \<and> ps_s (sx_p x') = ps_s (sx_p x)"
proof -
  define it where "it = \<lparr>it_pkt = pkt, it_addr = addr, it_enq = now,
    it_wire = pk_length pkt + udpWireOverhead addr + ss_overhead (ps_s (sx_p x))\<rparr>"
  have "0 \<le> ss_overhead (ps_s (sx_p x))" using inv by (simp add: shaper_inv_def queue_bounds_def)
  moreover have "0 \<le> udpWireOverhead addr" by (auto simp: udpWireOverhead_def split: option.splits addr.splits)
  ultimately have w: "0 \<le> it_wire it" "it_pkt it = pkt" using len by (simp_all add: it_def)
  have drop: "shaper_inv (ins @ [pkt]) outs st0 (dropOverflow it y)" if "shaper_inv ins outs st0 y" for y
    using that w by (simp add: shaper_inv_def)
  obtain y where y: "makeRoom (it_wire it) x = Some y" "shaper_inv ins outs st0 y" "ps_s (sx_p y) = ps_s (sx_p x)"
    using makeRoom_inv [OF inv] by blast
  show ?thesis
  proof (cases control)
    case True
    show ?thesis
    proof (cases "1024 \<le> sq_len (ps_control (sx_p x))")
      case full: True
      then show ?thesis
        using True drop [OF inv] unfolding enqueue_def Let_def it_def [symmetric] by simp
    next
      case False
      then have "shaper_inv (ins @ [pkt]) outs st0 (x\<lparr>sx_p := (sx_p x)\<lparr>ps_control := sq_push it (ps_control (sx_p x))\<rparr>,
          sx_stats := addQueued (it_wire it) (sx_stats x)\<rparr>)"
        by (intro push_inv [OF inv w]) simp_all
      then show ?thesis using True False unfolding enqueue_def Let_def it_def [symmetric] by simp
    qed
  next
    case bulk: False
    show ?thesis
    proof (cases "ss_queueLimit (ps_s (sx_p y)) < sq_bytes (ps_priority (sx_p y)) + sq_bytes (ps_bulk (sx_p y)) + it_wire it")
      case True
      then show ?thesis
        using bulk y drop [OF y(2)] unfolding enqueue_def Let_def it_def [symmetric] by simp
    next
      case False
      let ?p1 = "(sx_p y)\<lparr>ps_lastActive := now\<rparr>"
      let ?p = "if 0 < ss_prioritySize (ps_s (sx_p y)) \<and> pk_length pkt \<le> ss_prioritySize (ps_s (sx_p y))
        then ?p1\<lparr>ps_priority := sq_push it (ps_priority (sx_p y))\<rparr>
        else ?p1\<lparr>ps_bulk := sq_push it (ps_bulk (sx_p y))\<rparr>"
      have "shaper_inv (ins @ [pkt]) outs st0 (y\<lparr>sx_p := ?p, sx_stats := addQueued (it_wire it) (sx_stats y)\<rparr>)"
        using False by (intro push_inv [OF y(2) w]) simp_all
      then show ?thesis using bulk False y unfolding enqueue_def Let_def it_def [symmetric] by simp
    qed
  qed
qed

lemma drainQueue_all:
  assumes "sq_inv q"
  shows "\<exists>q' st'. drainQueue q st rel = Some (q', st', rel @ map it_pkt (sq_abs q)) \<and> sq_inv q' \<and> sq_abs q' = []
    \<and> st_queuedBytes st' = st_queuedBytes st - word_of_int (wires (sq_abs q))"
  using assms
proof (induction q st rel rule: drainQueue.induct)
  case (1 q st rel)
  show ?case
  proof (cases "0 < sq_len q")
    case False
    then show ?thesis using "1.prems" by (simp add: drainQueue.simps sq_len_abs)
  next
    case True
    then obtain it q1 where pop: "sq_pop q = Some (it, q1)"
      by (auto simp: sq_pop_def sq_len_def Let_def)
    note h = sq_pop_head [OF "1.prems" pop]
    show ?thesis
      using "1.IH" [OF True pop refl] h True pop
      by (simp add: drainQueue.simps [of q] diff_diff_eq [symmetric])
  qed
qed

lemma resetShaper_inv:
  assumes inv: "shaper_inv ins outs st0 x"
  shows "\<exists>x'. resetShaper x = Some x' \<and> shaper_inv ins outs st0 x' \<and> queuedList (sx_p x') = []
    \<and> ps_s (sx_p x') = ps_s (sx_p x)"
proof -
  let ?p = "sx_p x"
  have wf: "sq_inv (ps_control ?p)" "sq_inv (ps_priority ?p)" "sq_inv (ps_bulk ?p)"
    using inv by (simp_all add: shaper_inv_def)
  obtain c st1 where c: "drainQueue (ps_control ?p) (sx_stats x) (sx_released x)
        = Some (c, st1, sx_released x @ map it_pkt (sq_abs (ps_control ?p)))" "sq_inv c" "sq_abs c = []"
      "st_queuedBytes st1 = st_queuedBytes (sx_stats x) - word_of_int (wires (sq_abs (ps_control ?p)))"
    using drainQueue_all [OF wf(1)] by blast
  obtain p st2 where p: "drainQueue (ps_priority ?p) st1 (sx_released x @ map it_pkt (sq_abs (ps_control ?p)))
        = Some (p, st2, (sx_released x @ map it_pkt (sq_abs (ps_control ?p))) @ map it_pkt (sq_abs (ps_priority ?p)))"
      "sq_inv p" "sq_abs p = []"
      "st_queuedBytes st2 = st_queuedBytes st1 - word_of_int (wires (sq_abs (ps_priority ?p)))"
    using drainQueue_all [OF wf(2)] by blast
  obtain b st3 where b: "drainQueue (ps_bulk ?p) st2
          ((sx_released x @ map it_pkt (sq_abs (ps_control ?p))) @ map it_pkt (sq_abs (ps_priority ?p)))
        = Some (b, st3, ((sx_released x @ map it_pkt (sq_abs (ps_control ?p))) @ map it_pkt (sq_abs (ps_priority ?p)))
            @ map it_pkt (sq_abs (ps_bulk ?p)))" "sq_inv b" "sq_abs b = []"
      "st_queuedBytes st3 = st_queuedBytes st2 - word_of_int (wires (sq_abs (ps_bulk ?p)))"
    using drainQueue_all [OF wf(3)] by blast
  have zero: "sq_bytes q = 0" if "sq_inv q" "sq_abs q = []" for q using that by (simp add: sq_inv_def)
  have nonneg: "0 \<le> sq_bytes q" if "sq_inv q" "\<forall>it \<in> set (sq_abs q). 0 \<le> it_wire it" for q
    using that by (auto simp: sq_inv_def intro!: sum_list_nonneg)
  have "0 \<le> sq_bytes (ps_priority ?p)" "0 \<le> sq_bytes (ps_bulk ?p)"
    using inv wf by (auto simp: shaper_inv_def queue_bounds_def queuedList_def intro!: nonneg)
  then have lim: "0 \<le> ss_queueLimit (ps_s ?p)" using inv by (simp add: shaper_inv_def queue_bounds_def)
  show ?thesis
    using inv lim c(2-) p(2-) b(2-) zero
    by (simp add: resetShaper_def c(1) p(1) [simplified] b(1) [simplified])
      (simp add: shaper_inv_def queuedList_def queue_bounds_def sq_len_abs algebra_simps)
qed

section \<open>Runs\<close>

datatype shaper_op =
    ShEnqueue packet "addr option" bool gotime
  | ShDequeue gotime int
  | ShSetRate gotime rat
  | ShWait gotime
  | ShReset

fun shaperStep :: "floats \<Rightarrow> shaper_state \<Rightarrow> shaper_op \<Rightarrow> (shaper_state \<times> shaper_item list) option" where
  "shaperStep F x (ShEnqueue pkt addr control now) =
     do { x' \<leftarrow> enqueue pkt addr control now x; Some (x', []) }"
| "shaperStep F x (ShDequeue now limit) = do { (out, x') \<leftarrow> dequeue F now limit x; Some (x', out) }"
| "shaperStep F x (ShSetRate now rate) = Some (x\<lparr>sx_p := setRate F now rate (sx_p x)\<rparr>, [])"
| "shaperStep F x (ShWait now) = Some (x\<lparr>sx_p := fst (wait F now (sx_p x))\<rparr>, [])"
| "shaperStep F x ShReset = do { x' \<leftarrow> resetShaper x; Some (x', []) }"

fun shaperRun :: "floats \<Rightarrow> shaper_state \<Rightarrow> shaper_op list \<Rightarrow> (shaper_state \<times> shaper_item list) option" where
  "shaperRun F x [] = Some (x, [])"
| "shaperRun F x (op # ops) = do {
     (x1, out) \<leftarrow> shaperStep F x op;
     (x2, outs) \<leftarrow> shaperRun F x1 ops;
     Some (x2, out @ outs)
   }"

fun enqueued :: "shaper_op list \<Rightarrow> packet list" where
  "enqueued [] = []"
| "enqueued (ShEnqueue pkt addr control now # ops) = pkt # enqueued ops"
| "enqueued (_ # ops) = enqueued ops"

lemma wait_simps [simp]:
  "ps_control (fst (wait F now p)) = ps_control p" "ps_priority (fst (wait F now p)) = ps_priority p"
  "ps_bulk (fst (wait F now p)) = ps_bulk p" "ps_s (fst (wait F now p)) = ps_s p"
  "ps_sent (fst (wait F now p)) = ps_sent p" "ps_r (fst (wait F now p)) = ps_r p"
  by (simp_all add: wait_def Let_def)

lemma shaperStep_inv:
  assumes inv: "shaper_inv ins outs st0 x" and len: "\<forall>pkt \<in> set (enqueued [op]). 0 \<le> pk_length pkt"
  shows "\<exists>x' out. shaperStep F x op = Some (x', out) \<and> shaper_inv (ins @ enqueued [op]) (outs @ out) st0 x'
    \<and> ps_s (sx_p x') = ps_s (sx_p x)"
proof (cases op)
  case (ShEnqueue pkt addr control now)
  then show ?thesis using enqueue_inv [OF inv, of pkt addr control now] len by auto
next
  case (ShDequeue now limit)
  then show ?thesis using dequeue_inv [OF inv, of F now limit] by auto
next
  case (ShSetRate now rate)
  then show ?thesis using shaper_inv_same_queues [OF inv, of "setRate F now rate (sx_p x)"] by simp
next
  case (ShWait now)
  then show ?thesis using shaper_inv_same_queues [OF inv, of "fst (wait F now (sx_p x))"] by simp
next
  case ShReset
  then show ?thesis using resetShaper_inv [OF inv] by auto
qed

lemma enqueued_Cons: "enqueued (op # ops) = enqueued [op] @ enqueued ops"
  by (cases op) auto

lemma shaperRun_inv:
  assumes "shaper_inv ins outs st0 x" "\<forall>pkt \<in> set (enqueued ops). 0 \<le> pk_length pkt"
  shows "\<exists>x' out. shaperRun F x ops = Some (x', out) \<and> shaper_inv (ins @ enqueued ops) (outs @ out) st0 x'
    \<and> ps_s (sx_p x') = ps_s (sx_p x)"
  using assms
proof (induction ops arbitrary: x ins outs)
  case Nil
  then show ?case by simp
next
  case (Cons op ops)
  have len: "\<forall>pkt \<in> set (enqueued [op]). 0 \<le> pk_length pkt" "\<forall>pkt \<in> set (enqueued ops). 0 \<le> pk_length pkt"
    using Cons.prems(2) enqueued_Cons [of op ops] by auto
  obtain x1 out where x1: "shaperStep F x op = Some (x1, out)"
      "shaper_inv (ins @ enqueued [op]) (outs @ out) st0 x1" "ps_s (sx_p x1) = ps_s (sx_p x)"
    using shaperStep_inv [OF Cons.prems(1) len(1)] by blast
  show ?case
    using Cons.IH [OF x1(2) len(2)] x1 enqueued_Cons [of op ops] by auto
qed

text \<open>The state a path starts in.\<close>

definition startShaper :: "floats \<Rightarrow> shaper_settings \<Rightarrow> gotime \<Rightarrow> shaper_stats \<Rightarrow> shaper_state" where
  "startShaper F s now st = \<lparr>sx_p = newPathShaper F s now, sx_stats = st, sx_released = []\<rparr>"

lemma settings_fields:
  assumes "newShaperSettings F (Some cfg) = Inr (Some s)"
  shows "0 < sc_rate cfg \<and> ss_rate s = mbit F (sc_rate cfg) \<and> ss_overhead s = max (sc_overhead cfg) 0
    \<and> ss_burst s = max (fl_mul (fl_round F) (mbit F (sc_rate cfg)) (fl_round F (2 / 1000))) 3000
    \<and> ss_queueLimit s = (if sc_queueLimit cfg \<le> 0
        then min (max (fl_trunc (fl_mul (fl_round F) (mbit F (sc_rate cfg)) (fl_round F (1 / 10)))) 262144) 4194304
        else sc_queueLimit cfg)"
proof (cases "sc_enabled cfg \<and> 0 < sc_rate cfg")
  case True
  then have "newShaperSettings F (Some cfg) = Inr (Some s)" "sc_enabled cfg" "\<not> sc_rate cfg \<le> 0"
    using assms by simp_all
  then show ?thesis
    unfolding newShaperSettings_def Let_def option.case(2) if_False if_True by (clarsimp simp only: if_False simp_thms
      sum.inject option.inject shaper_settings.select_convs not_le)
next
  case False
  then show ?thesis using assms by (auto simp: newShaperSettings_def Let_def split: if_split_asm)
qed

lemma settings_limits:
  assumes "newShaperSettings F (Some cfg) = Inr (Some s)"
  shows "0 \<le> ss_overhead s" "0 \<le> ss_queueLimit s" "3000 \<le> ss_burst s"
  using settings_fields [OF assms] by (simp_all add: min_def max_def)

lemma start_inv:
  assumes "newShaperSettings F (Some cfg) = Inr (Some s)"
  shows "shaper_inv [] [] (st_queuedBytes st) (startShaper F s now st)"
  using settings_limits [OF assms]
  by (simp add: shaper_inv_def startShaper_def newPathShaper_def queuedList_def
      sq_inv_def sq_empty_def sq_abs_def queue_bounds_def sq_len_def)

section \<open>The rate limit, for exact arithmetic\<close>

lemma fl_seconds_exact: "fl_seconds id d = of_int d / 1000000000"
  by (simp add: fl_seconds_def fl_defs go_rem_def ns_second_def add_divide_distrib [symmetric])
    (simp add: field_simps)

text \<open>
  \<open>ttl\<close> bytes have been sent, and control messages of \<open>K\<close> bytes were given to the shaper. Data
  is only sent with tokens left, so it takes the bucket at most one packet below zero; control messages are sent
  in any case, but they are paid for.
\<close>

definition rate_inv :: "rat \<Rightarrow> rat \<Rightarrow> int \<Rightarrow> int \<Rightarrow> gotime \<Rightarrow> int \<Rightarrow> shaper_state \<Rightarrow> bool" where
  "rate_inv rate burst M K t0 ttl x \<longleftrightarrow>
     pr_rate (ps_r (sx_p x)) = rate \<and> pr_burst (ps_r (sx_p x)) = burst
     \<and> (\<forall>it \<in> set (queuedList (sx_p x)). 0 \<le> it_wire it)
     \<and> (\<forall>it \<in> set (sq_abs (ps_priority (sx_p x)) @ sq_abs (ps_bulk (sx_p x))). it_wire it \<le> M)
     \<and> wires (sq_abs (ps_control (sx_p x))) \<le> K \<and> t0 \<le> ps_last (sx_p x)
     \<and> of_int ttl + ps_tokens (sx_p x) \<le> burst + rate * of_int (ps_last (sx_p x) - t0) / 1000000000
     \<and> - of_int (M + K - wires (sq_abs (ps_control (sx_p x)))) \<le> ps_tokens (sx_p x)"

lemma refill_rate:
  assumes inv: "rate_inv rate burst M K t0 ttl x" and pos: "0 \<le> rate" "0 \<le> burst" "0 \<le> M"
  shows "rate_inv rate burst M K t0 ttl (x\<lparr>sx_p := refill exact_floats now (sx_p x)\<rparr>)
    \<and> ps_last (refill exact_floats now (sx_p x)) \<in> {ps_last (sx_p x), now}"
proof (cases "fl_seconds id (time_sub now (ps_last (sx_p x))) \<le> 0")
  case True
  then show ?thesis using inv by (simp add: refill_def exact_floats_def)
next
  case False
  let ?l = "ps_last (sx_p x)"
  have d: "0 < time_sub now ?l" "time_sub now ?l \<le> now - ?l"
    using False by (auto simp: fl_seconds_exact time_sub_def min_i64_def max_i64_def max_def min_def split: if_split_asm)
  then have le: "rate * of_int (time_sub now ?l) / 1000000000 \<le> rate * of_int (now - ?l) / 1000000000"
  proof -
    have "(of_int (time_sub now ?l) :: rat) \<le> of_int (now - ?l)" using d(2) by (simp only: of_int_le_iff)
    from mult_left_mono [OF this pos(1)] show ?thesis by (intro divide_right_mono) simp_all
  qed
  have ge: "0 \<le> rate * of_int (time_sub now ?l) / 1000000000" using pos d by simp
  have "rate * of_int (now - t0) = rate * of_int (now - ?l) + rate * of_int (?l - t0)"
    by (simp add: algebra_simps)
  then have split: "rate * of_int (now - t0) / 1000000000
      = rate * of_int (now - ?l) / 1000000000 + rate * of_int (?l - t0) / 1000000000"
    by (simp only: add_divide_distrib)
  define A B C D where "A = rate * of_int (time_sub now ?l) / 1000000000"
    and "B = rate * of_int (now - ?l) / 1000000000" and "C = rate * of_int (?l - t0) / 1000000000"
    and "D = rate * of_int (now - t0) / 1000000000"
  have abcd: "A \<le> B" "0 \<le> A" "D = B + C" using le ge split by (simp_all only: A_def B_def C_def D_def)
  let ?N = "M + K - wires (sq_abs (ps_control (sx_p x)))"
  have i: "of_int ttl + ps_tokens (sx_p x) \<le> burst + C" "- of_int ?N \<le> ps_tokens (sx_p x)" "t0 \<le> ?l" "0 \<le> ?N"
    using inv pos(3) by (simp_all only: rate_inv_def C_def) simp
  have tok: "ps_tokens (refill exact_floats now (sx_p x)) = min (ps_tokens (sx_p x) + A) burst"
      and last: "ps_last (refill exact_floats now (sx_p x)) = now"
    using False inv by (simp_all add: refill_def exact_floats_def fl_defs fl_seconds_exact rate_inv_def A_def)
  have "min (ps_tokens (sx_p x) + A) burst \<le> ps_tokens (sx_p x) + A" by simp
  then have "of_int ttl + ps_tokens (refill exact_floats now (sx_p x)) \<le> burst + D"
    using i abcd tok by linarith
  moreover have "(0 :: rat) \<le> of_int ?N" using i(4) by (simp only: of_int_0_le_iff)
  then have "- of_int ?N \<le> ps_tokens (refill exact_floats now (sx_p x))"
    using i(2) abcd tok pos by (simp only: min_def) (simp split: if_split)
  ultimately show ?thesis
    using inv last d i(3) by (simp add: rate_inv_def D_def queuedList_def)
qed

lemma move_rate:
  assumes inv: "rate_inv rate burst M K t0 (wires (pre @ out)) x" and mv: "movesItem exact_floats it sent (out, x) (out', x')"
    and tok: "0 < ps_tokens (sx_p x)" and w: "it_wire it \<le> M" and pos: "0 \<le> it_wire it"
    and q: "sq_abs (ps_control (sx_p x')) = sq_abs (ps_control (sx_p x))"
      "set (sq_abs (ps_priority (sx_p x'))) \<subseteq> set (sq_abs (ps_priority (sx_p x)))" "set (sq_abs (ps_bulk (sx_p x'))) \<subseteq> set (sq_abs (ps_bulk (sx_p x)))"
  shows "rate_inv rate burst M K t0 (wires (pre @ out')) x' \<and> ps_last (sx_p x') = ps_last (sx_p x)"
proof -
  have "(of_int (it_wire it) :: rat) \<le> of_int M" using w by simp
  moreover have "(of_int (wires (sq_abs (ps_control (sx_p x)))) :: rat) \<le> of_int K" using inv by (simp add: rate_inv_def)
  ultimately show ?thesis
    using inv mv tok q pos
    by (cases sent) (auto simp: rate_inv_def movesItem_def exact_floats_def fl_defs queuedList_def)
qed

lemma control_rate:
  assumes inv: "rate_inv rate burst M K t0 (wires (pre @ out)) x" and mv: "movesItem exact_floats it True (out, x) (out', x')"
    and q: "sq_abs (ps_control (sx_p x)) = it # sq_abs (ps_control (sx_p x'))"
      "sq_abs (ps_priority (sx_p x')) = sq_abs (ps_priority (sx_p x))" "sq_abs (ps_bulk (sx_p x')) = sq_abs (ps_bulk (sx_p x))"
  shows "rate_inv rate burst M K t0 (wires (pre @ out')) x' \<and> ps_last (sx_p x') = ps_last (sx_p x)"
  using inv mv q by (auto simp: rate_inv_def movesItem_def exact_floats_def fl_defs queuedList_def wires_def)

lemma dequeueStep_rate:
  assumes sh: "shaper_inv ins (pre @ out) st0 x" and r: "rate_inv rate burst M K t0 (wires (pre @ out)) x"
    and st: "dequeueStep exact_floats now out x = Some (Some (out', x'))"
  shows "rate_inv rate burst M K t0 (wires (pre @ out')) x' \<and> ps_last (sx_p x') = ps_last (sx_p x)"
proof -
  have wf: "sq_inv (ps_control (sx_p x))" "sq_inv (ps_priority (sx_p x))" "sq_inv (ps_bulk (sx_p x))"
    using sh by (simp_all add: shaper_inv_def)
  have w: "0 \<le> it_wire it \<and> it_wire it \<le> M" if "it \<in> set (sq_abs (ps_priority (sx_p x)) @ sq_abs (ps_bulk (sx_p x)))" for it
    using r that by (auto simp: rate_inv_def queuedList_def)
  from st show ?thesis
  proof (cases rule: dequeueStep_cases)
    case 1
    then obtain it q where "sq_pop (ps_control (sx_p x)) = Some (it, q)" "movesItem exact_floats it True (out, x) (out', x')"
      "ps_control (sx_p x') = q" "ps_priority (sx_p x') = ps_priority (sx_p x)" "ps_bulk (sx_p x') = ps_bulk (sx_p x)"
      using dequeueControl_moves by (metis snd_conv)
    then show ?thesis using control_rate [OF r] sq_pop_head [OF wf(1)] by simp
  next
    case 2
    then obtain it q sent where m: "sq_pop (ps_priority (sx_p x)) = Some (it, q)" "movesItem exact_floats it sent (out, x) (out', x')"
      "ps_priority (sx_p x') = q" "ps_control (sx_p x') = ps_control (sx_p x)" "ps_bulk (sx_p x') = ps_bulk (sx_p x)"
      using dequeuePriority_moves by (metis snd_conv)
    note h = sq_pop_head [OF wf(2) m(1)]
    show ?thesis using move_rate [OF r m(2) 2(1)] w [of it] h m by auto
  next
    case 3
    then obtain it q sent where m: "sq_pop (ps_bulk (sx_p x)) = Some (it, q)" "movesItem exact_floats it sent (out, x) (out', x')"
      "ps_bulk (sx_p x') = q" "ps_control (sx_p x') = ps_control (sx_p x)" "ps_priority (sx_p x') = ps_priority (sx_p x)"
      using dequeueBulk_moves by (metis snd_conv)
    note h = sq_pop_head [OF wf(3) m(1)]
    show ?thesis using move_rate [OF r m(2) 3(1)] w [of it] h m by auto
  qed
qed

lemma dequeueLoop_rate:
  assumes "shaper_inv ins (pre @ out) st0 x" "rate_inv rate burst M K t0 (wires (pre @ out)) x"
    and "dequeueLoop exact_floats now limit out x = Some (out', x')"
  shows "rate_inv rate burst M K t0 (wires (pre @ out')) x' \<and> ps_last (sx_p x') = ps_last (sx_p x)"
  using assms
proof (induction exact_floats now limit out x rule: dequeueLoop.induct)
  case (1 now limit out x)
  show ?case
  proof (cases "int (length out) < limit")
    case False
    then show ?thesis using "1.prems" by (simp add: dequeueLoop.simps)
  next
    case True
    obtain y where y: "dequeueStep exact_floats now out x = Some y"
      using "1.prems"(3) True by (auto simp: dequeueLoop.simps split: option.split_asm)
    show ?thesis
    proof (cases y)
      case None
      then show ?thesis using "1.prems" True y by (simp add: dequeueLoop.simps)
    next
      case (Some z)
      obtain out1 x1 where z: "z = (out1, x1)" by force
      note st = y [unfolded Some z]
      obtain it sent q where mv: "movesItem exact_floats it sent (out, x) (out1, x1)"
          "mset (queuedList (sx_p x)) = add_mset it (mset (queuedList (sx_p x1)))"
          "wires (queuedList (sx_p x)) = it_wire it + wires (queuedList (sx_p x1))"
          "sq_inv (ps_control (sx_p x1))" "sq_inv (ps_priority (sx_p x1))" "sq_inv (ps_bulk (sx_p x1))"
          "queue_bounds (sx_p x1)"
        using dequeueStep_moves [OF "1.prems"(1) st] by blast
      have r1: "rate_inv rate burst M K t0 (wires (pre @ out1)) x1" "ps_last (sx_p x1) = ps_last (sx_p x)"
        using dequeueStep_rate [OF "1.prems"(1,2) st] by blast+
      have "shaper_inv ins (pre @ out1) st0 x1"
        by (rule shaper_inv_step [OF "1.prems"(1) mv(1-7) refl])
      then show ?thesis
        using "1.hyps" [OF True st refl refl _ r1(1)] r1(2) "1.prems"(3) True st by (simp add: dequeueLoop.simps)
    qed
  qed
qed

text \<open>A run at one rate, up to time \<open>T\<close>: data packets of at most \<open>L\<close> bytes, and any control messages. \<open>controlBytes\<close> is
  what the control messages take on the wire.\<close>

fun dataOp :: "int \<Rightarrow> gotime \<Rightarrow> shaper_op \<Rightarrow> bool" where
  "dataOp L T (ShEnqueue pkt addr control now) \<longleftrightarrow> 0 \<le> pk_length pkt \<and> (control \<or> pk_length pkt \<le> L)"
| "dataOp L T (ShDequeue now limit) \<longleftrightarrow> now \<le> T"
| "dataOp L T (ShSetRate now rate) \<longleftrightarrow> False"
| "dataOp L T (ShWait now) \<longleftrightarrow> now \<le> T"
| "dataOp L T ShReset \<longleftrightarrow> True"

fun controlBytes :: "int \<Rightarrow> shaper_op list \<Rightarrow> int" where
  "controlBytes overhead [] = 0"
| "controlBytes overhead (op # ops) =
     (case op of ShEnqueue pkt addr True now \<Rightarrow> pk_length pkt + udpWireOverhead addr + overhead | _ \<Rightarrow> 0)
     + controlBytes overhead ops"

lemma makeRoom_rate:
  assumes "shaper_inv ins outs st0 x" "rate_inv rate burst M K t0 ttl x" "makeRoom w x = Some x'"
  shows "rate_inv rate burst M K t0 ttl x' \<and> ps_last (sx_p x') = ps_last (sx_p x)"
  using assms
proof (induction w x arbitrary: rule: makeRoom.induct)
  case (1 w x)
  let ?p = "sx_p x"
  let ?go = "ss_queueLimit (ps_s ?p) < sq_bytes (ps_priority ?p) + sq_bytes (ps_bulk ?p) + w \<and> 0 < sq_len (ps_bulk ?p)"
  show ?case
  proof (cases ?go)
    case False
    then have "x' = x" using "1.prems"(3) by (subst (asm) makeRoom.simps) (auto simp: Let_def split: if_split_asm)
    then show ?thesis using "1.prems" by simp
  next
    case True
    obtain old q where pop: "sq_pop (ps_bulk ?p) = Some (old, q)"
      using True by (auto simp: sq_pop_def sq_len_def Let_def)
    have wf: "sq_inv (ps_bulk ?p)" using "1.prems"(1) by (simp add: shaper_inv_def)
    let ?x = "dropOverflow old (x\<lparr>sx_p := ?p\<lparr>ps_bulk := q\<rparr>, sx_stats := addQueued (- it_wire old) (sx_stats x)\<rparr>)"
    have "sq_inv (ps_control ?p)" "sq_inv (ps_priority ?p)" "queue_bounds ?p"
      using "1.prems"(1) by (simp_all add: shaper_inv_def)
    from queued_moves [OF this(1,2) wf this(3), of "?p\<lparr>ps_bulk := q\<rparr>" old q]
    have "shaper_inv ins outs st0 ?x" using "1.prems"(1) pop by (simp add: shaper_inv_def)
    moreover have "rate_inv rate burst M K t0 ttl ?x"
      using "1.prems"(2) sq_pop_head [OF wf pop] by (simp add: rate_inv_def queuedList_def)
    moreover have "makeRoom w ?x = Some x'"
      using "1.prems"(3) True pop by (subst (asm) makeRoom.simps) (simp add: Let_def)
    ultimately show ?thesis using "1.IH" [OF refl True pop refl] by simp
  qed
qed

lemma udpWireOverhead_bounds: "0 \<le> udpWireOverhead a" "udpWireOverhead a \<le> 48"
  by (auto simp: udpWireOverhead_def split: option.splits addr.splits)

lemma enqueue_rate:
  assumes inv: "shaper_inv ins outs st0 x" and r: "rate_inv rate burst M K t0 ttl x"
    and len: "0 \<le> pk_length pkt" "0 \<le> ss_overhead (ps_s (sx_p x))" "pk_length pkt + 48 + ss_overhead (ps_s (sx_p x)) \<le> M"
    and e: "enqueue pkt addr False now x = Some x'"
  shows "rate_inv rate burst M K t0 ttl x' \<and> ps_last (sx_p x') = ps_last (sx_p x)"
proof -
  define it where "it = \<lparr>it_pkt = pkt, it_addr = addr, it_enq = now,
    it_wire = pk_length pkt + udpWireOverhead addr + ss_overhead (ps_s (sx_p x))\<rparr>"
  have w: "0 \<le> it_wire it" "it_wire it \<le> M" using len udpWireOverhead_bounds [of addr] by (simp_all add: it_def)
  obtain y where y: "makeRoom (it_wire it) x = Some y" "shaper_inv ins outs st0 y"
    using makeRoom_inv [OF inv] by blast
  have ry: "rate_inv rate burst M K t0 ttl y" "ps_last (sx_p y) = ps_last (sx_p x)"
    using makeRoom_rate [OF inv r y(1)] by auto
  have wf: "sq_inv (ps_priority (sx_p y))" "sq_inv (ps_bulk (sx_p y))" using y by (simp_all add: shaper_inv_def)
  show ?thesis
    using e ry w sq_push_abs [OF wf(1), of it] sq_push_abs [OF wf(2), of it]
    unfolding enqueue_def Let_def it_def [symmetric] y(1)
    by (auto simp: y(1) rate_inv_def queuedList_def split: if_split_asm)
qed

lemma control_enqueue_rate:
  assumes inv: "shaper_inv ins outs st0 x" and r: "rate_inv rate burst M K t0 ttl x"
    and len: "0 \<le> pk_length pkt" "0 \<le> ss_overhead (ps_s (sx_p x))"
    and e: "enqueue pkt addr True now x = Some x'"
  shows "rate_inv rate burst M (K + (pk_length pkt + udpWireOverhead addr + ss_overhead (ps_s (sx_p x)))) t0 ttl x'
    \<and> ps_last (sx_p x') = ps_last (sx_p x)"
proof -
  define it where "it = \<lparr>it_pkt = pkt, it_addr = addr, it_enq = now,
    it_wire = pk_length pkt + udpWireOverhead addr + ss_overhead (ps_s (sx_p x))\<rparr>"
  have w: "0 \<le> it_wire it" "it_wire it = pk_length pkt + udpWireOverhead addr + ss_overhead (ps_s (sx_p x))"
    using len udpWireOverhead_bounds [of addr] by (simp_all add: it_def)
  have wf: "sq_inv (ps_control (sx_p x))" using inv by (simp add: shaper_inv_def)
  have "(0 :: rat) \<le> of_int (it_wire it)" using w(1) by (simp only: of_int_0_le_iff)
  then have "rate_inv rate burst M (K + it_wire it) t0 ttl x' \<and> ps_last (sx_p x') = ps_last (sx_p x)"
    using e r w(1) sq_push_abs [OF wf, of it]
    unfolding enqueue_def Let_def it_def [symmetric]
    by (auto simp: rate_inv_def queuedList_def split: if_split_asm)
  then show ?thesis by (simp only: w(2))
qed

lemma shaperRun_rate:
  assumes "shaper_inv ins outs st0 x" "rate_inv rate burst M K t0 (wires outs) x"
    and pos: "0 \<le> rate" "0 \<le> burst" "0 \<le> M" and L: "L + 48 + ss_overhead (ps_s (sx_p x)) \<le> M"
    and ov: "0 \<le> ss_overhead (ps_s (sx_p x))"
    and ops: "\<forall>op \<in> set ops. dataOp L T op" and T: "ps_last (sx_p x) \<le> T"
    and run: "shaperRun exact_floats x ops = Some (x', out)"
  shows "rate_inv rate burst M (K + controlBytes (ss_overhead (ps_s (sx_p x))) ops) t0 (wires (outs @ out)) x' \<and> ps_last (sx_p x') \<le> T"
  using assms
proof (induction ops arbitrary: x ins outs out K)
  case Nil
  then show ?case by simp
next
  case (Cons op ops)
  obtain x1 o1 o2 where st: "shaperStep exact_floats x op = Some (x1, o1)"
      and rest: "shaperRun exact_floats x1 ops = Some (x', o2)" "out = o1 @ o2"
    using Cons.prems(10) by (auto simp: option_bind_eq_Some)
  have op: "dataOp L T op" using Cons.prems(8) by simp
  have len: "\<forall>pkt \<in> set (enqueued [op]). 0 \<le> pk_length pkt" using op by (cases op) auto
  obtain x1' o1' where "shaperStep exact_floats x op = Some (x1', o1')"
      "shaper_inv (ins @ enqueued [op]) (outs @ o1') st0 x1'" "ps_s (sx_p x1') = ps_s (sx_p x)"
    using shaperStep_inv [OF Cons.prems(1) len] by blast
  with st have inv1: "shaper_inv (ins @ enqueued [op]) (outs @ o1) st0 x1" "ps_s (sx_p x1) = ps_s (sx_p x)" by auto
  let ?K = "K + controlBytes (ss_overhead (ps_s (sx_p x))) [op]"
  have r1: "rate_inv rate burst M ?K t0 (wires (outs @ o1)) x1 \<and> ps_last (sx_p x1) \<le> T"
  proof (cases op)
    case (ShEnqueue pkt addr control now)
    show ?thesis
    proof (cases control)
      case True
      then show ?thesis
        using st op ShEnqueue control_enqueue_rate [OF Cons.prems(1,2), of pkt addr now x1] Cons.prems(7,9)
        by (auto simp: option_bind_eq_Some)
    next
      case False
      then show ?thesis
        using st op ShEnqueue enqueue_rate [OF Cons.prems(1,2), of pkt addr now x1] Cons.prems(6,7,9)
        by (auto simp: option_bind_eq_Some)
    qed
  next
    case (ShDequeue now limit)
    let ?x = "x\<lparr>sx_p := refill exact_floats now (sx_p x)\<rparr>"
    have "shaper_inv ins (outs @ []) st0 ?x"
      using shaper_inv_same_queues [OF Cons.prems(1), of "refill exact_floats now (sx_p x)"] by simp
    moreover have "rate_inv rate burst M K t0 (wires (outs @ [])) ?x" "ps_last (sx_p ?x) \<le> T"
      using refill_rate [OF Cons.prems(2) pos, of now] Cons.prems(9) op ShDequeue by auto
    moreover have "dequeueLoop exact_floats now limit [] ?x = Some (o1, x1)"
      using st ShDequeue by (auto simp: dequeue_def option_bind_eq_Some)
    ultimately show ?thesis using dequeueLoop_rate ShDequeue by fastforce
  next
    case (ShSetRate now v)
    then show ?thesis using op by simp
  next
    case (ShWait now)
    have "fst (wait exact_floats now (sx_p x)) \<in> {sx_p x, refill exact_floats now (sx_p x)}"
      by (simp add: wait_def Let_def)
    moreover have "x1 = x\<lparr>sx_p := fst (wait exact_floats now (sx_p x))\<rparr>" "o1 = []" using st ShWait by auto
    ultimately show ?thesis
      using refill_rate [OF Cons.prems(2) pos, of now] Cons.prems(2,9) op ShWait by auto
  next
    case ShReset
    have "0 \<le> wires (sq_abs (ps_control (sx_p x)))"
      using Cons.prems(2) by (auto simp: rate_inv_def queuedList_def wires_def intro!: sum_list_nonneg)
    then have pos_ctl: "(0 :: rat) \<le> of_int (wires (sq_abs (ps_control (sx_p x))))" by (simp only: of_int_0_le_iff)
    from ShReset obtain y where y: "resetShaper x = Some y" "x1 = y" "o1 = []" using st by (auto simp: option_bind_eq_Some)
    moreover have "queuedList (sx_p y) = []" using resetShaper_inv [OF Cons.prems(1)] y by auto
    moreover have "ps_r (sx_p y) = ps_r (sx_p x)" "ps_tokens (sx_p y) = ps_tokens (sx_p x)" "ps_last (sx_p y) = ps_last (sx_p x)"
      using y(1) by (auto simp: resetShaper_def option_bind_eq_Some)
    ultimately show ?thesis using Cons.prems(2,9) ShReset pos_ctl by (simp add: rate_inv_def queuedList_def)
  qed
  show ?case
    using Cons.IH [OF inv1(1) _ pos _ _ _ _ rest(1), of ?K] r1 inv1(2) Cons.prems(6,7,8) rest(2) by (auto simp: add.assoc)
qed


section \<open>Properties\<close>

text \<open>C33. No packet is lost or released twice: over any sequence of enqueues, dequeues, rate
  changes and resets the shaper returns without a panic, and every packet given to it has been
  sent once, released once, or is still queued, and nothing else. The byte counters agree: the
  queued-bytes statistic is what the queues hold, and the path's sent counter is what was sent,
  both modulo \<open>2 ^ 64\<close>.\<close>

theorem shaper_accounts_for_packets:
  assumes "newShaperSettings F (Some cfg) = Inr (Some s)" and "\<forall>pkt \<in> set (enqueued ops). 0 \<le> pk_length pkt"
  shows "\<exists>x outs. shaperRun F (startShaper F s t0 st) ops = Some (x, outs)
    \<and> mset (enqueued ops) = mset (map it_pkt outs) + mset (map it_pkt (queuedList (sx_p x))) + mset (sx_released x)
    \<and> st_queuedBytes (sx_stats x) = st_queuedBytes st + word_of_int (wires (queuedList (sx_p x)))
    \<and> ps_sent (sx_p x) = word_of_int (wires outs)"
  using shaperRun_inv [OF start_inv [OF assms(1), where st = st and now = t0] assms(2), where F = F] by (auto simp: shaper_inv_def)

definition demoPkt :: "int \<Rightarrow> packet" where
  "demoPkt n = (getPacketWithBuffer ''p'' (full_slice []) 0)\<lparr>pk_length := n\<rparr>"

definition demoStats :: shaper_stats where
  "demoStats = \<lparr>st_sentBytes = 0, st_priorityPkts = 0, st_codelDrops = 0, st_overflowDrops = 0,
     st_queuedBytes = 0, st_maxDelay = 0\<rparr>"

definition demoSettings :: shaper_settings where
  "demoSettings = (case newShaperSettings exact_floats (Some demoShaperConfig) of Inr (Some s) \<Rightarrow> s)"

lemma demo_settings:
  "newShaperSettings exact_floats (Some demoShaperConfig) = Inr (Some demoSettings)"
  "ss_rate demoSettings = 1000000" "ss_burst demoSettings = 3000" "ss_overhead demoSettings = 0"
  by (simp_all add: demoSettings_def newShaperSettings_def demoShaperConfig_def Let_def mbit_def fl_defs
      exact_floats_def)

theorem shaper_accounts_for_packets_witness:
  "\<exists>x outs. shaperRun exact_floats (startShaper exact_floats demoSettings 0 demoStats)
       [ShEnqueue (demoPkt 1400) None False 5, ShEnqueue (demoPkt 60) None False 6,
        ShEnqueue (demoPkt 90) None True 7, ShDequeue 8 64, ShReset] = Some (x, outs)
    \<and> mset (enqueued [ShEnqueue (demoPkt 1400) None False 5, ShEnqueue (demoPkt 60) None False 6,
        ShEnqueue (demoPkt 90) None True 7, ShDequeue 8 64, ShReset])
      = mset (map it_pkt outs) + mset (map it_pkt (queuedList (sx_p x))) + mset (sx_released x)
    \<and> st_queuedBytes (sx_stats x) = st_queuedBytes demoStats + word_of_int (wires (queuedList (sx_p x)))
    \<and> ps_sent (sx_p x) = word_of_int (wires outs)"
  by (rule shaper_accounts_for_packets [OF demo_settings(1)]) (simp add: demoPkt_def)

text \<open>The queues stay within their limits: in every reachable state the priority and bulk
  queues together hold at most the configured number of bytes, the byte counter of each queue is
  the sum over its packets, and at most 1024 control messages are queued.\<close>

theorem shaper_queues_bounded:
  assumes "newShaperSettings F (Some cfg) = Inr (Some s)" and "\<forall>pkt \<in> set (enqueued ops). 0 \<le> pk_length pkt"
    and "shaperRun F (startShaper F s t0 st) ops = Some (x, outs)"
  shows "wires (sq_abs (ps_priority (sx_p x))) + wires (sq_abs (ps_bulk (sx_p x))) \<le> ss_queueLimit s
    \<and> sq_len (ps_control (sx_p x)) \<le> 1024"
proof -
  have "ps_s (sx_p (startShaper F s t0 st)) = s" by (simp add: startShaper_def newPathShaper_def)
  then have "shaper_inv ([] @ enqueued ops) ([] @ outs) (st_queuedBytes st) x" "ps_s (sx_p x) = s"
    using shaperRun_inv [OF start_inv [OF assms(1), where st = st and now = t0] assms(2), where F = F] assms(3) by auto
  then show ?thesis by (simp add: shaper_inv_def queue_bounds_def sq_inv_def wires_def)
qed

theorem shaper_queues_bounded_witness:
  "\<exists>x outs. shaperRun exact_floats (startShaper exact_floats demoSettings 0 demoStats)
      [ShEnqueue (demoPkt 1400) None False 5] = Some (x, outs)
    \<and> wires (sq_abs (ps_priority (sx_p x))) + wires (sq_abs (ps_bulk (sx_p x))) \<le> ss_queueLimit demoSettings"
proof -
  have len: "\<forall>pkt \<in> set (enqueued [ShEnqueue (demoPkt 1400) None False 5]). 0 \<le> pk_length pkt"
    by (simp add: demoPkt_def)
  obtain x outs where run: "shaperRun exact_floats (startShaper exact_floats demoSettings 0 demoStats)
      [ShEnqueue (demoPkt 1400) None False 5] = Some (x, outs)"
    using shaperRun_inv [OF start_inv [OF demo_settings(1)] len] by blast
  with shaper_queues_bounded [OF demo_settings(1) len run] show ?thesis by blast
qed

text \<open>C34. Shaping works: with exact arithmetic and at a constant rate, the bytes sent by time \<open>T\<close> are at most the
  burst, plus the rate times the time since the start, plus the largest data packet with its overhead,
  plus the bytes of the control messages (which do not wait for tokens; what they take is paid back by the data).\<close>

theorem shaper_rate_bounded:
  assumes s: "newShaperSettings exact_floats (Some cfg) = Inr (Some s)" and T: "t0 \<le> T"
    and ops: "\<forall>op \<in> set ops. dataOp L T op" and L: "0 \<le> L"
    and run: "shaperRun exact_floats (startShaper exact_floats s t0 st) ops = Some (x, outs)"
  shows "of_int (wires outs) \<le> ss_burst s + ss_rate s * of_int (T - t0) / 1000000000
    + of_int (L + 48 + ss_overhead s) + of_int (controlBytes (ss_overhead s) ops)"
proof -
  let ?x = "startShaper exact_floats s t0 st" and ?M = "L + 48 + ss_overhead s"
  have set: "0 \<le> ss_rate s" "3000 \<le> ss_burst s" "0 \<le> ss_overhead s" "ss_burst s = max (ss_rate s * (2 / 1000)) 3000"
    using settings_fields [OF s] settings_limits [OF s]
    by (simp_all add: mbit_def fl_defs exact_floats_def)
  have "(0 :: rat) \<le> of_int ?M" using set(3) L by simp
  then have "rate_inv (ss_rate s) (ss_burst s) ?M 0 t0 (wires ([] :: shaper_item list)) ?x"
    using set(1-3) by (simp add: rate_inv_def startShaper_def newPathShaper_def pathRate_def Let_def
        queuedList_def fl_defs exact_floats_def set(4))
  note r0 = this
  have pre: "0 \<le> ss_burst s" "0 \<le> ?M" using set(2,3) L by linarith+
  have ov: "L + 48 + ss_overhead (ps_s (sx_p ?x)) \<le> ?M" "0 \<le> ss_overhead (ps_s (sx_p ?x))" "ps_last (sx_p ?x) \<le> T"
      "ps_s (sx_p ?x) = s"
    using T set(3) by (simp_all add: startShaper_def newPathShaper_def)
  let ?K = "controlBytes (ss_overhead s) ops"
  have fin: "rate_inv (ss_rate s) (ss_burst s) ?M ?K t0 (wires outs) x" "ps_last (sx_p x) \<le> T"
    using shaperRun_rate [OF start_inv [OF s] r0 set(1) pre ov(1,2) ops ov(3) run] unfolding ov(4) by simp_all
  have "ss_rate s * of_int (ps_last (sx_p x) - t0) / 1000000000 \<le> ss_rate s * of_int (T - t0) / 1000000000"
  proof -
    have "(of_int (ps_last (sx_p x) - t0) :: rat) \<le> of_int (T - t0)" using fin(2) by (simp only: of_int_le_iff)
    from mult_left_mono [OF this set(1)] show ?thesis by (intro divide_right_mono) simp_all
  qed
  moreover have "0 \<le> wires (sq_abs (ps_control (sx_p x)))"
    using fin(1) by (auto simp: rate_inv_def queuedList_def wires_def intro!: sum_list_nonneg)
  then have "(of_int (?M + ?K - wires (sq_abs (ps_control (sx_p x)))) :: rat) \<le> of_int (?M + ?K)" by (simp only: of_int_le_iff)
  ultimately show ?thesis using fin(1) unfolding rate_inv_def by (simp only: of_int_add) linarith
qed

text \<open>In the witness a data packet and a control message are sent.\<close>

theorem shaper_rate_bounded_witness:
  "\<exists>x outs. shaperRun exact_floats (startShaper exact_floats demoSettings 0 demoStats)
      [ShEnqueue (demoPkt 1400) None False 5, ShEnqueue (demoPkt 90) None True 6, ShDequeue 1000000 64] = Some (x, outs)
    \<and> of_int (wires outs) \<le> (5566 :: rat)"
proof -
  let ?ops = "[ShEnqueue (demoPkt 1400) None False 5, ShEnqueue (demoPkt 90) None True 6, ShDequeue 1000000 64]"
  have len: "\<forall>pkt \<in> set (enqueued ?ops). 0 \<le> pk_length pkt"
    by (simp add: demoPkt_def)
  obtain x outs where run: "shaperRun exact_floats (startShaper exact_floats demoSettings 0 demoStats) ?ops = Some (x, outs)"
    using shaperRun_inv [OF start_inv [OF demo_settings(1)] len] by blast
  have "\<forall>op \<in> set ?ops. dataOp 1400 1000000 op"
    by (simp add: demoPkt_def)
  from shaper_rate_bounded [OF demo_settings(1) _ this _ run] have "of_int (wires outs) \<le> (5566 :: rat)"
    by (simp add: demo_settings udpWireOverhead_def) (simp add: demoPkt_def)
  with run show ?thesis by blast
qed

end
