(* ===== verification/TcpQueue.thy ===== *)
theory TcpQueue
  imports Shaper
begin

text \<open>
  \<open>src/tcp_tunnel_queue.go\<close>: the send queue of one TCP tunnel connection with its control,
  priority, bulk and reliable queues, the credit that balances priority against bulk, and CoDel
  on the bulk queue. Socket options (\<open>applySocketOptions\<close>) are kernel calls and not modelled.
  As for the shaper, \<open>tq_released\<close> records the packets on which \<open>Release(1)\<close> was called.
\<close>

section \<open>Settings\<close>

record tcp_queue_config =
  tc_enabled :: "bool option"
  tc_prioritySize :: "int option"
  tc_priorityShare :: int
  tc_targetDelay :: rat
  tc_interval :: int
  tc_queueLimit :: int
  tc_notsentLowat :: "int option"
  tc_priorityConn :: bool

record tcp_queue_settings =
  ts_prioritySize :: int
  ts_share :: rat
  ts_target :: duration
  ts_interval :: duration
  ts_codel :: bool
  ts_limit :: int
  ts_notsentLowat :: int
  ts_autoLowat :: bool
  ts_priorityConn :: bool
  ts_congestion :: string
  ts_pacingRate :: "64 word"

definition defaultTcpQueueConfig :: tcp_queue_config where
  "defaultTcpQueueConfig = \<lparr>tc_enabled = None, tc_prioritySize = None, tc_priorityShare = 0,
     tc_targetDelay = 0, tc_interval = 0, tc_queueLimit = 0, tc_notsentLowat = None,
     tc_priorityConn = False\<rparr>"

definition newTcpQueueSettings :: "floats \<Rightarrow> tcp_queue_config option \<Rightarrow> int \<Rightarrow> int \<Rightarrow> tcp_queue_settings" where
  "newTcpQueueSettings F c queueSize bufferSize =
     (let cfg = (case c of None \<Rightarrow> defaultTcpQueueConfig | Some cfg \<Rightarrow> cfg); r = fl_round F in
      if tc_enabled cfg = Some False
      then \<lparr>ts_prioritySize = 0, ts_share = 0, ts_target = 0, ts_interval = 0, ts_codel = False,
            ts_limit = max queueSize 16 * max bufferSize 1500, ts_notsentLowat = 0,
            ts_autoLowat = False, ts_priorityConn = False, ts_congestion = '''', ts_pacingRate = 0\<rparr>
      else \<lparr>ts_prioritySize = (case tc_prioritySize cfg of None \<Rightarrow> 1000 | Some n \<Rightarrow> max n 0),
            ts_share = (if 0 < tc_priorityShare cfg \<and> tc_priorityShare cfg \<le> 100
                        then fl_div r (fl_of_int r (tc_priorityShare cfg)) 100 else 1 / 2),
            ts_target = (if 0 < tc_targetDelay cfg
                         then fl_trunc (fl_mul r (tc_targetDelay cfg) 1000000) else 5 * ns_milli),
            ts_interval = (if 0 < tc_interval cfg then i64 (tc_interval cfg * ns_milli)
                           else 100 * ns_milli),
            ts_codel = True,
            ts_limit = (if 0 < tc_queueLimit cfg then tc_queueLimit cfg else 2097152),
            ts_notsentLowat = (case tc_notsentLowat cfg of None \<Rightarrow> 131072 | Some n \<Rightarrow> max n 0),
            ts_autoLowat = (tc_notsentLowat cfg = None),
            ts_priorityConn = tc_priorityConn cfg, ts_congestion = '''', ts_pacingRate = 0\<rparr>)"

text \<open>The part of \<open>ComponentConfig\<close> the settings read is the three arguments.\<close>

definition newTcpTunnelSettings :: "floats \<Rightarrow> tcp_queue_config option \<Rightarrow> string \<Rightarrow> rat \<Rightarrow> router_config
    \<Rightarrow> tcp_queue_settings" where
  "newTcpTunnelSettings F queue congestion pacingRate rc =
     (let s = newTcpQueueSettings F queue (rc_queueSize rc) (rc_bufferSize rc)
      in s\<lparr>ts_congestion := congestion,
           ts_pacingRate := (if 0 < pacingRate then word_of_int (fl_trunc (mbit F pacingRate))
                             else ts_pacingRate s)\<rparr>)"

definition tunedLowat :: "floats \<Rightarrow> 64 word \<Rightarrow> int \<Rightarrow> tcp_queue_settings \<Rightarrow> int" where
  "tunedLowat F rate0 current s =
     (if \<not> ts_autoLowat s \<or> rate0 = 0 then 0
      else
        let rate = (if 0 < ts_pacingRate s \<and> ts_pacingRate s < rate0 then ts_pacingRate s else rate0);
            r = fl_round F;
            want = min (max (fl_trunc (fl_mul r (fl_of_int r (uint rate)) (fl_seconds r (5 * ns_milli)))) 16384)
                     524288
        in if 0 < current \<and> current * 3 < want * 4 \<and> want * 4 < current * 5 then 0 else want)"

lemma tunedLowat_range: "tunedLowat F rate current s = 0 \<or> 16384 \<le> tunedLowat F rate current s
    \<and> tunedLowat F rate current s \<le> 524288"
  by (simp add: tunedLowat_def Let_def)

section \<open>The queue\<close>

record tcp_queue_stats =
  tt_priorityPkts :: "64 word"
  tt_codelDrops :: "64 word"
  tt_overflowDrops :: "64 word"
  tt_queuedBytes :: "64 word"
  tt_maxDelay :: int

record tcp_queue =
  tq_s :: tcp_queue_settings
  tq_stats :: tcp_queue_stats
  tq_control :: shaper_queue
  tq_priority :: shaper_queue
  tq_bulk :: shaper_queue
  tq_reliable :: shaper_queue
  tq_codel :: codel
  tq_priorityCodel :: codel
  tq_credit :: rat
  tq_closed :: bool
  tq_queued :: "64 word"
  tq_ready :: bool
  tq_released :: "packet list"

definition newTcpTunnelQueue :: "tcp_queue_settings \<Rightarrow> tcp_queue_stats \<Rightarrow> tcp_queue" where
  "newTcpTunnelQueue s st = \<lparr>tq_s = s, tq_stats = st, tq_control = sq_empty, tq_priority = sq_empty,
     tq_bulk = sq_empty, tq_reliable = sq_empty, tq_codel = newCodel (ts_target s) (ts_interval s),
     tq_priorityCodel = newCodel (ts_target s) (ts_interval s), tq_credit = 65536, tq_closed = False,
     tq_queued = 0, tq_ready = False, tq_released = []\<rparr>"

definition account :: "int \<Rightarrow> tcp_queue \<Rightarrow> tcp_queue" where
  "account d q = q\<lparr>tq_stats := (tq_stats q)\<lparr>tt_queuedBytes := tt_queuedBytes (tq_stats q) + word_of_int d\<rparr>,
     tq_queued := tq_queued q + word_of_int d\<rparr>"

definition releasePkt :: "packet \<Rightarrow> tcp_queue \<Rightarrow> tcp_queue" where
  "releasePkt p q = q\<lparr>tq_released := tq_released q @ [p]\<rparr>"

definition countOverflow :: "tcp_queue \<Rightarrow> tcp_queue" where
  "countOverflow q = q\<lparr>tq_stats := (tq_stats q)\<lparr>tt_overflowDrops := tt_overflowDrops (tq_stats q) + 1\<rparr>\<rparr>"

definition dropItem :: "shaper_item \<Rightarrow> tcp_queue \<Rightarrow> tcp_queue" where
  "dropItem it q = releasePkt (it_pkt it) ((account (- it_wire it) q)\<lparr>tq_stats :=
     (tq_stats (account (- it_wire it) q))\<lparr>tt_codelDrops := tt_codelDrops (tq_stats q) + 1\<rparr>\<rparr>)"

definition observe :: "duration \<Rightarrow> tcp_queue \<Rightarrow> tcp_queue" where
  "observe d q = (if d \<le> tt_maxDelay (tq_stats q) then q
     else q\<lparr>tq_stats := (tq_stats q)\<lparr>tt_maxDelay := d\<rparr>\<rparr>)"

definition tq_dataBytes :: "tcp_queue \<Rightarrow> int" where
  "tq_dataBytes q = sq_bytes (tq_priority q) + sq_bytes (tq_bulk q) + sq_bytes (tq_reliable q)"

function tqMakeRoom :: "int \<Rightarrow> tcp_queue \<Rightarrow> tcp_queue option" where
  "tqMakeRoom wire q =
     (if ts_limit (tq_s q) < tq_dataBytes q + wire \<and> 0 < sq_len (tq_bulk q)
      then case sq_pop (tq_bulk q) of
          None \<Rightarrow> None
        | Some (old, b) \<Rightarrow>
            tqMakeRoom wire (releasePkt (it_pkt old)
              (countOverflow (account (- it_wire old) (q\<lparr>tq_bulk := b\<rparr>))))
      else Some q)"
  by auto
termination
  by (relation "measure (\<lambda>(w, q). sq_len (tq_bulk q))")
    (auto simp: releasePkt_def countOverflow_def account_def intro: sq_pop_len)

declare tqMakeRoom.simps [simp del]

text \<open>\<open>select { case q.ready <- struct{}{}: default: }\<close> on a channel of capacity one.\<close>

definition tqPushed :: "shaper_item \<Rightarrow> tcp_queue \<Rightarrow> tcp_queue \<times> bool" where
  "tqPushed it q = ((account (it_wire it) q)\<lparr>tq_ready := True\<rparr>, True)"

definition tqPush :: "packet \<Rightarrow> bool \<Rightarrow> gotime \<Rightarrow> tcp_queue \<Rightarrow> (tcp_queue \<times> bool) option" where
  "tqPush pkt control now q =
     (let it = \<lparr>it_pkt = pkt, it_addr = None, it_enq = now, it_wire = pk_length pkt\<rparr>;
          small = 0 < ts_prioritySize (tq_s q) \<and> pk_length pkt \<le> ts_prioritySize (tq_s q)
      in if tq_closed q then Some (releasePkt pkt q, False)
         else if control then Some (tqPushed it (q\<lparr>tq_control := sq_push it (tq_control q)\<rparr>))
         else if pk_noDrop pkt then
           (if small then Some (tqPushed it (q\<lparr>tq_priority := sq_push it (tq_priority q)\<rparr>))
            else Some (tqPushed it (q\<lparr>tq_reliable := sq_push it (tq_reliable q)\<rparr>)))
         else do {
           q1 \<leftarrow> tqMakeRoom (it_wire it) q;
           if ts_limit (tq_s q1) < tq_dataBytes q1 + it_wire it
           then Some (releasePkt pkt (countOverflow q1), False)
           else if small then Some (tqPushed it (q1\<lparr>tq_priority := sq_push it (tq_priority q1)\<rparr>))
           else Some (tqPushed it (q1\<lparr>tq_bulk := sq_push it (tq_bulk q1)\<rparr>))
         })"

text \<open>\<open>peek\<close> is only called on a queue that is not empty.\<close>

definition sq_peek :: "shaper_queue \<Rightarrow> shaper_item" where
  "sq_peek q = sq_items q ! sq_head q"

text \<open>Each byte of bulk or reliable data earns share / (1 - share) bytes of credit.\<close>

definition earn :: "floats \<Rightarrow> shaper_item \<Rightarrow> tcp_queue \<Rightarrow> tcp_queue" where
  "earn F it q =
     (let r = fl_round F;
          gain = fl_div r (fl_mul r (fl_of_int r (it_wire it)) (ts_share (tq_s q)))
                   (fl_add r (fl_sub r 1 (ts_share (tq_s q))) (r (1 / 1000000000)))
      in q\<lparr>tq_credit := min (fl_add r (tq_credit q) gain) 65536\<rparr>)"

text \<open>The end of a round of \<open>pop\<close> that did not drop.\<close>

definition tqTake :: "shaper_item \<Rightarrow> packet list \<Rightarrow> tcp_queue \<Rightarrow> (packet list \<times> tcp_queue) option option" where
  "tqTake it out q = Some (Some (out @ [it_pkt it], account (- it_wire it) q))"

definition popControl :: "packet list \<Rightarrow> tcp_queue \<Rightarrow> (packet list \<times> tcp_queue) option option" where
  "popControl out q = do { (it, c) \<leftarrow> sq_pop (tq_control q); tqTake it out (q\<lparr>tq_control := c\<rparr>) }"

definition popPriority :: "floats \<Rightarrow> gotime \<Rightarrow> nat \<Rightarrow> packet list \<Rightarrow> tcp_queue
    \<Rightarrow> (packet list \<times> tcp_queue) option option" where
  "popPriority F now bulkLen out q = do {
     (it, c) \<leftarrow> sq_pop (tq_priority q);
     let sojourn = time_sub now (it_enq it);
     let q1 = observe sojourn (q\<lparr>tq_priority := c\<rparr>);
     let (cd, drop) =
       (if ts_codel (tq_s q1) \<and> \<not> pk_noDrop (it_pkt it) \<and> tq_credit q1 \<le> 0 \<and> 0 < bulkLen
           \<and> 1500 \<le> sq_bytes (tq_priority q1)
        then shouldDrop F now sojourn (tq_priorityCodel q1) else (tq_priorityCodel q1, False));
     let q2 = q1\<lparr>tq_priorityCodel := cd\<rparr>;
     if drop then Some (Some (out, dropItem it q2))
     else tqTake it out (q2\<lparr>
       tq_credit := fl_sub (fl_round F) (tq_credit q2) (fl_of_int (fl_round F) (it_wire it)),
       tq_stats := (tq_stats q2)\<lparr>tt_priorityPkts := tt_priorityPkts (tq_stats q2) + 1\<rparr>\<rparr>)
   }"

definition popReliable :: "floats \<Rightarrow> gotime \<Rightarrow> packet list \<Rightarrow> tcp_queue
    \<Rightarrow> (packet list \<times> tcp_queue) option option" where
  "popReliable F now out q = do {
     (it, c) \<leftarrow> sq_pop (tq_reliable q);
     tqTake it out (earn F it (observe (time_sub now (it_enq it)) (q\<lparr>tq_reliable := c\<rparr>)))
   }"

definition popBulk :: "floats \<Rightarrow> gotime \<Rightarrow> packet list \<Rightarrow> tcp_queue
    \<Rightarrow> (packet list \<times> tcp_queue) option option" where
  "popBulk F now out q = do {
     (it, c) \<leftarrow> sq_pop (tq_bulk q);
     let sojourn = time_sub now (it_enq it);
     let q1 = observe sojourn (q\<lparr>tq_bulk := c\<rparr>);
     let s = (if sq_bytes (tq_bulk q1) + sq_bytes (tq_reliable q1) < 1500 then 0 else sojourn);
     let (cd, drop) = (if ts_codel (tq_s q1) then shouldDrop F now s (tq_codel q1) else (tq_codel q1, False));
     let q2 = q1\<lparr>tq_codel := cd\<rparr>;
     if drop then Some (Some (out, dropItem it q2)) else tqTake it out (earn F it q2)
   }"

definition popPick :: "floats \<Rightarrow> gotime \<Rightarrow> nat \<Rightarrow> packet list \<Rightarrow> tcp_queue
    \<Rightarrow> (packet list \<times> tcp_queue) option option" where
  "popPick F now bulkLen out q =
     (if 0 < sq_len (tq_control q) then popControl out q
      else if 0 < sq_len (tq_priority q) \<and> (0 < tq_credit q \<or> bulkLen = 0)
      then popPriority F now bulkLen out q
      else if 0 < sq_len (tq_reliable q) \<and>
        (sq_len (tq_bulk q) = 0 \<or> it_enq (sq_peek (tq_reliable q)) < it_enq (sq_peek (tq_bulk q)))
      then popReliable F now out q
      else if 0 < sq_len (tq_bulk q) then popBulk F now out q
      else Some None)"

definition popStep :: "floats \<Rightarrow> gotime \<Rightarrow> packet list \<Rightarrow> tcp_queue \<Rightarrow> (packet list \<times> tcp_queue) option option" where
  "popStep F now out q =
     (let bulkLen = sq_len (tq_bulk q) + sq_len (tq_reliable q)
      in popPick F now bulkLen out (if bulkLen = 0 then q\<lparr>tq_credit := 65536\<rparr> else q))"

definition tqLen :: "tcp_queue \<Rightarrow> nat" where
  "tqLen q = sq_len (tq_control q) + sq_len (tq_priority q) + sq_len (tq_bulk q) + sq_len (tq_reliable q)"

section \<open>One round of \<open>pop\<close>\<close>

lemma account_simps [simp]:
  "tq_s (account d q) = tq_s q" "tq_control (account d q) = tq_control q"
  "tq_priority (account d q) = tq_priority q" "tq_bulk (account d q) = tq_bulk q"
  "tq_reliable (account d q) = tq_reliable q" "tq_closed (account d q) = tq_closed q"
  "tq_released (account d q) = tq_released q" "tq_queued (account d q) = tq_queued q + word_of_int d"
  "tq_credit (account d q) = tq_credit q"
  by (simp_all add: account_def)

lemma releasePkt_simps [simp]:
  "tq_s (releasePkt p q) = tq_s q" "tq_control (releasePkt p q) = tq_control q"
  "tq_priority (releasePkt p q) = tq_priority q" "tq_bulk (releasePkt p q) = tq_bulk q"
  "tq_reliable (releasePkt p q) = tq_reliable q" "tq_closed (releasePkt p q) = tq_closed q"
  "tq_released (releasePkt p q) = tq_released q @ [p]" "tq_queued (releasePkt p q) = tq_queued q"
  by (simp_all add: releasePkt_def)

lemma countOverflow_simps [simp]:
  "tq_s (countOverflow q) = tq_s q" "tq_control (countOverflow q) = tq_control q"
  "tq_priority (countOverflow q) = tq_priority q" "tq_bulk (countOverflow q) = tq_bulk q"
  "tq_reliable (countOverflow q) = tq_reliable q" "tq_closed (countOverflow q) = tq_closed q"
  "tq_released (countOverflow q) = tq_released q" "tq_queued (countOverflow q) = tq_queued q"
  by (simp_all add: countOverflow_def)

lemma dropItem_simps [simp]:
  "tq_s (dropItem it q) = tq_s q" "tq_control (dropItem it q) = tq_control q"
  "tq_priority (dropItem it q) = tq_priority q" "tq_bulk (dropItem it q) = tq_bulk q"
  "tq_reliable (dropItem it q) = tq_reliable q" "tq_closed (dropItem it q) = tq_closed q"
  "tq_released (dropItem it q) = tq_released q @ [it_pkt it]"
  "tq_queued (dropItem it q) = tq_queued q - word_of_int (it_wire it)"
  by (simp_all add: dropItem_def)

lemma observe_simps [simp]:
  "tq_s (observe d q) = tq_s q" "tq_control (observe d q) = tq_control q"
  "tq_priority (observe d q) = tq_priority q" "tq_bulk (observe d q) = tq_bulk q"
  "tq_reliable (observe d q) = tq_reliable q" "tq_closed (observe d q) = tq_closed q"
  "tq_released (observe d q) = tq_released q" "tq_queued (observe d q) = tq_queued q"
  "tq_credit (observe d q) = tq_credit q" "tq_codel (observe d q) = tq_codel q"
  "tq_priorityCodel (observe d q) = tq_priorityCodel q"
  by (simp_all add: observe_def)

lemma earn_simps [simp]:
  "tq_s (earn F it q) = tq_s q" "tq_control (earn F it q) = tq_control q"
  "tq_priority (earn F it q) = tq_priority q" "tq_bulk (earn F it q) = tq_bulk q"
  "tq_reliable (earn F it q) = tq_reliable q" "tq_closed (earn F it q) = tq_closed q"
  "tq_released (earn F it q) = tq_released q" "tq_queued (earn F it q) = tq_queued q"
  by (simp_all add: earn_def Let_def)

text \<open>The effect of a round apart from the queues: the item is sent or dropped.\<close>

definition tqEffect :: "shaper_item \<Rightarrow> bool \<Rightarrow> packet list \<times> tcp_queue \<Rightarrow> packet list \<times> tcp_queue \<Rightarrow> bool" where
  "tqEffect it sent = (\<lambda>(out, q) (out', q').
     tq_s q' = tq_s q \<and> tq_closed q' = tq_closed q \<and> tq_queued q' = tq_queued q - word_of_int (it_wire it)
     \<and> (if sent then out' = out @ [it_pkt it] \<and> tq_released q' = tq_released q
        else out' = out \<and> tq_released q' = tq_released q @ [it_pkt it] \<and> \<not> pk_noDrop (it_pkt it)))"

text \<open>The contents of the four queues.\<close>

definition tqLists :: "tcp_queue \<Rightarrow> shaper_item list \<times> shaper_item list \<times> shaper_item list \<times> shaper_item list" where
  "tqLists q = (sq_abs (tq_control q), sq_abs (tq_priority q), sq_abs (tq_bulk q), sq_abs (tq_reliable q))"

definition tqWf :: "tcp_queue \<Rightarrow> bool" where
  "tqWf q \<longleftrightarrow> sq_inv (tq_control q) \<and> sq_inv (tq_priority q) \<and> sq_inv (tq_bulk q) \<and> sq_inv (tq_reliable q)"

lemma popControl_effect:
  assumes wf: "tqWf q" and ne: "0 < sq_len (tq_control q)"
  shows "\<exists>it out' q' c. popControl out q = Some (Some (out', q')) \<and> tqEffect it True (out, q) (out', q') \<and> tqWf q'
    \<and> tqLists q = (it # c, snd (tqLists q)) \<and> tqLists q' = (c, snd (tqLists q))"
proof -
  obtain it c where pop: "sq_pop (tq_control q) = Some (it, c)" "sq_abs (tq_control q) = it # sq_abs c" "sq_inv c"
    using sq.pop_total [of "tq_control q"] wf ne by (auto simp: tqWf_def sq_len_abs)
  then show ?thesis using wf by (auto simp: popControl_def tqTake_def tqEffect_def tqWf_def tqLists_def)
qed

lemma popPriority_effect:
  assumes wf: "tqWf q" and ne: "0 < sq_len (tq_priority q)"
    and credit: "0 < tq_credit q \<or> bulkLen = 0"
  shows "\<exists>it out' q' c. popPriority F now bulkLen out q = Some (Some (out', q')) \<and> tqEffect it True (out, q) (out', q')
    \<and> tqWf q' \<and> sq_abs (tq_priority q) = it # c
    \<and> tqLists q' = (sq_abs (tq_control q), c, sq_abs (tq_bulk q), sq_abs (tq_reliable q))"
proof -
  obtain it c where pop: "sq_pop (tq_priority q) = Some (it, c)" "sq_abs (tq_priority q) = it # sq_abs c" "sq_inv c"
    using sq.pop_total [of "tq_priority q"] wf ne by (auto simp: tqWf_def sq_len_abs)
  then show ?thesis
    using wf credit by (auto simp: popPriority_def Let_def tqTake_def tqEffect_def tqWf_def tqLists_def)
qed

lemma popReliable_effect:
  assumes wf: "tqWf q" and ne: "0 < sq_len (tq_reliable q)"
  shows "\<exists>it out' q' c. popReliable F now out q = Some (Some (out', q')) \<and> tqEffect it True (out, q) (out', q')
    \<and> tqWf q' \<and> sq_abs (tq_reliable q) = it # c
    \<and> tqLists q' = (sq_abs (tq_control q), sq_abs (tq_priority q), sq_abs (tq_bulk q), c)"
proof -
  obtain it c where pop: "sq_pop (tq_reliable q) = Some (it, c)" "sq_abs (tq_reliable q) = it # sq_abs c" "sq_inv c"
    using sq.pop_total [of "tq_reliable q"] wf ne by (auto simp: tqWf_def sq_len_abs)
  then show ?thesis using wf by (auto simp: popReliable_def tqTake_def tqEffect_def tqWf_def tqLists_def)
qed

lemma popBulk_effect:
  assumes wf: "tqWf q" and ne: "0 < sq_len (tq_bulk q)" and bulk: "\<forall>it \<in> set (sq_abs (tq_bulk q)). \<not> pk_noDrop (it_pkt it)"
  shows "\<exists>it sent out' q' c. popBulk F now out q = Some (Some (out', q')) \<and> tqEffect it sent (out, q) (out', q')
    \<and> tqWf q' \<and> sq_abs (tq_bulk q) = it # c
    \<and> tqLists q' = (sq_abs (tq_control q), sq_abs (tq_priority q), c, sq_abs (tq_reliable q))"
proof -
  obtain it c where pop: "sq_pop (tq_bulk q) = Some (it, c)" "sq_abs (tq_bulk q) = it # sq_abs c" "sq_inv c"
    using sq.pop_total [of "tq_bulk q"] wf ne by (auto simp: tqWf_def sq_len_abs)
  let ?q1 = "observe (time_sub now (it_enq it)) (q\<lparr>tq_bulk := c\<rparr>)"
  let ?s = "if sq_bytes (tq_bulk ?q1) + sq_bytes (tq_reliable ?q1) < 1500 then 0 else time_sub now (it_enq it)"
  obtain cd drop where cd: "(if ts_codel (tq_s ?q1) then shouldDrop F now ?s (tq_codel ?q1)
      else (tq_codel ?q1, False)) = (cd, drop)" by force
  let ?q2 = "?q1\<lparr>tq_codel := cd\<rparr>"
  have "popBulk F now out q = (if drop then Some (Some (out, dropItem it ?q2)) else tqTake it out (earn F it ?q2))"
    by (simp only: popBulk_def pop(1) Let_def cd bind.bind_lunit prod.case)
  then show ?thesis
    using wf pop bulk by (cases drop) (auto simp: tqTake_def tqEffect_def tqWf_def tqLists_def)
qed

section \<open>Reliable data stays in order\<close>

text \<open>The packets that go through the reliable queue: no-drop data too large for priority.\<close>

definition reliablePkt :: "tcp_queue_settings \<Rightarrow> packet \<Rightarrow> bool" where
  "reliablePkt s p \<longleftrightarrow> pk_noDrop p \<and> \<not> (0 < ts_prioritySize s \<and> pk_length p \<le> ts_prioritySize s)"

definition tqItems :: "tcp_queue \<Rightarrow> shaper_item list" where
  "tqItems q = sq_abs (tq_control q) @ sq_abs (tq_priority q) @ sq_abs (tq_bulk q) @ sq_abs (tq_reliable q)"

definition tq_inv :: "tcp_queue_settings \<Rightarrow> packet list \<Rightarrow> packet list \<Rightarrow> tcp_queue \<Rightarrow> bool" where
  "tq_inv s pushed outs q \<longleftrightarrow> tqWf q \<and> tq_s q = s \<and> \<not> tq_closed q
     \<and> (\<forall>it \<in> set (sq_abs (tq_control q)). \<not> reliablePkt s (it_pkt it))
     \<and> (\<forall>it \<in> set (sq_abs (tq_priority q)). \<not> reliablePkt s (it_pkt it))
     \<and> (\<forall>it \<in> set (sq_abs (tq_bulk q)). \<not> pk_noDrop (it_pkt it))
     \<and> (\<forall>it \<in> set (sq_abs (tq_reliable q)). reliablePkt s (it_pkt it))
     \<and> (\<forall>p \<in> set (tq_released q). \<not> pk_noDrop p)
     \<and> mset pushed = mset outs + mset (map it_pkt (tqItems q)) + mset (tq_released q)
     \<and> filter (reliablePkt s) outs @ map it_pkt (sq_abs (tq_reliable q)) = filter (reliablePkt s) pushed
     \<and> tq_queued q = word_of_int (wires (tqItems q))"

lemma reliablePkt_noDrop: "\<not> pk_noDrop p \<Longrightarrow> \<not> reliablePkt s p"
  by (simp add: reliablePkt_def)

lemma popPick_inv:
  assumes inv: "tq_inv s pushed (pre @ out) q"
  shows "popPick F now n out q = Some None \<or>
    (\<exists>out' q'. popPick F now n out q = Some (Some (out', q')) \<and> tq_inv s pushed (pre @ out') q' \<and> tqLen q' < tqLen q)"
proof -
  have wf: "tqWf q" using inv by (simp add: tq_inv_def)
  note defs = tq_inv_def tqEffect_def tqLists_def tqItems_def tqLen_def sq_len_abs
  let ?c = "0 < sq_len (tq_control q)" and ?p = "0 < sq_len (tq_priority q) \<and> (0 < tq_credit q \<or> n = 0)"
    and ?r = "0 < sq_len (tq_reliable q) \<and>
      (sq_len (tq_bulk q) = 0 \<or> it_enq (sq_peek (tq_reliable q)) < it_enq (sq_peek (tq_bulk q)))"
    and ?b = "0 < sq_len (tq_bulk q)"
  consider (c) ?c | (p) "\<not> ?c" ?p | (r) "\<not> ?c" "\<not> ?p" ?r | (b) "\<not> ?c" "\<not> ?p" "\<not> ?r" ?b
    | (n) "\<not> ?c" "\<not> ?p" "\<not> ?r" "\<not> ?b" by blast
  then show ?thesis
  proof cases
    case c
    then have "popPick F now n out q = popControl out q" unfolding popPick_def by (simp only: if_True)
    then show ?thesis
      using popControl_effect [OF wf c, of out] inv by (fastforce simp: defs)
  next
    case p
    then have "popPick F now n out q = popPriority F now n out q"
      unfolding popPick_def by (simp only: if_True if_False simp_thms)
    then show ?thesis
      using popPriority_effect [OF wf conjunct1 [OF p(2)] conjunct2 [OF p(2)], of F now out] inv
      by (fastforce simp: defs)
  next
    case r
    then have "popPick F now n out q = popReliable F now out q"
      unfolding popPick_def by (simp only: if_True if_False simp_thms)
    then show ?thesis
      using popReliable_effect [OF wf conjunct1 [OF r(3)], of F now out] inv by (fastforce simp: defs)
  next
    case b
    then have "popPick F now n out q = popBulk F now out q"
      unfolding popPick_def by (simp only: if_True if_False simp_thms)
    moreover have "\<forall>it \<in> set (sq_abs (tq_bulk q)). \<not> pk_noDrop (it_pkt it)" using inv by (simp add: tq_inv_def)
    ultimately obtain it sent out' q' c where "popPick F now n out q = Some (Some (out', q'))"
        "tqEffect it sent (out, q) (out', q')" "tqWf q'" "sq_abs (tq_bulk q) = it # c"
        "tqLists q' = (sq_abs (tq_control q), sq_abs (tq_priority q), c, sq_abs (tq_reliable q))"
      using popBulk_effect [OF wf b(4), of F now out] by metis
    then show ?thesis
      using inv reliablePkt_noDrop by (cases sent) (fastforce simp: defs)+
  next
    case n
    then show ?thesis unfolding popPick_def by (simp only: if_False simp_thms)
  qed
qed

lemma popStep_inv:
  assumes inv: "tq_inv s pushed (pre @ out) q"
  shows "popStep F now out q = Some None \<or>
    (\<exists>out' q'. popStep F now out q = Some (Some (out', q')) \<and> tq_inv s pushed (pre @ out') q' \<and> tqLen q' < tqLen q)"
proof -
  have "tq_inv s pushed (pre @ out) (q\<lparr>tq_credit := x\<rparr>)" "tqLen (q\<lparr>tq_credit := x\<rparr>) = tqLen q" for x
    using inv by (simp_all add: tq_inv_def tqWf_def tqItems_def tqLen_def)
  then show ?thesis
    using popPick_inv [OF inv] popPick_inv [of s pushed pre out "q\<lparr>tq_credit := 65536\<rparr>"]
    by (simp add: popStep_def Let_def)
qed

section \<open>The loop, closing, delay\<close>

lemma tqTake_len: "tqTake it out q = Some (Some (out', q')) \<Longrightarrow> tqLen q' = tqLen q"
  by (auto simp: tqTake_def tqLen_def)

lemma popX_decreases:
  "popControl out q = Some (Some (out', q')) \<Longrightarrow> tqLen q' < tqLen q"
  "popReliable F now out q = Some (Some (out', q')) \<Longrightarrow> tqLen q' < tqLen q"
  by (auto simp: popControl_def popReliable_def option_bind_eq_Some tqLen_def
      dest!: sq_pop_len tqTake_len)

lemma popPriority_decreases: "popPriority F now n out q = Some (Some (out', q')) \<Longrightarrow> tqLen q' < tqLen q"
  by (auto simp: popPriority_def Let_def option_bind_eq_Some tqLen_def case_prod_beta split: if_split_asm
      dest!: sq_pop_len tqTake_len)

lemma popBulk_decreases: "popBulk F now out q = Some (Some (out', q')) \<Longrightarrow> tqLen q' < tqLen q"
  by (auto simp: popBulk_def Let_def option_bind_eq_Some tqLen_def case_prod_beta split: if_split_asm
      dest!: sq_pop_len tqTake_len)

lemma popPick_decreases: "popPick F now n out q = Some (Some (out', q')) \<Longrightarrow> tqLen q' < tqLen q"
  by (auto simp: popPick_def split: if_split_asm
      dest: popX_decreases popPriority_decreases popBulk_decreases)

lemma popStep_decreases: "popStep F now out q = Some (Some (out', q')) \<Longrightarrow> tqLen q' < tqLen q"
  using popPick_decreases [of F now _ out "q\<lparr>tq_credit := 65536\<rparr>" out' q'] popPick_decreases [of F now _ out q out' q']
  by (auto simp: popStep_def Let_def tqLen_def split: if_split_asm)

function tqPopLoop :: "floats \<Rightarrow> gotime \<Rightarrow> int \<Rightarrow> packet list \<Rightarrow> tcp_queue \<Rightarrow> (packet list \<times> tcp_queue) option" where
  "tqPopLoop F now limit out q =
     (if int (length out) < limit
      then case popStep F now out q of
          None \<Rightarrow> None
        | Some None \<Rightarrow> Some (out, q)
        | Some (Some (out', q')) \<Rightarrow> tqPopLoop F now limit out' q'
      else Some (out, q))"
  by auto
termination
  by (relation "measure (\<lambda>(F, now, limit, out, q). tqLen q)") (auto intro: popStep_decreases)

declare tqPopLoop.simps [simp del]

definition tqPop :: "floats \<Rightarrow> gotime \<Rightarrow> int \<Rightarrow> tcp_queue \<Rightarrow> (packet list \<times> tcp_queue) option" where
  "tqPop F now limit q = tqPopLoop F now limit [] q"

text \<open>The oldest data packet of the three data queues.\<close>

definition tqDelay :: "gotime \<Rightarrow> tcp_queue \<Rightarrow> duration" where
  "tqDelay now q = foldl (\<lambda>d sq. if 0 < sq_len sq \<and> d < time_sub now (it_enq (sq_peek sq))
       then time_sub now (it_enq (sq_peek sq)) else d) 0 [tq_priority q, tq_bulk q, tq_reliable q]"

text \<open>Releasing the packets of one queue; the queue itself is threaded separately.\<close>

function tqDrain :: "shaper_queue \<Rightarrow> tcp_queue \<Rightarrow> (shaper_queue \<times> tcp_queue) option" where
  "tqDrain sq q =
     (if 0 < sq_len sq
      then case sq_pop sq of None \<Rightarrow> None
        | Some (it, sq') \<Rightarrow> tqDrain sq' (releasePkt (it_pkt it) (account (- it_wire it) q))
      else Some (sq, q))"
  by auto
termination
  by (relation "measure (\<lambda>(sq, q). sq_len sq)") (auto intro: sq_pop_len)

declare tqDrain.simps [simp del]

definition tqClose :: "tcp_queue \<Rightarrow> tcp_queue option" where
  "tqClose q0 = do {
     let q = q0\<lparr>tq_closed := True\<rparr>;
     (c, q1) \<leftarrow> tqDrain (tq_control q) q;
     (p, q2) \<leftarrow> tqDrain (tq_priority q1) q1;
     (b, q3) \<leftarrow> tqDrain (tq_bulk q2) q2;
     (r, q4) \<leftarrow> tqDrain (tq_reliable q3) q3;
     Some (q4\<lparr>tq_control := c, tq_priority := p, tq_bulk := b, tq_reliable := r\<rparr>)
   }"

section \<open>Invariant of push, pop and runs\<close>

lemma tqMakeRoom_inv:
  assumes "tq_inv s pushed outs q"
  shows "\<exists>q'. tqMakeRoom w q = Some q' \<and> tq_inv s pushed outs q'"
  using assms
proof (induction w q rule: tqMakeRoom.induct)
  case (1 w q)
  let ?go = "ts_limit (tq_s q) < tq_dataBytes q + w \<and> 0 < sq_len (tq_bulk q)"
  show ?case
  proof (cases ?go)
    case False
    then show ?thesis using "1.prems" by (subst tqMakeRoom.simps) auto
  next
    case True
    obtain old b where pop: "sq_pop (tq_bulk q) = Some (old, b)" "sq_abs (tq_bulk q) = old # sq_abs b" "sq_inv b"
      using sq.pop_total [of "tq_bulk q"] True "1.prems" by (auto simp: tq_inv_def tqWf_def sq_len_abs)
    have "tq_inv s pushed outs (releasePkt (it_pkt old) (countOverflow (account (- it_wire old) (q\<lparr>tq_bulk := b\<rparr>))))"
      using "1.prems" pop by (simp add: tq_inv_def tqWf_def tqItems_def)
    then show ?thesis
      using "1.IH" [OF True pop(1) refl] True pop(1) by (subst tqMakeRoom.simps) simp
  qed
qed

lemma tqPush_inv:
  assumes inv: "tq_inv s pushed outs q" and ctl: "control \<longrightarrow> \<not> pk_noDrop pkt"
  shows "\<exists>q' b. tqPush pkt control now q = Some (q', b) \<and> tq_inv s (pushed @ [pkt]) outs q'"
proof -
  define it where "it = \<lparr>it_pkt = pkt, it_addr = None, it_enq = now, it_wire = pk_length pkt\<rparr>"
  have it: "it_pkt it = pkt" "it_wire it = pk_length pkt" by (simp_all add: it_def)
  let ?small = "0 < ts_prioritySize s \<and> pk_length pkt \<le> ts_prioritySize s"
  have push: "sq_abs (sq_push it x) = sq_abs x @ [it]" "sq_inv (sq_push it x)" if "sq_inv x" for x
    using sq.items_push sq.good_push that by auto
  have open_s: "\<not> tq_closed q" "tq_s q = s" using inv by (simp_all add: tq_inv_def)
  have ctl_inv: "tq_inv s (pushed @ [pkt]) outs (fst (tqPushed it (q\<lparr>tq_control := sq_push it (tq_control q)\<rparr>)))"
    if "control" using inv it push ctl that
    by (auto simp: tqPushed_def tq_inv_def tqWf_def tqItems_def reliablePkt_def)
  have pri_inv: "tq_inv s (pushed @ [pkt]) outs (fst (tqPushed it (y\<lparr>tq_priority := sq_push it (tq_priority y)\<rparr>)))"
    if "tq_inv s pushed outs y" ?small for y
    using that it push by (auto simp: tqPushed_def tq_inv_def tqWf_def tqItems_def reliablePkt_def)
  have rel_inv: "tq_inv s (pushed @ [pkt]) outs (fst (tqPushed it (q\<lparr>tq_reliable := sq_push it (tq_reliable q)\<rparr>)))"
    if "pk_noDrop pkt" "\<not> ?small"
    using inv that it push by (auto simp: tqPushed_def tq_inv_def tqWf_def tqItems_def reliablePkt_def)
  have bulk_inv: "tq_inv s (pushed @ [pkt]) outs (fst (tqPushed it (y\<lparr>tq_bulk := sq_push it (tq_bulk y)\<rparr>)))"
    if "tq_inv s pushed outs y" "\<not> pk_noDrop pkt" for y
    using that it push by (auto simp: tqPushed_def tq_inv_def tqWf_def tqItems_def reliablePkt_def)
  have drop_inv: "tq_inv s (pushed @ [pkt]) outs (releasePkt pkt (countOverflow y))"
    if "tq_inv s pushed outs y" "\<not> pk_noDrop pkt" for y
    using that by (auto simp: tq_inv_def tqWf_def tqItems_def reliablePkt_def)
  obtain y where y: "tqMakeRoom (it_wire it) q = Some y" "tq_inv s pushed outs y"
    using tqMakeRoom_inv [OF inv] by blast
  then have ys: "tq_s y = s" by (simp add: tq_inv_def)
  have fst_snd: "z = (fst z, snd z)" for z :: "tcp_queue \<times> bool" by simp
  consider control | "\<not> control" "pk_noDrop pkt" ?small | "\<not> control" "pk_noDrop pkt" "\<not> ?small"
    | "\<not> control" "\<not> pk_noDrop pkt" by blast
  then show ?thesis
  proof cases
    case 1
    then have "tqPush pkt control now q = Some (tqPushed it (q\<lparr>tq_control := sq_push it (tq_control q)\<rparr>))"
      using open_s unfolding tqPush_def Let_def it_def [symmetric] by simp
    then show ?thesis using ctl_inv [OF 1] fst_snd by metis
  next
    case 2
    then have "tqPush pkt control now q = Some (tqPushed it (q\<lparr>tq_priority := sq_push it (tq_priority q)\<rparr>))"
      using open_s unfolding tqPush_def Let_def it_def [symmetric] by simp
    then show ?thesis using pri_inv [OF inv 2(3)] fst_snd by metis
  next
    case 3
    then have "tqPush pkt control now q = Some (tqPushed it (q\<lparr>tq_reliable := sq_push it (tq_reliable q)\<rparr>))"
      using open_s unfolding tqPush_def Let_def it_def [symmetric] by auto
    then show ?thesis using rel_inv [OF 3(2,3)] fst_snd by metis
  next
    case 4
    have eq: "tqPush pkt control now q =
        (if ts_limit s < tq_dataBytes y + it_wire it then Some (releasePkt pkt (countOverflow y), False)
         else if ?small then Some (tqPushed it (y\<lparr>tq_priority := sq_push it (tq_priority y)\<rparr>))
         else Some (tqPushed it (y\<lparr>tq_bulk := sq_push it (tq_bulk y)\<rparr>)))"
      using 4 open_s ys y(1) unfolding tqPush_def Let_def it_def [symmetric] by simp
    show ?thesis
      unfolding eq using drop_inv [OF y(2) 4(2)] pri_inv [OF y(2)] bulk_inv [OF y(2) 4(2)] fst_snd
      by (metis (full_types))
  qed
qed

lemma tqPopLoop_inv:
  assumes "tq_inv s pushed (pre @ out) q"
  shows "\<exists>out' q'. tqPopLoop F now limit out q = Some (out', q') \<and> tq_inv s pushed (pre @ out') q'"
  using assms
proof (induction F now limit out q rule: tqPopLoop.induct)
  case (1 F now limit out q)
  show ?case
  proof (cases "int (length out) < limit")
    case False
    then show ?thesis using "1.prems" by (simp add: tqPopLoop.simps)
  next
    case True
    from popStep_inv [OF "1.prems", of F now] show ?thesis
    proof
      assume "popStep F now out q = Some None"
      then show ?thesis using "1.prems" True by (simp add: tqPopLoop.simps)
    next
      assume "\<exists>out' q'. popStep F now out q = Some (Some (out', q')) \<and> tq_inv s pushed (pre @ out') q' \<and> tqLen q' < tqLen q"
      then obtain out' q' where st: "popStep F now out q = Some (Some (out', q'))" "tq_inv s pushed (pre @ out') q'"
        by blast
      then show ?thesis using "1.IH" [OF True st(1) refl refl st(2)] True by (simp add: tqPopLoop.simps)
    qed
  qed
qed

datatype tcp_queue_op = TqPush packet bool gotime | TqPop gotime int

fun tqRun :: "floats \<Rightarrow> tcp_queue \<Rightarrow> tcp_queue_op list \<Rightarrow> (tcp_queue \<times> packet list) option" where
  "tqRun F q [] = Some (q, [])"
| "tqRun F q (TqPush pkt control now # ops) = do { (q1, ok) \<leftarrow> tqPush pkt control now q; tqRun F q1 ops }"
| "tqRun F q (TqPop now limit # ops) = do {
     (out, q1) \<leftarrow> tqPop F now limit q;
     (q2, outs) \<leftarrow> tqRun F q1 ops;
     Some (q2, out @ outs)
   }"

fun tqPushes :: "tcp_queue_op list \<Rightarrow> packet list" where
  "tqPushes [] = []"
| "tqPushes (TqPush pkt control now # ops) = pkt # tqPushes ops"
| "tqPushes (TqPop now limit # ops) = tqPushes ops"

fun controlDroppable :: "tcp_queue_op \<Rightarrow> bool" where
  "controlDroppable (TqPush pkt control now) \<longleftrightarrow> (control \<longrightarrow> \<not> pk_noDrop pkt)"
| "controlDroppable (TqPop now limit) \<longleftrightarrow> True"

lemma tqRun_inv:
  assumes "tq_inv s pushed outs q" "\<forall>op \<in> set ops. controlDroppable op"
  shows "\<exists>q' out. tqRun F q ops = Some (q', out) \<and> tq_inv s (pushed @ tqPushes ops) (outs @ out) q'"
  using assms
proof (induction ops arbitrary: q pushed outs)
  case Nil
  then show ?case by simp
next
  case (Cons op ops)
  have rest: "\<forall>op \<in> set ops. controlDroppable op" using Cons.prems(2) by simp
  show ?case
  proof (cases op)
    case (TqPush pkt control now)
    then have "control \<longrightarrow> \<not> pk_noDrop pkt" using Cons.prems(2) by simp
    from tqPush_inv [OF Cons.prems(1) this] obtain q1 b
      where st: "tqPush pkt control now q = Some (q1, b)" "tq_inv s (pushed @ [pkt]) outs q1" by blast
    show ?thesis using Cons.IH [OF st(2) rest] st(1) TqPush by auto
  next
    case (TqPop now limit)
    from tqPopLoop_inv [of s pushed outs "[]" q F now limit] Cons.prems(1) obtain out q1
      where st: "tqPop F now limit q = Some (out, q1)" "tq_inv s pushed (outs @ out) q1"
      by (auto simp: tqPop_def)
    show ?thesis using Cons.IH [OF st(2) rest] st(1) TqPop by auto
  qed
qed

lemma new_tq_inv: "tq_inv s [] [] (newTcpTunnelQueue s st)"
  by (simp add: newTcpTunnelQueue_def tq_inv_def tqWf_def tqItems_def sq_inv_def sq_empty_def sq_abs_def)

section \<open>Properties\<close>

text \<open>C35. TCP stream data is delivered in order and never dropped: over any sequence of pushes and
  pops on an open queue no operation panics, the large no-drop packets popped so far followed by
  those still queued are exactly the ones pushed, in push order, whatever control, priority and
  bulk traffic overtakes them; only packets that may be dropped are released; and every packet
  is popped once, released once, or still queued.\<close>

theorem tcp_queue_reliable_in_order:
  assumes "\<forall>op \<in> set ops. controlDroppable op"
  shows "\<exists>q outs. tqRun F (newTcpTunnelQueue s st) ops = Some (q, outs)
    \<and> filter (reliablePkt s) outs @ map it_pkt (sq_abs (tq_reliable q)) = filter (reliablePkt s) (tqPushes ops)
    \<and> (\<forall>p \<in> set (tq_released q). \<not> pk_noDrop p)
    \<and> mset (tqPushes ops) = mset outs + mset (map it_pkt (tqItems q)) + mset (tq_released q)
    \<and> tq_queued q = word_of_int (wires (tqItems q))"
  using tqRun_inv [OF new_tq_inv assms, of F s st] by (auto simp: tq_inv_def)

theorem tcp_queue_reliable_in_order_witness:
  "\<exists>q outs. tqRun exact_floats (newTcpTunnelQueue (newTcpQueueSettings exact_floats None 10 1500)
       \<lparr>tt_priorityPkts = 0, tt_codelDrops = 0, tt_overflowDrops = 0, tt_queuedBytes = 0, tt_maxDelay = 0\<rparr>)
     [TqPush ((demoPkt 1400)\<lparr>pk_noDrop := True\<rparr>) False 5, TqPush (demoPkt 60) True 6,
      TqPush (demoPkt 1200) False 7, TqPop 9 2] = Some (q, outs)
    \<and> filter (reliablePkt (newTcpQueueSettings exact_floats None 10 1500)) outs @ map it_pkt (sq_abs (tq_reliable q))
      = filter (reliablePkt (newTcpQueueSettings exact_floats None 10 1500))
          (tqPushes [TqPush ((demoPkt 1400)\<lparr>pk_noDrop := True\<rparr>) False 5, TqPush (demoPkt 60) True 6,
            TqPush (demoPkt 1200) False 7, TqPop 9 2])"
proof -
  have "\<forall>op \<in> set [TqPush ((demoPkt 1400)\<lparr>pk_noDrop := True\<rparr>) False 5, TqPush (demoPkt 60) True 6,
      TqPush (demoPkt 1200) False 7, TqPop 9 2]. controlDroppable op"
    by (simp add: demoPkt_def getPacketWithBuffer_def)
  from tcp_queue_reliable_in_order [OF this] show ?thesis by blast
qed

text \<open>Priority packets are never dropped by CoDel: whenever \<open>pop\<close> chooses the priority queue,
  it sends its first packet and counts no drop, however long the packet waited. The drop in the
  code asks for a credit of at most zero while bulk is waiting, but the branch is only taken when
  the credit is positive or no bulk is waiting.\<close>

theorem tcp_priority_never_codel_dropped:
  assumes "sq_inv (tq_priority q)" "sq_abs (tq_priority q) = it # rest" "sq_len (tq_control q) = 0"
    and "0 < tq_credit q \<or> sq_abs (tq_bulk q) @ sq_abs (tq_reliable q) = []"
  shows "\<exists>q'. popStep F now out q = Some (Some (out @ [it_pkt it], q')) \<and> tq_released q' = tq_released q
    \<and> tt_codelDrops (tq_stats q') = tt_codelDrops (tq_stats q)"
proof -
  obtain c where pop: "sq_pop (tq_priority q) = Some (it, c)" using sq.pop_first [OF assms(1,2)] by blast
  have len: "0 < sq_len (tq_priority q)" using assms(2) by (simp add: sq_len_abs)
  show ?thesis
    using assms(3,4) len pop
    by (auto simp: popStep_def popPick_def popPriority_def Let_def sq_len_abs tqTake_def account_def observe_def)
qed

theorem tcp_priority_never_codel_dropped_witness:
  "\<exists>q'. popStep exact_floats 90000000000 [] ((newTcpTunnelQueue (newTcpQueueSettings exact_floats None 10 1500)
       \<lparr>tt_priorityPkts = 0, tt_codelDrops = 0, tt_overflowDrops = 0, tt_queuedBytes = 0, tt_maxDelay = 0\<rparr>)
       \<lparr>tq_priority := sq_push \<lparr>it_pkt = demoPkt 60, it_addr = None, it_enq = 0, it_wire = 60\<rparr> sq_empty\<rparr>)
    = Some (Some ([demoPkt 60], q'))"
  using tcp_priority_never_codel_dropped [of "(newTcpTunnelQueue (newTcpQueueSettings exact_floats None 10 1500)
       \<lparr>tt_priorityPkts = 0, tt_codelDrops = 0, tt_overflowDrops = 0, tt_queuedBytes = 0, tt_maxDelay = 0\<rparr>)
       \<lparr>tq_priority := sq_push \<lparr>it_pkt = demoPkt 60, it_addr = None, it_enq = 0, it_wire = 60\<rparr> sq_empty\<rparr>"
      "\<lparr>it_pkt = demoPkt 60, it_addr = None, it_enq = 0, it_wire = 60\<rparr>" "[]" exact_floats 90000000000 "[]"]
  by (auto simp: newTcpTunnelQueue_def sq_push_def sq_empty_def sq_inv_def sq_abs_def sq_len_def)

end
