(* ===== verification/TcpStream.thy ===== *)
theory TcpStream
  imports Packet
begin

text \<open>
  \<open>src/tcp_stream.go\<close>: TCP streams over the packet pipeline. Frames, the endpoint settings, and
  the stream as a state machine: each handler of the code (frame, timers, read and write loop
  bodies, dial, stop) is a function from the stream to the stream, run under the stream's lock at
  one instant \<open>now\<close>. Frames to send gather in \<open>sm_out\<close> and leave with \<open>flushOut\<close>, as
  \<open>unlockAndFlush\<close> does. A connection is a flag; what is read from it is an argument, what is
  handed to it a result. \<open>sm_ends\<close> counts the calls of \<open>endLocked\<close>, each of which closes a channel
  and decrements the endpoint's counter. Goroutines started by a handler are events of their own.
\<close>

section \<open>Frames\<close>

record tcp_frame =
  fr_typ :: byte
  fr_flags :: byte
  fr_id :: conn_id
  fr_seq :: "64 word"
  fr_ack :: "64 word"
  fr_wnd :: "32 word"
  fr_payload :: bytes

definition tcpStreamMagic :: "32 word" where "tcpStreamMagic = 0x55585453"
definition tcpStreamHeaderSize :: nat where "tcpStreamHeaderSize = 36"

definition tcpFrameOpen :: byte where "tcpFrameOpen = 1"
definition tcpFrameData :: byte where "tcpFrameData = 2"
definition tcpFrameFin :: byte where "tcpFrameFin = 3"
definition tcpFrameAck :: byte where "tcpFrameAck = 4"
definition tcpFrameRst :: byte where "tcpFrameRst = 5"

definition tcpFlagFromClient :: byte where "tcpFlagFromClient = 1"
definition tcpFlagProbe :: byte where "tcpFlagProbe = 2"
definition tcpFlagOutOfOrder :: byte where "tcpFlagOutOfOrder = 4"

lemmas frame_consts = tcpFrameOpen_def tcpFrameData_def tcpFrameFin_def tcpFrameAck_def tcpFrameRst_def

unbundle bit_operations_syntax

definition hasFlag :: "byte \<Rightarrow> byte \<Rightarrow> bool" where
  "hasFlag flag flags \<longleftrightarrow> flags AND flag \<noteq> 0"

definition parseTcpFrame :: "bytes \<Rightarrow> tcp_frame option" where
  "parseTcpFrame b =
     (if length b < tcpStreamHeaderSize \<or> get_u32 b \<noteq> tcpStreamMagic then None
      else
        let f = \<lparr>fr_typ = b ! 4, fr_flags = b ! 5, fr_id = get_u64 (take 8 (drop 8 b)),
                 fr_seq = get_u64 (drop 16 b), fr_ack = get_u64 (drop 24 b),
                 fr_wnd = get_u32 (drop 32 b), fr_payload = drop 36 b\<rparr>
        in if fr_typ f < tcpFrameOpen \<or> tcpFrameRst < fr_typ f then None else Some f)"

definition tcpHeaderBytes :: "tcp_frame \<Rightarrow> bytes" where
  "tcpHeaderBytes f = put_u32 tcpStreamMagic @ [fr_typ f, fr_flags f, 0, 0] @ put_u64 (fr_id f)
     @ put_u64 (fr_seq f) @ put_u64 (fr_ack f) @ put_u32 (fr_wnd f)"

text \<open>A buffer shorter than the header makes one of the writes panic; the payload is cut to fit.\<close>

definition putTcpFrame :: "tcp_frame \<Rightarrow> slice \<Rightarrow> (slice \<times> int) option" where
  "putTcpFrame f b =
     (if sl_len b < 36 then None
      else
        let pay = take (nat (sl_len b) - 36) (fr_payload f)
        in Some (b\<lparr>sl_mem := blit (sl_mem b) 0 (tcpHeaderBytes f @ pay)\<rparr>, 36 + int (length pay)))"

section \<open>Endpoint settings\<close>

record tcp_endpoint =
  ep_client :: bool
  ep_mss :: int
  ep_window :: int
  ep_timeout :: duration
  ep_noDelay :: bool
  ep_target :: bytes

text \<open>The arguments are the fields of \<open>ComponentConfig\<close> and \<open>Config\<close> the code reads.\<close>

definition newTcpStreamEndpoint :: "int \<Rightarrow> int \<Rightarrow> bool option \<Rightarrow> bytes \<Rightarrow> router_config \<Rightarrow> bool \<Rightarrow> tcp_endpoint" where
  "newTcpStreamEndpoint windowSize timeout noDelay target rc client =
     (let window = (if windowSize \<le> 0 then 1048576 else windowSize);
          mss0 = rc_bufferSize rc - 64 - int tcpStreamHeaderSize;
          mss = (if mss0 < 256 then 256 else mss0)
      in \<lparr>ep_client = client, ep_mss = mss, ep_window = max window (2 * mss),
          ep_timeout = (if 0 < timeout then i64 (timeout * ns_second) else 60 * ns_second),
          ep_noDelay = (case noDelay of None \<Rightarrow> True | Some b \<Rightarrow> b), ep_target = target\<rparr>)"

section \<open>The stream\<close>

record tcp_segment =
  sg_seq :: "64 word"
  sg_typ :: byte
  sg_data :: bytes
  sg_sentAt :: gotime
  sg_retrans :: bool

definition seg_len :: "tcp_segment \<Rightarrow> 64 word" where
  "seg_len g = (if sg_typ g = tcpFrameData then word_of_nat (length (sg_data g)) else 1)"

record tcp_stream =
  sm_e :: tcp_endpoint
  sm_id :: conn_id
  sm_conn :: bool
  sm_connClosed :: bool
  sm_running :: bool
  sm_dialTarget :: "bytes option"
  sm_out :: "tcp_frame list"
  sm_opened :: bool
  sm_dead :: bool
  sm_finished :: bool
  sm_ends :: nat
  sm_sndUna :: "64 word"
  sm_sndNxt :: "64 word"
  sm_sndRight :: "64 word"
  sm_unacked :: "tcp_segment list"
  sm_finQueued :: bool
  sm_srtt :: duration
  sm_rttvar :: duration
  sm_rto :: duration
  sm_backoff :: nat
  sm_dupAcks :: int
  sm_recover :: "64 word"
  sm_lastProgress :: gotime
  sm_lastHeard :: gotime
  sm_timerArmed :: bool
  sm_timerDur :: duration
  sm_sendCh :: bool
  sm_rcvNxt :: "64 word"
  sm_ooo :: "(64 word \<times> tcp_segment) list"
  sm_rcvQueue :: "bytes list"
  sm_rcvQueued :: int
  sm_rcvFin :: bool
  sm_finWritten :: bool
  sm_advRight :: "64 word"
  sm_ackPending :: int
  sm_ackTimerSet :: bool
  sm_writeCh :: bool

definition newTcpStream :: "gotime \<Rightarrow> tcp_endpoint \<Rightarrow> conn_id \<Rightarrow> bool \<Rightarrow> tcp_stream" where
  "newTcpStream now e i conn = \<lparr>sm_e = e, sm_id = i, sm_conn = conn, sm_connClosed = False,
     sm_running = False, sm_dialTarget = None, sm_out = [], sm_opened = False, sm_dead = False,
     sm_finished = False, sm_ends = 0, sm_sndUna = 0, sm_sndNxt = 0, sm_sndRight = 65536,
     sm_unacked = [], sm_finQueued = False, sm_srtt = 0, sm_rttvar = 0, sm_rto = ns_second,
     sm_backoff = 0, sm_dupAcks = 0, sm_recover = 0, sm_lastProgress = now, sm_lastHeard = now,
     sm_timerArmed = False, sm_timerDur = 3600 * ns_second, sm_sendCh = False, sm_rcvNxt = 0,
     sm_ooo = [], sm_rcvQueue = [], sm_rcvQueued = 0, sm_rcvFin = False, sm_finWritten = False,
     sm_advRight = 0, sm_ackPending = 0, sm_ackTimerSet = False, sm_writeCh = False\<rparr>"

definition flushOut :: "tcp_stream \<Rightarrow> tcp_stream \<times> tcp_frame list" where
  "flushOut s = (s\<lparr>sm_out := []\<rparr>, sm_out s)"

text \<open>A frame with the zero values of the fields that are not given.\<close>

definition blankFrame :: "byte \<Rightarrow> byte \<Rightarrow> tcp_frame" where
  "blankFrame t flags = \<lparr>fr_typ = t, fr_flags = flags, fr_id = 0, fr_seq = 0, fr_ack = 0, fr_wnd = 0,
     fr_payload = []\<rparr>"

text \<open>\<open>fillAckLocked\<close> followed by the append to \<open>out\<close>, as all callers do.\<close>

definition fillAckOut :: "tcp_frame \<Rightarrow> tcp_stream \<Rightarrow> tcp_stream" where
  "fillAckOut f s =
     (let free = max (ep_window (sm_e s) - sm_rcvQueued s) 0;
          right = sm_rcvNxt s + word_of_int free
      in s\<lparr>sm_out := sm_out s @ [f\<lparr>fr_id := sm_id s, fr_ack := sm_rcvNxt s, fr_wnd := word_of_int free\<rparr>],
           sm_advRight := (if sm_advRight s < right then right else sm_advRight s),
           sm_ackPending := 0, sm_ackTimerSet := False\<rparr>)"

definition queueAck :: "byte \<Rightarrow> tcp_stream \<Rightarrow> tcp_stream" where
  "queueAck flags s = fillAckOut (blankFrame tcpFrameAck flags) s"

definition queueSegmentFrame :: "tcp_segment \<Rightarrow> tcp_stream \<Rightarrow> tcp_stream" where
  "queueSegmentFrame g s =
     fillAckOut ((blankFrame (sg_typ g) 0)\<lparr>fr_seq := sg_seq g, fr_payload := sg_data g\<rparr>) s"

definition armTimer :: "tcp_stream \<Rightarrow> tcp_stream" where
  "armTimer s =
     (if sm_dead s \<or> sm_unacked s = [] \<and> (sm_sndNxt s < sm_sndRight s \<or> sm_finQueued s)
      then (if sm_timerArmed s then s\<lparr>sm_timerArmed := False\<rparr> else s)
      else s\<lparr>sm_timerDur := min (i64 (sm_rto s * 2 ^ sm_backoff s)) (10 * ns_second), sm_timerArmed := True\<rparr>)"

definition queueSegment :: "gotime \<Rightarrow> byte \<Rightarrow> bytes \<Rightarrow> tcp_stream \<Rightarrow> tcp_stream" where
  "queueSegment now typ data s =
     (let g = \<lparr>sg_seq = sm_sndNxt s, sg_typ = typ, sg_data = data, sg_sentAt = now, sg_retrans = False\<rparr>;
          s1 = s\<lparr>sm_unacked := sm_unacked s @ [g], sm_sndNxt := sm_sndNxt s + seg_len g\<rparr>;
          s2 = (if typ = tcpFrameFin then s1\<lparr>sm_finQueued := True\<rparr> else s1);
          s3 = queueSegmentFrame g s2
      in if \<not> sm_timerArmed s3 then armTimer s3 else s3)"

section \<open>Ending a stream\<close>

definition endStream :: "tcp_stream \<Rightarrow> tcp_stream" where
  "endStream s = s\<lparr>sm_dead := True, sm_ends := sm_ends s + 1, sm_timerArmed := False, sm_ackTimerSet := False,
     sm_unacked := [], sm_ooo := [], sm_rcvQueue := []\<rparr>"

definition maybeFinish :: "tcp_stream \<Rightarrow> tcp_stream" where
  "maybeFinish s =
     (if sm_dead s \<or> \<not> sm_finQueued s \<or> sm_sndUna s \<noteq> sm_sndNxt s \<or> \<not> sm_finWritten s then s
      else
        let s1 = endStream (s\<lparr>sm_finished := True\<rparr>)
        in if sm_conn s1 then s1\<lparr>sm_connClosed := True\<rparr> else s1)"

definition rstFrame :: "tcp_stream \<Rightarrow> tcp_frame" where
  "rstFrame s = (blankFrame tcpFrameRst 0)\<lparr>fr_id := sm_id s\<rparr>"

definition abortStream :: "bool \<Rightarrow> tcp_stream \<Rightarrow> tcp_stream" where
  "abortStream notifyPeer s =
     (if sm_dead s then s
      else
        let s1 = (if notifyPeer then s\<lparr>sm_out := sm_out s @ [rstFrame s]\<rparr> else s);
            s2 = endStream s1
        in if sm_conn s2 then s2\<lparr>sm_connClosed := True\<rparr> else s2)"

section \<open>Acknowledgements\<close>

definition updateRTT :: "duration \<Rightarrow> tcp_stream \<Rightarrow> tcp_stream" where
  "updateRTT rtt s =
     (let s1 = (if sm_srtt s = 0 then s\<lparr>sm_srtt := rtt, sm_rttvar := go_quot rtt 2\<rparr>
                else
                  let diff = (if sm_srtt s - rtt < 0 then - (sm_srtt s - rtt) else sm_srtt s - rtt)
                  in s\<lparr>sm_rttvar := go_quot (i64 (3 * sm_rttvar s + diff)) 4,
                       sm_srtt := go_quot (i64 (7 * sm_srtt s + rtt)) 8\<rparr>);
          rto = i64 (sm_srtt s1 + 4 * sm_rttvar s1)
      in s1\<lparr>sm_rto := (if rto < 200 * ns_milli then 200 * ns_milli
                       else if 10 * ns_second < rto then 10 * ns_second else rto)\<rparr>)"

definition fastRetransmit :: "gotime \<Rightarrow> tcp_stream \<Rightarrow> tcp_stream" where
  "fastRetransmit now s = (case sm_unacked s of
     [] \<Rightarrow> s
   | g # gs \<Rightarrow>
       if time_sub now (sg_sentAt g) < i64 (sm_srtt s + go_quot (sm_srtt s) 4) then s
       else
         let g' = g\<lparr>sg_retrans := True, sg_sentAt := now\<rparr>
         in queueSegmentFrame g' (s\<lparr>sm_unacked := g' # gs\<rparr>))"

definition ackedBy :: "64 word \<Rightarrow> tcp_segment \<Rightarrow> bool" where
  "ackedBy ack g \<longleftrightarrow> sg_seq g + seg_len g \<le> ack"

definition processNewAck :: "gotime \<Rightarrow> 64 word \<Rightarrow> tcp_stream \<Rightarrow> tcp_stream" where
  "processNewAck now ack s =
     (let s1 = (case takeWhile (ackedBy ack) (sm_unacked s) of
                  [] \<Rightarrow> s
                | g # _ \<Rightarrow> if \<not> sg_retrans g then updateRTT (time_sub now (sg_sentAt g)) s else s);
          s2 = s1\<lparr>sm_unacked := dropWhile (ackedBy ack) (sm_unacked s1), sm_sndUna := ack, sm_backoff := 0,
                  sm_dupAcks := 0, sm_lastProgress := now\<rparr>;
          s3 = (if ack < sm_recover s2 then fastRetransmit now s2 else s2)
      in armTimer s3)"

definition processDupAck :: "gotime \<Rightarrow> tcp_stream \<Rightarrow> tcp_stream" where
  "processDupAck now s =
     (let s1 = s\<lparr>sm_dupAcks := sm_dupAcks s + 1\<rparr>
      in if sm_dupAcks s1 = 3 then fastRetransmit now (s1\<lparr>sm_recover := sm_sndNxt s1\<rparr>) else s1)"

definition processAck :: "gotime \<Rightarrow> tcp_frame \<Rightarrow> tcp_stream \<Rightarrow> tcp_stream" where
  "processAck now f s =
     (if sm_sndNxt s < fr_ack f then s
      else
        let s1 = (if sm_sndUna s < fr_ack f then processNewAck now (fr_ack f) s
                  else if fr_ack f = sm_sndUna s \<and> hasFlag tcpFlagOutOfOrder (fr_flags f) \<and> sm_unacked s \<noteq> []
                  then processDupAck now s else s);
            right = fr_ack f + ucast (fr_wnd f);
            s2 = (if sm_sndRight s1 < right
                  then let s' = s1\<lparr>sm_sndRight := right\<rparr> in if \<not> sm_timerArmed s' then armTimer s' else s'
                  else s1)
        in if sm_sndNxt s2 < sm_sndRight s2 then s2\<lparr>sm_sendCh := True\<rparr> else s2)"

section \<open>Segments\<close>

definition deliver :: "tcp_segment \<Rightarrow> tcp_stream \<Rightarrow> tcp_stream" where
  "deliver g s0 =
     (let s = s0\<lparr>sm_rcvNxt := sm_rcvNxt s0 + seg_len g\<rparr>
      in if sg_typ g = tcpFrameOpen then
           (if \<not> ep_client (sm_e s) \<and> \<not> sm_opened s
            then s\<lparr>sm_opened := True,
                   sm_dialTarget := Some (if ep_target (sm_e s) = [] then sg_data g else ep_target (sm_e s))\<rparr>
            else s)
         else if sg_typ g = tcpFrameData then
           (if sg_data g \<noteq> []
            then s\<lparr>sm_rcvQueue := sm_rcvQueue s @ [sg_data g],
                   sm_rcvQueued := sm_rcvQueued s + int (length (sg_data g)), sm_writeCh := True\<rparr>
            else s)
         else if sg_typ g = tcpFrameFin then s\<lparr>sm_rcvFin := True, sm_writeCh := True\<rparr>
         else s)"

text \<open>The out-of-order map is an association list without duplicate keys.\<close>

definition oooDelete :: "64 word \<Rightarrow> (64 word \<times> tcp_segment) list \<Rightarrow> (64 word \<times> tcp_segment) list" where
  "oooDelete k m = filter (\<lambda>(k', g). k' \<noteq> k) m"

lemma oooDelete_shorter: "map_of m k = Some g \<Longrightarrow> length (oooDelete k m) < length m"
  by (induction m) (auto simp: oooDelete_def less_Suc_eq_le split: if_split_asm)

lemma deliver_ooo [simp]: "sm_ooo (deliver g s) = sm_ooo s"
  by (simp add: deliver_def Let_def)

function deliverOoo :: "tcp_stream \<Rightarrow> tcp_stream \<times> bool" where
  "deliverOoo s = (case map_of (sm_ooo s) (sm_rcvNxt s) of
     None \<Rightarrow> (s, False)
   | Some g \<Rightarrow> (fst (deliverOoo (deliver g (s\<lparr>sm_ooo := oooDelete (sm_rcvNxt s) (sm_ooo s)\<rparr>))), True))"
  by auto
termination
  by (relation "measure (\<lambda>s. length (sm_ooo s))") (auto intro: oooDelete_shorter)

declare deliverOoo.simps [simp del]

definition processSegment :: "tcp_frame \<Rightarrow> tcp_stream \<Rightarrow> tcp_stream" where
  "processSegment f s =
     (let g = \<lparr>sg_seq = fr_seq f, sg_typ = fr_typ f,
               sg_data = (if fr_typ f \<noteq> tcpFrameFin then fr_payload f else []),
               sg_sentAt = zero_time, sg_retrans = False\<rparr>;
          end' = sg_seq g + seg_len g
      in if end' \<le> sm_rcvNxt s then queueAck 0 s
         else if sg_seq g \<noteq> sm_rcvNxt s then
           queueAck tcpFlagOutOfOrder
             (if sm_rcvNxt s < sg_seq g \<and> end' \<le> sm_rcvNxt s + word_of_int (ep_window (sm_e s))
                 \<and> map_of (sm_ooo s) (sg_seq g) = None
              then s\<lparr>sm_ooo := (sg_seq g, g) # sm_ooo s\<rparr> else s)
         else if sg_typ g = tcpFrameData \<and>
             ep_window (sm_e s) + ep_mss (sm_e s) < sm_rcvQueued s + int (length (sg_data g)) then s
         else
           let (s1, filled) = deliverOoo (deliver g s);
               s2 = s1\<lparr>sm_ackPending := sm_ackPending s1 + 1\<rparr>
           in if filled \<or> sg_typ g \<noteq> tcpFrameData \<or> 2 \<le> sm_ackPending s2 then queueAck 0 s2
              else if \<not> sm_ackTimerSet s2 then s2\<lparr>sm_ackTimerSet := True\<rparr>
              else s2)"

section \<open>The handlers\<close>

definition handleDead :: "tcp_frame \<Rightarrow> tcp_stream \<Rightarrow> tcp_stream" where
  "handleDead f s =
     (if fr_typ f = tcpFrameRst then s
      else if sm_finished s then
        (if fr_typ f \<noteq> tcpFrameAck \<or> hasFlag tcpFlagProbe (fr_flags f) then queueAck 0 s else s)
      else s\<lparr>sm_out := sm_out s @ [rstFrame s]\<rparr>)"

definition handleFrame :: "gotime \<Rightarrow> tcp_frame \<Rightarrow> tcp_stream \<Rightarrow> tcp_stream" where
  "handleFrame now f s0 =
     (if sm_dead s0 then handleDead f s0
      else
        let s = s0\<lparr>sm_lastHeard := now\<rparr>
        in if fr_typ f = tcpFrameRst then abortStream False s
           else
             let s1 = processAck now f s;
                 s2 = (if fr_typ f \<in> {tcpFrameOpen, tcpFrameData, tcpFrameFin} then processSegment f s1 else s1);
                 s3 = (if hasFlag tcpFlagProbe (fr_flags f) \<and> sm_out s2 = [] then queueAck 0 s2 else s2)
             in maybeFinish s3)"

text \<open>The loop of \<open>onTimer\<close> that resends every unacknowledged segment.\<close>

definition resendAll :: "gotime \<Rightarrow> tcp_stream \<Rightarrow> tcp_stream" where
  "resendAll now s =
     (let gs = map (\<lambda>g. g\<lparr>sg_retrans := True, sg_sentAt := now\<rparr>) (sm_unacked s)
      in fold queueSegmentFrame gs (s\<lparr>sm_unacked := gs\<rparr>))"

definition onTimer :: "gotime \<Rightarrow> tcp_stream \<Rightarrow> tcp_stream" where
  "onTimer now s0 =
     (let s = s0\<lparr>sm_timerArmed := False\<rparr> in
      if sm_dead s then s
      else if sm_unacked s \<noteq> [] \<and> ep_timeout (sm_e s) < time_sub now (sm_lastProgress s)
      then abortStream True s
      else if sm_unacked s = [] \<and> ep_timeout (sm_e s) < time_sub now (sm_lastHeard s)
      then abortStream True s
      else
        let s1 = (if sm_unacked s \<noteq> [] then resendAll now s else queueAck tcpFlagProbe s);
            s2 = (if sm_backoff s1 < 6 then s1\<lparr>sm_backoff := sm_backoff s1 + 1\<rparr> else s1)
        in armTimer s2)"

definition onAckTimer :: "tcp_stream \<Rightarrow> tcp_stream" where
  "onAckTimer s0 =
     (let s = s0\<lparr>sm_ackTimerSet := False\<rparr>
      in if \<not> sm_dead s \<and> 0 < sm_ackPending s then queueAck 0 s else s)"

definition checkOpened :: "tcp_stream \<Rightarrow> tcp_stream" where
  "checkOpened s = (if \<not> sm_opened s \<and> \<not> sm_dead s then abortStream True s else s)"

text \<open>\<open>dial\<close> after the connection attempt: \<open>ok\<close> tells whether it succeeded. A connection that
  comes too late is closed without touching the stream.\<close>

definition dialDone :: "bool \<Rightarrow> tcp_stream \<Rightarrow> tcp_stream" where
  "dialDone ok s =
     (if \<not> ok then abortStream True s
      else if sm_dead s then s
      else s\<lparr>sm_conn := True, sm_running := True\<rparr>)"

text \<open>\<open>readLoop\<close>: how much it asks of the connection when it may read, and the body after a read.\<close>

definition readSpace :: "tcp_stream \<Rightarrow> int option" where
  "readSpace s =
     (let space = i64 (sint (sm_sndRight s) - sint (sm_sndNxt s)) in
      if \<not> sm_dead s \<and> (ep_mss (sm_e s) \<le> space \<or> 0 < space \<and> sm_unacked s = [])
      then Some (min (sint (sm_sndRight s - sm_sndNxt s)) (ep_mss (sm_e s))) else None)"

definition readWait :: "tcp_stream \<Rightarrow> tcp_stream" where
  "readWait s = (if \<not> sm_dead s \<and> readSpace s = None \<and> \<not> sm_timerArmed s then armTimer s else s)"

datatype read_error = EndOfFile | ReadFailed

definition readDone :: "gotime \<Rightarrow> bytes \<Rightarrow> read_error option \<Rightarrow> tcp_stream \<Rightarrow> tcp_stream" where
  "readDone now data err s =
     (if sm_dead s then s
      else
        let s1 = (if data \<noteq> [] then queueSegment now tcpFrameData data s else s)
        in case err of
            None \<Rightarrow> s1
          | Some EndOfFile \<Rightarrow> maybeFinish (queueSegment now tcpFrameFin [] s1)
          | Some ReadFailed \<Rightarrow> abortStream True s1)"

text \<open>\<open>writeLoop\<close>: it takes the whole queue, or closes the write side after the last byte.\<close>

definition writeTake :: "tcp_stream \<Rightarrow> tcp_stream \<times> bytes list" where
  "writeTake s =
     (if sm_dead s then (s, [])
      else if sm_rcvQueue s = [] then
        (if sm_rcvFin s then (maybeFinish (s\<lparr>sm_finWritten := True\<rparr>), []) else (s, []))
      else (s\<lparr>sm_rcvQueue := []\<rparr>, sm_rcvQueue s))"

definition writeDone :: "int \<Rightarrow> bool \<Rightarrow> tcp_stream \<Rightarrow> tcp_stream" where
  "writeDone n failed s =
     (if failed then abortStream True s
      else
        let s1 = s\<lparr>sm_rcvQueued := sm_rcvQueued s - n\<rparr>
        in if sm_advRight s1 + word_of_int (go_quot (ep_window (sm_e s1)) 4)
              \<le> sm_rcvNxt s1 + word_of_int (max (ep_window (sm_e s1) - sm_rcvQueued s1) 0)
           then queueAck 0 s1 else s1)"

text \<open>\<open>open\<close> on an accepted connection.\<close>

definition openStream :: "gotime \<Rightarrow> tcp_endpoint \<Rightarrow> conn_id \<Rightarrow> bytes \<Rightarrow> tcp_stream" where
  "openStream now e i target =
     (queueSegment now tcpFrameOpen target (newTcpStream now e i True))\<lparr>sm_running := True\<rparr>"

section \<open>The endpoint\<close>

text \<open>
  \<open>send\<close>: the frame as a packet for the detour, in a pool buffer with contents \<open>m\<close>. The router
  call and the release that follow are those of every component.
\<close>

definition markClient :: "tcp_endpoint \<Rightarrow> tcp_frame \<Rightarrow> tcp_frame" where
  "markClient e f = (if ep_client e then f\<lparr>fr_flags := fr_flags f OR tcpFlagFromClient\<rparr> else f)"

definition sendFrame :: "router_config \<Rightarrow> bytes \<Rightarrow> string \<Rightarrow> tcp_endpoint \<Rightarrow> tcp_frame \<Rightarrow> packet option" where
  "sendFrame c m tag e f0 = do {
     let f = markClient e f0;
     let p = getPacket c m tag;
     b \<leftarrow> bufAtOffset p;
     (b', n) \<leftarrow> putTcpFrame f b;
     Some (p\<lparr>pk_buf := (pk_buf p)\<lparr>sl_mem := take (nat (pk_offset p)) (sl_mem (pk_buf p)) @ sl_mem b'\<rparr>,
             pk_length := n, pk_connID := fr_id f, pk_noDrop := True\<rparr>)
   }"

text \<open>
  The streams of all endpoints by id and side (\<open>tcpStreams\<close>), the ids of this endpoint's own, its
  counter and its flag.
\<close>

record tcp_streams =
  ts_streams :: "(conn_id \<times> bool) \<rightharpoonup> tcp_stream"
  ts_own :: "conn_id list"
  ts_active :: int
  ts_stopped :: bool

text \<open>
  A handler of the stream at \<open>key\<close> has run: its frames leave, and if it ended there the counter
  drops (\<open>endLocked\<close>).
\<close>

definition storeStream :: "conn_id \<times> bool \<Rightarrow> tcp_stream \<Rightarrow> nat \<Rightarrow> tcp_streams \<Rightarrow> tcp_streams \<times> tcp_frame list" where
  "storeStream key s ends w =
     (let (s', out) = flushOut s
      in (w\<lparr>ts_streams := (ts_streams w)(key \<mapsto> s'), ts_active := ts_active w - int (sm_ends s - ends)\<rparr>, out))"

definition track :: "conn_id \<Rightarrow> tcp_streams \<Rightarrow> tcp_streams" where
  "track i w = w\<lparr>ts_own := List.insert i (ts_own w), ts_active := ts_active w + 1\<rparr>"

text \<open>\<open>handlePacket\<close> on the packet's bytes. The result carries the frames to send.\<close>

definition endpointPacket :: "gotime \<Rightarrow> tcp_endpoint \<Rightarrow> bytes \<Rightarrow> tcp_streams \<Rightarrow> tcp_streams \<times> tcp_frame list" where
  "endpointPacket now e b w = (case parseTcpFrame b of
     None \<Rightarrow> (w, [])
   | Some f \<Rightarrow>
       if hasFlag tcpFlagFromClient (fr_flags f) = ep_client e then (w, [])
       else
         let key = (fr_id f, ep_client e) in
         case ts_streams w key of
           Some s \<Rightarrow> storeStream key (handleFrame now f s) (sm_ends s) w
         | None \<Rightarrow>
             if fr_typ f = tcpFrameRst then (w, [])
             else if ep_client e \<or> fr_typ f = tcpFrameAck \<or> ts_stopped w
             then (w, [(blankFrame tcpFrameRst 0)\<lparr>fr_id := fr_id f\<rparr>])
             else storeStream key (handleFrame now f (newTcpStream now e (fr_id f) False)) 0 (track (fr_id f) w))"

text \<open>\<open>stop\<close>: every stream of the endpoint is reset. The linger timer forgets an ended stream.\<close>

fun stopAll :: "bool \<Rightarrow> conn_id list \<Rightarrow> tcp_streams \<Rightarrow> tcp_streams \<times> tcp_frame list" where
  "stopAll client [] w = (w, [])"
| "stopAll client (i # is) w = (case ts_streams w (i, client) of
     None \<Rightarrow> stopAll client is w
   | Some s \<Rightarrow>
       let (w1, out1) = storeStream (i, client) (abortStream True s) (sm_ends s) w;
           (w2, out2) = stopAll client is w1
       in (w2, out1 @ out2))"

definition stopEndpoint :: "tcp_endpoint \<Rightarrow> tcp_streams \<Rightarrow> tcp_streams \<times> tcp_frame list" where
  "stopEndpoint e w = stopAll (ep_client e) (ts_own w) (w\<lparr>ts_stopped := True\<rparr>)"

definition lingerDone :: "tcp_endpoint \<Rightarrow> conn_id \<Rightarrow> tcp_streams \<Rightarrow> tcp_streams" where
  "lingerDone e i w = w\<lparr>ts_streams := (ts_streams w)((i, ep_client e) := None), ts_own := removeAll i (ts_own w)\<rparr>"

section \<open>Frames survive the wire\<close>

lemma tcpHeaderBytes_len [simp]: "length (tcpHeaderBytes f) = 36"
  by (simp add: tcpHeaderBytes_def)

lemma tcpHeaderBytes_parts:
  "get_u32 (tcpHeaderBytes f @ xs) = tcpStreamMagic"
  "(tcpHeaderBytes f @ xs) ! 4 = fr_typ f" "(tcpHeaderBytes f @ xs) ! 5 = fr_flags f"
  "get_u64 (take 8 (drop 8 (tcpHeaderBytes f @ xs))) = fr_id f"
  "get_u64 (drop 16 (tcpHeaderBytes f @ xs)) = fr_seq f" "get_u64 (drop 24 (tcpHeaderBytes f @ xs)) = fr_ack f"
  "get_u32 (drop 32 (tcpHeaderBytes f @ xs)) = fr_wnd f" "drop 36 (tcpHeaderBytes f @ xs) = xs"
  by (simp_all add: tcpHeaderBytes_def nth_append)

lemma parse_put_bytes:
  assumes "tcpFrameOpen \<le> fr_typ f" "fr_typ f \<le> tcpFrameRst"
  shows "parseTcpFrame (tcpHeaderBytes f @ fr_payload f) = Some f"
  using assms tcpHeaderBytes_parts [of f "fr_payload f"]
  by (simp add: parseTcpFrame_def tcpStreamHeaderSize_def not_less)


lemma sendFrame_bytes:
  assumes c: "0 \<le> rc_bufferOffset c" "36 + int (length (fr_payload f)) \<le> rc_bufferSize c"
    and m: "pool_mem c m"
  shows "\<exists>p. sendFrame c m tag e f = Some p \<and> pk_wf c p \<and>
    pk_bytes p = tcpHeaderBytes (markClient e f) @ fr_payload f \<and> pk_noDrop p \<and> pk_connID p = fr_id f"
proof -
  let ?f = "markClient e f" and ?o = "nat (rc_bufferOffset c)"
  have lm: "int (length m) = rc_bufferSize c + rc_bufferOffset c" using m by (simp add: pool_mem_def poolSize_def)
  have o: "?o \<le> length m" "36 + length (fr_payload f) \<le> length m - ?o" using c lm by linarith+
  have pay: "fr_payload ?f = fr_payload f" "fr_id ?f = fr_id f" by (simp_all add: markClient_def)
  let ?b = "\<lparr>sl_mem = drop ?o m, sl_len = int (length m) - rc_bufferOffset c\<rparr>"
  have b: "bufAtOffset (getPacket c m tag) = Some ?b"
    using c lm by (simp add: bufAtOffset_def sl_from_def sl_range_def getPacket_def getPacketWithBuffer_def
        full_slice_def sl_cap_def)
  have tk: "take (nat (int (length m) - rc_bufferOffset c) - 36) (fr_payload f) = fr_payload f"
    using o c by simp
  let ?mem = "blit (drop ?o m) 0 (tcpHeaderBytes ?f @ fr_payload f)"
  have "putTcpFrame ?f ?b = Some (?b\<lparr>sl_mem := ?mem\<rparr>, 36 + int (length (fr_payload f)))"
    using c lm tk by (simp add: putTcpFrame_def Let_def pay)
  then have s: "sendFrame c m tag e f = Some ((getPacket c m tag)\<lparr>
      pk_buf := (full_slice m)\<lparr>sl_mem := take ?o m @ ?mem\<rparr>,
      pk_length := 36 + int (length (fr_payload f)), pk_connID := fr_id f, pk_noDrop := True\<rparr>)" (is "_ = Some ?p")
    unfolding sendFrame_def Let_def b
    by (simp add: pay getPacket_def getPacketWithBuffer_def full_slice_def)
  have "?mem = (tcpHeaderBytes ?f @ fr_payload f) @ drop (36 + length (fr_payload f)) (drop ?o m)"
    using o by (subst blit_fits) simp_all
  then have "pk_bytes ?p = tcpHeaderBytes ?f @ fr_payload f"
    using o c by (simp add: pk_bytes_def full_slice_def getPacket_def getPacketWithBuffer_def nat_add_distrib)
  moreover have "pk_wf c ?p"
    using c lm o by (simp add: pk_wf_def pool_mem_def poolSize_def full_slice_def getPacket_def getPacketWithBuffer_def)
  ultimately show ?thesis using s by simp
qed

section \<open>Properties\<close>

text \<open>Frames survive the wire: a frame with a valid type, sent into a pool buffer with room for
  it, is parsed by the receiver from the packet's bytes as the same frame, with the sender's side
  marked in its flags; its packet carries the stream's id and must not be dropped.\<close>

theorem tcp_frame_roundtrip:
  assumes c: "0 \<le> rc_bufferOffset c" "36 + int (length (fr_payload f)) \<le> rc_bufferSize c"
    and m: "pool_mem c m" and t: "tcpFrameOpen \<le> fr_typ f" "fr_typ f \<le> tcpFrameRst"
  shows "\<exists>p. sendFrame c m tag e f = Some p \<and> pk_wf c p \<and> pk_noDrop p \<and> pk_connID p = fr_id f
    \<and> parseTcpFrame (pk_bytes p) = Some (markClient e f)"
proof -
  have "tcpFrameOpen \<le> fr_typ (markClient e f)" "fr_typ (markClient e f) \<le> tcpFrameRst"
      "fr_payload (markClient e f) = fr_payload f"
    using t by (simp_all add: markClient_def)
  then show ?thesis using sendFrame_bytes [OF c m] parse_put_bytes [of "markClient e f"] by fastforce
qed

definition demoEndpoint :: "bool \<Rightarrow> tcp_endpoint" where
  "demoEndpoint client = \<lparr>ep_client = client, ep_mss = 300, ep_window = 1000, ep_timeout = 60 * ns_second,
     ep_noDelay = True, ep_target = []\<rparr>"

theorem tcp_frame_roundtrip_witness:
  "\<exists>p. sendFrame \<lparr>rc_bufferSize = 100, rc_bufferOffset = 64, rc_queueSize = 8, rc_workerCount = 1\<rparr>
      (replicate 164 0) ''t'' (demoEndpoint True)
      ((blankFrame tcpFrameData 0)\<lparr>fr_seq := 7, fr_payload := [1, 2, 3]\<rparr>) = Some p
    \<and> parseTcpFrame (pk_bytes p)
      = Some (markClient (demoEndpoint True) ((blankFrame tcpFrameData 0)\<lparr>fr_seq := 7, fr_payload := [1, 2, 3]\<rparr>))"
  using tcp_frame_roundtrip [of "\<lparr>rc_bufferSize = 100, rc_bufferOffset = 64, rc_queueSize = 8, rc_workerCount = 1\<rparr>"
      "(blankFrame tcpFrameData 0)\<lparr>fr_seq := 7, fr_payload := [1, 2, 3]\<rparr>" "replicate 164 0" "''t''" "demoEndpoint True"]
  by (auto simp: blankFrame_def frame_consts pool_mem_def poolSize_def)

text \<open>The retransmission timer never runs away: from a round trip sample that fits the clock,
  the timeout stays between 200 milliseconds and ten seconds, and with any backoff the code can
  reach, the timer is set to a positive duration of at most ten seconds, without overflow.\<close>

theorem rto_bounded:
  assumes "200 * ns_milli \<le> sm_rto s" "sm_rto s \<le> 10 * ns_second" "sm_backoff s \<le> 6"
  shows "200 * ns_milli \<le> sm_rto (updateRTT rtt s) \<and> sm_rto (updateRTT rtt s) \<le> 10 * ns_second
    \<and> (sm_timerArmed (armTimer s) \<and> \<not> sm_timerArmed s \<longrightarrow>
        200 * ns_milli \<le> sm_timerDur (armTimer s) \<and> sm_timerDur (armTimer s) \<le> 10 * ns_second)"
proof -
  have "(2 :: int) ^ sm_backoff s \<le> 2 ^ 6" using assms(3) by (intro power_increasing) auto
  then have p: "1 \<le> (2 :: int) ^ sm_backoff s" "(2 :: int) ^ sm_backoff s \<le> 64" by simp_all
  have lo: "sm_rto s * 1 \<le> sm_rto s * 2 ^ sm_backoff s"
    using p(1) assms(1) by (intro mult_left_mono) (auto simp: ns_milli_def)
  have hi: "sm_rto s * 2 ^ sm_backoff s \<le> (10 * ns_second) * 64"
    using p assms by (intro mult_mono) (auto simp: ns_second_def ns_milli_def)
  have pos: "0 \<le> sm_rto s * 2 ^ sm_backoff s" using assms(1) by (simp add: ns_milli_def)
  have "i64 (sm_rto s * 2 ^ sm_backoff s) = sm_rto s * 2 ^ sm_backoff s"
    using hi pos by (intro i64_id) (simp_all add: min_i64_def max_i64_def ns_second_def)
  moreover have "200 * ns_milli \<le> sm_rto s * 2 ^ sm_backoff s" using lo assms(1) by linarith
  ultimately show ?thesis
    using assms by (simp add: armTimer_def updateRTT_def Let_def ns_second_def ns_milli_def)
qed

theorem rto_bounded_witness:
  "200 * ns_milli \<le> sm_rto (updateRTT 5000000 (newTcpStream 0 (demoEndpoint True) 1 True))"
  using rto_bounded [of "newTcpStream 0 (demoEndpoint True) 1 True" 5000000]
  by (simp add: newTcpStream_def ns_milli_def ns_second_def)

end
