(* ===== verification/TcpStreamSys.thy ===== *)
theory TcpStreamSys
  imports TcpStream "HOL-Library.Sublist"
begin

text \<open>
  Two ends of a TCP stream of \<open>src/tcp_stream.go\<close> over a network that loses, duplicates and
  reorders frames: a step relation whose steps are the handlers of \<open>TcpStream\<close> at either end. The
  invariant ties each end to the list of segments the other end has queued; the main result is
  that what one end hands to its connection is a prefix of what the other end read from its own.
\<close>

section \<open>Segment histories\<close>

text \<open>A history is the list of types and payloads queued so far; offsets are sequence numbers.\<close>

type_synonym history = "(byte \<times> bytes) list"

definition slen :: "byte \<times> bytes \<Rightarrow> nat" where
  "slen p = (if fst p = tcpFrameData then length (snd p) else 1)"

definition off :: "history \<Rightarrow> nat \<Rightarrow> nat" where
  "off h i = sum_list (map slen (take i h))"

text \<open>No empty data segments, FIN carries nothing, and sequence numbers do not wrap.\<close>

definition hist_ok :: "history \<Rightarrow> bool" where
  "hist_ok h \<longleftrightarrow> (\<forall>p \<in> set h. fst p \<in> {tcpFrameOpen, tcpFrameData, tcpFrameFin}
       \<and> (fst p = tcpFrameData \<longrightarrow> snd p \<noteq> []) \<and> (fst p = tcpFrameFin \<longrightarrow> snd p = []))
     \<and> off h (length h) < 2 ^ 64"

definition hist_data :: "history \<Rightarrow> bytes" where
  "hist_data h = concat (map snd (filter (\<lambda>p. fst p = tcpFrameData) h))"

lemma off_0 [simp]: "off h 0 = 0"
  by (simp add: off_def)

lemma off_Suc: "i < length h \<Longrightarrow> off h (Suc i) = off h i + slen (h ! i)"
  by (simp add: off_def take_Suc_conv_app_nth)

lemma off_append [simp]: "i \<le> length h \<Longrightarrow> off (h @ h') i = off h i"
  by (simp add: off_def)

lemma off_snoc: "off (h @ [p]) (Suc (length h)) = off h (length h) + slen p"
  by (simp add: off_def)

lemma slen_pos: "hist_ok h \<Longrightarrow> i < length h \<Longrightarrow> 0 < slen (h ! i)"
  using nth_mem [of i h] by (auto simp: hist_ok_def slen_def frame_consts)

lemma off_strict:
  assumes "hist_ok h" "i < j" "j \<le> length h"
  shows "off h i < off h j"
  using assms(2,3)
proof (induction j)
  case 0
  then show ?case by simp
next
  case (Suc j)
  then have "off h j < off h (Suc j)" using slen_pos [OF assms(1), of j] by (simp add: off_Suc)
  with Suc show ?case by (cases "i = j") auto
qed

lemma off_mono: "hist_ok h \<Longrightarrow> i \<le> j \<Longrightarrow> j \<le> length h \<Longrightarrow> off h i \<le> off h j"
  using off_strict [of h i j] by (cases "i = j") auto

lemma off_bound: "hist_ok h \<Longrightarrow> i \<le> length h \<Longrightarrow> off h i < 2 ^ 64"
  using off_mono [of h i "length h"] by (simp add: hist_ok_def)

definition offw :: "history \<Rightarrow> nat \<Rightarrow> 64 word" where
  "offw h i = word_of_nat (off h i)"

lemma unat_offw: "hist_ok h \<Longrightarrow> i \<le> length h \<Longrightarrow> unat (offw h i) = off h i"
  using off_bound [of h i] by (simp add: offw_def unat_of_nat)

lemma offw_le: "hist_ok h \<Longrightarrow> i \<le> length h \<Longrightarrow> j \<le> length h \<Longrightarrow> offw h i \<le> offw h j \<longleftrightarrow> i \<le> j"
  using off_strict [of h j i] off_mono [of h i j]
  by (auto simp: word_le_nat_alt unat_offw not_le [symmetric])

lemma offw_less: "hist_ok h \<Longrightarrow> i \<le> length h \<Longrightarrow> j \<le> length h \<Longrightarrow> offw h i < offw h j \<longleftrightarrow> i < j"
  using offw_le [of h j i] by (simp add: not_le [symmetric])

lemma offw_eq: "hist_ok h \<Longrightarrow> i \<le> length h \<Longrightarrow> j \<le> length h \<Longrightarrow> offw h i = offw h j \<longleftrightarrow> i = j"
  using offw_le [of h i j] offw_le [of h j i] by auto

lemma offw_append [simp]: "i \<le> length h \<Longrightarrow> offw (h @ h') i = offw h i"
  by (simp add: offw_def)

lemma hist_ok_append: "hist_ok (h @ h') \<Longrightarrow> hist_ok h"
  using off_mono [of "h @ h'" "length h" "length (h @ h')"] by (auto simp: hist_ok_def)

text \<open>A segment or a frame that carries the \<open>i\<close>-th entry of a history.\<close>

definition segAt :: "history \<Rightarrow> nat \<Rightarrow> tcp_segment \<Rightarrow> bool" where
  "segAt h i g \<longleftrightarrow> i < length h \<and> sg_seq g = offw h i \<and> (sg_typ g, sg_data g) = h ! i"

definition frameAt :: "history \<Rightarrow> nat \<Rightarrow> tcp_frame \<Rightarrow> bool" where
  "frameAt h i f \<longleftrightarrow> i < length h \<and> fr_seq f = offw h i \<and> (fr_typ f, fr_payload f) = h ! i"

lemma segAt_end:
  assumes "segAt h i g"
  shows "sg_seq g + seg_len g = offw h (Suc i)"
proof -
  have "seg_len g = word_of_nat (slen (h ! i))"
    using assms by (auto simp: segAt_def seg_len_def slen_def dest: sym)
  then show ?thesis using assms by (simp add: segAt_def offw_def off_Suc)
qed

lemma segAt_unique:
  assumes "hist_ok h" "segAt h i g" "sg_seq g = offw h m" "m \<le> length h"
  shows "i = m"
proof -
  have "i < length h" "offw h i = offw h m" using assms(2,3) unfolding segAt_def by simp_all
  then show ?thesis using offw_eq [OF assms(1), of i m] assms(4) by simp
qed

lemma segAt_append: "segAt h i g \<Longrightarrow> segAt (h @ h') i g"
  by (auto simp: segAt_def nth_append)

lemma frameAt_append: "frameAt h i f \<Longrightarrow> frameAt (h @ h') i f"
  by (auto simp: frameAt_def nth_append)

section \<open>The invariant of one end\<close>

text \<open>
  \<open>hs\<close> and \<open>hp\<close> are the histories of this end and of the peer, \<open>m\<close> how many of the peer's
  segments were delivered in order, \<open>j\<close> how many of our own are acknowledged.
\<close>

definition frame_ok :: "history \<Rightarrow> history \<Rightarrow> nat \<Rightarrow> tcp_frame \<Rightarrow> bool" where
  "frame_ok hs hp m f \<longleftrightarrow>
     (fr_typ f \<in> {tcpFrameOpen, tcpFrameData, tcpFrameFin} \<longrightarrow> (\<exists>i. frameAt hs i f))
     \<and> (fr_typ f \<noteq> tcpFrameRst \<longrightarrow> (\<exists>i \<le> m. fr_ack f = offw hp i))"

definition send_ok :: "history \<Rightarrow> nat \<Rightarrow> tcp_stream \<Rightarrow> bool" where
  "send_ok hs j s \<longleftrightarrow> sm_sndNxt s = offw hs (length hs) \<and> j \<le> length hs \<and> sm_sndUna s = offw hs j
     \<and> (if sm_dead s then sm_unacked s = []
        else length (sm_unacked s) = length hs - j \<and>
          (\<forall>k < length (sm_unacked s). segAt hs (j + k) (sm_unacked s ! k)))"

definition recv_ok :: "history \<Rightarrow> nat \<Rightarrow> bytes \<Rightarrow> tcp_stream \<Rightarrow> bool" where
  "recv_ok hp m written s \<longleftrightarrow> m \<le> length hp \<and> sm_rcvNxt s = offw hp m
     \<and> (\<forall>(k, g) \<in> set (sm_ooo s). k = sg_seq g \<and> (\<exists>i. segAt hp i g))
     \<and> (if sm_dead s then sm_ooo s = [] \<and> sm_rcvQueue s = [] \<and> prefix written (hist_data (take m hp))
        else written @ concat (sm_rcvQueue s) = hist_data (take m hp))"

definition end_ok :: "history \<Rightarrow> history \<Rightarrow> nat \<Rightarrow> nat \<Rightarrow> bytes \<Rightarrow> tcp_stream \<Rightarrow> bool" where
  "end_ok hs hp m j written s \<longleftrightarrow> send_ok hs j s \<and> recv_ok hp m written s
     \<and> (\<forall>f \<in> set (sm_out s). frame_ok hs hp m f)
     \<and> sm_ends s = (if sm_dead s then 1 else 0)
     \<and> 200 * ns_milli \<le> sm_rto s \<and> sm_rto s \<le> 10 * ns_second \<and> sm_backoff s \<le> 6"

lemmas end_defs = end_ok_def send_ok_def recv_ok_def

lemma frame_ok_mono: "frame_ok hs hp m f \<Longrightarrow> m \<le> m' \<Longrightarrow> frame_ok hs hp m' f"
  by (auto simp: frame_ok_def intro: order_trans)

lemma frame_ok_extend:
  assumes "frame_ok hs hp m f" "m \<le> length hp"
  shows "frame_ok (hs @ h1) (hp @ h2) m f"
proof -
  have "\<exists>i. frameAt (hs @ h1) i f" if "fr_typ f \<in> {tcpFrameOpen, tcpFrameData, tcpFrameFin}"
    using assms(1) that frameAt_append unfolding frame_ok_def by blast
  moreover have "\<exists>i \<le> m. fr_ack f = offw (hp @ h2) i" if rst: "fr_typ f \<noteq> tcpFrameRst"
  proof -
    obtain i where "i \<le> m" "fr_ack f = offw hp i" using assms(1) rst by (auto simp: frame_ok_def)
    then show ?thesis using assms(2) by (intro exI [of _ i]) simp
  qed
  ultimately show ?thesis unfolding frame_ok_def by blast
qed

lemma if_ok: "end_ok hs hp m j w x \<Longrightarrow> end_ok hs hp m j w y \<Longrightarrow> end_ok hs hp m j w (if c then x else y)"
  by simp

section \<open>Operations that only touch timers and bookkeeping\<close>

definition same_core :: "tcp_stream \<Rightarrow> tcp_stream \<Rightarrow> bool" where
  "same_core s s' \<longleftrightarrow> sm_sndNxt s' = sm_sndNxt s \<and> sm_sndUna s' = sm_sndUna s \<and> sm_dead s' = sm_dead s
     \<and> sm_unacked s' = sm_unacked s \<and> sm_rcvNxt s' = sm_rcvNxt s \<and> sm_ooo s' = sm_ooo s
     \<and> sm_rcvQueue s' = sm_rcvQueue s \<and> sm_ends s' = sm_ends s \<and> sm_out s' = sm_out s
     \<and> sm_rto s' = sm_rto s \<and> sm_backoff s' = sm_backoff s"

lemma end_ok_same: "end_ok hs hp m j w s \<Longrightarrow> same_core s s' \<Longrightarrow> end_ok hs hp m j w s'"
  by (simp add: end_defs same_core_def)

lemma armTimer_core: "same_core s (armTimer s)"
  by (simp add: armTimer_def same_core_def)

lemma armTimer_ok [simp]: "end_ok hs hp m j w s \<Longrightarrow> end_ok hs hp m j w (armTimer s)"
  by (rule end_ok_same [OF _ armTimer_core])

text \<open>Appending an acknowledging frame.\<close>

lemma fillAckOut_ok:
  assumes "end_ok hs hp m j w s" and "fr_typ f \<in> {tcpFrameOpen, tcpFrameData, tcpFrameFin} \<Longrightarrow> \<exists>i. frameAt hs i f"
  shows "end_ok hs hp m j w (fillAckOut f s)"
proof -
  have "frame_ok hs hp m (f\<lparr>fr_id := a, fr_ack := sm_rcvNxt s, fr_wnd := b\<rparr>)" for a b
    using assms by (auto simp: frame_ok_def frameAt_def end_defs)
  then show ?thesis using assms(1) by (simp add: end_defs fillAckOut_def Let_def)
qed

lemma queueAck_ok [simp]: "end_ok hs hp m j w s \<Longrightarrow> end_ok hs hp m j w (queueAck flags s)"
  unfolding queueAck_def by (rule fillAckOut_ok) (simp_all add: blankFrame_def frame_consts)

lemma queueSegmentFrame_ok:
  assumes "end_ok hs hp m j w s" "segAt hs i g"
  shows "end_ok hs hp m j w (queueSegmentFrame g s)"
  unfolding queueSegmentFrame_def
  by (rule fillAckOut_ok [OF assms(1)]) (use assms(2) in \<open>auto simp: segAt_def frameAt_def blankFrame_def\<close>)

text \<open>Ending the stream.\<close>

lemma endStream_ok:
  assumes "end_ok hs hp m j w s" "\<not> sm_dead s"
  shows "end_ok hs hp m j w (endStream s)"
proof -
  have "w @ concat (sm_rcvQueue s) = hist_data (take m hp)" using assms by (simp add: end_defs)
  then have "prefix w (hist_data (take m hp))" by (metis prefixI)
  then show ?thesis using assms by (simp add: end_defs endStream_def)
qed

lemma abortStream_ok [simp]:
  assumes "end_ok hs hp m j w s"
  shows "end_ok hs hp m j w (abortStream b s)"
proof (cases "sm_dead s")
  case True
  then show ?thesis using assms by (simp add: abortStream_def)
next
  case False
  let ?s = "if b then s\<lparr>sm_out := sm_out s @ [rstFrame s]\<rparr> else s"
  have "frame_ok hs hp m (rstFrame s)" by (simp add: frame_ok_def rstFrame_def blankFrame_def frame_consts)
  then have "end_ok hs hp m j w ?s" using assms by (auto simp: end_defs)
  then have "end_ok hs hp m j w (endStream ?s)" using False by (intro endStream_ok) auto
  then have "end_ok hs hp m j w ((endStream ?s)\<lparr>sm_connClosed := x\<rparr>)" for x by (simp add: end_defs)
  then show ?thesis
    using \<open>end_ok hs hp m j w (endStream ?s)\<close> False by (simp add: abortStream_def Let_def)
qed

lemma maybeFinish_ok [simp]:
  assumes "end_ok hs hp m j w s"
  shows "end_ok hs hp m j w (maybeFinish s)"
proof (cases "sm_dead s \<or> \<not> sm_finQueued s \<or> sm_sndUna s \<noteq> sm_sndNxt s \<or> \<not> sm_finWritten s")
  case True
  then show ?thesis using assms by (simp add: maybeFinish_def)
next
  case False
  have "end_ok hs hp m j w (s\<lparr>sm_finished := True\<rparr>)" using assms by (simp add: end_defs)
  then have "end_ok hs hp m j w (endStream (s\<lparr>sm_finished := True\<rparr>))" using False by (intro endStream_ok) auto
  moreover from this have "end_ok hs hp m j w ((endStream (s\<lparr>sm_finished := True\<rparr>))\<lparr>sm_connClosed := x\<rparr>)" for x
    by (simp add: end_defs)
  ultimately show ?thesis using False by (simp add: maybeFinish_def Let_def)
qed

section \<open>Sending\<close>

lemma queueSegment_ok:
  assumes ok: "end_ok hs hp m j w s" "\<not> sm_dead s" and h: "hist_ok (hs @ [(t, d)])"
  shows "end_ok (hs @ [(t, d)]) hp m j w (queueSegment now t d s)"
proof -
  define g where "g = \<lparr>sg_seq = sm_sndNxt s, sg_typ = t, sg_data = d, sg_sentAt = now, sg_retrans = False\<rparr>"
  let ?h = "hs @ [(t, d)]"
  have g: "segAt ?h (length hs) g" using ok by (simp add: segAt_def g_def end_defs nth_append)
  have nxt: "sm_sndNxt s + seg_len g = offw ?h (length ?h)"
    using segAt_end [OF g] by (simp add: g_def)
  define s1 where "s1 = s\<lparr>sm_unacked := sm_unacked s @ [g], sm_sndNxt := sm_sndNxt s + seg_len g\<rparr>"
  have s1: "end_ok ?h hp m j w s1"
  proof -
    have "frame_ok ?h hp m f" if "f \<in> set (sm_out s)" for f
      using frame_ok_extend [of hs hp m f "[(t, d)]" "[]"] ok that by (auto simp: end_defs)
    moreover have "\<forall>k < Suc (length (sm_unacked s)). segAt ?h (j + k) ((sm_unacked s @ [g]) ! k)"
    proof (intro allI impI)
      fix k assume k: "k < Suc (length (sm_unacked s))"
      show "segAt ?h (j + k) ((sm_unacked s @ [g]) ! k)"
      proof (cases "k < length (sm_unacked s)")
        case True
        then show ?thesis using ok segAt_append by (simp add: end_defs nth_append)
      next
        case False
        then have "k = length (sm_unacked s)" "j + k = length hs" using k ok by (auto simp: end_defs)
        then show ?thesis using g by simp
      qed
    qed
    ultimately show ?thesis using ok nxt by (auto simp: s1_def end_defs)
  qed
  let ?s2 = "if t = tcpFrameFin then s1\<lparr>sm_finQueued := True\<rparr> else s1"
  have "end_ok ?h hp m j w ?s2" by (rule end_ok_same [OF s1]) (simp add: same_core_def)
  then have s3: "end_ok ?h hp m j w (queueSegmentFrame g ?s2)" using g by (rule queueSegmentFrame_ok)
  let ?s3 = "queueSegmentFrame g ?s2"
  have "queueSegment now t d s = (if \<not> sm_timerArmed ?s3 then armTimer ?s3 else ?s3)"
    unfolding queueSegment_def Let_def g_def [symmetric] s1_def [symmetric] by (rule refl)
  then show ?thesis using s3 armTimer_ok [OF s3] by (simp only: if_ok)
qed

section \<open>Acknowledgements\<close>

lemma updateRTT_ok [simp]:
  assumes "end_ok hs hp m j w s"
  shows "end_ok hs hp m j w (updateRTT rtt s)"
proof -
  have "sm_rto (updateRTT rtt s) \<ge> 200 * ns_milli \<and> sm_rto (updateRTT rtt s) \<le> 10 * ns_second"
    by (simp add: updateRTT_def Let_def ns_milli_def ns_second_def)
  moreover have "sm_sndNxt (updateRTT rtt s) = sm_sndNxt s" "sm_sndUna (updateRTT rtt s) = sm_sndUna s"
    "sm_dead (updateRTT rtt s) = sm_dead s" "sm_unacked (updateRTT rtt s) = sm_unacked s"
    "sm_rcvNxt (updateRTT rtt s) = sm_rcvNxt s" "sm_ooo (updateRTT rtt s) = sm_ooo s"
    "sm_rcvQueue (updateRTT rtt s) = sm_rcvQueue s" "sm_ends (updateRTT rtt s) = sm_ends s"
    "sm_out (updateRTT rtt s) = sm_out s" "sm_backoff (updateRTT rtt s) = sm_backoff s"
    by (simp_all add: updateRTT_def Let_def)
  ultimately show ?thesis using assms by (simp add: end_defs)
qed

lemma updateRTT_dead [simp]: "sm_dead (updateRTT rtt s) = sm_dead s"
  by (simp add: updateRTT_def Let_def)

lemma segAt_touch: "segAt h i g \<Longrightarrow> segAt h i (g\<lparr>sg_retrans := b, sg_sentAt := t\<rparr>)"
  by (simp add: segAt_def)

lemma fastRetransmit_ok [simp]:
  assumes ok: "end_ok hs hp m j w s" and live: "\<not> sm_dead s"
  shows "end_ok hs hp m j w (fastRetransmit now s)"
proof (cases "sm_unacked s")
  case Nil
  then show ?thesis using ok by (simp add: fastRetransmit_def)
next
  case (Cons g gs)
  let ?g = "g\<lparr>sg_retrans := True, sg_sentAt := now\<rparr>"
  have all: "\<forall>k < length (sm_unacked s). segAt hs (j + k) (sm_unacked s ! k)" using ok live by (simp add: end_defs)
  then have g: "segAt hs j ?g" using Cons segAt_touch by force
  have "segAt hs (j + k) ((?g # gs) ! k)" if "k < length (sm_unacked s)" for k
    using all g that Cons by (cases k) auto
  then have "end_ok hs hp m j w (s\<lparr>sm_unacked := ?g # gs\<rparr>)"
    using ok live Cons by (simp add: end_defs)
  then have "end_ok hs hp m j w (queueSegmentFrame ?g (s\<lparr>sm_unacked := ?g # gs\<rparr>))"
    using g by (rule queueSegmentFrame_ok)
  then show ?thesis using ok Cons by (simp add: fastRetransmit_def Let_def)
qed

text \<open>An honest acknowledgement \<open>offw hs j'\<close> removes exactly the first \<open>j' - j\<close> segments.\<close>

lemma acked_prefix:
  assumes h: "hist_ok hs" and all: "length us = length hs - j" "\<forall>k < length us. segAt hs (j + k) (us ! k)"
    and j': "j \<le> j'" "j' \<le> length hs"
  shows "dropWhile (ackedBy (offw hs j')) us = drop (j' - j) us"
proof -
  have ak: "ackedBy (offw hs j') (us ! k) \<longleftrightarrow> k < j' - j" if "k < length us" for k
  proof -
    have "segAt hs (j + k) (us ! k)" using all(2) that by blast
    moreover have "Suc (j + k) \<le> length hs" using that all(1) by simp
    ultimately show ?thesis using offw_le [OF h _ j'(2), of "Suc (j + k)"] segAt_end by (auto simp: ackedBy_def)
  qed
  have le: "j' - j \<le> length us" using all(1) j' by simp
  have "length (takeWhile (ackedBy (offw hs j')) us) = j' - j"
  proof (rule takeWhile_eq_take_P_nth [THEN arg_cong [where f = length], THEN trans])
    show "ackedBy (offw hs j') (us ! i)" if "i < j' - j" "i < length us" for i using ak that by simp
    show "\<not> ackedBy (offw hs j') (us ! (j' - j))" if "j' - j < length us" using ak that by simp
  qed (use le in simp)
  then show ?thesis by (simp add: dropWhile_eq_drop)
qed

lemma processNewAck_ok:
  assumes h: "hist_ok hs" and ok: "end_ok hs hp m j w s" and live: "\<not> sm_dead s"
    and j': "j \<le> j'" "j' \<le> length hs"
  shows "end_ok hs hp m j' w (processNewAck now (offw hs j') s)"
proof -
  define s1 where "s1 = (case takeWhile (ackedBy (offw hs j')) (sm_unacked s) of [] \<Rightarrow> s
     | g # _ \<Rightarrow> if \<not> sg_retrans g then updateRTT (time_sub now (sg_sentAt g)) s else s)"
  have s1: "end_ok hs hp m j w s1" "\<not> sm_dead s1"
    using ok live by (auto simp: s1_def split: list.split)
  define s2 where "s2 = s1\<lparr>sm_unacked := dropWhile (ackedBy (offw hs j')) (sm_unacked s1), sm_sndUna := offw hs j',
      sm_backoff := 0, sm_dupAcks := 0, sm_lastProgress := now\<rparr>"
  have "dropWhile (ackedBy (offw hs j')) (sm_unacked s1) = drop (j' - j) (sm_unacked s1)"
    using s1 by (intro acked_prefix [OF h _ _ j']) (simp_all add: end_defs)
  moreover have "segAt hs (j' + k) (drop (j' - j) (sm_unacked s1) ! k)"
    if "k < length (sm_unacked s1) - (j' - j)" for k
  proof -
    have "segAt hs (j + (j' - j + k)) (sm_unacked s1 ! (j' - j + k))"
      using s1 that by (simp add: end_defs)
    then show ?thesis using j' that s1 by (simp add: end_defs)
  qed
  ultimately have s2: "end_ok hs hp m j' w s2" "\<not> sm_dead s2"
    using s1 j' by (auto simp: s2_def end_defs)
  define s3 where "s3 = (if offw hs j' < sm_recover s2 then fastRetransmit now s2 else s2)"
  have "end_ok hs hp m j' w s3" using s2 by (simp add: s3_def)
  moreover have "processNewAck now (offw hs j') s = armTimer s3"
    unfolding processNewAck_def Let_def s1_def [symmetric] s2_def [symmetric] s3_def [symmetric] by (rule refl)
  ultimately show ?thesis by simp
qed

lemma processDupAck_ok:
  assumes "end_ok hs hp m j w s" "\<not> sm_dead s"
  shows "end_ok hs hp m j w (processDupAck now s)"
proof -
  have 1: "end_ok hs hp m j w (s\<lparr>sm_dupAcks := x\<rparr>)" for x by (rule end_ok_same [OF assms(1)]) (simp add: same_core_def)
  then have "end_ok hs hp m j w (s\<lparr>sm_dupAcks := x, sm_recover := y\<rparr>)" for x y
    by (rule end_ok_same) (simp add: same_core_def)
  then have "end_ok hs hp m j w (fastRetransmit now (s\<lparr>sm_dupAcks := x, sm_recover := y\<rparr>))" for x y
    using assms(2) by (intro fastRetransmit_ok) simp_all
  then show ?thesis using 1 by (simp add: processDupAck_def Let_def)
qed

text \<open>Processing an acknowledgement keeps the stream alive.\<close>

lemma armTimer_dead [simp]: "sm_dead (armTimer s) = sm_dead s"
  by (simp add: armTimer_def)

lemma fastRetransmit_dead [simp]: "sm_dead (fastRetransmit now s) = sm_dead s"
  by (simp add: fastRetransmit_def Let_def queueSegmentFrame_def fillAckOut_def split: list.split)

lemma processAck_dead [simp]: "sm_dead (processAck now f s) = sm_dead s"
  by (simp add: processAck_def processNewAck_def processDupAck_def updateRTT_def Let_def split: list.split)

lemma processAck_ok:
  assumes h: "hist_ok hs" and ok: "end_ok hs hp m j w s" "\<not> sm_dead s"
    and f: "fr_ack f = offw hs i" "i \<le> length hs"
  shows "\<exists>j'. end_ok hs hp m j' w (processAck now f s) \<and> j \<le> j' \<and> j' \<le> max j i"
proof -
  have nxt: "sm_sndNxt s = offw hs (length hs)" "sm_sndUna s = offw hs j" "j \<le> length hs"
    using ok by (simp_all add: end_defs)
  have "\<not> sm_sndNxt s < fr_ack f" using f nxt offw_less [OF h, of "length hs" i] by simp
  define s1 where "s1 = (if sm_sndUna s < fr_ack f then processNewAck now (fr_ack f) s
      else if fr_ack f = sm_sndUna s \<and> hasFlag tcpFlagOutOfOrder (fr_flags f) \<and> sm_unacked s \<noteq> []
      then processDupAck now s else s)"
  have "\<exists>j'. end_ok hs hp m j' w s1 \<and> j \<le> j' \<and> j' \<le> max j i"
  proof (cases "sm_sndUna s < fr_ack f")
    case True
    then have "j < i" using offw_less [OF h nxt(3) f(2)] f(1) nxt(2) by simp
    then have "end_ok hs hp m i w (processNewAck now (fr_ack f) s)"
      using processNewAck_ok [OF h ok, of i] f by simp
    then show ?thesis using True \<open>j < i\<close> by (intro exI [of _ i]) (simp add: s1_def)
  next
    case False
    then have "end_ok hs hp m j w s1" using ok processDupAck_ok by (simp add: s1_def)
    then show ?thesis by auto
  qed
  then obtain j' where j': "end_ok hs hp m j' w s1" "j \<le> j'" "j' \<le> max j i" by blast
  define r where "r = fr_ack f + (ucast (fr_wnd f) :: 64 word)"
  have r1: "end_ok hs hp m j' w (s1\<lparr>sm_sndRight := r\<rparr>)" by (rule end_ok_same [OF j'(1)]) (simp add: same_core_def)
  define s2 where "s2 = (if sm_sndRight s1 < r
      then let s' = s1\<lparr>sm_sndRight := r\<rparr> in if \<not> sm_timerArmed s' then armTimer s' else s' else s1)"
  have "end_ok hs hp m j' w s2" using r1 j'(1) by (simp add: s2_def Let_def)
  then have "end_ok hs hp m j' w (s2\<lparr>sm_sendCh := True\<rparr>)" by (rule end_ok_same) (simp add: same_core_def)
  moreover have "processAck now f s = (if sm_sndNxt s2 < sm_sndRight s2 then s2\<lparr>sm_sendCh := True\<rparr> else s2)"
    using \<open>\<not> sm_sndNxt s < fr_ack f\<close>
    unfolding processAck_def Let_def s1_def [symmetric] r_def [symmetric] by (simp add: s2_def Let_def)
  ultimately have "end_ok hs hp m j' w (processAck now f s)" using \<open>end_ok hs hp m j' w s2\<close> by simp
  then show ?thesis using j' by blast
qed

section \<open>Receiving\<close>

lemma hist_data_snoc: "i < length h \<Longrightarrow> hist_data (take (Suc i) h) =
    hist_data (take i h) @ (if fst (h ! i) = tcpFrameData then snd (h ! i) else [])"
  by (simp add: hist_data_def take_Suc_conv_app_nth)

lemma deliver_ok:
  assumes ok: "end_ok hs hp m j w s" "\<not> sm_dead s" and g: "segAt hp m g"
  shows "end_ok hs hp (Suc m) j w (deliver g s) \<and> \<not> sm_dead (deliver g s)"
proof -
  have m: "m < length hp" using g by (simp add: segAt_def)
  have nxt: "sm_rcvNxt s + seg_len g = offw hp (Suc m)"
    using segAt_end [OF g] ok g by (simp add: end_defs segAt_def)
  have data: "hist_data (take (Suc m) hp) = hist_data (take m hp) @ (if sg_typ g = tcpFrameData then sg_data g else [])"
    using hist_data_snoc [OF m] g by (simp add: segAt_def) (metis fst_conv snd_conv)
  have out: "\<forall>f \<in> set (sm_out s). frame_ok hs hp (Suc m) f"
    using ok frame_ok_mono [of hs hp m _ "Suc m"] by (auto simp: end_defs)
  have fields: "sm_sndNxt (deliver g s) = sm_sndNxt s" "sm_sndUna (deliver g s) = sm_sndUna s"
    "sm_dead (deliver g s) = sm_dead s" "sm_unacked (deliver g s) = sm_unacked s"
    "sm_rcvNxt (deliver g s) = sm_rcvNxt s + seg_len g" "sm_ends (deliver g s) = sm_ends s"
    "sm_out (deliver g s) = sm_out s" "sm_rto (deliver g s) = sm_rto s" "sm_backoff (deliver g s) = sm_backoff s"
    "sm_rcvQueue (deliver g s) = sm_rcvQueue s @ (if sg_typ g = tcpFrameData \<and> sg_data g \<noteq> [] then [sg_data g] else [])"
    by (simp_all add: deliver_def Let_def frame_consts)
  show ?thesis
    using ok m nxt data out by (auto simp: end_defs fields)
qed

lemma map_of_ooo: "map_of xs k = Some g \<Longrightarrow> (k, g) \<in> set xs"
  by (rule map_of_SomeD)

lemma end_ok_ooo:
  assumes "end_ok hs hp m j w s" "\<not> sm_dead s" "\<And>k g. (k, g) \<in> set xs \<Longrightarrow> k = sg_seq g \<and> (\<exists>i. segAt hp i g)"
  shows "end_ok hs hp m j w (s\<lparr>sm_ooo := xs\<rparr>)"
proof -
  have "\<forall>(k, g) \<in> set xs. k = sg_seq g \<and> (\<exists>i. segAt hp i g)" using assms(3) by blast
  then show ?thesis using assms(1,2) by (simp add: end_defs)
qed

lemma ooo_entries:
  assumes "end_ok hs hp m j w s" "(k, g) \<in> set (sm_ooo s)"
  shows "k = sg_seq g \<and> (\<exists>i. segAt hp i g)"
  using assms by (auto simp: end_defs)

lemma deliverOoo_ok:
  assumes h: "hist_ok hp" and ok: "end_ok hs hp m j w s" "\<not> sm_dead s"
  shows "\<exists>m'. m \<le> m' \<and> end_ok hs hp m' j w (fst (deliverOoo s)) \<and> \<not> sm_dead (fst (deliverOoo s))"
  using ok
proof (induction s arbitrary: m rule: deliverOoo.induct)
  case (1 s)
  show ?case
  proof (cases "map_of (sm_ooo s) (sm_rcvNxt s)")
    case None
    then show ?thesis using "1.prems" by (intro exI [of _ m]) (simp add: deliverOoo.simps [of s])
  next
    case (Some g)
    let ?s = "s\<lparr>sm_ooo := oooDelete (sm_rcvNxt s) (sm_ooo s)\<rparr>"
    note e = ooo_entries [OF "1.prems"(1)]
    have "(sm_rcvNxt s, g) \<in> set (sm_ooo s)" using Some by (rule map_of_ooo)
    then obtain i where i: "sm_rcvNxt s = sg_seq g" "segAt hp i g" using e by blast
    have "sm_rcvNxt s = offw hp m" "m \<le> length hp" using "1.prems" by (simp_all add: end_defs)
    then have "i = m" using segAt_unique [OF h i(2)] i(1) by simp
    have "end_ok hs hp m j w ?s"
      by (rule end_ok_ooo [OF "1.prems"]) (use e in \<open>auto simp: oooDelete_def\<close>)
    then have d: "end_ok hs hp (Suc m) j w (deliver g ?s)" "\<not> sm_dead (deliver g ?s)"
      using deliver_ok [of hs hp m j w ?s g] i \<open>i = m\<close> "1.prems"(2) by auto
    have eq: "fst (deliverOoo s) = fst (deliverOoo (deliver g ?s))"
      using Some by (simp add: deliverOoo.simps [of s])
    obtain m' where "Suc m \<le> m'" "end_ok hs hp m' j w (fst (deliverOoo (deliver g ?s)))"
        "\<not> sm_dead (fst (deliverOoo (deliver g ?s)))"
      using "1.IH" [OF Some d] by blast
    then show ?thesis unfolding eq by (intro exI [of _ m']) simp
  qed
qed

lemma processSegment_ok:
  assumes h: "hist_ok hp" and ok: "end_ok hs hp m j w s" "\<not> sm_dead s" and f: "frameAt hp i f"
  shows "\<exists>m'. m \<le> m' \<and> end_ok hs hp m' j w (processSegment f s)"
proof -
  define g where "g = \<lparr>sg_seq = fr_seq f, sg_typ = fr_typ f,
    sg_data = (if fr_typ f \<noteq> tcpFrameFin then fr_payload f else []), sg_sentAt = zero_time, sg_retrans = False\<rparr>"
  have "fr_payload f = []" if "fr_typ f = tcpFrameFin"
  proof -
    have "hp ! i \<in> set hp" "hp ! i = (fr_typ f, fr_payload f)" using f by (auto simp: frameAt_def)
    then show ?thesis using h that unfolding hist_ok_def by (metis fst_conv snd_conv)
  qed
  then have g: "segAt hp i g" using f by (auto simp: g_def segAt_def frameAt_def)
  have nxt: "sm_rcvNxt s = offw hp m" "m \<le> length hp" using ok by (simp_all add: end_defs)
  let ?full = "sg_typ g = tcpFrameData \<and>
        ep_window (sm_e s) + ep_mss (sm_e s) < sm_rcvQueued s + int (length (sg_data g))"
  have same: ?thesis if "end_ok hs hp m j w (processSegment f s)" using that by blast
  show ?thesis
  proof (cases "sg_seq g + seg_len g \<le> sm_rcvNxt s")
    case True
    then have "processSegment f s = queueAck 0 s"
      unfolding processSegment_def Let_def g_def [symmetric] by (simp only: if_True)
    then show ?thesis using ok by (intro same) simp
  next
    case new: False
    show ?thesis
    proof (cases "sg_seq g = sm_rcvNxt s")
      case False
      let ?b = "sm_rcvNxt s < sg_seq g \<and> sg_seq g + seg_len g \<le> sm_rcvNxt s + word_of_int (ep_window (sm_e s))
          \<and> map_of (sm_ooo s) (sg_seq g) = None"
      let ?s = "if ?b then s\<lparr>sm_ooo := (sg_seq g, g) # sm_ooo s\<rparr> else s"
      have "processSegment f s = queueAck tcpFlagOutOfOrder ?s"
        using new False unfolding processSegment_def Let_def g_def [symmetric]
        by (simp only: if_True if_False simp_thms)
      moreover have "end_ok hs hp m j w (s\<lparr>sm_ooo := (sg_seq g, g) # sm_ooo s\<rparr>)"
        by (rule end_ok_ooo [OF ok]) (use g ooo_entries [OF ok(1)] in auto)
      then have "end_ok hs hp m j w ?s" using ok(1) by (rule if_ok)
      ultimately show ?thesis by (intro same) simp
    next
      case eq: True
      show ?thesis
      proof (cases ?full)
        case True
        then have "processSegment f s = s"
          using new eq unfolding processSegment_def Let_def g_def [symmetric]
          by (simp only: if_True if_False simp_thms)
        then show ?thesis using ok by (intro same) simp
      next
        case False
        have "i = m" using segAt_unique [OF h g _ nxt(2)] eq nxt(1) by simp
        then have d: "end_ok hs hp (Suc m) j w (deliver g s)" "\<not> sm_dead (deliver g s)"
          using deliver_ok [OF ok] g by auto
        obtain s1 filled where s1: "deliverOoo (deliver g s) = (s1, filled)" by force
        obtain m' where m': "Suc m \<le> m'" "end_ok hs hp m' j w s1"
          using deliverOoo_ok [OF h d] s1 by auto
        let ?s2 = "s1\<lparr>sm_ackPending := sm_ackPending s1 + 1\<rparr>"
        have s2: "end_ok hs hp m' j w ?s2" by (rule end_ok_same [OF m'(2)]) (simp add: same_core_def)
        then have s3: "end_ok hs hp m' j w (?s2\<lparr>sm_ackTimerSet := True\<rparr>)"
          by (rule end_ok_same) (simp add: same_core_def)
        have "processSegment f s =
            (if filled \<or> sg_typ g \<noteq> tcpFrameData \<or> 2 \<le> sm_ackPending ?s2 then queueAck 0 ?s2
             else if \<not> sm_ackTimerSet ?s2 then ?s2\<lparr>sm_ackTimerSet := True\<rparr> else ?s2)"
          using new eq False unfolding processSegment_def Let_def g_def [symmetric]
          by (simp only: if_True if_False simp_thms s1 prod.case)
        moreover have "end_ok hs hp m' j w \<dots>" by (intro if_ok s3 s2 queueAck_ok)
        ultimately show ?thesis using m'(1) by (intro exI [of _ m']) simp
      qed
    qed
  qed
qed

section \<open>The handlers keep the invariant\<close>

lemma handleDead_ok:
  assumes "end_ok hs hp m j w s"
  shows "end_ok hs hp m j w (handleDead f s)"
proof -
  have "frame_ok hs hp m (rstFrame s)" by (simp add: frame_ok_def rstFrame_def blankFrame_def frame_consts)
  then have "end_ok hs hp m j w (s\<lparr>sm_out := sm_out s @ [rstFrame s]\<rparr>)" using assms by (simp add: end_defs)
  then show ?thesis unfolding handleDead_def using assms by (intro if_ok queueAck_ok)
qed

lemma handleFrame_ok:
  assumes h: "hist_ok hs" "hist_ok hp" and ok: "end_ok hs hp m j w s" and f: "frame_ok hp hs mp f" "mp \<le> length hs"
  shows "\<exists>m' j'. m \<le> m' \<and> j \<le> j' \<and> j' \<le> max j mp \<and> end_ok hs hp m' j' w (handleFrame now f s)"
proof -
  have keep: ?thesis if "end_ok hs hp m j w (handleFrame now f s)" using that by (intro exI [of _ m] exI [of _ j]) simp
  let ?s = "s\<lparr>sm_lastHeard := now\<rparr>"
  have s: "end_ok hs hp m j w ?s" by (rule end_ok_same [OF ok]) (simp add: same_core_def)
  show ?thesis
  proof (cases "sm_dead s")
    case True
    then show ?thesis using handleDead_ok [OF ok] by (intro keep) (simp add: handleFrame_def)
  next
    case live: False
    show ?thesis
    proof (cases "fr_typ f = tcpFrameRst")
      case True
      then show ?thesis using live abortStream_ok [OF s] by (intro keep) (simp add: handleFrame_def)
    next
      case False
      then obtain i where i: "i \<le> mp" "fr_ack f = offw hs i" using f(1) by (auto simp: frame_ok_def)
      have il: "i \<le> length hs" using i(1) f(2) by simp
      have live1: "\<not> sm_dead ?s" using live by simp
      let ?s1 = "processAck now f ?s"
      obtain j' where j': "end_ok hs hp m j' w ?s1" "j \<le> j'" "j' \<le> max j i"
        using processAck_ok [OF h(1) s live1 i(2) il, of now] by blast
      let ?data = "fr_typ f \<in> {tcpFrameOpen, tcpFrameData, tcpFrameFin}"
      let ?s2 = "if ?data then processSegment f ?s1 else ?s1"
      have "\<exists>m'. m \<le> m' \<and> end_ok hs hp m' j' w ?s2"
      proof (cases ?data)
        case True
        then obtain n where n: "frameAt hp n f" using f(1) unfolding frame_ok_def by blast
        have "\<not> sm_dead ?s1" using live1 by simp
        from processSegment_ok [OF h(2) j'(1) this n] show ?thesis unfolding if_P [OF True] .
      next
        case False
        then show ?thesis using j'(1) by (intro exI [of _ m]) (simp only: if_False simp_thms order_refl)
      qed
      then obtain m' where m': "m \<le> m'" "end_ok hs hp m' j' w ?s2" by blast
      let ?s3 = "if hasFlag tcpFlagProbe (fr_flags f) \<and> sm_out ?s2 = [] then queueAck 0 ?s2 else ?s2"
      have "end_ok hs hp m' j' w (maybeFinish ?s3)"
        by (intro maybeFinish_ok if_ok queueAck_ok m'(2))
      moreover have "handleFrame now f s = maybeFinish ?s3"
        using live False unfolding handleFrame_def Let_def by (simp only: if_True if_False simp_thms)
      ultimately show ?thesis using m'(1) j' i(1) by (intro exI [of _ m'] exI [of _ j']) simp
    qed
  qed
qed

lemma resendAll_ok:
  assumes ok: "end_ok hs hp m j w s" "\<not> sm_dead s"
  shows "end_ok hs hp m j w (resendAll now s)"
proof -
  let ?touch = "\<lambda>g. g\<lparr>sg_retrans := True, sg_sentAt := now\<rparr>"
  let ?gs = "map ?touch (sm_unacked s)"
  have all: "\<forall>k < length (sm_unacked s). segAt hs (j + k) (sm_unacked s ! k)" using ok by (simp add: end_defs)
  have gs: "\<forall>g \<in> set ?gs. \<exists>i. segAt hs i g"
  proof
    fix g assume "g \<in> set ?gs"
    then obtain k where "k < length (sm_unacked s)" "g = ?touch (sm_unacked s ! k)" by (auto simp: in_set_conv_nth)
    then show "\<exists>i. segAt hs i g" using all segAt_touch by blast
  qed
  have fold: "end_ok hs hp m j w (fold queueSegmentFrame xs t)"
    if "\<forall>g \<in> set xs. \<exists>i. segAt hs i g" "end_ok hs hp m j w t" for xs t
    using that by (induction xs arbitrary: t) (auto intro: queueSegmentFrame_ok)
  have "end_ok hs hp m j w (s\<lparr>sm_unacked := ?gs\<rparr>)"
    using ok segAt_touch by (simp add: end_defs)
  then show ?thesis unfolding resendAll_def Let_def using gs by (intro fold)
qed

lemma resendAll_dead [simp]: "sm_dead (resendAll now s) = sm_dead s"
proof -
  have "sm_dead (fold queueSegmentFrame xs t) = sm_dead t" for xs t
    by (induction xs arbitrary: t) (simp_all add: queueSegmentFrame_def fillAckOut_def Let_def)
  then show ?thesis by (simp add: resendAll_def Let_def)
qed

lemma onTimer_ok:
  assumes ok: "end_ok hs hp m j w s"
  shows "end_ok hs hp m j w (onTimer now s)"
proof -
  let ?s = "s\<lparr>sm_timerArmed := False\<rparr>"
  have s: "end_ok hs hp m j w ?s" by (rule end_ok_same [OF ok]) (simp add: same_core_def)
  show ?thesis
  proof (cases "sm_dead s")
    case True
    then show ?thesis using s by (simp add: onTimer_def)
  next
    case False
    let ?s1 = "if sm_unacked ?s \<noteq> [] then resendAll now ?s else queueAck tcpFlagProbe ?s"
    have s1: "end_ok hs hp m j w ?s1" using s False by (intro if_ok resendAll_ok queueAck_ok) simp_all
    have "end_ok hs hp m j w (?s1\<lparr>sm_backoff := sm_backoff ?s1 + 1\<rparr>)" if "sm_backoff ?s1 < 6"
    proof -
      have "end_ok hs hp m j w (t\<lparr>sm_backoff := sm_backoff t + 1\<rparr>)"
        if "end_ok hs hp m j w t" "sm_backoff t < 6" for t
        using that by (simp add: end_defs)
      then show ?thesis using s1 that by blast
    qed
    then have s2: "end_ok hs hp m j w (if sm_backoff ?s1 < 6 then ?s1\<lparr>sm_backoff := sm_backoff ?s1 + 1\<rparr> else ?s1)"
      using s1 by presburger
    have "onTimer now s = (if sm_unacked ?s \<noteq> [] \<and> ep_timeout (sm_e ?s) < time_sub now (sm_lastProgress ?s)
        then abortStream True ?s
        else if sm_unacked ?s = [] \<and> ep_timeout (sm_e ?s) < time_sub now (sm_lastHeard ?s)
        then abortStream True ?s
        else armTimer (if sm_backoff ?s1 < 6 then ?s1\<lparr>sm_backoff := sm_backoff ?s1 + 1\<rparr> else ?s1))"
      using False unfolding onTimer_def Let_def by simp
    then show ?thesis using abortStream_ok [OF s] armTimer_ok [OF s2] by (simp only: if_ok)
  qed
qed

lemma bookkeeping_ok:
  assumes ok: "end_ok hs hp m j w s"
  shows "end_ok hs hp m j w (onAckTimer s)" "end_ok hs hp m j w (checkOpened s)"
    "end_ok hs hp m j w (dialDone b s)" "end_ok hs hp m j w (readWait s)" "end_ok hs hp m j w (writeDone n c s)"
proof -
  have t: "end_ok hs hp m j w (s\<lparr>sm_ackTimerSet := False\<rparr>)" by (rule end_ok_same [OF ok]) (simp add: same_core_def)
  then show "end_ok hs hp m j w (onAckTimer s)" unfolding onAckTimer_def Let_def by (intro if_ok queueAck_ok)
  show "end_ok hs hp m j w (checkOpened s)" unfolding checkOpened_def by (intro if_ok abortStream_ok ok)
  have "end_ok hs hp m j w (s\<lparr>sm_conn := True, sm_running := True\<rparr>)"
    by (rule end_ok_same [OF ok]) (simp add: same_core_def)
  then show "end_ok hs hp m j w (dialDone b s)" unfolding dialDone_def by (intro if_ok abortStream_ok ok)
  show "end_ok hs hp m j w (readWait s)" unfolding readWait_def by (intro if_ok armTimer_ok ok)
  have q: "end_ok hs hp m j w (s\<lparr>sm_rcvQueued := sm_rcvQueued s - n\<rparr>)"
    by (rule end_ok_same [OF ok]) (simp add: same_core_def)
  then show "end_ok hs hp m j w (writeDone n c s)"
    unfolding writeDone_def Let_def by (intro if_ok abortStream_ok ok queueAck_ok)
qed

lemma writeTake_ok:
  assumes ok: "end_ok hs hp m j w s"
  shows "end_ok hs hp m j (w @ concat (snd (writeTake s))) (fst (writeTake s))"
proof -
  have fin: "end_ok hs hp m j w (maybeFinish (s\<lparr>sm_finWritten := True\<rparr>))"
    by (rule maybeFinish_ok, rule end_ok_same [OF ok]) (simp add: same_core_def)
  have "end_ok hs hp m j (w @ concat (sm_rcvQueue s)) (s\<lparr>sm_rcvQueue := []\<rparr>)" if "\<not> sm_dead s"
    using ok that by (simp add: end_defs)
  then show ?thesis using ok fin by (simp add: writeTake_def)
qed

text \<open>What a read appends to the history.\<close>

definition readHist :: "bytes \<Rightarrow> read_error option \<Rightarrow> history" where
  "readHist data err = (if data \<noteq> [] then [(tcpFrameData, data)] else [])
     @ (if err = Some EndOfFile then [(tcpFrameFin, [])] else [])"

lemma queueSegment_dead [simp]: "sm_dead (queueSegment now t d s) = sm_dead s"
  by (simp add: queueSegment_def queueSegmentFrame_def fillAckOut_def Let_def)

lemma readDone_ok:
  assumes ok: "end_ok hs hp m j w s" and live: "\<not> sm_dead s" and h: "hist_ok (hs @ readHist data err)"
  shows "end_ok (hs @ readHist data err) hp m j w (readDone now data err s)"
proof -
  let ?d = "if data \<noteq> [] then [(tcpFrameData, data)] else []"
  let ?s1 = "if data \<noteq> [] then queueSegment now tcpFrameData data s else s"
  have h1: "hist_ok (hs @ ?d)"
    using hist_ok_append [of "hs @ ?d"] h unfolding readHist_def append_assoc by blast
  have s1: "end_ok (hs @ ?d) hp m j w ?s1" "\<not> sm_dead ?s1"
    using queueSegment_ok [OF ok live] h1 ok live by auto
  have eq: "readDone now data err s = (case err of None \<Rightarrow> ?s1
      | Some EndOfFile \<Rightarrow> maybeFinish (queueSegment now tcpFrameFin [] ?s1) | Some ReadFailed \<Rightarrow> abortStream True ?s1)"
    using live unfolding readDone_def Let_def by (simp only: if_False)
  show ?thesis
  proof (cases err)
    case None
    then show ?thesis using s1 unfolding eq by (simp add: readHist_def)
  next
    case (Some e)
    show ?thesis
    proof (cases e)
      case EndOfFile
      then have hh: "hs @ readHist data err = (hs @ ?d) @ [(tcpFrameFin, [])]" using Some by (simp add: readHist_def)
      have "end_ok ((hs @ ?d) @ [(tcpFrameFin, [])]) hp m j w (queueSegment now tcpFrameFin [] ?s1)"
        using queueSegment_ok [OF s1, of tcpFrameFin "[]"] h unfolding hh by blast
      then show ?thesis
        unfolding eq hh using Some EndOfFile by (simp only: option.case read_error.case maybeFinish_ok)
    next
      case ReadFailed
      then have hh: "hs @ readHist data err = hs @ ?d" using Some by (simp add: readHist_def)
      show ?thesis
        unfolding eq hh using Some ReadFailed abortStream_ok [OF s1(1)]
        by (simp only: option.case read_error.case)
    qed
  qed
qed

section \<open>Two ends and a network\<close>

record side =
  sd_s :: tcp_stream
  sd_hist :: history
  sd_written :: bytes

text \<open>Handlers that neither read from nor write to the connection.\<close>

inductive local_op :: "tcp_stream \<Rightarrow> tcp_stream \<Rightarrow> bool" where
  timer: "local_op s (onTimer now s)"
| ack_timer: "local_op s (onAckTimer s)"
| check_opened: "local_op s (checkOpened s)"
| dial: "local_op s (dialDone b s)"
| read_wait: "local_op s (readWait s)"
| write_done: "local_op s (writeDone n failed s)"
| stop: "local_op s (abortStream True s)"

text \<open>
  One handler at one end: the new end and the frames it sends. \<open>inc\<close> is every frame the peer has
  sent so far. A read appends to the history; it requires that sequence numbers do not wrap.
\<close>

inductive side_step :: "tcp_frame set \<Rightarrow> side \<Rightarrow> side \<Rightarrow> tcp_frame list \<Rightarrow> bool" for inc where
  got: "f \<in> inc \<Longrightarrow> flushOut (handleFrame now f (sd_s x)) = (s', out) \<Longrightarrow>
    side_step inc x (x\<lparr>sd_s := s'\<rparr>) out"
| quiet: "local_op (sd_s x) s1 \<Longrightarrow> flushOut s1 = (s', out) \<Longrightarrow> side_step inc x (x\<lparr>sd_s := s'\<rparr>) out"
| do_read: "\<not> sm_dead (sd_s x) \<Longrightarrow> hist_ok (sd_hist x @ readHist data err) \<Longrightarrow>
    flushOut (readDone now data err (sd_s x)) = (s', out) \<Longrightarrow>
    side_step inc x (x\<lparr>sd_s := s', sd_hist := sd_hist x @ readHist data err\<rparr>) out"
| do_write: "writeTake (sd_s x) = (s1, bs) \<Longrightarrow> flushOut s1 = (s', out) \<Longrightarrow>
    side_step inc x (x\<lparr>sd_s := s', sd_written := sd_written x @ concat bs\<rparr>) out"

record stream_sys =
  sy_a :: side
  sy_b :: side
  sy_ab :: "tcp_frame list"
  sy_ba :: "tcp_frame list"

inductive sys_step :: "stream_sys \<Rightarrow> stream_sys \<Rightarrow> bool" where
  at_a: "side_step (set (sy_ba y)) (sy_a y) a' out \<Longrightarrow>
    sys_step y (y\<lparr>sy_a := a', sy_ab := sy_ab y @ map (markClient (sm_e (sd_s a'))) out\<rparr>)"
| at_b: "side_step (set (sy_ab y)) (sy_b y) b' out \<Longrightarrow>
    sys_step y (y\<lparr>sy_b := b', sy_ba := sy_ba y @ map (markClient (sm_e (sd_s b'))) out\<rparr>)"

text \<open>The client end has accepted a connection for \<open>target\<close>; the server end has just been created.\<close>

definition initSys :: "gotime \<Rightarrow> tcp_endpoint \<Rightarrow> tcp_endpoint \<Rightarrow> conn_id \<Rightarrow> bytes \<Rightarrow> stream_sys" where
  "initSys now ea eb i target =
     (let (s, out) = flushOut (openStream now ea i target)
      in \<lparr>sy_a = \<lparr>sd_s = s, sd_hist = [(tcpFrameOpen, target)], sd_written = []\<rparr>,
          sy_b = \<lparr>sd_s = newTcpStream now eb i False, sd_hist = [], sd_written = []\<rparr>,
          sy_ab = map (markClient ea) out, sy_ba = []\<rparr>)"

inductive sys_reach :: "stream_sys \<Rightarrow> stream_sys \<Rightarrow> bool" for init where
  start: "sys_reach init init"
| more: "sys_reach init y \<Longrightarrow> sys_step y z \<Longrightarrow> sys_reach init z"

lemma flush_ok:
  assumes "end_ok hs hp m j w s" "flushOut s = (s', out)"
  shows "end_ok hs hp m j w s' \<and> (\<forall>f \<in> set out. frame_ok hs hp m f)"
  using assms by (auto simp: flushOut_def end_defs)

lemma local_op_ok: "local_op s s' \<Longrightarrow> end_ok hs hp m j w s \<Longrightarrow> end_ok hs hp m j w s'"
  by (induction rule: local_op.induct) (simp_all add: onTimer_ok bookkeeping_ok)

definition side_ok :: "history \<Rightarrow> nat \<Rightarrow> nat \<Rightarrow> side \<Rightarrow> bool" where
  "side_ok hp m j x \<longleftrightarrow> hist_ok (sd_hist x) \<and> end_ok (sd_hist x) hp m j (sd_written x) (sd_s x)"

lemma side_step_ok:
  assumes "side_step inc x x' out" "hist_ok hp" "side_ok hp m j x"
    and "\<forall>f \<in> inc. frame_ok hp (sd_hist x) mp f" "mp \<le> length (sd_hist x)"
  shows "\<exists>m' j' h. m \<le> m' \<and> j \<le> j' \<and> j' \<le> max j mp \<and> sd_hist x' = sd_hist x @ h \<and> side_ok hp m' j' x'
    \<and> (\<forall>f \<in> set out. frame_ok (sd_hist x') hp m' f)"
  using assms
proof (cases rule: side_step.cases)
  case (got f now s')
  have ok: "hist_ok (sd_hist x)" "end_ok (sd_hist x) hp m j (sd_written x) (sd_s x)" using assms(3) by (simp_all add: side_ok_def)
  obtain m' j' where "m \<le> m'" "j \<le> j'" "j' \<le> max j mp"
      "end_ok (sd_hist x) hp m' j' (sd_written x) (handleFrame now f (sd_s x))"
    using handleFrame_ok [OF ok(1) assms(2) ok(2) _ assms(5), of f now] assms(4) got(2) by blast
  then show ?thesis
    using flush_ok [OF _ got(3)] ok(1) got(1)
    by (intro exI [of _ m'] exI [of _ j'] exI [of _ "[]"]) (auto simp: side_ok_def)
next
  case (quiet s1 s')
  then show ?thesis
    using flush_ok [OF local_op_ok [OF quiet(2)] quiet(3)] assms(3)
    by (intro exI [of _ m] exI [of _ j] exI [of _ "[]"]) (auto simp: side_ok_def)
next
  case (do_read data err now s')
  then show ?thesis
    using flush_ok [OF readDone_ok [OF _ do_read(2,3)] do_read(4)] assms(3)
    by (intro exI [of _ m] exI [of _ j] exI [of _ "readHist data err"]) (auto simp: side_ok_def)
next
  case (do_write s1 bs s')
  have "end_ok (sd_hist x) hp m j (sd_written x @ concat bs) s1"
    using writeTake_ok [of "sd_hist x" hp m j "sd_written x" "sd_s x"] assms(3) do_write(2) by (simp add: side_ok_def)
  then show ?thesis
    using flush_ok [OF _ do_write(3)] assms(3) do_write(1)
    by (intro exI [of _ m] exI [of _ j] exI [of _ "[]"]) (auto simp: side_ok_def)
qed

text \<open>The peer's history may grow.\<close>

lemma side_ok_extend:
  assumes "side_ok hp m j x"
  shows "side_ok (hp @ h) m j x"
proof -
  have "\<forall>f \<in> set (sm_out (sd_s x)). frame_ok (sd_hist x) (hp @ h) m f"
    using assms frame_ok_extend [of "sd_hist x" hp m _ "[]" h] by (auto simp: side_ok_def end_defs)
  moreover have "\<exists>i. segAt (hp @ h) i g" if "\<exists>i. segAt hp i g" for g using that segAt_append by blast
  then have "\<forall>x \<in> set (sm_ooo (sd_s x)). case x of (k, g) \<Rightarrow> k = sg_seq g \<and> (\<exists>i. segAt (hp @ h) i g)"
    using assms by (fastforce simp: side_ok_def end_defs)
  ultimately show ?thesis using assms by (auto simp: side_ok_def end_defs)
qed

definition sys_inv :: "stream_sys \<Rightarrow> bool" where
  "sys_inv y \<longleftrightarrow> (\<exists>ma mb ja jb. side_ok (sd_hist (sy_b y)) ma ja (sy_a y) \<and> side_ok (sd_hist (sy_a y)) mb jb (sy_b y)
     \<and> ja \<le> mb \<and> jb \<le> ma
     \<and> (\<forall>f \<in> set (sy_ab y). frame_ok (sd_hist (sy_a y)) (sd_hist (sy_b y)) ma f)
     \<and> (\<forall>f \<in> set (sy_ba y). frame_ok (sd_hist (sy_b y)) (sd_hist (sy_a y)) mb f))"

lemma frame_ok_mark [simp]: "frame_ok hs hp m (markClient e f) = frame_ok hs hp m f"
  by (simp add: frame_ok_def frameAt_def markClient_def)

lemma side_ok_bounds: "side_ok hp m j x \<Longrightarrow> hist_ok (sd_hist x) \<and> m \<le> length hp \<and> j \<le> length (sd_hist x)"
  by (simp add: side_ok_def end_defs)

lemma one_step_inv:
  assumes x: "side_ok (sd_hist z) m j x" and z: "side_ok (sd_hist x) mz jz z" and le: "j \<le> mz" "jz \<le> m"
    and net: "\<forall>f \<in> set xz. frame_ok (sd_hist x) (sd_hist z) m f" "\<forall>f \<in> set zx. frame_ok (sd_hist z) (sd_hist x) mz f"
    and st: "side_step (set zx) x x' out"
  shows "\<exists>m' j'. side_ok (sd_hist z) m' j' x' \<and> side_ok (sd_hist x') mz jz z \<and> j' \<le> mz \<and> jz \<le> m'
    \<and> (\<forall>f \<in> set (xz @ map (markClient e) out). frame_ok (sd_hist x') (sd_hist z) m' f)
    \<and> (\<forall>f \<in> set zx. frame_ok (sd_hist z) (sd_hist x') mz f)"
proof -
  have b: "hist_ok (sd_hist z)" "mz \<le> length (sd_hist x)" "m \<le> length (sd_hist z)"
    using side_ok_bounds [OF x] side_ok_bounds [OF z] by auto
  obtain m' j' h where r: "m \<le> m'" "j \<le> j'" "j' \<le> max j mz" "sd_hist x' = sd_hist x @ h" "side_ok (sd_hist z) m' j' x'"
      "\<forall>f \<in> set out. frame_ok (sd_hist x') (sd_hist z) m' f"
    using side_step_ok [OF st b(1) x net(2) b(2)] by blast
  have "side_ok (sd_hist x') mz jz z" using side_ok_extend [OF z, of h] r(4) by simp
  moreover have "\<forall>f \<in> set xz. frame_ok (sd_hist x') (sd_hist z) m' f"
    using net(1) r(1,4) b(3) frame_ok_extend [of "sd_hist x" "sd_hist z" m _ h "[]"] frame_ok_mono [of _ _ m _ m'] by auto
  moreover have "\<forall>f \<in> set zx. frame_ok (sd_hist z) (sd_hist x') mz f"
    using net(2) r(4) b(2) frame_ok_extend [of "sd_hist z" "sd_hist x" mz _ "[]" h] by auto
  ultimately show ?thesis using r le by (intro exI [of _ m'] exI [of _ j']) auto
qed

lemma sys_step_inv: "sys_step y z \<Longrightarrow> sys_inv y \<Longrightarrow> sys_inv z"
proof (induction rule: sys_step.induct)
  case (at_a y a' out)
  then obtain ma mb ja jb where i: "side_ok (sd_hist (sy_b y)) ma ja (sy_a y)" "side_ok (sd_hist (sy_a y)) mb jb (sy_b y)"
      "ja \<le> mb" "jb \<le> ma" "\<forall>f \<in> set (sy_ab y). frame_ok (sd_hist (sy_a y)) (sd_hist (sy_b y)) ma f"
      "\<forall>f \<in> set (sy_ba y). frame_ok (sd_hist (sy_b y)) (sd_hist (sy_a y)) mb f"
    unfolding sys_inv_def by blast
  then show ?case
    using one_step_inv [OF i at_a.hyps, of "sm_e (sd_s a')"] unfolding sys_inv_def by fastforce
next
  case (at_b y b' out)
  then obtain ma mb ja jb where i: "side_ok (sd_hist (sy_b y)) ma ja (sy_a y)" "side_ok (sd_hist (sy_a y)) mb jb (sy_b y)"
      "ja \<le> mb" "jb \<le> ma" "\<forall>f \<in> set (sy_ab y). frame_ok (sd_hist (sy_a y)) (sd_hist (sy_b y)) ma f"
      "\<forall>f \<in> set (sy_ba y). frame_ok (sd_hist (sy_b y)) (sd_hist (sy_a y)) mb f"
    unfolding sys_inv_def by blast
  then show ?case
    using one_step_inv [OF i(2,1,4,3,6,5) at_b.hyps, of "sm_e (sd_s b')"] unfolding sys_inv_def by fastforce
qed

lemma new_end_ok: "end_ok [] hp 0 0 [] (newTcpStream now e i b)"
  by (simp add: end_defs newTcpStream_def offw_def hist_data_def ns_milli_def ns_second_def)

lemma initSys_inv: "sys_inv (initSys now ea eb i target)"
proof -
  have h: "hist_ok [(tcpFrameOpen, target)]" by (simp add: hist_ok_def off_def slen_def frame_consts)
  have "end_ok ([] @ [(tcpFrameOpen, target)]) [] 0 0 [] (queueSegment now tcpFrameOpen target (newTcpStream now ea i True))"
    by (rule queueSegment_ok [OF new_end_ok]) (use h in \<open>simp_all add: newTcpStream_def\<close>)
  then have "end_ok [(tcpFrameOpen, target)] [] 0 0 [] (openStream now ea i target)"
    unfolding openStream_def append_Nil by (rule end_ok_same) (simp add: same_core_def)
  moreover obtain s out where s: "flushOut (openStream now ea i target) = (s, out)" by force
  ultimately have "end_ok [(tcpFrameOpen, target)] [] 0 0 [] s" "\<forall>f \<in> set out. frame_ok [(tcpFrameOpen, target)] [] 0 f"
    using flush_ok by blast+
  then show ?thesis
    using h new_end_ok [of "[(tcpFrameOpen, target)]" now eb i False]
    unfolding sys_inv_def initSys_def Let_def s
    by (intro exI [of _ 0]) (simp add: side_ok_def hist_ok_def off_def)
qed

lemma sys_reach_inv:
  assumes "sys_reach init y" "sys_inv init"
  shows "sys_inv y"
  using assms by (induction rule: sys_reach.induct) (auto intro: sys_step_inv)

lemma hist_data_prefix: "prefix (hist_data (take m h)) (hist_data h)"
proof -
  have "hist_data (take m h @ drop m h) = hist_data (take m h) @ hist_data (drop m h)"
    unfolding hist_data_def by (simp only: filter_append map_append concat_append)
  then show ?thesis by (metis append_take_drop_id prefixI)
qed

text \<open>What the invariant says about one end and the peer's history.\<close>

lemma side_ok_written:
  assumes "side_ok hp m j x"
  shows "prefix (sd_written x) (hist_data hp)"
proof -
  have "prefix (sd_written x) (hist_data (take m hp))"
    using assms by (auto simp: side_ok_def end_defs split: if_split_asm) (metis prefixI)
  then show ?thesis using hist_data_prefix by (rule prefix_order.trans)
qed

section \<open>Properties\<close>

text \<open>C29. Streams arrive intact: over a network that may lose, duplicate and reorder frames in any
  way, and with any interleaving of frames, timers, reads, writes and aborts at both ends, what an
  end has handed to its connection is always a prefix of what the other end has read from its own
  and queued; and no stream is ended twice.\<close>

theorem stream_delivers_prefix:
  assumes "sys_reach (initSys now ea eb i target) y"
  shows "prefix (sd_written (sy_b y)) (hist_data (sd_hist (sy_a y)))
    \<and> prefix (sd_written (sy_a y)) (hist_data (sd_hist (sy_b y)))
    \<and> sm_ends (sd_s (sy_a y)) \<le> 1 \<and> sm_ends (sd_s (sy_b y)) \<le> 1"
  using sys_reach_inv [OF assms initSys_inv] side_ok_written
  by (fastforce simp: sys_inv_def side_ok_def end_ok_def)

definition demoSys :: stream_sys where
  "demoSys = initSys 0 (demoEndpoint True) (demoEndpoint False) 1 [104]"

lemma demo_read:
  "\<exists>y. sys_reach demoSys y \<and> sd_hist (sy_a y) = [(tcpFrameOpen, [104]), (tcpFrameData, [1, 2])]"
proof -
  obtain s' out where s: "flushOut (readDone 5 [1, 2] None (sd_s (sy_a demoSys))) = (s', out)" by force
  have "\<not> sm_dead (sd_s (sy_a demoSys))" "sd_hist (sy_a demoSys) = [(tcpFrameOpen, [104])]"
    by (simp_all add: demoSys_def initSys_def flushOut_def openStream_def newTcpStream_def)
  then have "side_step (set (sy_ba demoSys)) (sy_a demoSys)
      ((sy_a demoSys)\<lparr>sd_s := s', sd_hist := sd_hist (sy_a demoSys) @ readHist [1, 2] None\<rparr>) out"
    by (intro side_step.do_read [OF _ _ s]) (simp_all add: hist_ok_def readHist_def off_def slen_def frame_consts)
  from sys_reach.more [OF sys_reach.start sys_step.at_a [OF this]] show ?thesis
    using \<open>sd_hist (sy_a demoSys) = _\<close> by (intro exI conjI) (assumption, simp add: readHist_def)
qed

theorem stream_delivers_prefix_witness:
  "\<exists>y. sys_reach demoSys y \<and> prefix (sd_written (sy_b y)) (hist_data [(tcpFrameOpen, [104]), (tcpFrameData, [1, 2])])"
  using demo_read stream_delivers_prefix [of 0 "demoEndpoint True" "demoEndpoint False" 1 "[104]"]
  by (fastforce simp: demoSys_def)

lemma acked_side:
  assumes "side_ok hp m j x" "side_ok (sd_hist x) m' j' y" "j \<le> m'" "\<not> sm_dead (sd_s y)"
    and "sm_sndUna (sd_s x) = sm_sndNxt (sd_s x)"
  shows "sd_written y @ concat (sm_rcvQueue (sd_s y)) = hist_data (sd_hist x)"
proof -
  have h: "hist_ok (sd_hist x)" "m' \<le> length (sd_hist x)" "j \<le> length (sd_hist x)"
    using side_ok_bounds [OF assms(1)] side_ok_bounds [OF assms(2)] by auto
  have "offw (sd_hist x) j = offw (sd_hist x) (length (sd_hist x))"
    using assms(1,5) unfolding side_ok_def end_ok_def send_ok_def by metis
  then have "j = length (sd_hist x)" using offw_eq [OF h(1,3)] by simp
  then have "take m' (sd_hist x) = sd_hist x" using assms(3) h(2) by simp
  then show ?thesis using assms(2,4) by (simp add: side_ok_def end_defs)
qed

text \<open>C31. Acknowledged means delivered, in both directions: while neither end of a stream is closed
  or reset, an end that has no unacknowledged sequence number left knows that every byte it read
  from its own connection is at the other end, either handed to the connection there or waiting in
  order in the receive queue. (An end that is closed may drop what it has acknowledged; the
  hypothesis excludes it.)\<close>

theorem acked_data_is_delivered:
  assumes "sys_reach (initSys now ea eb i target) y"
    and "\<not> sm_dead (sd_s (sy_a y))" "\<not> sm_dead (sd_s (sy_b y))"
  shows "(sm_sndUna (sd_s (sy_a y)) = sm_sndNxt (sd_s (sy_a y)) \<longrightarrow>
      sd_written (sy_b y) @ concat (sm_rcvQueue (sd_s (sy_b y))) = hist_data (sd_hist (sy_a y)))
    \<and> (sm_sndUna (sd_s (sy_b y)) = sm_sndNxt (sd_s (sy_b y)) \<longrightarrow>
      sd_written (sy_a y) @ concat (sm_rcvQueue (sd_s (sy_a y))) = hist_data (sd_hist (sy_b y)))"
proof -
  obtain ma mb ja jb where "side_ok (sd_hist (sy_b y)) ma ja (sy_a y)" "side_ok (sd_hist (sy_a y)) mb jb (sy_b y)"
      "ja \<le> mb" "jb \<le> ma"
    using sys_reach_inv [OF assms(1) initSys_inv] unfolding sys_inv_def by blast
  then show ?thesis using acked_side assms(2,3) by blast
qed

text \<open>In the witness the client end reads two bytes, the server end takes the OPEN and the DATA
  frame, its delayed acknowledgement is sent, and the client end takes it.\<close>

definition readA :: "gotime \<Rightarrow> bytes \<Rightarrow> stream_sys \<Rightarrow> stream_sys" where
  "readA now data y = (let x = sy_a y; (s, out) = flushOut (readDone now data None (sd_s x))
     in y\<lparr>sy_a := x\<lparr>sd_s := s, sd_hist := sd_hist x @ readHist data None\<rparr>,
          sy_ab := sy_ab y @ map (markClient (sm_e s)) out\<rparr>)"

definition gotB :: "gotime \<Rightarrow> tcp_frame \<Rightarrow> stream_sys \<Rightarrow> stream_sys" where
  "gotB now f y = (let x = sy_b y; (s, out) = flushOut (handleFrame now f (sd_s x))
     in y\<lparr>sy_b := x\<lparr>sd_s := s\<rparr>, sy_ba := sy_ba y @ map (markClient (sm_e s)) out\<rparr>)"

definition ackB :: "stream_sys \<Rightarrow> stream_sys" where
  "ackB y = (let x = sy_b y; (s, out) = flushOut (onAckTimer (sd_s x))
     in y\<lparr>sy_b := x\<lparr>sd_s := s\<rparr>, sy_ba := sy_ba y @ map (markClient (sm_e s)) out\<rparr>)"

definition gotA :: "gotime \<Rightarrow> tcp_frame \<Rightarrow> stream_sys \<Rightarrow> stream_sys" where
  "gotA now f y = (let x = sy_a y; (s, out) = flushOut (handleFrame now f (sd_s x))
     in y\<lparr>sy_a := x\<lparr>sd_s := s\<rparr>, sy_ab := sy_ab y @ map (markClient (sm_e s)) out\<rparr>)"

lemma gotB_step: "f \<in> set (sy_ab y) \<Longrightarrow> sys_step y (gotB now f y)"
  using at_b [OF got [of f "set (sy_ab y)" now "sy_b y"]] by (simp add: gotB_def Let_def flushOut_def)

lemma ackB_step: "sys_step y (ackB y)"
proof -
  obtain s out where f: "flushOut (onAckTimer (sd_s (sy_b y))) = (s, out)" by force
  show ?thesis using at_b [OF quiet [OF ack_timer f]] f by (simp add: ackB_def Let_def)
qed

lemma gotA_step: "f \<in> set (sy_ba y) \<Longrightarrow> sys_step y (gotA now f y)"
  using at_a [OF got [of f "set (sy_ba y)" now "sy_a y"]] by (simp add: gotA_def Let_def flushOut_def)

lemma readA_step:
  "\<not> sm_dead (sd_s (sy_a y)) \<Longrightarrow> hist_ok (sd_hist (sy_a y) @ readHist data None) \<Longrightarrow> sys_step y (readA now data y)"
  using at_a [OF do_read [of "sy_a y" data None now]] by (simp add: readA_def Let_def flushOut_def)

definition demoY :: "nat \<Rightarrow> stream_sys" where
  "demoY n = (let y0 = readA 5 [1, 2] demoSys; y1 = gotB 6 (hd (sy_ab y0)) y0; y2 = ackB (gotB 7 (last (sy_ab y0)) y1)
     in [demoSys, y0, y1, y2, gotA 8 (last (sy_ba y2)) y2] ! n)"

lemma demo_vals:
  "\<not> sm_dead (sd_s (sy_a (demoY 0)))" "sd_hist (sy_a (demoY 0)) = [(tcpFrameOpen, [104])]"
  "sy_ab (demoY 1) \<noteq> []" "sy_ab (demoY 2) = sy_ab (demoY 1)" "sy_ba (demoY 3) \<noteq> []"
  by code_simp+

lemma demo_final:
  "\<not> sm_dead (sd_s (sy_a (demoY 4)))" "\<not> sm_dead (sd_s (sy_b (demoY 4)))"
  "sm_sndUna (sd_s (sy_a (demoY 4))) = sm_sndNxt (sd_s (sy_a (demoY 4)))"
  "hist_data (sd_hist (sy_a (demoY 4))) = [1, 2]"
  "sm_sndUna (sd_s (sy_b (demoY 4))) = sm_sndNxt (sd_s (sy_b (demoY 4)))"
  "hist_data (sd_hist (sy_b (demoY 4))) = []"
  by code_simp+

lemma demo_reach: "sys_reach demoSys (demoY 4)"
proof -
  have e: "demoY 1 = readA 5 [1, 2] (demoY 0)" "demoY 2 = gotB 6 (hd (sy_ab (demoY 1))) (demoY 1)"
      "demoY 3 = ackB (gotB 7 (last (sy_ab (demoY 1))) (demoY 2))" "demoY 4 = gotA 8 (last (sy_ba (demoY 3))) (demoY 3)"
      "demoY 0 = demoSys"
    by (simp_all add: demoY_def Let_def)
  have "hist_ok (sd_hist (sy_a (demoY 0)) @ readHist [1, 2] None)"
    unfolding demo_vals by (simp add: hist_ok_def readHist_def off_def slen_def frame_consts)
  then have "sys_step (demoY 0) (demoY 1)" unfolding e(1) by (rule readA_step [OF demo_vals(1)])
  moreover have "sys_step (demoY 1) (demoY 2)" unfolding e(2) by (rule gotB_step) (use demo_vals(3) in simp)
  moreover have "sys_step (demoY 2) (gotB 7 (last (sy_ab (demoY 1))) (demoY 2))" by (rule gotB_step) (use demo_vals(3,4) in simp)
  moreover have "sys_step (gotB 7 (last (sy_ab (demoY 1))) (demoY 2)) (demoY 3)" unfolding e(3) by (rule ackB_step)
  moreover have "sys_step (demoY 3) (demoY 4)" unfolding e(4) by (rule gotA_step) (use demo_vals(5) in simp)
  moreover have "sys_reach demoSys (demoY 0)" unfolding e(5) by (rule start)
  ultimately show ?thesis by (metis more)
qed

theorem acked_data_is_delivered_witness:
  "sys_reach demoSys (demoY 4) \<and>
   sd_written (sy_b (demoY 4)) @ concat (sm_rcvQueue (sd_s (sy_b (demoY 4)))) = [1, 2] \<and>
   sd_written (sy_a (demoY 4)) @ concat (sm_rcvQueue (sd_s (sy_a (demoY 4)))) = []"
  using demo_reach acked_data_is_delivered [of 0 "demoEndpoint True" "demoEndpoint False" 1 "[104]" "demoY 4"] demo_final
  by (simp add: demoSys_def)

end
