(* ===== verification/Detector.thy ===== *)
theory Detector
  imports Packet "HOL-Library.Sublist"
begin

text \<open>
  \<open>src/protocol_detector.go\<close>: byte signatures that recognise the protocol of a datagram. A rule
  keeps its configured strings and the bytes \<open>preprocess\<close> decodes from them. Indexing out of
  bounds is a panic (\<open>None\<close>).
\<close>

unbundle bit_operations_syntax

section \<open>Rules\<close>

record length_match =
  lm_min :: int
  lm_max :: int

record signature_rule =
  sr_offset :: int
  sr_bytes :: string
  sr_mask :: string
  sr_contains :: string
  sr_hex :: bool
  sr_length :: "length_match option"
  sr_decodedBytes :: bytes
  sr_decodedMask :: bytes
  sr_decodedContains :: bytes

record protocol_definition =
  pd_signatures :: "signature_rule list"
  pd_matchLogic :: string
  pd_priority :: int

type_synonym detector = "string \<rightharpoonup> protocol_definition"

text \<open>The bytes of a Go string, and \<open>hex.DecodeString\<close> (an error is \<open>None\<close>).\<close>

definition str_bytes :: "string \<Rightarrow> bytes" where
  "str_bytes s = map (\<lambda>c. word_of_nat (of_char c)) s"

definition hexDigit :: "char \<Rightarrow> nat option" where
  "hexDigit c = (let n = (of_char c :: nat) in
     if 48 \<le> n \<and> n \<le> 57 then Some (n - 48)
     else if 97 \<le> n \<and> n \<le> 102 then Some (n - 87)
     else if 65 \<le> n \<and> n \<le> 70 then Some (n - 55)
     else None)"

fun hexDecode :: "string \<Rightarrow> bytes option" where
  "hexDecode [] = Some []"
| "hexDecode [c] = None"
| "hexDecode (c # d # cs) = do {
     a \<leftarrow> hexDigit c;
     b \<leftarrow> hexDigit d;
     bs \<leftarrow> hexDecode cs;
     Some (word_of_nat (16 * a + b) # bs)
   }"

text \<open>One field of \<open>preprocess\<close>: \<open>old\<close> stays when the field is empty or does not decode.\<close>

definition decodeField :: "bool \<Rightarrow> string \<Rightarrow> bytes \<Rightarrow> bytes" where
  "decodeField hex s old =
     (if s = [] then old
      else if hex then (case hexDecode s of Some d \<Rightarrow> d | None \<Rightarrow> old)
      else str_bytes s)"

definition preprocessRule :: "signature_rule \<Rightarrow> signature_rule" where
  "preprocessRule g = g\<lparr>
     sr_decodedBytes := decodeField (sr_hex g) (sr_bytes g) (sr_decodedBytes g),
     sr_decodedMask := decodeField (sr_hex g) (sr_mask g) (sr_decodedMask g),
     sr_decodedContains := decodeField (sr_hex g) (sr_contains g) (sr_decodedContains g)\<rparr>"

definition preprocess :: "detector \<Rightarrow> detector" where
  "preprocess defs = (\<lambda>n. map_option (\<lambda>d. d\<lparr>pd_signatures := map preprocessRule (pd_signatures d)\<rparr>) (defs n))"

definition newProtocolDetector :: "detector \<Rightarrow> detector" where
  "newProtocolDetector defs = preprocess defs"

section \<open>Matching\<close>

definition byteAt :: "bytes \<Rightarrow> int \<Rightarrow> byte option" where
  "byteAt d i = (if 0 \<le> i \<and> i < int (length d) then Some (d ! nat i) else None)"

text \<open>The two comparison loops; \<open>i\<close> is the loop variable.\<close>

fun matchMasked :: "bytes \<Rightarrow> int \<Rightarrow> nat \<Rightarrow> bytes \<Rightarrow> bytes \<Rightarrow> bool option" where
  "matchMasked d off i [] msk = Some True"
| "matchMasked d off i (p # ps) msk =
     (if length msk \<le> i then Some True
      else do {
        x \<leftarrow> byteAt d (off + int i);
        if x AND msk ! i \<noteq> p AND msk ! i then Some False else matchMasked d off (Suc i) ps msk
      })"

fun matchPlain :: "bytes \<Rightarrow> int \<Rightarrow> nat \<Rightarrow> bytes \<Rightarrow> bool option" where
  "matchPlain d off i [] = Some True"
| "matchPlain d off i (p # ps) = do {
     x \<leftarrow> byteAt d (off + int i);
     if x \<noteq> p then Some False else matchPlain d off (Suc i) ps
   }"

text \<open>\<open>bytes.Contains\<close> and \<open>strings.Contains\<close>\<close>

fun listContain :: "'a list \<Rightarrow> 'a list \<Rightarrow> bool" where
  "listContain [] p = (p = [])"
| "listContain (x # xs) p = (take (length p) (x # xs) = p \<or> listContain xs p)"

definition lengthOk :: "length_match option \<Rightarrow> int \<Rightarrow> bool" where
  "lengthOk l n = (case l of None \<Rightarrow> True
     | Some m \<Rightarrow> \<not> (0 < lm_min m \<and> n < lm_min m) \<and> \<not> (0 < lm_max m \<and> lm_max m < n))"

definition matchSignature :: "bytes \<Rightarrow> signature_rule \<Rightarrow> bool option" where
  "matchSignature d g =
     (if \<not> lengthOk (sr_length g) (int (length d)) then Some False
      else do {
        ok \<leftarrow> (if sr_bytes g \<noteq> [] then
                 if int (length d) < i64 (sr_offset g + int (length (sr_decodedBytes g))) then Some False
                 else if sr_decodedMask g \<noteq> []
                 then matchMasked d (sr_offset g) 0 (sr_decodedBytes g) (sr_decodedMask g)
                 else matchPlain d (sr_offset g) 0 (sr_decodedBytes g)
               else Some True);
        if \<not> ok then Some False
        else Some (sr_contains g = [] \<or> listContain d (sr_decodedContains g))
      })"

fun matchSignatures :: "bool \<Rightarrow> bytes \<Rightarrow> signature_rule list \<Rightarrow> bool option" where
  "matchSignatures matchAll d [] = Some matchAll"
| "matchSignatures matchAll d (g # gs) = do {
     matched \<leftarrow> matchSignature d g;
     if matchAll \<and> \<not> matched then Some False
     else if \<not> matchAll \<and> matched then Some True
     else matchSignatures matchAll d gs
   }"

definition matchProtocol :: "bytes \<Rightarrow> protocol_definition \<Rightarrow> bool option" where
  "matchProtocol d def =
     (if pd_signatures def = [] then Some False
      else matchSignatures (pd_matchLogic def = ''AND'') d (pd_signatures def))"

text \<open>A name without a definition is Go's zero definition: it has no signatures.\<close>

fun detectProtocol :: "detector \<Rightarrow> bytes \<Rightarrow> string list \<Rightarrow> string option" where
  "detectProtocol ps d [] = Some []"
| "detectProtocol ps d (n # ns) = do {
     matched \<leftarrow> (case ps n of None \<Rightarrow> Some False | Some def \<Rightarrow> matchProtocol d def);
     if matched then Some n else detectProtocol ps d ns
   }"

section \<open>What a rule means\<close>

text \<open>The reading of the documentation: the pattern's bytes stand at the offset, compared under
  the mask where there is one, and the packet contains the other pattern.\<close>

definition sigMeans :: "signature_rule \<Rightarrow> bytes \<Rightarrow> bool" where
  "sigMeans g d \<longleftrightarrow>
     lengthOk (sr_length g) (int (length d))
     \<and> (sr_bytes g \<noteq> [] \<longrightarrow>
          nat (sr_offset g) + length (sr_decodedBytes g) \<le> length d
          \<and> (\<forall>i < length (sr_decodedBytes g).
               if sr_decodedMask g = [] then d ! (nat (sr_offset g) + i) = sr_decodedBytes g ! i
               else i < length (sr_decodedMask g) \<longrightarrow>
                 d ! (nat (sr_offset g) + i) AND sr_decodedMask g ! i = sr_decodedBytes g ! i AND sr_decodedMask g ! i))
     \<and> (sr_contains g \<noteq> [] \<longrightarrow> sublist (sr_decodedContains g) d)"

definition protoMeans :: "protocol_definition \<Rightarrow> bytes \<Rightarrow> bool" where
  "protoMeans def d \<longleftrightarrow> pd_signatures def \<noteq> [] \<and>
     (if pd_matchLogic def = ''AND'' then \<forall>g \<in> set (pd_signatures def). sigMeans g d
      else \<exists>g \<in> set (pd_signatures def). sigMeans g d)"

definition sig_wf :: "signature_rule \<Rightarrow> bool" where
  "sig_wf g \<longleftrightarrow> 0 \<le> sr_offset g \<and> sr_offset g + int (length (sr_decodedBytes g)) \<le> max_i64"

lemma listContain_iff: "listContain d p \<longleftrightarrow> sublist p d"
proof (induction d)
  case Nil
  then show ?case by simp
next
  case (Cons x xs)
  have "take (length p) (x # xs) = p \<longleftrightarrow> prefix p (x # xs)"
    by (metis append_eq_conv_conj append_take_drop_id prefixE prefixI)
  then show ?case using Cons by (simp add: sublist_Cons_right)
qed

lemma byteAt_in: "0 \<le> off \<Longrightarrow> nat off + i < length d \<Longrightarrow> byteAt d (off + int i) = Some (d ! (nat off + i))"
  by (simp add: byteAt_def nat_add_distrib)

lemma matchMasked_eq:
  assumes "0 \<le> off" "nat off + i + length ps \<le> length d"
  shows "matchMasked d off i ps msk = Some (\<forall>k < length ps. i + k < length msk \<longrightarrow>
    d ! (nat off + i + k) AND msk ! (i + k) = ps ! k AND msk ! (i + k))"
  using assms
proof (induction ps arbitrary: i)
  case Nil
  then show ?case by simp
next
  case (Cons p ps)
  show ?case
  proof (cases "length msk \<le> i")
    case True
    then show ?thesis by simp
  next
    case False
    have "nat off + Suc i + length ps \<le> length d" using Cons.prems(2) by simp
    note IH = Cons.IH [OF Cons.prems(1) this]
    have "byteAt d (off + int i) = Some (d ! (nat off + i))" using Cons.prems by (intro byteAt_in) auto
    then show ?thesis using False IH by (simp add: All_less_Suc2 Ex_less_Suc2)
  qed
qed

lemma matchPlain_eq:
  assumes "0 \<le> off" "nat off + i + length ps \<le> length d"
  shows "matchPlain d off i ps = Some (\<forall>k < length ps. d ! (nat off + i + k) = ps ! k)"
  using assms
proof (induction ps arbitrary: i)
  case Nil
  then show ?case by simp
next
  case (Cons p ps)
  have "nat off + Suc i + length ps \<le> length d" using Cons.prems(2) by simp
  note IH = Cons.IH [OF Cons.prems(1) this]
  have "byteAt d (off + int i) = Some (d ! (nat off + i))" using Cons.prems by (intro byteAt_in) auto
  then show ?case using IH by (simp add: All_less_Suc2 Ex_less_Suc2)
qed

lemma matchSignature_eq:
  assumes "sig_wf g"
  shows "matchSignature d g = Some (sigMeans g d)"
proof -
  let ?n = "length (sr_decodedBytes g)"
  have o: "0 \<le> sr_offset g" and "sr_offset g + int ?n \<le> max_i64" using assms by (simp_all add: sig_wf_def)
  then have w: "i64 (sr_offset g + int ?n) = sr_offset g + int ?n" by (intro i64_id) (simp_all add: min_i64_def)
  have fit: "int (length d) < sr_offset g + int ?n \<longleftrightarrow> \<not> nat (sr_offset g) + ?n \<le> length d" using o by linarith
  show ?thesis
  proof (cases "nat (sr_offset g) + ?n \<le> length d")
    case True
    then have "nat (sr_offset g) + 0 + ?n \<le> length d" by simp
    note m = matchMasked_eq [OF o this, of "sr_decodedMask g"] matchPlain_eq [OF o this]
    show ?thesis using True
      by (cases "sr_decodedMask g = []") (auto simp: matchSignature_def sigMeans_def w fit m listContain_iff)
  next
    case False
    then show ?thesis by (auto simp: matchSignature_def sigMeans_def w fit listContain_iff)
  qed
qed

lemma matchSignatures_eq:
  assumes "\<forall>g \<in> set gs. sig_wf g"
  shows "matchSignatures matchAll d gs
    = Some (if matchAll then \<forall>g \<in> set gs. sigMeans g d else \<exists>g \<in> set gs. sigMeans g d)"
  using assms by (induction gs) (auto simp: matchSignature_eq)

lemma matchProtocol_eq:
  assumes "\<forall>g \<in> set (pd_signatures def). sig_wf g"
  shows "matchProtocol d def = Some (protoMeans def d)"
  using assms by (simp add: matchProtocol_def matchSignatures_eq protoMeans_def)

section \<open>Properties\<close>

text \<open>C39. Detection returns the first configured protocol whose rules mean a match, in the order
  of \<open>use_proto_detectors\<close>, or the empty string, and never panics, when no offset is negative or
  out of the range of machine integers.\<close>

theorem detect_first_match:
  assumes "\<forall>n def. ps n = Some def \<longrightarrow> (\<forall>g \<in> set (pd_signatures def). sig_wf g)"
  shows "detectProtocol ps d names
    = Some (case find (\<lambda>n. \<exists>def. ps n = Some def \<and> protoMeans def d) names of None \<Rightarrow> [] | Some n \<Rightarrow> n)"
proof (induction names)
  case Nil
  then show ?case by simp
next
  case (Cons n names)
  then show ?case using assms matchProtocol_eq by (cases "ps n") auto
qed

definition demoRule :: signature_rule where
  "demoRule = \<lparr>sr_offset = 0, sr_bytes = ''04000000'', sr_mask = ''ff'', sr_contains = [], sr_hex = True,
     sr_length = Some \<lparr>lm_min = 4, lm_max = 0\<rparr>, sr_decodedBytes = [], sr_decodedMask = [], sr_decodedContains = []\<rparr>"

definition demoDetector :: detector where
  "demoDetector = newProtocolDetector [''wg'' \<mapsto> \<lparr>pd_signatures = [demoRule], pd_matchLogic = ''AND'', pd_priority = 0\<rparr>]"

lemma demoDetector_wf: "demoDetector n = Some def \<Longrightarrow> \<forall>g \<in> set (pd_signatures def). sig_wf g"
  by (auto simp: demoDetector_def newProtocolDetector_def preprocess_def preprocessRule_def demoRule_def sig_wf_def
      decodeField_def max_i64_def hexDigit_def Let_def split: if_splits)

theorem detect_first_match_witness:
  "detectProtocol demoDetector [4, 1, 2, 3] [''dns'', ''wg''] = Some ''wg''"
proof -
  have "detectProtocol demoDetector [4, 1, 2, 3] [''dns'', ''wg'']
      = Some (case find (\<lambda>n. \<exists>def. demoDetector n = Some def \<and> protoMeans def [4, 1, 2, 3]) [''dns'', ''wg''] of
          None \<Rightarrow> [] | Some n \<Rightarrow> n)"
    by (rule detect_first_match) (use demoDetector_wf in blast)
  then show ?thesis
    by (simp add: demoDetector_def newProtocolDetector_def preprocess_def protoMeans_def sigMeans_def preprocessRule_def
      demoRule_def decodeField_def hexDigit_def Let_def lengthOk_def less_Suc_eq numeral_eq_Suc)
qed

text \<open>A pattern that is not valid hex is only logged: its rule then matches every packet that
  is at least \<open>offset\<close> bytes long and passes its other checks.\<close>

theorem invalid_hex_matches_everything:
  assumes "sr_hex g" "sr_bytes g \<noteq> []" "hexDecode (sr_bytes g) = None" "sr_decodedBytes g = []"
    and "sr_contains g = []" "sr_length g = None" "0 \<le> sr_offset g" "sr_offset g \<le> int (length d)" "sr_offset g \<le> max_i64"
  shows "matchSignature d (preprocessRule g) = Some True"
proof -
  have "sig_wf (preprocessRule g)" using assms by (simp add: sig_wf_def preprocessRule_def decodeField_def)
  then show ?thesis
    using assms by (simp add: matchSignature_eq sigMeans_def preprocessRule_def decodeField_def lengthOk_def)
qed

theorem invalid_hex_matches_everything_witness:
  "matchSignature [9, 9, 9] (preprocessRule (demoRule\<lparr>sr_bytes := ''0x04'', sr_length := None\<rparr>)) = Some True"
  by (rule invalid_hex_matches_everything) (simp_all add: demoRule_def max_i64_def hexDigit_def Let_def)

end
