(* ===== verification/LoadBalancer.thy ===== *)
theory LoadBalancer
  imports Detector
begin

text \<open>
  \<open>src/load_balancer.go\<close>: rules in an expression language choose the targets of a packet from its
  sequence number, its size, traffic averages and the state of other components. The compiler and
  the virtual machine of the language (\<open>expr-lang/expr\<close>) are a parameter: a program is its source
  text, and running it on an environment gives a value or an error. Other components are known by
  what the optional interfaces they implement answer.
\<close>

section \<open>Expressions and other components\<close>

datatype expr_val = VBool bool | VInt int | VInt64 int | VUint64 "64 word" | VFloat rat | VOther

type_synonym expr_env = "string \<rightharpoonup> expr_val"

record expr_lang =
  xl_compile :: "string \<Rightarrow> expr_env \<Rightarrow> bool"
  xl_run :: "string \<Rightarrow> expr_env \<Rightarrow> expr_val option"

text \<open>A component as the balancer sees it: \<open>IsAvailable\<close>, the average delay of its authentication
  manager and \<open>QueueDelay\<close>, each where it has one.\<close>

record component_info =
  ci_available :: "bool option"
  ci_authDelay :: "duration option"
  ci_queueDelay :: "duration option"

type_synonym components = "string \<rightharpoonup> component_info"

definition checkTagAvailability :: "components \<Rightarrow> string \<Rightarrow> bool" where
  "checkTagAvailability cs tag = (case cs tag of None \<Rightarrow> False
     | Some c \<Rightarrow> (case ci_available c of None \<Rightarrow> True | Some b \<Rightarrow> b))"

definition maxFloat64 :: rat where
  "maxFloat64 = 2 ^ 1024 - 2 ^ 971"

definition checkTagDelay :: "floats \<Rightarrow> components \<Rightarrow> string \<Rightarrow> rat" where
  "checkTagDelay F cs tag = (case cs tag of None \<Rightarrow> maxFloat64
     | Some c \<Rightarrow> (case ci_authDelay c of None \<Rightarrow> maxFloat64
        | Some d \<Rightarrow> fl_div (fl_round F) (fl_of_int (fl_round F) d) 1000000))"

definition checkTagQueueDelay :: "floats \<Rightarrow> components \<Rightarrow> string \<Rightarrow> rat" where
  "checkTagQueueDelay F cs tag = (case cs tag of None \<Rightarrow> 0
     | Some c \<Rightarrow> (case ci_queueDelay c of None \<Rightarrow> 0
        | Some d \<Rightarrow> fl_div (fl_round F) (fl_of_int (fl_round F) d) (fl_of_int (fl_round F) ns_milli)))"

section \<open>State\<close>

record compiled_expression =
  ce_program :: string
  ce_varKeys :: "string list"
  ce_canCache :: bool
  ce_cachedResult :: "64 word"

record traffic_stats =
  st_samples :: "(64 word \<times> 64 word) list"
  st_currentIndex :: "32 word"
  st_windowSize :: "32 word"
  st_currentBytes :: "64 word"
  st_currentPackets :: "64 word"
  st_totalBytes :: "64 word"
  st_totalPackets :: "64 word"

record load_balancer =
  lb_detour :: "(string \<times> string list) list"
  lb_miss :: "string list"
  lb_stats :: traffic_stats
  lb_packetSeq :: "64 word"
  lb_compiledRules :: "compiled_expression list"
  lb_ruleTargets :: "string list list"
  lb_expressionCache :: "string \<rightharpoonup> compiled_expression"
  lb_enableCache :: bool
  lb_batchDecision :: bool
  lb_lastBatch :: "(64 word \<times> string list) option"

record lb_config =
  lc_detour :: "(string \<times> string list) list"
  lc_miss :: "string list"
  lc_windowSize :: "32 word"
  lc_enableCache :: bool
  lc_batchDecision :: bool

definition newLoadBalancer :: "lb_config \<Rightarrow> load_balancer" where
  "newLoadBalancer c = \<lparr>lb_detour = lc_detour c, lb_miss = lc_miss c,
     lb_stats = \<lparr>st_samples = replicate (unat (lc_windowSize c)) (0, 0), st_currentIndex = 0,
       st_windowSize = lc_windowSize c, st_currentBytes = 0, st_currentPackets = 0,
       st_totalBytes = 0, st_totalPackets = 0\<rparr>,
     lb_packetSeq = 0, lb_compiledRules = [], lb_ruleTargets = [], lb_expressionCache = (\<lambda>_. None),
     lb_enableCache = lc_enableCache c, lb_batchDecision = lc_batchDecision c, lb_lastBatch = None\<rparr>"

section \<open>Compiling the rules\<close>

text \<open>\<open>strings.Index\<close>\<close>

fun listIndex :: "'a list \<Rightarrow> 'a list \<Rightarrow> nat option" where
  "listIndex s p = (if take (length p) s = p then Some 0
     else case s of [] \<Rightarrow> None | x # xs \<Rightarrow> map_option Suc (listIndex xs p))"

declare listIndex.simps [simp del]

definition isIdent :: "char \<Rightarrow> bool" where
  "isIdent c = (let n = (of_char c :: nat) in
     c = CHR ''_'' \<or> 48 \<le> n \<and> n \<le> 57 \<or> 97 \<le> n \<and> n \<le> 122 \<or> 65 \<le> n \<and> n \<le> 90)"

definition identBounds :: "string \<Rightarrow> nat \<Rightarrow> nat \<Rightarrow> bool" where
  "identBounds e j k = ((j = 0 \<or> \<not> isIdent (e ! (j - 1))) \<and> (k = length e \<or> \<not> isIdent (e ! k)))"

function containsIdentFrom :: "string \<Rightarrow> string \<Rightarrow> nat \<Rightarrow> bool" where
  "containsIdentFrom e name i =
     (if i < length e then
        (case listIndex (drop i e) name of
           None \<Rightarrow> False
         | Some k \<Rightarrow> identBounds e (i + k) (i + k + length name) \<or> containsIdentFrom e name (i + k + 1))
      else False)"
  by pat_completeness auto
termination by (relation "measure (\<lambda>(e, name, i). length e - i)") auto

declare containsIdentFrom.simps [simp del]

definition containsIdent :: "string \<Rightarrow> string \<Rightarrow> bool" where
  "containsIdent e name = containsIdentFrom e name 0"

text \<open>\<open>findVariables\<close>; \<open>tags\<close> are the tags of the router's components in iteration order.\<close>

definition tagVariables :: "string \<Rightarrow> string list \<Rightarrow> string \<Rightarrow> string list" where
  "tagVariables pre tags e =
     (if listContain e pre then filter (containsIdent e) (map (\<lambda>t. pre @ t) tags) else [])"

definition findVariables :: "string list \<Rightarrow> string \<Rightarrow> string list" where
  "findVariables tags e =
     filter (listContain e) [''seq'', ''bps'', ''pps'', ''size'']
     @ tagVariables ''available_'' tags e @ tagVariables ''delay_'' tags e @ tagVariables ''qdelay_'' tags e"

text \<open>\<open>len(v) > len(pre) && v[:len(pre)] == pre\<close>\<close>

definition hasTag :: "string \<Rightarrow> string \<Rightarrow> bool" where
  "hasTag pre v \<longleftrightarrow> length pre < length v \<and> take (length pre) v = pre"

definition hasPrefix :: "string \<Rightarrow> string \<Rightarrow> bool" where
  "hasPrefix pre v \<longleftrightarrow> take (length pre) v = pre"

definition compileVar :: "string \<Rightarrow> expr_env \<Rightarrow> expr_env" where
  "compileVar v e0 =
     (let e1 = (if hasTag ''available_'' v then e0(v \<mapsto> VBool False) else e0);
          e2 = (if hasTag ''delay_'' v then e1(v \<mapsto> VUint64 0) else e1)
      in if hasPrefix ''qdelay_'' v then e2(v \<mapsto> VFloat 0) else e2)"

definition compileEnv :: "string list \<Rightarrow> expr_env" where
  "compileEnv vs = foldl (\<lambda>e v. compileVar v e)
     [''seq'' \<mapsto> VUint64 0, ''bps'' \<mapsto> VUint64 0, ''pps'' \<mapsto> VUint64 0, ''size'' \<mapsto> VUint64 0] vs"

definition uncacheable :: "string \<Rightarrow> bool" where
  "uncacheable v \<longleftrightarrow> v = ''seq'' \<or> v = ''size'' \<or> hasTag ''available_'' v \<or> hasTag ''delay_'' v \<or> hasPrefix ''qdelay_'' v"

text \<open>The loop that clears \<open>canCache\<close> runs once per variable, so a rule without variables stays cacheable.\<close>

fun canCacheLoop :: "bool \<Rightarrow> string list \<Rightarrow> bool" where
  "canCacheLoop enable [] = True"
| "canCacheLoop enable (v # vs) = (if \<not> enable then False else if uncacheable v then False else canCacheLoop enable vs)"

definition compileExpression :: "expr_lang \<Rightarrow> string list \<Rightarrow> string \<Rightarrow> load_balancer
    \<Rightarrow> (load_balancer \<times> compiled_expression) option" where
  "compileExpression X tags e lb = (case lb_expressionCache lb e of
     Some c \<Rightarrow> Some (lb, c)
   | None \<Rightarrow>
       let vs = findVariables tags e in
       if xl_compile X e (compileEnv vs)
       then let c = \<lparr>ce_program = e, ce_varKeys = vs, ce_canCache = canCacheLoop (lb_enableCache lb) vs, ce_cachedResult = 0\<rparr>
            in Some (lb\<lparr>lb_expressionCache := (lb_expressionCache lb)(e \<mapsto> c)\<rparr>, c)
       else None)"

text \<open>\<open>precompileRules\<close>, run by \<open>Start\<close>: \<open>None\<close> is its error.\<close>

fun precompileLoop :: "expr_lang \<Rightarrow> string list \<Rightarrow> (string \<times> string list) list \<Rightarrow> load_balancer \<Rightarrow> load_balancer option" where
  "precompileLoop X tags [] lb = Some lb"
| "precompileLoop X tags ((e, ts) # rs) lb = do {
     (lb1, c) \<leftarrow> compileExpression X tags e lb;
     precompileLoop X tags rs (lb1\<lparr>lb_compiledRules := lb_compiledRules lb1 @ [c], lb_ruleTargets := lb_ruleTargets lb1 @ [ts]\<rparr>)
   }"

definition precompileRules :: "expr_lang \<Rightarrow> string list \<Rightarrow> load_balancer \<Rightarrow> load_balancer option" where
  "precompileRules X tags lb =
     precompileLoop X tags (lb_detour lb) (lb\<lparr>lb_compiledRules := [], lb_ruleTargets := []\<rparr>)"

section \<open>Evaluating the rules\<close>

definition evalVar :: "floats \<Rightarrow> components \<Rightarrow> 64 word \<Rightarrow> 64 word \<Rightarrow> 64 word \<Rightarrow> 64 word \<Rightarrow> string \<Rightarrow> expr_env \<Rightarrow> expr_env" where
  "evalVar F cs sq bps pps sz v e0 =
     (if v = ''seq'' then e0(v \<mapsto> VUint64 sq)
      else if v = ''bps'' then e0(v \<mapsto> VUint64 bps)
      else if v = ''pps'' then e0(v \<mapsto> VUint64 pps)
      else if v = ''size'' then e0(v \<mapsto> VUint64 sz)
      else
        let e1 = (if hasTag ''available_'' v then e0(v \<mapsto> VBool (checkTagAvailability cs (drop 10 v))) else e0);
            e2 = (if hasTag ''delay_'' v then e1(v \<mapsto> VFloat (checkTagDelay F cs (drop 6 v))) else e1)
        in if hasPrefix ''qdelay_'' v then e2(v \<mapsto> VFloat (checkTagQueueDelay F cs (drop 7 v))) else e2)"

text \<open>
  The conversion to a boolean. In the branch \<open>case int, int64, float64, uint64\<close> the variable still
  has interface type, so \<open>v != 0\<close> compares it with the \<open>int\<close> 0: a zero of another type is different.
\<close>

fun exprTrue :: "expr_val \<Rightarrow> bool" where
  "exprTrue (VBool b) = b"
| "exprTrue (VInt n) = (n \<noteq> 0)"
| "exprTrue (VInt64 n) = True"
| "exprTrue (VFloat x) = True"
| "exprTrue (VUint64 n) = True"
| "exprTrue VOther = False"

definition evaluateExpressionDirect :: "expr_lang \<Rightarrow> floats \<Rightarrow> components \<Rightarrow> compiled_expression
    \<Rightarrow> 64 word \<Rightarrow> 64 word \<Rightarrow> 64 word \<Rightarrow> 64 word \<Rightarrow> bool" where
  "evaluateExpressionDirect X F cs c sq bps pps sz =
     (case xl_run X (ce_program c) (foldl (\<lambda>e v. evalVar F cs sq bps pps sz v e) (\<lambda>_. None) (ce_varKeys c)) of
        None \<Rightarrow> False | Some v \<Rightarrow> exprTrue v)"

definition ruleResult :: "expr_lang \<Rightarrow> floats \<Rightarrow> components \<Rightarrow> 64 word \<Rightarrow> 64 word \<Rightarrow> 64 word \<Rightarrow> 64 word
    \<Rightarrow> compiled_expression \<Rightarrow> bool" where
  "ruleResult X F cs sq bps pps sz c =
     (if ce_canCache c then ce_cachedResult c = 1 else evaluateExpressionDirect X F cs c sq bps pps sz)"

definition evaluateCompiledRules :: "expr_lang \<Rightarrow> floats \<Rightarrow> components \<Rightarrow> 64 word \<Rightarrow> 64 word \<Rightarrow> 64 word \<Rightarrow> 64 word
    \<Rightarrow> load_balancer \<Rightarrow> string list" where
  "evaluateCompiledRules X F cs sq bps pps sz lb =
     concat (map (\<lambda>(c, ts). if ruleResult X F cs sq bps pps sz c then ts else [])
       (zip (lb_compiledRules lb) (lb_ruleTargets lb)))"

definition updateStats :: "packet \<Rightarrow> traffic_stats \<Rightarrow> traffic_stats" where
  "updateStats p st = st\<lparr>st_currentBytes := st_currentBytes st + word_of_int (pk_length p),
     st_currentPackets := st_currentPackets st + 1\<rparr>"

definition getCurrentStats :: "traffic_stats \<Rightarrow> 64 word \<times> 64 word" where
  "getCurrentStats st =
     (let tb = st_totalBytes st + st_currentBytes st;
          tp = st_totalPackets st + st_currentPackets st;
          n = (ucast (st_windowSize st + 1) :: 64 word)
      in (tb * 8 div n, tp div n))"

text \<open>The rules are evaluated for this packet, and a batch decision is remembered.\<close>

definition lbChoose :: "expr_lang \<Rightarrow> floats \<Rightarrow> components \<Rightarrow> packet \<Rightarrow> load_balancer \<Rightarrow> load_balancer \<times> string list option" where
  "lbChoose X F cs p lb =
     (let (bps, pps) = getCurrentStats (lb_stats lb);
          sq = lb_packetSeq lb + 1;
          lb1 = lb\<lparr>lb_packetSeq := sq\<rparr>;
          found = evaluateCompiledRules X F cs sq bps pps (word_of_int (pk_length p)) lb1;
          targets = (if found = [] then lb_miss lb1 else found)
      in if targets = [] then (lb1, None)
         else if lb_batchDecision lb1 \<and> pk_batchID p \<noteq> 0
         then (lb1\<lparr>lb_lastBatch := Some (pk_batchID p, targets)\<rparr>, Some targets)
         else (lb1, Some targets))"

text \<open>\<open>HandlePacket\<close> up to \<open>Route\<close>: the new state and the targets, \<open>None\<close> when the packet goes nowhere.\<close>

definition lbDecide :: "expr_lang \<Rightarrow> floats \<Rightarrow> components \<Rightarrow> packet \<Rightarrow> load_balancer \<Rightarrow> load_balancer \<times> string list option" where
  "lbDecide X F cs p lb0 =
     (let lb = lb0\<lparr>lb_stats := updateStats p (lb_stats lb0)\<rparr> in
      if lb_batchDecision lb \<and> pk_batchID p \<noteq> 0
      then (case lb_lastBatch lb of
              Some (b, ts) \<Rightarrow> if b = pk_batchID p then (lb, Some ts) else lbChoose X F cs p lb
            | None \<Rightarrow> lbChoose X F cs p lb)
      else lbChoose X F cs p lb)"

section \<open>The sampler\<close>

definition updateCachedResults :: "expr_lang \<Rightarrow> floats \<Rightarrow> components \<Rightarrow> load_balancer \<Rightarrow> load_balancer" where
  "updateCachedResults X F cs lb =
     (if \<not> lb_enableCache lb then lb
      else let (bps, pps) = getCurrentStats (lb_stats lb) in
        lb\<lparr>lb_compiledRules := map (\<lambda>c. if ce_canCache c
             then c\<lparr>ce_cachedResult := (if evaluateExpressionDirect X F cs c 0 bps pps 0 then 1 else 0)\<rparr> else c)
             (lb_compiledRules lb)\<rparr>)"

text \<open>The modulo panics when the window is empty.\<close>

definition sampleWindow :: "traffic_stats \<Rightarrow> traffic_stats option" where
  "sampleWindow st =
     (if st_windowSize st = 0 then None
      else
        let cb = st_currentBytes st; cp = st_currentPackets st;
            i = unat ((st_currentIndex st + 1) mod st_windowSize st)
        in if i < length (st_samples st)
           then Some (st\<lparr>st_currentBytes := 0, st_currentPackets := 0, st_currentIndex := st_currentIndex st + 1,
             st_totalBytes := st_totalBytes st + cb - fst (st_samples st ! i),
             st_totalPackets := st_totalPackets st + cp - snd (st_samples st ! i),
             st_samples := (st_samples st)[i := (cb, cp)]\<rparr>)
           else None)"

definition sampleStats :: "expr_lang \<Rightarrow> floats \<Rightarrow> components \<Rightarrow> load_balancer \<Rightarrow> load_balancer option" where
  "sampleStats X F cs lb = do {
     st \<leftarrow> sampleWindow (lb_stats lb);
     Some (updateCachedResults X F cs (lb\<lparr>lb_stats := st\<rparr>))
   }"

section \<open>Identifiers\<close>

lemma listIndex_Some:
  "listIndex s p = Some k \<Longrightarrow> k \<le> length s \<and> take (length p) (drop k s) = p \<and> (\<forall>j < k. take (length p) (drop j s) \<noteq> p)"
proof (induction s p arbitrary: k rule: listIndex.induct)
  case (1 s p)
  show ?case
  proof (cases "take (length p) s = p")
    case True
    then show ?thesis using 1(2) by (simp add: listIndex.simps)
  next
    case False
    then obtain x xs k' where xs: "s = x # xs" "listIndex xs p = Some k'" "k = Suc k'"
      using 1(2) by (subst (asm) listIndex.simps) (auto split: list.splits)
    then show ?thesis using 1(1) [OF False xs(1,2)] False by (auto simp: less_Suc_eq_0_disj)
  qed
qed

lemma listIndex_None: "listIndex s p = None \<Longrightarrow> j \<le> length s \<Longrightarrow> take (length p) (drop j s) \<noteq> p"
proof (induction s p arbitrary: j rule: listIndex.induct)
  case (1 s p)
  have n: "take (length p) s \<noteq> p" using 1(2) by (auto simp: listIndex.simps)
  show ?case
  proof (cases s)
    case Nil
    then show ?thesis using n 1(3) by simp
  next
    case (Cons x xs)
    then have "listIndex xs p = None" using n 1(2) by (subst (asm) listIndex.simps) simp
    then show ?thesis using 1(1) [OF n Cons] 1(3) n Cons by (cases j) auto
  qed
qed

lemma containsIdentFrom_iff:
  "containsIdentFrom e name i \<longleftrightarrow>
     (\<exists>j. i \<le> j \<and> j < length e \<and> take (length name) (drop j e) = name \<and> identBounds e j (j + length name))"
proof (induction e name i rule: containsIdentFrom.induct)
  case (1 e name i)
  show ?case
  proof (cases "i < length e")
    case False
    then show ?thesis by (subst containsIdentFrom.simps) auto
  next
    case i: True
    show ?thesis
    proof (cases "listIndex (drop i e) name")
      case None
      have "take (length name) (drop j e) \<noteq> name" if "i \<le> j" "j < length e" for j
        using listIndex_None [OF None, of "j - i"] that by simp
      then show ?thesis using i None by (subst containsIdentFrom.simps) auto
    next
      case (Some k)
      note k = listIndex_Some [OF Some]
      have q: "take (length name) (drop (i + k) e) = name" using k by (simp add: add.commute)
      have ik: "i + k < length e"
      proof (rule ccontr)
        assume "\<not> i + k < length e"
        then have "name = []" using q by simp
        then show False using k i \<open>\<not> i + k < length e\<close> by (cases k) auto
      qed
      have first: "i + k \<le> j" if j: "i \<le> j" "take (length name) (drop j e) = name" for j
      proof (rule ccontr)
        assume "\<not> i + k \<le> j"
        then have "j - i < k" "drop (j - i) (drop i e) = drop j e" using j(1) by auto
        then show False using k j(2) by metis
      qed
      have "(\<exists>j\<ge>i. j < length e \<and> take (length name) (drop j e) = name \<and> identBounds e j (j + length name))
          \<longleftrightarrow> identBounds e (i + k) (i + k + length name)
            \<or> (\<exists>j\<ge>i + k + 1. j < length e \<and> take (length name) (drop j e) = name \<and> identBounds e j (j + length name))"
        (is "?L \<longleftrightarrow> ?R")
      proof
        assume ?L
        then obtain j where j: "i \<le> j" "j < length e" "take (length name) (drop j e) = name" "identBounds e j (j + length name)"
          by blast
        then have "j = i + k \<or> i + k + 1 \<le> j" using first by force
        then show ?R using j by blast
      next
        assume ?R
        then show ?L using q ik by (metis (no_types, lifting) add.assoc add_leD1 le_add1)
      qed
      then show ?thesis using "1.IH" [OF i Some] i Some by (subst containsIdentFrom.simps) simp
    qed
  qed
qed

lemma containsIdent_iff:
  "containsIdent e name \<longleftrightarrow> (\<exists>j < length e. take (length name) (drop j e) = name \<and> identBounds e j (j + length name))"
  by (simp add: containsIdent_def containsIdentFrom_iff)

section \<open>Runs\<close>

text \<open>Packets and ticks of the sampler; the components' answers may differ every time.\<close>

datatype lb_event = LbPacket components packet | LbTick components

fun lbRun :: "expr_lang \<Rightarrow> floats \<Rightarrow> lb_event list \<Rightarrow> load_balancer \<Rightarrow> (load_balancer \<times> string list option list) option" where
  "lbRun X F [] lb = Some (lb, [])"
| "lbRun X F (LbPacket cs p # es) lb =
     map_option (\<lambda>(lb2, outs). (lb2, snd (lbDecide X F cs p lb) # outs)) (lbRun X F es (fst (lbDecide X F cs p lb)))"
| "lbRun X F (LbTick cs # es) lb = Option.bind (sampleStats X F cs lb) (lbRun X F es)"

lemma lbRun_packet:
  "lbRun X F (LbPacket cs p # es) lb = Some (lb2, outs) \<longleftrightarrow>
     (\<exists>outs'. lbRun X F es (fst (lbDecide X F cs p lb)) = Some (lb2, outs') \<and> outs = snd (lbDecide X F cs p lb) # outs')"
  by (cases "lbRun X F es (fst (lbDecide X F cs p lb))") auto

lemma lbRun_tick:
  "lbRun X F (LbTick cs # es) lb = Some r \<longleftrightarrow> (\<exists>lb1. sampleStats X F cs lb = Some lb1 \<and> lbRun X F es lb1 = Some r)"
  by (simp add: option_bind_eq_Some)

text \<open>What the packets and ticks amount to: bytes and packets of every finished second, and of the current one.\<close>

fun trafficStep :: "(nat \<times> nat) list \<times> (nat \<times> nat) \<Rightarrow> lb_event \<Rightarrow> (nat \<times> nat) list \<times> (nat \<times> nat)" where
  "trafficStep (h, (b, p)) (LbPacket cs q) = (h, (b + nat (pk_length q), p + 1))"
| "trafficStep (h, c) (LbTick cs) = (h @ [c], (0, 0))"

lemma lbChoose_keeps [simp]:
  "lb_stats (fst (lbChoose X F cs p lb)) = lb_stats lb" "lb_batchDecision (fst (lbChoose X F cs p lb)) = lb_batchDecision lb"
  "lb_miss (fst (lbChoose X F cs p lb)) = lb_miss lb" "lb_enableCache (fst (lbChoose X F cs p lb)) = lb_enableCache lb"
  "lb_compiledRules (fst (lbChoose X F cs p lb)) = lb_compiledRules lb"
  "lb_ruleTargets (fst (lbChoose X F cs p lb)) = lb_ruleTargets lb"
  by (simp_all add: lbChoose_def Let_def case_prod_beta)

lemma lbDecide_keeps [simp]:
  "lb_stats (fst (lbDecide X F cs p lb)) = updateStats p (lb_stats lb)"
  "lb_batchDecision (fst (lbDecide X F cs p lb)) = lb_batchDecision lb"
  "lb_miss (fst (lbDecide X F cs p lb)) = lb_miss lb" "lb_enableCache (fst (lbDecide X F cs p lb)) = lb_enableCache lb"
  "lb_compiledRules (fst (lbDecide X F cs p lb)) = lb_compiledRules lb"
  "lb_ruleTargets (fst (lbDecide X F cs p lb)) = lb_ruleTargets lb"
  by (simp_all add: lbDecide_def Let_def split: option.split)

lemma lbChoose_batch:
  assumes "lb_batchDecision lb" "pk_batchID p \<noteq> 0" "lbChoose X F cs p lb = (lb1, Some ts)"
  shows "lb_lastBatch lb1 = Some (pk_batchID p, ts)"
  using assms by (simp add: lbChoose_def Let_def case_prod_beta split: if_split_asm) auto

lemma lbDecide_batch:
  assumes "lb_batchDecision lb" "pk_batchID p \<noteq> 0" "lbDecide X F cs p lb = (lb1, Some ts)"
  shows "lb_lastBatch lb1 = Some (pk_batchID p, ts)"
  using assms lbChoose_batch [of "lb\<lparr>lb_stats := updateStats p (lb_stats lb)\<rparr>" p X F cs lb1 ts]
  by (auto simp: lbDecide_def Let_def split: option.split_asm if_split_asm)

lemma updateCachedResults_keeps [simp]:
  "lb_stats (updateCachedResults X F cs lb) = lb_stats lb" "lb_lastBatch (updateCachedResults X F cs lb) = lb_lastBatch lb"
  "lb_batchDecision (updateCachedResults X F cs lb) = lb_batchDecision lb"
  "lb_packetSeq (updateCachedResults X F cs lb) = lb_packetSeq lb" "lb_miss (updateCachedResults X F cs lb) = lb_miss lb"
  "lb_enableCache (updateCachedResults X F cs lb) = lb_enableCache lb"
  "lb_ruleTargets (updateCachedResults X F cs lb) = lb_ruleTargets lb"
  by (simp_all add: updateCachedResults_def Let_def case_prod_beta)

definition same_setup :: "load_balancer \<Rightarrow> load_balancer \<Rightarrow> bool" where
  "same_setup a b \<longleftrightarrow> lb_stats a = lb_stats b \<and> lb_miss a = lb_miss b
     \<and> lb_enableCache a = lb_enableCache b \<and> lb_batchDecision a = lb_batchDecision b"

lemma compileExpression_keeps: "compileExpression X tags e lb = Some (lb1, c) \<Longrightarrow> same_setup lb1 lb"
  by (auto simp: compileExpression_def Let_def same_setup_def split: option.splits if_splits)

lemma precompileLoop_keeps: "precompileLoop X tags rs lb = Some lb' \<Longrightarrow> same_setup lb' lb"
proof (induction rs arbitrary: lb)
  case Nil
  then show ?case by (simp add: same_setup_def)
next
  case (Cons r rs)
  obtain e ts where r: "r = (e, ts)" by force
  obtain lb1 c where c: "compileExpression X tags e lb = Some (lb1, c)"
      "precompileLoop X tags rs (lb1\<lparr>lb_compiledRules := lb_compiledRules lb1 @ [c], lb_ruleTargets := lb_ruleTargets lb1 @ [ts]\<rparr>) = Some lb'"
    using Cons.prems r by (auto simp: option_bind_eq_Some)
  show ?case using Cons.IH [OF c(2)] compileExpression_keeps [OF c(1)] by (simp add: same_setup_def)
qed

lemma precompile_keeps:
  "precompileRules X tags lb = Some lb' \<Longrightarrow> lb_stats lb' = lb_stats lb \<and> lb_miss lb' = lb_miss lb
     \<and> lb_enableCache lb' = lb_enableCache lb \<and> lb_batchDecision lb' = lb_batchDecision lb"
  using precompileLoop_keeps [of X tags "lb_detour lb" _ lb'] by (simp add: precompileRules_def same_setup_def)

section \<open>The traffic window\<close>

text \<open>The ring holds the last seconds; slot \<open>m mod n\<close> holds second \<open>m - n\<close>, counted from one.\<close>

definition window_inv :: "nat \<Rightarrow> (nat \<times> nat) list \<Rightarrow> nat \<times> nat \<Rightarrow> traffic_stats \<Rightarrow> bool" where
  "window_inv n h c st \<longleftrightarrow> 0 < n \<and> unat (st_windowSize st) = n \<and> length (st_samples st) = n
     \<and> unat (st_currentIndex st) = length h
     \<and> st_currentBytes st = of_nat (fst c) \<and> st_currentPackets st = of_nat (snd c)
     \<and> st_totalBytes st = of_nat (sum_list (map fst (drop (length h - n) h)))
     \<and> st_totalPackets st = of_nat (sum_list (map snd (drop (length h - n) h)))
     \<and> (\<forall>m. length h < m \<and> m \<le> length h + n \<longrightarrow>
          st_samples st ! (m mod n) = (if m \<le> n then (0, 0) else (of_nat (fst (h ! (m - n - 1))), of_nat (snd (h ! (m - n - 1))))))"

lemma window_sum:
  fixes f :: "'a \<Rightarrow> nat"
  assumes "0 < n"
  shows "sum_list (map f (drop (Suc (length h) - n) (h @ [x]))) + (if length h + 1 \<le> n then 0 else f (h ! (length h - n)))
    = sum_list (map f (drop (length h - n) h)) + f x"
proof (cases "length h + 1 \<le> n")
  case True
  then show ?thesis by simp
next
  case False
  then have "drop (length h - n) h = h ! (length h - n) # drop (Suc (length h - n)) h"
    using assms by (intro Cons_nth_drop_Suc [symmetric]) linarith
  moreover have "Suc (length h) - n = Suc (length h - n)" "Suc (length h - n) \<le> length h" using False assms by auto
  ultimately show ?thesis using False by simp
qed

lemma window_total:
  assumes "a + old = b + (x :: nat)"
  shows "of_nat b + of_nat x - of_nat old = (of_nat a :: 64 word)"
proof -
  have "(of_nat (a + old) :: 64 word) = of_nat (b + x)" using assms by simp
  then show ?thesis by (simp add: algebra_simps)
qed

lemma window_tick:
  assumes inv: "window_inv n h c st" and short: "length h + 1 < 2 ^ 32"
  shows "\<exists>st'. sampleWindow st = Some st' \<and> window_inv n (h @ [c]) (0, 0) st'"
proof -
  have n: "0 < n" "unat (st_windowSize st) = n" "length (st_samples st) = n" "unat (st_currentIndex st) = length h"
    using inv by (simp_all add: window_inv_def)
  have i1: "unat (st_currentIndex st + 1) = length h + 1"
    using short by (simp add: unat_word_ariths n(4))
  have i: "unat ((st_currentIndex st + 1) mod st_windowSize st) = (length h + 1) mod n"
    by (simp only: unat_mod i1 n(2))
  have w: "st_windowSize st \<noteq> 0" using n(1,2) by auto
  let ?i = "(length h + 1) mod n"
  have il: "?i < n" using n(1) by simp
  have old: "st_samples st ! ?i = (if length h + 1 \<le> n then (0, 0)
      else (of_nat (fst (h ! (length h - n))), of_nat (snd (h ! (length h - n)))))"
    using inv n(1) by (simp add: window_inv_def)
  define st' where "st' = st\<lparr>st_currentBytes := 0, st_currentPackets := 0, st_currentIndex := st_currentIndex st + 1,
    st_totalBytes := st_totalBytes st + st_currentBytes st - fst (st_samples st ! ?i),
    st_totalPackets := st_totalPackets st + st_currentPackets st - snd (st_samples st ! ?i),
    st_samples := (st_samples st)[?i := (st_currentBytes st, st_currentPackets st)]\<rparr>"
  have "sampleWindow st = Some st'"
    using w il n(3) by (simp add: sampleWindow_def Let_def i st'_def)
  moreover have "window_inv n (h @ [c]) (0, 0) st'"
  proof -
    have sums: "st_totalBytes st' = of_nat (sum_list (map fst (drop (length (h @ [c]) - n) (h @ [c]))))"
        "st_totalPackets st' = of_nat (sum_list (map snd (drop (length (h @ [c]) - n) (h @ [c]))))"
      using inv old window_total [OF window_sum [OF n(1), of fst h c]] window_total [OF window_sum [OF n(1), of snd h c]]
      by (simp_all add: st'_def window_inv_def split: if_split_asm)
    have slots: "st_samples st' ! (m mod n)
        = (if m \<le> n then (0, 0) else (of_nat (fst ((h @ [c]) ! (m - n - 1))), of_nat (snd ((h @ [c]) ! (m - n - 1)))))"
      if m: "length (h @ [c]) < m" "m \<le> length (h @ [c]) + n" for m
    proof (cases "m = length h + 1 + n")
      case True
      then have "m mod n = ?i" by (simp only: mod_add_self2)
      then show ?thesis using True inv il n(3) by (simp add: st'_def window_inv_def)
    next
      case False
      then have r: "length h < m" "m \<le> length h + n" "m < length h + 1 + n" using m by auto
      have "m mod n \<noteq> ?i"
      proof
        assume "m mod n = ?i"
        then have "length h + 1 + n \<le> m" using mod_eq_gap [of "length h + 1" n m] m by simp
        then show False using r by simp
      qed
      then have "st_samples st' ! (m mod n) = st_samples st ! (m mod n)" by (simp add: st'_def)
      moreover have "(h @ [c]) ! (m - n - 1) = h ! (m - n - 1)" if "\<not> m \<le> n" using that r by (auto simp: nth_append)
      ultimately show ?thesis using inv r by (auto simp: window_inv_def)
    qed
    show ?thesis
      using sums slots inv i1 n by (simp add: window_inv_def st'_def)
  qed
  ultimately show ?thesis by blast
qed

lemma window_packet:
  assumes "window_inv n h c st" "0 \<le> pk_length q"
  shows "window_inv n h (fst c + nat (pk_length q), snd c + 1) (updateStats q st)"
  using assms by (simp add: window_inv_def updateStats_def)

lemma sampleStats_stats: "sampleStats X F cs lb = Some lb' \<Longrightarrow> sampleWindow (lb_stats lb) = Some (lb_stats lb')"
  by (auto simp: sampleStats_def split: Option.bind_splits)

lemma lbRun_window:
  assumes "window_inv n h c (lb_stats lb)" "\<forall>cs q. LbPacket cs q \<in> set es \<longrightarrow> 0 \<le> pk_length q"
    and "length h + length es < 2 ^ 32" "foldl trafficStep (h, c) es = (h', c')"
  shows "\<exists>lb' outs. lbRun X F es lb = Some (lb', outs) \<and> window_inv n h' c' (lb_stats lb')"
  using assms
proof (induction es arbitrary: h c lb)
  case Nil
  then show ?case by simp
next
  case (Cons e es)
  show ?case
  proof (cases e)
    case (LbPacket cs q)
    have "window_inv n h (fst c + nat (pk_length q), snd c + 1) (lb_stats (fst (lbDecide X F cs q lb)))"
      using window_packet [OF Cons.prems(1)] Cons.prems(2) LbPacket by simp
    from Cons.IH [OF this] show ?thesis using Cons.prems(2,3,4) LbPacket by (cases c) fastforce
  next
    case (LbTick cs)
    obtain st where st: "sampleWindow (lb_stats lb) = Some st" "window_inv n (h @ [c]) (0, 0) st"
      using window_tick [OF Cons.prems(1)] Cons.prems(3) by auto
    define lb1 where "lb1 = updateCachedResults X F cs (lb\<lparr>lb_stats := st\<rparr>)"
    have "sampleStats X F cs lb = Some lb1" by (simp add: sampleStats_def st lb1_def)
    moreover have "window_inv n (h @ [c]) (0, 0) (lb_stats lb1)" by (simp add: lb1_def st)
    ultimately show ?thesis using Cons.IH [of "h @ [c]" "(0, 0)" lb1] Cons.prems(2,3,4) LbTick by simp
  qed
qed

lemma new_window: "0 < lc_windowSize c \<Longrightarrow> window_inv (unat (lc_windowSize c)) [] (0, 0) (lb_stats (newLoadBalancer c))"
  by (auto simp: window_inv_def newLoadBalancer_def word_less_nat_alt)

section \<open>Rules that cannot match\<close>

definition no_match :: "load_balancer \<Rightarrow> bool" where
  "no_match lb \<longleftrightarrow> (\<forall>c \<in> set (lb_compiledRules lb). ce_canCache c \<and> ce_cachedResult c = 0)"

lemma no_match_rules: "no_match lb \<Longrightarrow> evaluateCompiledRules X F cs sq bps pps sz lb = []"
  by (auto simp: no_match_def evaluateCompiledRules_def ruleResult_def dest: set_zip_leftD)

definition only_miss :: "load_balancer \<Rightarrow> bool" where
  "only_miss lb \<longleftrightarrow> no_match lb \<and> \<not> lb_enableCache lb \<and> (\<forall>b ts. lb_lastBatch lb = Some (b, ts) \<longrightarrow> ts = lb_miss lb)"

lemma only_miss_decide:
  assumes "only_miss lb" "lbDecide X F cs p lb = (lb', out)"
  shows "only_miss lb' \<and> lb_miss lb' = lb_miss lb \<and> out \<in> {None, Some (lb_miss lb)}"
proof -
  let ?lb = "lb\<lparr>lb_stats := updateStats p (lb_stats lb)\<rparr>"
  have u: "only_miss ?lb" using assms(1) by (simp add: only_miss_def no_match_def)
  then have n: "no_match (?lb\<lparr>lb_packetSeq := k\<rparr>)" for k by (simp add: only_miss_def no_match_def)
  have c: "only_miss a \<and> lb_miss a = lb_miss lb \<and> o' \<in> {None, Some (lb_miss lb)}"
    if "lbChoose X F cs p ?lb = (a, o')" for a o'
    using that u by (auto simp: lbChoose_def Let_def case_prod_beta no_match_rules [OF n] only_miss_def no_match_def split: if_splits)
  show ?thesis
    using assms(2) c u by (auto simp: lbDecide_def Let_def only_miss_def split: option.split_asm if_split_asm)
qed

lemma only_miss_tick:
  assumes "only_miss lb" "sampleStats X F cs lb = Some lb'"
  shows "only_miss lb' \<and> lb_miss lb' = lb_miss lb"
  using assms by (auto simp: sampleStats_def updateCachedResults_def option_bind_eq_Some only_miss_def no_match_def)

lemma only_miss_run:
  "lbRun X F es lb = Some (lb', outs) \<Longrightarrow> only_miss lb \<Longrightarrow> set outs \<subseteq> {None, Some (lb_miss lb)}"
proof (induction es arbitrary: lb outs)
  case Nil
  then show ?case by simp
next
  case (Cons e es)
  show ?case
  proof (cases e)
    case (LbPacket cs p)
    obtain lb1 out where d: "lbDecide X F cs p lb = (lb1, out)" by force
    obtain outs' where o: "lbRun X F es lb1 = Some (lb', outs')" "outs = out # outs'"
      using Cons.prems(1) unfolding LbPacket lbRun_packet d fst_conv snd_conv by blast
    show ?thesis using Cons.IH [OF o(1)] only_miss_decide [OF Cons.prems(2) d] o(2) by auto
  next
    case (LbTick cs)
    obtain lb1 where "sampleStats X F cs lb = Some lb1" "lbRun X F es lb1 = Some (lb', outs)"
      using Cons.prems(1) unfolding LbTick lbRun_tick by blast
    then show ?thesis using Cons.IH only_miss_tick [OF Cons.prems(2)] by metis
  qed
qed

text \<open>A freshly compiled rule without variables.\<close>

definition constRule :: "compiled_expression \<Rightarrow> bool" where
  "constRule c \<longleftrightarrow> ce_canCache c \<and> ce_cachedResult c = 0"

lemma compileExpression_const:
  assumes "compileExpression X tags e lb = Some (lb1, c)" "findVariables tags e = []"
    and "\<forall>c. lb_expressionCache lb e = Some c \<longrightarrow> constRule c"
  shows "constRule c" "lb_compiledRules lb1 = lb_compiledRules lb" "lb_lastBatch lb1 = lb_lastBatch lb"
    "\<forall>e' c'. lb_expressionCache lb1 e' = Some c' \<longrightarrow> lb_expressionCache lb e' = Some c' \<or> c' = c"
  using assms by (cases "lb_expressionCache lb e"; force simp: compileExpression_def Let_def constRule_def split: if_split_asm)+

lemma precompileLoop_const:
  assumes "precompileLoop X tags rs lb = Some lb'" "\<forall>r \<in> set rs. findVariables tags (fst r) = []"
    and "\<forall>c \<in> set (lb_compiledRules lb). constRule c" "\<forall>e \<in> set (map fst rs). \<forall>c. lb_expressionCache lb e = Some c \<longrightarrow> constRule c"
  shows "(\<forall>c \<in> set (lb_compiledRules lb'). constRule c) \<and> lb_lastBatch lb' = lb_lastBatch lb"
  using assms
proof (induction rs arbitrary: lb)
  case Nil
  then show ?case by simp
next
  case (Cons r rs)
  obtain e ts where r: "r = (e, ts)" by force
  obtain lb1 c where c: "compileExpression X tags e lb = Some (lb1, c)"
      "precompileLoop X tags rs (lb1\<lparr>lb_compiledRules := lb_compiledRules lb1 @ [c], lb_ruleTargets := lb_ruleTargets lb1 @ [ts]\<rparr>) = Some lb'"
    using Cons.prems(1) r by (auto simp: option_bind_eq_Some)
  have k: "constRule c" "lb_compiledRules lb1 = lb_compiledRules lb" "lb_lastBatch lb1 = lb_lastBatch lb"
      "\<forall>e' c'. lb_expressionCache lb1 e' = Some c' \<longrightarrow> lb_expressionCache lb e' = Some c' \<or> c' = c"
    using compileExpression_const [OF c(1)] Cons.prems(2,4) r by auto
  have cached: "\<forall>e \<in> set (map fst rs). \<forall>c'. lb_expressionCache lb1 e = Some c' \<longrightarrow> constRule c'"
    using k(1,4) Cons.prems(4) by (metis list.set_intros(2) list.simps(9))
  have "(\<forall>c \<in> set (lb_compiledRules lb'). constRule c)
      \<and> lb_lastBatch lb' = lb_lastBatch (lb1\<lparr>lb_compiledRules := lb_compiledRules lb1 @ [c], lb_ruleTargets := lb_ruleTargets lb1 @ [ts]\<rparr>)"
    by (rule Cons.IH [OF c(2)]) (use Cons.prems(2,3) k cached in auto)
  then show ?case using k by simp
qed

section \<open>Properties\<close>

text \<open>The average over the window and the current second, as the documentation describes it.\<close>

definition windowRate :: "nat \<Rightarrow> nat list \<Rightarrow> nat \<Rightarrow> nat" where
  "windowRate n h cur = (sum_list (drop (length h - n) h) + cur) div (n + 1)"

lemma windowRate_word:
  assumes "unat (w :: 32 word) = n" "n < 2 ^ 32 - 1" "k < 2 ^ 64"
  shows "(of_nat k :: 64 word) div ucast (w + 1) = of_nat (k div (n + 1))"
proof -
  have "unat (w + 1) = n + 1" using assms(1,2) by (simp add: unat_word_ariths)
  then have "unat (ucast (w + 1) :: 64 word) = n + 1" using assms(2)
    by (simp add: unsigned_ucast_eq take_bit_nat_eq_self)
  moreover have "k div (n + 1) < 2 ^ 64" using assms(3) by (metis div_le_dividend le_less_trans)
  ultimately show ?thesis using assms(3) by (intro word_unat_eq_iff [THEN iffD2]) (simp add: unat_div unat_of_nat)
qed

text \<open>Steady traffic of \<open>b\<close> a second, read just after a tick, is reported too low by one part in \<open>n + 1\<close>, where
  \<open>docs/load_balancer_en.md\<close> promises the average of the \<open>n\<close> samples of the window.\<close>

lemma steady_rate_understated: "n \<le> k \<Longrightarrow> windowRate n (replicate k b) 0 = n * b div (n + 1)"
  by (simp add: windowRate_def sum_list_replicate)

text \<open>C38. What \<open>bps\<close> and \<open>pps\<close> are, exactly: after any packets and sampler ticks, the balancer has not
  panicked and they are the bits and packets of the last \<open>window_size\<close> finished seconds together with those of
  the current, unfinished one, divided by \<open>window_size + 1\<close>. (The documentation speaks of the average of the
  \<open>window_size\<close> samples; the code divides by one more.)\<close>

theorem traffic_average_exact:
  assumes "0 < lc_windowSize c" "unat (lc_windowSize c) < 2 ^ 32 - 1"
    and "\<forall>cs q. LbPacket cs q \<in> set es \<longrightarrow> 0 \<le> pk_length q" "length es < 2 ^ 32"
    and "foldl trafficStep ([], (0, 0)) es = (h, cur)"
    and "8 * (sum_list (map fst h) + fst cur) < 2 ^ 64" "sum_list (map snd h) + snd cur < 2 ^ 64"
    and "precompileRules X tags (newLoadBalancer c) = Some lb"
  shows "\<exists>lb' outs. lbRun X F es lb = Some (lb', outs) \<and> getCurrentStats (lb_stats lb')
    = (of_nat (windowRate (unat (lc_windowSize c)) (map (\<lambda>x. 8 * fst x) h) (8 * fst cur)),
       of_nat (windowRate (unat (lc_windowSize c)) (map snd h) (snd cur)))"
proof -
  let ?n = "unat (lc_windowSize c)"
  have "window_inv ?n [] (0, 0) (lb_stats lb)" using new_window [OF assms(1)] precompile_keeps [OF assms(8)] by simp
  then obtain lb' outs where run: "lbRun X F es lb = Some (lb', outs)" and w: "window_inv ?n h cur (lb_stats lb')"
    using lbRun_window [of ?n "[]" "(0, 0)" lb es h cur X F] assms(3,4,5) by auto
  have le: "sum_list (drop k xs) \<le> sum_list xs" for k and xs :: "nat list"
    by (metis append_take_drop_id le_add2 sum_list_append)
  let ?d = "drop (length h - ?n) h"
  have b: "8 * (sum_list (map fst ?d) + fst cur) < 2 ^ 64" "sum_list (map snd ?d) + snd cur < 2 ^ 64"
    using le [of "length h - ?n" "map fst h"] le [of "length h - ?n" "map snd h"] assms(6,7) by (simp_all add: drop_map)
  have s: "sum_list (map (\<lambda>x. 8 * fst x) ?d) = 8 * sum_list (map fst ?d)" by (simp add: sum_list_const_mult)
  have "getCurrentStats (lb_stats lb') = (of_nat (8 * (sum_list (map fst ?d) + fst cur)) div ucast (lc_windowSize c + 1),
      of_nat (sum_list (map snd ?d) + snd cur) div ucast (lc_windowSize c + 1))"
    using w word_unat_eq_iff [of "st_windowSize (lb_stats lb')" "lc_windowSize c"]
    by (simp add: getCurrentStats_def Let_def window_inv_def algebra_simps)
  also have "\<dots> = (of_nat (windowRate ?n (map (\<lambda>x. 8 * fst x) h) (8 * fst cur)), of_nat (windowRate ?n (map snd h) (snd cur)))"
    using windowRate_word [OF refl assms(2) b(1)] windowRate_word [OF refl assms(2) b(2)]
    by (simp only: windowRate_def drop_map length_map s) (simp add: algebra_simps)
  finally show ?thesis using run by blast
qed

definition demoX :: expr_lang where
  "demoX = \<lparr>xl_compile = (\<lambda>_ _. True), xl_run = (\<lambda>p e. if p = ''true'' then Some (VBool True) else e ''bps'')\<rparr>"

definition demoLb :: "string \<Rightarrow> bool \<Rightarrow> lb_config" where
  "demoLb e batch = \<lparr>lc_detour = [(e, [''a''])], lc_miss = [''b''], lc_windowSize = 2, lc_enableCache = False,
     lc_batchDecision = batch\<rparr>"

definition lbPkt :: "64 word \<Rightarrow> packet" where
  "lbPkt b = (getPacketWithBuffer ''s'' (full_slice (replicate 100 0)) 0)\<lparr>pk_length := 100, pk_batchID := b\<rparr>"

lemma demo_compiled: "\<exists>lb. precompileRules demoX [] (newLoadBalancer (demoLb e b)) = Some lb"
  by (simp add: precompileRules_def newLoadBalancer_def demoLb_def demoX_def compileExpression_def Let_def)

theorem traffic_average_exact_witness:
  "\<exists>lb lb' outs. lbRun demoX exact_floats [LbPacket (\<lambda>_. None) (lbPkt 0), LbTick (\<lambda>_. None), LbPacket (\<lambda>_. None) (lbPkt 0)] lb
      = Some (lb', outs) \<and> getCurrentStats (lb_stats lb') = (of_nat (1600 div 3), of_nat (2 div 3))"
proof -
  let ?es = "[LbPacket (\<lambda>_. None) (lbPkt 0), LbTick (\<lambda>_. None), LbPacket (\<lambda>_. None) (lbPkt 0)]"
  obtain lb where lb: "precompileRules demoX [] (newLoadBalancer (demoLb ''bps'' False)) = Some lb" using demo_compiled by blast
  have w: "lc_windowSize (demoLb ''bps'' False) = 2" and l: "pk_length (lbPkt 0) = 100" by (simp_all add: demoLb_def lbPkt_def)
  have "foldl trafficStep ([], (0, 0)) ?es = ([(100, 1)], (100, 1))" by (simp add: l)
  from traffic_average_exact [OF _ _ _ _ this _ _ lb, where F = exact_floats]
  have "\<exists>lb' outs. lbRun demoX exact_floats ?es lb = Some (lb', outs) \<and> getCurrentStats (lb_stats lb')
    = (of_nat (windowRate 2 (map (\<lambda>x. 8 * fst x) [(100, 1)]) (8 * fst (100, 1))),
       of_nat (windowRate 2 (map snd [(100 :: nat, 1)]) (snd (100 :: nat, 1))))"
    using w l by simp
  then show ?thesis by (auto simp: windowRate_def)
qed

lemma lbDecide_same_batch:
  assumes "lb_batchDecision lb" "lb_lastBatch lb = Some (pk_batchID p, ts)" "pk_batchID p \<noteq> 0"
  shows "lbDecide X F cs p lb = (lb\<lparr>lb_stats := updateStats p (lb_stats lb)\<rparr>, Some ts)"
  using assms by (simp add: lbDecide_def Let_def)

lemma sampleStats_keeps:
  assumes "sampleStats X F cs lb = Some lb'"
  shows "lb_batchDecision lb' = lb_batchDecision lb" "lb_lastBatch lb' = lb_lastBatch lb" "lb_packetSeq lb' = lb_packetSeq lb"
  using assms by (auto simp: sampleStats_def option_bind_eq_Some)

fun inBatch :: "64 word \<Rightarrow> lb_event \<Rightarrow> bool" where
  "inBatch b (LbPacket cs p) = (pk_batchID p = b)"
| "inBatch b (LbTick cs) = True"

lemma batch_run:
  assumes "b \<noteq> 0"
  shows "lb_batchDecision lb \<Longrightarrow> lb_lastBatch lb = Some (b, ts) \<Longrightarrow> \<forall>e \<in> set es. inBatch b e \<Longrightarrow>
    lbRun X F es lb = Some (lb2, outs) \<Longrightarrow> set outs \<subseteq> {Some ts} \<and> lb_packetSeq lb2 = lb_packetSeq lb"
proof (induction es arbitrary: lb outs)
  case Nil
  then show ?case by simp
next
  case (Cons e es)
  have tail: "\<forall>e \<in> set es. inBatch b e" using Cons.prems(3) by simp
  show ?case
  proof (cases e)
    case (LbPacket cs q)
    define lb1 where "lb1 = lb\<lparr>lb_stats := updateStats q (lb_stats lb)\<rparr>"
    have q: "pk_batchID q = b" using Cons.prems(3) LbPacket by simp
    have d: "lbDecide X F cs q lb = (lb1, Some ts)"
      using lbDecide_same_batch [of lb q ts X F cs] Cons.prems(1,2) assms unfolding q lb1_def by blast
    obtain outs' where o: "lbRun X F es lb1 = Some (lb2, outs')" "outs = Some ts # outs'"
      using Cons.prems(4) unfolding LbPacket lbRun_packet d fst_conv snd_conv by blast
    have "lb_batchDecision lb1" "lb_lastBatch lb1 = Some (b, ts)" "lb_packetSeq lb1 = lb_packetSeq lb"
      using Cons.prems(1,2) by (simp_all add: lb1_def)
    then show ?thesis using Cons.IH [OF _ _ tail o(1)] o(2) by simp
  next
    case (LbTick cs)
    obtain lb1 where lb1: "sampleStats X F cs lb = Some lb1" "lbRun X F es lb1 = Some (lb2, outs)"
      using Cons.prems(4) unfolding LbTick lbRun_tick by blast
    show ?thesis using Cons.IH [OF _ _ tail lb1(2)] sampleStats_keeps [OF lb1(1)] Cons.prems(1,2) by simp
  qed
qed

text \<open>Batch decision: once a packet of a receive batch has been given targets, every further packet
  of that batch that follows without a packet of another batch in between gets the same targets, whatever
  the sampler and the other components do, and none of them uses up a sequence number.\<close>

theorem batch_follows_first:
  assumes "lb_batchDecision lb" "pk_batchID p \<noteq> 0" "lbDecide X F cs p lb = (lb1, Some ts)"
    and "\<forall>e \<in> set es. inBatch (pk_batchID p) e" "lbRun X F es lb1 = Some (lb2, outs)"
  shows "set outs \<subseteq> {Some ts} \<and> lb_packetSeq lb2 = lb_packetSeq lb1"
proof -
  have "lb_batchDecision lb1 \<and> lb_lastBatch lb1 = Some (pk_batchID p, ts)"
    using assms(1) lbDecide_batch [OF assms(1-3)] lbDecide_keeps(2) [of X F cs p lb] by (simp add: assms(3))
  then show ?thesis using batch_run [OF assms(2) _ _ assms(4,5)] by blast
qed

lemma lbPkt_batch [simp]: "pk_batchID (lbPkt b) = b"
  by (simp add: lbPkt_def)

theorem batch_follows_first_witness:
  "\<exists>lb lb1 lb2 outs. fst (lbDecide demoX exact_floats (\<lambda>_. None) (lbPkt 7) lb) = lb1
     \<and> lbRun demoX exact_floats [LbPacket (\<lambda>_. None) (lbPkt 7)] lb1 = Some (lb2, outs) \<and> set outs \<subseteq> {Some [''b'']}"
proof -
  let ?lb = "newLoadBalancer (demoLb ''bps'' True)"
  obtain lb1 where d: "lbDecide demoX exact_floats (\<lambda>_. None) (lbPkt 7) ?lb = (lb1, Some [''b''])"
    by (simp add: lbDecide_def lbChoose_def Let_def newLoadBalancer_def demoLb_def evaluateCompiledRules_def case_prod_beta)
  obtain lb2 outs where r: "lbRun demoX exact_floats [LbPacket (\<lambda>_. None) (lbPkt 7)] lb1 = Some (lb2, outs)" by simp
  have "lb_batchDecision ?lb" by (simp add: newLoadBalancer_def demoLb_def)
  then have "set outs \<subseteq> {Some [''b'']}"
    using batch_follows_first [OF _ _ d _ r] by simp
  then show ?thesis using d r by (metis fst_conv)
qed

text \<open>A rule without variables is always marked cacheable, but the cache is only filled when it is
  enabled: without it such a rule, \<open>true\<close> for instance, never selects its targets and every packet
  goes to the miss targets.\<close>

theorem constant_rules_never_fire:
  assumes "\<not> lc_enableCache c" "precompileRules X tags (newLoadBalancer c) = Some lb"
    and "\<forall>r \<in> set (lc_detour c). findVariables tags (fst r) = []" "lbRun X F es lb = Some (lb', outs)"
  shows "set outs \<subseteq> {None, Some (lc_miss c)}"
proof -
  have "only_miss lb"
    using precompileLoop_const [of X tags "lc_detour c" "(newLoadBalancer c)\<lparr>lb_compiledRules := [], lb_ruleTargets := []\<rparr>" lb]
      precompile_keeps [OF assms(2)] assms(1,2,3)
    by (simp add: precompileRules_def newLoadBalancer_def only_miss_def no_match_def constRule_def)
  moreover have "lb_miss lb = lc_miss c" using precompile_keeps [OF assms(2)] by (simp add: newLoadBalancer_def)
  ultimately show ?thesis using only_miss_run [OF assms(4)] by simp
qed

theorem constant_rules_never_fire_witness:
  "\<exists>lb lb' outs. precompileRules demoX [] (newLoadBalancer (demoLb ''true'' False)) = Some lb
     \<and> lbRun demoX exact_floats [LbPacket (\<lambda>_. None) (lbPkt 0), LbTick (\<lambda>_. None), LbPacket (\<lambda>_. None) (lbPkt 0)] lb = Some (lb', outs)
     \<and> xl_run demoX ''true'' (\<lambda>_. None) = Some (VBool True) \<and> length outs = 2 \<and> set outs \<subseteq> {None, Some [''b'']}"
proof -
  obtain lb where lb: "precompileRules demoX [] (newLoadBalancer (demoLb ''true'' False)) = Some lb" using demo_compiled by blast
  let ?es = "[LbPacket (\<lambda>_. None) (lbPkt 0), LbTick (\<lambda>_. None), LbPacket (\<lambda>_. None) (lbPkt 0)]"
  have w: "lc_windowSize (demoLb ''true'' False) = 2" and l: "pk_length (lbPkt 0) = 100" by (simp_all add: demoLb_def lbPkt_def)
  have "window_inv 2 [] (0, 0) (lb_stats lb)"
    using new_window [of "demoLb ''true'' False"] precompile_keeps [OF lb] w by simp
  from lbRun_window [OF this, of ?es "[(100, 1)]" "(100, 1)" demoX exact_floats]
  obtain lb' outs where r: "lbRun demoX exact_floats ?es lb = Some (lb', outs)" using l by auto
  have "findVariables [] ''true'' = []" by code_simp
  then have "set outs \<subseteq> {None, Some (lc_miss (demoLb ''true'' False))}"
    by (intro constant_rules_never_fire [OF _ lb _ r]) (simp_all add: demoLb_def)
  moreover have "length outs = 2" using r by (auto simp: lbRun_packet lbRun_tick simp del: lbRun.simps(2,3))
  ultimately show ?thesis using lb r by (auto simp: demoX_def demoLb_def)
qed

text \<open>The variables of other components that a rule mentions are exactly those whose name occurs as a
  whole identifier: a tag that is a prefix of another does not match inside it.\<close>

theorem tag_variables_exact:
  assumes "pre \<in> {''available_'', ''delay_'', ''qdelay_''}" "t \<in> set tags"
  shows "pre @ t \<in> set (findVariables tags e) \<longleftrightarrow>
    (\<exists>j < length e. take (length (pre @ t)) (drop j e) = pre @ t \<and> identBounds e j (j + length (pre @ t)))"
proof -
  have "listContain e pre" if "containsIdent e (pre @ t)"
  proof -
    obtain j where "take (length (pre @ t)) (drop j e) = pre @ t" using \<open>containsIdent e (pre @ t)\<close> by (auto simp: containsIdent_iff)
    then have "sublist (pre @ t) e" by (metis append_take_drop_id sublist_appendI)
    then show ?thesis unfolding listContain_iff by (metis append_assoc sublist_def)
  qed
  then have "pre @ t \<in> set (tagVariables pre tags e) \<longleftrightarrow> containsIdent e (pre @ t)"
    using assms(2) by (auto simp: tagVariables_def)
  moreover have "pre @ t \<in> set (findVariables tags e) \<longleftrightarrow> pre @ t \<in> set (tagVariables pre tags e)"
    using assms(1) by (elim insertE emptyE) (simp_all add: findVariables_def tagVariables_def image_iff)
  ultimately show ?thesis by (simp add: containsIdent_iff)
qed

theorem tag_variables_exact_witness:
  "''delay_'' @ ''a'' \<notin> set (findVariables [''a''] ''delay_ab < 5'')"
proof -
  have "\<not> containsIdent ''delay_ab < 5'' (''delay_'' @ ''a'')" by code_simp
  then show ?thesis using tag_variables_exact [of "''delay_''" "''a''" "[''a'']" "''delay_ab < 5''"] by (simp add: containsIdent_iff)
qed

text \<open>A numeric rule fires on zero unless its value is an \<open>int\<close>: a rule \<open>bps\<close>, or one computing a
  float, selects its targets even when its value is 0.\<close>

theorem wide_zero_selects:
  assumes "ce_varKeys c = [''bps'']" "xl_run X (ce_program c) [''bps'' \<mapsto> VUint64 0] = Some v"
    and "v \<in> {VUint64 0, VInt64 0, VFloat 0}"
  shows "evaluateExpressionDirect X F cs c sq 0 pps sz"
  using assms by (auto simp: evaluateExpressionDirect_def evalVar_def)

theorem wide_zero_selects_witness:
  "evaluateExpressionDirect demoX exact_floats (\<lambda>_. None)
     \<lparr>ce_program = ''bps'', ce_varKeys = [''bps''], ce_canCache = False, ce_cachedResult = 0\<rparr> 1 0 0 100"
  by (rule wide_zero_selects [where v = "VUint64 0"]) (simp_all add: demoX_def)

text \<open>The rules are compiled against \<open>delay_\<close> variables of type \<open>uint64\<close> but run with \<open>float64\<close> values,
  for every component.\<close>

theorem delay_variable_changes_type:
  assumes "t \<noteq> []"
  shows "compileEnv [''delay_'' @ t] (''delay_'' @ t) = Some (VUint64 0)
    \<and> evalVar F cs sq bps pps sz (''delay_'' @ t) env (''delay_'' @ t) = Some (VFloat (checkTagDelay F cs t))"
  using assms by (simp add: compileEnv_def compileVar_def evalVar_def hasTag_def hasPrefix_def Let_def)

theorem delay_variable_changes_type_witness:
  "compileEnv [''delay_a''] ''delay_a'' = Some (VUint64 0)"
  using delay_variable_changes_type [of "''a''"] by simp

end
