(* ===== verification/IpRouter.thy ===== *)
theory IpRouter
  imports Packet
begin

text \<open>
  \<open>src/ip_router.go\<close>: the targets of a packet from the address it came from, by single address,
  CIDR prefix or country. The part of \<open>net\<close> it relies on (\<open>To4\<close>, \<open>Equal\<close>, \<open>Contains\<close>, \<open>CIDRMask\<close>) is
  modelled on the byte slices of \<open>net.IP\<close>; parsing texts into addresses and looking countries up in
  the GeoIP database are parameters.
\<close>

unbundle bit_operations_syntax

section \<open>Addresses\<close>

definition v4InV6Prefix :: bytes where
  "v4InV6Prefix = replicate 10 0 @ [0xff, 0xff]"

definition to4 :: "bytes \<Rightarrow> bytes option" where
  "to4 ip = (if length ip = 4 then Some ip
     else if length ip = 16 \<and> take 12 ip = v4InV6Prefix then Some (drop 12 ip) else None)"

definition ipEqual :: "bytes \<Rightarrow> bytes \<Rightarrow> bool" where
  "ipEqual a b =
     (if length a = length b then a = b
      else if length a = 4 \<and> length b = 16 then take 12 b = v4InV6Prefix \<and> a = drop 12 b
      else if length a = 16 \<and> length b = 4 then take 12 a = v4InV6Prefix \<and> drop 12 a = b
      else False)"

text \<open>\<open>CIDRMask(ones, 8 * n)\<close>: full bytes, one partial byte, zero bytes.\<close>

fun cidrMask :: "nat \<Rightarrow> nat \<Rightarrow> bytes" where
  "cidrMask ones 0 = []"
| "cidrMask ones (Suc n) =
     (if 8 \<le> ones then 0xff # cidrMask (ones - 8) n else NOT (drop_bit ones 0xff) # cidrMask 0 n)"

definition maskBytes :: "bytes \<Rightarrow> bytes \<Rightarrow> bytes" where
  "maskBytes m ip = map2 (AND) ip m"

record ip_net =
  in_ip :: bytes
  in_mask :: bytes

text \<open>\<open>networkNumberAndMask\<close> and \<open>Contains\<close>.\<close>

definition networkNumberAndMask :: "ip_net \<Rightarrow> (bytes \<times> bytes) option" where
  "networkNumberAndMask n =
     (case (case to4 (in_ip n) of Some x \<Rightarrow> Some x | None \<Rightarrow> if length (in_ip n) = 16 then Some (in_ip n) else None) of
        None \<Rightarrow> None
      | Some ip \<Rightarrow>
          if length (in_mask n) = 4 then (if length ip = 4 then Some (ip, in_mask n) else None)
          else if length (in_mask n) = 16 then Some (ip, if length ip = 4 then drop 12 (in_mask n) else in_mask n)
          else None)"

definition ipNetContains :: "ip_net \<Rightarrow> bytes \<Rightarrow> bool" where
  "ipNetContains n ip0 =
     (let ip = (case to4 ip0 of Some x \<Rightarrow> x | None \<Rightarrow> ip0)
      in case networkNumberAndMask n of
           None \<Rightarrow> ip = []
         | Some (nn, m) \<Rightarrow> length ip = length nn \<and> maskBytes m nn = maskBytes m ip)"

text \<open>What \<open>ParseCIDR\<close> returns for an address of \<open>L\<close> bytes and a prefix length.\<close>

definition cidrNet :: "bytes \<Rightarrow> nat \<Rightarrow> ip_net" where
  "cidrNet ip ones = \<lparr>in_ip = maskBytes (cidrMask ones (length ip)) ip, in_mask = cidrMask ones (length ip)\<rparr>"

section \<open>The component\<close>

record ip_rule =
  ir_targets :: "string list"
  ir_net :: "ip_net option"
  ir_ip :: "bytes option"
  ir_country :: string

record ip_router =
  ipr_rules :: "ip_rule list"
  ipr_default :: "string list"
  ipr_geo :: "(bytes \<Rightarrow> string option) option"
  ipr_updateInterval :: duration

text \<open>The parsers of \<open>net\<close> and \<open>time\<close> the constructor calls.\<close>

record net_parsers =
  np_ip :: "string \<Rightarrow> bytes option"
  np_cidr :: "string \<Rightarrow> ip_net option"
  np_duration :: "string \<Rightarrow> duration option"

definition isSpace :: "char \<Rightarrow> bool" where
  "isSpace c \<longleftrightarrow> (of_char c :: nat) \<in> {9, 10, 11, 12, 13, 32}"

definition trimSpace :: "string \<Rightarrow> string" where
  "trimSpace s = rev (dropWhile isSpace (rev (dropWhile isSpace s)))"

definition toLower :: "char \<Rightarrow> char" where
  "toLower c = (let n = (of_char c :: nat) in if 65 \<le> n \<and> n \<le> 90 then char_of (n + 32) else c)"

definition toUpper :: "char \<Rightarrow> char" where
  "toUpper c = (let n = (of_char c :: nat) in if 97 \<le> n \<and> n \<le> 122 then char_of (n - 32) else c)"

text \<open>A number of seconds: any other text leaves the interval zero; large numbers wrap.\<close>

definition parseSeconds :: "string \<Rightarrow> duration" where
  "parseSeconds s =
     (if list_all (\<lambda>c. 48 \<le> (of_char c :: nat) \<and> (of_char c :: nat) \<le> 57) s
      then let sec = foldl (\<lambda>v c. i64 (v * 10 + (of_char c - 48))) 0 s
           in if 0 < sec then i64 (sec * ns_second) else 0
      else 0)"

definition parseUpdateInterval :: "net_parsers \<Rightarrow> string \<Rightarrow> duration" where
  "parseUpdateInterval P s0 =
     (let s = trimSpace s0 in
      if s = [] then 0 else case np_duration P s of Some d \<Rightarrow> d | None \<Rightarrow> parseSeconds s)"

definition compileRule :: "net_parsers \<Rightarrow> string \<times> string list \<Rightarrow> ip_rule option" where
  "compileRule P r =
     (let rule = \<lparr>ir_targets = snd r, ir_net = None, ir_ip = None, ir_country = []\<rparr>;
          m = trimSpace (map toLower (fst r))
      in if take 4 m = ''geo:'' then Some (rule\<lparr>ir_country := map toUpper (trimSpace (drop 4 (fst r)))\<rparr>)
         else if CHR ''/'' \<in> set m then map_option (\<lambda>n. rule\<lparr>ir_net := Some n\<rparr>) (np_cidr P (fst r))
         else map_option (\<lambda>ip. rule\<lparr>ir_ip := Some ip\<rparr>) (np_ip P (fst r)))"

fun compileRules :: "net_parsers \<Rightarrow> (string \<times> string list) list \<Rightarrow> ip_rule list option" where
  "compileRules P [] = Some []"
| "compileRules P (r # rs) = do { x \<leftarrow> compileRule P r; xs \<leftarrow> compileRules P rs; Some (x # xs) }"

text \<open>\<open>NewIPRouterComponent\<close>; \<open>geo\<close> is the database when a path is configured and opens.\<close>

definition newIPRouter :: "net_parsers \<Rightarrow> (string \<times> string list) list \<Rightarrow> string list \<Rightarrow> string
    \<Rightarrow> (bytes \<Rightarrow> string option) option \<Rightarrow> ip_router option" where
  "newIPRouter P rules miss interval geo = do {
     rs \<leftarrow> compileRules P rules;
     Some \<lparr>ipr_rules = rs, ipr_default = miss, ipr_geo = geo, ipr_updateInterval = parseUpdateInterval P interval\<rparr>
   }"

text \<open>The source address of the packet; a nil IP and other address types give none.\<close>

definition srcIP :: "packet \<Rightarrow> bytes option" where
  "srcIP p = (case pk_srcAddr p of
     Some (UDPAddr ip _ _) \<Rightarrow> if ip = [] then None else Some ip
   | Some (TCPAddr ip _ _) \<Rightarrow> if ip = [] then None else Some ip
   | _ \<Rightarrow> None)"

definition ruleMatches :: "(bytes \<Rightarrow> string option) option \<Rightarrow> bytes \<Rightarrow> ip_rule \<Rightarrow> bool" where
  "ruleMatches geo ip r =
     ((case ir_ip r of Some x \<Rightarrow> ipEqual x ip | None \<Rightarrow> False)
      \<or> (case ir_net r of Some n \<Rightarrow> ipNetContains n ip | None \<Rightarrow> False)
      \<or> (ir_country r \<noteq> [] \<and> (case geo of Some db \<Rightarrow> db ip = Some (ir_country r) | None \<Rightarrow> False)))"

fun firstRule :: "(bytes \<Rightarrow> string option) option \<Rightarrow> bytes \<Rightarrow> ip_rule list \<Rightarrow> string list option" where
  "firstRule geo ip [] = None"
| "firstRule geo ip (r # rs) = (if ruleMatches geo ip r then Some (ir_targets r) else firstRule geo ip rs)"

text \<open>\<open>HandlePacket\<close> up to \<open>Route\<close>.\<close>

definition ipDecide :: "ip_router \<Rightarrow> packet \<Rightarrow> string list" where
  "ipDecide c p = (case srcIP p of None \<Rightarrow> ipr_default c
     | Some ip \<Rightarrow> (case firstRule (ipr_geo c) ip (ipr_rules c) of Some ts \<Rightarrow> ts | None \<Rightarrow> ipr_default c))"

section \<open>Prefixes as numbers\<close>

lemma length_cidrMask [simp]: "length (cidrMask k n) = n"
  by (induction k n rule: cidrMask.induct) auto

lemma length_maskBytes [simp]: "length (maskBytes m ip) = min (length ip) (length m)"
  by (simp add: maskBytes_def)

lemma maskBytes_idem: "maskBytes m (maskBytes m ip) = maskBytes m ip"
  by (rule nth_equalityI) (auto simp: maskBytes_def and.assoc)

lemma be_get_Cons: "be_get (x # xs) = unat x * 256 ^ length xs + be_get xs"
proof (induction xs rule: rev_induct)
  case Nil
  then show ?case by (simp add: be_get_def)
next
  case (snoc y ys)
  have "be_get (x # ys @ [y]) = 256 * be_get (x # ys) + unat y" using be_get_snoc [of "x # ys" y] by simp
  then show ?case using snoc by (simp add: algebra_simps)
qed

lemma byte_mask_eq:
  fixes x y :: byte
  assumes "k < 8"
  shows "x AND NOT (drop_bit k 0xff) = y AND NOT (drop_bit k 0xff) \<longleftrightarrow> unat x div 2 ^ (8 - k) = unat y div 2 ^ (8 - k)"
proof -
  have ff: "bit (255 :: byte) n \<longleftrightarrow> n < 8" for n
  proof -
    have "(255 :: byte) = - 1" by simp
    then show ?thesis by (simp only: bit_minus_1_iff possible_bit_word) simp
  qed
  have m: "bit (NOT (drop_bit k (255 :: byte))) n \<longleftrightarrow> n < 8 \<and> 8 - k \<le> n" for n
    using assms ff [of "k + n"] by (auto simp: bit_not_iff bit_drop_bit_eq)
  have "x AND NOT (drop_bit k 255) = y AND NOT (drop_bit k 255) \<longleftrightarrow> drop_bit (8 - k) x = drop_bit (8 - k) y"
  proof
    assume eq: "x AND NOT (drop_bit k 255) = y AND NOT (drop_bit k 255)"
    have "bit x (8 - k + n) = bit y (8 - k + n)" for n
    proof (cases "8 - k + n < 8")
      case True
      have "bit (x AND NOT (drop_bit k 255)) (8 - k + n) = bit (y AND NOT (drop_bit k 255)) (8 - k + n)" by (simp only: eq)
      then show ?thesis using True by (simp only: bit_and_iff m) simp
    next
      case False
      then show ?thesis using bit_imp_le_length [of x] bit_imp_le_length [of y] by fastforce
    qed
    then show "drop_bit (8 - k) x = drop_bit (8 - k) y" by (intro bit_eqI) (simp add: bit_drop_bit_eq)
  next
    assume eq: "drop_bit (8 - k) x = drop_bit (8 - k) y"
    show "x AND NOT (drop_bit k 255) = y AND NOT (drop_bit k 255)"
    proof (rule bit_eqI)
      fix n
      have "bit x n = bit y n" if "8 - k \<le> n"
        using arg_cong [OF eq, of "\<lambda>w. bit w (n - (8 - k))"] that by (simp add: bit_drop_bit_eq)
      then show "bit (x AND NOT (drop_bit k 255)) n = bit (y AND NOT (drop_bit k 255)) n"
        by (auto simp: bit_and_iff m)
    qed
  qed
  also have "\<dots> \<longleftrightarrow> unat x div 2 ^ (8 - k) = unat y div 2 ^ (8 - k)"
  proof -
    have "unat (drop_bit j w) = unat w div 2 ^ j" for j and w :: byte
      by (simp only: unat_drop_bit_eq) (simp only: drop_bit_eq_div)
    then show ?thesis by (simp only: word_unat_eq_iff)
  qed
  finally show ?thesis by simp
qed

lemma cidrMask_zero: "maskBytes (cidrMask 0 n) ip = replicate (min (length ip) n) 0"
proof (induction n arbitrary: ip)
  case 0
  then show ?case by (simp add: maskBytes_def)
next
  case (Suc n)
  have "(- 256 :: byte) = 0" by simp
  then have "x AND - 256 = 0" for x :: byte by (simp only: and_zero_eq)
  then show ?case using Suc by (cases ip) (simp_all add: maskBytes_def)
qed

lemma div_plus_multiple: "0 < d \<Longrightarrow> (u * (d * q) + r) div d = u * q + r div d" for d q r u :: nat
  using div_mult_self3 [of d "u * q" r] by (simp add: ac_simps)

lemma prefix_div:
  fixes a b r s :: nat
  assumes "r < m" "s < m" "m dvd d" "0 < m"
  shows "(a * m + r) div d = (b * m + s) div d \<longleftrightarrow> a div (d div m) = b div (d div m)"
proof -
  obtain c where d: "d = m * c" using assms(3) by (elim dvdE)
  have "(x * m + t) div d = x div (d div m)" if "t < m" for x t :: nat
    using that assms(4) by (simp add: d div_mult2_eq)
  then show ?thesis using assms(1,2) by simp
qed

text \<open>Bytes agree under the mask of a prefix exactly when their first bits, as a number, agree.\<close>

lemma maskBytes_prefix:
  "length a = n \<Longrightarrow> length b = n \<Longrightarrow> k \<le> 8 * n \<Longrightarrow>
   maskBytes (cidrMask k n) a = maskBytes (cidrMask k n) b \<longleftrightarrow> be_get a div 2 ^ (8 * n - k) = be_get b div 2 ^ (8 * n - k)"
proof (induction k n arbitrary: a b rule: cidrMask.induct)
  case (1 k)
  then show ?case by (simp add: maskBytes_def)
next
  case (2 k n)
  obtain x xs y ys where ab: "a = x # xs" "b = y # ys" "length xs = n" "length ys = n"
    using 2(3,4) by (metis length_Suc_conv)
  have bx: "be_get xs < 256 ^ n" "be_get ys < 256 ^ n" using be_get_bound [of xs] be_get_bound [of ys] ab(3,4) by auto
  have p: "(256 :: nat) ^ n = 2 ^ (8 * n)" by (simp add: power_mult)
  have c: "unat x < 256" "unat y < 256" by (rule unat_byte_less)+
  show ?case
  proof (cases "8 \<le> k")
    case True
    let ?d = "2 ^ (8 * n - (k - 8)) :: nat"
    have e: "8 * Suc n - k = 8 * n - (k - 8)" using True by simp
    have d: "?d dvd 256 ^ n" unfolding p by (intro le_imp_power_dvd) simp
    then obtain q where q: "(256 :: nat) ^ n = ?d * q" by (elim dvdE)
    have q0: "0 < q" using q by (metis mult_0_right neq0_conv zero_less_numeral zero_less_power less_numeral_extra(3))
    have lt: "be_get xs div ?d < q" "be_get ys div ?d < q" using bx unfolding q by (simp_all add: less_mult_imp_div_less mult.commute)
    have v: "be_get (x # xs) div ?d = unat x * q + be_get xs div ?d" "be_get (y # ys) div ?d = unat y * q + be_get ys div ?d"
      unfolding be_get_Cons ab(3,4) q by (rule div_plus_multiple; simp)+
    have "(unat x * q + be_get xs div ?d = unat y * q + be_get ys div ?d) \<longleftrightarrow> unat x = unat y \<and> be_get xs div ?d = be_get ys div ?d"
    proof
      assume h: "unat x * q + be_get xs div ?d = unat y * q + be_get ys div ?d"
      have "(unat x * q + be_get xs div ?d) div q = unat x" "(unat y * q + be_get ys div ?d) div q = unat y"
        using lt q0 by simp_all
      then show "unat x = unat y \<and> be_get xs div ?d = be_get ys div ?d" using h by simp
    qed simp
    moreover have "maskBytes (cidrMask (k - 8) n) xs = maskBytes (cidrMask (k - 8) n) ys \<longleftrightarrow> be_get xs div ?d = be_get ys div ?d"
      using 2(1) [OF True ab(3,4)] 2(5) by simp
    moreover have "z AND 255 = z" for z :: byte
    proof -
      have "(255 :: byte) = - 1" by simp
      then show ?thesis by (simp only: and.right_neutral)
    qed
    ultimately show ?thesis
      unfolding e ab v using True by (simp add: maskBytes_def word_unat_eq_iff)
  next
    case False
    have e: "8 * Suc n - k = 8 * n + (8 - k)" using False by simp
    have "maskBytes (cidrMask k (Suc n)) a = maskBytes (cidrMask k (Suc n)) b
        \<longleftrightarrow> x AND NOT (drop_bit k 255) = y AND NOT (drop_bit k 255)"
      using False cidrMask_zero [of n xs] cidrMask_zero [of n ys] ab by (simp add: maskBytes_def)
    also have "\<dots> \<longleftrightarrow> unat x div 2 ^ (8 - k) = unat y div 2 ^ (8 - k)" using byte_mask_eq False by simp
    also have "\<dots> \<longleftrightarrow> be_get a div 2 ^ (8 * Suc n - k) = be_get b div 2 ^ (8 * Suc n - k)"
      unfolding ab be_get_Cons e using bx
      by (subst prefix_div [where m = "256 ^ n"]) (simp_all add: p power_add ab)
    finally show ?thesis .
  qed
qed

section \<open>Properties\<close>

text \<open>A prefix contains exactly the addresses of its family that share its first \<open>k\<close> bits, whether
  they are given in four bytes or as IPv4 in IPv6.\<close>

theorem cidr_contains_iff:
  assumes "length net = 4 \<and> to4 ip = Some x \<or> length net = 16 \<and> to4 (in_ip (cidrNet net k)) = None \<and> to4 ip = None \<and> x = ip \<and> length x = 16"
    and "k \<le> 8 * length net"
  shows "ipNetContains (cidrNet net k) ip \<longleftrightarrow>
    be_get x div 2 ^ (8 * length net - k) = be_get net div 2 ^ (8 * length net - k)"
proof -
  have x: "length x = length net" using assms(1) by (auto simp: to4_def split: if_split_asm)
  have nm: "networkNumberAndMask (cidrNet net k) = Some (in_ip (cidrNet net k), cidrMask k (length net))"
    using assms(1) by (auto simp: networkNumberAndMask_def cidrNet_def to4_def)
  have ip: "(case to4 ip of Some x \<Rightarrow> x | None \<Rightarrow> ip) = x" using assms(1) by auto
  have "ipNetContains (cidrNet net k) ip
      \<longleftrightarrow> maskBytes (cidrMask k (length net)) net = maskBytes (cidrMask k (length net)) x"
    unfolding ipNetContains_def Let_def ip nm using x by (simp add: cidrNet_def maskBytes_idem)
  also have "\<dots> \<longleftrightarrow> be_get net div 2 ^ (8 * length net - k) = be_get x div 2 ^ (8 * length net - k)"
    by (rule maskBytes_prefix) (use x assms(2) in simp_all)
  finally show ?thesis by (simp add: eq_commute)
qed

theorem cidr_contains_iff_witness:
  "ipNetContains (cidrNet [10, 1, 0, 0] 12) (v4InV6Prefix @ [10, 17, 3, 4]) \<longleftrightarrow> (10 * 256 + 17) div 16 = (10 * 256 + 1) div (16 :: nat)"
  using cidr_contains_iff [of "[10, 1, 0, 0]" "v4InV6Prefix @ [10, 17, 3, 4]" "[10, 17, 3, 4]" 12]
  by (simp add: to4_def v4InV6Prefix_def be_get_def)

text \<open>The first rule that matches the source address decides; without an address, or without a
  matching rule, the packet takes the default detour.\<close>

theorem first_rule_decides:
  assumes "srcIP p = Some ip"
  shows "(\<exists>i < length (ipr_rules c). ruleMatches (ipr_geo c) ip (ipr_rules c ! i)
      \<and> (\<forall>j < i. \<not> ruleMatches (ipr_geo c) ip (ipr_rules c ! j)) \<and> ipDecide c p = ir_targets (ipr_rules c ! i))
    \<or> ((\<forall>r \<in> set (ipr_rules c). \<not> ruleMatches (ipr_geo c) ip r) \<and> ipDecide c p = ipr_default c)"
proof -
  have "(\<exists>i < length rs. ruleMatches g ip (rs ! i) \<and> (\<forall>j < i. \<not> ruleMatches g ip (rs ! j)) \<and> firstRule g ip rs = Some (ir_targets (rs ! i)))
      \<or> ((\<forall>r \<in> set rs. \<not> ruleMatches g ip r) \<and> firstRule g ip rs = None)" for g rs
  proof (induction rs)
    case Nil
    then show ?case by simp
  next
    case (Cons r rs)
    show ?case
    proof (cases "ruleMatches g ip r")
      case True
      then show ?thesis by (intro disjI1 exI [of _ 0]) simp
    next
      case False
      from Cons show ?thesis
      proof (elim disjE exE conjE)
        fix i assume i: "i < length rs" "ruleMatches g ip (rs ! i)" "\<forall>j < i. \<not> ruleMatches g ip (rs ! j)"
          "firstRule g ip rs = Some (ir_targets (rs ! i))"
        then show ?thesis using False by (intro disjI1 exI [of _ "Suc i"]) (simp add: All_less_Suc2)
      qed (use False in auto)
    qed
  qed
  from this [of "ipr_rules c" "ipr_geo c"] show ?thesis using assms by (auto simp: ipDecide_def)
qed

theorem first_rule_decides_witness:
  "ipDecide \<lparr>ipr_rules = [\<lparr>ir_targets = [''a''], ir_net = Some (cidrNet [10, 0, 0, 0] 8), ir_ip = None, ir_country = []\<rparr>],
       ipr_default = [''b''], ipr_geo = None, ipr_updateInterval = 0\<rparr>
     ((getPacketWithBuffer ''s'' (full_slice []) 0)\<lparr>pk_srcAddr := Some (UDPAddr [10, 9, 8, 7] 53 [])\<rparr>) = [''a'']"
  using first_rule_decides [of "(getPacketWithBuffer ''s'' (full_slice []) 0)\<lparr>pk_srcAddr := Some (UDPAddr [10, 9, 8, 7] 53 [])\<rparr>"
      "[10, 9, 8, 7]" "\<lparr>ipr_rules = [\<lparr>ir_targets = [''a''], ir_net = Some (cidrNet [10, 0, 0, 0] 8), ir_ip = None, ir_country = []\<rparr>],
       ipr_default = [''b''], ipr_geo = None, ipr_updateInterval = 0\<rparr>"]
  by (simp add: srcIP_def getPacketWithBuffer_def ruleMatches_def ipNetContains_def cidrNet_def to4_def
      networkNumberAndMask_def maskBytes_def numeral_nat)

text \<open>A country rule with a blank before \<open>geo:\<close> is accepted but names a country no database knows:
  the code cuts four characters off the text that still has its blanks.\<close>

theorem blank_before_geo_breaks_rule:
  assumes "trimSpace (map toLower ('' geo:'' @ s)) = map toLower (''geo:'' @ s)"
  shows "\<exists>r. compileRule P ('' geo:'' @ s, ts) = Some r \<and> ir_country r = map toUpper (trimSpace (CHR '':'' # s))"
  using assms by (simp add: compileRule_def Let_def toLower_def)

theorem blank_before_geo_breaks_rule_witness:
  "\<exists>r. compileRule P ('' geo:'' @ ''US'', ts) = Some r \<and> ir_country r = '':US''"
proof -
  have "trimSpace (map toLower ('' geo:'' @ ''US'')) = map toLower (''geo:'' @ ''US'')"
    "map toUpper (trimSpace (CHR '':'' # ''US'')) = '':US''" by code_simp+
  then show ?thesis using blank_before_geo_breaks_rule [of "''US''" P ts] by simp
qed

end
