(* ===== verification/Router.thy ===== *)
theory Router
  imports LoadBalancer IpRouter
begin

text \<open>
  \<open>src/filter.go\<close> and \<open>routePacket\<close> of \<open>src/router.go\<close> with the three components that only choose
  where a packet goes next (filter, load balancer, IP router). Packets are passed by pointer and
  counted, so the model has a store of packets; an address is a pointer. Every other component is
  an end: it keeps the reference it was handed (in a send queue) or releases it. Components hand
  packets to each other through the router in the caller's goroutine, which makes routing recursive:
  \<open>handle\<close> has a recursion depth as fuel, and running out of it is \<open>None\<close>, like a panic.
\<close>

section \<open>The filter\<close>

record filter_component =
  ft_detour :: "string \<rightharpoonup> string list"
  ft_detourMiss :: "string list"
  ft_detector :: detector
  ft_useDetectors :: "string list"

datatype filter_result = FilterTo "string list" | FilterNoDetour

definition filterDecide :: "filter_component \<Rightarrow> packet \<Rightarrow> (packet \<times> filter_result) option" where
  "filterDecide f p = do {
     s \<leftarrow> getData p;
     proto \<leftarrow> detectProtocol (ft_detector f) (sl_data s) (ft_useDetectors f);
     Some (p\<lparr>pk_proto := proto\<rparr>,
       if proto \<noteq> [] then (case ft_detour f proto of Some ts \<Rightarrow> FilterTo ts | None \<Rightarrow> FilterNoDetour)
       else FilterTo (ft_detourMiss f))
   }"

section \<open>The store of packets and the router\<close>

datatype component = CFilter filter_component | CBalancer load_balancer | CIpRouter ip_router | CEnd

record world =
  w_config :: router_config
  w_comps :: "string \<rightharpoonup> component"
  w_heap :: "packet list"
  w_put :: "nat list"
  w_bufferRef :: "32 word"
  w_held :: "(string \<times> nat) list"

text \<open>\<open>re_mem\<close> is what the pool's buffers contain, \<open>re_keeps\<close> which packets the end components keep.\<close>

record router_env =
  re_expr :: expr_lang
  re_floats :: floats
  re_info :: components
  re_mem :: "nat \<Rightarrow> bytes"
  re_keeps :: "string \<Rightarrow> packet \<Rightarrow> bool"

definition pkAt :: "world \<Rightarrow> nat \<Rightarrow> packet" where
  "pkAt w a = w_heap w ! a"

definition setPk :: "nat \<Rightarrow> packet \<Rightarrow> world \<Rightarrow> world" where
  "setPk a p w = w\<lparr>w_heap := (w_heap w)[a := p]\<rparr>"

definition refAdd :: "nat \<Rightarrow> world \<Rightarrow> world" where
  "refAdd a w = setPk a (addRef 1 (pkAt w a)) w"

definition refRelease :: "nat \<Rightarrow> world \<Rightarrow> world option" where
  "refRelease a w = do {
     (p, put) \<leftarrow> release (w_config w) 1 (pkAt w a);
     Some (if put then (setPk a p w)\<lparr>w_put := w_put w @ [a], w_bufferRef := w_bufferRef w - 1\<rparr> else setPk a p w)
   }"

definition newCopy :: "router_env \<Rightarrow> nat \<Rightarrow> world \<Rightarrow> (nat \<times> world) option" where
  "newCopy E a w = do {
     q \<leftarrow> copyPacket (re_mem E (length (w_heap w))) (pkAt w a);
     Some (length (w_heap w), w\<lparr>w_heap := w_heap w @ [q], w_bufferRef := w_bufferRef w + 1\<rparr>)
   }"

definition register :: "string \<Rightarrow> component \<Rightarrow> world \<Rightarrow> world option" where
  "register tag c w = (if tag = [] \<or> w_comps w tag \<noteq> None then None else Some (w\<lparr>w_comps := (w_comps w)(tag \<mapsto> c)\<rparr>))"

type_synonym handler = "string \<Rightarrow> nat \<Rightarrow> world \<Rightarrow> world option"

fun sendCopies :: "handler \<Rightarrow> router_env \<Rightarrow> nat \<Rightarrow> string list \<Rightarrow> world \<Rightarrow> world option" where
  "sendCopies h E a [] w = Some w"
| "sendCopies h E a (t # ts) w = do {
     (b, w1) \<leftarrow> newCopy E a w;
     w2 \<leftarrow> h t b w1;
     sendCopies h E a ts w2
   }"

definition routeTargets :: "world \<Rightarrow> nat \<Rightarrow> string list \<Rightarrow> string list" where
  "routeTargets w a tags = filter (\<lambda>t. t \<noteq> pk_srcTag (pkAt w a) \<and> w_comps w t \<noteq> None) tags"

text \<open>\<open>h tag a\<close> is \<open>HandlePacket\<close> of the component \<open>tag\<close>; its error is only logged.\<close>

definition routePacket :: "handler \<Rightarrow> router_env \<Rightarrow> nat \<Rightarrow> string list \<Rightarrow> world \<Rightarrow> world option" where
  "routePacket h E a tags w =
     (case tags of
        [t] \<Rightarrow> if t = pk_srcTag (pkAt w a) then Some w
               else if w_comps w t = None then Some w
               else h t a (refAdd a w)
      | _ \<Rightarrow>
          let ts = routeTargets w a tags in
          if ts = [] then Some w
          else do {
            w1 \<leftarrow> sendCopies h E a (butlast ts) w;
            h (last ts) a (refAdd a w1)
          })"

section \<open>The components\<close>

text \<open>\<open>HandlePacket\<close> of each: the deferred release runs after routing.\<close>

type_synonym routing = "nat \<Rightarrow> string list \<Rightarrow> world \<Rightarrow> world option"

definition handleFilter :: "routing \<Rightarrow> filter_component \<Rightarrow> nat \<Rightarrow> world \<Rightarrow> world option" where
  "handleFilter r f a w = do {
     (p, res) \<leftarrow> filterDecide f (pkAt w a);
     let w1 = setPk a p w;
     w2 \<leftarrow> (case res of FilterTo ts \<Rightarrow> r a ts w1 | FilterNoDetour \<Rightarrow> Some w1);
     refRelease a w2
   }"

definition handleBalancer :: "routing \<Rightarrow> router_env \<Rightarrow> string \<Rightarrow> load_balancer \<Rightarrow> nat \<Rightarrow> world \<Rightarrow> world option" where
  "handleBalancer r E tag lb a w =
     (let (lb', out) = lbDecide (re_expr E) (re_floats E) (re_info E) (pkAt w a) lb;
          w1 = w\<lparr>w_comps := (w_comps w)(tag \<mapsto> CBalancer lb')\<rparr>
      in do {
        w2 \<leftarrow> (case out of Some ts \<Rightarrow> r a ts w1 | None \<Rightarrow> Some w1);
        refRelease a w2
      })"

definition handleIpRouter :: "routing \<Rightarrow> ip_router \<Rightarrow> nat \<Rightarrow> world \<Rightarrow> world option" where
  "handleIpRouter r c a w = do {
     w1 \<leftarrow> r a (ipDecide c (pkAt w a)) w;
     refRelease a w1
   }"

definition handleEnd :: "router_env \<Rightarrow> string \<Rightarrow> nat \<Rightarrow> world \<Rightarrow> world option" where
  "handleEnd E tag a w =
     (if re_keeps E tag (pkAt w a) then Some (w\<lparr>w_held := w_held w @ [(tag, a)]\<rparr>) else refRelease a w)"

fun handle :: "nat \<Rightarrow> router_env \<Rightarrow> string \<Rightarrow> nat \<Rightarrow> world \<Rightarrow> world option" where
  "handle 0 E tag a w = None"
| "handle (Suc n) E tag a w =
     (let r = routePacket (handle n E) E in
      case w_comps w tag of
        None \<Rightarrow> None
      | Some (CFilter f) \<Rightarrow> handleFilter r f a w
      | Some (CBalancer lb) \<Rightarrow> handleBalancer r E tag lb a w
      | Some (CIpRouter c) \<Rightarrow> handleIpRouter r c a w
      | Some CEnd \<Rightarrow> handleEnd E tag a w)"

definition route :: "nat \<Rightarrow> router_env \<Rightarrow> nat \<Rightarrow> string list \<Rightarrow> world \<Rightarrow> world option" where
  "route n E a tags w = routePacket (handle n E) E a tags w"

section \<open>References\<close>

text \<open>
  Every packet is referenced by the frames of the call stack (\<open>R\<close>, a ghost) and by the ends that
  keep it. Its count is that number, and its buffer is back in the pool exactly when it is zero.
\<close>

definition refs :: "(nat \<Rightarrow> nat) \<Rightarrow> world \<Rightarrow> nat \<Rightarrow> nat" where
  "refs R w a = R a + count_list (map snd (w_held w)) a"

definition packet_ok :: "(nat \<Rightarrow> nat) \<Rightarrow> world \<Rightarrow> nat \<Rightarrow> bool" where
  "packet_ok R w a \<longleftrightarrow> refs R w a < 2 ^ 31 \<and> (a \<in> set (w_put w) \<longleftrightarrow> refs R w a = 0)
     \<and> (0 < refs R w a \<longrightarrow> pk_count (pkAt w a) = of_nat (refs R w a) \<and> pk_wf (w_config w) (pkAt w a))"

definition refs_inv :: "(nat \<Rightarrow> nat) \<Rightarrow> world \<Rightarrow> bool" where
  "refs_inv R w \<longleftrightarrow> distinct (w_put w) \<and> set (w_put w) \<subseteq> {..<length (w_heap w)}
     \<and> (\<forall>a \<ge> length (w_heap w). refs R w a = 0) \<and> (\<forall>a < length (w_heap w). packet_ok R w a)
     \<and> w_bufferRef w = of_nat (length (w_heap w)) - of_nat (length (w_put w))"

text \<open>Where a component may send packets; \<open>rank\<close> shows that no packet can come back.\<close>

fun outs :: "component \<Rightarrow> string set" where
  "outs (CFilter f) = \<Union> (set ` ran (ft_detour f)) \<union> set (ft_detourMiss f)"
| "outs (CBalancer lb) = \<Union> (set ` set (lb_ruleTargets lb)) \<union> set (lb_miss lb)
     \<union> (case lb_lastBatch lb of Some (b, ts) \<Rightarrow> set ts | None \<Rightarrow> {})"
| "outs (CIpRouter c) = \<Union> ((\<lambda>r. set (ir_targets r)) ` set (ipr_rules c)) \<union> set (ipr_default c)"
| "outs CEnd = {}"

fun comp_wf :: "component \<Rightarrow> bool" where
  "comp_wf (CFilter f) = (\<forall>n def. ft_detector f n = Some def \<longrightarrow> (\<forall>g \<in> set (pd_signatures def). sig_wf g))"
| "comp_wf _ = True"

definition ranked :: "(string \<Rightarrow> nat) \<Rightarrow> world \<Rightarrow> bool" where
  "ranked rank w \<longleftrightarrow> (\<forall>tag c. w_comps w tag = Some c \<longrightarrow> comp_wf c \<and> (\<forall>t \<in> outs c. rank t < rank tag))"

text \<open>What a packet carries, and what handling one packet leaves alone.\<close>

definition payload :: "packet \<Rightarrow> bytes \<times> string \<times> conn_id" where
  "payload p = (pk_bytes p, pk_srcTag p, pk_connID p)"

definition heldCount :: "world \<Rightarrow> nat \<Rightarrow> nat" where
  "heldCount w b = count_list (map snd (w_held w)) b"

definition frame :: "nat \<Rightarrow> nat \<Rightarrow> world \<Rightarrow> world \<Rightarrow> bool" where
  "frame k a w w' \<longleftrightarrow> w_config w' = w_config w \<and> dom (w_comps w') = dom (w_comps w)
     \<and> length (w_heap w) \<le> length (w_heap w')
     \<and> (\<forall>b < length (w_heap w). payload (pkAt w' b) = payload (pkAt w b))
     \<and> (\<forall>b < length (w_heap w'). length (w_heap w) \<le> b \<longrightarrow> payload (pkAt w' b) = payload (pkAt w a))
     \<and> (\<forall>b < length (w_heap w). b \<noteq> a \<longrightarrow> heldCount w' b = heldCount w b)
     \<and> heldCount w' a \<le> heldCount w a + k"

lemma refs_heldCount: "refs R w a = R a + heldCount w a"
  by (simp add: refs_def heldCount_def)

lemma frame_refl [simp]: "frame 0 a w w"
  by (simp add: frame_def)

lemma frame_trans:
  assumes "frame j a w w1" "frame k a w1 w2" "a < length (w_heap w)" "l = j + k"
  shows "frame l a w w2"
proof -
  have new: "payload (pkAt w2 b) = payload (pkAt w a)" if "b < length (w_heap w2)" "length (w_heap w) \<le> b" for b
    using assms that unfolding frame_def by (metis not_less order_less_le_trans)
  have old: "payload (pkAt w2 b) = payload (pkAt w b)" if "b < length (w_heap w)" for b
    using assms that unfolding frame_def by (metis order_less_le_trans)
  have held: "heldCount w2 b = heldCount w b" if "b < length (w_heap w)" "b \<noteq> a" for b
    using assms that unfolding frame_def by (metis order_less_le_trans)
  have "heldCount w2 a \<le> heldCount w a + l" using assms unfolding frame_def by linarith
  then show ?thesis using assms(1,2) new old held unfolding frame_def by auto
qed

lemma frame_weaken: "frame j a w w' \<Longrightarrow> j \<le> k \<Longrightarrow> frame k a w w'"
  by (auto simp: frame_def)

text \<open>Changing one packet without moving its bytes.\<close>

lemma pkAt_setPk: "a < length (w_heap w) \<Longrightarrow> pkAt (setPk a p w) b = (if b = a then p else pkAt w b)"
  by (simp add: pkAt_def setPk_def)

lemma setPk_simps [simp]:
  "w_held (setPk a p w) = w_held w" "w_put (setPk a p w) = w_put w" "w_config (setPk a p w) = w_config w"
  "w_comps (setPk a p w) = w_comps w" "length (w_heap (setPk a p w)) = length (w_heap w)"
  "w_bufferRef (setPk a p w) = w_bufferRef w" "heldCount (setPk a p w) b = heldCount w b"
  "refs R (setPk a p w) b = refs R w b"
  by (simp_all add: setPk_def heldCount_def refs_def)

lemma frame_setPk: "a < length (w_heap w) \<Longrightarrow> payload p = payload (pkAt w a) \<Longrightarrow> frame 0 a w (setPk a p w)"
  by (simp add: frame_def pkAt_setPk)

lemma live:
  assumes "refs_inv R w" "0 < R a"
  shows "a < length (w_heap w)" "0 < refs R w a" "packet_ok R w a"
proof -
  show p: "0 < refs R w a" using assms(2) by (simp add: refs_def)
  show "a < length (w_heap w)" using assms(1) p unfolding refs_inv_def by (metis not_less_zero not_less)
  then show "packet_ok R w a" using assms(1) by (simp add: refs_inv_def)
qed

lemma refs_inv_setPk:
  assumes "refs_inv R w" "0 < R a" "pk_count p = of_nat (refs R w a)" "pk_wf (w_config w) p"
  shows "refs_inv R (setPk a p w)"
  using assms live [OF assms(1,2)] by (auto simp: refs_inv_def packet_ok_def pkAt_setPk)

lemma of_nat_count:
  assumes "n < 2 ^ 31"
  shows "sint (of_nat n :: 32 word) = int n"
  using assms by (simp add: signed_of_nat signed_take_bit_int_eq_self)

lemma refAdd_ok:
  assumes "refs_inv R w" "0 < R a" "refs R w a + 1 < 2 ^ 31"
  shows "refs_inv (R(a := R a + 1)) (refAdd a w) \<and> frame 0 a w (refAdd a w)"
proof -
  note l = live [OF assms(1,2)]
  let ?p = "addRef 1 (pkAt w a)"
  have p: "pk_count ?p = of_nat (refs R w a + 1)" "pk_wf (w_config w) ?p" "payload ?p = payload (pkAt w a)"
    using l by (simp_all add: packet_ok_def addRef_def pk_wf_def payload_def pk_bytes_def)
  define R' where "R' = R(a := R a + 1)"
  have r: "refs R' w b = (if b = a then refs R w a + 1 else refs R w b)" for b by (simp add: refs_def R'_def)
  have "refs_inv R' (refAdd a w)"
    using assms(1) p l assms(3) by (auto simp: refs_inv_def packet_ok_def refAdd_def pkAt_setPk r)
  then show ?thesis using frame_setPk [OF l(1) p(3)] by (simp add: refAdd_def R'_def)
qed

lemma refRelease_ok:
  assumes "refs_inv R w" "0 < R a"
  shows "\<exists>w'. refRelease a w = Some w' \<and> refs_inv (R(a := R a - 1)) w' \<and> frame 0 a w w'"
proof -
  note l = live [OF assms]
  define m where "m = refs R w a - 1"
  let ?p = "(pkAt w a)\<lparr>pk_count := of_nat m\<rparr>"
  have m: "refs R w a = m + 1" "m < 2 ^ 31" using l by (auto simp: m_def packet_ok_def)
  have wf: "pk_wf (w_config w) (pkAt w a)" and c: "pk_count (pkAt w a) = of_nat (refs R w a)"
    using l by (simp_all add: packet_ok_def)
  have pl: "payload ?p = payload (pkAt w a)" "pk_wf (w_config w) ?p"
    using wf by (simp_all add: payload_def pk_bytes_def pk_wf_def)
  have "putBuffer (w_config w) (pk_buf ?p) \<noteq> None" using wf by (intro putBuffer_pool) (auto simp: pk_wf_def)
  then have rel: "release (w_config w) 1 (pkAt w a) = Some (?p, m = 0)"
    using of_nat_count [OF m(2)] by (auto simp: release_def Let_def c m(1))
  define R' where "R' = R(a := R a - 1)"
  have r: "refs R' w b = (if b = a then m else refs R w b)" for b
    using assms(2) by (auto simp: refs_def m_def R'_def)
  show ?thesis
  proof (cases "m = 0")
    case True
    define w' where "w' = (setPk a ?p w)\<lparr>w_put := w_put w @ [a], w_bufferRef := w_bufferRef w - 1\<rparr>"
    have e: "refRelease a w = Some w'" using rel True by (simp add: refRelease_def w'_def)
    have s: "refs R' w' b = refs R' w b" "pkAt w' b = (if b = a then ?p else pkAt w b)" "w_put w' = w_put w @ [a]"
      "w_bufferRef w' = w_bufferRef w - 1" "length (w_heap w') = length (w_heap w)" "w_config w' = w_config w"
      "w_comps w' = w_comps w" "heldCount w' b = heldCount w b" for b
      using l(1) by (simp_all add: refs_def pkAt_def setPk_def w'_def heldCount_def)
    have "refs_inv R' w'"
      using assms(1) l m True by (auto simp: refs_inv_def packet_ok_def r s)
    moreover have "frame 0 a w w'"
      using pl l(1) unfolding frame_def s by auto
    ultimately show ?thesis using e R'_def by blast
  next
    case False
    define w' where "w' = setPk a ?p w"
    have e: "refRelease a w = Some w'" using rel False by (simp add: refRelease_def w'_def)
    have "refs_inv R' w'"
      using assms(1) l m pl False by (auto simp: refs_inv_def packet_ok_def r pkAt_setPk w'_def)
    then show ?thesis using e frame_setPk [OF l(1) pl(1)] w'_def R'_def by blast
  qed
qed

lemma newCopy_ok:
  assumes "refs_inv R w" "0 < R a" "\<And>n. pool_mem (w_config w) (re_mem E n)"
  shows "\<exists>w'. newCopy E a w = Some (length (w_heap w), w') \<and> refs_inv (R(length (w_heap w) := 1)) w'
    \<and> frame 0 a w w' \<and> length (w_heap w') = length (w_heap w) + 1 \<and> w_held w' = w_held w \<and> w_comps w' = w_comps w"
proof -
  note l = live [OF assms(1,2)]
  let ?n = "length (w_heap w)"
  have "pk_wf (w_config w) (pkAt w a)" using l by (simp add: packet_ok_def)
  from copyPacket_wf [OF this assms(3)] obtain q where q: "copyPacket (re_mem E ?n) (pkAt w a) = Some q" "pk_wf (w_config w) q"
      "payload q = payload (pkAt w a)" "pk_count q = 1"
    unfolding payload_def by fastforce
  define w' where "w' = w\<lparr>w_heap := w_heap w @ [q], w_bufferRef := w_bufferRef w + 1\<rparr>"
  define R' where "R' = R(?n := 1)"
  have e: "newCopy E a w = Some (?n, w')" by (simp add: newCopy_def q w'_def)
  have z: "refs R w ?n = 0" using assms(1) by (simp add: refs_inv_def)
  have s: "pkAt w' ?n = q" "b < ?n \<Longrightarrow> pkAt w' b = pkAt w b" "refs R' w' b = (if b = ?n then 1 else refs R w b)"
    "length (w_heap w') = Suc ?n" "w_put w' = w_put w" "w_config w' = w_config w" "w_comps w' = w_comps w"
    "w_bufferRef w' = w_bufferRef w + 1" "heldCount w' b = heldCount w b" "w_held w' = w_held w" for b
    using z by (auto simp: pkAt_def nth_append w'_def R'_def refs_def heldCount_def)
  have "?n \<notin> set (w_put w)" using assms(1) by (auto simp: refs_inv_def)
  then have "refs_inv R' w'"
    using assms(1) q by (auto simp: refs_inv_def packet_ok_def s less_Suc_eq)
  moreover have "frame 0 a w w'"
    using l(1) q(3) unfolding frame_def by (auto simp: s less_Suc_eq)
  ultimately show ?thesis using e s R'_def by auto
qed

section \<open>Routing on components that keep the contract of \<open>HandlePacket\<close>\<close>

text \<open>
  The contract of \<open>Component.HandlePacket\<close>: it is handed one reference, and when it returns that
  reference is released or kept by an end. It is stated for components of rank below \<open>n\<close>.
\<close>

definition pool_ok :: "router_env \<Rightarrow> world \<Rightarrow> bool" where
  "pool_ok E w \<longleftrightarrow> (\<forall>k. pool_mem (w_config w) (re_mem E k))"

definition routed :: "(string \<Rightarrow> nat) \<Rightarrow> router_env \<Rightarrow> (nat \<Rightarrow> nat) \<Rightarrow> nat \<Rightarrow> nat \<Rightarrow> world \<Rightarrow> world \<Rightarrow> bool" where
  "routed rank E R k a w w' \<longleftrightarrow> pool_ok E w' \<and> ranked rank w' \<and> refs_inv R w' \<and> frame k a w w'"

lemma ranked_cong: "w_comps w' = w_comps w \<Longrightarrow> ranked rank w' = ranked rank w"
  by (simp add: ranked_def)

lemma pool_ok_frame: "pool_ok E w \<Longrightarrow> frame k a w w' \<Longrightarrow> pool_ok E w'"
  by (simp add: pool_ok_def frame_def)

lemma frame_refs: "frame k a w w' \<Longrightarrow> refs R w' a \<le> refs R w a + k"
  by (simp add: frame_def refs_heldCount)

lemma frame_comps: "frame k a w w' \<Longrightarrow> w_comps w' t = None \<longleftrightarrow> w_comps w t = None"
  unfolding frame_def by (metis domIff)

locale packet_handlers =
  fixes h :: handler and E :: router_env and rank :: "string \<Rightarrow> nat" and n :: nat
  assumes delivers: "pool_ok E w \<Longrightarrow> ranked rank w \<Longrightarrow> refs_inv R w \<Longrightarrow> 0 < R a \<Longrightarrow> refs R w a + n < 2 ^ 31
    \<Longrightarrow> w_comps w tag \<noteq> None \<Longrightarrow> rank tag < n
    \<Longrightarrow> \<exists>w'. h tag a w = Some w' \<and> routed rank E (R(a := R a - 1)) 1 a w w'"
begin

lemma copy_ok:
  assumes w: "pool_ok E w" "ranked rank w" "refs_inv R w" "0 < R a" "refs R w a + n + 1 < 2 ^ 31"
    and t: "w_comps w t \<noteq> None" "rank t < n"
  shows "\<exists>b w1 w2. newCopy E a w = Some (b, w1) \<and> h t b w1 = Some w2 \<and> routed rank E R 0 a w w2"
proof -
  note l = live [OF w(3,4)]
  let ?b = "length (w_heap w)"
  obtain w1 where w1: "newCopy E a w = Some (?b, w1)" "refs_inv (R(?b := 1)) w1" "frame 0 a w w1"
      "length (w_heap w1) = ?b + 1" "w_held w1 = w_held w" "w_comps w1 = w_comps w"
    using newCopy_ok [OF w(3,4)] w(1) unfolding pool_ok_def by blast
  have z: "refs R w ?b = 0" using w(3) by (simp add: refs_inv_def)
  then have b: "R ?b = 0" "heldCount w ?b = 0" by (simp_all add: refs_heldCount)
  have rb: "refs (R(?b := 1)) w1 ?b = 1" using b w1(5) by (simp add: refs_heldCount heldCount_def)
  have "refs R w a \<ge> 1" using l(2) by simp
  then have budget: "refs (R(?b := 1)) w1 ?b + n < 2 ^ 31" using w(5) unfolding rb by linarith
  obtain w2 where w2: "h t ?b w1 = Some w2" "routed rank E ((R(?b := 1))(?b := 0)) 1 ?b w1 w2"
    using delivers [OF pool_ok_frame [OF w(1) w1(3)] _ w1(2) _ budget, of t] t w(2) ranked_cong [OF w1(6)] w1(6)
    by (metis diff_self_eq_0 fun_upd_same zero_less_one)
  have R: "(R(?b := 1))(?b := 0) = R" using b by auto
  have f: "frame 1 ?b w1 w2" using w2(2) by (simp add: routed_def)
  have new: "payload (pkAt w2 c) = payload (pkAt w a)" if "c < length (w_heap w2)" "?b \<le> c" for c
    using f w1(3,4) that unfolding frame_def by (metis add.commute le_eq_less_or_eq lessI less_eq_Suc_le plus_1_eq_Suc)
  have old: "payload (pkAt w2 c) = payload (pkAt w c) \<and> heldCount w2 c = heldCount w c" if "c < ?b" for c
  proof -
    have "payload (pkAt w2 c) = payload (pkAt w1 c) \<and> heldCount w2 c = heldCount w1 c"
      using f w1(4) that unfolding frame_def by auto
    moreover have "payload (pkAt w1 c) = payload (pkAt w c)" using w1(3) that unfolding frame_def by auto
    ultimately show ?thesis using w1(5) by (simp add: heldCount_def)
  qed
  have "frame 0 a w w2"
    using f w1(3,4) new old l(1) unfolding frame_def by auto
  then have "routed rank E R 0 a w w2" using w2(2) R by (simp add: routed_def)
  then show ?thesis using w1(1) w2(1) by blast
qed

lemma sendCopies_ok:
  "pool_ok E w \<Longrightarrow> ranked rank w \<Longrightarrow> refs_inv R w \<Longrightarrow> 0 < R a \<Longrightarrow> refs R w a + n + 1 < 2 ^ 31
    \<Longrightarrow> \<forall>t \<in> set ts. w_comps w t \<noteq> None \<and> rank t < n
    \<Longrightarrow> \<exists>w'. sendCopies h E a ts w = Some w' \<and> routed rank E R 0 a w w'"
proof (induction ts arbitrary: w)
  case Nil
  then show ?case by (simp add: routed_def)
next
  case (Cons t ts)
  obtain b w1 w2 where s: "newCopy E a w = Some (b, w1)" "h t b w1 = Some w2" "routed rank E R 0 a w w2"
    using copy_ok [OF Cons.prems(1-5), of t] Cons.prems(6) by auto
  then have r: "pool_ok E w2" "ranked rank w2" "refs_inv R w2" "frame 0 a w w2" by (simp_all add: routed_def)
  have "refs R w2 a + n + 1 < 2 ^ 31" using frame_refs [OF r(4), of R] Cons.prems(5) by simp
  from Cons.IH [OF r(1-3) Cons.prems(4) this] obtain w' where w': "sendCopies h E a ts w2 = Some w'" "routed rank E R 0 a w2 w'"
    using Cons.prems(6) frame_comps [OF r(4)] by auto
  have "frame 0 a w w'"
    using frame_trans [OF r(4), of 0 w' 0] w'(2) live [OF Cons.prems(3,4)] by (simp add: routed_def)
  then show ?case using s w' by (auto simp: routed_def)
qed

lemma last_hop_ok:
  assumes w: "pool_ok E w" "ranked rank w" "refs_inv R w" "0 < R a" "refs R w a + n + 1 < 2 ^ 31"
    and t: "w_comps w t \<noteq> None" "rank t < n"
  shows "\<exists>w'. h t a (refAdd a w) = Some w' \<and> routed rank E R 1 a w w'"
proof -
  have "refs R w a + 1 < 2 ^ 31" using w(5) by simp
  from refAdd_ok [OF w(3,4) this]
  have a: "refs_inv (R(a := R a + 1)) (refAdd a w)" "frame 0 a w (refAdd a w)" by auto
  have c: "w_comps (refAdd a w) = w_comps w" by (simp add: refAdd_def)
  have "refs (R(a := R a + 1)) (refAdd a w) a = refs R w a + 1" by (simp add: refs_def refAdd_def setPk_def)
  then have budget: "refs (R(a := R a + 1)) (refAdd a w) a + n < 2 ^ 31" using w(5) by simp
  obtain w' where w': "h t a (refAdd a w) = Some w'"
      "routed rank E ((R(a := R a + 1))(a := (R(a := R a + 1)) a - 1)) 1 a (refAdd a w) w'"
    using delivers [OF pool_ok_frame [OF w(1) a(2)] _ a(1) _ budget, of t] w(2) ranked_cong [OF c] c t by auto
  have "(R(a := R a + 1))(a := (R(a := R a + 1)) a - 1) = R" by auto
  moreover have "frame 1 a w w'"
    using frame_trans [OF a(2), of 1 w' 1] w'(2) live [OF w(3,4)] by (simp add: routed_def)
  ultimately show ?thesis using w' by (auto simp: routed_def)
qed

lemma routePacket_ok:
  assumes w: "pool_ok E w" "ranked rank w" "refs_inv R w" "0 < R a" "refs R w a + n + 1 < 2 ^ 31"
    and t: "\<forall>t \<in> set tags. w_comps w t \<noteq> None \<longrightarrow> rank t < n"
  shows "\<exists>w'. routePacket h E a tags w = Some w' \<and> routed rank E R 1 a w w'"
proof -
  have stay: "routed rank E R 1 a w w" using w frame_weaken [OF frame_refl, of 1 a w] by (simp add: routed_def)
  have many: "\<exists>w'. (let ts = routeTargets w a tags in if ts = [] then Some w
      else do { w1 \<leftarrow> sendCopies h E a (butlast ts) w; h (last ts) a (refAdd a w1) }) = Some w' \<and> routed rank E R 1 a w w'"
  proof (cases "routeTargets w a tags = []")
    case True
    then show ?thesis using stay by simp
  next
    case False
    let ?ts = "routeTargets w a tags"
    have ts: "\<forall>t \<in> set ?ts. w_comps w t \<noteq> None \<and> rank t < n" using t by (auto simp: routeTargets_def)
    then have "\<forall>t \<in> set (butlast ?ts). w_comps w t \<noteq> None \<and> rank t < n" by (meson in_set_butlastD)
    from sendCopies_ok [OF w this] obtain w1 where w1: "sendCopies h E a (butlast ?ts) w = Some w1" "routed rank E R 0 a w w1" by blast
    then have r: "pool_ok E w1" "ranked rank w1" "refs_inv R w1" "frame 0 a w w1" by (simp_all add: routed_def)
    have b: "refs R w1 a + n + 1 < 2 ^ 31" using frame_refs [OF r(4), of R] w(5) by simp
    have "w_comps w1 (last ?ts) \<noteq> None" "rank (last ?ts) < n" using ts False frame_comps [OF r(4)] by auto
    from last_hop_ok [OF r(1-3) w(4) b this] obtain w' where w': "h (last ?ts) a (refAdd a w1) = Some w'" "routed rank E R 1 a w1 w'"
      by blast
    have "frame 1 a w w'"
      using frame_trans [OF r(4), of 1 w' 1] w'(2) live [OF w(3,4)] by (simp add: routed_def)
    then show ?thesis using False w1 w' by (auto simp: routed_def Let_def)
  qed
  show ?thesis
  proof (cases "\<exists>t. tags = [t]")
    case True
    then obtain t where "tags = [t]" by blast
    then show ?thesis using stay last_hop_ok [OF w, of t] t by (auto simp: routePacket_def)
  next
    case False
    then show ?thesis using many by (auto simp: routePacket_def split: list.split)
  qed
qed

end

section \<open>The components keep the contract\<close>

lemma detect_total:
  "\<forall>n def. ps n = Some def \<longrightarrow> (\<forall>g \<in> set (pd_signatures def). sig_wf g) \<Longrightarrow> \<exists>p. detectProtocol ps d ns = Some p"
  by (induction ns) (auto simp: matchProtocol_eq split: option.split)

lemma filterDecide_ok:
  assumes "pk_wf c p" "comp_wf (CFilter f)"
  shows "\<exists>proto res. filterDecide f p = Some (p\<lparr>pk_proto := proto\<rparr>, res)
    \<and> (\<forall>ts. res = FilterTo ts \<longrightarrow> set ts \<subseteq> outs (CFilter f))"
proof -
  obtain s where s: "getData p = Some s" using getData_wf [OF assms(1)] by blast
  obtain proto where d: "detectProtocol (ft_detector f) (sl_data s) (ft_useDetectors f) = Some proto"
    using detect_total [of "ft_detector f"] assms(2) by fastforce
  show ?thesis
    by (cases "ft_detour f proto") (auto simp: filterDecide_def s d ran_def)
qed

lemma evaluateCompiledRules_targets:
  "set (evaluateCompiledRules X F cs sq bps pps sz lb) \<subseteq> \<Union> (set ` set (lb_ruleTargets lb))"
  by (auto simp: evaluateCompiledRules_def split: if_split_asm dest: set_zip_rightD)

lemma lbChoose_targets:
  "case snd (lbChoose X F cs p lb) of Some ts \<Rightarrow> set ts \<subseteq> \<Union> (set ` set (lb_ruleTargets lb)) \<union> set (lb_miss lb) | None \<Rightarrow> True"
  using evaluateCompiledRules_targets [of X F cs]
  by (fastforce simp: lbChoose_def Let_def case_prod_beta split: if_splits)

lemma lbChoose_lastBatch:
  "lb_lastBatch (fst (lbChoose X F cs p lb)) = lb_lastBatch lb
   \<or> (\<exists>b ts. lb_lastBatch (fst (lbChoose X F cs p lb)) = Some (b, ts) \<and> snd (lbChoose X F cs p lb) = Some ts)"
  by (simp add: lbChoose_def Let_def case_prod_beta)

lemma lbDecide_cases:
  "lbDecide X F cs p lb = lbChoose X F cs p (lb\<lparr>lb_stats := updateStats p (lb_stats lb)\<rparr>)
   \<or> (\<exists>b ts. lb_lastBatch lb = Some (b, ts) \<and> lbDecide X F cs p lb = (lb\<lparr>lb_stats := updateStats p (lb_stats lb)\<rparr>, Some ts))"
  by (auto simp: lbDecide_def Let_def split: option.split)

lemma lbDecide_outs:
  assumes "lbDecide X F cs p lb = (lb', out)"
  shows "outs (CBalancer lb') \<subseteq> outs (CBalancer lb)" "\<forall>ts. out = Some ts \<longrightarrow> set ts \<subseteq> outs (CBalancer lb)"
proof -
  let ?lb = "lb\<lparr>lb_stats := updateStats p (lb_stats lb)\<rparr>"
  let ?c = "lbChoose X F cs p ?lb"
  have k: "lb_ruleTargets lb' = lb_ruleTargets lb" "lb_miss lb' = lb_miss lb"
    using assms lbDecide_keeps(3,6) by (metis fst_conv)+
  have "outs (CBalancer lb') \<subseteq> outs (CBalancer lb) \<and> (\<forall>ts. out = Some ts \<longrightarrow> set ts \<subseteq> outs (CBalancer lb))"
    using lbDecide_cases [where X = X and F = F and cs = cs and p = p and lb = lb]
  proof (elim disjE exE conjE)
    assume e: "lbDecide X F cs p lb = ?c"
    then have c: "fst ?c = lb'" "snd ?c = out" using assms by (metis fst_conv, metis snd_conv)
    show ?thesis
      using lbChoose_targets [where X = X and F = F and cs = cs and p = p and lb = ?lb]
        lbChoose_lastBatch [where X = X and F = F and cs = cs and p = p and lb = ?lb] k unfolding c
      by (auto split: option.split_asm)
  next
    fix b ts assume "lb_lastBatch lb = Some (b, ts)" "lbDecide X F cs p lb = (?lb, Some ts)"
    then show ?thesis using assms by auto
  qed
  then show "outs (CBalancer lb') \<subseteq> outs (CBalancer lb)" "\<forall>ts. out = Some ts \<longrightarrow> set ts \<subseteq> outs (CBalancer lb)"
    by blast+
qed

lemma firstRule_targets: "firstRule g ip rs = Some ts \<Longrightarrow> set ts \<subseteq> \<Union> ((\<lambda>r. set (ir_targets r)) ` set rs)"
  by (induction rs) (auto split: if_split_asm)

lemma ipDecide_outs: "set (ipDecide c p) \<subseteq> outs (CIpRouter c)"
  using firstRule_targets [of "ipr_geo c" _ "ipr_rules c"] by (auto simp: ipDecide_def split: option.splits)

lemma ranked_outs: "ranked rank w \<Longrightarrow> w_comps w tag = Some c \<Longrightarrow> t \<in> outs c \<Longrightarrow> rank t < rank tag"
  by (auto simp: ranked_def)

text \<open>Releasing after a routing step that left \<open>R\<close> as it was.\<close>

lemma release_after:
  assumes "routed rank E R 1 a w w1" "0 < R a" "a < length (w_heap w)"
  shows "\<exists>w'. refRelease a w1 = Some w' \<and> routed rank E (R(a := R a - 1)) 1 a w w'"
proof -
  have r: "pool_ok E w1" "ranked rank w1" "refs_inv R w1" "frame 1 a w w1" using assms(1) by (simp_all add: routed_def)
  obtain w' where w': "refRelease a w1 = Some w'" "refs_inv (R(a := R a - 1)) w'" "frame 0 a w1 w'"
    using refRelease_ok [OF r(3) assms(2)] by blast
  have c: "w_comps w' = w_comps w1"
    using w'(1) by (auto simp: refRelease_def option_bind_eq_Some split: if_split_asm)
  have "frame 1 a w w'" by (rule frame_trans [OF r(4) w'(3) assms(3)]) simp
  then show ?thesis using w' r ranked_cong [OF c] pool_ok_frame [OF r(1) w'(3)] by (auto simp: routed_def)
qed

lemma routed_from:
  assumes "routed rank E R 1 a w1 w2" "frame 0 a w w1" "a < length (w_heap w)"
  shows "routed rank E R 1 a w w2"
  using assms frame_trans [OF assms(2), of 1 w2 1] by (simp add: routed_def)

text \<open>\<open>r\<close> routes to anything of rank below the component's own.\<close>

definition routes :: "routing \<Rightarrow> (string \<Rightarrow> nat) \<Rightarrow> router_env \<Rightarrow> nat \<Rightarrow> bool" where
  "routes r rank E k \<longleftrightarrow> (\<forall>R a tags w. pool_ok E w \<longrightarrow> ranked rank w \<longrightarrow> refs_inv R w \<longrightarrow> 0 < R a
     \<longrightarrow> refs R w a + k < 2 ^ 31 \<longrightarrow> (\<forall>t \<in> set tags. w_comps w t \<noteq> None \<longrightarrow> rank t < k - 1)
     \<longrightarrow> (\<exists>w'. r a tags w = Some w' \<and> routed rank E R 1 a w w'))"

lemma routesD:
  assumes "routes r rank E k" "pool_ok E w" "ranked rank w" "refs_inv R w" "0 < R a" "refs R w a + k < 2 ^ 31"
    and "\<forall>t \<in> set tags. w_comps w t \<noteq> None \<longrightarrow> rank t < k - 1"
  shows "\<exists>w'. r a tags w = Some w' \<and> routed rank E R 1 a w w'"
  using assms unfolding routes_def by blast

lemma routed_stay:
  assumes "pool_ok E w" "ranked rank w" "refs_inv R w"
  shows "routed rank E R 1 a w w"
  using assms frame_weaken [OF frame_refl, of 1 a w] by (simp add: routed_def)

lemma handleFilter_ok:
  assumes r: "routes r rank E k" and w: "pool_ok E w" "ranked rank w" "refs_inv R w" "0 < R a" "refs R w a + k < 2 ^ 31"
    and c: "w_comps w tag = Some (CFilter f)" "rank tag < k"
  shows "\<exists>w'. handleFilter r f a w = Some w' \<and> routed rank E (R(a := R a - 1)) 1 a w w'"
proof -
  note l = live [OF w(3,4)]
  have pk: "pk_wf (w_config w) (pkAt w a)" "pk_count (pkAt w a) = of_nat (refs R w a)" using l by (simp_all add: packet_ok_def)
  have wf: "comp_wf (CFilter f)" using w(2) c(1) unfolding ranked_def by blast
  obtain proto res where d: "filterDecide f (pkAt w a) = Some ((pkAt w a)\<lparr>pk_proto := proto\<rparr>, res)"
      "\<forall>ts. res = FilterTo ts \<longrightarrow> set ts \<subseteq> outs (CFilter f)"
    using filterDecide_ok [OF pk(1) wf] by blast
  define w1 where "w1 = setPk a ((pkAt w a)\<lparr>pk_proto := proto\<rparr>) w"
  have f: "frame 0 a w w1" unfolding w1_def by (rule frame_setPk [OF l(1)]) (simp add: payload_def pk_bytes_def)
  have inv: "refs_inv R w1" unfolding w1_def by (rule refs_inv_setPk [OF w(3,4)]) (use pk in \<open>simp_all add: pk_wf_def\<close>)
  have k: "pool_ok E w1" "ranked rank w1" "refs R w1 a + k < 2 ^ 31" "w_comps w1 = w_comps w"
    using pool_ok_frame [OF w(1) f] w(2,5) ranked_cong [of w1 w] by (simp_all add: w1_def)
  have "\<exists>w2. (case res of FilterTo ts \<Rightarrow> r a ts w1 | FilterNoDetour \<Rightarrow> Some w1) = Some w2 \<and> routed rank E R 1 a w1 w2"
  proof (cases res)
    case (FilterTo ts)
    have "\<forall>t \<in> set ts. w_comps w1 t \<noteq> None \<longrightarrow> rank t < k - 1"
      using d(2) FilterTo ranked_outs [OF w(2) c(1)] c(2) by fastforce
    from routesD [OF r k(1,2) inv w(4) k(3) this] show ?thesis using FilterTo by simp
  next
    case FilterNoDetour
    then show ?thesis using routed_stay [OF k(1,2) inv] by simp
  qed
  then obtain w2 where w2: "(case res of FilterTo ts \<Rightarrow> r a ts w1 | FilterNoDetour \<Rightarrow> Some w1) = Some w2" "routed rank E R 1 a w1 w2"
    by blast
  from release_after [OF routed_from [OF w2(2) f l(1)] w(4) l(1)]
  show ?thesis using d(1) w2(1) unfolding w1_def by (simp add: handleFilter_def Let_def)
qed

lemma handleBalancer_ok:
  assumes r: "routes r rank E k" and w: "pool_ok E w" "ranked rank w" "refs_inv R w" "0 < R a" "refs R w a + k < 2 ^ 31"
    and c: "w_comps w tag = Some (CBalancer lb)" "rank tag < k"
  shows "\<exists>w'. handleBalancer r E tag lb a w = Some w' \<and> routed rank E (R(a := R a - 1)) 1 a w w'"
proof -
  note l = live [OF w(3,4)]
  obtain lb' out where d: "lbDecide (re_expr E) (re_floats E) (re_info E) (pkAt w a) lb = (lb', out)" by force
  note o = lbDecide_outs [OF d]
  define w1 where "w1 = w\<lparr>w_comps := (w_comps w)(tag \<mapsto> CBalancer lb')\<rparr>"
  have s: "w_held w1 = w_held w" "w_heap w1 = w_heap w" "w_put w1 = w_put w" "w_config w1 = w_config w"
      "w_bufferRef w1 = w_bufferRef w" "dom (w_comps w1) = dom (w_comps w)"
    using c(1) by (auto simp: w1_def)
  have s': "refs R w1 = refs R w" "pkAt w1 = pkAt w" "heldCount w1 = heldCount w"
    by (simp_all add: fun_eq_iff refs_def pkAt_def heldCount_def s)
  have f: "frame 0 a w w1" by (simp add: frame_def s s' del: dom_def)
  have inv: "refs_inv R w1" using w(3) by (simp add: refs_inv_def packet_ok_def s s')
  have rk: "ranked rank w1"
    using w(2) o(1) c(1) unfolding ranked_def w1_def by (auto simp del: outs.simps split: if_split_asm)
  have k: "pool_ok E w1" "refs R w1 a + k < 2 ^ 31" using pool_ok_frame [OF w(1) f] w(5) s' by simp_all
  have "\<exists>w2. (case out of Some ts \<Rightarrow> r a ts w1 | None \<Rightarrow> Some w1) = Some w2 \<and> routed rank E R 1 a w1 w2"
  proof (cases out)
    case None
    then show ?thesis using routed_stay [OF k(1) rk inv] by simp
  next
    case (Some ts)
    have "\<forall>t \<in> set ts. w_comps w1 t \<noteq> None \<longrightarrow> rank t < k - 1"
      using o(2) Some ranked_outs [OF w(2) c(1)] c(2) by fastforce
    from routesD [OF r k(1) rk inv w(4) k(2) this] show ?thesis using Some by simp
  qed
  then obtain w2 where w2: "(case out of Some ts \<Rightarrow> r a ts w1 | None \<Rightarrow> Some w1) = Some w2" "routed rank E R 1 a w1 w2"
    by blast
  from release_after [OF routed_from [OF w2(2) f l(1)] w(4) l(1)]
  show ?thesis using w2(1) by (simp add: handleBalancer_def d w1_def [symmetric])
qed

lemma handleIpRouter_ok:
  assumes r: "routes r rank E k" and w: "pool_ok E w" "ranked rank w" "refs_inv R w" "0 < R a" "refs R w a + k < 2 ^ 31"
    and c: "w_comps w tag = Some (CIpRouter ipr)" "rank tag < k"
  shows "\<exists>w'. handleIpRouter r ipr a w = Some w' \<and> routed rank E (R(a := R a - 1)) 1 a w w'"
proof -
  have "\<forall>t \<in> set (ipDecide ipr (pkAt w a)). w_comps w t \<noteq> None \<longrightarrow> rank t < k - 1"
    using ipDecide_outs [of ipr "pkAt w a"] ranked_outs [OF w(2) c(1)] c(2) by fastforce
  from routesD [OF r w this] obtain w1 where w1: "r a (ipDecide ipr (pkAt w a)) w = Some w1" "routed rank E R 1 a w w1" by blast
  from release_after [OF w1(2) w(4)] show ?thesis using w1(1) live [OF w(3,4)] by (simp add: handleIpRouter_def)
qed

lemma handleEnd_ok:
  assumes w: "pool_ok E w" "ranked rank w" "refs_inv R w" "0 < R a"
  shows "\<exists>w'. handleEnd E tag a w = Some w' \<and> routed rank E (R(a := R a - 1)) 1 a w w'"
proof (cases "re_keeps E tag (pkAt w a)")
  case True
  note l = live [OF w(3,4)]
  define w1 where "w1 = w\<lparr>w_held := w_held w @ [(tag, a)]\<rparr>"
  define R' where "R' = R(a := R a - 1)"
  have s: "w_heap w1 = w_heap w" "w_put w1 = w_put w" "w_config w1 = w_config w" "w_comps w1 = w_comps w"
      "w_bufferRef w1 = w_bufferRef w" "pkAt w1 = pkAt w" "heldCount w1 b = heldCount w b + (if b = a then 1 else 0)" for b
    by (simp_all add: w1_def heldCount_def pkAt_def fun_eq_iff)
  have rr: "refs R' w1 = refs R w" using w(4) by (auto simp: fun_eq_iff refs_heldCount s R'_def)
  have "refs_inv R' w1" using w(3) by (simp add: refs_inv_def packet_ok_def s rr)
  moreover have "frame 1 a w w1" by (simp add: frame_def s)
  moreover have "ranked rank w1" using w(2) ranked_cong [OF s(4)] by simp
  ultimately have "routed rank E R' 1 a w w1" using pool_ok_frame [OF w(1)] by (auto simp: routed_def)
  then show ?thesis using True by (simp add: handleEnd_def w1_def R'_def)
next
  case False
  then show ?thesis
    using release_after [OF routed_stay [OF w(1-3)] w(4)] live [OF w(3,4)] by (simp add: handleEnd_def)
qed

lemma handle_delivers:
  "pool_ok E w \<Longrightarrow> ranked rank w \<Longrightarrow> refs_inv R w \<Longrightarrow> 0 < R a \<Longrightarrow> refs R w a + n < 2 ^ 31
    \<Longrightarrow> w_comps w tag \<noteq> None \<Longrightarrow> rank tag < n
    \<Longrightarrow> \<exists>w'. handle n E tag a w = Some w' \<and> routed rank E (R(a := R a - 1)) 1 a w w'"
proof (induction n arbitrary: tag a w R)
  case 0
  then show ?case by simp
next
  case (Suc n)
  have "packet_handlers (handle n E) E rank n" using Suc.IH by unfold_locales blast
  then have r: "routes (routePacket (handle n E) E) rank E (Suc n)"
    unfolding routes_def using packet_handlers.routePacket_ok by fastforce
  obtain c where c: "w_comps w tag = Some c" using Suc.prems(6) by blast
  show ?case
  proof (cases c)
    case (CFilter f)
    then show ?thesis using handleFilter_ok [OF r Suc.prems(1-5) _ Suc.prems(7), of f] c by (simp only: handle.simps Let_def option.case component.case)
  next
    case (CBalancer lb)
    then show ?thesis using handleBalancer_ok [OF r Suc.prems(1-5) _ Suc.prems(7), of lb] c by (simp only: handle.simps Let_def option.case component.case)
  next
    case (CIpRouter ipr)
    then show ?thesis using handleIpRouter_ok [OF r Suc.prems(1-5) _ Suc.prems(7), of ipr] c by (simp only: handle.simps Let_def option.case component.case)
  next
    case CEnd
    then show ?thesis using handleEnd_ok [OF Suc.prems(1-4), of tag] c by (simp only: handle.simps Let_def option.case component.case)
  qed
qed

interpretation components: packet_handlers "handle n E" E rank n for n E rank
  using handle_delivers by unfold_locales blast

lemma held_live:
  assumes "refs_inv (\<lambda>_. 0) w"
  shows "snd ` set (w_held w) = {b. b < length (w_heap w) \<and> b \<notin> set (w_put w)}"
proof -
  have h: "refs (\<lambda>_. 0) w b \<noteq> 0 \<longleftrightarrow> b \<in> snd ` set (w_held w)" for b
    by (simp add: refs_def count_list_0_iff)
  have lt: "b < length (w_heap w)" if "refs (\<lambda>_. 0) w b \<noteq> 0" for b
    using assms that unfolding refs_inv_def by (metis not_less)
  have put: "b \<in> set (w_put w) \<longleftrightarrow> refs (\<lambda>_. 0) w b = 0" if "b < length (w_heap w)" for b
    using assms that unfolding refs_inv_def packet_ok_def by blast
  have "b \<in> snd ` set (w_held w) \<longleftrightarrow> b < length (w_heap w) \<and> b \<notin> set (w_put w)" for b
    using h lt put by blast
  then show ?thesis by blast
qed

lemma live_card:
  assumes "refs_inv (\<lambda>_. 0) w"
  shows "w_bufferRef w = of_nat (card (snd ` set (w_held w)))"
proof -
  have d: "distinct (w_put w)" "set (w_put w) \<subseteq> {..<length (w_heap w)}" using assms by (simp_all add: refs_inv_def)
  have "card (snd ` set (w_held w)) = card ({..<length (w_heap w)} - set (w_put w))"
    unfolding held_live [OF assms] by (rule arg_cong [where f = card]) auto
  also have "\<dots> = length (w_heap w) - length (w_put w)"
    using d by (simp add: card_Diff_subset distinct_card)
  finally have c: "card (snd ` set (w_held w)) = length (w_heap w) - length (w_put w)" .
  have "length (w_put w) \<le> length (w_heap w)" using d card_mono [OF _ d(2)] by (simp add: distinct_card)
  then show ?thesis using assms c by (simp add: refs_inv_def of_nat_diff)
qed

section \<open>Properties\<close>

text \<open>C28. Routing loses no buffer and releases none twice: in a network of components without cycles a
  packet handed to the router by its only owner is passed through all filters, balancers and IP routers
  without panic; afterwards, when the owner has released it, the buffers not yet returned to the pool are
  exactly those some end component keeps, the pool's reference counter is their number, and every copy that
  was made carries the bytes of the original.\<close>

theorem routed_buffers_accounted:
  assumes "refs_inv ((\<lambda>_. 0)(a := 1)) w" "ranked rank w" "\<forall>t \<in> set tags. rank t < n"
    and "\<forall>k. pool_mem (w_config w) (re_mem E k)" "heldCount w a + n + 2 < 2 ^ 31"
  shows "\<exists>w'. Option.bind (route n E a tags w) (refRelease a) = Some w'
    \<and> snd ` set (w_held w') = {b. b < length (w_heap w') \<and> b \<notin> set (w_put w')} \<and> distinct (w_put w')
    \<and> w_bufferRef w' = of_nat (card (snd ` set (w_held w')))
    \<and> (\<forall>b < length (w_heap w'). length (w_heap w) \<le> b \<longrightarrow> pk_bytes (pkAt w' b) = pk_bytes (pkAt w a))"
proof -
  let ?R = "(\<lambda>_. 0)(a := 1 :: nat)"
  have p: "pool_ok E w" using assms(4) by (simp add: pool_ok_def)
  have "refs ?R w a + n + 1 < 2 ^ 31" using assms(5) by (simp add: refs_heldCount)
  then obtain w1 where w1: "route n E a tags w = Some w1" "routed rank E ?R 1 a w w1"
    using components.routePacket_ok [OF p assms(2,1), of a n tags] assms(3) unfolding route_def by fastforce
  have l: "a < length (w_heap w)" using live [OF assms(1), of a] by simp
  obtain w' where w': "refRelease a w1 = Some w'" "routed rank E (?R(a := ?R a - 1)) 1 a w w'"
    using release_after [OF w1(2) _ l] by auto
  have "?R(a := ?R a - 1) = (\<lambda>_. 0)" by auto
  then have inv: "refs_inv (\<lambda>_. 0) w'" and f: "frame 1 a w w'" using w'(2) by (simp_all add: routed_def)
  have "\<forall>b < length (w_heap w'). length (w_heap w) \<le> b \<longrightarrow> pk_bytes (pkAt w' b) = pk_bytes (pkAt w a)"
    using f by (auto simp: frame_def payload_def)
  moreover have "distinct (w_put w')" using inv by (simp add: refs_inv_def)
  ultimately show ?thesis using w1(1) w'(1) held_live [OF inv] live_card [OF inv] by auto
qed

definition demoPool :: router_config where
  "demoPool = \<lparr>rc_bufferSize = 100, rc_bufferOffset = 20, rc_queueSize = 8, rc_workerCount = 1\<rparr>"

definition demoFilter :: "string list \<Rightarrow> filter_component" where
  "demoFilter miss = \<lparr>ft_detour = (\<lambda>_. None), ft_detourMiss = miss, ft_detector = (\<lambda>_. None), ft_useDetectors = []\<rparr>"

definition demoWorld :: "string list \<Rightarrow> world" where
  "demoWorld miss = \<lparr>w_config = demoPool,
     w_comps = [''f'' \<mapsto> CFilter (demoFilter miss), ''x'' \<mapsto> CEnd, ''y'' \<mapsto> CEnd],
     w_heap = [(getPacket demoPool (replicate 120 0) ''s'')\<lparr>pk_length := 30\<rparr>], w_put = [], w_bufferRef = 1, w_held = []\<rparr>"

definition demoEnv :: router_env where
  "demoEnv = \<lparr>re_expr = demoX, re_floats = exact_floats, re_info = (\<lambda>_. None), re_mem = (\<lambda>_. replicate 120 0),
     re_keeps = (\<lambda>t _. t = ''y'')\<rparr>"

lemma demoWorld_ok:
  "refs_inv ((\<lambda>_. 0)(0 := 1)) (demoWorld miss)" "pool_mem (w_config (demoWorld miss)) (re_mem demoEnv k)"
  "heldCount (demoWorld miss) 0 = 0" "length (w_heap (demoWorld miss)) = 1"
  by (simp_all add: refs_inv_def packet_ok_def refs_def demoWorld_def pkAt_def getPacket_def getPacketWithBuffer_def
      pk_wf_def pool_mem_def poolSize_def demoPool_def full_slice_def demoEnv_def heldCount_def)

theorem routed_buffers_accounted_witness:
  "\<exists>w'. Option.bind (route 2 demoEnv 0 [''f''] (demoWorld [''x'', ''y''])) (refRelease 0) = Some w' \<and> distinct (w_put w')"
proof -
  let ?rank = "\<lambda>t. if t = ''f'' then 1 else 0 :: nat"
  have "ranked ?rank (demoWorld [''x'', ''y''])" by (simp add: ranked_def demoWorld_def demoFilter_def)
  from routed_buffers_accounted [OF demoWorld_ok(1) this, of "[''f'']" 2 demoEnv]
  show ?thesis using demoWorld_ok(2,3) by auto
qed

text \<open>A filter whose detour is itself only calls itself again, for the same packet with one more reference.\<close>

lemma loop_step:
  assumes "w_comps w t = Some (CFilter f)" "ft_useDetectors f = []" "ft_detourMiss f = [t]"
    and "pk_srcTag (pkAt w a) \<noteq> t" "a < length (w_heap w)" "getData (pkAt w a) \<noteq> None"
  shows "handle (Suc n) E t a w
    = do { w2 \<leftarrow> handle n E t a (refAdd a (setPk a ((pkAt w a)\<lparr>pk_proto := []\<rparr>) w)); refRelease a w2 }"
proof -
  have "filterDecide f (pkAt w a) = Some ((pkAt w a)\<lparr>pk_proto := []\<rparr>, FilterTo [t])"
    using assms(2,3,6) by (auto simp: filterDecide_def)
  then show ?thesis using assms(1,4,5) by (simp add: handleFilter_def Let_def routePacket_def pkAt_setPk)
qed

text \<open>C40. A configuration loop is not detected: a filter whose default detour is itself never returns from
  \<open>HandlePacket\<close>, at any recursion depth (in Go the stack overflows and the process dies). It is the
  depth that gives no result, not a panic on the way: for a packet whose data lies in its buffer each call does nothing but
  call itself once more, for the same packet and data, and release a reference afterwards.\<close>

theorem routing_loop_never_returns:
  assumes "w_comps w t = Some (CFilter f)" "ft_useDetectors f = []" "ft_detourMiss f = [t]"
    and "pk_srcTag (pkAt w a) \<noteq> t" "a < length (w_heap w)"
  shows "handle n E t a w = None
    \<and> (getData (pkAt w a) \<noteq> None \<longrightarrow> (let w1 = refAdd a (setPk a ((pkAt w a)\<lparr>pk_proto := []\<rparr>) w) in
        handle (Suc n) E t a w = do { w2 \<leftarrow> handle n E t a w1; refRelease a w2 } \<and> getData (pkAt w1 a) = getData (pkAt w a)))"
proof
  show "handle n E t a w = None" using assms
  proof (induction n arbitrary: w)
    case 0
    then show ?case by simp
  next
    case (Suc n)
    let ?w = "refAdd a (setPk a ((pkAt w a)\<lparr>pk_proto := []\<rparr>) w)"
    have "handle n E t a ?w = None"
      using Suc.prems by (intro Suc.IH) (simp_all add: refAdd_def pkAt_setPk addRef_def)
    then show ?case
      using loop_step [OF Suc.prems, of n E] Suc.prems(1)
      by (cases "getData (pkAt w a) = None") (simp_all add: handleFilter_def filterDecide_def)
  qed
next
  let ?w = "refAdd a (setPk a ((pkAt w a)\<lparr>pk_proto := []\<rparr>) w)"
  have "getData (pkAt ?w a) = getData (pkAt w a)"
    using assms(5) by (simp add: refAdd_def pkAt_setPk addRef_def getData_def)
  then show "getData (pkAt w a) \<noteq> None \<longrightarrow> (let w1 = ?w in handle (Suc n) E t a w
      = do { w2 \<leftarrow> handle n E t a w1; refRelease a w2 } \<and> getData (pkAt w1 a) = getData (pkAt w a))"
    using loop_step [OF assms, of n E] by (simp add: Let_def)
qed

theorem routing_loop_never_returns_witness:
  "\<forall>n. handle n demoEnv ''f'' 0 (demoWorld [''f'']) = None"
  by (intro allI, rule conjunct1, rule routing_loop_never_returns [where f = "demoFilter [''f'']"])
    (simp_all add: demoWorld_def demoFilter_def pkAt_def getPacket_def getPacketWithBuffer_def)

end
