(* ===== verification/ConnData.thy ===== *)
theory ConnData
  imports Packet "HOL-Library.AList"
begin

text \<open>
  The connection data of \<open>src/router.go\<close> (\<open>GetConnData\<close>, \<open>SetConnData\<close>, \<open>RemoveConnData\<close>): what the
  components remember about a connection, in an immutable snapshot behind an atomic pointer. A
  writer copies the snapshot, changes the copy and publishes it with a compare-and-swap, again from
  the start when another writer was faster. The loop is a step relation for any number of threads;
  \<open>TcpTunnel\<close> uses the same relation for the connection list of a pool.
\<close>

section \<open>One operation on a snapshot\<close>

text \<open>Go maps as association lists; the stored values are opaque references.\<close>

type_synonym conn_entry = "(string \<times> nat) list"
type_synonym conn_snapshot = "(conn_id \<times> conn_entry) list"

definition getConnData :: "conn_id \<Rightarrow> string \<Rightarrow> conn_snapshot \<Rightarrow> nat option" where
  "getConnData c tag s = (case map_of s c of None \<Rightarrow> None | Some m \<Rightarrow> map_of m tag)"

definition entryOf :: "conn_id \<Rightarrow> conn_snapshot \<Rightarrow> conn_entry" where
  "entryOf c s = (case map_of s c of None \<Rightarrow> [] | Some m \<Rightarrow> m)"

definition setConnData :: "conn_id \<Rightarrow> string \<Rightarrow> nat \<Rightarrow> conn_snapshot \<Rightarrow> conn_snapshot" where
  "setConnData c tag d s = AList.update c (AList.update tag d (entryOf c s)) s"

text \<open>\<open>None\<close>: the connection has no entry and the call returns without writing.\<close>

definition removeConnData :: "conn_id \<Rightarrow> string \<Rightarrow> conn_snapshot \<Rightarrow> conn_snapshot option" where
  "removeConnData c tag s = (case map_of s c of
     None \<Rightarrow> None
   | Some m \<Rightarrow>
       let m' = AList.delete tag m
       in Some (if m' = [] then AList.delete c s else AList.update c m' s))"

datatype conn_op = SetOp conn_id string nat | RemoveOp conn_id string

fun connOp :: "conn_op \<Rightarrow> conn_snapshot \<Rightarrow> conn_snapshot option" where
  "connOp (SetOp c tag d) s = Some (setConnData c tag d s)"
| "connOp (RemoveOp c tag) s = removeConnData c tag s"

lemma get_set:
  "getConnData c tag (setConnData c' tag' d s) = (if c = c' \<and> tag = tag' then Some d else getConnData c tag s)"
  by (auto simp: getConnData_def setConnData_def entryOf_def update_conv' split: option.split)

lemma get_remove:
  "getConnData c tag (case removeConnData c' tag' s of None \<Rightarrow> s | Some s' \<Rightarrow> s')
     = (if c = c' \<and> tag = tag' then None else getConnData c tag s)"
proof (cases "map_of s c'")
  case None
  then show ?thesis by (auto simp: getConnData_def removeConnData_def)
next
  case (Some m)
  have nil: "map_of m t = None" if "AList.delete tag' m = []" "t \<noteq> tag'" for t
  proof -
    have "map_of (AList.delete tag' m) t = map_of m t" using that(2) by (simp add: delete_conv')
    then show ?thesis using that(1) by simp
  qed
  show ?thesis
  proof (cases "AList.delete tag' m = []")
    case True
    then have "removeConnData c' tag' s = Some (AList.delete c' s)" using Some by (simp add: removeConnData_def)
    then show ?thesis using Some nil [OF True] by (auto simp: getConnData_def delete_conv')
  next
    case False
    then have "removeConnData c' tag' s = Some (AList.update c' (AList.delete tag' m) s)"
      using Some by (simp add: removeConnData_def)
    then show ?thesis using Some by (auto simp: getConnData_def update_conv' delete_conv')
  qed
qed

text \<open>No empty entry is kept, so a connection without data costs nothing.\<close>

definition no_empty_entry :: "conn_snapshot \<Rightarrow> bool" where
  "no_empty_entry s \<longleftrightarrow> (\<forall>c. map_of s c \<noteq> Some [])"

lemma connOp_no_empty: "no_empty_entry s \<Longrightarrow> connOp op s = Some s' \<Longrightarrow> no_empty_entry s'"
proof (cases op)
  case (SetOp c tag d)
  assume a: "no_empty_entry s" "connOp op s = Some s'"
  have "AList.update tag d m \<noteq> []" for m :: conn_entry by (cases m) auto
  then show ?thesis using a SetOp by (auto simp: no_empty_entry_def setConnData_def update_conv' split: if_splits)
next
  case (RemoveOp c tag)
  assume "no_empty_entry s" "connOp op s = Some s'"
  then show ?thesis using RemoveOp
    by (auto simp: no_empty_entry_def removeConnData_def update_conv' delete_conv' Let_def split: option.splits if_splits)
qed

section \<open>Stores with tagged keys\<close>

text \<open>What the components rely on: a value stays until it is replaced or removed.\<close>

locale tagged_store =
  fixes get :: "'k \<Rightarrow> 's \<Rightarrow> 'v option"
    and put :: "'k \<Rightarrow> 'v \<Rightarrow> 's \<Rightarrow> 's"
    and del :: "'k \<Rightarrow> 's \<Rightarrow> 's"
  assumes get_put: "get k (put k' v s) = (if k = k' then Some v else get k s)"
    and get_del: "get k (del k' s) = (if k = k' then None else get k s)"
begin

lemma put_put: "get k (put k v' (put k v s)) = Some v'"
  by (simp add: get_put)

text \<open>Writes given as \<open>(k, Some v)\<close> and removals as \<open>(k, None)\<close>.\<close>

lemma get_fold:
  "get k (fold (\<lambda>(k, v). case v of Some x \<Rightarrow> put k x | None \<Rightarrow> del k) ops s)
     = (case map_of (rev ops) k of Some v \<Rightarrow> v | None \<Rightarrow> get k s)"
  by (induction ops arbitrary: s)
    (auto simp: get_put get_del map_add_def split: option.splits)

end

definition removeNow :: "conn_id \<times> string \<Rightarrow> conn_snapshot \<Rightarrow> conn_snapshot" where
  "removeNow k s = (case removeConnData (fst k) (snd k) s of None \<Rightarrow> s | Some s' \<Rightarrow> s')"

interpretation conn_store: tagged_store "\<lambda>k. getConnData (fst k) (snd k)"
  "\<lambda>k. setConnData (fst k) (snd k)" removeNow
proof unfold_locales
  show "getConnData (fst k) (snd k) (setConnData (fst k') (snd k') v s) =
      (if k = k' then Some v else getConnData (fst k) (snd k) s)" for k k' v s
    by (cases k, cases k') (auto simp: get_set)
  show "getConnData (fst k) (snd k) (removeNow k' s) = (if k = k' then None else getConnData (fst k) (snd k) s)" for k k' s
    by (cases k, cases k') (auto simp: get_remove removeNow_def)
qed

section \<open>Compare-and-swap loops\<close>

text \<open>
  \<open>cs_mem\<close> holds every snapshot ever published, an address is a pointer to one, \<open>cs_cell\<close> is the
  atomic pointer. A thread is between its load and its compare-and-swap when it has a pending
  operation and the pointer it loaded. A published snapshot is never written again, and its memory
  is not reused while a thread still holds the pointer. \<open>cs_log\<close> is a ghost: the operations in the order they took effect.
\<close>

record ('s, 'o) cas_state =
  cs_mem :: "'s list"
  cs_cell :: nat
  cs_pending :: "nat \<Rightarrow> ('o \<times> nat) option"
  cs_log :: "'o list"

definition casInit :: "'s \<Rightarrow> ('s, 'o) cas_state" where
  "casInit s = \<lparr>cs_mem = [s], cs_cell = 0, cs_pending = (\<lambda>_. None), cs_log = []\<rparr>"

definition snapshot :: "('s, 'o) cas_state \<Rightarrow> 's" where
  "snapshot x = cs_mem x ! cs_cell x"

text \<open>
  The steps of thread \<open>t\<close> running operation \<open>op\<close>: load the pointer; return at once when the
  operation has nothing to write; swap; or find that the pointer moved and load again.
\<close>

inductive cas_step :: "('o \<Rightarrow> 's \<Rightarrow> 's option) \<Rightarrow> ('s, 'o) cas_state \<Rightarrow> ('s, 'o) cas_state \<Rightarrow> bool" for ap where
  load: "cs_pending x t = None \<Longrightarrow> ap op (snapshot x) \<noteq> None \<Longrightarrow>
    cas_step ap x (x\<lparr>cs_pending := (cs_pending x)(t := Some (op, cs_cell x))\<rparr>)"
| nothing: "cs_pending x t = None \<Longrightarrow> ap op (snapshot x) = None \<Longrightarrow>
    cas_step ap x (x\<lparr>cs_log := cs_log x @ [op]\<rparr>)"
| swap: "cs_pending x t = Some (op, p) \<Longrightarrow> p = cs_cell x \<Longrightarrow> ap op (cs_mem x ! p) = Some s' \<Longrightarrow>
    cas_step ap x (x\<lparr>cs_mem := cs_mem x @ [s'], cs_cell := length (cs_mem x),
      cs_pending := (cs_pending x)(t := None), cs_log := cs_log x @ [op]\<rparr>)"
| retry: "cs_pending x t = Some (op, p) \<Longrightarrow> p \<noteq> cs_cell x \<Longrightarrow> ap op (snapshot x) \<noteq> None \<Longrightarrow>
    cas_step ap x (x\<lparr>cs_pending := (cs_pending x)(t := Some (op, cs_cell x))\<rparr>)"
| retry_nothing: "cs_pending x t = Some (op, p) \<Longrightarrow> p \<noteq> cs_cell x \<Longrightarrow> ap op (snapshot x) = None \<Longrightarrow>
    cas_step ap x (x\<lparr>cs_pending := (cs_pending x)(t := None), cs_log := cs_log x @ [op]\<rparr>)"

inductive cas_reach :: "('o \<Rightarrow> 's \<Rightarrow> 's option) \<Rightarrow> 's \<Rightarrow> ('s, 'o) cas_state \<Rightarrow> bool" for ap s0 where
  start: "cas_reach ap s0 (casInit s0)"
| step: "cas_reach ap s0 x \<Longrightarrow> cas_step ap x y \<Longrightarrow> cas_reach ap s0 y"

definition seqApply :: "('o \<Rightarrow> 's \<Rightarrow> 's option) \<Rightarrow> 'o \<Rightarrow> 's \<Rightarrow> 's" where
  "seqApply ap op s = (case ap op s of None \<Rightarrow> s | Some s' \<Rightarrow> s')"

definition cas_inv :: "('o \<Rightarrow> 's \<Rightarrow> 's option) \<Rightarrow> 's \<Rightarrow> ('s, 'o) cas_state \<Rightarrow> bool" where
  "cas_inv ap s0 x \<longleftrightarrow> cs_cell x < length (cs_mem x) \<and> snapshot x = fold (seqApply ap) (cs_log x) s0
     \<and> (\<forall>t op p. cs_pending x t = Some (op, p) \<longrightarrow> p < length (cs_mem x))"

lemma cas_step_inv: "cas_step ap x y \<Longrightarrow> cas_inv ap s0 x \<Longrightarrow> cas_inv ap s0 y"
proof (induction rule: cas_step.induct)
  case (swap x t op p s')
  then have "seqApply ap op (fold (seqApply ap) (cs_log x) s0) = s'"
    by (simp add: cas_inv_def seqApply_def snapshot_def)
  then show ?case using swap by (auto simp: cas_inv_def snapshot_def less_SucI)
qed (auto simp: cas_inv_def snapshot_def seqApply_def)

lemma cas_reach_inv: "cas_reach ap s0 x \<Longrightarrow> cas_inv ap s0 x"
proof (induction rule: cas_reach.induct)
  case start
  then show ?case by (simp add: cas_inv_def casInit_def snapshot_def)
next
  case (step x y)
  show ?case by (rule cas_step_inv [OF step.hyps(2) step.IH])
qed

lemma cas_linear: "cas_reach ap s0 x \<Longrightarrow> snapshot x = fold (seqApply ap) (cs_log x) s0"
  using cas_reach_inv [of ap s0 x] by (simp add: cas_inv_def)

section \<open>Properties\<close>

definition opWrite :: "conn_op \<Rightarrow> (conn_id \<times> string) \<times> nat option" where
  "opWrite op = (case op of SetOp c tag d \<Rightarrow> ((c, tag), Some d) | RemoveOp c tag \<Rightarrow> ((c, tag), None))"

lemma seqApply_connOp:
  "seqApply connOp op = (case opWrite op of (k, v) \<Rightarrow> (case v of Some x \<Rightarrow> setConnData (fst k) (snd k) x | None \<Rightarrow> removeNow k))"
  by (cases op) (auto simp: seqApply_def opWrite_def removeNow_def fun_eq_iff split: option.split)

lemma fold_connOp: "fold (seqApply connOp) ops s = fold (\<lambda>(k, v). case v of Some x \<Rightarrow> setConnData (fst k) (snd k) x | None \<Rightarrow> removeNow k) (map opWrite ops) s"
  by (induction ops arbitrary: s) (simp_all add: seqApply_connOp)

lemma seq_no_empty: "no_empty_entry s \<Longrightarrow> no_empty_entry (fold (seqApply connOp) ops s)"
  by (induction ops arbitrary: s) (auto simp: seqApply_def split: option.split dest: connOp_no_empty)

text \<open>C8. The connection data of the router is linearizable: whatever the interleaving of threads that
  set and remove connection data through compare-and-swap loops, a component reads for its tag
  the value of the last completed write or removal for that connection and tag, and no
  connection keeps an empty entry.\<close>

theorem conn_data_linearizable:
  assumes "cas_reach connOp [] x"
  shows "getConnData c tag (snapshot x) =
      (case map_of (rev (map opWrite (cs_log x))) (c, tag) of Some v \<Rightarrow> v | None \<Rightarrow> None)
    \<and> no_empty_entry (snapshot x)"
proof
  have s: "snapshot x = fold (seqApply connOp) (cs_log x) []" using cas_linear [OF assms] .
  have empty: "getConnData c tag [] = None" by (simp add: getConnData_def)
  show "getConnData c tag (snapshot x) =
      (case map_of (rev (map opWrite (cs_log x))) (c, tag) of Some v \<Rightarrow> v | None \<Rightarrow> None)"
    unfolding s fold_connOp using conn_store.get_fold [of "(c, tag)" "map opWrite (cs_log x)" "[]"]
    unfolding fst_conv snd_conv empty by simp
  show "no_empty_entry (snapshot x)"
    unfolding s by (rule seq_no_empty) (simp add: no_empty_entry_def)
qed

lemma two_writers_reach:
  fixes a b :: conn_op
  defines "s1 \<equiv> setConnData 1 ''l'' 7 []"
  shows "cas_reach connOp [] \<lparr>cs_mem = [[], s1, setConnData 1 ''l'' 9 s1], cs_cell = 2,
    cs_pending = (\<lambda>_. None), cs_log = [SetOp 1 ''l'' 7, SetOp 1 ''l'' 9]\<rparr>"
proof -
  let ?a = "SetOp 1 ''l'' 7" and ?b = "SetOp 1 ''l'' 9"
  have r0: "cas_reach connOp [] (casInit [])" by (rule cas_reach.start)
  have r1: "cas_reach connOp [] \<lparr>cs_mem = [[]], cs_cell = 0, cs_pending = (\<lambda>_. None)(0 := Some (?a, 0)), cs_log = []\<rparr>"
    using cas_reach.step [OF r0 cas_step.load [of _ 0 connOp ?a]] by (simp add: casInit_def)
  have r2: "cas_reach connOp [] \<lparr>cs_mem = [[]], cs_cell = 0,
      cs_pending = (\<lambda>_. None)(0 := Some (?a, 0), 1 := Some (?b, 0)), cs_log = []\<rparr>"
    using cas_reach.step [OF r1 cas_step.load [of _ 1 connOp ?b]] by simp
  have r3: "cas_reach connOp [] \<lparr>cs_mem = [[], s1], cs_cell = 1,
      cs_pending = (\<lambda>_. None)(1 := Some (?b, 0)), cs_log = [?a]\<rparr>"
    using cas_reach.step [OF r2 cas_step.swap [of _ 0 ?a 0 connOp s1]] by (simp add: s1_def fun_upd_twist)
  have r4: "cas_reach connOp [] \<lparr>cs_mem = [[], s1], cs_cell = 1,
      cs_pending = (\<lambda>_. None)(1 := Some (?b, 1)), cs_log = [?a]\<rparr>"
    using cas_reach.step [OF r3 cas_step.retry [of _ 1 ?b 0 connOp]] by simp
  show ?thesis
    using cas_reach.step [OF r4 cas_step.swap [of _ 1 ?b 1 connOp "setConnData 1 ''l'' 9 s1"]]
    by (simp add: eval_nat_numeral)
qed

theorem conn_data_linearizable_witness:
  "\<exists>x. cas_reach connOp [] x \<and> getConnData 1 ''l'' (snapshot x) = Some 9"
  using conn_data_linearizable [OF two_writers_reach, of 1 "''l''"] two_writers_reach
  by (auto simp: opWrite_def)

end
