(* ===== verification/Listen.thy ===== *)
theory Listen
  imports Router ConnData Heartbeat Autorate Shaper
begin

text \<open>
  \<open>src/listen.go\<close>: the UDP listener. It keeps one mapping per client address with the client's
  authentication state, admits datagrams of authenticated clients, answers the authentication and
  heartbeat messages, forgets silent clients and sends replies to all clients or to the one the
  connection id names. The mappings are pointers in a Go map; senders in other goroutines read an
  atomically published copy of the map and, without broadcast, an index by connection id. Packets live
  in the store of \<open>Router\<close>. The two send channels are lists with a capacity. Writing to the
  socket is recorded; its errors are only logged by the code.
\<close>

section \<open>State\<close>

text \<open>A mapping is keyed by \<open>addr.String()\<close>: two addresses print alike when their IPs are the same
  address, in four or sixteen bytes, and port and zone agree.\<close>

type_synonym addr_key = addr

definition canonIP :: "bytes \<Rightarrow> bytes" where
  "canonIP ip = (if isIPv4 ip then drop (length ip - 4) ip else ip)"

fun addrKey :: "addr \<Rightarrow> addr_key" where
  "addrKey (UDPAddr ip port zone) = UDPAddr (canonIP ip) port zone"
| "addrKey (TCPAddr ip port zone) = TCPAddr (canonIP ip) port zone"
| "addrKey (OtherAddr s) = OtherAddr s"

text \<open>\<open>addr.(*net.UDPAddr).IP.String()\<close> panics for another kind of address.\<close>

fun udpIP :: "addr \<Rightarrow> bytes option" where
  "udpIP (UDPAddr ip port zone) = Some (canonIP ip)"
| "udpIP _ = None"

text \<open>The key of a client's shaper: the unmapped IP, the port, and the zone of an IPv6 address.\<close>

fun addrPortKey :: "addr \<Rightarrow> addr_key option" where
  "addrPortKey (UDPAddr ip port zone) = Some (UDPAddr (canonIP ip) port (if isIPv4 ip then [] else zone))"
| "addrPortKey _ = None"

record listen_conn =
  lc_addr :: addr
  lc_lastActive :: gotime
  lc_auth :: "bool option"
  lc_connID :: conn_id
  lc_hb :: hb_tracker

record listen =
  ls_tag :: string
  ls_timeout :: duration
  ls_replaceOld :: bool
  ls_detour :: "string list"
  ls_broadcast :: bool
  ls_preserve :: bool
  ls_queueSize :: int
  ls_auth :: "auth_manager option"
  ls_conns :: "listen_conn list"
  ls_mappings :: "(addr_key \<times> nat) list"
  ls_snapshot :: "(addr_key \<times> nat) list"
  ls_index :: "(conn_id \<times> nat) list option"
  ls_stats :: hb_stats
  ls_connData :: conn_snapshot
  ls_autorates :: "(addr_key \<times> autorate) list"
  ls_stopped :: bool
  ls_queue :: "(nat \<times> addr) list"
  ls_prio :: "(nat \<times> addr) list"
  ls_sent :: "(bytes \<times> addr) list"

text \<open>
  What one call sees of the rest of the world: cryptography, the clock, random bytes and a random
  connection id, the contents of pool buffers, float arithmetic and the order in which Go ranges over a map.
\<close>

record listen_env =
  le_crypto :: crypto
  le_floats :: floats
  le_now :: gotime
  le_rand :: "bytes option"
  le_mem :: bytes
  le_mem2 :: bytes
  le_connID :: conn_id
  le_order :: "(addr_key \<times> nat) list \<Rightarrow> (addr_key \<times> nat) list"

text \<open>\<open>NewListenComponent\<close>; the times of the configuration are in seconds.\<close>

definition newListen :: "string \<Rightarrow> int \<Rightarrow> bool \<Rightarrow> string list \<Rightarrow> bool option \<Rightarrow> bool \<Rightarrow> router_config
    \<Rightarrow> auth_manager option \<Rightarrow> hb_stats \<Rightarrow> listen" where
  "newListen tag timeout replaceOld detour broadcast preserve c am st =
     (let bm = (broadcast \<noteq> Some False)
      in \<lparr>ls_tag = tag, ls_timeout = (if timeout = 0 then 120 * ns_second else i64 (timeout * ns_second)),
          ls_replaceOld = replaceOld, ls_detour = detour, ls_broadcast = bm,
          ls_preserve = (preserve \<and> am \<noteq> None \<and> bm),
          ls_queueSize = (if rc_queueSize c \<le> 0 then 10240 else rc_queueSize c),
          ls_auth = am, ls_conns = [], ls_mappings = [], ls_snapshot = [],
          ls_index = (if bm then None else Some []), ls_stats = st, ls_connData = [], ls_autorates = [],
          ls_stopped = False, ls_queue = [], ls_prio = [], ls_sent = []\<rparr>)"

definition connAt :: "listen \<Rightarrow> nat \<Rightarrow> listen_conn" where
  "connAt l i = ls_conns l ! i"

definition setConn :: "nat \<Rightarrow> listen_conn \<Rightarrow> listen \<Rightarrow> listen" where
  "setConn i m l = l\<lparr>ls_conns := (ls_conns l)[i := m]\<rparr>"

definition lcAuthed :: "listen_conn \<Rightarrow> bool" where
  "lcAuthed m \<longleftrightarrow> lc_auth m = Some True"

definition touchConn :: "gotime \<Rightarrow> nat \<Rightarrow> listen \<Rightarrow> listen" where
  "touchConn now i l = setConn i ((connAt l i)\<lparr>lc_lastActive := now\<rparr>) l"

section \<open>The mappings\<close>

text \<open>The heartbeat operations of a mapping also count in the component's statistics.\<close>

definition hbLost :: "gotime \<Rightarrow> nat \<Rightarrow> listen \<Rightarrow> listen" where
  "hbLost now i l =
     (let r = fst (markPendingHeartbeatLost now (lc_hb (connAt l i), Some (ls_stats l)))
      in (setConn i ((connAt l i)\<lparr>lc_hb := fst r\<rparr>) l)\<lparr>ls_stats := the (snd r)\<rparr>)"

definition hbSent :: "gotime \<Rightarrow> nat \<Rightarrow> listen \<Rightarrow> listen" where
  "hbSent now i l =
     (let r = noteHeartbeatSent now (lc_hb (connAt l i), Some (ls_stats l))
      in (setConn i ((connAt l i)\<lparr>lc_hb := fst r\<rparr>) l)\<lparr>ls_stats := the (snd r)\<rparr>)"

definition removeMapping :: "gotime \<Rightarrow> addr_key \<Rightarrow> listen \<Rightarrow> listen \<times> bool" where
  "removeMapping now k l = (case map_of (ls_mappings l) k of
     None \<Rightarrow> (l, False)
   | Some i \<Rightarrow>
       let l1 = hbLost now i l
       in (l1\<lparr>ls_mappings := AList.delete k (ls_mappings l1),
              ls_connData := removeNow (lc_connID (connAt l1 i), ls_tag l1) (ls_connData l1)\<rparr>, True))"

definition syncMapping :: "listen_env \<Rightarrow> listen \<Rightarrow> listen" where
  "syncMapping E l = l\<lparr>ls_snapshot := ls_mappings l,
     ls_index := (if ls_broadcast l then ls_index l
       else Some (fold (\<lambda>(k, i) idx. AList.update (lc_connID (connAt l i)) i idx) (le_order E (ls_mappings l)) []))\<rparr>"

text \<open>Range over the mappings, remove those that \<open>P\<close> selects, publish when one was removed.\<close>

definition dropMatching :: "gotime \<Rightarrow> (addr_key \<Rightarrow> listen_conn \<Rightarrow> bool) \<Rightarrow> (addr_key \<times> nat) list
    \<Rightarrow> listen \<times> bool \<Rightarrow> listen \<times> bool" where
  "dropMatching now P ms = fold (\<lambda>(k, i) (l, changed).
     if P k (connAt l i) then (let (l', r) = removeMapping now k l in (l', changed \<or> r)) else (l, changed)) ms"

definition dropAndSync :: "listen_env \<Rightarrow> (addr_key \<Rightarrow> listen_conn \<Rightarrow> bool) \<Rightarrow> listen \<Rightarrow> listen" where
  "dropAndSync E P l =
     (let (l', changed) = dropMatching (le_now E) P (le_order E (ls_mappings l)) (l, False)
      in if changed then syncMapping E l' else l')"

definition performCleanup :: "listen_env \<Rightarrow> listen \<Rightarrow> listen" where
  "performCleanup E l =
     dropAndSync E (\<lambda>k m. ls_timeout l < time_sub (le_now E) (lc_lastActive m)) l"

text \<open>Forget the other clients of an IP; a mapping that is not a UDP address panics.\<close>

definition replaceOld :: "listen_env \<Rightarrow> addr \<Rightarrow> (addr_key \<Rightarrow> bool) \<Rightarrow> listen \<Rightarrow> listen option" where
  "replaceOld E a keep l =
     (if udpIP a = None \<or> (\<exists>(k, i) \<in> set (ls_mappings l). udpIP (lc_addr (connAt l i)) = None) then None
      else Some (dropAndSync E (\<lambda>k m. udpIP (lc_addr m) = udpIP a \<and> \<not> keep k) l))"

definition addMapping :: "listen_env \<Rightarrow> addr \<Rightarrow> bool option \<Rightarrow> listen \<Rightarrow> listen" where
  "addMapping E a st l =
     (let m = \<lparr>lc_addr = a, lc_lastActive = le_now E, lc_auth = st, lc_connID = le_connID E, lc_hb = empty_hb_tracker\<rparr>
      in syncMapping E (l\<lparr>ls_conns := ls_conns l @ [m],
           ls_mappings := AList.update (addrKey a) (length (ls_conns l)) (ls_mappings l)\<rparr>))"

section \<open>Sending\<close>

type_synonym listen_world = "listen \<times> world"

definition prioCap :: "listen \<Rightarrow> int" where
  "prioCap l = max 4 (go_quot (ls_queueSize l) 16)"

definition queueSend :: "bool \<Rightarrow> addr option \<Rightarrow> nat \<Rightarrow> listen_world \<Rightarrow> listen_world option" where
  "queueSend high addr a lw = (case lw of (l, w) \<Rightarrow>
     (let w1 = refAdd a w; dropIt = map_option (Pair l) (refRelease a w1) in
      case addr of
        None \<Rightarrow> dropIt
      | Some ad \<Rightarrow>
          if ls_stopped l then dropIt
          else if high \<and> int (length (ls_prio l)) < prioCap l then Some (l\<lparr>ls_prio := ls_prio l @ [(a, ad)]\<rparr>, w1)
          else if int (length (ls_queue l)) < ls_queueSize l then Some (l\<lparr>ls_queue := ls_queue l @ [(a, ad)]\<rparr>, w1)
          else dropIt))"

text \<open>A control packet from the pool.\<close>

definition newPacket :: "bytes \<Rightarrow> string \<Rightarrow> world \<Rightarrow> nat \<times> world" where
  "newPacket m tag w = (length (w_heap w),
     w\<lparr>w_heap := w_heap w @ [getPacket (w_config w) m tag], w_bufferRef := w_bufferRef w + 1\<rparr>)"

definition sendControl :: "listen_env \<Rightarrow> (slice \<Rightarrow> (slice \<times> int) option) \<Rightarrow> addr \<Rightarrow> listen_world \<Rightarrow> listen_world option" where
  "sendControl E f ad lw = (case lw of (l, w) \<Rightarrow> do {
     let (a, w1) = newPacket (le_mem E) (ls_tag l) w;
     (p, n) \<leftarrow> fillPacket f (pkAt w1 a);
     (l2, w2) \<leftarrow> (if 0 < n then queueSend True (Some ad) a (l, setPk a (p\<lparr>pk_length := n\<rparr>) w1)
                else Some (l, setPk a p w1));
     w3 \<leftarrow> refRelease a w2;
     Some (l2, w3)
   })"

section \<open>Authentication messages\<close>

text \<open>The client proves the secret; the mapping exists before, without it.\<close>

definition onChallenge :: "listen_env \<Rightarrow> router_config \<Rightarrow> protocol_header \<Rightarrow> slice \<Rightarrow> addr \<Rightarrow> auth_manager
    \<Rightarrow> listen \<Rightarrow> listen option" where
  "onChallenge E c h buf ad am l = do {
     let l1 = (if map_of (ls_mappings l) (addrKey ad) = None then addMapping E ad (Some False) l else l);
     i \<leftarrow> map_of (ls_mappings l1) (addrKey ad);
     data \<leftarrow> sl_range buf HeaderSize (uint (8 + ph_length h));
     (case processAuthChallenge (le_crypto E) (le_now E) (sl_data data) am of
        (am1, Inl e) \<Rightarrow> Some (l1\<lparr>ls_auth := Some am1\<rparr>)
      | (am1, Inr (forwardID, poolID)) \<Rightarrow> do {
          l2 \<leftarrow> (if ls_replaceOld l1 then replaceOld E ad (\<lambda>k. k = addrKey ad) (l1\<lparr>ls_auth := Some am1\<rparr>)
                else Some (l1\<lparr>ls_auth := Some am1\<rparr>));
          (am2, rb, res) \<leftarrow> createAuthChallenge (le_crypto E) (le_now E) (le_rand E) MsgTypeAuthResponse
             forwardID poolID (full_slice (le_mem E)) am1;
          out \<leftarrow> sl_range rb 0 (case res of Inl e \<Rightarrow> 0 | Inr n \<Rightarrow> n);
          Some (setConn i ((connAt l2 i)\<lparr>lc_auth := Some True, lc_lastActive := le_now E\<rparr>)
                 (l2\<lparr>ls_auth := Some am2, ls_sent := ls_sent l2 @ [(sl_data out, ad)]\<rparr>))
        })
   }"

definition onHeartbeatAck :: "listen_env \<Rightarrow> nat \<Rightarrow> auth_manager \<Rightarrow> listen \<Rightarrow> listen option" where
  "onHeartbeatAck E i am l =
     (let m = (connAt l i)\<lparr>lc_lastActive := le_now E\<rparr>;
          hb = markHeartbeatResponse (lc_hb m)
      in if lc_auth m = None then Some (setConn i m l)
         else do {
           am' \<leftarrow> (if lastHeartbeatSent hb \<noteq> zero_time
                  then recordDelayMeasurement (time_sub (le_now E) (lastHeartbeatSent hb)) am else Some am);
           Some (setConn i (m\<lparr>lc_hb := clearLastHeartbeatSent hb\<rparr>) (l\<lparr>ls_auth := Some am'\<rparr>))
         })"

definition handleAuthMessage :: "listen_env \<Rightarrow> protocol_header \<Rightarrow> slice \<Rightarrow> addr \<Rightarrow> auth_manager
    \<Rightarrow> listen_world \<Rightarrow> listen_world option" where
  "handleAuthMessage E h buf ad am lw = (case lw of (l, w) \<Rightarrow>
     (let known = map_of (ls_mappings l) (addrKey ad); t = ph_msgType h in
      if t = MsgTypeAuthChallenge then map_option (\<lambda>l'. (l', w)) (onChallenge E (w_config w) h buf ad am l)
      else if t = MsgTypeProbe then
        (case known of
           Some i \<Rightarrow> if lcAuthed (connAt l i) then sendControl E (createProbeAck (le_now E) (sl_data buf)) ad (l, w) else Some (l, w)
         | None \<Rightarrow> Some (l, w))
      else if t = MsgTypeProbeAck then
        Some ((case addrPortKey ad of None \<Rightarrow> l
          | Some k \<Rightarrow> (case map_of (ls_autorates l) k of None \<Rightarrow> l
              | Some r \<Rightarrow> (case parseProbeAck (le_now E) (sl_data buf) of None \<Rightarrow> l
                  | Some (owd, rtt) \<Rightarrow> l\<lparr>ls_autorates := AList.update k (addSample (le_floats E) owd rtt (le_now E) r) (ls_autorates l)\<rparr>))), w)
      else if t = MsgTypeHeartbeat then
        (case known of
           None \<Rightarrow> Some (l, w)
         | Some i \<Rightarrow>
             if lc_auth (connAt l i) = None then Some (touchConn (le_now E) i l, w)
             else do {
               (l2, w2) \<leftarrow> sendControl E createHeartbeat ad (hbLost (le_now E) i (touchConn (le_now E) i l), w);
               Some (hbSent (le_now E) i l2, w2)
             })
      else if t = MsgTypeHeartbeatAck then
        (case known of None \<Rightarrow> Some (l, w) | Some i \<Rightarrow> map_option (\<lambda>l'. (l', w)) (onHeartbeatAck E i am l))
      else if t = MsgTypeDisconnect then
        Some (let (l', removed) = removeMapping (le_now E) (addrKey ad) l in if removed then syncMapping E l' else l', w)
      else Some (l, w)))"

section \<open>Datagrams in and out\<close>

text \<open>The checks before routing; the flag tells that the packet goes on.\<close>

definition admitAuth :: "listen_env \<Rightarrow> nat \<Rightarrow> addr \<Rightarrow> auth_manager \<Rightarrow> listen_world \<Rightarrow> (listen_world \<times> bool) option" where
  "admitAuth E a ad am lw = (case lw of (l, w) \<Rightarrow>
     (let p = pkAt w a in
      if pk_length p < HeaderSize then Some ((l, w), False)
      else do {
        r \<leftarrow> unwrapData (le_crypto E) (w_config w) (le_now E) (le_mem2 E) am p;
        let l1 = l\<lparr>ls_auth := Some (ur_am r)\<rparr>;
        let w1 = setPk a (ur_packet r) w;
        (case (ur_err r, ur_header r) of
           (Some e, _) \<Rightarrow> Some ((l1, w1), False)
         | (None, None) \<Rightarrow> None
         | (None, Some h) \<Rightarrow>
             if ph_msgType h \<noteq> MsgTypeData then do {
               buf \<leftarrow> getData (ur_packet r);
               lw' \<leftarrow> handleAuthMessage E h buf ad (ur_am r) (l1, w1);
               Some (lw', False)
             }
             else (case map_of (ls_mappings l1) (addrKey ad) of
                     None \<Rightarrow> Some ((l1, w1), False)
                   | Some i \<Rightarrow>
                       if \<not> lcAuthed (connAt l1 i) then Some ((l1, w1), False)
                       else
                         let l2 = touchConn (le_now E) i l1;
                             q = (if \<not> ls_preserve l \<or> pk_connID (ur_packet r) = 0
                                  then (ur_packet r)\<lparr>pk_connID := lc_connID (connAt l1 i)\<rparr> else ur_packet r)
                         in Some ((l2, setPk a q w1), True)))
      }))"

definition admitOpen :: "listen_env \<Rightarrow> nat \<Rightarrow> addr \<Rightarrow> listen_world \<Rightarrow> (listen_world \<times> bool) option" where
  "admitOpen E a ad lw = (case lw of (l, w) \<Rightarrow>
     (case map_of (ls_mappings l) (addrKey ad) of
        None \<Rightarrow> do {
          l1 \<leftarrow> (if ls_replaceOld l then replaceOld E ad (\<lambda>k. False) l else Some l);
          Some ((addMapping E ad None l1, setPk a ((pkAt w a)\<lparr>pk_connID := le_connID E\<rparr>) w), True)
        }
      | Some i \<Rightarrow>
          Some ((touchConn (le_now E) i l, setPk a ((pkAt w a)\<lparr>pk_connID := lc_connID (connAt l i)\<rparr>) w), True)))"

definition admit :: "listen_env \<Rightarrow> nat \<Rightarrow> addr \<Rightarrow> listen_world \<Rightarrow> (listen_world \<times> bool) option" where
  "admit E a ad lw = (case lw of (l, w) \<Rightarrow> do {
     ((l1, w1), ok) \<leftarrow> (case ls_auth l of Some am \<Rightarrow> admitAuth E a ad am (l, w) | None \<Rightarrow> admitOpen E a ad (l, w));
     Some ((l1, if ok then setPk a ((pkAt w1 a)\<lparr>pk_srcAddr := Some ad\<rparr>) w1 else w1), ok)
   })"

text \<open>\<open>rt\<close> is \<open>router.Route\<close>.\<close>

definition handleIncoming :: "routing \<Rightarrow> listen_env \<Rightarrow> nat \<Rightarrow> addr \<Rightarrow> listen_world \<Rightarrow> (listen_world \<times> bool) option" where
  "handleIncoming rt E a ad lw = do {
     ((l1, w1), ok) \<leftarrow> admit E a ad lw;
     w2 \<leftarrow> (if ok then rt a (ls_detour l1) w1 else Some w1);
     Some ((l1, w2), ok)
   }"

fun queueAll :: "nat \<Rightarrow> addr list \<Rightarrow> listen_world \<Rightarrow> listen_world option" where
  "queueAll a [] lw = Some lw"
| "queueAll a (ad # ads) lw = do { lw' \<leftarrow> queueSend False (Some ad) a lw; queueAll a ads lw' }"

definition mayReceive :: "listen \<Rightarrow> nat \<Rightarrow> bool" where
  "mayReceive l i \<longleftrightarrow> ls_auth l = None \<or> lcAuthed (connAt l i)"

text \<open>The clients a packet is for: all that may receive, or the one its connection id names.\<close>

definition replyTargets :: "listen_env \<Rightarrow> packet \<Rightarrow> listen \<Rightarrow> addr list" where
  "replyTargets E p l =
     (if ls_broadcast l
      then map (\<lambda>(k, i). lc_addr (connAt l i)) (filter (\<lambda>(k, i). mayReceive l i) (le_order E (ls_snapshot l)))
      else if pk_connID p = 0 then []
      else (case ls_index l of None \<Rightarrow> [] | Some idx \<Rightarrow>
              (case map_of idx (pk_connID p) of None \<Rightarrow> []
               | Some i \<Rightarrow> if mayReceive l i then [lc_addr (connAt l i)] else [])))"

definition handlePacket :: "listen_env \<Rightarrow> nat \<Rightarrow> listen_world \<Rightarrow> (listen_world \<times> auth_error option) option" where
  "handlePacket E a lw = (case lw of (l, w) \<Rightarrow> do {
     (l1, p, e) \<leftarrow> (case ls_auth l of
        None \<Rightarrow> Some (l, pkAt w a, None)
      | Some am \<Rightarrow> map_option (\<lambda>(am', p, e). (l\<lparr>ls_auth := Some am'\<rparr>, p, e))
          (wrapData (le_crypto E) (w_config w) (le_now E) (le_rand E) (le_mem E) (le_mem2 E) am (pkAt w a)));
     let w1 = setPk a p w;
     (l2, w2) \<leftarrow> (if e = None then queueAll a (replyTargets E p l1) (l1, w1) else Some (l1, w1));
     w3 \<leftarrow> refRelease a w2;
     Some ((l2, w3), e)
   })"

text \<open>
  The send loop collects the queued jobs, priority first, up to the batch size of the writer, writes them
  and drops their references; on stop it drains. \<open>wres\<close> is what the calls of the writer give: \<open>None\<close> when
  everything was written, otherwise how many datagrams were, before the one that failed and is skipped.
\<close>

fun writeFrom :: "nat option list \<Rightarrow> 'a list \<Rightarrow> 'a list" where
  "writeFrom (Some n # wres) ds = take n ds @ writeFrom wres (drop (Suc n) ds)"
| "writeFrom _ ds = ds"

fun releaseAll :: "nat list \<Rightarrow> world \<Rightarrow> world option" where
  "releaseAll [] w = Some w"
| "releaseAll (a # as) w = do { w' \<leftarrow> refRelease a w; releaseAll as w' }"

definition sendJobs :: "nat option list \<Rightarrow> nat \<Rightarrow> listen_world \<Rightarrow> listen_world option" where
  "sendJobs wres maxBatch lw = (case lw of (l, w) \<Rightarrow>
     (let np = min maxBatch (length (ls_prio l));
          jobs = take np (ls_prio l) @ take (maxBatch - np) (ls_queue l);
          l1 = l\<lparr>ls_prio := drop np (ls_prio l), ls_queue := drop (maxBatch - np) (ls_queue l)\<rparr>
      in do {
        datas \<leftarrow> those (map (\<lambda>(a, ad). map_option (\<lambda>d. (sl_data d, ad)) (getData (pkAt w a))) jobs);
        w1 \<leftarrow> releaseAll (map fst jobs) w;
        Some (l1\<lparr>ls_sent := ls_sent l1 @ writeFrom wres datas\<rparr>, w1)
      }))"

definition drainSendQueue :: "listen_world \<Rightarrow> listen_world option" where
  "drainSendQueue lw = (case lw of (l, w) \<Rightarrow> do {
     w' \<leftarrow> releaseAll (map fst (ls_prio l) @ map fst (ls_queue l)) w;
     Some (l\<lparr>ls_prio := [], ls_queue := []\<rparr>, w')
   })"

definition isAvailable :: "bool \<Rightarrow> listen \<Rightarrow> bool" where
  "isAvailable opened l \<longleftrightarrow> opened \<and> ls_snapshot l \<noteq> []"

section \<open>The tables agree\<close>

text \<open>What identifies a mapping, and what the lookups read of it.\<close>

definition ids :: "listen \<Rightarrow> (addr \<times> conn_id) list" where
  "ids l = map (\<lambda>m. (lc_addr m, lc_connID m)) (ls_conns l)"

definition view :: "listen_conn \<Rightarrow> addr \<times> conn_id \<times> gotime \<times> bool option" where
  "view m = (lc_addr m, lc_connID m, lc_lastActive m, lc_auth m)"

definition views :: "listen \<Rightarrow> (addr \<times> conn_id \<times> gotime \<times> bool option) list" where
  "views l = map view (ls_conns l)"

lemma views_ids: "views l' = views l \<Longrightarrow> ids l' = ids l"
proof -
  assume "views l' = views l"
  then have "map (\<lambda>(a, c, _). (a, c)) (views l') = map (\<lambda>(a, c, _). (a, c)) (views l)" by simp
  then show ?thesis by (simp add: views_def ids_def view_def comp_def)
qed

lemma views_at: "views l' = views l \<Longrightarrow> i < length (ls_conns l) \<Longrightarrow> view (connAt l' i) = view (connAt l i)"
  unfolding views_def connAt_def by (metis length_map nth_map)

lemma views_length: "views l' = views l \<Longrightarrow> length (ls_conns l') = length (ls_conns l)"
  unfolding views_def by (metis length_map)

definition index_ok :: "(nat \<Rightarrow> conn_id) \<Rightarrow> (addr_key \<times> nat) list \<Rightarrow> (conn_id \<times> nat) list \<Rightarrow> bool" where
  "index_ok cid ms idx \<longleftrightarrow>
     (\<forall>c i. map_of idx c = Some i \<longrightarrow> i \<in> snd ` set ms \<and> cid i = c)
     \<and> (\<forall>i \<in> snd ` set ms. map_of idx (cid i) \<noteq> None)"

definition connIdOf :: "listen \<Rightarrow> nat \<Rightarrow> conn_id" where
  "connIdOf l i = lc_connID (connAt l i)"

definition tables_ok :: "listen \<Rightarrow> bool" where
  "tables_ok l \<longleftrightarrow> distinct (map fst (ls_mappings l))
     \<and> (\<forall>(k, i) \<in> set (ls_mappings l). i < length (ls_conns l) \<and> addrKey (lc_addr (connAt l i)) = k)
     \<and> ls_snapshot l = ls_mappings l
     \<and> (if ls_broadcast l then ls_index l = None
        else \<exists>idx. ls_index l = Some idx \<and> index_ok (connIdOf l) (ls_mappings l) idx)"

definition order_ok :: "listen_env \<Rightarrow> bool" where
  "order_ok E \<longleftrightarrow> (\<forall>ms. mset (le_order E ms) = mset ms)"

lemma order_set: "order_ok E \<Longrightarrow> set (le_order E ms) = set ms"
  unfolding order_ok_def by (metis set_mset_mset)

lemma mset_map_cong: "mset xs = mset ys \<Longrightarrow> mset (map f xs) = mset (map f ys)"
  by simp

lemma order_distinct: "order_ok E \<Longrightarrow> distinct (map fst ms) \<Longrightarrow> distinct (map fst (le_order E ms))"
proof -
  assume "order_ok E" "distinct (map fst ms)"
  then have "mset (le_order E ms) = mset ms" unfolding order_ok_def by blast
  then have "mset (map fst (le_order E ms)) = mset (map fst ms)" by (rule mset_map_cong)
  from mset_eq_imp_distinct_iff [OF this] show ?thesis using \<open>distinct (map fst ms)\<close> by blast
qed

lemma index_fold:
  "index_ok cid ms (fold (\<lambda>(k, i) idx. AList.update (cid i) i idx) ms [])"
proof (induction ms rule: rev_induct)
  case Nil
  then show ?case by (simp add: index_ok_def)
next
  case (snoc x ms)
  obtain k i where x: "x = (k, i)" by (cases x)
  let ?idx = "fold (\<lambda>(k, i) idx. AList.update (cid i) i idx) ms []"
  have m: "map_of (AList.update (cid i) i ?idx) c = (if c = cid i then Some i else map_of ?idx c)" for c
    by (simp add: update_conv')
  let ?new = "AList.update (cid i) i ?idx"
  have f: "fold (\<lambda>(k, i) idx. AList.update (cid i) i idx) (ms @ [x]) [] = ?new" by (simp add: x)
  have a: "j \<in> snd ` set (ms @ [x]) \<and> cid j = c" if "map_of ?new c = Some j" for c j
  proof (cases "c = cid i")
    case True
    then show ?thesis using that m by (simp add: x)
  next
    case False
    then have "map_of ?idx c = Some j" using that m by simp
    then have "j \<in> snd ` set ms \<and> cid j = c" using snoc unfolding index_ok_def by blast
    then show ?thesis by auto
  qed
  have b: "map_of ?new (cid j) \<noteq> None" if "j \<in> snd ` set (ms @ [x])" for j
  proof (cases "cid j = cid i")
    case True
    then show ?thesis by (simp add: m)
  next
    case False
    then have "j \<in> snd ` set ms" using that by (auto simp: x)
    then have "map_of ?idx (cid j) \<noteq> None" using snoc unfolding index_ok_def by blast
    then show ?thesis using False by (simp add: m)
  qed
  show ?case unfolding index_ok_def f using a b by blast
qed

lemma index_ok_cong:
  assumes "\<forall>i \<in> snd ` set ms. cid' i = cid i"
  shows "index_ok cid' ms idx = index_ok cid ms idx"
proof -
  have "(i \<in> snd ` set ms \<and> cid' i = c) = (i \<in> snd ` set ms \<and> cid i = c)" for i c using assms by auto
  moreover have "(\<forall>i \<in> snd ` set ms. map_of idx (cid' i) \<noteq> None) = (\<forall>i \<in> snd ` set ms. map_of idx (cid i) \<noteq> None)"
    using assms by auto
  ultimately show ?thesis by (simp only: index_ok_def)
qed

lemma index_ok_set: "set ms = set ms' \<Longrightarrow> index_ok cid ms idx = index_ok cid ms' idx"
  by (simp add: index_ok_def)

lemma tables_cong:
  assumes "ids l' = ids l" "ls_mappings l' = ls_mappings l" "ls_snapshot l' = ls_snapshot l"
    "ls_index l' = ls_index l" "ls_broadcast l' = ls_broadcast l"
  shows "tables_ok l' = tables_ok l"
proof -
  have n: "length (ls_conns l') = length (ls_conns l)"
    using arg_cong [where f = length, OF assms(1)] by (simp add: ids_def)
  have at: "lc_addr (connAt l' i) = lc_addr (connAt l i)" "lc_connID (connAt l' i) = lc_connID (connAt l i)"
    if "i < length (ls_conns l)" for i
    using arg_cong [where f = "\<lambda>xs. xs ! i", OF assms(1)] n that by (simp_all add: ids_def connAt_def)
  have m: "(\<forall>(k, i) \<in> set (ls_mappings l). i < length (ls_conns l') \<and> addrKey (lc_addr (connAt l' i)) = k)
     \<longleftrightarrow> (\<forall>(k, i) \<in> set (ls_mappings l). i < length (ls_conns l) \<and> addrKey (lc_addr (connAt l i)) = k)"
    unfolding n by (rule ball_cong) (auto simp: at)
  let ?M = "\<forall>(k, i) \<in> set (ls_mappings l). i < length (ls_conns l) \<and> addrKey (lc_addr (connAt l i)) = k"
  have e: "index_ok (connIdOf l') (ls_mappings l) idx = index_ok (connIdOf l) (ls_mappings l) idx" if M: ?M for idx
  proof (rule index_ok_cong, rule ballI)
    fix i assume "i \<in> snd ` set (ls_mappings l)"
    then have "i < length (ls_conns l)" using M by auto
    then show "connIdOf l' i = connIdOf l i" using at by (simp add: connIdOf_def)
  qed
  have "(\<exists>idx. ls_index l = Some idx \<and> index_ok (connIdOf l') (ls_mappings l) idx)
      = (\<exists>idx. ls_index l = Some idx \<and> index_ok (connIdOf l) (ls_mappings l) idx)" if ?M
    by (simp only: e [OF that])
  then have x: "(?M \<and> S \<and> (if b then i else \<exists>idx. ls_index l = Some idx \<and> index_ok (connIdOf l') (ls_mappings l) idx))
      = (?M \<and> S \<and> (if b then i else \<exists>idx. ls_index l = Some idx \<and> index_ok (connIdOf l) (ls_mappings l) idx))" for S b i
    by (cases b) (simp_all cong: conj_cong)
  show ?thesis unfolding tables_ok_def assms(2-5) m x ..
qed

lemma tables_sync:
  assumes "order_ok E" "distinct (map fst (ls_mappings l))" "ls_broadcast l \<Longrightarrow> ls_index l = None"
    "\<forall>(k, i) \<in> set (ls_mappings l). i < length (ls_conns l) \<and> addrKey (lc_addr (connAt l i)) = k"
  shows "tables_ok (syncMapping E l)"
proof -
  have "index_ok (connIdOf l) (ls_mappings l)
      (fold (\<lambda>(k, i) idx. AList.update (lc_connID (connAt l i)) i idx) (le_order E (ls_mappings l)) [])"
    using index_fold [of "connIdOf l" "le_order E (ls_mappings l)"]
      index_ok_set [OF order_set [OF assms(1)]] by (simp add: connIdOf_def)
  then show ?thesis using assms by (simp add: tables_ok_def syncMapping_def connAt_def connIdOf_def [abs_def])
qed

section \<open>Removing mappings\<close>

text \<open>What removing mappings leaves alone.\<close>

definition rest :: "listen \<Rightarrow> _" where
  "rest l = (ls_tag l, ls_timeout l, ls_replaceOld l, ls_detour l, ls_broadcast l, ls_preserve l, ls_queueSize l,
     ls_auth l, ls_autorates l, ls_stopped l, ls_queue l, ls_prio l, ls_sent l)"

lemma views_setConn:
  assumes "view m = view (connAt l i)"
  shows "views (setConn i m l) = views l"
proof (cases "i < length (ls_conns l)")
  case True
  then have "(map view (ls_conns l))[i := view (ls_conns l ! i)] = map view (ls_conns l)"
    by (metis list_update_id map_update)
  then show ?thesis using assms by (simp add: views_def setConn_def connAt_def map_update)
next
  case False
  then have "(ls_conns l)[i := m] = ls_conns l" by (simp add: list_update_beyond)
  then show ?thesis by (simp add: views_def setConn_def)
qed

lemma views_cong: "ls_conns l' = ls_conns l \<Longrightarrow> views l' = views l"
  by (simp add: views_def)

lemma hb_view [simp]: "views (hbLost now i l) = views l" "views (hbSent now i l) = views l"
  by (simp_all add: hbLost_def hbSent_def Let_def views_setConn view_def
      views_cong [of "setConn i m l\<lparr>ls_stats := s\<rparr>" "setConn i m l" for m s])

lemma hb_fields [simp]:
  "ls_mappings (hbLost now i l) = ls_mappings l" "ls_snapshot (hbLost now i l) = ls_snapshot l"
  "ls_index (hbLost now i l) = ls_index l" "rest (hbLost now i l) = rest l"
  "ls_mappings (hbSent now i l) = ls_mappings l" "ls_snapshot (hbSent now i l) = ls_snapshot l"
  "ls_index (hbSent now i l) = ls_index l" "rest (hbSent now i l) = rest l"
  by (simp_all add: hbLost_def hbSent_def Let_def setConn_def rest_def)

lemma removeMapping_spec:
  assumes "removeMapping now k l = (l', r)"
  shows "ls_mappings l' = AList.delete k (ls_mappings l)" "r \<longleftrightarrow> map_of (ls_mappings l) k \<noteq> None"
    "views l' = views l" "ls_snapshot l' = ls_snapshot l" "ls_index l' = ls_index l" "rest l' = rest l"
proof -
  have "AList.delete k ms = ms" if "map_of ms k = None" for ms :: "(addr_key \<times> nat) list"
    using that by (simp add: AList.delete_idem map_of_eq_None_iff)
  then show "ls_mappings l' = AList.delete k (ls_mappings l)" "r \<longleftrightarrow> map_of (ls_mappings l) k \<noteq> None"
    using assms by (auto simp: removeMapping_def Let_def split: option.splits)
  have "views l' = views l \<and> ls_snapshot l' = ls_snapshot l \<and> ls_index l' = ls_index l \<and> rest l' = rest l"
  proof (cases "map_of (ls_mappings l) k")
    case None
    then show ?thesis using assms by (simp add: removeMapping_def)
  next
    case (Some i)
    define l1 where "l1 = hbLost now i l"
    have "l' = l1\<lparr>ls_mappings := AList.delete k (ls_mappings l1),
        ls_connData := removeNow (lc_connID (connAt l1 i), ls_tag l1) (ls_connData l1)\<rparr>"
      using assms Some by (simp add: removeMapping_def Let_def l1_def)
    then have "views l' = views l1" "ls_snapshot l' = ls_snapshot l1" "ls_index l' = ls_index l1" "rest l' = rest l1"
      by (simp_all add: views_def rest_def)
    then show ?thesis by (simp add: l1_def)
  qed
  then show "views l' = views l" "ls_snapshot l' = ls_snapshot l" "ls_index l' = ls_index l" "rest l' = rest l"
    by auto
qed

text \<open>A predicate that reads of a mapping only what removing others leaves alone.\<close>

definition on_view :: "(addr_key \<Rightarrow> listen_conn \<Rightarrow> bool) \<Rightarrow> bool" where
  "on_view P \<longleftrightarrow> (\<forall>k m m'. view m = view m' \<longrightarrow> P k m = P k m')"

definition chosen :: "(addr_key \<Rightarrow> listen_conn \<Rightarrow> bool) \<Rightarrow> listen \<Rightarrow> (addr_key \<times> nat) list \<Rightarrow> addr_key set" where
  "chosen P l ms = {k. \<exists>i. (k, i) \<in> set ms \<and> P k (connAt l i)}"

lemma chosen_cong:
  assumes "views l' = views l" "on_view P" "\<forall>(k, i) \<in> set ms. i < length (ls_conns l)"
  shows "chosen P l' ms = chosen P l ms"
proof -
  have e: "P k (connAt l' i) = P k (connAt l i)" if "(k, i) \<in> set ms" for k i
  proof -
    have "view (connAt l' i) = view (connAt l i)" using views_at [OF assms(1), of i] assms(3) that by auto
    then show ?thesis using assms(2) unfolding on_view_def by blast
  qed
  then have "(\<exists>i. (k, i) \<in> set ms \<and> P k (connAt l' i)) = (\<exists>i. (k, i) \<in> set ms \<and> P k (connAt l i))" for k
    by metis
  then show ?thesis by (simp add: chosen_def)
qed

lemma dropMatching_spec:
  assumes "on_view P" "distinct (map fst ms)"
    "\<forall>(k, i) \<in> set ms. map_of (ls_mappings l) k = Some i \<and> i < length (ls_conns l)"
    "dropMatching now P ms (l, ch) = (l', ch')"
  shows "ls_mappings l' = filter (\<lambda>(k, i). k \<notin> chosen P l ms) (ls_mappings l)
    \<and> (ch' \<longleftrightarrow> ch \<or> chosen P l ms \<noteq> {}) \<and> views l' = views l \<and> ls_snapshot l' = ls_snapshot l
    \<and> ls_index l' = ls_index l \<and> rest l' = rest l"
  using assms
proof (induction ms arbitrary: l ch)
  case Nil
  then show ?case by (simp add: dropMatching_def chosen_def)
next
  case (Cons x ms)
  obtain k i where x: "x = (k, i)" by (cases x)
  show ?case
  proof (cases "P k (connAt l i)")
    case False
    then have "dropMatching now P ms (l, ch) = (l', ch')" using Cons.prems(4) by (simp add: dropMatching_def x)
    moreover have "chosen P l (x # ms) = chosen P l ms" using False by (auto simp: chosen_def x)
    ultimately show ?thesis using Cons.IH [OF Cons.prems(1)] Cons.prems(2,3) by simp
  next
    case True
    obtain l1 r where r: "removeMapping now k l = (l1, r)" by fastforce
    note s = removeMapping_spec [OF r]
    have d: "dropMatching now P ms (l1, ch \<or> r) = (l', ch')"
      using Cons.prems(4) True by (simp add: dropMatching_def x r)
    have rr: "r" using s(2) Cons.prems(3) by (simp add: x)
    have k: "k \<notin> fst ` set ms" using Cons.prems(2) by (simp add: x)
    have m1: "\<forall>(k', i') \<in> set ms. map_of (ls_mappings l1) k' = Some i' \<and> i' < length (ls_conns l1)"
      using Cons.prems(3) k views_length [OF s(3)] by (force simp: s(1) delete_conv')
    have c: "chosen P l1 ms = chosen P l ms"
      using Cons.prems(3) by (intro chosen_cong [OF s(3) Cons.prems(1)]) (auto simp: x)
    have cx: "chosen P l ((k, i) # ms) = insert k (chosen P l ms)" using True by (auto simp: chosen_def x)
    have del: "AList.delete k (ls_mappings l) = filter (\<lambda>(k', i). k' \<noteq> k) (ls_mappings l)"
      by (auto simp: AList.delete_eq intro!: filter_cong)
    have ih: "ls_mappings l' = filter (\<lambda>(k, i). k \<notin> chosen P l ms) (ls_mappings l1)"
      "ch' = ((ch \<or> r) \<or> chosen P l ms \<noteq> {})" "views l' = views l1" "ls_snapshot l' = ls_snapshot l1"
      "ls_index l' = ls_index l1" "rest l' = rest l1"
      using Cons.IH [OF Cons.prems(1) _ m1 d] Cons.prems(2) by (simp_all add: c x)
    have "ls_mappings l' = filter (\<lambda>(k', i). k' \<notin> insert k (chosen P l ms)) (ls_mappings l)"
      unfolding ih(1) s(1) del filter_filter by (intro filter_cong) auto
    then show ?thesis using ih(2-) s rr by (simp add: cx x)
  qed
qed

text \<open>Removing by a predicate leaves exactly the mappings it does not select, in whatever order Go ranges.\<close>

lemma chosen_order:
  assumes "tables_ok l" "order_ok E"
  shows "filter (\<lambda>(k, i). k \<notin> chosen P l (le_order E (ls_mappings l))) (ls_mappings l)
    = filter (\<lambda>(k, i). \<not> P k (connAt l i)) (ls_mappings l)"
proof (rule filter_cong [OF refl])
  fix x assume x: "x \<in> set (ls_mappings l)"
  obtain k i where k: "x = (k, i)" by (cases x)
  have "j = i" if "(k, j) \<in> set (ls_mappings l)" for j
    using that x assms(1) eq_key_imp_eq_value unfolding k tables_ok_def by fastforce
  then have "k \<in> chosen P l (le_order E (ls_mappings l)) \<longleftrightarrow> P k (connAt l i)"
    using x order_set [OF assms(2)] unfolding chosen_def k by blast
  then show "(case x of (k, i) \<Rightarrow> k \<notin> chosen P l (le_order E (ls_mappings l)))
      = (case x of (k, i) \<Rightarrow> \<not> P k (connAt l i))" by (simp add: k)
qed

lemma sync_fields [simp]:
  "ls_mappings (syncMapping E l) = ls_mappings l" "ls_conns (syncMapping E l) = ls_conns l"
  "views (syncMapping E l) = views l" "rest (syncMapping E l) = rest l" "connAt (syncMapping E l) i = connAt l i"
  "ls_broadcast (syncMapping E l) = ls_broadcast l" "ls_auth (syncMapping E l) = ls_auth l"
  by (simp_all add: syncMapping_def views_def rest_def connAt_def)

lemma rest_broadcast: "rest l' = rest l \<Longrightarrow> ls_broadcast l' = ls_broadcast l"
  by (simp add: rest_def)

lemma views_addr: "views l' = views l \<Longrightarrow> i < length (ls_conns l) \<Longrightarrow> lc_addr (connAt l' i) = lc_addr (connAt l i)"
  using views_at [of l' l i] by (simp add: view_def)

lemma views_auth: "views l' = views l \<Longrightarrow> i < length (ls_conns l) \<Longrightarrow> lc_auth (connAt l' i) = lc_auth (connAt l i)"
  using views_at [of l' l i] by (simp add: view_def)

lemma tables_sync_sub:
  assumes "tables_ok l" "order_ok E" "ids l' = ids l" "ls_broadcast l' = ls_broadcast l" "ls_index l' = ls_index l"
    "ls_mappings l' = filter Q (ls_mappings l)"
  shows "tables_ok (syncMapping E l')"
proof (rule tables_sync [OF assms(2)])
  show "distinct (map fst (ls_mappings l'))" using assms(1,6) by (simp add: tables_ok_def distinct_map_filter)
  show "ls_broadcast l' \<Longrightarrow> ls_index l' = None" using assms(1,4,5) by (simp add: tables_ok_def)
  have n: "length (ls_conns l') = length (ls_conns l)"
    using arg_cong [where f = length, OF assms(3)] by (simp add: ids_def)
  have at: "lc_addr (connAt l' i) = lc_addr (connAt l i)" if "i < length (ls_conns l)" for i
    using arg_cong [where f = "\<lambda>xs. xs ! i", OF assms(3)] n that by (simp_all add: ids_def connAt_def)
  show "\<forall>(k, i) \<in> set (ls_mappings l'). i < length (ls_conns l') \<and> addrKey (lc_addr (connAt l' i)) = k"
    using assms(1,6) n at by (auto simp: tables_ok_def)
qed

lemma dropAndSync_spec:
  assumes t: "tables_ok l" "order_ok E" "on_view P"
  defines "l' \<equiv> dropAndSync E P l"
  shows "ls_mappings l' = filter (\<lambda>(k, i). \<not> P k (connAt l i)) (ls_mappings l)" "views l' = views l"
    "rest l' = rest l" "tables_ok l'"
proof -
  let ?ms = "le_order E (ls_mappings l)"
  obtain l1 ch where d: "dropMatching (le_now E) P ?ms (l, False) = (l1, ch)" by fastforce
  have dist: "distinct (map fst (ls_mappings l))" using t(1) by (simp add: tables_ok_def)
  have mem: "\<forall>(k, i) \<in> set ?ms. map_of (ls_mappings l) k = Some i \<and> i < length (ls_conns l)"
    using t(1) dist unfolding order_set [OF t(2)] tables_ok_def by auto
  note s = dropMatching_spec [OF t(3) order_distinct [OF t(2) dist] mem d]
  have l': "l' = (if ch then syncMapping E l1 else l1)" by (simp add: l'_def dropAndSync_def d)
  have m1: "ls_mappings l1 = filter (\<lambda>(k, i). \<not> P k (connAt l i)) (ls_mappings l)"
    using s chosen_order [OF t(1,2)] by simp
  then show "ls_mappings l' = filter (\<lambda>(k, i). \<not> P k (connAt l i)) (ls_mappings l)" by (simp add: l')
  show "views l' = views l" "rest l' = rest l" using s by (simp_all add: l')
  show "tables_ok l'"
  proof (cases ch)
    case True
    have "tables_ok (syncMapping E l1)"
      using s by (intro tables_sync_sub [OF t(1,2) _ _ _ m1]) (simp_all add: views_ids [of l1 l] rest_broadcast [of l1 l])
    then show ?thesis using True by (simp add: l')
  next
    case False
    then have "chosen P l ?ms = {}" using s by simp
    then have "ls_mappings l1 = ls_mappings l" using s by simp
    then have "tables_ok l1 = tables_ok l"
      using s by (intro tables_cong) (simp_all add: views_ids [of l1 l] rest_broadcast [of l1 l])
    then show ?thesis using False t(1) by (simp add: l')
  qed
qed

section \<open>Each step keeps the tables and the authenticated clients\<close>

definition authedKeys :: "listen \<Rightarrow> addr_key set" where
  "authedKeys l = {k. \<exists>i. (k, i) \<in> set (ls_mappings l) \<and> lcAuthed (connAt l i)}"

definition static :: "listen \<Rightarrow> _" where
  "static l = (ls_tag l, ls_timeout l, ls_replaceOld l, ls_detour l, ls_broadcast l, ls_preserve l, ls_queueSize l,
     map_option am_secret (ls_auth l))"

text \<open>Nobody but the keys of \<open>K\<close> becomes authenticated.\<close>

definition step_ok :: "addr_key set \<Rightarrow> listen \<Rightarrow> listen \<Rightarrow> bool" where
  "step_ok K l l' \<longleftrightarrow> tables_ok l' \<and> authedKeys l' \<subseteq> authedKeys l \<union> K \<and> static l' = static l"

lemma step_ok_refl: "tables_ok l \<Longrightarrow> step_ok K l l"
  by (simp add: step_ok_def)

lemma step_ok_trans: "step_ok K l l1 \<Longrightarrow> step_ok K l1 l2 \<Longrightarrow> step_ok K l l2"
  unfolding step_ok_def by auto

lemma step_ok_tables: "step_ok K l l' \<Longrightarrow> tables_ok l'"
  by (simp add: step_ok_def)

lemma step_ok_mono: "step_ok {} l l' \<Longrightarrow> step_ok K l l'"
  by (auto simp: step_ok_def)

lemma step_views:
  assumes "tables_ok l" "tables_ok l'" "views l' = views l" "set (ls_mappings l') \<subseteq> set (ls_mappings l)"
    "static l' = static l"
  shows "step_ok K l l'"
proof -
  have "lcAuthed (connAt l' i) = lcAuthed (connAt l i)" if "(k, i) \<in> set (ls_mappings l)" for k i
  proof -
    have "i < length (ls_conns l)" using that assms(1) by (auto simp: tables_ok_def)
    then show ?thesis using views_auth [OF assms(3)] by (simp add: lcAuthed_def)
  qed
  then have "authedKeys l' \<subseteq> authedKeys l" using assms(4) unfolding authedKeys_def by blast
  then show ?thesis using assms by (auto simp: step_ok_def)
qed

lemma rest_static: "rest l' = rest l \<Longrightarrow> static l' = static l"
  by (simp add: rest_def static_def)

text \<open>Steps that change neither mappings nor tables.\<close>

lemma step_same:
  assumes "tables_ok l" "ls_conns l' = ls_conns l" "ls_mappings l' = ls_mappings l" "ls_snapshot l' = ls_snapshot l"
    "ls_index l' = ls_index l" "static l' = static l"
  shows "step_ok K l l'"
proof -
  have b: "ls_broadcast l' = ls_broadcast l" using assms(6) by (simp add: static_def)
  have i: "ids l' = ids l" by (simp add: ids_def assms(2))
  have "tables_ok l' = tables_ok l" by (rule tables_cong [OF i assms(3-5) b])
  then show ?thesis using assms(1,3,6) views_cong [OF assms(2)] by (intro step_views) auto
qed

text \<open>Writing one mapping without touching address, id and authentication.\<close>

lemma step_setConn:
  assumes "tables_ok l" "lc_addr m = lc_addr (connAt l i)" "lc_connID m = lc_connID (connAt l i)"
    "lc_auth m = lc_auth (connAt l i) \<or> lc_auth m = Some True \<and> (\<forall>k. (k, i) \<in> set (ls_mappings l) \<longrightarrow> k \<in> K)"
  shows "step_ok K l (setConn i m l)"
proof (cases "i < length (ls_conns l)")
  case True
  let ?l = "setConn i m l"
  have at: "connAt ?l j = (if j = i then m else connAt l j)" for j
    using True by (auto simp: connAt_def setConn_def)
  have "ids ?l = (ids l)[i := ids l ! i]" using True assms(2,3) by (simp add: ids_def setConn_def map_update connAt_def)
  then have ids: "ids ?l = ids l" by simp
  have f: "ls_mappings ?l = ls_mappings l" "ls_snapshot ?l = ls_snapshot l" "ls_index ?l = ls_index l"
    "ls_broadcast ?l = ls_broadcast l" "static ?l = static l" by (simp_all add: setConn_def static_def)
  have t: "tables_ok ?l" using tables_cong [OF ids f(1-4)] assms(1) by simp
  have "authedKeys ?l \<subseteq> authedKeys l \<union> K"
    using assms(4) unfolding authedKeys_def f(1) at lcAuthed_def by (auto split: if_splits)
  then show ?thesis using t f(5) by (simp add: step_ok_def)
next
  case False
  then have "setConn i m l = l" by (simp add: setConn_def list_update_beyond)
  then show ?thesis using step_ok_refl [OF assms(1)] by simp
qed

lemma step_touch: "tables_ok l \<Longrightarrow> step_ok K l (touchConn now i l)"
  unfolding touchConn_def by (rule step_setConn) simp_all

lemma hb_broadcast [simp]: "ls_broadcast (hbLost now i l) = ls_broadcast l" "ls_broadcast (hbSent now i l) = ls_broadcast l"
  by (simp_all add: hbLost_def hbSent_def setConn_def Let_def)

lemma step_hb:
  assumes "tables_ok l"
  shows "step_ok K l (hbLost now i l)" "step_ok K l (hbSent now i l)"
proof -
  have "ids (hbLost now i l) = ids l" "ids (hbSent now i l) = ids l" by (rule views_ids, simp)+
  then have "tables_ok (hbLost now i l)" "tables_ok (hbSent now i l)"
    by (auto intro: tables_cong [THEN iffD2, OF _ _ _ _ _ assms])
  moreover have "static (hbLost now i l) = static l" "static (hbSent now i l) = static l"
    by (rule rest_static; simp)+
  ultimately show "step_ok K l (hbLost now i l)" "step_ok K l (hbSent now i l)"
    using assms by (simp_all add: step_views)
qed

lemma step_drop:
  assumes "tables_ok l" "order_ok E" "on_view P"
  shows "step_ok K l (dropAndSync E P l)"
proof (rule step_views)
  note s = dropAndSync_spec [OF assms]
  show "tables_ok (dropAndSync E P l)" "views (dropAndSync E P l) = views l" using s by simp_all
  show "set (ls_mappings (dropAndSync E P l)) \<subseteq> set (ls_mappings l)" unfolding s(1) by auto
  show "static (dropAndSync E P l) = static l" by (rule rest_static) (rule s(3))
qed (rule assms)

lemma step_remove_sync:
  assumes "tables_ok l" "order_ok E" "removeMapping now k l = (l', r)"
  shows "step_ok K l (if r then syncMapping E l' else l')"
proof -
  note s = removeMapping_spec [OF assms(3)]
  have del: "AList.delete k ms = filter (\<lambda>(k', i). k' \<noteq> k) ms" for ms :: "(addr_key \<times> nat) list"
    by (auto simp: AList.delete_eq intro!: filter_cong)
  show ?thesis
  proof (cases r)
    case True
    have "tables_ok (syncMapping E l')"
      using s by (intro tables_sync_sub [OF assms(1,2)]) (simp_all add: views_ids [of l' l] rest_broadcast [of l' l] del)
    moreover have "set (ls_mappings l') \<subseteq> set (ls_mappings l)" using s(1) by (auto simp: del)
    moreover have "static (syncMapping E l') = static l" by (rule rest_static) (simp add: s(6))
    ultimately show ?thesis using True assms(1) s(3) step_views [of l "syncMapping E l'"] by simp
  next
    case False
    then have "l' = l" using assms(3) by (auto simp: removeMapping_def Let_def split: option.splits)
    then show ?thesis using False step_ok_refl [OF assms(1)] by simp
  qed
qed

lemma addMapping_spec:
  fixes st :: "bool option"
  assumes "tables_ok l" "order_ok E" "map_of (ls_mappings l) (addrKey a) = None"
  defines "l' \<equiv> addMapping E a st l"
  shows "ls_mappings l' = ls_mappings l @ [(addrKey a, length (ls_conns l))]" "tables_ok l'"
    "lc_addr (connAt l' (length (ls_conns l))) = a" "lc_auth (connAt l' (length (ls_conns l))) = st"
    "\<forall>i < length (ls_conns l). connAt l' i = connAt l i" "rest l' = rest l" "static l' = static l"
proof -
  let ?n = "length (ls_conns l)"
  let ?m = "\<lparr>lc_addr = a, lc_lastActive = le_now E, lc_auth = st, lc_connID = le_connID E, lc_hb = empty_hb_tracker\<rparr>"
  define l1 where "l1 = l\<lparr>ls_conns := ls_conns l @ [?m], ls_mappings := ls_mappings l @ [(addrKey a, ?n)]\<rparr>"
  have "AList.update k v ms = ms @ [(k, v)]" if "k \<notin> fst ` set ms" for k v and ms :: "(addr_key \<times> nat) list"
    using that by (induction ms) auto
  then have u: "AList.update (addrKey a) ?n (ls_mappings l) = ls_mappings l @ [(addrKey a, ?n)]"
    using assms(3) by (simp add: map_of_eq_None_iff)
  have l': "l' = syncMapping E l1" by (simp add: l'_def addMapping_def l1_def u)
  have at: "connAt l1 i = (if i < ?n then connAt l i else ?m)" if "i < Suc ?n" for i
    using that by (auto simp: connAt_def l1_def nth_append)
  have "tables_ok (syncMapping E l1)"
  proof (rule tables_sync [OF assms(2)])
    show "distinct (map fst (ls_mappings l1))"
      using assms(1,3) by (simp add: l1_def tables_ok_def map_of_eq_None_iff)
    show "ls_broadcast l1 \<Longrightarrow> ls_index l1 = None" using assms(1) by (simp add: l1_def tables_ok_def)
    show "\<forall>(k, i) \<in> set (ls_mappings l1). i < length (ls_conns l1) \<and> addrKey (lc_addr (connAt l1 i)) = k"
      using assms(1) at by (auto simp: l1_def tables_ok_def)
  qed
  then show "tables_ok l'" by (simp add: l')
  show "ls_mappings l' = ls_mappings l @ [(addrKey a, ?n)]" by (simp add: l' l1_def)
  show "lc_addr (connAt l' ?n) = a" "lc_auth (connAt l' ?n) = st" "\<forall>i < ?n. connAt l' i = connAt l i"
    using at by (simp_all add: l')
  show "rest l' = rest l" "static l' = static l" by (simp_all add: l' l1_def rest_def static_def syncMapping_def)
qed

lemma step_add:
  assumes "tables_ok l" "order_ok E" "map_of (ls_mappings l) (addrKey a) = None" "st \<noteq> Some True"
  shows "step_ok K l (addMapping E a st l)"
proof -
  note s = addMapping_spec [OF assms(1-3), of st]
  have old: "i < length (ls_conns l)" if "(k, i) \<in> set (ls_mappings l)" for k i using that assms(1) by (auto simp: tables_ok_def)
  have "authedKeys (addMapping E a st l) \<subseteq> authedKeys l"
    using s(4,5) assms(4) old unfolding authedKeys_def s(1) lcAuthed_def by fastforce
  then show ?thesis using s by (auto simp: step_ok_def)
qed

lemma on_view_ip: "on_view (\<lambda>k m. udpIP (lc_addr m) = x \<and> \<not> keep k)"
  by (simp add: on_view_def view_def)

lemma on_view_idle: "on_view (\<lambda>k m. d < time_sub now (lc_lastActive m))"
  by (simp add: on_view_def view_def)

lemma step_replace: "tables_ok l \<Longrightarrow> order_ok E \<Longrightarrow> replaceOld E a keep l = Some l' \<Longrightarrow> step_ok K l l'"
  using step_drop [OF _ _ on_view_ip] by (auto simp: replaceOld_def split: if_splits)

lemma step_cleanup: "tables_ok l \<Longrightarrow> order_ok E \<Longrightarrow> step_ok K l (performCleanup E l)"
  unfolding performCleanup_def by (rule step_drop [OF _ _ on_view_idle])

lemma queueSend_cases:
  assumes "queueSend high addr a (l, w) = Some (l', w')"
  shows "(l' = l \<and> refRelease a (refAdd a w) = Some w') \<or> (\<exists>ad. addr = Some ad \<and> w' = refAdd a w
    \<and> (l' = l\<lparr>ls_prio := ls_prio l @ [(a, ad)]\<rparr> \<or> l' = l\<lparr>ls_queue := ls_queue l @ [(a, ad)]\<rparr>))"
  using assms by (auto simp: queueSend_def Let_def split: option.splits if_splits)

lemma step_queueSend:
  assumes "tables_ok l" "queueSend high addr a (l, w) = Some (l', w')"
  shows "step_ok K l l'"
  using queueSend_cases [OF assms(2)] assms(1) by (auto intro!: step_same simp: static_def step_ok_refl)

lemma sendControl_queue:
  assumes "sendControl E f ad (l, w) = Some (l', w')"
  shows "l' = l \<or> (\<exists>a w1 w2. queueSend True (Some ad) a (l, w1) = Some (l', w2))"
  using assms by (auto simp: sendControl_def option_bind_eq_Some split: prod.splits if_splits)

lemma step_sendControl:
  assumes "tables_ok l" "sendControl E f ad (l, w) = Some (l', w')"
  shows "step_ok K l l'"
  using sendControl_queue [OF assms(2)] step_queueSend [OF assms(1)] step_ok_refl [OF assms(1)] by blast

lemma processAuth_am:
  "processAuthChallenge cr now d am = (am', r) \<Longrightarrow> am_secret am' = am_secret am"
  by (auto simp: processAuthChallenge_def Let_def split: if_splits)

lemma createAuth_am:
  "createAuthChallenge cr now rnd t f p b am = Some (am', b', r) \<Longrightarrow> am_secret am' = am_secret am"
  by (auto simp: createAuthChallenge_def Let_def option_bind_eq_Some split: option.splits)

text \<open>What a datagram must carry to authenticate its sender: a code made with the secret.\<close>

definition macOk :: "crypto \<Rightarrow> bytes \<Rightarrow> bytes \<Rightarrow> bool" where
  "macOk cr secret d \<longleftrightarrow> 88 \<le> length d \<and> take 32 (drop 56 d) = challengeMAC cr secret (take 32 d)
     (idFromBytes (take 8 (drop 32 d))) (idFromBytes (take 8 (drop 40 d))) (take 8 (drop 48 d))"

lemma processAuth_mac:
  "processAuthChallenge cr now d am = (am', Inr r) \<Longrightarrow> macOk cr (am_secret am) d"
  by (auto simp: processAuthChallenge_def macOk_def Let_def HandshakeSize_def split: if_splits)

definition challengeData :: "protocol_header \<Rightarrow> slice \<Rightarrow> bytes" where
  "challengeData h buf = take (nat (uint (8 + ph_length h) - 8)) (drop 8 (sl_mem buf))"

lemma tables_key:
  "tables_ok l \<Longrightarrow> map_of (ls_mappings l) k = Some i \<Longrightarrow> i < length (ls_conns l) \<and> addrKey (lc_addr (connAt l i)) = k"
  by (auto simp: tables_ok_def dest!: map_of_SomeD)

lemma step_challenge:
  assumes t: "tables_ok l" "order_ok E" and am: "ls_auth l = Some am"
    and r: "onChallenge E c h buf ad am l = Some l'"
    and K: "macOk (le_crypto E) (am_secret am) (challengeData h buf) \<Longrightarrow> addrKey ad \<in> K"
  shows "step_ok K l l'"
proof -
  define l1 where "l1 = (if map_of (ls_mappings l) (addrKey ad) = None then addMapping E ad (Some False) l else l)"
  have s1: "step_ok K l l1"
    using step_add [OF t, of ad "Some False"] step_ok_refl [OF t(1)] by (auto simp: l1_def)
  note t1 = step_ok_tables [OF s1]
  have sec: "map_option am_secret (ls_auth l1) = Some (am_secret am)" using s1 am by (simp add: step_ok_def static_def)
  obtain i data where i: "map_of (ls_mappings l1) (addrKey ad) = Some i"
    and d: "sl_range buf HeaderSize (uint (8 + ph_length h)) = Some data"
    using r by (auto simp: onChallenge_def Let_def l1_def [symmetric] option_bind_eq_Some)
  have data: "sl_data data = challengeData h buf"
    using d by (auto simp: sl_range_def sl_data_def challengeData_def HeaderSize_def split: if_splits)
  obtain am1 res where p: "processAuthChallenge (le_crypto E) (le_now E) (sl_data data) am = (am1, res)" by fastforce
  have a1: "am_secret am1 = am_secret am" by (rule processAuth_am [OF p])
  let ?l2 = "l1\<lparr>ls_auth := Some am1\<rparr>"
  have s2: "step_ok K l1 ?l2" using t1 sec a1 by (intro step_same) (auto simp: static_def)
  note t2 = step_ok_tables [OF s2]
  show ?thesis
  proof (cases res)
    case (Inl e)
    then have "l' = ?l2"
      using r i d p by (simp add: onChallenge_def Let_def l1_def [symmetric])
    then show ?thesis using step_ok_trans [OF s1 s2] by simp
  next
    case (Inr ids)
    obtain fid pid where ids: "ids = (fid, pid)" by (cases ids)
    have keyK: "addrKey ad \<in> K" using processAuth_mac [of "le_crypto E" "le_now E" _ am am1 ids] p Inr data K by simp
    obtain l3 am2 rb cr out where l3: "(if ls_replaceOld l1 then replaceOld E ad (\<lambda>k. k = addrKey ad) ?l2 else Some ?l2) = Some l3"
      and c: "createAuthChallenge (le_crypto E) (le_now E) (le_rand E) MsgTypeAuthResponse fid pid (full_slice (le_mem E)) am1 = Some (am2, rb, cr)"
      and l': "l' = setConn i ((connAt l3 i)\<lparr>lc_auth := Some True, lc_lastActive := le_now E\<rparr>)
                 (l3\<lparr>ls_auth := Some am2, ls_sent := ls_sent l3 @ [(sl_data out, ad)]\<rparr>)"
      using r i d p Inr ids by (auto simp: onChallenge_def Let_def l1_def [symmetric] option_bind_eq_Some)
    have s3: "step_ok K ?l2 l3" using l3 step_replace [OF t2 t(2)] step_ok_refl [OF t2] by (auto split: if_splits)
    note t3 = step_ok_tables [OF s3]
    let ?l4 = "l3\<lparr>ls_auth := Some am2, ls_sent := ls_sent l3 @ [(sl_data out, ad)]\<rparr>"
    have sec3: "map_option am_secret (ls_auth l3) = Some (am_secret am)" using s3 a1 by (simp add: step_ok_def static_def)
    have s4: "step_ok K l3 ?l4" using t3 sec3 createAuth_am [OF c] a1 by (intro step_same) (auto simp: static_def)
    note t4 = step_ok_tables [OF s4]
    have v: "ls_mappings l3 = (if ls_replaceOld l1 then filter (\<lambda>(k, j). \<not> (udpIP (lc_addr (connAt ?l2 j)) = udpIP ad \<and> k \<noteq> addrKey ad)) (ls_mappings ?l2) else ls_mappings ?l2)
        \<and> views l3 = views ?l2"
      using l3 dropAndSync_spec [OF t2 t(2) on_view_ip [of "udpIP ad" "\<lambda>k. k = addrKey ad"]]
      by (auto simp: replaceOld_def split: if_splits)
    have k: "k = addrKey ad" if "(k, i) \<in> set (ls_mappings l3)" for k
    proof -
      have "i < length (ls_conns l1)" "addrKey (lc_addr (connAt l1 i)) = addrKey ad" using tables_key [OF t1 i] by auto
      moreover have "addrKey (lc_addr (connAt l3 i)) = k" using t3 that by (auto simp: tables_ok_def)
      moreover have "lc_addr (connAt l3 i) = lc_addr (connAt ?l2 i)"
        using views_addr [of l3 ?l2 i] v \<open>i < length (ls_conns l1)\<close> by simp
      ultimately show ?thesis by (simp add: connAt_def)
    qed
    have at: "connAt ?l4 i = connAt l3 i" by (simp add: connAt_def)
    have "step_ok K ?l4 l'"
      unfolding l' using k keyK at by (intro step_setConn [OF t4]) auto
    then show ?thesis by (intro step_ok_trans [OF s1 step_ok_trans [OF s2 step_ok_trans [OF s3 step_ok_trans [OF s4]]]])
  qed
qed

lemma unwrapEncrypted_header:
  "unwrapEncrypted cr c now m key d h am p = Some r \<Longrightarrow> ur_header r = Some h"
  by (auto simp: unwrapEncrypted_def Let_def option_bind_eq_Some split: if_splits option.splits)

lemma unwrapData_control:
  assumes "unwrapData cr c now m am p = Some r" "ur_err r = None" "ur_header r = Some h" "ph_msgType h \<noteq> MsgTypeData"
  shows "\<exists>b. bufAtOffset p = Some b \<and> parseHeader b = Inr h \<and> ur_packet r = p \<and> ur_am r = am"
proof (cases "bufAtOffset p")
  case None
  then show ?thesis using assms by (auto simp: unwrapData_def split: if_splits)
next
  case (Some b)
  show ?thesis
  proof (cases "parseHeader b")
    case (Inl e)
    then show ?thesis using assms Some by (auto simp: unwrapData_def split: if_splits)
  next
    case (Inr h')
    have data: False if d: "ph_msgType h' = MsgTypeData"
    proof -
      have "ur_header r = Some h' \<or> ur_err r \<noteq> None"
        using assms(1) Some Inr d
        by (auto simp: unwrapData_def Let_def option_bind_eq_Some dest: unwrapEncrypted_header split: if_splits option.splits)
      then show False using assms(2-4) d by simp
    qed
    then have "r = \<lparr>ur_am = am, ur_packet = p, ur_header = Some h', ur_err = None\<rparr>"
      using assms(1,2) Some Inr by (auto simp: unwrapData_def split: if_splits)
    then show ?thesis using assms(3) Some Inr by simp
  qed
qed

lemma recordDelay_secret: "recordDelayMeasurement d am = Some am' \<Longrightarrow> am_secret am' = am_secret am"
  by (auto simp: recordDelayMeasurement_def Let_def split: if_splits)

lemma step_ack:
  assumes t: "tables_ok l" and am: "ls_auth l = Some am" and r: "onHeartbeatAck E i am l = Some l'"
  shows "step_ok K l l'"
proof -
  let ?m = "(connAt l i)\<lparr>lc_lastActive := le_now E\<rparr>"
  show ?thesis
  proof (cases "lc_auth ?m = None")
    case True
    then have "l' = setConn i ?m l" using r by (simp add: onHeartbeatAck_def Let_def)
    then show ?thesis by (auto intro!: step_setConn [OF t])
  next
    case False
    let ?hb = "markHeartbeatResponse (lc_hb ?m)"
    obtain am' where d: "(if lastHeartbeatSent ?hb \<noteq> zero_time
          then recordDelayMeasurement (time_sub (le_now E) (lastHeartbeatSent ?hb)) am else Some am) = Some am'"
      and l': "l' = setConn i (?m\<lparr>lc_hb := clearLastHeartbeatSent ?hb\<rparr>) (l\<lparr>ls_auth := Some am'\<rparr>)"
      using r False by (auto simp: onHeartbeatAck_def Let_def option_bind_eq_Some)
    have a: "am_secret am' = am_secret am" using d recordDelay_secret by (auto split: if_splits)
    have s: "step_ok K l (l\<lparr>ls_auth := Some am'\<rparr>)" using t am a by (intro step_same) (auto simp: static_def)
    have "step_ok K (l\<lparr>ls_auth := Some am'\<rparr>) l'"
      unfolding l' by (rule step_setConn [OF step_ok_tables [OF s]]) (auto simp: connAt_def)
    then show ?thesis using step_ok_trans [OF s] by blast
  qed
qed

lemma step_handleAuth:
  assumes t: "tables_ok l" "order_ok E" and am: "ls_auth l = Some am"
    and r: "handleAuthMessage E h buf ad am (l, w) = Some (l', w')"
    and K: "ph_msgType h = MsgTypeAuthChallenge \<Longrightarrow> macOk (le_crypto E) (am_secret am) (challengeData h buf) \<Longrightarrow> addrKey ad \<in> K"
  shows "step_ok K l l'"
proof -
  let ?t = "ph_msgType h" and ?known = "map_of (ls_mappings l) (addrKey ad)"
  consider "?t = MsgTypeAuthChallenge" | "?t = MsgTypeProbe" | "?t = MsgTypeProbeAck" | "?t = MsgTypeHeartbeat"
    | "?t = MsgTypeHeartbeatAck" | "?t = MsgTypeDisconnect"
    | "?t \<notin> {MsgTypeAuthChallenge, MsgTypeProbe, MsgTypeProbeAck, MsgTypeHeartbeat, MsgTypeHeartbeatAck, MsgTypeDisconnect}"
    by blast
  then show ?thesis
  proof cases
    case 1
    then show ?thesis using r step_challenge [OF t am _ K] by (auto simp: handleAuthMessage_def)
  next
    case 2
    then show ?thesis using r step_sendControl [OF t(1)] step_ok_refl [OF t(1)]
      by (auto simp: handleAuthMessage_def auth_consts MsgTypeProbe_def split: option.splits if_splits)
  next
    case 3
    then have "l' = l \<or> (\<exists>rs. l' = l\<lparr>ls_autorates := rs\<rparr>)"
      using r by (auto simp: handleAuthMessage_def auth_consts MsgTypeProbe_def MsgTypeProbeAck_def split: option.splits)
    then show ?thesis using step_ok_refl [OF t(1)] t(1) by (auto intro!: step_same simp: static_def)
  next
    case 4
    show ?thesis
    proof (cases ?known)
      case None
      then show ?thesis using 4 r step_ok_refl [OF t(1)]
        by (simp add: handleAuthMessage_def auth_consts MsgTypeProbe_def MsgTypeProbeAck_def)
    next
      case (Some i)
      let ?l1 = "touchConn (le_now E) i l"
      let ?l2 = "hbLost (le_now E) i ?l1"
      have s1: "step_ok K l ?l1" by (rule step_touch [OF t(1)])
      have s2: "step_ok K ?l1 ?l2" by (rule step_hb [OF step_ok_tables [OF s1]])
      have "l' = ?l1 \<or> (\<exists>l3 w3. sendControl E createHeartbeat ad (?l2, w) = Some (l3, w3) \<and> l' = hbSent (le_now E) i l3)"
        using 4 r Some
        by (auto simp: handleAuthMessage_def auth_consts MsgTypeProbe_def MsgTypeProbeAck_def option_bind_eq_Some split: if_splits)
      then show ?thesis
      proof (elim disjE exE conjE)
        assume "l' = ?l1"
        then show ?thesis using s1 by simp
      next
        fix l3 w3 assume c: "sendControl E createHeartbeat ad (?l2, w) = Some (l3, w3)" and l': "l' = hbSent (le_now E) i l3"
        have s3: "step_ok K ?l2 l3" by (rule step_sendControl [OF step_ok_tables [OF s2] c])
        have s4: "step_ok K l3 l'" unfolding l' by (rule step_hb [OF step_ok_tables [OF s3]])
        show ?thesis by (rule step_ok_trans [OF s1 step_ok_trans [OF s2 step_ok_trans [OF s3 s4]]])
      qed
    qed
  next
    case 5
    then show ?thesis using r step_ack [OF t(1) am] step_ok_refl [OF t(1)]
      by (auto simp: handleAuthMessage_def auth_consts MsgTypeProbe_def MsgTypeProbeAck_def split: option.splits)
  next
    case 6
    obtain l1 rm where rm: "removeMapping (le_now E) (addrKey ad) l = (l1, rm)" by fastforce
    then have "l' = (if rm then syncMapping E l1 else l1)"
      using 6 r by (auto simp: handleAuthMessage_def auth_consts MsgTypeProbe_def MsgTypeProbeAck_def)
    then show ?thesis using step_remove_sync [OF t rm] by simp
  next
    case 7
    then show ?thesis using r step_ok_refl [OF t(1)] by (simp add: handleAuthMessage_def Let_def)
  qed
qed

text \<open>A datagram that can authenticate its sender.\<close>

definition provesSecret :: "crypto \<Rightarrow> bytes \<Rightarrow> packet \<Rightarrow> bool" where
  "provesSecret cr secret p = (case (bufAtOffset p, getData p) of
     (Some b, Some buf) \<Rightarrow> (case parseHeader b of
         Inr h \<Rightarrow> ph_msgType h = MsgTypeAuthChallenge \<and> macOk cr secret (challengeData h buf)
       | Inl e \<Rightarrow> False)
   | _ \<Rightarrow> False)"

lemma secret_static: "static l' = static l \<Longrightarrow> map_option am_secret (ls_auth l') = map_option am_secret (ls_auth l)"
  by (simp add: static_def)

lemma admitAuth_step:
  assumes t: "tables_ok l" "order_ok E" and am: "ls_auth l = Some am"
    and r: "admitAuth E a ad am (l, w) = Some ((l', w'), ok)"
    and K: "provesSecret (le_crypto E) (am_secret am) (pkAt w a) \<Longrightarrow> addrKey ad \<in> K"
  shows "step_ok K l l' \<and> (ok \<longrightarrow> addrKey ad \<in> authedKeys l)"
proof (cases "pk_length (pkAt w a) < HeaderSize")
  case True
  then show ?thesis using r step_ok_refl [OF t(1)] by (simp add: admitAuth_def)
next
  case False
  obtain u where u: "unwrapData (le_crypto E) (w_config w) (le_now E) (le_mem2 E) am (pkAt w a) = Some u"
    using r False by (auto simp: admitAuth_def Let_def option_bind_eq_Some)
  have us: "am_secret (ur_am u) = am_secret am" using unwrapData_am [OF u] by auto
  define l1 where "l1 = l\<lparr>ls_auth := Some (ur_am u)\<rparr>"
  define w1 where "w1 = setPk a (ur_packet u) w"
  have s1: "step_ok K l l1" using t(1) am us by (auto intro!: step_same simp: static_def l1_def)
  note t1 = step_ok_tables [OF s1]
  have ak: "authedKeys l1 = authedKeys l" by (simp add: authedKeys_def l1_def connAt_def)
  show ?thesis
  proof (cases "ur_err u")
    case (Some e)
    then show ?thesis using r False u s1 by (simp add: admitAuth_def Let_def l1_def)
  next
    case None
    obtain h where h: "ur_header u = Some h" using r False u None by (auto simp: admitAuth_def Let_def split: option.splits)
    show ?thesis
    proof (cases "ph_msgType h = MsgTypeData")
      case False
      obtain b where b: "bufAtOffset (pkAt w a) = Some b" "parseHeader b = Inr h" "ur_packet u = pkAt w a" "ur_am u = am"
        using unwrapData_control [OF u None h False] by blast
      obtain buf lw where c: "getData (pkAt w a) = Some buf" "handleAuthMessage E h buf ad am (l1, w1) = Some lw"
          "lw = (l', w')" "\<not> ok"
        using r \<open>\<not> pk_length (pkAt w a) < HeaderSize\<close> u None h False b
        by (auto simp: admitAuth_def Let_def l1_def w1_def option_bind_eq_Some)
      have "step_ok K l1 l'"
      proof (rule step_handleAuth [OF t1 t(2)])
        show "ls_auth l1 = Some am" by (simp add: l1_def b(4))
        show "handleAuthMessage E h buf ad am (l1, w1) = Some (l', w')" using c by simp
        show "ph_msgType h = MsgTypeAuthChallenge \<Longrightarrow> macOk (le_crypto E) (am_secret am) (challengeData h buf) \<Longrightarrow> addrKey ad \<in> K"
          using K b c by (simp add: provesSecret_def)
      qed
      then show ?thesis using step_ok_trans [OF s1] c(4) by blast
    next
      case True
      show ?thesis
      proof (cases "map_of (ls_mappings l1) (addrKey ad)")
        case None': None
        then show ?thesis using r False u None h True s1 by (simp add: admitAuth_def Let_def l1_def)
      next
        case (Some i)
        show ?thesis
        proof (cases "lcAuthed (connAt l1 i)")
          case False': False
          then show ?thesis using r False u None h True Some s1 by (simp add: admitAuth_def Let_def l1_def)
        next
          case True': True
          then have "l' = touchConn (le_now E) i l1"
            using r False u None h True Some by (simp add: admitAuth_def Let_def l1_def)
          moreover have "addrKey ad \<in> authedKeys l1"
            using Some True' by (auto simp: authedKeys_def dest: map_of_SomeD)
          ultimately show ?thesis using step_ok_trans [OF s1 step_touch [OF t1]] ak by simp
        qed
      qed
    qed
  qed
qed

lemma admitOpen_step:
  assumes t: "tables_ok l" "order_ok E" and r: "admitOpen E a ad (l, w) = Some ((l', w'), ok)"
  shows "step_ok K l l'"
proof (cases "map_of (ls_mappings l) (addrKey ad)")
  case None
  then obtain l1 where l1: "(if ls_replaceOld l then replaceOld E ad (\<lambda>k. False) l else Some l) = Some l1"
    "l' = addMapping E ad None l1" using r by (auto simp: admitOpen_def option_bind_eq_Some)
  have s1: "step_ok K l l1" using l1(1) step_replace [OF t] step_ok_refl [OF t(1)] by (auto split: if_splits)
  have "set (ls_mappings l1) \<subseteq> set (ls_mappings l)"
    using l1(1) dropAndSync_spec(1) [OF t on_view_ip [of "udpIP ad" "\<lambda>k. False"]] by (auto simp: replaceOld_def split: if_splits)
  then have "map_of (ls_mappings l1) (addrKey ad) = None" using None unfolding map_of_eq_None_iff by auto
  then show ?thesis using step_ok_trans [OF s1 step_add [OF step_ok_tables [OF s1] t(2)]] l1(2) by simp
next
  case (Some i)
  then show ?thesis using r step_touch [OF t(1)] by (auto simp: admitOpen_def)
qed

lemma admit_step:
  assumes t: "tables_ok l" "order_ok E" and r: "admit E a ad (l, w) = Some ((l', w'), ok)"
    and K: "\<And>am. ls_auth l = Some am \<Longrightarrow> provesSecret (le_crypto E) (am_secret am) (pkAt w a) \<Longrightarrow> addrKey ad \<in> K"
  shows "step_ok K l l' \<and> (ok \<longrightarrow> ls_auth l \<noteq> None \<longrightarrow> addrKey ad \<in> authedKeys l)"
proof (cases "ls_auth l")
  case None
  then obtain w1 where "admitOpen E a ad (l, w) = Some ((l', w1), ok)"
    using r by (auto simp: admit_def option_bind_eq_Some)
  then show ?thesis using admitOpen_step [OF t] None by auto
next
  case (Some am)
  then obtain w1 where "admitAuth E a ad am (l, w) = Some ((l', w1), ok)"
    using r by (auto simp: admit_def option_bind_eq_Some)
  then show ?thesis using admitAuth_step [OF t Some _ K [OF Some]] by auto
qed

lemma step_queueAll: "tables_ok l \<Longrightarrow> queueAll a ads (l, w) = Some (l', w') \<Longrightarrow> step_ok K l l'"
proof (induction ads arbitrary: l w)
  case Nil
  then show ?case by (simp add: step_ok_refl)
next
  case (Cons ad ads)
  then obtain l1 w1 where q: "queueSend False (Some ad) a (l, w) = Some (l1, w1)" "queueAll a ads (l1, w1) = Some (l', w')"
    by (auto simp: option_bind_eq_Some)
  have s: "step_ok K l l1" by (rule step_queueSend [OF Cons.prems(1) q(1)])
  show ?case by (rule step_ok_trans [OF s Cons.IH [OF step_ok_tables [OF s] q(2)]])
qed

lemma step_handlePacket:
  assumes t: "tables_ok l" and r: "handlePacket E a (l, w) = Some ((l', w'), e)"
  shows "step_ok K l l'"
proof -
  obtain l1 p e1 w2 where l1: "(case ls_auth l of
        None \<Rightarrow> Some (l, pkAt w a, None)
      | Some am \<Rightarrow> map_option (\<lambda>(am', p, e). (l\<lparr>ls_auth := Some am'\<rparr>, p, e))
          (wrapData (le_crypto E) (w_config w) (le_now E) (le_rand E) (le_mem E) (le_mem2 E) am (pkAt w a))) = Some (l1, p, e1)"
    and q: "(if e1 = None then queueAll a (replyTargets E p l1) (l1, setPk a p w) else Some (l1, setPk a p w)) = Some (l', w2)"
    using r by (auto simp: handlePacket_def option_bind_eq_Some Let_def)
  have s1: "step_ok K l l1"
  proof (cases "ls_auth l")
    case None
    then show ?thesis using l1 step_ok_refl [OF t] by simp
  next
    case (Some am)
    then obtain am' q e where w: "wrapData (le_crypto E) (w_config w) (le_now E) (le_rand E) (le_mem E) (le_mem2 E) am (pkAt w a) = Some (am', q, e)"
      and l1': "l1 = l\<lparr>ls_auth := Some am'\<rparr>"
      using l1 by auto
    have "am_secret am' = am_secret am" using wrapData_am [OF w] by auto
    then show ?thesis using l1' t Some by (auto intro!: step_same simp: static_def)
  qed
  show ?thesis
    using q step_queueAll [OF step_ok_tables [OF s1]] s1 step_ok_trans [OF s1] by (auto split: if_splits)
qed

lemma step_sendJobs: "tables_ok l \<Longrightarrow> sendJobs wres n (l, w) = Some (l', w') \<Longrightarrow> step_ok K l l'"
  by (auto simp: sendJobs_def Let_def option_bind_eq_Some static_def step_ok_refl split: list.splits intro!: step_same)

lemma step_drain: "tables_ok l \<Longrightarrow> drainSendQueue (l, w) = Some (l', w') \<Longrightarrow> step_ok K l l'"
  by (auto simp: drainSendQueue_def option_bind_eq_Some static_def intro!: step_same)

section \<open>Runs\<close>

text \<open>
  The goroutines of the component as a sequence of their steps: a datagram received in a fresh packet,
  a packet handed in by another component, the cleanup of the receive loop, a step of the send loop, and stop.
\<close>

datatype listen_event =
    LRecv listen_env packet addr
  | LReply listen_env packet
  | LCleanup listen_env
  | LSend "nat option list" nat
  | LStop

definition allocPacket :: "packet \<Rightarrow> world \<Rightarrow> nat \<times> world" where
  "allocPacket p w = (length (w_heap w), w\<lparr>w_heap := w_heap w @ [p\<lparr>pk_count := 1\<rparr>], w_bufferRef := w_bufferRef w + 1\<rparr>)"

text \<open>The flag of a step tells that a datagram was routed.\<close>

fun listenStep :: "routing \<Rightarrow> listen_event \<Rightarrow> listen_world \<Rightarrow> (listen_world \<times> bool) option" where
  "listenStep rt (LRecv E p ad) (l, w) = do {
     let (a, w1) = allocPacket p w;
     ((l2, w2), ok) \<leftarrow> handleIncoming rt E a ad (l, w1);
     w3 \<leftarrow> refRelease a w2;
     Some ((l2, w3), ok)
   }"
| "listenStep rt (LReply E p) (l, w) = do {
     let (a, w1) = allocPacket p w;
     (lw, e) \<leftarrow> handlePacket E a (l, w1);
     Some (lw, False)
   }"
| "listenStep rt (LCleanup E) (l, w) = Some ((performCleanup E l, w), False)"
| "listenStep rt (LSend wres n) (l, w) = map_option (\<lambda>lw. (lw, False)) (sendJobs wres n (l, w))"
| "listenStep rt LStop (l, w) = map_option (\<lambda>lw. (lw, False)) (drainSendQueue (l\<lparr>ls_stopped := True\<rparr>, w))"

fun listenRun :: "routing \<Rightarrow> listen_event list \<Rightarrow> listen_world \<Rightarrow> (listen_world \<times> bool list) option" where
  "listenRun rt [] lw = Some (lw, [])"
| "listenRun rt (e # es) lw = do {
     (lw1, ok) \<leftarrow> listenStep rt e lw;
     (lw2, oks) \<leftarrow> listenRun rt es lw1;
     Some (lw2, ok # oks)
   }"

text \<open>
  A pass of \<open>handlePackets\<close>: clean up when half the timeout has passed since the last time, then take the
  datagrams of one read. It is a run of the steps above.
\<close>

fun receiveAll :: "routing \<Rightarrow> (listen_env \<times> packet \<times> addr) list \<Rightarrow> listen_world \<Rightarrow> listen_world option" where
  "receiveAll rt [] lw = Some lw"
| "receiveAll rt ((E, p, ad) # rs) (l, w) = do {
     let (a, w1) = allocPacket p w;
     ((l2, w2), ok) \<leftarrow> handleIncoming rt E a ad (l, w1);
     w3 \<leftarrow> refRelease a w2;
     receiveAll rt rs (l2, w3)
   }"

definition receivePass :: "routing \<Rightarrow> listen_env \<Rightarrow> gotime \<Rightarrow> (listen_env \<times> packet \<times> addr) list \<Rightarrow> listen_world
    \<Rightarrow> (listen_world \<times> gotime) option" where
  "receivePass rt E lastCleanup reads lw = (case lw of (l, w) \<Rightarrow>
     if ls_stopped l then Some ((l, w), lastCleanup)
     else
       (let due = (go_quot (ls_timeout l) 2 \<le> time_sub (le_now E) lastCleanup) in
        map_option (\<lambda>lw'. (lw', if due then le_now E else lastCleanup))
          (receiveAll rt reads (if due then performCleanup E l else l, w))))"

lemma receiveAll_run:
  "receiveAll rt rs lw = map_option fst (listenRun rt (map (\<lambda>(E, p, ad). LRecv E p ad) rs) lw)"
proof (induction rs arbitrary: lw)
  case (Cons r rs)
  obtain E p ad where "r = (E, p, ad)" by (cases r) auto
  moreover obtain l w where "lw = (l, w)" by (cases lw)
  ultimately show ?case
    by (auto simp: Cons.IH Let_def split: prod.split option.splits bind_split)
qed simp

lemma receivePass_run:
  assumes "receivePass rt E lastCleanup reads lw = Some (lw', t)"
  shows "\<exists>es oks. listenRun rt es lw = Some (lw', oks)
    \<and> set es \<subseteq> insert (LCleanup E) (set (map (\<lambda>(E, p, ad). LRecv E p ad) reads))"
proof -
  obtain l w where lw: "lw = (l, w)" by (cases lw)
  let ?rs = "map (\<lambda>(E, p, ad). LRecv E p ad) reads"
  show ?thesis
  proof (cases "ls_stopped l")
    case True
    then have "listenRun rt [] lw = Some (lw', [])" using assms lw by (simp add: receivePass_def)
    then show ?thesis by (intro exI [of _ "[]"]) auto
  next
    case False
    then consider "receiveAll rt reads (l, w) = Some lw'" | "receiveAll rt reads (performCleanup E l, w) = Some lw'"
      using assms lw by (auto simp: receivePass_def Let_def split: if_splits)
    then show ?thesis
    proof cases
      case 1
      then obtain oks where "listenRun rt ?rs lw = Some (lw', oks)" using lw by (auto simp: receiveAll_run)
      then show ?thesis by (intro exI [of _ ?rs] exI [of _ oks] conjI subset_insertI)
    next
      case 2
      then obtain oks where "listenRun rt ?rs (performCleanup E l, w) = Some (lw', oks)" by (auto simp: receiveAll_run)
      then have "listenRun rt (LCleanup E # ?rs) lw = Some (lw', False # oks)" using lw by simp
      then show ?thesis by (intro exI [of _ "LCleanup E # ?rs"] exI [of _ "False # oks"]) simp
    qed
  qed
qed

fun eventOk :: "crypto \<Rightarrow> listen_event \<Rightarrow> bool" where
  "eventOk cr (LRecv E p ad) \<longleftrightarrow> order_ok E \<and> le_crypto E = cr"
| "eventOk cr (LReply E p) \<longleftrightarrow> order_ok E \<and> le_crypto E = cr"
| "eventOk cr (LCleanup E) \<longleftrightarrow> order_ok E \<and> le_crypto E = cr"
| "eventOk cr _ \<longleftrightarrow> True"

text \<open>The sender of a datagram that proves the secret.\<close>

fun provenBy :: "crypto \<Rightarrow> bytes \<Rightarrow> listen_event \<Rightarrow> addr_key set" where
  "provenBy cr secret (LRecv E p ad) = (if provesSecret cr secret p then {addrKey ad} else {})"
| "provenBy cr secret _ = {}"

lemma provesSecret_count: "provesSecret cr s (p\<lparr>pk_count := n\<rparr>) = provesSecret cr s p"
  by (simp add: provesSecret_def bufAtOffset_def getData_def)

lemma pkAt_alloc: "allocPacket p w = (a, w1) \<Longrightarrow> pkAt w1 a = p\<lparr>pk_count := 1\<rparr>"
  by (auto simp: allocPacket_def pkAt_def)

lemma listenStep_ok:
  assumes t: "tables_ok l" and e: "eventOk cr e" and r: "listenStep rt e (l, w) = Some ((l', w'), ok)"
    and K: "\<And>am. ls_auth l = Some am \<Longrightarrow> provenBy cr (am_secret am) e \<subseteq> K"
  shows "step_ok K l l' \<and> (ok \<longrightarrow> (\<exists>E p ad. e = LRecv E p ad \<and> (ls_auth l \<noteq> None \<longrightarrow> addrKey ad \<in> authedKeys l)))"
proof (cases e)
  case (LRecv E p ad)
  obtain a w1 where a: "allocPacket p w = (a, w1)" by fastforce
  obtain w2 where ad: "admit E a ad (l, w1) = Some ((l', w2), ok)"
    using r LRecv a by (auto simp: handleIncoming_def option_bind_eq_Some)
  have "addrKey ad \<in> K" if "ls_auth l = Some am" "provesSecret (le_crypto E) (am_secret am) (pkAt w1 a)" for am
    using that K [OF that(1)] e LRecv by (auto simp: pkAt_alloc [OF a] provesSecret_count)
  then show ?thesis using admit_step [OF t _ ad] e LRecv by auto
next
  case (LReply E p)
  obtain a w1 where a: "allocPacket p w = (a, w1)" by fastforce
  then obtain e where "handlePacket E a (l, w1) = Some ((l', w'), e)" "\<not> ok"
    using r LReply by (auto simp: option_bind_eq_Some)
  then show ?thesis using step_handlePacket [OF t] by auto
next
  case (LCleanup E)
  then show ?thesis using r step_cleanup [OF t] e by auto
next
  case (LSend wres n)
  then show ?thesis using r step_sendJobs [OF t] by auto
next
  case LStop
  have s: "step_ok K l (l\<lparr>ls_stopped := True\<rparr>)" using t by (intro step_same) (auto simp: static_def)
  show ?thesis using r LStop step_drain [OF step_ok_tables [OF s]] step_ok_trans [OF s] by auto
qed

lemma listenRun_tables:
  "listenRun rt es (l, w) = Some ((l', w'), oks) \<Longrightarrow> tables_ok l \<Longrightarrow> \<forall>e \<in> set es. eventOk cr e
    \<Longrightarrow> tables_ok l' \<and> static l' = static l"
proof (induction es arbitrary: l w oks)
  case Nil
  then show ?case by simp
next
  case (Cons e es)
  then obtain l1 w1 ok oks1 where s: "listenStep rt e (l, w) = Some ((l1, w1), ok)" "listenRun rt es (l1, w1) = Some ((l', w'), oks1)"
    by (auto simp: option_bind_eq_Some)
  have "step_ok UNIV l l1" using listenStep_ok [OF Cons.prems(2) _ s(1), of cr UNIV] Cons.prems(3) by auto
  then show ?case using Cons.IH [OF s(2)] Cons.prems(3) by (auto simp: step_ok_def)
qed

lemma listenRun_secret:
  "listenRun rt es (l, w) = Some ((l', w'), oks) \<Longrightarrow> tables_ok l \<Longrightarrow> \<forall>e \<in> set es. eventOk cr e
    \<Longrightarrow> ls_auth l = Some am \<Longrightarrow> am_secret am = secret \<Longrightarrow> authedKeys l \<subseteq> K
    \<Longrightarrow> n < length es \<Longrightarrow> oks ! n
    \<Longrightarrow> \<exists>E p ad. es ! n = LRecv E p ad \<and> (addrKey ad \<in> K \<or> (\<exists>m < n. addrKey ad \<in> provenBy cr secret (es ! m)))"
proof (induction es arbitrary: l w oks n K am)
  case Nil
  then show ?case by simp
next
  case (Cons e es)
  then obtain l1 w1 ok oks1 where s: "listenStep rt e (l, w) = Some ((l1, w1), ok)" "listenRun rt es (l1, w1) = Some ((l', w'), oks1)"
    and oks: "oks = ok # oks1"
    by (auto simp: option_bind_eq_Some)
  let ?K = "K \<union> provenBy cr secret e"
  have st: "step_ok (provenBy cr secret e) l l1"
    "ok \<longrightarrow> (\<exists>E p ad. e = LRecv E p ad \<and> (ls_auth l \<noteq> None \<longrightarrow> addrKey ad \<in> authedKeys l))"
    using listenStep_ok [OF Cons.prems(2) _ s(1), of cr "provenBy cr secret e"] Cons.prems(3-5) by auto
  obtain am1 where am1: "ls_auth l1 = Some am1" "am_secret am1 = secret"
    using st(1) Cons.prems(4,5) by (cases "ls_auth l1") (auto simp: step_ok_def static_def)
  have ak: "authedKeys l1 \<subseteq> ?K" using st(1) Cons.prems(6) by (auto simp: step_ok_def)
  show ?case
  proof (cases n)
    case 0
    then show ?thesis using Cons.prems(4,6,8) st(2) oks by auto
  next
    case (Suc k)
    obtain E p ad where k: "es ! k = LRecv E p ad" "addrKey ad \<in> ?K \<or> (\<exists>m < k. addrKey ad \<in> provenBy cr secret (es ! m))"
      using Cons.IH [OF s(2) step_ok_tables [OF st(1)] _ am1 ak, of k] Cons.prems(3,7,8) Suc oks by auto
    have "addrKey ad \<in> K \<or> (\<exists>m < n. addrKey ad \<in> provenBy cr secret ((e # es) ! m))"
    proof (cases "addrKey ad \<in> K")
      case False
      then consider "addrKey ad \<in> provenBy cr secret e" | m where "m < k" "addrKey ad \<in> provenBy cr secret (es ! m)"
        using k(2) by auto
      then show ?thesis
      proof cases
        case 1
        then have "0 < n \<and> addrKey ad \<in> provenBy cr secret ((e # es) ! 0)" using Suc by simp
        then show ?thesis by blast
      next
        case (2 m)
        then have "Suc m < n \<and> addrKey ad \<in> provenBy cr secret ((e # es) ! Suc m)" using Suc by simp
        then show ?thesis by blast
      qed
    qed simp
    then show ?thesis using k(1) Suc by auto
  qed
qed

lemma listenRun_authed:
  "listenRun rt es (l, w) = Some ((l', w'), oks) \<Longrightarrow> tables_ok l \<Longrightarrow> \<forall>e \<in> set es. eventOk cr e
    \<Longrightarrow> ls_auth l = Some am \<Longrightarrow> am_secret am = secret
    \<Longrightarrow> authedKeys l' \<subseteq> authedKeys l \<union> (\<Union>e \<in> set es. provenBy cr secret e)"
proof (induction es arbitrary: l w oks am)
  case Nil
  then show ?case by simp
next
  case (Cons e es)
  then obtain l1 w1 ok oks1 where s: "listenStep rt e (l, w) = Some ((l1, w1), ok)" "listenRun rt es (l1, w1) = Some ((l', w'), oks1)"
    by (auto simp: option_bind_eq_Some)
  have st: "step_ok (provenBy cr secret e) l l1"
    using listenStep_ok [OF Cons.prems(2) _ s(1), of cr "provenBy cr secret e"] Cons.prems(3-5) by auto
  obtain am1 where am1: "ls_auth l1 = Some am1" "am_secret am1 = secret"
    using st Cons.prems(4,5) by (cases "ls_auth l1") (auto simp: step_ok_def static_def)
  have "authedKeys l' \<subseteq> authedKeys l1 \<union> (\<Union>e \<in> set es. provenBy cr secret e)"
    by (rule Cons.IH [OF s(2) step_ok_tables [OF st] _ am1]) (use Cons.prems(3) in simp)
  then show ?case using st by (auto simp: step_ok_def)
qed

lemma provenBy_event:
  "k \<in> provenBy cr secret e \<Longrightarrow> \<exists>E p ad. e = LRecv E p ad \<and> addrKey ad = k \<and> provesSecret cr secret p"
  by (cases e) (auto split: if_splits)

lemma newListen_tables: "tables_ok (newListen tag timeout ro detour bc pc c am st)"
  by (auto simp: newListen_def tables_ok_def Let_def index_ok_def)

lemma newListen_authed: "authedKeys (newListen tag timeout ro detour bc pc c am st) = {}"
  by (simp add: authedKeys_def newListen_def Let_def)

section \<open>The handshake\<close>

lemma challenge_frame:
  assumes full: "pk_full c p" and bytes: "pk_bytes p = challengeBytes cr secret t ch f pl ts"
    and laws: "hmac_laws cr" "length ch = 32" "t \<noteq> MsgTypeData"
  defines "h \<equiv> \<lparr>ph_version = ProtocolVersion, ph_msgType = t, ph_reserved = 0, ph_length = 88\<rparr>"
  shows "HeaderSize \<le> pk_length p" "unwrapData cr' c now m am p = Some \<lparr>ur_am = am, ur_packet = p, ur_header = Some h, ur_err = None\<rparr>"
    "\<exists>buf data. getData p = Some buf \<and> sl_range buf HeaderSize (uint (8 + ph_length h)) = Some data
      \<and> sl_data data = drop 8 (challengeBytes cr secret t ch f pl ts)"
proof -
  have wf: "pk_wf c p" using full by (simp add: pk_full_def)
  have mac: "length (challengeMAC cr s ch f pl x) = 32" for s x
    using laws by (simp add: challengeMAC_def hmac_laws_def)
  have n: "length (pk_bytes p) = 96" using laws mac by (simp add: bytes challengeBytes_def)
  then have len: "pk_length p = 96" using length_pk_bytes [OF wf] wf by (simp add: pk_wf_def)
  then show "HeaderSize \<le> pk_length p" by (simp add: HeaderSize_def)
  have fh: "frameHeader (pk_bytes p) = h" by (simp add: bytes challengeBytes_def frameHeader_bytes h_def)
  show "unwrapData cr' c now m am p = Some \<lparr>ur_am = am, ur_packet = p, ur_header = Some h, ur_err = None\<rparr>"
    using laws(3) by (simp add: unwrapData_full [OF full] fh Let_def len HeaderSize_def) (simp add: h_def)
  let ?mem = "drop (nat (pk_offset p)) (sl_mem (pk_buf p))"
  have g: "getData p = Some \<lparr>sl_mem = ?mem, sl_len = 96\<rparr>" using getData_wf [OF wf] len by simp
  have cap: "0 \<le> pk_offset p" "96 \<le> int (length (sl_mem (pk_buf p))) - pk_offset p"
    using wf len by (auto simp: pk_wf_def pool_mem_def)
  have "sl_range \<lparr>sl_mem = ?mem, sl_len = 96\<rparr> HeaderSize (uint (8 + ph_length h)) = Some \<lparr>sl_mem = drop 8 ?mem, sl_len = 88\<rparr>"
    using cap unfolding sl_range_def sl_cap_def h_def HeaderSize_def by simp
  moreover have "take 88 (drop 8 ?mem) = drop 8 (pk_bytes p)"
    by (simp add: pk_bytes_def len drop_take)
  ultimately show "\<exists>buf data. getData p = Some buf \<and> sl_range buf HeaderSize (uint (8 + ph_length h)) = Some data
      \<and> sl_data data = drop 8 (challengeBytes cr secret t ch f pl ts)"
    using g bytes by (auto simp: sl_data_def)
qed

lemma onChallenge_ok:
  assumes t: "tables_ok l" "order_ok E" and laws: "hmac_laws (le_crypto E)"
    and d: "sl_range buf HeaderSize (uint (8 + ph_length h)) = Some data"
      "sl_data data = drop 8 (challengeBytes (le_crypto E) (am_secret am) t' ch f pl ts)"
    and ch: "length ch = 32" "am_challengeCache am ch = None" "time_sub (le_now E) (timeOfMilli ts) \<le> am_authTimeout am"
    and resp: "le_rand E = Some ch'" "length ch' = 32" "96 \<le> length (le_mem E)"
    and udp: "ls_replaceOld l \<Longrightarrow> udpIP ad \<noteq> None \<and> (\<forall>(k, i) \<in> set (ls_mappings l). udpIP (lc_addr (connAt l i)) \<noteq> None)"
  shows "\<exists>l'. onChallenge E c h buf ad am l = Some l' \<and> addrKey ad \<in> authedKeys l'
    \<and> ls_sent l' = ls_sent l @ [(challengeBytes (le_crypto E) (am_secret am) MsgTypeAuthResponse ch' f pl (unixMilli (le_now E)), ad)]
    \<and> (ls_replaceOld l \<longrightarrow> (\<forall>(k, i) \<in> set (ls_mappings l'). udpIP (lc_addr (connAt l' i)) = udpIP ad \<longrightarrow> k = addrKey ad))
    \<and> (\<exists>am2. ls_auth l' = Some am2 \<and> activeKey am2 = activeKey am)"
proof -
  let ?k = "addrKey ad"
  define l1 where "l1 = (if map_of (ls_mappings l) ?k = None then addMapping E ad (Some False) l else l)"
  define am1 where "am1 = am\<lparr>am_challengeCache := (am_challengeCache am)(ch \<mapsto> le_now E), am_cleanupPending := True\<rparr>"
  have s1: "step_ok UNIV l l1"
    using step_add [OF t, of ad "Some False"] step_ok_refl [OF t(1)] by (auto simp: l1_def)
  note t1 = step_ok_tables [OF s1]
  have new: "map_of (ls_mappings l) ?k = None \<Longrightarrow> ls_mappings l1 = ls_mappings l @ [(?k, length (ls_conns l))]"
    using addMapping_spec(1) [OF t] by (simp add: l1_def)
  have "\<exists>i. map_of (ls_mappings l1) ?k = Some i"
  proof (cases "map_of (ls_mappings l) ?k")
    case None
    then show ?thesis using new by (simp add: map_add_def)
  next
    case (Some i)
    then show ?thesis by (simp add: l1_def)
  qed
  then obtain i where i: "map_of (ls_mappings l1) ?k = Some i" ..
  have p: "processAuthChallenge (le_crypto E) (le_now E) (sl_data data) am = (am1, Inr (f, pl))"
    unfolding am1_def by (rule processAuthChallenge_own [OF ch(1) laws d(2) ch(2,3)])
  let ?l2 = "l1\<lparr>ls_auth := Some am1\<rparr>"
  have t2: "tables_ok ?l2" using tables_cong [of ?l2 l1] t1 by (simp add: ids_def)
  have ro: "ls_replaceOld l1 = ls_replaceOld l" "ls_sent l1 = ls_sent l"
    using s1 by (simp_all add: step_ok_def static_def l1_def addMapping_def syncMapping_def Let_def)
  have udp1: "\<forall>(k, j) \<in> set (ls_mappings ?l2). udpIP (lc_addr (connAt ?l2 j)) \<noteq> None" if "ls_replaceOld l"
  proof (cases "map_of (ls_mappings l) ?k")
    case None
    note a = addMapping_spec [OF t None, of "Some False"]
    have l1: "l1 = addMapping E ad (Some False) l" using None by (simp add: l1_def)
    have "\<forall>(k, j) \<in> set (ls_mappings l). j < length (ls_conns l)" using t(1) by (auto simp: tables_ok_def)
    then have "lc_addr (connAt l1 j) = (if (k, j) \<in> set (ls_mappings l) then lc_addr (connAt l j) else ad)"
      if "(k, j) \<in> set (ls_mappings l1)" for k j
      using a(1,3,5) that unfolding l1 by auto
    then show ?thesis using udp [OF that] by (auto simp: connAt_def)
  next
    case (Some j)
    then show ?thesis using udp [OF that] by (simp add: l1_def connAt_def)
  qed
  define l3 where "l3 = (if ls_replaceOld l then dropAndSync E (\<lambda>k m. udpIP (lc_addr m) = udpIP ad \<and> \<not> k = ?k) ?l2 else ?l2)"
  have l3: "(if ls_replaceOld l1 then replaceOld E ad (\<lambda>k. k = ?k) ?l2 else Some ?l2) = Some l3"
    using udp udp1 by (fastforce simp: replaceOld_def l3_def ro)
  note dr = dropAndSync_spec [OF t2 t(2) on_view_ip [of "udpIP ad" "\<lambda>k. k = ?k"]]
  have v: "views l3 = views ?l2" "rest l3 = rest ?l2" using dr(2,3) by (simp_all add: l3_def)
  have i3: "(?k, i) \<in> set (ls_mappings l3)"
    using i dr(1) by (auto simp: l3_def dest: map_of_SomeD)
  let ?rb = "(full_slice (le_mem E))\<lparr>sl_mem := challengeBytes (le_crypto E) (am_secret am1) MsgTypeAuthResponse ch' f pl (unixMilli (le_now E)) @ drop 96 (le_mem E)\<rparr>"
  let ?am2 = "am1\<lparr>am_challengeCache := (am_challengeCache am1)(ch' \<mapsto> le_now E)\<rparr>"
  have c: "createAuthChallenge (le_crypto E) (le_now E) (le_rand E) MsgTypeAuthResponse f pl (full_slice (le_mem E)) am1
      = Some (?am2, ?rb, Inr 96)"
    using createAuthChallenge_bytes [OF _ _ resp(2) laws, of "full_slice (le_mem E)"] resp
    by (simp add: full_slice_def sl_wf_def sl_cap_def)
  let ?out = "challengeBytes (le_crypto E) (am_secret am1) MsgTypeAuthResponse ch' f pl (unixMilli (le_now E))"
  have n: "length ?out = 96" using resp(2) laws by (simp add: challengeBytes_def challengeMAC_def hmac_laws_def)
  have o: "sl_range ?rb 0 96 = Some \<lparr>sl_mem = sl_mem ?rb, sl_len = 96\<rparr>" by (simp add: sl_range_def sl_cap_def n)
  let ?m = "(connAt l3 i)\<lparr>lc_auth := Some True, lc_lastActive := le_now E\<rparr>"
  let ?l4 = "l3\<lparr>ls_auth := Some ?am2, ls_sent := ls_sent l3 @ [(take 96 (?out @ drop 96 (le_mem E)), ad)]\<rparr>"
  have r: "onChallenge E c h buf ad am l = Some (setConn i ?m ?l4)"
    unfolding onChallenge_def Let_def l1_def [symmetric] i d(1)
    using l3 p c o by (simp add: sl_data_def)
  have n3: "i < length (ls_conns l3)" using tables_key [OF t1 i] views_length [OF v(1)] by simp
  have at: "connAt (setConn i ?m ?l4) j = (if j = i then ?m else connAt l3 j)" for j
    using n3 by (auto simp: connAt_def setConn_def)
  have "?k \<in> authedKeys (setConn i ?m ?l4)"
    using i3 at by (auto simp: authedKeys_def setConn_def lcAuthed_def)
  moreover have "ls_sent (setConn i ?m ?l4) = ls_sent l @ [(?out, ad)]"
    using v(2) n ro(2) by (simp add: setConn_def rest_def)
  moreover have "k = ?k" if "ls_replaceOld l" "(k, j) \<in> set (ls_mappings (setConn i ?m ?l4))"
      "udpIP (lc_addr (connAt (setConn i ?m ?l4) j)) = udpIP ad" for k j
  proof -
    have kj: "(k, j) \<in> set (ls_mappings l3)" using that(2) by (simp add: setConn_def)
    then have q: "(k, j) \<in> set (ls_mappings ?l2)" "\<not> (udpIP (lc_addr (connAt ?l2 j)) = udpIP ad \<and> k \<noteq> ?k)"
      using dr(1) that(1) by (auto simp: l3_def)
    have "j < length (ls_conns ?l2)" using q(1) t2 by (auto simp: tables_ok_def)
    then have "lc_addr (connAt l3 j) = lc_addr (connAt ?l2 j)" by (rule views_addr [OF v(1)])
    then show ?thesis using that(3) q(2) unfolding at by (auto split: if_splits)
  qed
  moreover have "am_secret am1 = am_secret am" by (simp add: am1_def)
  moreover have "ls_auth (setConn i ?m ?l4) = Some ?am2" "activeKey ?am2 = activeKey am"
    by (simp_all add: setConn_def am1_def activeKey_def)
  ultimately show ?thesis using r by auto
qed

text \<open>A datagram that unwraps to data of an authenticated client goes on with its payload.\<close>

lemma admit_data:
  assumes "tables_ok l" "ls_auth l = Some am" "addrKey ad \<in> authedKeys l" "HeaderSize \<le> pk_length (pkAt w a)"
    and "unwrapData (le_crypto E) (w_config w) (le_now E) (le_mem2 E) am (pkAt w a) = Some r"
    and "ur_err r = None" "ur_header r = Some h" "ph_msgType h = MsgTypeData" "a < length (w_heap w)"
  shows "\<exists>l' w' cid. admit E a ad (l, w) = Some ((l', w'), True) \<and> step_ok {} l l'
    \<and> pkAt w' a = (ur_packet r)\<lparr>pk_connID := cid, pk_srcAddr := Some ad\<rparr>
    \<and> (\<not> ls_preserve l \<longrightarrow> (\<exists>i. map_of (ls_mappings l) (addrKey ad) = Some i \<and> cid = lc_connID (connAt l i)))"
proof -
  obtain i where i: "map_of (ls_mappings l) (addrKey ad) = Some i" "lcAuthed (connAt l i)"
    using assms(1,3) by (auto simp: authedKeys_def tables_ok_def)
  let ?l1 = "l\<lparr>ls_auth := Some (ur_am r)\<rparr>"
  have at: "connAt ?l1 i = connAt l i" by (simp add: connAt_def)
  have s: "step_ok {} l ?l1"
    using assms(1,2) unwrapData_am [OF assms(5)] by (auto intro!: step_same simp: static_def)
  have s2: "step_ok {} l (touchConn (le_now E) i ?l1)" by (rule step_ok_trans [OF s step_touch [OF step_ok_tables [OF s]]])
  define cid where "cid = (if \<not> ls_preserve l \<or> pk_connID (ur_packet r) = 0
      then lc_connID (connAt l i) else pk_connID (ur_packet r))"
  let ?q = "(ur_packet r)\<lparr>pk_connID := cid\<rparr>"
  have q: "(if \<not> ls_preserve l \<or> pk_connID (ur_packet r) = 0
      then (ur_packet r)\<lparr>pk_connID := lc_connID (connAt l i)\<rparr> else ur_packet r) = ?q" by (simp add: cid_def)
  let ?w1 = "setPk a ?q (setPk a (ur_packet r) w)"
  have "admit E a ad (l, w) = Some ((touchConn (le_now E) i ?l1, setPk a ((pkAt ?w1 a)\<lparr>pk_srcAddr := Some ad\<rparr>) ?w1), True)"
    unfolding q [symmetric] using assms(2,4-8) i at by (simp add: admit_def admitAuth_def Let_def)
  moreover have "pkAt (setPk a ((pkAt ?w1 a)\<lparr>pk_srcAddr := Some ad\<rparr>) ?w1) a
      = (ur_packet r)\<lparr>pk_connID := cid, pk_srcAddr := Some ad\<rparr>"
    using assms(9) by (simp add: pkAt_setPk)
  moreover have "\<not> ls_preserve l \<longrightarrow> (\<exists>i. map_of (ls_mappings l) (addrKey ad) = Some i \<and> cid = lc_connID (connAt l i))"
    using i(1) by (auto simp: cid_def)
  ultimately show ?thesis using s2 by blast
qed

lemma handshake_ok:
  assumes t: "tables_ok l" "order_ok E" and am: "ls_auth l = Some am" and laws: "hmac_laws (le_crypto E)"
    and p: "pk_full (w_config w) (pkAt w a)"
      "pk_bytes (pkAt w a) = challengeBytes (le_crypto E) (am_secret am) MsgTypeAuthChallenge ch f pl ts"
    and ch: "length ch = 32" "am_challengeCache am ch = None" "time_sub (le_now E) (timeOfMilli ts) \<le> am_authTimeout am"
    and resp: "le_rand E = Some ch'" "length ch' = 32" "96 \<le> length (le_mem E)"
    and udp: "ls_replaceOld l \<Longrightarrow> udpIP ad \<noteq> None \<and> (\<forall>(k, i) \<in> set (ls_mappings l). udpIP (lc_addr (connAt l i)) \<noteq> None)"
  shows "\<exists>l'. handleIncoming rt E a ad (l, w) = Some ((l', w), False) \<and> addrKey ad \<in> authedKeys l'
    \<and> ls_sent l' = ls_sent l @ [(challengeBytes (le_crypto E) (am_secret am) MsgTypeAuthResponse ch' f pl (unixMilli (le_now E)), ad)]
    \<and> (ls_replaceOld l \<longrightarrow> (\<forall>(k, i) \<in> set (ls_mappings l'). udpIP (lc_addr (connAt l' i)) = udpIP ad \<longrightarrow> k = addrKey ad))
    \<and> (\<exists>am2. ls_auth l' = Some am2 \<and> activeKey am2 = activeKey am)"
proof -
  let ?h = "\<lparr>ph_version = ProtocolVersion, ph_msgType = MsgTypeAuthChallenge, ph_reserved = 0, ph_length = 88\<rparr>"
  let ?msg = "challengeBytes (le_crypto E) (am_secret am) MsgTypeAuthResponse ch' f pl (unixMilli (le_now E))"
  have nd: "MsgTypeAuthChallenge \<noteq> MsgTypeData" by (simp add: auth_consts)
  note fr = challenge_frame [OF p laws ch(1) nd]
  obtain buf data where d: "getData (pkAt w a) = Some buf" "sl_range buf HeaderSize (uint (8 + ph_length ?h)) = Some data"
      "sl_data data = drop 8 (challengeBytes (le_crypto E) (am_secret am) MsgTypeAuthChallenge ch f pl ts)"
    using fr(3) by blast
  let ?l1 = "l\<lparr>ls_auth := Some am\<rparr>"
  have l1: "?l1 = l" using am by simp
  obtain l' where l': "onChallenge E (w_config w) ?h buf ad am l = Some l'" "addrKey ad \<in> authedKeys l'"
      "ls_sent l' = ls_sent l @ [(?msg, ad)]"
      "ls_replaceOld l \<longrightarrow> (\<forall>(k, i) \<in> set (ls_mappings l'). udpIP (lc_addr (connAt l' i)) = udpIP ad \<longrightarrow> k = addrKey ad)"
      "\<exists>am2. ls_auth l' = Some am2 \<and> activeKey am2 = activeKey am"
    using onChallenge_ok [OF t laws d(2,3) ch resp udp] by blast
  have "handleAuthMessage E ?h buf ad am (?l1, setPk a (pkAt w a) w) = Some (l', setPk a (pkAt w a) w)"
    unfolding l1 using l'(1) by (simp add: handleAuthMessage_def)
  then have "handleIncoming rt E a ad (l, w) = Some ((l', setPk a (pkAt w a) w), False)"
    using am fr(1,2) d(1) nd by (simp add: handleIncoming_def admit_def admitAuth_def Let_def)
  moreover have "setPk a (pkAt w a) w = w" by (simp add: setPk_def pkAt_def)
  ultimately show ?thesis using l' by auto
qed

section \<open>An example\<close>

definition demoAddr :: "int \<Rightarrow> addr" where
  "demoAddr port = UDPAddr [10, 0, 0, 1] port []"

definition demoListenEnv :: "gotime \<Rightarrow> conn_id \<Rightarrow> listen_env" where
  "demoListenEnv now c = \<lparr>le_crypto = demoCrypto, le_floats = exact_floats, le_now = now, le_rand = Some (replicate 32 7),
     le_mem = replicate 164 0, le_mem2 = replicate 164 0, le_connID = c, le_order = rev\<rparr>"

definition demoHmacChallenge :: packet where
  "demoHmacChallenge = received demoConfig (challengeBytes demoCrypto (am_secret (demoManager False []))
     MsgTypeAuthChallenge (replicate 32 9) 11 22 5)"

definition demoData :: packet where
  "demoData = received demoConfig (plainFrame 3 [65, 66])"

definition demoHb :: hb_stats where
  "demoHb = \<lparr>hs_lastSent = 0, hs_sentBuckets = [], hs_lostBuckets = []\<rparr>"

definition demoListen :: "auth_manager option \<Rightarrow> bool \<Rightarrow> listen" where
  "demoListen am bc = newListen ''in'' 0 False [''out''] (Some bc) False demoConfig am demoHb"

definition demoListenWorld :: world where
  "demoListenWorld = \<lparr>w_config = demoConfig, w_comps = (\<lambda>_. None), w_heap = [], w_put = [], w_bufferRef = 0, w_held = []\<rparr>"

definition demoEvents :: "listen_event list" where
  "demoEvents = [LRecv (demoListenEnv 6000000 1) demoHmacChallenge (demoAddr 9), LRecv (demoListenEnv 7000000 2) demoData (demoAddr 9)]"

lemma refRelease_wf:
  assumes "pk_wf (w_config w) (pkAt w a)"
  shows "\<exists>w'. refRelease a w = Some w' \<and> w_config w' = w_config w \<and> length (w_heap w') = length (w_heap w)"
proof -
  have "putBuffer (w_config w) (pk_buf (pkAt w a)) \<noteq> None" using assms by (intro putBuffer_pool) (auto simp: pk_wf_def)
  then obtain s where "putBuffer (w_config w) (pk_buf (pkAt w a)) = Some s" by blast
  then show ?thesis by (auto simp: refRelease_def release_def Let_def)
qed

lemma step_recv:
  assumes "allocPacket p w = (a, w1)" "handleIncoming rt E a ad (l, w1) = Some ((l2, w2), ok)" "pk_wf (w_config w2) (pkAt w2 a)"
  shows "\<exists>w3. listenStep rt (LRecv E p ad) (l, w) = Some ((l2, w3), ok) \<and> w_config w3 = w_config w2"
  using assms refRelease_wf [OF assms(3)] by auto

lemma demo_packets:
  "pk_full demoConfig (demoHmacChallenge\<lparr>pk_count := n\<rparr>)" "pk_full demoConfig (demoData\<lparr>pk_count := n\<rparr>)"
  "pk_bytes (demoHmacChallenge\<lparr>pk_count := n\<rparr>) = challengeBytes demoCrypto (am_secret (demoManager False []))
     MsgTypeAuthChallenge (replicate 32 9) 11 22 5"
  "pk_bytes (demoData\<lparr>pk_count := n\<rparr>) = plainFrame 3 [65, 66]"
proof -
  have c: "pk_full c (p\<lparr>pk_count := n\<rparr>) = pk_full c p" "pk_bytes (p\<lparr>pk_count := n\<rparr>) = pk_bytes p" for c p
    by (simp_all add: pk_full_def pk_wf_def pk_bytes_def)
  have l1: "length (challengeBytes demoCrypto s t (replicate 32 9) f pl ts) = 96" for s t f pl ts
    by (simp add: challengeBytes_def challengeMAC_def demoCrypto_def)
  have l2: "length (plainFrame 3 [65, 66]) = 18" by (simp add: plainFrame_def)
  show "pk_full demoConfig (demoHmacChallenge\<lparr>pk_count := n\<rparr>)" "pk_full demoConfig (demoData\<lparr>pk_count := n\<rparr>)"
    "pk_bytes (demoHmacChallenge\<lparr>pk_count := n\<rparr>) = challengeBytes demoCrypto (am_secret (demoManager False []))
     MsgTypeAuthChallenge (replicate 32 9) 11 22 5"
    "pk_bytes (demoData\<lparr>pk_count := n\<rparr>) = plainFrame 3 [65, 66]"
    unfolding c using received_full l1 l2 by (simp_all add: demoHmacChallenge_def demoData_def)
qed

lemma demo_secret_run:
  "\<exists>lw. listenRun (\<lambda>a ts w. Some w) demoEvents (demoListen (Some (demoManager False [])) False, demoListenWorld) = Some (lw, [False, True])"
proof -
  let ?rt = "\<lambda>a ts w. Some w :: world option"
  let ?l = "demoListen (Some (demoManager False [])) False"
  let ?E = "demoListenEnv 6000000 1" and ?E2 = "demoListenEnv 7000000 2"
  define w1 where "w1 = snd (allocPacket demoHmacChallenge demoListenWorld)"
  have a1: "allocPacket demoHmacChallenge demoListenWorld = (0, w1)" "w_config w1 = demoConfig"
    by (simp_all add: w1_def allocPacket_def demoListenWorld_def)
  have p1: "pkAt w1 0 = demoHmacChallenge\<lparr>pk_count := 1\<rparr>" by (rule pkAt_alloc [OF a1(1)])
  have t: "tables_ok ?l" "order_ok ?E" "order_ok ?E2" "ls_auth ?l = Some (demoManager False [])" "ls_replaceOld ?l = False"
    unfolding demoListen_def
    by (rule newListen_tables) (simp_all add: order_ok_def demoListenEnv_def newListen_def Let_def)
  have "\<exists>l'. handleIncoming ?rt ?E 0 (demoAddr 9) (?l, w1) = Some ((l', w1), False) \<and> addrKey (demoAddr 9) \<in> authedKeys l'
    \<and> ls_sent l' = ls_sent ?l @ [(challengeBytes (le_crypto ?E) (am_secret (demoManager False [])) MsgTypeAuthResponse
          (replicate 32 7) 11 22 (unixMilli (le_now ?E)), demoAddr 9)]
    \<and> (ls_replaceOld ?l \<longrightarrow> (\<forall>(k, i) \<in> set (ls_mappings l'). udpIP (lc_addr (connAt l' i)) = udpIP (demoAddr 9) \<longrightarrow> k = addrKey (demoAddr 9)))
    \<and> (\<exists>am2. ls_auth l' = Some am2 \<and> activeKey am2 = activeKey (demoManager False []))"
    by (rule handshake_ok [OF t(1,2,4), where ch' = "replicate 32 7" and ch = "replicate 32 9" and ts = 5])
      (simp_all add: p1 a1 demo_packets t(5) demo_manager demo_laws demoListenEnv_def unixMilli_def ns_milli_def timeOfMilli_def time_sub_def
        DefaultAuthTimeout_def ns_second_def min_i64_def max_i64_def)
  then obtain l2 am2 where s1: "handleIncoming ?rt ?E 0 (demoAddr 9) (?l, w1) = Some ((l2, w1), False)"
    "addrKey (demoAddr 9) \<in> authedKeys l2" "ls_auth l2 = Some am2" "activeKey am2 = None"
    by (auto simp: demo_manager)
  have "admit ?E 0 (demoAddr 9) (?l, w1) = Some ((l2, w1), False)"
    using s1(1) by (auto simp: handleIncoming_def option_bind_eq_Some)
  then have t2: "tables_ok l2" using admit_step [OF t(1,2), of 0 "demoAddr 9" w1 l2 w1 False UNIV] by (simp add: step_ok_def)
  obtain w2 where w2: "listenStep ?rt (LRecv ?E demoHmacChallenge (demoAddr 9)) (?l, demoListenWorld) = Some ((l2, w2), False)"
      "w_config w2 = demoConfig"
    using step_recv [OF a1(1) s1(1)] demo_packets(1) a1(2) p1 by (auto simp: pk_full_def)
  obtain a w3 where a3: "allocPacket demoData w2 = (a, w3)" by fastforce
  then have c3: "w_config w3 = demoConfig" "a < length (w_heap w3)" using w2(2) by (auto simp: allocPacket_def)
  have p3: "pkAt w3 a = demoData\<lparr>pk_count := 1\<rparr>" by (rule pkAt_alloc [OF a3])
  have full: "pk_full (w_config w3) (pkAt w3 a)" "pk_bytes (pkAt w3 a) = plainFrame 3 [65, 66]"
    using demo_packets by (simp_all add: p3 c3)
  obtain r where r: "unwrapData demoCrypto demoConfig 7000000 (replicate 164 0) am2 (pkAt w3 a) = Some r" "ur_err r = None"
      "pk_wf demoConfig (ur_packet r)"
    using unwrap_plainFrame [OF full s1(4)] c3 by fastforce
  have h: "ur_header r = Some (frameHeader (plainFrame 3 [65, 66]))" "HeaderSize \<le> pk_length (pkAt w3 a)"
    using unwrapData_header [OF full(1) _ r(2)] r(1) c3(1) full(2) p3 by (auto simp: demoData_def received_def plainFrame_def HeaderSize_def)
  have d: "ph_msgType (frameHeader (plainFrame 3 [65, 66])) = MsgTypeData" by (simp add: plainFrame_def frameHeader_bytes)
  obtain l4 w4 cid where ad: "admit ?E2 a (demoAddr 9) (l2, w3) = Some ((l4, w4), True)"
      "pkAt w4 a = (ur_packet r)\<lparr>pk_connID := cid, pk_srcAddr := Some (demoAddr 9)\<rparr>"
    using admit_data [OF t2 s1(3,2) h(2) _ r(2) h(1) d c3(2), of ?E2] r(1) c3(1) by (auto simp: demoListenEnv_def)
  have "w_config w4 = demoConfig"
    using ad(1) s1(3) c3(1) r(1,2) h d by (auto simp: admit_def admitAuth_def Let_def demoListenEnv_def split: option.splits if_splits)
  then have "pk_wf (w_config w4) (pkAt w4 a)" using r(3) by (simp add: ad(2) pk_wf_def)
  moreover have "handleIncoming ?rt ?E2 a (demoAddr 9) (l2, w3) = Some ((l4, w4), True)"
    using ad(1) by (simp add: handleIncoming_def)
  ultimately obtain w5 where "listenStep ?rt (LRecv ?E2 demoData (demoAddr 9)) (l2, w2) = Some ((l4, w5), True)"
    using step_recv [OF a3] by blast
  then show ?thesis using w2(1) by (simp add: demoEvents_def)
qed

section \<open>Properties\<close>

text \<open>C3. Only clients that proved the shared secret get data through: in every run of a listener with
  authentication, when a datagram is routed, an earlier datagram from the same address was an
  authentication challenge with a message authentication code made with the listener's secret; and
  after the run every address whose mapping counts as authenticated has sent such a challenge.\<close>

theorem listen_needs_secret:
  assumes "listenRun rt es (newListen tag timeout ro detour bc pc c (Some am) st, w) = Some ((l', w'), oks)"
    and "\<forall>e \<in> set es. eventOk cr e"
  shows "(\<forall>n. n < length es \<and> oks ! n \<longrightarrow> (\<exists>E p ad m E' p' ad'. es ! n = LRecv E p ad \<and> m < n \<and> es ! m = LRecv E' p' ad'
        \<and> addrKey ad' = addrKey ad \<and> provesSecret cr (am_secret am) p'))
    \<and> (\<forall>k i. (k, i) \<in> set (ls_mappings l') \<and> lcAuthed (connAt l' i) \<longrightarrow>
        (\<exists>E p ad. LRecv E p ad \<in> set es \<and> addrKey ad = k \<and> provesSecret cr (am_secret am) p))"
proof (intro conjI allI impI)
  let ?l = "newListen tag timeout ro detour bc pc c (Some am) st"
  have a: "ls_auth ?l = Some am" by (simp add: newListen_def Let_def)
  show "\<exists>E p ad m E' p' ad'. es ! n = LRecv E p ad \<and> m < n \<and> es ! m = LRecv E' p' ad'
      \<and> addrKey ad' = addrKey ad \<and> provesSecret cr (am_secret am) p'" if n: "n < length es \<and> oks ! n" for n
  proof -
    obtain E p ad where e: "es ! n = LRecv E p ad" "\<exists>m < n. addrKey ad \<in> provenBy cr (am_secret am) (es ! m)"
      using listenRun_secret [OF assms(1) newListen_tables assms(2) a refl _ conjunct1 [OF n] conjunct2 [OF n], of "{}"]
      by (auto simp: newListen_authed)
    then obtain m where "m < n" "addrKey ad \<in> provenBy cr (am_secret am) (es ! m)" by blast
    then show ?thesis using e(1) provenBy_event by metis
  qed
  show "\<exists>E p ad. LRecv E p ad \<in> set es \<and> addrKey ad = k \<and> provesSecret cr (am_secret am) p"
    if ki: "(k, i) \<in> set (ls_mappings l') \<and> lcAuthed (connAt l' i)" for k i
  proof -
    have "k \<in> authedKeys l'" using ki by (auto simp: authedKeys_def)
    then have "\<exists>e \<in> set es. k \<in> provenBy cr (am_secret am) e"
      using listenRun_authed [OF assms(1) newListen_tables assms(2) a refl] newListen_authed by auto
    then show ?thesis using provenBy_event by metis
  qed
qed

text \<open>In the witness an address proves the secret and then sends data, which is routed.\<close>

theorem listen_needs_secret_witness:
  "\<exists>l' w'. listenRun (\<lambda>a ts w. Some w) demoEvents (demoListen (Some (demoManager False [])) False, demoListenWorld)
      = Some ((l', w'), [False, True])
    \<and> (\<exists>m < 1. \<exists>E p ad. demoEvents ! m = LRecv E p ad \<and> addrKey ad = addrKey (demoAddr 9)
         \<and> provesSecret demoCrypto (am_secret (demoManager False [])) p)"
proof -
  obtain l' w' where r: "listenRun (\<lambda>a ts w. Some w) demoEvents (demoListen (Some (demoManager False [])) False, demoListenWorld)
      = Some ((l', w'), [False, True])"
    using demo_secret_run by (metis surj_pair)
  have "\<forall>e \<in> set demoEvents. eventOk demoCrypto e"
    by (simp add: demoEvents_def demoListenEnv_def order_ok_def)
  from listen_needs_secret [OF r [unfolded demoListen_def] this, THEN conjunct1, rule_format, of 1] r show ?thesis
    by (auto simp: demoEvents_def)
qed

text \<open>C7. The tables of the listener agree after every run: the published snapshot is the mapping
  table, every mapping is filed under its own address, and the index by connection id that
  replies use without broadcast finds, for every id, exactly a mapping with that id when there is one.\<close>

theorem listen_tables_agree:
  assumes "listenRun rt es (newListen tag timeout ro detour bc pc c am st, w) = Some ((l, w'), oks)"
    and "\<forall>e \<in> set es. eventOk cr e"
  shows "ls_snapshot l = ls_mappings l \<and> distinct (map fst (ls_mappings l))
    \<and> (\<forall>k i. map_of (ls_mappings l) k = Some i \<longrightarrow> addrKey (lc_addr (connAt l i)) = k)
    \<and> (\<forall>idx cid. ls_index l = Some idx \<longrightarrow>
        (\<forall>i. map_of idx cid = Some i \<longrightarrow> i \<in> snd ` set (ls_mappings l) \<and> lc_connID (connAt l i) = cid)
        \<and> ((\<exists>i \<in> snd ` set (ls_mappings l). lc_connID (connAt l i) = cid) \<longrightarrow> map_of idx cid \<noteq> None))"
proof -
  have t: "tables_ok l" using listenRun_tables [OF assms(1) newListen_tables assms(2)] by simp
  have idx: "index_ok (connIdOf l) (ls_mappings l) idx" if "ls_index l = Some idx" for idx
    using t that unfolding tables_ok_def by (cases "ls_broadcast l") simp_all
  have "\<forall>k i. map_of (ls_mappings l) k = Some i \<longrightarrow> addrKey (lc_addr (connAt l i)) = k"
    using tables_key [OF t] by blast
  then show ?thesis
    using t idx unfolding tables_ok_def index_ok_def connIdOf_def by blast
qed

theorem listen_tables_agree_witness:
  "\<exists>l w oks. listenRun (\<lambda>a ts w. Some w) demoEvents (demoListen (Some (demoManager False [])) False, demoListenWorld) = Some ((l, w), oks)
     \<and> ls_snapshot l = ls_mappings l"
proof -
  obtain l w where r: "listenRun (\<lambda>a ts w. Some w) demoEvents (demoListen (Some (demoManager False [])) False, demoListenWorld)
      = Some ((l, w), [False, True])"
    using demo_secret_run by (metis surj_pair)
  have "\<forall>e \<in> set demoEvents. eventOk demoCrypto e"
    by (simp add: demoEvents_def demoListenEnv_def order_ok_def)
  then show ?thesis using listen_tables_agree [OF r [unfolded demoListen_def]] r by blast
qed

text \<open>C21. The cleanup forgets exactly the silent clients, in whatever order it ranges over the map:
  afterwards a mapping is there, and in the published snapshot, if it was there before and its last activity
  is within the timeout.\<close>

theorem listen_cleanup_exact:
  assumes "tables_ok l" "order_ok E"
  shows "(map_of (ls_mappings (performCleanup E l)) k = Some i \<longleftrightarrow>
      map_of (ls_mappings l) k = Some i \<and> time_sub (le_now E) (lc_lastActive (connAt l i)) \<le> ls_timeout l)
    \<and> ls_snapshot (performCleanup E l) = ls_mappings (performCleanup E l)"
proof -
  note s = dropAndSync_spec [OF assms on_view_idle [of "ls_timeout l" "le_now E"]]
  have d: "distinct (map fst (ls_mappings l))" using assms(1) by (simp add: tables_ok_def)
  have d': "distinct (map fst (ls_mappings (performCleanup E l)))" using s(4) by (simp add: performCleanup_def tables_ok_def)
  have "map_of (ls_mappings (performCleanup E l)) k = Some i \<longleftrightarrow>
      map_of (ls_mappings l) k = Some i \<and> time_sub (le_now E) (lc_lastActive (connAt l i)) \<le> ls_timeout l"
    using d d' by (auto simp: performCleanup_def s(1))
  then show ?thesis using s(4) by (simp add: performCleanup_def tables_ok_def)
qed

theorem listen_cleanup_exact_witness:
  "map_of (ls_mappings (performCleanup (demoListenEnv (121 * ns_second) 0)
     (addMapping (demoListenEnv 0 5) (demoAddr 9) None (demoListen None False)))) (addrKey (demoAddr 9)) = None"
proof -
  let ?E = "demoListenEnv 0 5" and ?E2 = "demoListenEnv (121 * ns_second) 0"
  let ?l = "addMapping ?E (demoAddr 9) None (demoListen None False)"
  have o: "order_ok ?E" "order_ok ?E2" by (simp_all add: order_ok_def demoListenEnv_def)
  have t: "tables_ok (demoListen None False)" "map_of (ls_mappings (demoListen None False)) (addrKey (demoAddr 9)) = None"
    unfolding demoListen_def by (rule newListen_tables) (simp add: newListen_def Let_def)
  note a = addMapping_spec [OF t(1) o(1) t(2), of None]
  have l: "?l = syncMapping ?E (demoListen None False\<lparr>ls_conns := [\<lparr>lc_addr = demoAddr 9, lc_lastActive = 0, lc_auth = None,
      lc_connID = 5, lc_hb = empty_hb_tracker\<rparr>], ls_mappings := [(addrKey (demoAddr 9), 0)]\<rparr>)"
    by (simp add: addMapping_def Let_def demoListenEnv_def demoListen_def newListen_def)
  have m: "ls_mappings ?l = [(addrKey (demoAddr 9), 0)]" "lc_lastActive (connAt ?l 0) = 0" "ls_timeout ?l = 120 * ns_second"
    unfolding l by (simp_all add: connAt_def syncMapping_def demoListen_def newListen_def Let_def)
  have "map_of (ls_mappings (performCleanup ?E2 ?l)) (addrKey (demoAddr 9)) \<noteq> Some i" for i
    using listen_cleanup_exact [OF a(2) o(2), of "addrKey (demoAddr 9)" i] m
    by (auto simp: demoListenEnv_def time_sub_def ns_second_def min_i64_def max_i64_def split: if_splits)
  then show ?thesis by (cases "map_of (ls_mappings (performCleanup ?E2 ?l)) (addrKey (demoAddr 9))") auto
qed

lemma at_touch:
  "i < length (ls_conns l) \<Longrightarrow> connAt (touchConn now i l) i = (connAt l i)\<lparr>lc_lastActive := now\<rparr>"
  "ls_mappings (touchConn now i l) = ls_mappings l" "ls_auth (touchConn now i l) = ls_auth l"
  by (simp_all add: touchConn_def setConn_def connAt_def)

lemma admitAuth_ok:
  assumes r: "admitAuth E a ad am (l, w) = Some ((l', w'), True)"
  shows "\<exists>u i. unwrapData (le_crypto E) (w_config w) (le_now E) (le_mem2 E) am (pkAt w a) = Some u
    \<and> map_of (ls_mappings l) (addrKey ad) = Some i \<and> lcAuthed (connAt l i)
    \<and> l' = touchConn (le_now E) i (l\<lparr>ls_auth := Some (ur_am u)\<rparr>)
    \<and> w' = setPk a (if \<not> ls_preserve l \<or> pk_connID (ur_packet u) = 0
          then (ur_packet u)\<lparr>pk_connID := lc_connID (connAt l i)\<rparr> else ur_packet u) (setPk a (ur_packet u) w)"
proof -
  have n: "\<not> pk_length (pkAt w a) < HeaderSize" using r by (auto simp: admitAuth_def)
  then obtain u where u: "unwrapData (le_crypto E) (w_config w) (le_now E) (le_mem2 E) am (pkAt w a) = Some u"
    using r by (auto simp: admitAuth_def Let_def option_bind_eq_Some)
  define l1 where "l1 = l\<lparr>ls_auth := Some (ur_am u)\<rparr>"
  have r1: "(case (ur_err u, ur_header u) of
           (Some e, _) \<Rightarrow> Some ((l1, setPk a (ur_packet u) w), False)
         | (None, None) \<Rightarrow> None
         | (None, Some h) \<Rightarrow>
             if ph_msgType h \<noteq> MsgTypeData then do {
               buf \<leftarrow> getData (ur_packet u);
               lw' \<leftarrow> handleAuthMessage E h buf ad (ur_am u) (l1, setPk a (ur_packet u) w);
               Some (lw', False)
             }
             else (case map_of (ls_mappings l1) (addrKey ad) of
                     None \<Rightarrow> Some ((l1, setPk a (ur_packet u) w), False)
                   | Some i \<Rightarrow>
                       if \<not> lcAuthed (connAt l1 i) then Some ((l1, setPk a (ur_packet u) w), False)
                       else Some ((touchConn (le_now E) i l1, setPk a (if \<not> ls_preserve l \<or> pk_connID (ur_packet u) = 0
                                  then (ur_packet u)\<lparr>pk_connID := lc_connID (connAt l1 i)\<rparr> else ur_packet u) (setPk a (ur_packet u) w)), True)))
      = Some ((l', w'), True)"
    using r n u unfolding admitAuth_def Let_def l1_def by simp
  obtain h where h: "ur_err u = None" "ur_header u = Some h" using r1 by (auto split: option.splits)
  have d: "ph_msgType h = MsgTypeData" using r1 by (auto simp: h option_bind_eq_Some split: if_split_asm)
  obtain i where i: "map_of (ls_mappings l1) (addrKey ad) = Some i" "lcAuthed (connAt l1 i)"
    using r1 h d by (cases "map_of (ls_mappings l1) (addrKey ad)") (auto split: if_split_asm)
  have "touchConn (le_now E) i l1 = l'" "setPk a (if \<not> ls_preserve l \<or> pk_connID (ur_packet u) = 0
          then (ur_packet u)\<lparr>pk_connID := lc_connID (connAt l1 i)\<rparr> else ur_packet u) (setPk a (ur_packet u) w) = w'"
    using r1 h d i by simp_all
  moreover have "connAt l1 i = connAt l i" "ls_mappings l1 = ls_mappings l" by (simp_all add: l1_def connAt_def)
  ultimately show ?thesis using u i by (auto simp: l1_def)
qed

lemma admit_routed:
  assumes t: "tables_ok l" "order_ok E" and p: "\<not> ls_preserve l" and a: "a < length (w_heap w)"
    and r: "admit E a ad (l, w) = Some ((l', w'), True)"
  shows "\<exists>i. map_of (ls_mappings l') (addrKey ad) = Some i \<and> pk_connID (pkAt w' a) = lc_connID (connAt l' i) \<and> mayReceive l' i"
proof (cases "ls_auth l")
  case None
  show ?thesis
  proof (cases "map_of (ls_mappings l) (addrKey ad)")
    case None': None
    obtain l1 where l1: "(if ls_replaceOld l then replaceOld E ad (\<lambda>k. False) l else Some l) = Some l1"
        "l' = addMapping E ad None l1" "w' = setPk a ((pkAt w a)\<lparr>pk_connID := le_connID E, pk_srcAddr := Some ad\<rparr>) (setPk a ((pkAt w a)\<lparr>pk_connID := le_connID E\<rparr>) w)"
      using r None None' a by (auto simp: admit_def admitOpen_def option_bind_eq_Some pkAt_setPk)
    have s1: "step_ok UNIV l l1" using l1(1) step_replace [OF t] step_ok_refl [OF t(1)] by (auto split: if_splits)
    have "set (ls_mappings l1) \<subseteq> set (ls_mappings l)"
      using l1(1) dropAndSync_spec(1) [OF t on_view_ip [of "udpIP ad" "\<lambda>k. False"]] by (auto simp: replaceOld_def split: if_splits)
    then have n: "map_of (ls_mappings l1) (addrKey ad) = None" using None' unfolding map_of_eq_None_iff by auto
    note s = addMapping_spec [OF step_ok_tables [OF s1] t(2) n, of None]
    have "ls_auth l1 = None" using s1 None by (simp add: step_ok_def static_def)
    then have "ls_auth l' = None" by (simp add: l1(2) addMapping_def Let_def)
    moreover have "lc_connID (connAt l' (length (ls_conns l1))) = le_connID E"
      by (simp add: l1(2) addMapping_def Let_def syncMapping_def connAt_def)
    moreover have "map_of (ls_mappings l') (addrKey ad) = Some (length (ls_conns l1))"
      using n by (simp add: l1(2) s(1) map_add_def)
    ultimately show ?thesis using a by (auto simp: mayReceive_def l1(3) pkAt_setPk)
  next
    case (Some i)
    then have i: "i < length (ls_conns l)" using tables_key [OF t(1)] by blast
    have "l' = touchConn (le_now E) i l" "pk_connID (pkAt w' a) = lc_connID (connAt l i)"
      using r None Some a by (auto simp: admit_def admitOpen_def pkAt_setPk)
    then show ?thesis using Some None i by (simp add: at_touch mayReceive_def)
  qed
next
  case (Some am)
  obtain w1 where w1: "admitAuth E a ad am (l, w) = Some ((l', w1), True)"
      "w' = setPk a ((pkAt w1 a)\<lparr>pk_srcAddr := Some ad\<rparr>) w1"
    using r Some by (auto simp: admit_def option_bind_eq_Some split: if_splits)
  obtain u i where u: "unwrapData (le_crypto E) (w_config w) (le_now E) (le_mem2 E) am (pkAt w a) = Some u"
      "map_of (ls_mappings l) (addrKey ad) = Some i" "lcAuthed (connAt l i)"
      "l' = touchConn (le_now E) i (l\<lparr>ls_auth := Some (ur_am u)\<rparr>)"
      "w1 = setPk a ((ur_packet u)\<lparr>pk_connID := lc_connID (connAt l i)\<rparr>) (setPk a (ur_packet u) w)"
    using admitAuth_ok [OF w1(1)] p by auto
  have id: "pk_connID (pkAt w' a) = lc_connID (connAt l i)" using a by (simp add: w1(2) u(5) pkAt_setPk)
  have i: "i < length (ls_conns l)" using u(2) tables_key [OF t(1)] by blast
  have "connAt l' i = (connAt l i)\<lparr>lc_lastActive := le_now E\<rparr>" using i unfolding u(4) by (subst at_touch) (simp_all add: connAt_def)
  moreover have "ls_mappings l' = ls_mappings l" unfolding u(4) by (simp add: at_touch)
  ultimately show ?thesis using u(2,3) id by (auto simp: mayReceive_def lcAuthed_def)
qed

text \<open>C9. Without broadcast a reply goes to the client that asked, and only to it: a packet that carries
  the connection id under which a client's datagram was routed is queued for that client's address, given that
  the random connection ids of the mappings are distinct and not zero.\<close>

theorem listen_reply_to_sender:
  assumes "tables_ok l" "order_ok E" "\<not> ls_broadcast l" "\<not> ls_preserve l" "a < length (w_heap w)"
    and "admit E a ad (l, w) = Some ((l', w'), True)"
    and "inj_on (\<lambda>i. lc_connID (connAt l' i)) (snd ` set (ls_mappings l'))"
    and "pk_connID q = pk_connID (pkAt w' a)" "pk_connID q \<noteq> 0"
  shows "\<exists>ad'. replyTargets E' q l' = [ad'] \<and> addrKey ad' = addrKey ad"
proof -
  obtain i where i: "map_of (ls_mappings l') (addrKey ad) = Some i" "pk_connID q = lc_connID (connAt l' i)" "mayReceive l' i"
    using admit_routed [OF assms(1,2,4-6)] assms(8) by auto
  have s: "step_ok UNIV l l'" using admit_step [OF assms(1,2,6), of UNIV] by simp
  note t = step_ok_tables [OF s]
  have "\<not> ls_broadcast l'" using s assms(3) by (simp add: step_ok_def static_def)
  then obtain idx where idx: "ls_index l' = Some idx" "index_ok (connIdOf l') (ls_mappings l') idx"
    using t by (auto simp: tables_ok_def)
  have im: "i \<in> snd ` set (ls_mappings l')" using i(1) by (auto dest!: map_of_SomeD intro: rev_image_eqI)
  then have "map_of idx (connIdOf l' i) \<noteq> None" using idx(2) unfolding index_ok_def by blast
  then obtain j where j: "map_of idx (pk_connID q) = Some j" using i(2) by (auto simp: connIdOf_def)
  then have "j \<in> snd ` set (ls_mappings l')" "lc_connID (connAt l' j) = pk_connID q"
    using idx(2) unfolding index_ok_def connIdOf_def by blast+
  then have "j = i" using assms(7) im i(2) by (auto dest: inj_onD)
  moreover have "addrKey (lc_addr (connAt l' i)) = addrKey ad" using tables_key [OF t i(1)] by simp
  ultimately show ?thesis using \<open>\<not> ls_broadcast l'\<close> idx(1) j i(3) assms(9) by (simp add: replyTargets_def)
qed

theorem listen_reply_to_sender_witness:
  "\<exists>l' w' ad'. admit (demoListenEnv 0 5) 0 (demoAddr 9) (demoListen None False, demoListenWorld\<lparr>w_heap := [demoData]\<rparr>) = Some ((l', w'), True)
     \<and> replyTargets (demoListenEnv 0 5) (demoData\<lparr>pk_connID := 5\<rparr>) l' = [ad'] \<and> addrKey ad' = addrKey (demoAddr 9)"
proof -
  let ?E = "demoListenEnv 0 5" and ?l = "demoListen None False" and ?w = "demoListenWorld\<lparr>w_heap := [demoData]\<rparr>"
  have t: "tables_ok ?l" "order_ok ?E" "\<not> ls_broadcast ?l" "\<not> ls_preserve ?l"
    unfolding demoListen_def by (rule newListen_tables) (simp_all add: order_ok_def demoListenEnv_def newListen_def Let_def)
  let ?l' = "addMapping ?E (demoAddr 9) None ?l"
  obtain w' where r: "admit ?E 0 (demoAddr 9) (?l, ?w) = Some ((?l', w'), True)" "pk_connID (pkAt w' 0) = 5"
    by (simp add: admit_def admitOpen_def demoListen_def newListen_def Let_def pkAt_setPk demoListenEnv_def)
  have m: "ls_mappings ?l' = [(addrKey (demoAddr 9), 0)]"
    by (simp add: addMapping_def demoListen_def newListen_def Let_def)
  show ?thesis
    using listen_reply_to_sender [OF t(1-4) _ r(1), of "demoData\<lparr>pk_connID := 5\<rparr>" ?E] r m by auto
qed

text \<open>C26. The length a challenge header declares is not checked: whoever can send a datagram to a listener
  with authentication can declare a length that reaches beyond the end of the receive buffer, and the
  slice expression panics; as nothing recovers, that ends the process. A header alone is enough, no
  secret is needed. (A length that only exceeds the datagram stays inside the buffer and is sliced
  without a panic.)\<close>

theorem listen_challenge_length_panics:
  assumes "ls_auth l = Some am" "pk_full (w_config w) (pkAt w a)" "HeaderSize \<le> pk_length (pkAt w a)"
    and "h = frameHeader (pk_bytes (pkAt w a))" "ph_version h = ProtocolVersion" "ph_msgType h = MsgTypeAuthChallenge"
    and "poolSize (w_config w) - pk_offset (pkAt w a) < uint (8 + ph_length h)"
  shows "handleIncoming rt E a ad (l, w) = None"
proof -
  let ?p = "pkAt w a"
  have wf: "pk_wf (w_config w) ?p" using assms(2) by (simp add: pk_full_def)
  have u: "unwrapData (le_crypto E) (w_config w) (le_now E) (le_mem2 E) am ?p
      = Some \<lparr>ur_am = am, ur_packet = ?p, ur_header = Some h, ur_err = None\<rparr>"
    using assms(3-6) by (simp add: unwrapData_full [OF assms(2)] Let_def auth_consts)
  obtain buf where g: "getData ?p = Some buf" "sl_cap buf = poolSize (w_config w) - pk_offset ?p"
    using getData_wf [OF wf] wf by (auto simp: sl_cap_def pk_wf_def pool_mem_def)
  then have "sl_range buf HeaderSize (uint (8 + ph_length h)) = None" using assms(7) by (simp add: sl_range_def)
  then have "onChallenge E c h buf ad am l1 = None" for l1 c by (simp add: onChallenge_def Let_def)
  then have "handleAuthMessage E h buf ad am (l1, w1) = None" for l1 w1
    using assms(6) by (simp add: handleAuthMessage_def)
  then show ?thesis
    using assms(1,3,6) u g(1) by (simp add: handleIncoming_def admit_def admitAuth_def Let_def auth_consts)
qed

theorem listen_challenge_length_panics_witness:
  "handleIncoming (\<lambda>a ts w. Some w) (demoListenEnv 0 5) 0 (demoAddr 9)
     (demoListen (Some (demoManager True [])) False,
      demoListenWorld\<lparr>w_heap := [received demoConfig (headerBytes MsgTypeAuthChallenge 1000)]\<rparr>) = None"
proof (rule listen_challenge_length_panics)
  let ?p = "received demoConfig (headerBytes MsgTypeAuthChallenge 1000)"
  let ?w = "demoListenWorld\<lparr>w_heap := [?p]\<rparr>"
  have r: "pk_full demoConfig ?p" "pk_bytes ?p = headerBytes MsgTypeAuthChallenge 1000" by (rule received_full; simp)+
  have p: "pkAt ?w 0 = ?p" "w_config ?w = demoConfig" by (simp_all add: pkAt_def demoListenWorld_def)
  show "ls_auth (demoListen (Some (demoManager True [])) False) = Some (demoManager True [])"
    by (simp add: demoListen_def newListen_def Let_def)
  show "pk_full (w_config ?w) (pkAt ?w 0)" using r p by simp
  show "HeaderSize \<le> pk_length (pkAt ?w 0)" using p by (simp add: received_def HeaderSize_def)
  show "frameHeader (headerBytes MsgTypeAuthChallenge 1000) = frameHeader (pk_bytes (pkAt ?w 0))" using r p by simp
  have f: "frameHeader (headerBytes MsgTypeAuthChallenge 1000) =
     \<lparr>ph_version = ProtocolVersion, ph_msgType = MsgTypeAuthChallenge, ph_reserved = 0, ph_length = 1000\<rparr>"
    using frameHeader_bytes [of MsgTypeAuthChallenge 1000 "[]"] by simp
  show "ph_version (frameHeader (headerBytes MsgTypeAuthChallenge 1000)) = ProtocolVersion"
    "ph_msgType (frameHeader (headerBytes MsgTypeAuthChallenge 1000)) = MsgTypeAuthChallenge" by (simp_all add: f)
  show "poolSize (w_config ?w) - pk_offset (pkAt ?w 0) < uint (8 + ph_length (frameHeader (headerBytes MsgTypeAuthChallenge 1000)))"
    using p by (simp add: f received_def getPacketWithBuffer_def)
qed

end
