(* ===== verification/Forward.thy ===== *)
theory Forward
  imports Listen
begin

text \<open>
  \<open>src/forward.go\<close>: the UDP forwarder. It keeps one connection per target, proves the secret to it, sends
  heartbeats, gives a silent target up and dials it again, queues data for the connections that are
  up and routes what they send back. Every function of the code that another goroutine runs is one step
  of the model, with the parts it starts with \<open>go\<close> run at once; the guards against running one of them twice
  (\<open>reconnecting\<close>, \<open>authInProgress\<close>) have nothing to do then. Sockets are numbers; what dialling and
  writing give back comes from the environment. Packets live in the store of \<open>Router\<close>.
\<close>

section \<open>State\<close>

record forward_conn =
  fc_target :: addr
  fc_socket :: "nat option"
  fc_up :: bool
  fc_lastReconnect :: gotime
  fc_authed :: bool
  fc_retries :: int
  fc_hb :: hb_tracker
  fc_poolID :: conn_id
  fc_queue :: "nat list"
  fc_prio :: "nat list"
  fc_closed :: bool
  fc_looping :: bool
  fc_autorate :: "autorate option"
  fc_queueDelay :: duration

record forward =
  fw_tag :: string
  fw_reconnectInterval :: duration
  fw_checkTime :: duration
  fw_detour :: "string list"
  fw_keepalive :: bool
  fw_queueSize :: int
  fw_forwardID :: conn_id
  fw_auth :: "auth_manager option"
  fw_conns :: "forward_conn list"
  fw_stats :: hb_stats
  fw_stopped :: bool
  fw_sent :: "(nat \<times> bytes) list"

text \<open>
  \<open>fe_dial\<close> is the socket a dial gives or \<open>None\<close>; \<open>fe_write\<close> is \<open>None\<close> when writing succeeds and
  otherwise how many datagrams were written before the error.
\<close>

record forward_env =
  fe_crypto :: crypto
  fe_floats :: floats
  fe_now :: gotime
  fe_rand :: "bytes option"
  fe_mem :: bytes
  fe_mem2 :: bytes
  fe_dial :: "nat option"
  fe_write :: "nat option"

text \<open>\<open>NewForwardComponent\<close>: times of the configuration in seconds.\<close>

definition newForward :: "string \<Rightarrow> int \<Rightarrow> int \<Rightarrow> string list \<Rightarrow> bool option \<Rightarrow> router_config
    \<Rightarrow> conn_id \<Rightarrow> auth_manager option \<Rightarrow> hb_stats \<Rightarrow> forward" where
  "newForward tag reconnect check detour keepalive c fid am st = \<lparr>
     fw_tag = tag,
     fw_reconnectInterval = (let d = i64 (reconnect * ns_second) in if d = 0 then 5 * ns_second else d),
     fw_checkTime = (let d = i64 (check * ns_second) in if d = 0 then 30 * ns_second else d),
     fw_detour = detour, fw_keepalive = (keepalive \<noteq> Some False),
     fw_queueSize = (if rc_queueSize c \<le> 0 then 10240 else rc_queueSize c),
     fw_forwardID = fid, fw_auth = am, fw_conns = [], fw_stats = st, fw_stopped = False, fw_sent = []\<rparr>"

definition fcAt :: "forward \<Rightarrow> nat \<Rightarrow> forward_conn" where
  "fcAt f i = fw_conns f ! i"

definition setFc :: "nat \<Rightarrow> forward_conn \<Rightarrow> forward \<Rightarrow> forward" where
  "setFc i c f = f\<lparr>fw_conns := (fw_conns f)[i := c]\<rparr>"

definition isConnected :: "forward_conn \<Rightarrow> bool" where
  "isConnected c \<longleftrightarrow> fc_up c \<and> fc_socket c \<noteq> None"

definition fwdAvailable :: "forward \<Rightarrow> bool" where
  "fwdAvailable f \<longleftrightarrow> list_ex isConnected (fw_conns f)"

definition fwdQueueDelay :: "forward \<Rightarrow> duration" where
  "fwdQueueDelay f = fold (\<lambda>c d. if d < fc_queueDelay c then fc_queueDelay c else d) (fw_conns f) 0"

section \<open>Heartbeat counters and connection state\<close>

definition fcLost :: "gotime \<Rightarrow> nat \<Rightarrow> forward \<Rightarrow> forward \<times> int" where
  "fcLost now i f =
     (let (r, n) = markPendingHeartbeatLost now (fc_hb (fcAt f i), Some (fw_stats f))
      in ((setFc i ((fcAt f i)\<lparr>fc_hb := fst r\<rparr>) f)\<lparr>fw_stats := the (snd r)\<rparr>, n))"

definition fcHeartbeatSent :: "gotime \<Rightarrow> nat \<Rightarrow> forward \<Rightarrow> forward" where
  "fcHeartbeatSent now i f =
     (let r = noteHeartbeatSent now (fc_hb (fcAt f i), Some (fw_stats f))
      in (setFc i ((fcAt f i)\<lparr>fc_hb := fst r\<rparr>) f)\<lparr>fw_stats := the (snd r)\<rparr>)"

definition setDisconnected :: "gotime \<Rightarrow> nat \<Rightarrow> forward \<Rightarrow> forward" where
  "setDisconnected now i f = (let f1 = fst (fcLost now i f) in setFc i ((fcAt f1 i)\<lparr>fc_up := False\<rparr>) f1)"

definition setConnected :: "nat \<Rightarrow> forward_conn \<Rightarrow> forward_conn" where
  "setConnected s c = c\<lparr>fc_socket := Some s, fc_up := True\<rparr>"

text \<open>\<open>ForwardConn.Write\<close>: one datagram straight to the socket.\<close>

definition writeDirect :: "forward_env \<Rightarrow> nat \<Rightarrow> bytes \<Rightarrow> forward \<Rightarrow> forward \<times> bool" where
  "writeDirect E i b f =
     (if isConnected (fcAt f i) \<and> fe_write E = None then (f\<lparr>fw_sent := fw_sent f @ [(i, b)]\<rparr>, True) else (f, False))"

section \<open>Send queues\<close>

type_synonym forward_world = "forward \<times> world"

definition fwdPrioCap :: "forward \<Rightarrow> int" where
  "fwdPrioCap f = max 4 (go_quot (fw_queueSize f) 16)"

definition enqueuePacket :: "bool \<Rightarrow> nat \<Rightarrow> nat \<Rightarrow> forward_world \<Rightarrow> forward_world option" where
  "enqueuePacket high i a fw = (case fw of (f, w) \<Rightarrow>
     (let w1 = refAdd a w; dropIt = map_option (Pair f) (refRelease a w1); c = fcAt f i in
      if fc_closed c then dropIt
      else if fw_stopped f then dropIt
      else if high \<and> int (length (fc_prio c)) < fwdPrioCap f then Some (setFc i (c\<lparr>fc_prio := fc_prio c @ [a]\<rparr>) f, w1)
      else if int (length (fc_queue c)) < fw_queueSize f then Some (setFc i (c\<lparr>fc_queue := fc_queue c @ [a]\<rparr>) f, w1)
      else dropIt))"

definition drainForwardQueue :: "nat \<Rightarrow> forward_world \<Rightarrow> forward_world option" where
  "drainForwardQueue i fw = (case fw of (f, w) \<Rightarrow> do {
     w' \<leftarrow> releaseAll (fc_prio (fcAt f i) @ fc_queue (fcAt f i)) w;
     Some (setFc i ((fcAt f i)\<lparr>fc_prio := [], fc_queue := []\<rparr>) f, w')
   })"

text \<open>
  One round of the send loop: collect what is queued, priority first, up to the batch size; write it, or
  drop it when the connection is down; a write error marks the connection down and ends the loop.
\<close>

definition sendRound :: "forward_env \<Rightarrow> nat \<Rightarrow> nat \<Rightarrow> forward_world \<Rightarrow> forward_world option" where
  "sendRound E maxBatch i fw = (case fw of (f, w) \<Rightarrow>
     (let c = fcAt f i;
          np = min maxBatch (length (fc_prio c));
          batch = take np (fc_prio c) @ take (maxBatch - np) (fc_queue c);
          c1 = c\<lparr>fc_prio := drop np (fc_prio c), fc_queue := drop (maxBatch - np) (fc_queue c)\<rparr>;
          f1 = setFc i c1 f
      in if \<not> fc_looping c then Some (f, w)
      else do {
        datas \<leftarrow> (if isConnected c then those (map (\<lambda>a. map_option sl_data (getData (pkAt w a))) batch) else Some []);
        let f2 = (if \<not> isConnected c then f1
          else (case fe_write E of
              None \<Rightarrow> f1\<lparr>fw_sent := fw_sent f1 @ map (Pair i) datas\<rparr>
            | Some n \<Rightarrow>
                let f3 = setDisconnected (fe_now E) i (f1\<lparr>fw_sent := fw_sent f1 @ map (Pair i) (take n datas)\<rparr>)
                in setFc i ((fcAt f3 i)\<lparr>fc_looping := False\<rparr>) f3));
        w1 \<leftarrow> releaseAll batch w;
        Some (f2, w1)
      }))"

definition fwdControl :: "forward_env \<Rightarrow> (slice \<Rightarrow> (slice \<times> int) option) \<Rightarrow> nat \<Rightarrow> forward_world \<Rightarrow> forward_world option" where
  "fwdControl E g i fw = (case fw of (f, w) \<Rightarrow> do {
     let (a, w1) = newPacket (fe_mem E) (fw_tag f) w;
     (p, n) \<leftarrow> fillPacket g (pkAt w1 a);
     (f2, w2) \<leftarrow> (if 0 < n then enqueuePacket True i a (f, setPk a (p\<lparr>pk_length := n\<rparr>) w1)
                else Some (f, setPk a p w1));
     w3 \<leftarrow> refRelease a w2;
     Some (f2, w3)
   })"

section \<open>Authentication, heartbeats and reconnecting\<close>

definition sendAuthChallenge :: "forward_env \<Rightarrow> nat \<Rightarrow> forward \<Rightarrow> forward option" where
  "sendAuthChallenge E i f =
     (let c = (fcAt f i)\<lparr>fc_retries := fc_retries (fcAt f i) + 1\<rparr>; f1 = setFc i c f in
      if \<not> isConnected (fcAt f i) then Some f
      else if 5 < fc_retries c then Some (setDisconnected (fe_now E) i f1)
      else (case fw_auth f of
          None \<Rightarrow> None
        | Some am \<Rightarrow> do {
            (am', b, res) \<leftarrow> createAuthChallenge (fe_crypto E) (fe_now E) (fe_rand E) MsgTypeAuthChallenge
               (fw_forwardID f) (fc_poolID c) (full_slice (fe_mem E)) am;
            let f2 = f1\<lparr>fw_auth := Some am'\<rparr>;
            (case res of
               Inl e \<Rightarrow> Some f2
             | Inr n \<Rightarrow> do {
                 out \<leftarrow> sl_range b 0 n;
                 let (f3, ok) = writeDirect E i (sl_data out) f2;
                 Some (if ok then f3 else setDisconnected (fe_now E) i f3)
               })
          }))"

definition sendHeartbeat :: "forward_env \<Rightarrow> nat \<Rightarrow> forward_world \<Rightarrow> forward_world option" where
  "sendHeartbeat E i fw = (case fw of (f, w) \<Rightarrow>
     if \<not> isConnected (fcAt f i) \<or> \<not> fc_authed (fcAt f i) then Some (f, w)
     else do {
       let (f1, loss) = fcLost (fe_now E) i f;
       f2 \<leftarrow> (if 2 \<le> loss then sendAuthChallenge E i f1 else Some f1);
       if 5 \<le> loss then
         (let f3 = setDisconnected (fe_now E) i f2
          in Some (setFc i ((fcAt f3 i)\<lparr>fc_authed := False, fc_hb := resetHeartbeatState (fc_hb (fcAt f3 i))\<rparr>) f3, w))
       else do {
         (f3, w3) \<leftarrow> fwdControl E createHeartbeat i (f2, w);
         Some (fcHeartbeatSent (fe_now E) i f3, w3)
       }
     })"

definition maintain :: "forward_env \<Rightarrow> nat \<Rightarrow> forward_world \<Rightarrow> forward_world option" where
  "maintain E i fw = (case fw of (f, w) \<Rightarrow>
     (case fw_auth f of
        Some am \<Rightarrow>
          if \<not> fc_authed (fcAt f i) then map_option (\<lambda>f'. (f', w)) (sendAuthChallenge E i f)
          else if am_heartbeatInterval am \<le> time_sub (fe_now E) (lastHeartbeatSent (fc_hb (fcAt f i)))
          then sendHeartbeat E i (f, w)
          else Some (f, w)
      | None \<Rightarrow> Some (if fw_keepalive f then fst (writeDirect E i [] f) else f, w)))"

definition tryReconnect :: "forward_env \<Rightarrow> nat \<Rightarrow> forward_world \<Rightarrow> forward_world option" where
  "tryReconnect E i fw = (case fw of (f, w) \<Rightarrow>
     (let c = fcAt f i in
      if time_sub (fe_now E) (fc_lastReconnect c) < fw_reconnectInterval f then Some (f, w)
      else
        let c1 = c\<lparr>fc_lastReconnect := fe_now E, fc_socket := None\<rparr> in
        (case fe_dial E of
           None \<Rightarrow> Some (setFc i c1 f, w)
         | Some s \<Rightarrow> do {
             let c2 = (setConnected s c1)\<lparr>fc_retries := 0, fc_hb := resetHeartbeatState (fc_hb c1),
                        fc_authed := False, fc_closed := False\<rparr>;
             (f3, w3) \<leftarrow> drainForwardQueue i (setFc i c2 f, w);
             let f4 = setFc i ((fcAt f3 i)\<lparr>fc_looping := True\<rparr>) f3;
             f5 \<leftarrow> (if fw_auth f \<noteq> None then sendAuthChallenge E i f4
                   else Some (setFc i ((fcAt f4 i)\<lparr>fc_authed := True\<rparr>) f4));
             Some (f5, w3)
           })))"

text \<open>A tick of \<open>connectionChecker\<close>.\<close>

definition checkConn :: "forward_env \<Rightarrow> nat \<Rightarrow> forward_world \<Rightarrow> forward_world option" where
  "checkConn E i fw = (if isConnected (fcAt (fst fw) i) then maintain E i fw else tryReconnect E i fw)"

fun checkAll :: "forward_env \<Rightarrow> nat list \<Rightarrow> forward_world \<Rightarrow> forward_world option" where
  "checkAll E [] fw = Some fw"
| "checkAll E (i # is) fw = do { fw' \<leftarrow> checkConn E i fw; checkAll E is fw' }"

definition connectionTick :: "forward_env \<Rightarrow> forward_world \<Rightarrow> forward_world option" where
  "connectionTick E fw = checkAll E [0 ..< length (fw_conns (fst fw))] fw"

text \<open>\<open>setupForwarder\<close>, after the target was resolved: dial, and start to authenticate.\<close>

definition setupForwarder :: "forward_env \<Rightarrow> addr \<Rightarrow> forward \<Rightarrow> forward option" where
  "setupForwarder E target f = (case fe_dial E of
     None \<Rightarrow> Some f
   | Some s \<Rightarrow>
       let c = \<lparr>fc_target = target, fc_socket = Some s, fc_up = True, fc_lastReconnect = fe_now E, fc_authed = False,
             fc_retries = 0, fc_hb = empty_hb_tracker, fc_poolID = 0, fc_queue = [], fc_prio = [], fc_closed = False,
             fc_looping = True, fc_autorate = None, fc_queueDelay = 0\<rparr>;
           i = length (fw_conns f)
       in if fw_auth f \<noteq> None then sendAuthChallenge E i (f\<lparr>fw_conns := fw_conns f @ [c]\<rparr>)
          else Some (f\<lparr>fw_conns := fw_conns f @ [c\<lparr>fc_authed := True\<rparr>]\<rparr>))"

definition stopForward :: "forward \<Rightarrow> forward" where
  "stopForward f = f\<lparr>fw_stopped := True, fw_conns := map (\<lambda>c. c\<lparr>fc_socket := None, fc_closed := True\<rparr>) (fw_conns f)\<rparr>"

section \<open>Datagrams from a target\<close>

definition onAuthResponse :: "forward_env \<Rightarrow> nat \<Rightarrow> protocol_header \<Rightarrow> slice \<Rightarrow> auth_manager \<Rightarrow> forward \<Rightarrow> forward option" where
  "onAuthResponse E i h buf am f = do {
     data \<leftarrow> sl_range buf HeaderSize (uint (8 + ph_length h));
     (case processAuthChallenge (fe_crypto E) (fe_now E) (sl_data data) am of
        (am1, Inl e) \<Rightarrow> Some (setFc i ((fcAt f i)\<lparr>fc_authed := False\<rparr>) (f\<lparr>fw_auth := Some am1\<rparr>))
      | (am1, Inr r) \<Rightarrow> Some (setFc i ((fcAt f i)\<lparr>fc_authed := True, fc_retries := 0\<rparr>) (f\<lparr>fw_auth := Some am1\<rparr>)))
   }"

definition fwdAuthMessage :: "forward_env \<Rightarrow> nat \<Rightarrow> protocol_header \<Rightarrow> slice \<Rightarrow> auth_manager \<Rightarrow> forward_world \<Rightarrow> forward_world option" where
  "fwdAuthMessage E i h buf am fw = (case fw of (f, w) \<Rightarrow>
     (let t = ph_msgType h; c = fcAt f i in
      if t = MsgTypeAuthResponse then map_option (\<lambda>f'. (f', w)) (onAuthResponse E i h buf am f)
      else if t = MsgTypeProbe then
        (if fc_authed c then fwdControl E (createProbeAck (fe_now E) (sl_data buf)) i (f, w) else Some (f, w))
      else if t = MsgTypeProbeAck then
        Some (case fc_autorate c of None \<Rightarrow> f
          | Some r \<Rightarrow> (case parseProbeAck (fe_now E) (sl_data buf) of None \<Rightarrow> f
              | Some (owd, rtt) \<Rightarrow> setFc i (c\<lparr>fc_autorate := Some (addSample (fe_floats E) owd rtt (fe_now E) r)\<rparr>) f), w)
      else if t = MsgTypeHeartbeat then do {
        let hb = markHeartbeatResponse (fc_hb c);
        am' \<leftarrow> (if lastHeartbeatSent hb \<noteq> zero_time
               then recordDelayMeasurement (time_sub (fe_now E) (lastHeartbeatSent hb)) am else Some am);
        fwdControl E createHeartbeatAck i (setFc i (c\<lparr>fc_hb := hb\<rparr>) (f\<lparr>fw_auth := Some am'\<rparr>), w)
      }
      else Some (f, w)))"

text \<open>The flag tells that the packet goes on to the detour.\<close>

definition fwdAdmit :: "forward_env \<Rightarrow> nat \<Rightarrow> nat \<Rightarrow> forward_world \<Rightarrow> (forward_world \<times> bool) option" where
  "fwdAdmit E i a fw = (case fw of (f, w) \<Rightarrow>
     (let p = pkAt w a; pass = (\<lambda>q. setPk a (q\<lparr>pk_srcAddr := Some (fc_target (fcAt f i))\<rparr>) w) in
      case fw_auth f of
        None \<Rightarrow> Some ((f, pass p), True)
      | Some am \<Rightarrow>
          if pk_length p < HeaderSize then Some ((f, w), False)
          else do {
            r \<leftarrow> unwrapData (fe_crypto E) (w_config w) (fe_now E) (fe_mem2 E) am p;
            let f1 = f\<lparr>fw_auth := Some (ur_am r)\<rparr>;
            let w1 = setPk a (ur_packet r) w;
            (case (ur_err r, ur_header r) of
               (Some e, _) \<Rightarrow> Some ((f1, w1), False)
             | (None, None) \<Rightarrow> None
             | (None, Some h) \<Rightarrow>
                 if ph_msgType h \<noteq> MsgTypeData then do {
                   buf \<leftarrow> getData (ur_packet r);
                   fw' \<leftarrow> fwdAuthMessage E i h buf (ur_am r) (f1, w1);
                   Some (fw', False)
                 }
                 else if \<not> fc_authed (fcAt f1 i) then Some ((f1, w1), False)
                 else Some ((f1, pass (ur_packet r)), True))
          }))"

definition handleForwarderPacket :: "routing \<Rightarrow> forward_env \<Rightarrow> nat \<Rightarrow> nat \<Rightarrow> forward_world \<Rightarrow> (forward_world \<times> bool) option" where
  "handleForwarderPacket rt E i a fw = do {
     ((f1, w1), ok) \<leftarrow> fwdAdmit E i a fw;
     w2 \<leftarrow> (if ok then rt a (fw_detour f1) w1 else Some w1);
     Some ((f1, w2), ok)
   }"

text \<open>Packets for the targets.\<close>

definition mayCarry :: "forward \<Rightarrow> nat \<Rightarrow> bool" where
  "mayCarry f i \<longleftrightarrow> isConnected (fcAt f i) \<and> (fw_auth f = None \<or> fc_authed (fcAt f i))"

fun enqueueAll :: "nat \<Rightarrow> nat list \<Rightarrow> forward_world \<Rightarrow> forward_world option" where
  "enqueueAll a [] fw = Some fw"
| "enqueueAll a (i # is) fw = do {
     fw' \<leftarrow> (if mayCarry (fst fw) i then enqueuePacket False i a fw else Some fw);
     enqueueAll a is fw'
   }"

definition fwdHandlePacket :: "forward_env \<Rightarrow> nat \<Rightarrow> forward_world \<Rightarrow> (forward_world \<times> auth_error option) option" where
  "fwdHandlePacket E a fw = (case fw of (f, w) \<Rightarrow> do {
     (f1, p, e) \<leftarrow> (case fw_auth f of
        None \<Rightarrow> Some (f, pkAt w a, None)
      | Some am \<Rightarrow> map_option (\<lambda>(am', p, e). (f\<lparr>fw_auth := Some am'\<rparr>, p, e))
          (wrapData (fe_crypto E) (w_config w) (fe_now E) (fe_rand E) (fe_mem E) (fe_mem2 E) am (pkAt w a)));
     let w1 = setPk a p w;
     (f2, w2) \<leftarrow> (if e = None then enqueueAll a [0 ..< length (fw_conns f1)] (f1, w1) else Some (f1, w1));
     w3 \<leftarrow> refRelease a w2;
     Some ((f2, w3), e)
   })"

section \<open>What the steps leave of a connection\<close>

definition cview :: "forward_conn \<Rightarrow> nat option \<times> bool \<times> bool \<times> hb_tracker" where
  "cview c = (fc_socket c, fc_up c, fc_authed c, fc_hb c)"

text \<open>Connection \<open>i\<close> is as it was, queues aside, or down.\<close>

definition calm :: "nat \<Rightarrow> forward \<Rightarrow> forward \<Rightarrow> bool" where
  "calm i f f' \<longleftrightarrow> length (fw_conns f') = length (fw_conns f)
     \<and> (cview (fcAt f' i) = cview (fcAt f i) \<or> \<not> fc_up (fcAt f' i))"

lemma calm_refl [simp]: "calm i f f"
  by (simp add: calm_def)

lemma calm_trans: "calm i f f1 \<Longrightarrow> calm i f1 f2 \<Longrightarrow> calm i f f2"
  unfolding calm_def cview_def by auto

lemma fcAt_setFc: "i < length (fw_conns f) \<Longrightarrow> fcAt (setFc j c f) i = (if i = j then c else fcAt f i)"
  by (simp add: fcAt_def setFc_def)

lemma length_setFc [simp]: "length (fw_conns (setFc j c f)) = length (fw_conns f)"
  by (simp add: setFc_def)

lemma fcAt_cong: "fw_conns f' = fw_conns f \<Longrightarrow> fcAt f' i = fcAt f i"
  by (simp add: fcAt_def)

lemma calm_conns: "fw_conns f' = fw_conns f \<Longrightarrow> calm i f f'"
  by (simp add: calm_def fcAt_def)

lemma calm_setFc:
  "i < length (fw_conns f) \<Longrightarrow> cview c = cview (fcAt f j) \<or> \<not> fc_up c \<Longrightarrow> calm i f (setFc j c f)"
  by (auto simp: calm_def fcAt_setFc)

lemma fcLost_at:
  assumes "i < length (fw_conns f)" "fcLost now j f = (f', n)"
  shows "fcAt f' i = (if i = j then (fcAt f j)\<lparr>fc_hb := fst (fst (markPendingHeartbeatLost now (fc_hb (fcAt f j), Some (fw_stats f))))\<rparr> else fcAt f i)"
    "n = snd (markPendingHeartbeatLost now (fc_hb (fcAt f j), Some (fw_stats f)))"
    "length (fw_conns f') = length (fw_conns f)" "fw_auth f' = fw_auth f"
proof -
  have f': "f' = (setFc j ((fcAt f j)\<lparr>fc_hb := fst (fst (markPendingHeartbeatLost now (fc_hb (fcAt f j), Some (fw_stats f))))\<rparr>) f)
      \<lparr>fw_stats := the (snd (fst (markPendingHeartbeatLost now (fc_hb (fcAt f j), Some (fw_stats f)))))\<rparr>"
    and n: "n = snd (markPendingHeartbeatLost now (fc_hb (fcAt f j), Some (fw_stats f)))"
    using assms(2) by (auto simp: fcLost_def case_prod_beta)
  show "n = snd (markPendingHeartbeatLost now (fc_hb (fcAt f j), Some (fw_stats f)))" by (rule n)
  show "fcAt f' i = (if i = j then (fcAt f j)\<lparr>fc_hb := fst (fst (markPendingHeartbeatLost now (fc_hb (fcAt f j), Some (fw_stats f))))\<rparr> else fcAt f i)"
    using assms(1) by (simp add: f' fcAt_cong [of "setFc j c f\<lparr>fw_stats := s\<rparr>" "setFc j c f" for c s] fcAt_setFc)
  show "length (fw_conns f') = length (fw_conns f)" "fw_auth f' = fw_auth f" by (simp_all add: f' setFc_def)
qed

lemma setDisconnected_at:
  assumes "i < length (fw_conns f)"
  shows "i \<noteq> j \<Longrightarrow> fcAt (setDisconnected now j f) i = fcAt f i" "i = j \<Longrightarrow> \<not> fc_up (fcAt (setDisconnected now j f) i)"
    "length (fw_conns (setDisconnected now j f)) = length (fw_conns f)"
proof -
  obtain f1 n where f1: "fcLost now j f = (f1, n)" by fastforce
  note l = fcLost_at [OF assms f1]
  have d: "setDisconnected now j f = setFc j ((fcAt f1 j)\<lparr>fc_up := False\<rparr>) f1" by (simp add: setDisconnected_def f1)
  show "i \<noteq> j \<Longrightarrow> fcAt (setDisconnected now j f) i = fcAt f i" "i = j \<Longrightarrow> \<not> fc_up (fcAt (setDisconnected now j f) i)"
    "length (fw_conns (setDisconnected now j f)) = length (fw_conns f)"
    using assms l by (simp_all add: d fcAt_setFc)
qed

lemma calm_down: "i < length (fw_conns f) \<Longrightarrow> calm i f (setDisconnected now j f)"
  using setDisconnected_at [where i = i and f = f and j = j and now = now] by (cases "i = j") (auto simp: calm_def)

lemma calm_write: "calm i f (fst (writeDirect E j b f))"
  by (simp add: writeDirect_def calm_conns)

lemma calm_length: "calm i f f' \<Longrightarrow> length (fw_conns f') = length (fw_conns f)"
  by (simp add: calm_def)

lemma sendAuthChallenge_cases:
  assumes "sendAuthChallenge E j f = Some f'"
  defines "f1 \<equiv> setFc j ((fcAt f j)\<lparr>fc_retries := fc_retries (fcAt f j) + 1\<rparr>) f"
  shows "f' = f \<or> f' = setDisconnected (fe_now E) j f1 \<or> (\<exists>am. f' = f1\<lparr>fw_auth := Some am\<rparr>)
      \<or> (\<exists>am b. f' = fst (writeDirect E j b (f1\<lparr>fw_auth := Some am\<rparr>))
            \<or> f' = setDisconnected (fe_now E) j (fst (writeDirect E j b (f1\<lparr>fw_auth := Some am\<rparr>))))"
proof (cases "isConnected (fcAt f j) \<and> \<not> 5 < fc_retries (fcAt f j) + 1")
  case False
  then show ?thesis using assms(1) by (auto simp: sendAuthChallenge_def f1_def Let_def split: if_split_asm)
next
  case True
  obtain am am' b res where c: "fw_auth f = Some am"
      "createAuthChallenge (fe_crypto E) (fe_now E) (fe_rand E) MsgTypeAuthChallenge
         (fw_forwardID f) (fc_poolID (fcAt f j)) (full_slice (fe_mem E)) am = Some (am', b, res)"
    using assms(1) True by (auto simp: sendAuthChallenge_def Let_def option_bind_eq_Some split: option.split_asm)
  show ?thesis
  proof (cases res)
    case (Inl e)
    then show ?thesis using assms(1) True c by (auto simp: sendAuthChallenge_def f1_def Let_def)
  next
    case (Inr n)
    then obtain out where o: "sl_range b 0 n = Some out"
      using assms(1) True c by (auto simp: sendAuthChallenge_def Let_def option_bind_eq_Some)
    obtain f3 ok where w: "writeDirect E j (sl_data out) (f1\<lparr>fw_auth := Some am'\<rparr>) = (f3, ok)" by fastforce
    then have "f' = (if ok then f3 else setDisconnected (fe_now E) j f3)"
      using assms(1) True c Inr o by (auto simp: sendAuthChallenge_def Let_def f1_def)
    moreover have "f3 = fst (writeDirect E j (sl_data out) (f1\<lparr>fw_auth := Some am'\<rparr>))" using w by simp
    ultimately show ?thesis by metis
  qed
qed

lemma calm_challenge:
  assumes "i < length (fw_conns f)" "sendAuthChallenge E j f = Some f'"
  shows "calm i f f'"
proof -
  let ?c = "(fcAt f j)\<lparr>fc_retries := fc_retries (fcAt f j) + 1\<rparr>"
  let ?f1 = "setFc j ?c f"
  have c1: "calm i f ?f1" by (rule calm_setFc [OF assms(1)]) (simp add: cview_def)
  have i1: "i < length (fw_conns ?f1)" using assms(1) by simp
  have "f' = f \<or> f' = setDisconnected (fe_now E) j ?f1 \<or> (\<exists>am. f' = ?f1\<lparr>fw_auth := Some am\<rparr>)
      \<or> (\<exists>am b. f' = fst (writeDirect E j b (?f1\<lparr>fw_auth := Some am\<rparr>))
            \<or> f' = setDisconnected (fe_now E) j (fst (writeDirect E j b (?f1\<lparr>fw_auth := Some am\<rparr>))))"
    by (rule sendAuthChallenge_cases [OF assms(2)])
  then show ?thesis
  proof (elim disjE exE)
    fix am assume f': "f' = ?f1\<lparr>fw_auth := Some am\<rparr>"
    show ?thesis unfolding f' by (rule calm_trans [OF c1]) (simp add: calm_conns)
  next
    fix am b
    let ?f2 = "?f1\<lparr>fw_auth := Some am\<rparr>"
    let ?f3 = "fst (writeDirect E j b ?f2)"
    have c2: "calm i f ?f2" by (rule calm_trans [OF c1]) (simp add: calm_conns)
    have c3: "calm i f ?f3" by (rule calm_trans [OF c2 calm_write])
    have i3: "i < length (fw_conns ?f3)" using calm_length [OF c3] assms(1) by simp
    { assume "f' = ?f3" then show ?thesis using c3 by simp }
    { assume "f' = setDisconnected (fe_now E) j ?f3" then show ?thesis using calm_trans [OF c3 calm_down [OF i3]] by simp }
  qed (use calm_trans [OF c1 calm_down [OF i1]] in auto)
qed

lemma calm_enqueue:
  assumes "i < length (fw_conns f)" "enqueuePacket high j a (f, w) = Some (f', w')"
  shows "calm i f f'"
proof -
  have "f' = f \<or> (\<exists>q. f' = setFc j ((fcAt f j)\<lparr>fc_prio := q\<rparr>) f) \<or> (\<exists>q. f' = setFc j ((fcAt f j)\<lparr>fc_queue := q\<rparr>) f)"
    using assms(2) by (auto simp: enqueuePacket_def Let_def split: if_split_asm)
  then show ?thesis by (auto intro!: calm_setFc [OF assms(1)] simp: cview_def)
qed

lemma calm_control:
  assumes "i < length (fw_conns f)" "fwdControl E g j (f, w) = Some (f', w')"
  shows "calm i f f'"
proof -
  have "f' = f \<or> (\<exists>a w1 w2. enqueuePacket True j a (f, w1) = Some (f', w2))"
    using assms(2) by (auto simp: fwdControl_def option_bind_eq_Some split: prod.splits if_splits)
  then show ?thesis using calm_enqueue [OF assms(1)] by auto
qed

lemma calm_enqueueAll:
  "i < length (fw_conns f) \<Longrightarrow> enqueueAll a js (f, w) = Some (f', w') \<Longrightarrow> calm i f f'"
proof (induction js arbitrary: f w)
  case Nil
  then show ?case by simp
next
  case (Cons j js)
  then obtain f1 w1 where q: "(if mayCarry f j then enqueuePacket False j a (f, w) else Some (f, w)) = Some (f1, w1)"
      "enqueueAll a js (f1, w1) = Some (f', w')"
    by (auto simp: option_bind_eq_Some)
  have c: "calm i f f1" using q(1) calm_enqueue [OF Cons.prems(1)] by (auto split: if_splits)
  then have "i < length (fw_conns f1)" using calm_length Cons.prems(1) by simp
  then show ?case using calm_trans [OF c Cons.IH [OF _ q(2)]] by blast
qed

lemma calm_handlePacket:
  assumes "i < length (fw_conns f)" "fwdHandlePacket E a (f, w) = Some ((f', w'), e)"
  shows "calm i f f'"
proof -
  obtain f1 p e1 w2 where f1: "(case fw_auth f of
        None \<Rightarrow> Some (f, pkAt w a, None)
      | Some am \<Rightarrow> map_option (\<lambda>(am', p, e). (f\<lparr>fw_auth := Some am'\<rparr>, p, e))
          (wrapData (fe_crypto E) (w_config w) (fe_now E) (fe_rand E) (fe_mem E) (fe_mem2 E) am (pkAt w a))) = Some (f1, p, e1)"
    and q: "(if e1 = None then enqueueAll a [0 ..< length (fw_conns f1)] (f1, setPk a p w) else Some (f1, setPk a p w)) = Some (f', w2)"
    using assms(2) by (auto simp: fwdHandlePacket_def option_bind_eq_Some Let_def)
  have c: "calm i f f1" using f1 by (cases "fw_auth f") (auto simp: calm_conns)
  then have "i < length (fw_conns f1)" using calm_length assms(1) by simp
  then show ?thesis using q calm_trans [OF c] calm_enqueueAll c by (auto split: if_splits)
qed

lemma calm_sendRound:
  assumes "i < length (fw_conns f)" "sendRound E n j (f, w) = Some (f', w')"
  shows "calm i f f'"
proof -
  define np where "np = min n (length (fc_prio (fcAt f j)))"
  define q1 where "q1 = drop np (fc_prio (fcAt f j))"
  define q2 where "q2 = drop (n - np) (fc_queue (fcAt f j))"
  have "f' = f \<or> f' = setFc j ((fcAt f j)\<lparr>fc_prio := q1, fc_queue := q2\<rparr>) f
    \<or> (\<exists>x. f' = (setFc j ((fcAt f j)\<lparr>fc_prio := q1, fc_queue := q2\<rparr>) f)\<lparr>fw_sent := x\<rparr>)
    \<or> (\<exists>x. let f3 = setDisconnected (fe_now E) j ((setFc j ((fcAt f j)\<lparr>fc_prio := q1, fc_queue := q2\<rparr>) f)\<lparr>fw_sent := x\<rparr>)
        in f' = setFc j ((fcAt f3 j)\<lparr>fc_looping := False\<rparr>) f3)"
    using assms(2) unfolding sendRound_def Let_def q1_def q2_def np_def
    by (auto simp: option_bind_eq_Some split: if_split_asm option.split_asm)
  moreover define f1 where "f1 = setFc j ((fcAt f j)\<lparr>fc_prio := q1, fc_queue := q2\<rparr>) f"
  ultimately have "f' = f \<or> f' = f1 \<or> (\<exists>x. f' = f1\<lparr>fw_sent := x\<rparr>)
    \<or> (\<exists>x. let f3 = setDisconnected (fe_now E) j (f1\<lparr>fw_sent := x\<rparr>) in f' = setFc j ((fcAt f3 j)\<lparr>fc_looping := False\<rparr>) f3)"
    by simp
  moreover have c1: "calm i f f1" unfolding f1_def by (rule calm_setFc [OF assms(1)]) (simp add: cview_def)
  moreover have c2: "calm i f (f1\<lparr>fw_sent := x\<rparr>)" for x by (rule calm_trans [OF c1]) (simp add: calm_conns)
  moreover have "calm i f (setFc j ((fcAt f3 j)\<lparr>fc_looping := False\<rparr>) f3)" if "f3 = setDisconnected (fe_now E) j (f1\<lparr>fw_sent := x\<rparr>)" for f3 x
  proof -
    have i2: "i < length (fw_conns (f1\<lparr>fw_sent := x\<rparr>))" using calm_length [OF c2] assms(1) by simp
    have c3: "calm i f f3" unfolding that by (rule calm_trans [OF c2 calm_down [OF i2]])
    then have "i < length (fw_conns f3)" using calm_length assms(1) by simp
    then show ?thesis by (intro calm_trans [OF c3] calm_setFc) (simp_all add: cview_def)
  qed
  ultimately show ?thesis by (auto simp: Let_def)
qed

section \<open>A target that says nothing\<close>

text \<open>Steps that involve nothing received from a target; a heartbeat is that of connection \<open>j\<close>.\<close>

datatype forward_event = FHeartbeat forward_env nat | FSend forward_env nat nat | FData forward_env packet

fun forwardStep :: "forward_event \<Rightarrow> forward_world \<Rightarrow> forward_world option" where
  "forwardStep (FHeartbeat E j) fw = sendHeartbeat E j fw"
| "forwardStep (FSend E n j) fw = sendRound E n j fw"
| "forwardStep (FData E p) (f, w) = (let (a, w1) = allocPacket p w in map_option fst (fwdHandlePacket E a (f, w1)))"

fun forwardRun :: "forward_event list \<Rightarrow> forward_world \<Rightarrow> forward_world option" where
  "forwardRun [] fw = Some fw"
| "forwardRun (e # es) fw = do { fw' \<leftarrow> forwardStep e fw; forwardRun es fw' }"

fun beats :: "nat \<Rightarrow> forward_event list \<Rightarrow> nat" where
  "beats i [] = 0"
| "beats i (FHeartbeat E j # es) = (if j = i then 1 else 0) + beats i es"
| "beats i (e # es) = beats i es"

definition alive :: "forward_conn \<Rightarrow> bool" where
  "alive c \<longleftrightarrow> isConnected c \<and> fc_authed c"

definition lossOf :: "forward_conn \<Rightarrow> int" where
  "lossOf c = sint (ht_consecutiveLoss (fc_hb c))"

text \<open>A live connection has missed at least \<open>k\<close> answers, the one awaited included.\<close>

definition silent :: "nat \<Rightarrow> nat \<Rightarrow> forward \<Rightarrow> bool" where
  "silent k i f \<longleftrightarrow> (alive (fcAt f i) \<longrightarrow> 0 \<le> lossOf (fcAt f i) \<and> lossOf (fcAt f i) \<le> 4
     \<and> int k \<le> lossOf (fcAt f i) + (if ht_awaitingAck (fc_hb (fcAt f i)) then 1 else 0))"

lemma cview_alive: "cview c = cview d \<Longrightarrow> alive c = alive d \<and> lossOf c = lossOf d \<and> fc_hb c = fc_hb d"
  by (simp add: cview_def alive_def isConnected_def lossOf_def)

lemma down_dead: "\<not> fc_up c \<Longrightarrow> \<not> alive c"
  by (simp add: alive_def isConnected_def)

lemma silent_calm: "calm i f f' \<Longrightarrow> silent k i f \<Longrightarrow> silent k i f'"
  unfolding calm_def silent_def using cview_alive down_dead by metis

lemma sendHeartbeat_cases:
  assumes "sendHeartbeat E j (f, w) = Some (f', w')"
  shows "\<not> alive (fcAt f j) \<and> f' = f
    \<or> alive (fcAt f j) \<and> (\<exists>f1 loss f2. fcLost (fe_now E) j f = (f1, loss) \<and> (f2 = f1 \<or> sendAuthChallenge E j f1 = Some f2)
        \<and> (if 5 \<le> loss
           then (let f3 = setDisconnected (fe_now E) j f2
                 in f' = setFc j ((fcAt f3 j)\<lparr>fc_authed := False, fc_hb := resetHeartbeatState (fc_hb (fcAt f3 j))\<rparr>) f3)
           else (\<exists>f3 w3. fwdControl E createHeartbeat j (f2, w) = Some (f3, w3) \<and> f' = fcHeartbeatSent (fe_now E) j f3)))"
proof (cases "alive (fcAt f j)")
  case False
  then show ?thesis using assms by (auto simp: sendHeartbeat_def alive_def)
next
  case True
  obtain f1 loss where l: "fcLost (fe_now E) j f = (f1, loss)" by fastforce
  obtain f2 where f2: "(if 2 \<le> loss then sendAuthChallenge E j f1 else Some f1) = Some f2"
    using assms True l by (auto simp: sendHeartbeat_def alive_def option_bind_eq_Some)
  have "f2 = f1 \<or> sendAuthChallenge E j f1 = Some f2" using f2 by (auto split: if_splits)
  moreover have "if 5 \<le> loss
           then (let f3 = setDisconnected (fe_now E) j f2
                 in f' = setFc j ((fcAt f3 j)\<lparr>fc_authed := False, fc_hb := resetHeartbeatState (fc_hb (fcAt f3 j))\<rparr>) f3)
           else (\<exists>f3 w3. fwdControl E createHeartbeat j (f2, w) = Some (f3, w3) \<and> f' = fcHeartbeatSent (fe_now E) j f3)"
    using assms True l f2 by (auto simp: sendHeartbeat_def alive_def option_bind_eq_Some Let_def split: if_splits)
  ultimately show ?thesis using True l by blast
qed

lemma heartbeatSent_at:
  assumes "i < length (fw_conns f)"
  shows "fcAt (fcHeartbeatSent now j f) i
    = (if i = j then (fcAt f j)\<lparr>fc_hb := (fc_hb (fcAt f j))\<lparr>ht_lastSent := i64 now,
         ht_sentCount := ht_sentCount (fc_hb (fcAt f j)) + 1, ht_awaitingAck := True\<rparr>\<rparr> else fcAt f i)"
    "length (fw_conns (fcHeartbeatSent now j f)) = length (fw_conns f)"
  using assms
  by (simp_all add: fcHeartbeatSent_def Let_def noteHeartbeatSent_def fcAt_setFc
      fcAt_cong [of "setFc j c f\<lparr>fw_stats := s\<rparr>" "setFc j c f" for c s])

lemma sint_succ: "0 \<le> sint (x :: 32 word) \<Longrightarrow> sint x \<le> 4 \<Longrightarrow> sint (x + 1) = sint x + 1"
  by (simp add: sint_word_ariths(1) signed_take_bit_int_eq_self)

lemma heartbeat_other:
  assumes "i < length (fw_conns f)" "i \<noteq> j" "sendHeartbeat E j (f, w) = Some (f', w')"
  shows "calm i f f'"
proof -
  consider "f' = f" | f1 loss f2 where "fcLost (fe_now E) j f = (f1, loss)" "f2 = f1 \<or> sendAuthChallenge E j f1 = Some f2"
      "(\<exists>f3. f3 = setDisconnected (fe_now E) j f2 \<and> (\<exists>c. f' = setFc j c f3))
        \<or> (\<exists>f3 w3. fwdControl E createHeartbeat j (f2, w) = Some (f3, w3) \<and> f' = fcHeartbeatSent (fe_now E) j f3)"
    using sendHeartbeat_cases [OF assms(3)] by (fastforce simp: Let_def split: if_splits)
  then show ?thesis
  proof cases
    case 1
    then show ?thesis by simp
  next
    case 2
    note l = fcLost_at [OF assms(1) 2(1)]
    have c1: "calm i f f1" using l assms(2) by (simp add: calm_def)
    have i1: "i < length (fw_conns f1)" using calm_length [OF c1] assms(1) by simp
    have c2: "calm i f f2" using 2(2) calm_trans [OF c1 calm_challenge [OF i1]] c1 by auto
    have i2: "i < length (fw_conns f2)" using calm_length [OF c2] assms(1) by simp
    from 2(3) show ?thesis
    proof (elim disjE exE conjE)
      fix f3 c assume f3: "f3 = setDisconnected (fe_now E) j f2" "f' = setFc j c f3"
      have c3: "calm i f f3" unfolding f3(1) by (rule calm_trans [OF c2 calm_down [OF i2]])
      have "i < length (fw_conns f3)" using calm_length [OF c3] assms(1) by simp
      then have "calm i f3 f'" using assms(2) by (simp add: f3(2) calm_def fcAt_setFc)
      then show ?thesis by (rule calm_trans [OF c3])
    next
      fix f3 w3 assume f3: "fwdControl E createHeartbeat j (f2, w) = Some (f3, w3)" "f' = fcHeartbeatSent (fe_now E) j f3"
      have c3: "calm i f f3" by (rule calm_trans [OF c2 calm_control [OF i2 f3(1)]])
      have i3: "i < length (fw_conns f3)" using calm_length [OF c3] assms(1) by simp
      have "calm i f3 f'" using heartbeatSent_at [OF i3] assms(2) by (simp add: f3(2) calm_def)
      then show ?thesis by (rule calm_trans [OF c3])
    qed
  qed
qed

lemma heartbeat_counts:
  assumes "i < length (fw_conns f)" "silent k i f" "sendHeartbeat E i (f, w) = Some (f', w')"
  shows "silent (Suc k) i f' \<and> length (fw_conns f') = length (fw_conns f)"
proof (cases "alive (fcAt f i)")
  case False
  then have "f' = f" using sendHeartbeat_cases [OF assms(3)] by blast
  then show ?thesis using False by (simp add: silent_def)
next
  case True
  then obtain f1 loss f2 where s: "fcLost (fe_now E) i f = (f1, loss)" "f2 = f1 \<or> sendAuthChallenge E i f1 = Some f2"
      "if 5 \<le> loss
           then (let f3 = setDisconnected (fe_now E) i f2
                 in f' = setFc i ((fcAt f3 i)\<lparr>fc_authed := False, fc_hb := resetHeartbeatState (fc_hb (fcAt f3 i))\<rparr>) f3)
           else (\<exists>f3 w3. fwdControl E createHeartbeat i (f2, w) = Some (f3, w3) \<and> f' = fcHeartbeatSent (fe_now E) i f3)"
    using sendHeartbeat_cases [OF assms(3)] by blast
  note l = fcLost_at [OF assms(1) s(1)]
  let ?h = "fc_hb (fcAt f i)"
  have h: "0 \<le> sint (ht_consecutiveLoss ?h)" "sint (ht_consecutiveLoss ?h) \<le> 4"
      "int k \<le> sint (ht_consecutiveLoss ?h) + (if ht_awaitingAck ?h then 1 else 0)"
    using assms(2) True by (auto simp: silent_def lossOf_def)
  have n: "loss = lossOf (fcAt f1 i)" "int k \<le> loss" "0 \<le> loss"
    using h l by (auto simp: lossOf_def markPendingHeartbeatLost_def sint_succ)
  have i1: "i < length (fw_conns f1)" using l(3) assms(1) by simp
  have c2: "calm i f1 f2" using s(2) calm_challenge [OF i1] by auto
  have i2: "i < length (fw_conns f2)" using calm_length [OF c2] i1 by simp
  show ?thesis
  proof (cases "5 \<le> loss")
    case d: True
    let ?f3 = "setDisconnected (fe_now E) i f2"
    note dd = setDisconnected_at [OF i2, where j = i and now = "fe_now E"]
    have f': "f' = setFc i ((fcAt ?f3 i)\<lparr>fc_authed := False, fc_hb := resetHeartbeatState (fc_hb (fcAt ?f3 i))\<rparr>) ?f3"
      using s(3) d by (simp add: Let_def)
    have "\<not> fc_up (fcAt f' i)" using dd i2 by (simp add: f' fcAt_setFc)
    then show ?thesis using down_dead calm_length [OF c2] l(3) dd(3) by (auto simp: silent_def f')
  next
    case d: False
    then obtain f3 w3 where f3: "fwdControl E createHeartbeat i (f2, w) = Some (f3, w3)" "f' = fcHeartbeatSent (fe_now E) i f3"
      using s(3) by auto
    have c3: "calm i f1 f3" by (rule calm_trans [OF c2 calm_control [OF i2 f3(1)]])
    have i3: "i < length (fw_conns f3)" using calm_length [OF c3] i1 by simp
    note hs = heartbeatSent_at [OF i3, of "fe_now E" i]
    have len: "length (fw_conns f') = length (fw_conns f)" using hs(2) calm_length [OF c3] l(3) by (simp add: f3(2))
    have at: "alive (fcAt f' i) = alive (fcAt f3 i)" "lossOf (fcAt f' i) = lossOf (fcAt f3 i)" "ht_awaitingAck (fc_hb (fcAt f' i))"
      using hs(1) by (simp_all add: f3(2) alive_def isConnected_def lossOf_def)
    have "lossOf (fcAt f3 i) = loss" if "alive (fcAt f3 i)"
      using c3 cview_alive down_dead n(1) that unfolding calm_def by metis
    then show ?thesis using at len n d by (auto simp: silent_def)
  qed
qed

lemma forwardRun_silent:
  "forwardRun es (f, w) = Some (f', w') \<Longrightarrow> i < length (fw_conns f) \<Longrightarrow> silent k i f
    \<Longrightarrow> silent (k + beats i es) i f'"
proof (induction es arbitrary: f w k)
  case Nil
  then show ?case by simp
next
  case (Cons e es)
  then obtain f1 w1 where s: "forwardStep e (f, w) = Some (f1, w1)" "forwardRun es (f1, w1) = Some (f', w')"
    by (auto simp: option_bind_eq_Some)
  show ?case
  proof (cases "\<exists>E. e = FHeartbeat E i")
    case True
    then obtain E where e: "e = FHeartbeat E i" by blast
    then have h: "silent (Suc k) i f1" "length (fw_conns f1) = length (fw_conns f)"
      using heartbeat_counts [OF Cons.prems(2,3)] s(1) by auto
    then show ?thesis using Cons.IH [OF s(2) _ h(1)] Cons.prems(2) e by simp
  next
    case False
    have c: "calm i f f1"
    proof (cases e)
      case (FHeartbeat E j)
      then have "i \<noteq> j" using False by blast
      then show ?thesis using heartbeat_other [OF Cons.prems(2)] s(1) FHeartbeat by auto
    next
      case (FSend E n j)
      then show ?thesis using calm_sendRound [OF Cons.prems(2)] s(1) by auto
    next
      case (FData E p)
      then show ?thesis using calm_handlePacket [OF Cons.prems(2)] s(1) by (auto split: prod.splits)
    qed
    have b: "beats i (e # es) = beats i es" using False by (cases e) auto
    have "i < length (fw_conns f1)" using calm_length [OF c] Cons.prems(2) by simp
    then show ?thesis using Cons.IH [OF s(2) _ silent_calm [OF c Cons.prems(3)]] b by simp
  qed
qed

section \<open>The forwarder's side of handshake and data\<close>

lemma sendChallenge_ok:
  assumes "i < length (fw_conns f)" "isConnected (fcAt f i)" "fc_retries (fcAt f i) < 5" "fw_auth f = Some am"
    and "fe_rand E = Some ch" "length ch = 32" "96 \<le> length (fe_mem E)" "hmac_laws (fe_crypto E)" "fe_write E = None"
  shows "\<exists>f'. sendAuthChallenge E i f = Some f'
    \<and> fw_sent f' = fw_sent f @ [(i, challengeBytes (fe_crypto E) (am_secret am) MsgTypeAuthChallenge ch
          (fw_forwardID f) (fc_poolID (fcAt f i)) (unixMilli (fe_now E)))]
    \<and> fw_auth f' = Some (am\<lparr>am_challengeCache := (am_challengeCache am)(ch \<mapsto> fe_now E)\<rparr>)
    \<and> length (fw_conns f') = length (fw_conns f) \<and> fcAt f' i = (fcAt f i)\<lparr>fc_retries := fc_retries (fcAt f i) + 1\<rparr>"
proof -
  let ?c = "(fcAt f i)\<lparr>fc_retries := fc_retries (fcAt f i) + 1\<rparr>"
  let ?am = "am\<lparr>am_challengeCache := (am_challengeCache am)(ch \<mapsto> fe_now E)\<rparr>"
  let ?f2 = "(setFc i ?c f)\<lparr>fw_auth := Some ?am\<rparr>"
  let ?msg = "challengeBytes (fe_crypto E) (am_secret am) MsgTypeAuthChallenge ch (fw_forwardID f) (fc_poolID (fcAt f i)) (unixMilli (fe_now E))"
  let ?b = "(full_slice (fe_mem E))\<lparr>sl_mem := ?msg @ drop 96 (fe_mem E)\<rparr>"
  have c: "createAuthChallenge (fe_crypto E) (fe_now E) (fe_rand E) MsgTypeAuthChallenge (fw_forwardID f)
      (fc_poolID (fcAt f i)) (full_slice (fe_mem E)) am = Some (?am, ?b, Inr 96)"
    using createAuthChallenge_bytes [OF _ _ assms(6,8), of "full_slice (fe_mem E)"] assms(5,7)
    by (simp add: full_slice_def sl_wf_def sl_cap_def)
  have n: "length ?msg = 96" using assms(6,8) by (simp add: challengeBytes_def challengeMAC_def hmac_laws_def)
  have o: "sl_range ?b 0 96 = Some \<lparr>sl_mem = sl_mem ?b, sl_len = 96\<rparr>" by (simp add: sl_range_def sl_cap_def n)
  have at: "fcAt ?f2 i = ?c" using assms(1) by (simp add: fcAt_def setFc_def)
  then have up: "isConnected (fcAt ?f2 i)" using assms(2) by (simp add: isConnected_def)
  have "sendAuthChallenge E i f = Some (?f2\<lparr>fw_sent := fw_sent ?f2 @ [(i, ?msg)]\<rparr>)"
    using assms(2-4,9) c o n up by (simp add: sendAuthChallenge_def Let_def sl_data_def writeDirect_def)
  then show ?thesis using at by (simp add: setFc_def fcAt_def)
qed

lemma authResponse_ok:
  assumes "i < length (fw_conns f)" "fw_auth f = Some am" "hmac_laws (fe_crypto E)"
    and p: "pk_full (w_config w) (pkAt w a)"
      "pk_bytes (pkAt w a) = challengeBytes (fe_crypto E) (am_secret am) MsgTypeAuthResponse ch fid pid ts"
    and ch: "length ch = 32" "am_challengeCache am ch = None" "time_sub (fe_now E) (timeOfMilli ts) \<le> am_authTimeout am"
  shows "\<exists>f'. handleForwarderPacket rt E i a (f, w) = Some ((f', w), False) \<and> fc_authed (fcAt f' i)
    \<and> isConnected (fcAt f' i) = isConnected (fcAt f i) \<and> fw_auth f' \<noteq> None"
proof -
  let ?h = "\<lparr>ph_version = ProtocolVersion, ph_msgType = MsgTypeAuthResponse, ph_reserved = 0, ph_length = 88\<rparr>"
  have nd: "MsgTypeAuthResponse \<noteq> MsgTypeData" by (simp add: auth_consts)
  note fr = challenge_frame [OF p assms(3) ch(1) nd]
  obtain buf data where d: "getData (pkAt w a) = Some buf" "sl_range buf HeaderSize (uint (8 + ph_length ?h)) = Some data"
      "sl_data data = drop 8 (challengeBytes (fe_crypto E) (am_secret am) MsgTypeAuthResponse ch fid pid ts)"
    using fr(3) by blast
  let ?f1 = "f\<lparr>fw_auth := Some am\<rparr>"
  have f1: "?f1 = f" using assms(2) by simp
  let ?am = "am\<lparr>am_challengeCache := (am_challengeCache am)(ch \<mapsto> fe_now E), am_cleanupPending := True\<rparr>"
  have pr: "processAuthChallenge (fe_crypto E) (fe_now E) (sl_data data) am = (?am, Inr (fid, pid))"
    by (rule processAuthChallenge_own [OF ch(1) assms(3) d(3) ch(2,3)])
  let ?f' = "setFc i ((fcAt f i)\<lparr>fc_authed := True, fc_retries := 0\<rparr>) (f\<lparr>fw_auth := Some ?am\<rparr>)"
  have o: "onAuthResponse E i ?h buf am f = Some ?f'" using d(2) pr by (simp add: onAuthResponse_def)
  have "fwdAuthMessage E i ?h buf am (?f1, setPk a (pkAt w a) w) = Some (?f', setPk a (pkAt w a) w)"
    unfolding f1 fwdAuthMessage_def Let_def by (simp add: o)
  moreover have "setPk a (pkAt w a) w = w" by (simp add: setPk_def pkAt_def)
  ultimately have "handleForwarderPacket rt E i a (f, w) = Some ((?f', w), False)"
    using assms(2) fr(1,2) d(1) nd by (simp add: handleForwarderPacket_def fwdAdmit_def Let_def)
  moreover have "fcAt ?f' i = (fcAt f i)\<lparr>fc_authed := True, fc_retries := 0\<rparr>"
    using assms(1) by (simp add: fcAt_def setFc_def)
  ultimately show ?thesis by (simp add: isConnected_def setFc_def)
qed

lemma refRelease_bytes:
  assumes "refRelease a w = Some w'" "a < length (w_heap w)"
  shows "\<exists>n. pkAt w' a = (pkAt w a)\<lparr>pk_count := n\<rparr>"
  using assms by (auto simp: refRelease_def release_def Let_def option_bind_eq_Some pkAt_setPk split: if_splits)
    (auto simp: pkAt_def setPk_def)

text \<open>A packet for the only target: queued, and written by the next round of the send loop.\<close>

lemma data_written:
  assumes c: "fw_conns f = [c]" "isConnected c" "fc_authed c" "\<not> fc_closed c" "fc_looping c" "fc_queue c = []" "fc_prio c = []"
    and f: "\<not> fw_stopped f" "0 < fw_queueSize f" "fw_auth f = Some am"
    and w: "wrapData (fe_crypto E) (w_config w) (fe_now E) (fe_rand E) (fe_mem E) (fe_mem2 E) am (pkAt w a) = Some (am', q, None)"
      "pk_wf (w_config w) q" "a < length (w_heap w)"
    and E': "fe_write E' = None" "0 < n"
  shows "\<exists>f1 w1 f2 w2. fwdHandlePacket E a (f, w) = Some ((f1, w1), None) \<and> sendRound E' n 0 (f1, w1) = Some (f2, w2)
    \<and> fw_sent f2 = fw_sent f @ [(0, pk_bytes q)]"
proof -
  let ?f1 = "f\<lparr>fw_auth := Some am'\<rparr>"
  let ?w1 = "setPk a q w"
  have at: "fcAt ?f1 0 = c" "length (fw_conns ?f1) = 1" by (simp_all add: fcAt_def c(1))
  have mc: "mayCarry ?f1 0" by (simp add: mayCarry_def at(1) c(2,3))
  let ?w2 = "refAdd a ?w1"
  let ?f2 = "setFc 0 (c\<lparr>fc_queue := [a]\<rparr>) ?f1"
  have e: "enqueuePacket False 0 a (?f1, ?w1) = Some (?f2, ?w2)"
    using c f by (simp add: enqueuePacket_def at(1) Let_def)
  have q2: "pkAt ?w2 a = addRef 1 q" using w(3) by (simp add: refAdd_def pkAt_setPk)
  have wf2: "pk_wf (w_config ?w2) (pkAt ?w2 a)" using w(2) unfolding q2 by (simp add: addRef_def pk_wf_def refAdd_def)
  obtain w3 where w3: "refRelease a ?w2 = Some w3" "w_config w3 = w_config ?w2" "length (w_heap w3) = length (w_heap ?w2)"
    using refRelease_wf [OF wf2] by blast
  have h: "fwdHandlePacket E a (f, w) = Some ((?f2, w3), None)"
    using f(3) w(1) at(2) mc e w3(1) by (simp add: fwdHandlePacket_def Let_def)
  obtain k where k: "pkAt w3 a = q\<lparr>pk_count := k\<rparr>"
    using refRelease_bytes [OF w3(1)] w(3) q2 by (auto simp: refAdd_def addRef_def)
  have wf3: "pk_wf (w_config w3) (pkAt w3 a)" using w(2) w3(2) by (simp add: k pk_wf_def refAdd_def)
  obtain s where s: "getData (pkAt w3 a) = Some s" "sl_data s = pk_bytes q"
    using getData_wf [OF wf3] sl_data_getData [of "pkAt w3 a"] by (auto simp: k pk_bytes_def)
  obtain w4 where w4: "refRelease a w3 = Some w4" using refRelease_wf [OF wf3] by blast
  have at2: "fcAt ?f2 0 = c\<lparr>fc_queue := [a]\<rparr>" by (simp add: fcAt_def setFc_def c(1))
  have up: "isConnected (c\<lparr>fc_queue := [a]\<rparr>)" using c(2) by (simp add: isConnected_def)
  have n: "take n [a] = [a]" using E'(2) by (cases n) simp_all
  let ?f3 = "setFc 0 ((c\<lparr>fc_queue := [a]\<rparr>)\<lparr>fc_prio := [], fc_queue := drop n [a]\<rparr>) ?f2"
  have "sendRound E' n 0 (?f2, w3) = Some (?f3\<lparr>fw_sent := fw_sent ?f3 @ [(0, pk_bytes q)]\<rparr>, w4)"
    using E'(1) c(5,7) up n s w4 by (simp add: sendRound_def Let_def at2)
  then show ?thesis using h by (auto simp: setFc_def)
qed

section \<open>Properties\<close>

text \<open>C22. A silent target is given up: whatever is sent meanwhile, after six heartbeats of a connection with nothing
  received from its target, the connection is no longer up and authenticated, so that no more data is
  queued for it.\<close>

theorem forward_gives_up_silent_target:
  assumes "forwardRun es (f, w) = Some (f', w')" "i < length (fw_conns f)" "6 \<le> beats i es"
    and "ht_consecutiveLoss (fc_hb (fcAt f i)) = 0" "fw_auth f' \<noteq> None"
  shows "\<not> mayCarry f' i"
proof -
  have "silent 0 i f" using assms(4) by (simp add: silent_def lossOf_def)
  then have "silent (beats i es) i f'" using forwardRun_silent [OF assms(1,2)] by fastforce
  then have "\<not> alive (fcAt f' i)" using assms(3) by (auto simp: silent_def split: if_splits)
  then show ?thesis using assms(5) by (auto simp: mayCarry_def alive_def)
qed

definition demoForwardEnv :: "gotime \<Rightarrow> forward_env" where
  "demoForwardEnv now = \<lparr>fe_crypto = demoCrypto, fe_floats = exact_floats, fe_now = now, fe_rand = None,
     fe_mem = replicate 16 0, fe_mem2 = replicate 16 0, fe_dial = Some 2, fe_write = None\<rparr>"

definition demoConn :: "int \<Rightarrow> forward_conn" where
  "demoConn port = \<lparr>fc_target = demoAddr port, fc_socket = Some 1, fc_up = True, fc_lastReconnect = 0, fc_authed = True,
     fc_retries = 0, fc_hb = empty_hb_tracker, fc_poolID = 0, fc_queue = [], fc_prio = [], fc_closed = False,
     fc_looping = True, fc_autorate = None, fc_queueDelay = 0\<rparr>"

definition demoForward :: "auth_manager option \<Rightarrow> forward" where
  "demoForward am = (newForward ''fw'' 5 30 [''out''] None demoConfig 11 am demoHb)\<lparr>fw_conns := [demoConn 9]\<rparr>"

definition demoForwardWorld :: world where
  "demoForwardWorld = \<lparr>w_config = \<lparr>rc_bufferSize = 8, rc_bufferOffset = 8, rc_queueSize = 8, rc_workerCount = 1\<rparr>,
     w_comps = (\<lambda>_. None), w_heap = [], w_put = [], w_bufferRef = 0, w_held = []\<rparr>"

definition demoSilence :: "forward_event list" where
  "demoSilence = map (\<lambda>t. FHeartbeat (demoForwardEnv (int t)) 0) [1 ..< 7]"

lemma demo_silence:
  "case forwardRun demoSilence (demoForward (Some (demoManager False [])), demoForwardWorld) of
     Some (f, w) \<Rightarrow> fw_auth f \<noteq> None | None \<Rightarrow> False"
  by code_simp

theorem forward_gives_up_silent_target_witness:
  "\<exists>f w. forwardRun demoSilence (demoForward (Some (demoManager False [])), demoForwardWorld) = Some (f, w) \<and> \<not> mayCarry f 0"
proof -
  obtain f w where r: "forwardRun demoSilence (demoForward (Some (demoManager False [])), demoForwardWorld) = Some (f, w)" "fw_auth f \<noteq> None"
    using demo_silence by (auto split: option.splits)
  have "6 \<le> beats 0 demoSilence" by (simp add: demoSilence_def upt_rec)
  then show ?thesis using forward_gives_up_silent_target [OF r(1), of 0] r
    by (auto simp: demoForward_def demoConn_def fcAt_def empty_hb_tracker_def)
qed

text \<open>Any datagram that claims to be an authentication response and is not takes an authenticated
  connection out of service until the next handshake: data is no longer queued for it. No
  secret is needed to send one.\<close>

theorem forward_bogus_response_deauthenticates:
  assumes "fw_auth f = Some am" "i < length (fw_conns f)" "pk_full (w_config w) (pkAt w a)" "HeaderSize \<le> pk_length (pkAt w a)"
    and "h = frameHeader (pk_bytes (pkAt w a))" "ph_version h = ProtocolVersion" "ph_msgType h = MsgTypeAuthResponse"
    and "getData (pkAt w a) = Some buf" "8 \<le> uint (8 + ph_length h)" "uint (8 + ph_length h) \<le> sl_cap buf"
    and "\<not> macOk (fe_crypto E) (am_secret am) (challengeData h buf)"
  shows "\<exists>f' w'. handleForwarderPacket rt E i a (f, w) = Some ((f', w'), False) \<and> \<not> mayCarry f' i"
proof -
  let ?p = "pkAt w a"
  have u: "unwrapData (fe_crypto E) (w_config w) (fe_now E) (fe_mem2 E) am ?p
      = Some \<lparr>ur_am = am, ur_packet = ?p, ur_header = Some h, ur_err = None\<rparr>"
    using assms(4-7) by (simp add: unwrapData_full [OF assms(3)] Let_def auth_consts)
  have d: "sl_range buf HeaderSize (uint (8 + ph_length h)) = Some \<lparr>sl_mem = drop 8 (sl_mem buf), sl_len = uint (8 + ph_length h) - 8\<rparr>"
    using assms(9,10) by (simp add: sl_range_def HeaderSize_def)
  let ?d = "take (nat (uint (8 + ph_length h) - 8)) (drop 8 (sl_mem buf))"
  obtain am1 r where pr: "processAuthChallenge (fe_crypto E) (fe_now E) ?d am = (am1, r)" by fastforce
  have "\<exists>e. r = Inl e"
  proof (cases r)
    case (Inr ids)
    then show ?thesis using processAuth_mac [OF pr [unfolded Inr]] assms(11) by (simp add: challengeData_def)
  qed simp
  then obtain e where e: "r = Inl e" ..
  let ?f1 = "f\<lparr>fw_auth := Some am\<rparr>"
  let ?f' = "setFc i ((fcAt ?f1 i)\<lparr>fc_authed := False\<rparr>) (?f1\<lparr>fw_auth := Some am1\<rparr>)"
  have "onAuthResponse E i h buf am ?f1 = Some ?f'" using d pr e by (simp add: onAuthResponse_def sl_data_def)
  then have "fwdAuthMessage E i h buf am (?f1, setPk a ?p w) = Some (?f', setPk a ?p w)"
    using assms(7) by (simp add: fwdAuthMessage_def Let_def)
  then have "handleForwarderPacket rt E i a (f, w) = Some ((?f', setPk a ?p w), False)"
    using assms(1,4,7,8) u by (simp add: handleForwarderPacket_def fwdAdmit_def Let_def auth_consts)
  moreover have "\<not> mayCarry ?f' i" using assms(2) by (simp add: mayCarry_def fcAt_def setFc_def)
  ultimately show ?thesis by blast
qed

theorem forward_bogus_response_deauthenticates_witness:
  "\<exists>f' w'. handleForwarderPacket (\<lambda>a ts w. Some w) (demoForwardEnv 5) 0 0 (demoForward (Some (demoManager False [])),
      demoListenWorld\<lparr>w_heap := [received demoConfig (headerBytes MsgTypeAuthResponse 0)]\<rparr>) = Some ((f', w'), False) \<and> \<not> mayCarry f' 0"
proof -
  let ?p = "received demoConfig (headerBytes MsgTypeAuthResponse 0)"
  let ?w = "demoListenWorld\<lparr>w_heap := [?p]\<rparr>"
  have r: "pk_full demoConfig ?p" "pk_bytes ?p = headerBytes MsgTypeAuthResponse 0" by (rule received_full; simp)+
  have p: "pkAt ?w 0 = ?p" "w_config ?w = demoConfig" by (simp_all add: pkAt_def demoListenWorld_def)
  have f: "frameHeader (pk_bytes ?p) =
     \<lparr>ph_version = ProtocolVersion, ph_msgType = MsgTypeAuthResponse, ph_reserved = 0, ph_length = 0\<rparr>"
    using frameHeader_bytes [of MsgTypeAuthResponse 0 "[]"] by (simp add: r(2))
  obtain buf where b: "getData ?p = Some buf" "sl_cap buf = 164"
    using getData_wf r(1) by (auto simp: pk_full_def received_def getPacketWithBuffer_def sl_cap_def full_slice_def)
  show ?thesis
    by (rule forward_bogus_response_deauthenticates [OF _ _ _ _ refl, where am = "demoManager False []" and buf = buf])
      (use r p f b in \<open>simp_all add: demoForward_def newForward_def received_def HeaderSize_def macOk_def challengeData_def\<close>)
qed

end
