(* ===== verification/UdpTunnel.thy ===== *)
theory UdpTunnel
  imports Forward
begin

section \<open>What one peer wraps the other admits\<close>

lemma wrap_passes:
  assumes keys: "activeKey amS = activeKey amR" and laws: "gcm_laws cr"
    and p: "pk_wf c p" "16 < pk_offset p" "pk_offset p \<le> sl_len (pk_buf p)" "pk_length p + 52 \<le> poolSize c" "poolSize c < 2 ^ 32"
    and mem: "pool_mem c m1" "pool_mem c m2" "pool_mem c' m"
    and enc: "activeKey amS \<noteq> None \<Longrightarrow> generateNextNonce rand (am_dedup amS) = (dm, Some nonce) \<and> length nonce = 12
      \<and> \<not> isDuplicate nonce (am_dedup amR) \<and> time_sub now' (timeOfMilli (unixMilli now)) \<le> am_dataTimeout amR"
  shows "\<exists>amS' q. wrapData cr c now rand m1 m2 amS p = Some (amS', q, None) \<and> pk_wf c q \<and>
    (\<forall>q'. pk_full c' q' \<and> pk_bytes q' = pk_bytes q \<longrightarrow>
      HeaderSize \<le> pk_length q' \<and> (\<exists>r h. unwrapData cr c' now' m amR q' = Some r \<and> ur_err r = None \<and> ur_header r = Some h
        \<and> ph_msgType h = MsgTypeData \<and> pk_connID (ur_packet r) = pk_connID p \<and> pk_bytes (ur_packet r) = pk_bytes p))"
proof -
  have len: "length (pk_bytes p) + 52 < 2 ^ 32" using length_pk_bytes [OF p(1)] p(4,5) p(1) by (simp add: pk_wf_def)
  have hd: "HeaderSize \<le> pk_length q' \<and> (\<exists>h. ur_header r = Some h \<and> ph_msgType h = MsgTypeData)"
    if "pk_full c' q'" "pk_bytes q' = headerBytes MsgTypeData k @ xs" "unwrapData cr c' now' m amR q' = Some r" "ur_err r = None" for q' r k xs
  proof -
    have wf: "pk_wf c' q'" using that(1) by (simp add: pk_full_def)
    have "length (pk_bytes q') \<ge> 8" by (simp add: that(2))
    then have "HeaderSize \<le> pk_length q'" using length_pk_bytes [OF wf] wf by (simp add: HeaderSize_def pk_wf_def)
    then show ?thesis using unwrapData_header [OF that(1,3,4)] by (simp add: that(2) frameHeader_bytes)
  qed
  show ?thesis
  proof (cases "activeKey amS")
    case None
    obtain q where q: "wrapPlain c m1 p = Some q" "pk_wf c q" "pk_bytes q = plainFrame (pk_connID p) (pk_bytes p)"
      using wrapPlain_frame [OF p(1) _ p(3)] p(2) by fastforce
    have "\<exists>r h. unwrapData cr c' now' m amR q' = Some r \<and> ur_err r = None \<and> ur_header r = Some h
        \<and> ph_msgType h = MsgTypeData \<and> pk_connID (ur_packet r) = pk_connID p \<and> pk_bytes (ur_packet r) = pk_bytes p"
        "HeaderSize \<le> pk_length q'"
      if q': "pk_full c' q'" "pk_bytes q' = pk_bytes q" for q'
    proof -
      obtain r where r: "unwrapData cr c' now' m amR q' = Some r" "ur_err r = None" "pk_connID (ur_packet r) = pk_connID p"
          "pk_bytes (ur_packet r) = pk_bytes p"
        using unwrap_plainFrame [OF q'(1) q'(2) [unfolded q(3)], where am = amR and cr = cr and now = now' and m = m] keys None len by auto
      have b: "pk_bytes q' = headerBytes MsgTypeData (word_of_nat (length (pk_bytes p) + 8)) @ put_u64 (pk_connID p) @ pk_bytes p"
        by (simp add: q'(2) q(3) plainFrame_def)
      show "\<exists>r h. unwrapData cr c' now' m amR q' = Some r \<and> ur_err r = None \<and> ur_header r = Some h
        \<and> ph_msgType h = MsgTypeData \<and> pk_connID (ur_packet r) = pk_connID p \<and> pk_bytes (ur_packet r) = pk_bytes p"
        "HeaderSize \<le> pk_length q'"
        using hd [OF q'(1) b r(1,2)] r by auto
    qed
    then show ?thesis using q(1,2) None by (auto simp: wrapData_def)
  next
    case (Some key)
    have e: "generateNextNonce rand (am_dedup amS) = (dm, Some nonce)" "length nonce = 12" "\<not> isDuplicate nonce (am_dedup amR)"
      "time_sub now' (timeOfMilli (unixMilli now)) \<le> am_dataTimeout amR" using enc Some by auto
    have st: "stampable c p" using p(1-3) by (simp add: stampable_def)
    obtain am' q where q: "wrapEncrypted cr c now rand m1 m2 key amS p = Some (am', q, None)" "pk_wf c q"
        "pk_bytes q = sealedFrame cr key nonce (unixMilli now) (pk_connID p) (pk_bytes p)"
      using wrapEncrypted_frame [OF st mem(1,2) laws p(4) e(1,2)] by blast
    have "\<exists>r h. unwrapData cr c' now' m amR q' = Some r \<and> ur_err r = None \<and> ur_header r = Some h
        \<and> ph_msgType h = MsgTypeData \<and> pk_connID (ur_packet r) = pk_connID p \<and> pk_bytes (ur_packet r) = pk_bytes p"
        "HeaderSize \<le> pk_length q'"
      if q': "pk_full c' q'" "pk_bytes q' = pk_bytes q" for q'
    proof -
      obtain r where r: "unwrapData cr c' now' m amR q' = Some r" "ur_err r = None" "pk_connID (ur_packet r) = pk_connID p"
          "pk_bytes (ur_packet r) = pk_bytes p"
        using unwrap_sealedFrame [OF q'(1) q'(2) [unfolded q(3)] _ laws e(2) mem(3) e(3,4)] keys Some len by auto
      obtain k xs where b: "pk_bytes q' = headerBytes MsgTypeData k @ xs"
        by (simp add: q'(2) q(3) sealedFrame_def Let_def)
      show "\<exists>r h. unwrapData cr c' now' m amR q' = Some r \<and> ur_err r = None \<and> ur_header r = Some h
        \<and> ph_msgType h = MsgTypeData \<and> pk_connID (ur_packet r) = pk_connID p \<and> pk_bytes (ur_packet r) = pk_bytes p"
        "HeaderSize \<le> pk_length q'"
        using hd [OF q'(1) b r(1,2)] r by auto
    qed
    then show ?thesis using q(1,2) Some by (auto simp: wrapData_def)
  qed
qed

lemma admit_keeps:
  assumes "tables_ok l" "ls_auth l = Some am" "admit E a ad (l, w) = Some ((l', w'), True)"
  shows "addrKey ad \<in> authedKeys l'"
proof -
  obtain w1 where w1: "admitAuth E a ad am (l, w) = Some ((l', w1), True)"
    using assms(2,3) by (auto simp: admit_def option_bind_eq_Some split: if_splits)
  obtain am' i where u: "map_of (ls_mappings l) (addrKey ad) = Some i" "lcAuthed (connAt l i)"
      "l' = touchConn (le_now E) i (l\<lparr>ls_auth := Some am'\<rparr>)"
    using admitAuth_ok [OF w1] by blast
  have "i < length (ls_conns l)" using u(1) tables_key [OF assms(1)] by blast
  then have "connAt l' i = (connAt l i)\<lparr>lc_lastActive := le_now E\<rparr>" unfolding u(3) by (subst at_touch) (simp_all add: connAt_def)
  moreover have "ls_mappings l' = ls_mappings l" unfolding u(3) by (simp add: at_touch)
  ultimately show ?thesis using u(1,2) by (auto simp: authedKeys_def lcAuthed_def dest!: map_of_SomeD)
qed

section \<open>Properties\<close>

text \<open>C6. A forwarder and a listener that share a secret authenticate each other over the network: the challenge
  the forwarder sends makes the listener admit the forwarder's address and answer, and the answer makes
  the forwarder use the connection for data, when the messages arrive in full and in time and the random challenges are new.\<close>

theorem tunnel_handshake:
  assumes f: "i < length (fw_conns f)" "isConnected (fcAt f i)" "fc_retries (fcAt f i) < 5" "fw_auth f = Some amF"
    and l: "tables_ok l" "ls_auth l = Some amL" "\<not> ls_replaceOld l" "am_secret amL = am_secret amF"
    and cr: "hmac_laws cr" "fe_crypto E1 = cr" "le_crypto E2 = cr" "fe_crypto E3 = cr" "order_ok E2"
    and ch: "fe_rand E1 = Some ch" "length ch = 32" "am_challengeCache amL ch = None"
      "le_rand E2 = Some ch'" "length ch' = 32" "am_challengeCache amF ch' = None" "ch' \<noteq> ch"
    and mem: "96 \<le> length (fe_mem E1)" "96 \<le> length (le_mem E2)" "fe_write E1 = None"
    and time: "time_sub (le_now E2) (timeOfMilli (unixMilli (fe_now E1))) \<le> am_authTimeout amL"
      "time_sub (fe_now E3) (timeOfMilli (unixMilli (le_now E2))) \<le> am_authTimeout amF"
  shows "\<exists>f1 msg. sendAuthChallenge E1 i f = Some f1 \<and> fw_sent f1 = fw_sent f @ [(i, msg)] \<and>
    (\<forall>w a. pk_full (w_config w) (pkAt w a) \<and> pk_bytes (pkAt w a) = msg \<longrightarrow>
      (\<exists>l1 answer. handleIncoming rt E2 a ad (l, w) = Some ((l1, w), False) \<and> addrKey ad \<in> authedKeys l1
        \<and> ls_sent l1 = ls_sent l @ [(answer, ad)] \<and>
        (\<forall>v b. pk_full (w_config v) (pkAt v b) \<and> pk_bytes (pkAt v b) = answer \<longrightarrow>
          (\<exists>f2. handleForwarderPacket rt E3 i b (f1, v) = Some ((f2, v), False) \<and> mayCarry f2 i))))"
proof -
  let ?s = "am_secret amF" and ?F = "fw_forwardID f" and ?P = "fc_poolID (fcAt f i)"
  let ?msg = "challengeBytes cr ?s MsgTypeAuthChallenge ch ?F ?P (unixMilli (fe_now E1))"
  let ?answer = "challengeBytes cr ?s MsgTypeAuthResponse ch' ?F ?P (unixMilli (le_now E2))"
  let ?am1 = "amF\<lparr>am_challengeCache := (am_challengeCache amF)(ch \<mapsto> fe_now E1)\<rparr>"
  have h1: "hmac_laws (fe_crypto E1)" "hmac_laws (le_crypto E2)" "hmac_laws (fe_crypto E3)" using cr by simp_all
  obtain f1 where f1: "sendAuthChallenge E1 i f = Some f1" "fw_sent f1 = fw_sent f @ [(i, ?msg)]" "fw_auth f1 = Some ?am1"
      "length (fw_conns f1) = length (fw_conns f)" "fcAt f1 i = (fcAt f i)\<lparr>fc_retries := fc_retries (fcAt f i) + 1\<rparr>"
    using sendChallenge_ok [OF f ch(1,2) mem(1) h1(1) mem(3)] cr(2) by auto
  have listener: "\<exists>l1. handleIncoming rt E2 a ad (l, w) = Some ((l1, w), False) \<and> addrKey ad \<in> authedKeys l1
      \<and> ls_sent l1 = ls_sent l @ [(?answer, ad)]"
    if "pk_full (w_config w) (pkAt w a)" "pk_bytes (pkAt w a) = ?msg" for w a
    using handshake_ok [OF l(1) cr(5) l(2) h1(2) that(1) _ ch(2,3) time(1) ch(4,5) mem(2), where ad = ad and rt = rt] that(2) l(3,4) cr(3)
    by auto
  have forwarder: "\<exists>f2. handleForwarderPacket rt E3 i b (f1, v) = Some ((f2, v), False) \<and> mayCarry f2 i"
    if v: "pk_full (w_config v) (pkAt v b)" "pk_bytes (pkAt v b) = ?answer" for v b
  proof -
    have i1: "i < length (fw_conns f1)" using f(1) f1(4) by simp
    have m: "pk_bytes (pkAt v b) = challengeBytes (fe_crypto E3) (am_secret ?am1) MsgTypeAuthResponse ch' ?F ?P (unixMilli (le_now E2))"
      using v(2) cr(4) by simp
    have n: "am_challengeCache ?am1 ch' = None" using ch(6,7) by simp
    have t: "time_sub (fe_now E3) (timeOfMilli (unixMilli (le_now E2))) \<le> am_authTimeout ?am1" using time(2) by simp
    show ?thesis
      using authResponse_ok [OF i1 f1(3) h1(3) v(1) m ch(5) n t, where rt = rt] f(2) f1(5) by (auto simp: mayCarry_def isConnected_def)
  qed
  show ?thesis using f1(1,2) listener forwarder by blast
qed

definition demoDialEnv :: "gotime \<Rightarrow> forward_env" where
  "demoDialEnv now = (demoForwardEnv now)\<lparr>fe_rand := Some (replicate 32 9), fe_mem := replicate 164 0, fe_mem2 := replicate 164 0\<rparr>"

lemmas demo_times = unixMilli_def ns_milli_def timeOfMilli_def time_sub_def DefaultAuthTimeout_def DefaultDataTimeout_def
  ns_second_def min_i64_def max_i64_def

theorem tunnel_handshake_witness:
  "\<exists>f1 msg. sendAuthChallenge (demoDialEnv 5000000) 0 (demoForward (Some (demoManager False []))) = Some f1
     \<and> (\<forall>w a. pk_full (w_config w) (pkAt w a) \<and> pk_bytes (pkAt w a) = msg \<longrightarrow>
        (\<exists>l1. handleIncoming (\<lambda>a ts w. Some w) (demoListenEnv 6000000 1) a (demoAddr 9)
           (demoListen (Some (demoManager False [])) False, w) = Some ((l1, w), False) \<and> addrKey (demoAddr 9) \<in> authedKeys l1))"
proof -
  let ?f = "demoForward (Some (demoManager False []))" and ?l = "demoListen (Some (demoManager False [])) False"
  have f: "0 < length (fw_conns ?f)" "isConnected (fcAt ?f 0)" "fc_retries (fcAt ?f 0) < 5" "fw_auth ?f = Some (demoManager False [])"
    by (simp_all add: demoForward_def demoConn_def fcAt_def isConnected_def newForward_def)
  have l: "tables_ok ?l" "ls_auth ?l = Some (demoManager False [])" "\<not> ls_replaceOld ?l"
    unfolding demoListen_def by (rule newListen_tables) (simp_all add: newListen_def Let_def)
  note t = tunnel_handshake [OF f l(1,2,3) refl, where cr = demoCrypto and ch = "replicate 32 9" and ch' = "replicate 32 7"
      and ?E1.0 = "demoDialEnv 5000000" and ?E2.0 = "demoListenEnv 6000000 1" and ?E3.0 = "demoDialEnv 7000000"
      and rt = "\<lambda>a ts w. Some w" and ad = "demoAddr 9"]
  have e: "order_ok (demoListenEnv 6000000 1)" "fe_crypto (demoDialEnv n) = demoCrypto" "le_crypto (demoListenEnv 6000000 1) = demoCrypto"
    "fe_rand (demoDialEnv n) = Some (replicate 32 9)" "le_rand (demoListenEnv 6000000 1) = Some (replicate 32 7)" "fe_write (demoDialEnv n) = None"
    "length (fe_mem (demoDialEnv n)) = 164" "length (le_mem (demoListenEnv 6000000 1)) = 164" "fe_now (demoDialEnv n) = n"
    "le_now (demoListenEnv 6000000 1) = 6000000" for n
    by (simp_all add: order_ok_def demoListenEnv_def demoDialEnv_def demoForwardEnv_def)
  have "replicate 32 (7 :: byte) ! 0 \<noteq> replicate 32 9 ! 0" by simp
  then have d: "replicate 32 (7 :: byte) \<noteq> replicate 32 9" by metis
  have h: "\<exists>f1 msg. sendAuthChallenge (demoDialEnv 5000000) 0 ?f = Some f1 \<and> fw_sent f1 = fw_sent ?f @ [(0, msg)] \<and>
    (\<forall>w a. pk_full (w_config w) (pkAt w a) \<and> pk_bytes (pkAt w a) = msg \<longrightarrow>
      (\<exists>l1 answer. handleIncoming (\<lambda>a ts w. Some w) (demoListenEnv 6000000 1) a (demoAddr 9) (?l, w) = Some ((l1, w), False)
        \<and> addrKey (demoAddr 9) \<in> authedKeys l1 \<and> ls_sent l1 = ls_sent ?l @ [(answer, demoAddr 9)] \<and>
        (\<forall>v b. pk_full (w_config v) (pkAt v b) \<and> pk_bytes (pkAt v b) = answer \<longrightarrow>
          (\<exists>f2. handleForwarderPacket (\<lambda>a ts w. Some w) (demoDialEnv 7000000) 0 b (f1, v) = Some ((f2, v), False) \<and> mayCarry f2 0))))"
    by (rule t) (simp_all only: e demo_laws d demo_manager, simp_all add: demo_times)
  then show ?thesis by meson
qed

text \<open>C1. Data goes through the tunnel unchanged: a packet handed to a forwarder whose target is up and authenticated is
  written to it by the next round of the send loop, and the listener that receives the datagram
  from an authenticated address hands a packet with exactly those bytes, and the sender's address, to the router;
  with encryption and without.\<close>

theorem tunnel_delivers:
  assumes c: "fw_conns f = [c]" "isConnected c" "fc_authed c" "\<not> fc_closed c" "fc_looping c" "fc_queue c = []" "fc_prio c = []"
    and f: "\<not> fw_stopped f" "0 < fw_queueSize f" "fw_auth f = Some amF" "fe_write E' = None" "0 < n"
    and l: "tables_ok l" "ls_auth l = Some amL" "addrKey ad \<in> authedKeys l" "le_crypto E2 = fe_crypto E"
    and keys: "activeKey amF = activeKey amL" and laws: "gcm_laws (fe_crypto E)"
    and p: "a < length (w_heap w)" "pk_wf (w_config w) (pkAt w a)" "16 < pk_offset (pkAt w a)"
      "pk_offset (pkAt w a) \<le> sl_len (pk_buf (pkAt w a))" "pk_length (pkAt w a) + 52 \<le> poolSize (w_config w)" "poolSize (w_config w) < 2 ^ 32"
    and mem: "pool_mem (w_config w) (fe_mem E)" "pool_mem (w_config w) (fe_mem2 E)" "pool_mem cl (le_mem2 E2)"
    and enc: "activeKey amF \<noteq> None \<Longrightarrow> generateNextNonce (fe_rand E) (am_dedup amF) = (dm, Some nonce) \<and> length nonce = 12
      \<and> \<not> isDuplicate nonce (am_dedup amL) \<and> time_sub (le_now E2) (timeOfMilli (unixMilli (fe_now E))) \<le> am_dataTimeout amL"
  shows "\<exists>f1 w1 f2 w2 msg. fwdHandlePacket E a (f, w) = Some ((f1, w1), None) \<and> sendRound E' n 0 (f1, w1) = Some (f2, w2)
    \<and> fw_sent f2 = fw_sent f @ [(0, msg)] \<and>
    (\<forall>v b. b < length (w_heap v) \<and> w_config v = cl \<and> pk_full cl (pkAt v b) \<and> pk_bytes (pkAt v b) = msg \<longrightarrow>
      (\<exists>l' v'. admit E2 b ad (l, v) = Some ((l', v'), True) \<and> pk_bytes (pkAt v' b) = pk_bytes (pkAt w a)
        \<and> pk_srcAddr (pkAt v' b) = Some ad \<and> addrKey ad \<in> authedKeys l'))"
proof -
  obtain am' q where q: "wrapData (fe_crypto E) (w_config w) (fe_now E) (fe_rand E) (fe_mem E) (fe_mem2 E) amF (pkAt w a) = Some (am', q, None)"
      "pk_wf (w_config w) q"
      "\<forall>q'. pk_full cl q' \<and> pk_bytes q' = pk_bytes q \<longrightarrow>
        HeaderSize \<le> pk_length q' \<and> (\<exists>r h. unwrapData (fe_crypto E) cl (le_now E2) (le_mem2 E2) amL q' = Some r \<and> ur_err r = None
          \<and> ur_header r = Some h \<and> ph_msgType h = MsgTypeData \<and> pk_connID (ur_packet r) = pk_connID (pkAt w a)
          \<and> pk_bytes (ur_packet r) = pk_bytes (pkAt w a))"
    using wrap_passes [OF keys laws p(2-6) mem enc] by blast
  obtain f1 w1 f2 w2 where s: "fwdHandlePacket E a (f, w) = Some ((f1, w1), None)" "sendRound E' n 0 (f1, w1) = Some (f2, w2)"
      "fw_sent f2 = fw_sent f @ [(0, pk_bytes q)]"
    using data_written [OF c f(1-3) q(1,2) p(1) f(4,5)] by blast
  have "\<exists>l' v'. admit E2 b ad (l, v) = Some ((l', v'), True) \<and> pk_bytes (pkAt v' b) = pk_bytes (pkAt w a)
        \<and> pk_srcAddr (pkAt v' b) = Some ad \<and> addrKey ad \<in> authedKeys l'"
    if v: "b < length (w_heap v)" "w_config v = cl" "pk_full cl (pkAt v b)" "pk_bytes (pkAt v b) = pk_bytes q" for v b
  proof -
    obtain r h where r: "HeaderSize \<le> pk_length (pkAt v b)" "unwrapData (fe_crypto E) cl (le_now E2) (le_mem2 E2) amL (pkAt v b) = Some r"
        "ur_err r = None" "ur_header r = Some h" "ph_msgType h = MsgTypeData" "pk_bytes (ur_packet r) = pk_bytes (pkAt w a)"
      using q(3) v by blast
    obtain l' v' cid where a: "admit E2 b ad (l, v) = Some ((l', v'), True)"
        "pkAt v' b = (ur_packet r)\<lparr>pk_connID := cid, pk_srcAddr := Some ad\<rparr>"
      using admit_data [OF l(1-3) r(1) _ r(3-5) v(1), of E2] r(2) l(4) v(2) by auto
    have "addrKey ad \<in> authedKeys l'" by (rule admit_keeps [OF l(1,2) a(1)])
    then show ?thesis using a r(6) by (auto simp: pk_bytes_def)
  qed
  then show ?thesis using s by blast
qed

definition demoServer :: listen where
  "demoServer = addMapping (demoListenEnv 0 5) (demoAddr 9) (Some True) (demoListen (Some (demoManager True (replicate 8 2))) False)"

theorem tunnel_delivers_witness:
  "\<exists>f1 w1 f2 w2 msg. fwdHandlePacket (demoDialEnv 5000000) 0 (demoForward (Some (demoManager True (replicate 8 1))),
        demoListenWorld\<lparr>w_heap := [demoPacket]\<rparr>) = Some ((f1, w1), None)
    \<and> sendRound (demoDialEnv 5000000) 1 0 (f1, w1) = Some (f2, w2)
    \<and> (\<forall>v. w_config v = demoConfig \<and> 0 < length (w_heap v) \<and> pk_full demoConfig (pkAt v 0) \<and> pk_bytes (pkAt v 0) = msg \<longrightarrow>
        (\<exists>l' v'. admit (demoListenEnv 6000000 1) 0 (demoAddr 9) (demoServer, v) = Some ((l', v'), True)
           \<and> pk_bytes (pkAt v' 0) = pk_bytes demoPacket))"
proof -
  let ?f = "demoForward (Some (demoManager True (replicate 8 1)))" and ?w = "demoListenWorld\<lparr>w_heap := [demoPacket]\<rparr>"
  let ?l0 = "demoListen (Some (demoManager True (replicate 8 2))) False"
  let ?E = "demoDialEnv 5000000" and ?E2 = "demoListenEnv 6000000 1"
  have c: "fw_conns ?f = [demoConn 9]" "isConnected (demoConn 9)" "fc_authed (demoConn 9)" "\<not> fc_closed (demoConn 9)"
    "fc_looping (demoConn 9)" "fc_queue (demoConn 9) = []" "fc_prio (demoConn 9) = []" "\<not> fw_stopped ?f" "0 < fw_queueSize ?f"
    "fw_auth ?f = Some (demoManager True (replicate 8 1))" "fe_write ?E = None"
    by (simp_all add: demoForward_def newForward_def demoConn_def isConnected_def demoConfig_def demoDialEnv_def demoForwardEnv_def)
  have l0: "tables_ok ?l0" "order_ok (demoListenEnv 0 5)" "map_of (ls_mappings ?l0) (addrKey (demoAddr 9)) = None"
    unfolding demoListen_def by (rule newListen_tables) (simp_all add: newListen_def Let_def order_ok_def demoListenEnv_def)
  note ad = addMapping_spec [OF l0, of "Some True"]
  have l: "tables_ok demoServer" "ls_auth demoServer = Some (demoManager True (replicate 8 2))" "addrKey (demoAddr 9) \<in> authedKeys demoServer"
    using ad by (auto simp: demoServer_def authedKeys_def lcAuthed_def addMapping_def demoListen_def newListen_def Let_def)
  have w: "0 < length (w_heap ?w)" "pkAt ?w 0 = demoPacket" "w_config ?w = demoConfig" by (simp_all add: pkAt_def demoListenWorld_def)
  have p: "pk_wf demoConfig demoPacket" "16 < pk_offset demoPacket" "pk_offset demoPacket \<le> sl_len (pk_buf demoPacket)"
      "pk_length demoPacket + 52 \<le> poolSize demoConfig" "poolSize demoConfig < 2 ^ 32"
    using demo_packet by (simp_all add: pk_full_def)
  have e: "le_crypto ?E2 = fe_crypto ?E" "fe_mem ?E = replicate 164 0" "fe_mem2 ?E = replicate 164 0" "le_mem2 ?E2 = replicate 164 0"
    "fe_crypto ?E = demoCrypto" "fe_rand ?E = Some (replicate 32 9)" "fe_now ?E = 5000000" "le_now ?E2 = 6000000"
    by (simp_all add: demoListenEnv_def demoDialEnv_def demoForwardEnv_def)
  have k: "activeKey (demoManager True (replicate 8 1)) = activeKey (demoManager True (replicate 8 2))" by (simp add: demo_manager)
  have n: "generateNextNonce (fe_rand ?E) (am_dedup (demoManager True (replicate 8 1)))
        = ((newDeduplicationManager (replicate 8 1))\<lparr>dm_currentSeq := 1\<rparr>, Some (replicate 8 1 @ put_u32 0))
      \<and> length (replicate 8 1 @ put_u32 0) = 12 \<and> \<not> isDuplicate (replicate 8 1 @ put_u32 0) (am_dedup (demoManager True (replicate 8 2)))
      \<and> time_sub (le_now ?E2) (timeOfMilli (unixMilli (fe_now ?E))) \<le> am_dataTimeout (demoManager True (replicate 8 2))"
    by (simp add: demo_manager newDeduplicationManager_def generateNextNonce_def isDuplicate_def e demo_times)
  show ?thesis
    using tunnel_delivers [OF c(1-11) _ l e(1) k _ w(1), of 1 demoConfig, unfolded w e, OF _ demo_laws(1) p] n demo_pool w
    by (fastforce simp: e)
qed

end
