(* ===== verification/TunnelConn.thy ===== *)
theory TunnelConn
  imports TcpQueue ConnData Heartbeat Auth
begin

text \<open>
  \<open>src/tcp_tunnel.go\<close>: the pools of TCP connections between two tunnel components, the choice of a connection
  for a packet, and the write loop of a connection. Connections and pools are pointers, here numbers
  into the store of the component. A packet is a value: it does not change once it is queued, and every
  queued reference is released once, which \<open>tq_released\<close> and \<open>wb_released\<close> record. The socket takes bytes;
  how much of a write it takes before it fails comes from outside.
\<close>

section \<open>State\<close>

datatype tunnel_mode = ListenMode | ForwardMode

record tunnel_conn =
  tn_connID :: conn_id
  tn_forwardID :: conn_id
  tn_poolID :: conn_id
  tn_sock :: bool
  tn_authed :: bool
  tn_lastActive :: gotime
  tn_hb :: hb_tracker
  tn_queue :: tcp_queue
  tn_limit :: int
  tn_closed :: bool

record tunnel_pool =
  pl_conns :: "nat list"
  pl_index :: "32 word"
  pl_current :: "nat option"
  pl_poolID :: conn_id
  pl_count :: int

definition newPool :: "conn_id \<Rightarrow> int \<Rightarrow> tunnel_pool" where
  "newPool poolID n = \<lparr>pl_conns = [], pl_index = 0, pl_current = None, pl_poolID = poolID, pl_count = n\<rparr>"

definition normalizeBatchSize :: "int \<Rightarrow> int" where
  "normalizeBatchSize n = (if n \<le> 0 then 64 else n)"

text \<open>\<open>NewTcpTunnelConn\<close>; \<open>tn_limit\<close> is how many packets its write loop takes at once.\<close>

definition newTunnelConn :: "conn_id \<Rightarrow> conn_id \<Rightarrow> conn_id \<Rightarrow> tcp_queue_settings \<Rightarrow> tcp_queue_stats \<Rightarrow> bool \<Rightarrow> int
    \<Rightarrow> gotime \<Rightarrow> tunnel_conn" where
  "newTunnelConn connID forwardID poolID qs qst batching batchSize now =
     \<lparr>tn_connID = connID, tn_forwardID = forwardID, tn_poolID = poolID, tn_sock = True, tn_authed = False,
      tn_lastActive = now, tn_hb = empty_hb_tracker, tn_queue = newTcpTunnelQueue qs qst,
      tn_limit = (if batching then normalizeBatchSize batchSize else 1), tn_closed = False\<rparr>"

section \<open>The connections of a pool\<close>

text \<open>\<open>AddConnection\<close> and \<open>RemoveConnection\<close> copy the slice and swap the pointer; removing a connection
  that is not there writes nothing.\<close>

datatype pool_op = AddConn nat | RemoveConn nat

fun poolOp :: "pool_op \<Rightarrow> nat list \<Rightarrow> nat list option" where
  "poolOp (AddConn c) cs = Some (cs @ [c])"
| "poolOp (RemoveConn c) cs = (if c \<in> set cs then Some (takeWhile (\<lambda>d. d \<noteq> c) cs @ tl (dropWhile (\<lambda>d. d \<noteq> c) cs)) else None)"

definition addConnection :: "nat \<Rightarrow> tunnel_pool \<Rightarrow> tunnel_pool" where
  "addConnection c p = p\<lparr>pl_conns := seqApply poolOp (AddConn c) (pl_conns p)\<rparr>"

definition removeConnection :: "nat \<Rightarrow> tunnel_pool \<Rightarrow> tunnel_pool" where
  "removeConnection c p = p\<lparr>pl_conns := seqApply poolOp (RemoveConn c) (pl_conns p)\<rparr>"

lemma remove_first: "takeWhile (\<lambda>d. d \<noteq> c) cs @ tl (dropWhile (\<lambda>d. d \<noteq> c) cs) = remove1 c cs"
  by (induction cs) auto

lemma seq_remove: "seqApply poolOp (RemoveConn c) cs = remove1 c cs"
  by (simp add: seqApply_def remove_first remove1_idem)

lemma seq_add: "seqApply poolOp (AddConn c) cs = cs @ [c]"
  by (simp add: seqApply_def)

section \<open>Choosing a connection\<close>

definition usable :: "tunnel_conn \<Rightarrow> bool" where
  "usable c \<longleftrightarrow> tn_sock c \<and> tn_authed c \<and> \<not> tn_closed c"

definition backlog :: "tunnel_conn \<Rightarrow> int" where
  "backlog c = sint (tq_queued (tn_queue c))"

text \<open>Round robin; \<open>n\<close> connections are tried.\<close>

fun nextConnLoop :: "tunnel_conn list \<Rightarrow> nat \<Rightarrow> tunnel_pool \<Rightarrow> nat option \<times> tunnel_pool" where
  "nextConnLoop cs 0 p = (None, p)"
| "nextConnLoop cs (Suc n) p =
     (let i = pl_index p + 1; p1 = p\<lparr>pl_index := i\<rparr>;
          c = pl_conns p ! unat (i mod of_nat (length (pl_conns p)))
      in if usable (cs ! c) then (Some c, p1) else nextConnLoop cs n p1)"

definition getNextConn :: "tunnel_conn list \<Rightarrow> tunnel_pool \<Rightarrow> nat option \<times> tunnel_pool" where
  "getNextConn cs p = nextConnLoop cs (length (pl_conns p)) p"

definition switchBacklog :: int where
  "switchBacklog = 16384"

text \<open>The least loaded usable connection, the first of them.\<close>

fun bestConn :: "tunnel_conn list \<Rightarrow> nat list \<Rightarrow> nat option \<Rightarrow> nat option" where
  "bestConn cs [] b = b"
| "bestConn cs (i # is) b =
     bestConn cs is (if \<not> usable (cs ! i) then b
       else case b of None \<Rightarrow> Some i | Some j \<Rightarrow> if backlog (cs ! i) < backlog (cs ! j) then Some i else b)"

definition pickConn :: "tunnel_conn list \<Rightarrow> int \<Rightarrow> int \<Rightarrow> bool \<Rightarrow> tunnel_pool \<Rightarrow> nat option \<times> tunnel_pool" where
  "pickConn cs sz prioritySize priorityConn p =
     (let conns = pl_conns p;
          reserving = (priorityConn \<and> 0 < prioritySize \<and> 2 \<le> length conns);
          first = hd conns;
          rest' = (if reserving then tl conns else conns)
      in if reserving \<and> sz \<le> prioritySize \<and> usable (cs ! first) then (Some first, p)
         else case bestConn cs rest' None of
             None \<Rightarrow> (if reserving \<and> usable (cs ! first) then Some first else None, p)
           | Some b \<Rightarrow>
               (case pl_current p of
                  Some cur \<Rightarrow>
                    if cur \<in> set rest' \<and> usable (cs ! cur) \<and> backlog (cs ! cur) \<le> i64 (backlog (cs ! b) + switchBacklog)
                    then (Some cur, p) else (Some b, p\<lparr>pl_current := Some b\<rparr>)
                | None \<Rightarrow> (Some b, p\<lparr>pl_current := Some b\<rparr>)))"

definition poolQueueDelay :: "gotime \<Rightarrow> tunnel_conn list \<Rightarrow> tunnel_pool \<Rightarrow> duration" where
  "poolQueueDelay now cs p =
     fold (\<lambda>i d. if d < tqDelay now (tn_queue (cs ! i)) then tqDelay now (tn_queue (cs ! i)) else d) (pl_conns p) 0"

lemma bestConn_spec:
  assumes "\<And>j. b = Some j \<Longrightarrow> usable (cs ! j)"
  shows "case bestConn cs is b of
      None \<Rightarrow> b = None \<and> (\<forall>i \<in> set is. \<not> usable (cs ! i))
    | Some k \<Rightarrow> (k \<in> set is \<or> b = Some k) \<and> usable (cs ! k)
        \<and> (\<forall>i \<in> set is. usable (cs ! i) \<longrightarrow> backlog (cs ! k) \<le> backlog (cs ! i))
        \<and> (\<forall>j. b = Some j \<longrightarrow> backlog (cs ! k) \<le> backlog (cs ! j))"
  using assms
proof (induction cs "is" b rule: bestConn.induct)
  case (1 cs b)
  then show ?case by (cases b) auto
next
  case (2 cs i "is" b)
  let ?b = "if \<not> usable (cs ! i) then b
       else case b of None \<Rightarrow> Some i | Some j \<Rightarrow> if backlog (cs ! i) < backlog (cs ! j) then Some i else b"
  have u: "usable (cs ! j)" if "?b = Some j" for j
    using that 2(2) by (auto split: if_splits option.splits)
  show ?case
    using 2(1) [OF u] by (cases b; cases "bestConn cs is ?b"; cases "usable (cs ! i)")
      (auto split: if_splits)
qed

lemma bestConn_None: "bestConn cs is None = None \<longleftrightarrow> (\<forall>i \<in> set is. \<not> usable (cs ! i))"
  using bestConn_spec [of None cs "is"] by (auto split: option.splits)

lemma bestConn_Some:
  "bestConn cs is None = Some k \<Longrightarrow> k \<in> set is \<and> usable (cs ! k) \<and> (\<forall>i \<in> set is. usable (cs ! i) \<longrightarrow> backlog (cs ! k) \<le> backlog (cs ! i))"
  using bestConn_spec [of None cs "is"] by auto

lemma i64_le: "min_i64 \<le> x \<Longrightarrow> i64 x \<le> x"
  using signed_take_bit_int_greater_self_iff [where n = 63 and k = x]
  by (simp add: i64_def min_i64_def sint_sbintrunc')

lemma sint64_bounds: "min_i64 \<le> sint (w :: 64 word)" "sint (w :: 64 word) \<le> max_i64"
  using sint_greater_eq [of w] sint_less [of w] by (simp_all add: min_i64_def max_i64_def)

lemma backlog_switch: "x \<le> i64 (backlog c + switchBacklog) \<Longrightarrow> x \<le> backlog c + 16384"
  using i64_le [of "backlog c + switchBacklog"] sint64_bounds(1) [of "tq_queued (tn_queue c)"]
  by (simp add: switchBacklog_def backlog_def min_i64_def)

text \<open>The connection set aside for small packets, and the ones that share the others.\<close>

definition reservedConn :: "int \<Rightarrow> bool \<Rightarrow> tunnel_pool \<Rightarrow> nat option" where
  "reservedConn prio prioConn p =
     (if prioConn \<and> 0 < prio \<and> 2 \<le> length (pl_conns p) then Some (hd (pl_conns p)) else None)"

definition sharedConns :: "int \<Rightarrow> bool \<Rightarrow> tunnel_pool \<Rightarrow> nat list" where
  "sharedConns prio prioConn p =
     (if reservedConn prio prioConn p = None then pl_conns p else tl (pl_conns p))"

lemma pool_split:
  "set (pl_conns p) = set_option (reservedConn prio prioConn p) \<union> set (sharedConns prio prioConn p)"
  by (cases "pl_conns p") (auto simp: reservedConn_def sharedConns_def)

text \<open>C11. The choice of a connection for a packet: one is found exactly when the pool has a usable one, and it is
  usable. With a reserved first connection small packets use it whenever it is usable and larger ones
  only when no other is. Among the others the one chosen has at most 16384 bytes more waiting than the
  least loaded usable one, and the pool remembers it.\<close>

theorem pick_conn_balanced:
  assumes "pickConn cs sz prio prioConn p = (r, p')"
  shows "case r of
      None \<Rightarrow> \<forall>i \<in> set (pl_conns p). \<not> usable (cs ! i)
    | Some c \<Rightarrow> c \<in> set (pl_conns p) \<and> usable (cs ! c) \<and>
        (if reservedConn prio prioConn p = Some c \<and> sz \<le> prio then p' = p
         else if \<forall>i \<in> set (sharedConns prio prioConn p). \<not> usable (cs ! i) then reservedConn prio prioConn p = Some c
         else c \<in> set (sharedConns prio prioConn p)
            \<and> (\<forall>i \<in> set (sharedConns prio prioConn p). usable (cs ! i) \<longrightarrow> backlog (cs ! c) \<le> backlog (cs ! i) + 16384)
            \<and> p' = p\<lparr>pl_current := Some c\<rparr>
            \<and> (\<forall>f. reservedConn prio prioConn p = Some f \<and> sz \<le> prio \<longrightarrow> \<not> usable (cs ! f)))"
proof -
  let ?sh = "sharedConns prio prioConn p" and ?re = "reservedConn prio prioConn p"
  have eq: "pickConn cs sz prio prioConn p =
      (if ?re \<noteq> None \<and> sz \<le> prio \<and> usable (cs ! the ?re) then (?re, p)
       else case bestConn cs ?sh None of
           None \<Rightarrow> (if ?re \<noteq> None \<and> usable (cs ! the ?re) then ?re else None, p)
         | Some b \<Rightarrow>
             (case pl_current p of
                Some cur \<Rightarrow>
                  if cur \<in> set ?sh \<and> usable (cs ! cur) \<and> backlog (cs ! cur) \<le> i64 (backlog (cs ! b) + switchBacklog)
                  then (Some cur, p) else (Some b, p\<lparr>pl_current := Some b\<rparr>)
              | None \<Rightarrow> (Some b, p\<lparr>pl_current := Some b\<rparr>)))"
  proof (cases "prioConn \<and> 0 < prio \<and> 2 \<le> length (pl_conns p)")
    case True
    then have rs: "?re = Some (hd (pl_conns p))" "?sh = tl (pl_conns p)" by (simp_all add: reservedConn_def sharedConns_def)
    show ?thesis unfolding pickConn_def Let_def rs using True by simp
  next
    case False
    then have rs: "?re = None" "?sh = pl_conns p" by (auto simp: reservedConn_def sharedConns_def)
    have c: "(prioConn \<and> 0 < prio \<and> 2 \<le> length (pl_conns p)) = False" using False by blast
    show ?thesis unfolding pickConn_def Let_def rs c by simp
  qed
  note set = pool_split [of p prio prioConn]
  consider (small) f where "?re = Some f" "sz \<le> prio" "usable (cs ! f)"
    | (large) "\<forall>f. ?re = Some f \<and> sz \<le> prio \<longrightarrow> \<not> usable (cs ! f)" by blast
  then show ?thesis
  proof cases
    case small
    then have "r = Some f \<and> p' = p" using assms unfolding eq by simp
    then show ?thesis using small set by simp
  next
    case large
    then have eq2: "pickConn cs sz prio prioConn p =
      (case bestConn cs ?sh None of
           None \<Rightarrow> (if ?re \<noteq> None \<and> usable (cs ! the ?re) then ?re else None, p)
         | Some b \<Rightarrow>
             (case pl_current p of
                Some cur \<Rightarrow>
                  if cur \<in> set ?sh \<and> usable (cs ! cur) \<and> backlog (cs ! cur) \<le> i64 (backlog (cs ! b) + switchBacklog)
                  then (Some cur, p) else (Some b, p\<lparr>pl_current := Some b\<rparr>)
              | None \<Rightarrow> (Some b, p\<lparr>pl_current := Some b\<rparr>)))"
      unfolding eq by auto
    show ?thesis
    proof (cases "bestConn cs ?sh None")
      case None
      then have "\<forall>i \<in> set ?sh. \<not> usable (cs ! i)" by (simp add: bestConn_None)
      then show ?thesis using assms set None large unfolding eq2 by (auto split: if_splits)
    next
      case (Some b)
      note b = bestConn_Some [OF Some]
      have "\<exists>c. r = Some c \<and> c \<in> set ?sh \<and> usable (cs ! c) \<and> p' = p\<lparr>pl_current := Some c\<rparr>
          \<and> backlog (cs ! c) \<le> backlog (cs ! b) + 16384"
      proof (cases "pl_current p")
        case None
        then have "r = Some b \<and> p' = p\<lparr>pl_current := Some b\<rparr>" using assms Some unfolding eq2 by auto
        then show ?thesis using b by simp
      next
        case cur: (Some cur)
        then have same: "p\<lparr>pl_current := Some cur\<rparr> = p" by simp
        show ?thesis
        proof (cases "cur \<in> set ?sh \<and> usable (cs ! cur) \<and> backlog (cs ! cur) \<le> i64 (backlog (cs ! b) + switchBacklog)")
          case True
          then have "r = Some cur \<and> p' = p" using assms Some cur unfolding eq2 by simp
          then show ?thesis using True same backlog_switch by simp
        next
          case False
          then have "r = Some b \<and> p' = p\<lparr>pl_current := Some b\<rparr>" using assms Some cur unfolding eq2 by auto
          then show ?thesis using b by simp
        qed
      qed
      then obtain c where c: "r = Some c" "c \<in> set ?sh" "usable (cs ! c)" "p' = p\<lparr>pl_current := Some c\<rparr>"
        "backlog (cs ! c) \<le> backlog (cs ! b) + 16384" by blast
      have "backlog (cs ! c) \<le> backlog (cs ! i) + 16384" if "i \<in> set ?sh" "usable (cs ! i)" for i
        using that b c(5) by force
      moreover have "\<not> (?re = Some c \<and> sz \<le> prio)" using large c(3) by blast
      ultimately show ?thesis using c set large b by auto
    qed
  qed
qed

section \<open>The write loop\<close>

text \<open>
  A batch of packets while it is written: the packet the socket has reached and how much of it was
  taken; a packet that was written is released and its place is empty.
\<close>

record write_state =
  wb_batch :: "packet option list"
  wb_index :: nat
  wb_offset :: int
  wb_released :: "packet list"

definition writeStart :: "packet list \<Rightarrow> write_state" where
  "writeStart ps = \<lparr>wb_batch = map Some ps, wb_index = 0, wb_offset = 0, wb_released = []\<rparr>"

definition releaseCurrent :: "packet \<Rightarrow> write_state \<Rightarrow> write_state" where
  "releaseCurrent p s = s\<lparr>wb_batch := (wb_batch s)[wb_index s := None], wb_index := wb_index s + 1, wb_offset := 0,
     wb_released := wb_released s @ [p]\<rparr>"

definition releaseBatch :: "write_state \<Rightarrow> write_state" where
  "releaseBatch s = \<lparr>wb_batch = [], wb_index = 0, wb_offset = 0,
     wb_released = wb_released s @ List.map_filter id (wb_batch s)\<rparr>"

function advanceBatchWrite :: "int \<Rightarrow> write_state \<Rightarrow> write_state option" where
  "advanceBatchWrite written s =
     (if 0 < written \<and> wb_index s < length (wb_batch s)
      then (case wb_batch s ! wb_index s of
          None \<Rightarrow> advanceBatchWrite written (s\<lparr>wb_index := wb_index s + 1, wb_offset := 0\<rparr>)
        | Some p \<Rightarrow>
            (case getData p of
               None \<Rightarrow> None
             | Some d \<Rightarrow>
                 (let n = sl_len d - wb_offset s in
                  if n \<le> 0 then advanceBatchWrite written (releaseCurrent p s)
                  else if written < n then Some (s\<lparr>wb_offset := wb_offset s + written\<rparr>)
                  else advanceBatchWrite (written - n) (releaseCurrent p s))))
      else Some s)"
  by auto
termination
  by (relation "measure (\<lambda>(n, s). length (wb_batch s) - wb_index s)") (auto simp: releaseCurrent_def)

declare advanceBatchWrite.simps [simp del]

text \<open>\<open>net.Buffers\<close> after \<open>n\<close> bytes were written: finished buffers go, the next one is cut.\<close>

fun consume :: "nat \<Rightarrow> bytes list \<Rightarrow> bytes list" where
  "consume n [] = []"
| "consume n (b # bs) = (if n < length b then drop n b # bs else consume (n - length b) bs)"

text \<open>
  What \<open>buffers.WriteTo\<close> gives: everything was written, a timeout after some bytes and whether setting the deadline
  again succeeds, or another error after some bytes. Without a further outcome everything is written.
\<close>

datatype write_result = Written | TimedOut nat bool | WriteFailed nat

datatype batch_end = BatchSent | LoopEnds | Disconnects

definition writeSome :: "nat \<Rightarrow> bytes list \<Rightarrow> write_state \<Rightarrow> (bytes \<times> write_state) option" where
  "writeSome n bufs s =
     (let out = take n (concat bufs) in map_option (Pair out) (advanceBatchWrite (int (length out)) s))"

definition batchEnds :: "batch_end \<Rightarrow> bytes \<times> write_state \<Rightarrow> bytes \<times> write_state \<times> batch_end" where
  "batchEnds e x = (fst x, releaseBatch (snd x), e)"

primrec writeBuffers :: "write_result list \<Rightarrow> bytes list \<Rightarrow> write_state \<Rightarrow> (bytes \<times> write_state \<times> batch_end) option" where
  "writeBuffers [] bufs s =
     (if bufs = [] then Some (batchEnds BatchSent ([], s))
      else map_option (batchEnds BatchSent) (writeSome (length (concat bufs)) bufs s))"
| "writeBuffers (r # rs) bufs s =
     (if bufs = [] then Some (batchEnds BatchSent ([], s))
      else case r of
        Written \<Rightarrow> map_option (batchEnds BatchSent) (writeSome (length (concat bufs)) bufs s)
      | TimedOut n refreshed \<Rightarrow> do {
          (out, s1) \<leftarrow> writeSome n bufs s;
          if out \<noteq> [] \<and> refreshed
          then map_option (\<lambda>(out', s2, e). (out @ out', s2, e)) (writeBuffers rs (consume (length out) bufs) s1)
          else Some (batchEnds Disconnects (out, s1))
        }
      | WriteFailed n \<Rightarrow> map_option (batchEnds Disconnects) (writeSome n bufs s))"

text \<open>\<open>deadline\<close> tells whether setting the first deadline succeeds.\<close>

definition sendPacketBatch :: "bool \<Rightarrow> bool \<Rightarrow> write_result list \<Rightarrow> packet list \<Rightarrow> (bytes \<times> write_state \<times> batch_end) option" where
  "sendPacketBatch sock deadline rs ps =
     (let s = writeStart ps in
      if ps = [] then Some ([], s, BatchSent)
      else if \<not> sock then Some ([], releaseBatch s, BatchSent)
      else if \<not> deadline then Some ([], releaseBatch s, LoopEnds)
      else do {
        datas \<leftarrow> those (map getData ps);
        writeBuffers rs (map sl_data datas) s
      })"

section \<open>Enqueueing and closing\<close>

text \<open>The queue counts into the statistics of the component, \<open>qst\<close>. The flag tells that there was no error.\<close>

definition tunnelEnqueue :: "packet \<Rightarrow> bool \<Rightarrow> gotime \<Rightarrow> tcp_queue_stats \<Rightarrow> tunnel_conn \<Rightarrow> ((tunnel_conn \<times> tcp_queue_stats) \<times> bool) option" where
  "tunnelEnqueue pkt control now qst c =
     (if \<not> tn_sock c \<or> tn_closed c then Some ((c, qst), False)
      else do {
        (q, ok) \<leftarrow> tqPush pkt control now ((tn_queue c)\<lparr>tq_stats := qst\<rparr>);
        Some ((c\<lparr>tn_queue := q\<rparr>, tq_stats q), ok)
      })"

definition closeTunnelConn :: "gotime \<Rightarrow> tunnel_conn \<times> hb_stats \<times> tcp_queue_stats \<Rightarrow> (tunnel_conn \<times> hb_stats \<times> tcp_queue_stats) option" where
  "closeTunnelConn now x = (case x of (c, st, qst) \<Rightarrow>
     if tn_closed c then Some (c, st, qst)
     else
       (let r = fst (markPendingHeartbeatLost now (tn_hb c, Some st)) in
        do {
          q \<leftarrow> tqClose ((tn_queue c)\<lparr>tq_stats := qst\<rparr>);
          Some (c\<lparr>tn_hb := fst r, tn_closed := True, tn_queue := q\<rparr>, the (snd r), tq_stats q)
        }))"

text \<open>One round of \<open>writeLoop\<close>: take a batch from the queue and write it. \<open>None\<close> for the result: the queue was empty.\<close>

definition writeRound :: "floats \<Rightarrow> gotime \<Rightarrow> bool \<Rightarrow> write_result list \<Rightarrow> tcp_queue_stats \<Rightarrow> tunnel_conn
    \<Rightarrow> (tunnel_conn \<times> tcp_queue_stats \<times> (bytes \<times> write_state \<times> batch_end) option) option" where
  "writeRound F now deadline rs qst c = do {
     (ps, q) \<leftarrow> tqPop F now (tn_limit c) ((tn_queue c)\<lparr>tq_stats := qst\<rparr>);
     let c1 = c\<lparr>tn_queue := q\<rparr>;
     if ps = [] then Some (c1, tq_stats q, None)
     else do {
       r \<leftarrow> sendPacketBatch (tn_sock c) deadline rs ps;
       Some (c1, tq_stats q, Some r)
     }
   }"

section \<open>Queues of open connections\<close>

text \<open>The queue of a connection that is not closed: one that pushes and pops lead to.\<close>

definition open_queue :: "tcp_queue \<Rightarrow> bool" where
  "open_queue q \<longleftrightarrow> (\<exists>s pushed outs. tq_inv s pushed outs q)"

lemma open_queue_stats [simp]: "open_queue (q\<lparr>tq_stats := st\<rparr>) = open_queue q"
  by (simp add: open_queue_def tq_inv_def tqWf_def tqItems_def)

lemma open_queue_new: "open_queue (newTcpTunnelQueue s st)"
  using new_tq_inv unfolding open_queue_def by blast

lemma push_ok:
  assumes "open_queue q" "control \<longrightarrow> \<not> pk_noDrop p"
  shows "\<exists>q' ok. tqPush p control now q = Some (q', ok) \<and> open_queue q'"
  using assms tqPush_inv unfolding open_queue_def by metis

lemma pop_ok:
  assumes "open_queue q"
  shows "\<exists>ps q'. tqPop F now n q = Some (ps, q') \<and> open_queue q'"
proof -
  obtain s pushed outs where "tq_inv s pushed (outs @ []) q" using assms by (auto simp: open_queue_def)
  from tqPopLoop_inv [OF this] show ?thesis unfolding tqPop_def open_queue_def by blast
qed

lemma drain_ok:
  assumes "sq_inv sq"
  shows "\<exists>sq' q'. tqDrain sq q = Some (sq', q') \<and> tqLists q' = tqLists q \<and> tqWf q' = tqWf q"
  using assms
proof (induction sq q rule: tqDrain.induct)
  case (1 sq q)
  show ?case
  proof (cases "0 < sq_len sq")
    case False
    then show ?thesis by (subst tqDrain.simps) simp
  next
    case True
    obtain it sq1 where pop: "sq_pop sq = Some (it, sq1)" "sq_inv sq1"
      using sq.pop_total [of sq] True "1.prems" by (auto simp: sq_len_abs)
    then show ?thesis
      using "1.IH" [OF True pop(1) refl pop(2)] True by (subst tqDrain.simps) (simp add: tqLists_def tqWf_def)
  qed
qed

lemma close_queue_ok:
  assumes "open_queue q"
  shows "\<exists>q'. tqClose q = Some q'"
proof -
  have wf: "tqWf (q\<lparr>tq_closed := True\<rparr>)" using assms by (auto simp: open_queue_def tq_inv_def tqWf_def)
  obtain c q1 where 1: "tqDrain (tq_control (q\<lparr>tq_closed := True\<rparr>)) (q\<lparr>tq_closed := True\<rparr>) = Some (c, q1)" "tqWf q1"
    using drain_ok [of "tq_control (q\<lparr>tq_closed := True\<rparr>)" "q\<lparr>tq_closed := True\<rparr>"] wf by (auto simp: tqWf_def)
  obtain p q2 where 2: "tqDrain (tq_priority q1) q1 = Some (p, q2)" "tqWf q2"
    using drain_ok [of "tq_priority q1" q1] 1(2) by (auto simp: tqWf_def)
  obtain b q3 where 3: "tqDrain (tq_bulk q2) q2 = Some (b, q3)" "tqWf q3"
    using drain_ok [of "tq_bulk q2" q2] 2(2) by (auto simp: tqWf_def)
  obtain r q4 where 4: "tqDrain (tq_reliable q3) q3 = Some (r, q4)"
    using drain_ok [of "tq_reliable q3" q3] 3(2) by (auto simp: tqWf_def)
  show ?thesis using 1(1) 2(1) 3(1) 4 by (simp add: tqClose_def Let_def)
qed

section \<open>What a batch write does\<close>

text \<open>The socket took \<open>n\<close> bytes of the batch; the packets it took whole were released.\<close>

definition writing :: "packet list \<Rightarrow> nat \<Rightarrow> write_state \<Rightarrow> bool" where
  "writing ps n s \<longleftrightarrow> wb_index s \<le> length ps
     \<and> wb_batch s = replicate (wb_index s) None @ map Some (drop (wb_index s) ps)
     \<and> wb_released s = take (wb_index s) ps \<and> 0 \<le> wb_offset s
     \<and> int n = int (length (concat (map pk_bytes (take (wb_index s) ps)))) + wb_offset s
     \<and> (wb_index s < length ps \<longrightarrow> wb_offset s \<le> int (length (pk_bytes (ps ! wb_index s))))
     \<and> (wb_index s = length ps \<longrightarrow> wb_offset s = 0)"

definition readable :: "packet \<Rightarrow> bool" where
  "readable p \<longleftrightarrow> getData p \<noteq> None"

lemma readable_data:
  "readable p \<Longrightarrow> \<exists>d. getData p = Some d \<and> sl_data d = pk_bytes p \<and> sl_len d = int (length (pk_bytes p))"
  by (auto simp: readable_def getData_def sl_range_def pk_bytes_def sl_data_def sl_cap_def split: if_splits)

lemma writing_start: "writing ps 0 (writeStart ps)"
  by (simp add: writing_def writeStart_def)

lemma writing_release:
  assumes "writing ps n s"
  shows "wb_released (releaseBatch s) = ps \<and> wb_batch (releaseBatch s) = []"
proof -
  have "List.map_filter id (replicate k None @ map Some qs) = qs" for k and qs :: "packet list"
    by (simp add: map_filter_def comp_def)
  then show ?thesis using assms by (simp add: writing_def releaseBatch_def)
qed

lemma concat_take_Suc: "i < length ps \<Longrightarrow>
    length (concat (map pk_bytes (take (Suc i) ps))) = length (concat (map pk_bytes (take i ps))) + length (pk_bytes (ps ! i))"
  by (simp add: take_Suc_conv_app_nth)

lemma advance_writing:
  assumes "writing ps n s" "\<And>p. p \<in> set ps \<Longrightarrow> readable p" "0 \<le> w"
    "int n + w \<le> int (length (concat (map pk_bytes ps)))"
  shows "\<exists>s'. advanceBatchWrite w s = Some s' \<and> writing ps (n + nat w) s'"
  using assms(1,3,4)
proof (induction w s arbitrary: n rule: advanceBatchWrite.induct)
  case (1 w s)
  let ?i = "wb_index s"
  note J = "1.prems"(1)
  show ?case
  proof (cases "0 < w \<and> ?i < length (wb_batch s)")
    case False
    have "w = 0"
    proof (rule ccontr)
      assume "w \<noteq> 0"
      then have "?i = length ps" using False J "1.prems"(2) by (auto simp: writing_def)
      then have "n = length (concat (map pk_bytes ps))" using J by (simp add: writing_def)
      then show False using \<open>w \<noteq> 0\<close> "1.prems"(2,3) by simp
    qed
    then show ?thesis using J by (simp add: advanceBatchWrite.simps)
  next
    case True
    have i: "?i < length ps" using True J by (auto simp: writing_def)
    have at: "wb_batch s ! ?i = Some (ps ! ?i)" using J i by (simp add: writing_def nth_append)
    obtain d where d: "getData (ps ! ?i) = Some d" "sl_len d = int (length (pk_bytes (ps ! ?i)))"
      using readable_data [OF assms(2)] i by (meson nth_mem)
    define m where "m = sl_len d - wb_offset s"
    have m0: "0 \<le> m" using J i d(2) by (simp add: writing_def m_def)
    have step: "advanceBatchWrite w s =
       (if m \<le> 0 then advanceBatchWrite w (releaseCurrent (ps ! ?i) s)
        else if w < m then Some (s\<lparr>wb_offset := wb_offset s + w\<rparr>)
        else advanceBatchWrite (w - m) (releaseCurrent (ps ! ?i) s))"
      using True at d(1) by (subst advanceBatchWrite.simps) (simp add: m_def Let_def)
    have batch: "(replicate k None @ map Some (drop k ps))[k := None] = replicate (Suc k) None @ map Some (drop (Suc k) ps)"
      if "k < length ps" for k
    proof -
      have "map Some (drop k ps) = Some (ps ! k) # map Some (drop (Suc k) ps)"
        using that by (simp add: Cons_nth_drop_Suc [symmetric])
      then show ?thesis by (simp add: list_update_append replicate_append_same [symmetric])
    qed
    have whole: "writing ps (n + nat m) (releaseCurrent (ps ! ?i) s)"
      using J i m0 d(2) batch [OF i] by (auto simp: writing_def releaseCurrent_def m_def take_Suc_conv_app_nth)
    consider "m = 0" | "0 < m" "w < m" | "0 < m" "m \<le> w" using m0 by linarith
    then show ?thesis
    proof cases
      case 1
      then show ?thesis
        using "1.IH"(2) [OF True at d(1) refl _ _ "1.prems"(2,3)] whole step by (simp add: m_def)
    next
      case 2
      have "writing ps (n + nat w) (s\<lparr>wb_offset := wb_offset s + w\<rparr>)"
        using J i 2 d(2) "1.prems"(2) by (auto simp: writing_def m_def)
      then show ?thesis using step 2 by simp
    next
      case 3
      have "\<exists>s'. advanceBatchWrite (w - m) (releaseCurrent (ps ! ?i) s) = Some s' \<and> writing ps (n + nat m + nat (w - m)) s'"
        using "1.IH"(3) [OF True at d(1) refl _ _ whole] 3 "1.prems"(3) by (simp add: m_def)
      moreover have "n + nat m + nat (w - m) = n + nat w" using 3 by simp
      ultimately show ?thesis using step 3 by simp
    qed
  qed
qed

lemma consume_concat: "concat (consume n bs) = drop n (concat bs)"
  by (induction n bs rule: consume.induct) auto

lemma writeSome_writing:
  assumes w: "writing ps n s" and r: "\<And>p. p \<in> set ps \<Longrightarrow> readable p"
    and c: "concat bufs = drop n (concat (map pk_bytes ps))" and n: "n \<le> length (concat (map pk_bytes ps))"
  shows "\<exists>s'. writeSome k bufs s = Some (take k (concat bufs), s') \<and> writing ps (n + length (take k (concat bufs))) s'"
  using advance_writing [OF w r, of "int (length (take k (concat bufs)))"] n by (auto simp: writeSome_def c)

lemma take_length_self: "xs = take m ys \<Longrightarrow> xs = take (length xs) ys"
  by (simp add: min_def)

lemma writeBuffers_writing:
  assumes "writing ps n s" "\<And>p. p \<in> set ps \<Longrightarrow> readable p"
    "concat bufs = drop n (concat (map pk_bytes ps))" "n \<le> length (concat (map pk_bytes ps))"
  shows "\<exists>out s' e. writeBuffers rs bufs s = Some (out, s', e) \<and> out = take (length out) (concat bufs)
    \<and> (e = BatchSent \<longrightarrow> out = concat bufs) \<and> e \<noteq> LoopEnds \<and> wb_released s' = ps \<and> wb_batch s' = []"
  using assms(1,3,4)
proof (induction rs arbitrary: bufs n s)
  case Nil
  then show ?case
    using writeSome_writing [OF Nil(1) assms(2) Nil(2,3), of "length (concat bufs)"] writing_release
    by (auto simp: batchEnds_def)
next
  case (Cons r rs)
  note some = writeSome_writing [OF Cons.prems(1) assms(2) Cons.prems(2,3)]
  show ?case
  proof (cases "bufs = []")
    case True
    then show ?thesis using writing_release [OF Cons.prems(1)] by (simp add: batchEnds_def)
  next
    case False
    show ?thesis
    proof (cases r)
      case Written
      then show ?thesis using False some [of "length (concat bufs)"] writing_release by (auto simp: batchEnds_def)
    next
      case (WriteFailed k)
      then show ?thesis using False some [of k] writing_release by (auto simp: batchEnds_def min_def)
    next
      case (TimedOut k refreshed)
      let ?out = "take k (concat bufs)"
      obtain s1 where s1: "writeSome k bufs s = Some (?out, s1)" "writing ps (n + length ?out) s1" using some by blast
      show ?thesis
      proof (cases "?out \<noteq> [] \<and> refreshed")
        case stop: False
        then have "writeBuffers (r # rs) bufs s = Some (batchEnds Disconnects (?out, s1))"
          using TimedOut False s1(1) by auto
        then show ?thesis using writing_release [OF s1(2)] by (simp del: writeBuffers.simps add: batchEnds_def min_def)
      next
        case True
        have cc: "concat (consume (length ?out) bufs) = drop (n + length ?out) (concat (map pk_bytes ps))"
          by (simp add: consume_concat Cons.prems(2) add.commute)
        have nn: "n + length ?out \<le> length (concat (map pk_bytes ps))" using Cons.prems(2,3) by simp
        obtain out s2 e where "writeBuffers rs (consume (length ?out) bufs) s1 = Some (out, s2, e)
          \<and> out = take (length out) (concat (consume (length ?out) bufs)) \<and> (e = BatchSent \<longrightarrow> out = concat (consume (length ?out) bufs))
          \<and> e \<noteq> LoopEnds \<and> wb_released s2 = ps \<and> wb_batch s2 = []"
          using Cons.IH [OF s1(2) cc nn] by blast
        then have ih: "writeBuffers rs (consume (length ?out) bufs) s1 = Some (out, s2, e)"
          "out = take (length out) (drop (length ?out) (concat bufs))" "e = BatchSent \<longrightarrow> out = drop (length ?out) (concat bufs)"
          "e \<noteq> LoopEnds" "wb_released s2 = ps" "wb_batch s2 = []"
          unfolding consume_concat by blast+
        have split: "?out = take (length ?out) (concat bufs)" by (simp add: min_def)
        have "?out @ out = take (length ?out + length out) (concat bufs)"
          using split ih(2) unfolding take_add by simp
        then have "?out @ out = take (length (?out @ out)) (concat bufs)" by (rule take_length_self)
        moreover have "?out @ out = concat bufs" if "e = BatchSent"
          using ih(3) that split by (metis append_take_drop_id)
        moreover have "writeBuffers (r # rs) bufs s = Some (?out @ out, s2, e)"
          using TimedOut False s1(1) True ih(1) by simp
        ultimately show ?thesis using ih(4-6) by (intro exI [of _ "?out @ out"] exI [of _ s2] exI [of _ e] conjI impI)
      qed
    qed
  qed
qed

lemma those_readable:
  "(\<And>p. p \<in> set ps \<Longrightarrow> readable p) \<Longrightarrow> \<exists>ds. those (map getData ps) = Some ds \<and> map sl_data ds = map pk_bytes ps"
proof (induction ps)
  case (Cons p ps)
  then obtain ds where "those (map getData ps) = Some ds" "map sl_data ds = map pk_bytes ps" by auto
  moreover obtain d where "getData p = Some d" "sl_data d = pk_bytes p" using readable_data Cons.prems by auto
  ultimately show ?case by auto
qed simp

text \<open>C10. A batch is written as one stream: however the writes are cut short, time out and are resumed, the bytes that
  reach the socket are the first bytes of the packets in order, all of them when the batch counts
  as sent, and every packet of the batch is released exactly once, in order. The write loop never panics.\<close>

theorem batch_written_and_released:
  assumes "\<And>p. p \<in> set ps \<Longrightarrow> readable p"
  shows "\<exists>out s e. sendPacketBatch sock deadline rs ps = Some (out, s, e)
    \<and> out = take (length out) (concat (map pk_bytes ps))
    \<and> (sock \<and> e = BatchSent \<longrightarrow> out = concat (map pk_bytes ps))
    \<and> wb_released s = ps \<and> wb_batch s = []"
proof -
  have nil: ?thesis if "sendPacketBatch sock deadline rs ps = Some ([], releaseBatch (writeStart ps), e)"
      "e = BatchSent \<longrightarrow> \<not> sock" for e
    using that writing_release [OF writing_start] by auto
  obtain ds where ds: "those (map getData ps) = Some ds" "map sl_data ds = map pk_bytes ps"
    using those_readable [OF assms] by blast
  consider "ps = []" | "ps \<noteq> []" "\<not> sock" | "ps \<noteq> []" "sock" "\<not> deadline" | "ps \<noteq> []" sock deadline by blast
  then show ?thesis
  proof cases
    case 1
    then show ?thesis by (simp add: sendPacketBatch_def writeStart_def)
  next
    case 2
    then show ?thesis using nil [of BatchSent] by (simp add: sendPacketBatch_def Let_def)
  next
    case 3
    then show ?thesis using nil [of LoopEnds] by (simp add: sendPacketBatch_def Let_def)
  next
    case 4
    then have "sendPacketBatch sock deadline rs ps = writeBuffers rs (map pk_bytes ps) (writeStart ps)"
      using ds by (simp add: sendPacketBatch_def Let_def)
    then show ?thesis
      using writeBuffers_writing [OF writing_start assms, of ps "map pk_bytes ps" rs] by auto
  qed
qed

definition demoTcpStats :: tcp_queue_stats where
  "demoTcpStats = \<lparr>tt_priorityPkts = 0, tt_codelDrops = 0, tt_overflowDrops = 0, tt_queuedBytes = 0, tt_maxDelay = 0\<rparr>"

definition demoTcpSettings :: tcp_queue_settings where
  "demoTcpSettings = newTcpQueueSettings exact_floats None 0 1500"

definition demoTunnelConn :: tunnel_conn where
  "demoTunnelConn = (newTunnelConn 7 1 2 demoTcpSettings demoTcpStats True 0 0)\<lparr>tn_authed := True\<rparr>"

definition demoPool :: tunnel_pool where
  "demoPool = (newPool 2 0)\<lparr>pl_conns := [0, 1]\<rparr>"

lemma demo_usable: "usable demoTunnelConn"
  by (simp add: usable_def demoTunnelConn_def newTunnelConn_def)

theorem pick_conn_balanced_witness:
  "\<exists>r p'. pickConn [demoTunnelConn, demoTunnelConn] 1000 200 True demoPool = (r, p') \<and> r = Some 1 \<and> pl_current p' = Some 1"
proof -
  let ?cs = "[demoTunnelConn, demoTunnelConn]"
  obtain r p' where e: "pickConn ?cs 1000 200 True demoPool = (r, p')" by (cases "pickConn ?cs 1000 200 True demoPool")
  have re: "reservedConn 200 True demoPool = Some 0" "sharedConns 200 True demoPool = [1]"
    by (simp_all add: reservedConn_def sharedConns_def demoPool_def)
  have u: "usable (?cs ! 0)" "usable (?cs ! 1)" using demo_usable by simp_all
  note t = pick_conn_balanced [OF e]
  show ?thesis
  proof (cases r)
    case None
    then show ?thesis using t u by (simp add: demoPool_def newPool_def)
  next
    case (Some c)
    then have "c = 1 \<and> pl_current p' = Some 1" using t u unfolding re Some by (auto split: if_splits)
    then show ?thesis using e Some by simp
  qed
qed

definition demoBatchPacket :: packet where
  "demoBatchPacket = (getPacketWithBuffer ''t'' (full_slice [1, 2, 3]) 0)\<lparr>pk_length := 3\<rparr>"

lemma demo_readable: "readable demoBatchPacket" "pk_bytes demoBatchPacket = [1, 2, 3]"
  by (simp_all add: readable_def demoBatchPacket_def getPacketWithBuffer_def getData_def sl_range_def full_slice_def
      sl_cap_def pk_bytes_def)

theorem batch_written_and_released_witness:
  "\<exists>out s e. sendPacketBatch True True [TimedOut 2 True, WriteFailed 2] [demoBatchPacket, demoBatchPacket] = Some (out, s, e)
    \<and> out = take (length out) [1, 2, 3, 1, 2, 3] \<and> wb_released s = [demoBatchPacket, demoBatchPacket]"
  using batch_written_and_released [of "[demoBatchPacket, demoBatchPacket]" True True "[TimedOut 2 True, WriteFailed 2]"]
  by (auto simp: demo_readable)

section \<open>Round robin\<close>

lemma slot_index:
  "0 < n \<Longrightarrow> n < 2 ^ 32 \<Longrightarrow> unat ((i :: 32 word) mod of_nat n) = unat i mod n"
  by (simp add: unat_mod_distrib take_bit_nat_eq_self unat_of_nat)

lemma nextConnLoop_Some:
  assumes "pl_conns p \<noteq> []" "length (pl_conns p) < 2 ^ 32"
  shows "nextConnLoop cs n p = (Some c, p') \<Longrightarrow> c \<in> set (pl_conns p) \<and> usable (cs ! c)"
  using assms
proof (induction n arbitrary: p)
  case (Suc n)
  have "pl_conns p ! (unat (pl_index p + 1) mod length (pl_conns p)) \<in> set (pl_conns p)"
    using Suc.prems(2) by (intro nth_mem) simp
  then show ?case
    using Suc.prems Suc.IH [of "p\<lparr>pl_index := pl_index p + 1\<rparr>"]
    by (auto simp: Let_def slot_index split: if_splits)
qed simp

lemma nextConnLoop_None:
  assumes "pl_conns p \<noteq> []" "length (pl_conns p) < 2 ^ 32" "unat (pl_index p) + n < 2 ^ 32"
    "nextConnLoop cs n p = (None, p')" "0 < k" "k \<le> n"
  shows "\<not> usable (cs ! (pl_conns p ! ((unat (pl_index p) + k) mod length (pl_conns p))))"
  using assms
proof (induction n arbitrary: p k)
  case (Suc n)
  let ?p = "p\<lparr>pl_index := pl_index p + 1\<rparr>"
  have u: "unat (pl_index p + 1) = unat (pl_index p) + 1" using Suc.prems(3) by (subst unat_add_lem [THEN iffD1]) simp_all
  have now: "\<not> usable (cs ! (pl_conns p ! (unat (pl_index p + 1) mod length (pl_conns p))))"
      "nextConnLoop cs n ?p = (None, p')"
    using Suc.prems(1,2,4) by (auto simp: Let_def slot_index split: if_splits)
  show ?case
  proof (cases "k = 1")
    case True
    then show ?thesis using now(1) u by simp
  next
    case False
    then show ?thesis using Suc.IH [of ?p "k - 1"] Suc.prems now(2) u by simp
  qed
qed simp

text \<open>Round robin finds a usable connection when there is one, until the 32-bit index wraps around.\<close>

lemma next_conn_complete:
  assumes "length (pl_conns p) < 2 ^ 32" "unat (pl_index p) + length (pl_conns p) < 2 ^ 32"
    "getNextConn cs p = (None, p')" "i \<in> set (pl_conns p)"
  shows "\<not> usable (cs ! i)"
proof -
  let ?n = "length (pl_conns p)" and ?x = "unat (pl_index p)"
  obtain j where j: "j < ?n" "pl_conns p ! j = i" using assms(4) by (auto simp: in_set_conv_nth)
  define m where "m = ?x mod ?n"
  define k where "k = (if m < j then j - m else j + ?n - m)"
  have m: "m < ?n" using j(1) unfolding m_def by (intro mod_less_divisor) linarith
  have k: "0 < k" "k \<le> ?n" using m j(1) by (auto simp: k_def)
  have "(?x + k) mod ?n = (m + k) mod ?n" by (simp add: m_def mod_simps)
  also have "\<dots> = j" using j(1) m by (auto simp: k_def)
  finally have "(?x + k) mod ?n = j" .
  moreover have "pl_conns p \<noteq> []" using j(1) by auto
  ultimately show ?thesis
    using nextConnLoop_None [of p ?n cs p' k] assms(1-3) k j(2) by (simp add: getNextConn_def)
qed

end
