(* ===== verification/TunnelMaps.thy ===== *)
theory TunnelMaps
  imports TunnelConn
begin

text \<open>
  \<open>src/tcp_tunnel_listen.go\<close> and \<open>src/tcp_tunnel_forward.go\<close>: the two components of a TCP tunnel. They keep their
  connections in pools, one pool per peer and target, and an index from the connection ids seen to the
  pool that a reply must take. Both are one record here: what the constructors set up differs, and
  where the code differs the operations have one version for each. Packets are values, see \<open>TunnelConn\<close>.
\<close>

section \<open>State\<close>

text \<open>
  The listener's map from forward ids to maps from pool ids to pools is one list with both ids as the key: the
  code never keeps an empty inner map. The forwarder's pools are fixed. Pools and connections are pointers
  into \<open>tu_pools\<close> and \<open>tu_conns\<close>. Both constructors end with an authentication manager, \<open>Start\<close> refuses to run without one.
\<close>

record tunnel =
  tu_mode :: tunnel_mode
  tu_tag :: string
  tu_detour :: "string list"
  tu_broadcast :: bool
  tu_forwardID :: conn_id
  tu_config :: router_config
  tu_auth :: auth_manager
  tu_qs :: tcp_queue_settings
  tu_qstats :: tcp_queue_stats
  tu_stats :: hb_stats
  tu_batching :: bool
  tu_batchSize :: int
  tu_conns :: "tunnel_conn list"
  tu_pools :: "tunnel_pool list"
  tu_table :: "((conn_id \<times> conn_id) \<times> nat) list"
  tu_poolMap :: "(conn_id \<times> nat) list"
  tu_index :: "(conn_id \<times> nat) list"
  tu_gen :: "64 word"
  tu_stopped :: bool

record tunnel_env =
  te_crypto :: crypto
  te_now :: gotime
  te_rand :: "bytes option"
  te_mem :: bytes
  te_mem2 :: bytes
  te_connID :: conn_id
  te_dial :: bool
  te_order :: "nat list \<Rightarrow> nat list"

datatype tunnel_error = WrapFailed auth_error | WriteRefused | ChallengeFailed auth_error

definition tnAt :: "tunnel \<Rightarrow> nat \<Rightarrow> tunnel_conn" where
  "tnAt t i = tu_conns t ! i"

definition setTn :: "nat \<Rightarrow> tunnel_conn \<Rightarrow> tunnel \<Rightarrow> tunnel" where
  "setTn i c t = t\<lparr>tu_conns := (tu_conns t)[i := c]\<rparr>"

definition poolAt :: "tunnel \<Rightarrow> nat \<Rightarrow> tunnel_pool" where
  "poolAt t k = tu_pools t ! k"

definition setPool :: "nat \<Rightarrow> tunnel_pool \<Rightarrow> tunnel \<Rightarrow> tunnel" where
  "setPool k p t = t\<lparr>tu_pools := (tu_pools t)[k := p]\<rparr>"

text \<open>\<open>NewTcpTunnelListenComponent\<close> and \<open>NewTcpTunnelForwardComponent\<close>; the pools of the forwarder are given with
  their random ids and the connection counts of the parsed addresses.\<close>

definition newTunnelListen :: "string \<Rightarrow> string list \<Rightarrow> bool option \<Rightarrow> bool option \<Rightarrow> int \<Rightarrow> router_config \<Rightarrow> auth_manager
    \<Rightarrow> tcp_queue_settings \<Rightarrow> tcp_queue_stats \<Rightarrow> hb_stats \<Rightarrow> tunnel" where
  "newTunnelListen tag detour broadcast batch batchSize c am qs qst st =
     \<lparr>tu_mode = ListenMode, tu_tag = tag, tu_detour = detour, tu_broadcast = (broadcast \<noteq> Some False), tu_forwardID = 0,
      tu_config = c, tu_auth = am, tu_qs = qs, tu_qstats = qst, tu_stats = st, tu_batching = (batch \<noteq> Some False),
      tu_batchSize = normalizeBatchSize batchSize, tu_conns = [], tu_pools = [], tu_table = [], tu_poolMap = [],
      tu_index = [], tu_gen = 0, tu_stopped = False\<rparr>"

definition newTunnelForward :: "string \<Rightarrow> string list \<Rightarrow> bool option \<Rightarrow> bool option \<Rightarrow> int \<Rightarrow> router_config \<Rightarrow> auth_manager
    \<Rightarrow> tcp_queue_settings \<Rightarrow> tcp_queue_stats \<Rightarrow> hb_stats \<Rightarrow> conn_id \<Rightarrow> (conn_id \<times> int) list \<Rightarrow> tunnel" where
  "newTunnelForward tag detour broadcast batch batchSize c am qs qst st fid targets =
     (newTunnelListen tag detour broadcast batch batchSize c am qs qst st)\<lparr>tu_mode := ForwardMode, tu_forwardID := fid,
        tu_pools := map (\<lambda>(pid, n). newPool pid n) targets,
        tu_poolMap := fold (\<lambda>(k, (pid, n)) m. AList.update pid k m) (zip [0 ..< length targets] targets) []\<rparr>"

section \<open>Operations on one connection\<close>

text \<open>\<open>Write\<close> and \<open>WriteHighPriority\<close>; the flag tells that there was no error.\<close>

definition tunnelWrite :: "bool \<Rightarrow> gotime \<Rightarrow> nat \<Rightarrow> packet \<Rightarrow> tunnel \<Rightarrow> (tunnel \<times> bool) option" where
  "tunnelWrite control now i p t = do {
     ((c, qst), ok) \<leftarrow> tunnelEnqueue p control now (tu_qstats t) (tnAt t i);
     Some (setTn i c (t\<lparr>tu_qstats := qst\<rparr>), ok)
   }"

definition closeConn :: "gotime \<Rightarrow> nat \<Rightarrow> tunnel \<Rightarrow> tunnel option" where
  "closeConn now i t = do {
     (c, st, qst) \<leftarrow> closeTunnelConn now (tnAt t i, tu_stats t, tu_qstats t);
     Some (setTn i c (t\<lparr>tu_stats := st, tu_qstats := qst\<rparr>))
   }"

definition tnLost :: "gotime \<Rightarrow> nat \<Rightarrow> tunnel \<Rightarrow> tunnel \<times> int" where
  "tnLost now i t =
     (let (r, n) = markPendingHeartbeatLost now (tn_hb (tnAt t i), Some (tu_stats t))
      in (setTn i ((tnAt t i)\<lparr>tn_hb := fst r\<rparr>) (t\<lparr>tu_stats := the (snd r)\<rparr>), n))"

definition tnSent :: "gotime \<Rightarrow> nat \<Rightarrow> tunnel \<Rightarrow> tunnel" where
  "tnSent now i t =
     (let r = noteHeartbeatSent now (tn_hb (tnAt t i), Some (tu_stats t))
      in setTn i ((tnAt t i)\<lparr>tn_hb := fst r\<rparr>) (t\<lparr>tu_stats := the (snd r)\<rparr>))"

text \<open>A control packet: \<open>f\<close> writes it.\<close>

definition tunnelControl :: "tunnel_env \<Rightarrow> (slice \<Rightarrow> (slice \<times> int) option) \<Rightarrow> bool \<Rightarrow> nat \<Rightarrow> tunnel \<Rightarrow> (tunnel \<times> bool) option" where
  "tunnelControl E f control i t = do {
     (p, n) \<leftarrow> fillPacket f (getPacket (tu_config t) (te_mem E) (tu_tag t));
     tunnelWrite control (te_now E) i (p\<lparr>pk_length := n\<rparr>) t
   }"

text \<open>A challenge or the response to one, written into a packet: the new manager, and the packet or the error.\<close>

definition challengePacket :: "tunnel_env \<Rightarrow> byte \<Rightarrow> conn_id \<Rightarrow> conn_id \<Rightarrow> tunnel \<Rightarrow> (auth_manager \<times> (auth_error + packet)) option" where
  "challengePacket E ty fid pid t =
     (let p = getPacket (tu_config t) (te_mem E) (tu_tag t) in do {
        b \<leftarrow> bufAtOffset p;
        (am, b', res) \<leftarrow> createAuthChallenge (te_crypto E) (te_now E) (te_rand E) ty fid pid b (tu_auth t);
        Some (am, case res of Inl e \<Rightarrow> Inl e
          | Inr n \<Rightarrow> Inr (p\<lparr>pk_buf := (pk_buf p)\<lparr>sl_mem := take (nat (pk_offset p)) (sl_mem (pk_buf p)) @ sl_mem b'\<rparr>, pk_length := n\<rparr>))
      })"

section \<open>The index of connection ids\<close>

definition forgetPool :: "nat \<Rightarrow> tunnel \<Rightarrow> tunnel" where
  "forgetPool k t = t\<lparr>tu_index := filter (\<lambda>(c, j). j \<noteq> k) (tu_index t), tu_gen := tu_gen t + 1\<rparr>"

definition getPoolByID :: "conn_id \<Rightarrow> tunnel \<Rightarrow> nat option \<times> tunnel" where
  "getPoolByID c t =
     (if c = 0 then (None, t)
      else case map_of (tu_index t) c of
          None \<Rightarrow> (None, t)
        | Some k \<Rightarrow>
            if pl_conns (poolAt t k) = [] then (None, t\<lparr>tu_index := AList.delete c (tu_index t), tu_gen := tu_gen t + 1\<rparr>)
            else (Some k, t))"

definition rememberConnIDPool :: "conn_id \<Rightarrow> nat \<Rightarrow> tunnel \<Rightarrow> tunnel" where
  "rememberConnIDPool c k t = (if c = 0 then t else t\<lparr>tu_index := AList.update c k (tu_index t)\<rparr>)"

definition rememberListen :: "conn_id \<Rightarrow> nat \<Rightarrow> tunnel \<Rightarrow> tunnel" where
  "rememberListen c i t =
     (if c = 0 then t
      else case map_of (tu_table t) (tn_forwardID (tnAt t i), tn_poolID (tnAt t i)) of
          None \<Rightarrow> t
        | Some k \<Rightarrow> t\<lparr>tu_index := AList.update c k (tu_index t)\<rparr>)"

definition rememberForward :: "conn_id \<Rightarrow> nat \<Rightarrow> tunnel \<Rightarrow> tunnel" where
  "rememberForward c i t =
     (if c = 0 then t
      else case map_of (tu_poolMap t) (tn_poolID (tnAt t i)) of None \<Rightarrow> t | Some k \<Rightarrow> rememberConnIDPool c k t)"

section \<open>Connections come and go\<close>

text \<open>The listener: the pool of the connection's ids loses it, and goes when it was the last.\<close>

definition disconnectListen :: "gotime \<Rightarrow> nat \<Rightarrow> tunnel \<Rightarrow> tunnel option" where
  "disconnectListen now i t =
     (let key = (tn_forwardID (tnAt t i), tn_poolID (tnAt t i)) in
      case map_of (tu_table t) key of
        None \<Rightarrow> closeConn now i t
      | Some k \<Rightarrow>
          (let p = removeConnection i (poolAt t k); t1 = setPool k p t in
           if pl_conns p = [] then closeConn now i (forgetPool k (t1\<lparr>tu_table := AList.delete key (tu_table t1)\<rparr>))
           else closeConn now i t1))"

definition disconnectForward :: "gotime \<Rightarrow> nat \<Rightarrow> tunnel \<Rightarrow> tunnel option" where
  "disconnectForward now i t =
     (case map_of (tu_poolMap t) (tn_poolID (tnAt t i)) of
        None \<Rightarrow> closeConn now i t
      | Some k \<Rightarrow>
          (let p = removeConnection i (poolAt t k); t1 = setPool k p t in
           closeConn now i (if pl_conns p = [] then forgetPool k t1 else t1)))"

text \<open>A connection accepted or dialled; it is the last of the store.\<close>

definition acceptConn :: "tunnel_env \<Rightarrow> conn_id \<Rightarrow> conn_id \<Rightarrow> tunnel \<Rightarrow> tunnel" where
  "acceptConn E fid pid t = t\<lparr>tu_conns := tu_conns t @
     [newTunnelConn (te_connID E) fid pid (tu_qs t) (tu_qstats t) (tu_batching t) (tu_batchSize t) (te_now E)]\<rparr>"

text \<open>The listener answers a proven connection and puts it into the pool of its ids, a new one when there is none.\<close>

definition addToPool :: "nat \<Rightarrow> tunnel \<Rightarrow> tunnel" where
  "addToPool i t =
     (let key = (tn_forwardID (tnAt t i), tn_poolID (tnAt t i));
          t1 = (if map_of (tu_table t) key = None
                then t\<lparr>tu_pools := tu_pools t @ [newPool (snd key) 0], tu_table := AList.update key (length (tu_pools t)) (tu_table t)\<rparr>
                else t);
          k = the (map_of (tu_table t1) key)
      in setPool k (addConnection i (poolAt t1 k)) t1)"

definition authenticatedListen :: "tunnel_env \<Rightarrow> nat \<Rightarrow> tunnel \<Rightarrow> (tunnel \<times> bool) option" where
  "authenticatedListen E i t = do {
     (am, res) \<leftarrow> challengePacket E MsgTypeAuthResponse (tn_forwardID (tnAt t i)) (tn_poolID (tnAt t i)) t;
     let t1 = t\<lparr>tu_auth := am\<rparr>;
     (case res of
        Inl e \<Rightarrow> Some (t1, False)
      | Inr p \<Rightarrow> do {
          (t2, ok) \<leftarrow> tunnelWrite False (te_now E) i p t1;
          if \<not> ok then map_option (\<lambda>t3. (t3, False)) (disconnectListen (te_now E) i t2)
          else
            (let t3 = addToPool i t2 in Some (setTn i ((tnAt t3 i)\<lparr>tn_authed := True\<rparr>) t3, True))
        })
   }"

definition authenticatedForward :: "tunnel_env \<Rightarrow> nat \<Rightarrow> tunnel \<Rightarrow> (tunnel \<times> bool) option" where
  "authenticatedForward E i t = Some (setTn i ((tnAt t i)\<lparr>tn_authed := True\<rparr>) t, True)"

text \<open>The forwarder dials a target and sends its challenge: the number of the connection, when all went well.\<close>

definition setupConnection :: "tunnel_env \<Rightarrow> nat \<Rightarrow> tunnel \<Rightarrow> (tunnel \<times> nat option) option" where
  "setupConnection E k t =
     (if \<not> te_dial E then Some (t, None)
      else do {
        let i = length (tu_conns t);
        let t1 = acceptConn E (tu_forwardID t) (pl_poolID (poolAt t k)) t;
        (am, res) \<leftarrow> challengePacket E MsgTypeAuthChallenge (tu_forwardID t) (pl_poolID (poolAt t k)) t1;
        let t2 = t1\<lparr>tu_auth := am\<rparr>;
        (case res of
           Inl e \<Rightarrow> map_option (\<lambda>t3. (t3, None)) (closeConn (te_now E) i t2)
         | Inr p \<Rightarrow> do {
             (t3, ok) \<leftarrow> tunnelWrite False (te_now E) i p t2;
             if ok then Some (t3, Some i) else map_option (\<lambda>t4. (t4, None)) (closeConn (te_now E) i t3)
           })
      })"

text \<open>\<open>ensurePoolConnections\<close>: one environment for every turn of the loop.\<close>

fun ensurePool :: "tunnel_env list \<Rightarrow> nat \<Rightarrow> tunnel \<Rightarrow> tunnel option" where
  "ensurePool [] k t = Some t"
| "ensurePool (E # Es) k t =
     (if tu_stopped t \<or> pl_count (poolAt t k) \<le> int (length (pl_conns (poolAt t k))) then Some t
      else do {
        (t1, r) \<leftarrow> setupConnection E k t;
        (case r of None \<Rightarrow> Some t1
         | Some i \<Rightarrow> ensurePool Es k (setPool k (addConnection i (poolAt t1 k)) t1))
      })"

definition tunnelHeartbeat :: "tunnel_env \<Rightarrow> nat \<Rightarrow> tunnel \<Rightarrow> tunnel option" where
  "tunnelHeartbeat E i t =
     (if \<not> tn_authed (tnAt t i) then Some t
      else
        (let (t1, loss) = tnLost (te_now E) i t in
         if 5 \<le> loss then disconnectForward (te_now E) i t1
         else do {
           (t2, ok) \<leftarrow> tunnelControl E createHeartbeat True i t1;
           Some (if ok then tnSent (te_now E) i t2 else t2)
         }))"

text \<open>
  The tickers of the forwarder's \<open>connectionChecker\<close>: connections without a socket leave their pool, which is then filled
  up; every connection gets a heartbeat. The goroutines started here run one after the other. \<open>Es\<close> has the environments
  of the connections that a pool dials.
\<close>

definition dropDead :: "nat \<Rightarrow> tunnel \<Rightarrow> tunnel" where
  "dropDead k t = setPool k (fold removeConnection (filter (\<lambda>i. \<not> tn_sock (tnAt t i)) (pl_conns (poolAt t k))) (poolAt t k)) t"

fun checkPools :: "(nat \<Rightarrow> tunnel_env list) \<Rightarrow> nat list \<Rightarrow> tunnel \<Rightarrow> tunnel option" where
  "checkPools Es [] t = Some t"
| "checkPools Es (k # ks) t = do { t1 \<leftarrow> ensurePool (Es k) k (dropDead k t); checkPools Es ks t1 }"

fun heartbeats :: "tunnel_env \<Rightarrow> nat list \<Rightarrow> tunnel \<Rightarrow> tunnel option" where
  "heartbeats E [] t = Some t"
| "heartbeats E (i # is) t = do { t1 \<leftarrow> (if tn_sock (tnAt t i) then tunnelHeartbeat E i t else Some t); heartbeats E is t1 }"

definition heartbeatTick :: "tunnel_env \<Rightarrow> tunnel \<Rightarrow> tunnel option" where
  "heartbeatTick E t = heartbeats E (concat (map (\<lambda>k. pl_conns (poolAt t k)) (te_order E (map snd (tu_poolMap t))))) t"

section \<open>Packets for the other end\<close>

definition pickFrom :: "int \<Rightarrow> nat \<Rightarrow> tunnel \<Rightarrow> nat option \<times> tunnel" where
  "pickFrom n k t =
     (let (r, p) = pickConn (tu_conns t) n (ts_prioritySize (tu_qs t)) (ts_priorityConn (tu_qs t)) (poolAt t k)
      in (r, setPool k p t))"

text \<open>To one pool: no error when it has no usable connection.\<close>

definition sendToPool :: "gotime \<Rightarrow> packet \<Rightarrow> nat \<Rightarrow> tunnel \<Rightarrow> (tunnel \<times> tunnel_error option) option" where
  "sendToPool now p k t =
     (case pickFrom (pk_length p) k t of
        (None, t1) \<Rightarrow> Some (t1, None)
      | (Some i, t1) \<Rightarrow> do {
          (t2, ok) \<leftarrow> tunnelWrite False now i p t1;
          Some (t2, if ok then None else Some WriteRefused)
        })"

text \<open>To all pools; a refused write is only logged.\<close>

fun sendToPools :: "gotime \<Rightarrow> packet \<Rightarrow> nat list \<Rightarrow> tunnel \<Rightarrow> tunnel option" where
  "sendToPools now p [] t = Some t"
| "sendToPools now p (k # ks) t = do { (t1, e) \<leftarrow> sendToPool now p k t; sendToPools now p ks t1 }"

definition tunnelWrap :: "tunnel_env \<Rightarrow> packet \<Rightarrow> tunnel \<Rightarrow> (tunnel \<times> (auth_error + packet)) option" where
  "tunnelWrap E p t = do {
     (am, q, e) \<leftarrow> wrapData (te_crypto E) (tu_config t) (te_now E) (te_rand E) (te_mem E) (te_mem2 E) (tu_auth t) p;
     Some (t\<lparr>tu_auth := am\<rparr>, case e of None \<Rightarrow> Inr q | Some err \<Rightarrow> Inl err)
   }"

definition handlePacketListen :: "tunnel_env \<Rightarrow> packet \<Rightarrow> tunnel \<Rightarrow> (tunnel \<times> tunnel_error option) option" where
  "handlePacketListen E p t = do {
     (t1, res) \<leftarrow> tunnelWrap E p t;
     (case res of
        Inl e \<Rightarrow> Some (t1, Some (WrapFailed e))
      | Inr q \<Rightarrow>
          if tu_broadcast t1 then map_option (\<lambda>t2. (t2, None)) (sendToPools (te_now E) q (te_order E (map snd (tu_table t1))) t1)
          else if pk_connID q = 0 then Some (t1, None)
          else (case getPoolByID (pk_connID q) t1 of
              (None, t2) \<Rightarrow> Some (t2, None)
            | (Some k, t2) \<Rightarrow> sendToPool (te_now E) q k t2))
   }"

text \<open>The forwarder takes the pool its index names, or the first with a usable connection, and then remembers
  it; a packet without a connection id gets a new one.\<close>

fun firstPool :: "tunnel_env \<Rightarrow> nat list \<Rightarrow> packet \<Rightarrow> tunnel \<Rightarrow> tunnel \<times> packet \<times> nat option" where
  "firstPool E [] p t = (t, p, None)"
| "firstPool E (k # ks) p t =
     (let (r, pl) = getNextConn (tu_conns t) (poolAt t k); t1 = setPool k pl t in
      if r = None then firstPool E ks p t1
      else
        (let q = (if pk_connID p = 0 then p\<lparr>pk_connID := te_connID E\<rparr> else p)
         in (rememberConnIDPool (pk_connID q) k t1, q, Some k)))"

definition pickPoolForPacket :: "tunnel_env \<Rightarrow> packet \<Rightarrow> tunnel \<Rightarrow> tunnel \<times> packet \<times> nat option" where
  "pickPoolForPacket E p t =
     (case (if pk_connID p = 0 then (None, t) else getPoolByID (pk_connID p) t) of
        (Some k, t1) \<Rightarrow> (t1, p, Some k)
      | (None, t1) \<Rightarrow> firstPool E (te_order E (map snd (tu_poolMap t1))) p t1)"

definition handlePacketForward :: "tunnel_env \<Rightarrow> packet \<Rightarrow> tunnel \<Rightarrow> (tunnel \<times> tunnel_error option) option" where
  "handlePacketForward E p t =
     (if \<not> tu_broadcast t
      then (case pickPoolForPacket E p t of
          (t1, q, None) \<Rightarrow> Some (t1, None)
        | (t1, q, Some k) \<Rightarrow> do {
            (t2, res) \<leftarrow> tunnelWrap E q t1;
            (case res of
               Inl e \<Rightarrow> Some (t2, Some (WrapFailed e))
             | Inr q' \<Rightarrow> sendToPool (te_now E) q' k t2)
          })
      else do {
        (t1, res) \<leftarrow> tunnelWrap E p t;
        (case res of
           Inl e \<Rightarrow> Some (t1, Some (WrapFailed e))
         | Inr q \<Rightarrow> map_option (\<lambda>t2. (t2, None)) (sendToPools (te_now E) q (te_order E (map snd (tu_poolMap t1))) t1))
      })"

section \<open>Status and stopping\<close>

definition tunnelPools :: "tunnel \<Rightarrow> nat list" where
  "tunnelPools t = (case tu_mode t of ListenMode \<Rightarrow> map snd (tu_table t) | ForwardMode \<Rightarrow> map snd (tu_poolMap t))"

definition tunnelQueueDelay :: "gotime \<Rightarrow> tunnel \<Rightarrow> duration" where
  "tunnelQueueDelay now t =
     fold (\<lambda>k d. if d < poolQueueDelay now (tu_conns t) (poolAt t k) then poolQueueDelay now (tu_conns t) (poolAt t k) else d)
       (tunnelPools t) 0"

definition listenAvailable :: "bool \<Rightarrow> tunnel \<Rightarrow> bool" where
  "listenAvailable opened t \<longleftrightarrow> opened \<and> list_ex (\<lambda>(key, k). pl_conns (poolAt t k) \<noteq> []) (tu_table t)"

definition forwardAvailable :: "tunnel \<Rightarrow> bool" where
  "forwardAvailable t \<longleftrightarrow> list_ex (\<lambda>(pid, k). list_ex (\<lambda>i. tn_sock (tnAt t i)) (pl_conns (poolAt t k))) (tu_poolMap t)"

fun closeAll :: "gotime \<Rightarrow> nat list \<Rightarrow> tunnel \<Rightarrow> tunnel option" where
  "closeAll now [] t = Some t"
| "closeAll now (i # is) t = do { t1 \<leftarrow> closeConn now i t; closeAll now is t1 }"

definition stopTunnelForward :: "gotime \<Rightarrow> tunnel \<Rightarrow> tunnel option" where
  "stopTunnelForward now t =
     closeAll now (concat (map (\<lambda>(pid, k). pl_conns (poolAt t k)) (tu_poolMap t))) (t\<lparr>tu_stopped := True\<rparr>)"

section \<open>What the operations leave alone\<close>

text \<open>The ids and the state of a connection, and all that the tables of a component are about.\<close>

definition tnView :: "tunnel_conn \<Rightarrow> (conn_id \<times> conn_id) \<times> bool \<times> bool" where
  "tnView c = ((tn_forwardID c, tn_poolID c), tn_authed c, tn_closed c)"

definition core :: "tunnel \<Rightarrow> ((conn_id \<times> conn_id) \<times> bool \<times> bool) list \<times> nat list list \<times> _" where
  "core t = (map tnView (tu_conns t), map pl_conns (tu_pools t), tu_table t, tu_poolMap t, tu_index t)"

lemma tnView_simps [simp]:
  "tnView (c\<lparr>tn_queue := q\<rparr>) = tnView c" "tnView (c\<lparr>tn_hb := h\<rparr>) = tnView c"
  "tnView (c\<lparr>tn_authed := b\<rparr>) = (fst (tnView c), b, tn_closed c)"
  "tnView (c\<lparr>tn_closed := b\<rparr>) = (fst (tnView c), tn_authed c, b)"
  by (simp_all add: tnView_def)

lemma map_view_same: "f y = f (xs ! i) \<Longrightarrow> map f (xs[i := y]) = map f xs"
  by (cases "i < length xs") (auto simp: map_update list_update_same_conv list_update_beyond)

lemma core_setTn: "tnView c = tnView (tnAt t i) \<Longrightarrow> core (setTn i c t) = core t"
  by (simp add: core_def setTn_def tnAt_def map_view_same)

lemma core_setPool: "pl_conns p = pl_conns (poolAt t k) \<Longrightarrow> core (setPool k p t) = core t"
  by (simp add: core_def setPool_def poolAt_def map_view_same)

lemma core_fields [simp]:
  "core (t\<lparr>tu_auth := a\<rparr>) = core t" "core (t\<lparr>tu_stats := st\<rparr>) = core t" "core (t\<lparr>tu_qstats := qs\<rparr>) = core t"
  "core (t\<lparr>tu_gen := g\<rparr>) = core t" "core (t\<lparr>tu_stopped := b\<rparr>) = core t"
  by (simp_all add: core_def)

lemma tnAt_fields [simp]:
  "tnAt (t\<lparr>tu_auth := a\<rparr>) i = tnAt t i" "tnAt (t\<lparr>tu_stats := st\<rparr>) i = tnAt t i" "tnAt (t\<lparr>tu_qstats := qs\<rparr>) i = tnAt t i"
  "tnAt (setPool k p t) i = tnAt t i"
  by (simp_all add: tnAt_def setPool_def)

lemma enqueue_view: "tunnelEnqueue p control now qst c = Some ((c', qst'), ok) \<Longrightarrow> tnView c' = tnView c"
  by (auto simp: tunnelEnqueue_def option_bind_eq_Some split: if_splits)

lemma core_write: "tunnelWrite control now i p t = Some (t', ok) \<Longrightarrow> core t' = core t"
  by (auto simp: tunnelWrite_def option_bind_eq_Some core_setTn enqueue_view)

lemma core_lost: "tnLost now i t = (t', n) \<Longrightarrow> core t' = core t"
  by (auto simp: tnLost_def Let_def core_setTn split: prod.splits)

lemma core_sent: "core (tnSent now i t) = core t"
  by (auto simp: tnSent_def Let_def core_setTn split: prod.splits)

lemma core_control: "tunnelControl E f control i t = Some (t', ok) \<Longrightarrow> core t' = core t"
  by (auto simp: tunnelControl_def option_bind_eq_Some core_write)

lemma pickConn_conns: "pickConn cs n prio b p = (r, p') \<Longrightarrow> pl_conns p' = pl_conns p"
  by (auto simp: pickConn_def Let_def split: if_splits option.splits)

lemma nextConnLoop_conns: "pl_conns (snd (nextConnLoop cs n p)) = pl_conns p"
  by (induction n arbitrary: p) (simp_all add: Let_def)

lemma core_pick: "pickFrom n k t = (r, t') \<Longrightarrow> core t' = core t"
  by (auto simp: pickFrom_def core_setPool dest: pickConn_conns split: prod.splits)

lemma core_sendToPool:
  assumes "sendToPool now p k t = Some (t', e)"
  shows "core t' = core t"
proof -
  obtain r t1 where r: "pickFrom (pk_length p) k t = (r, t1)" by (cases "pickFrom (pk_length p) k t")
  show ?thesis
    using assms core_pick [OF r] by (cases r) (auto simp: sendToPool_def r option_bind_eq_Some core_write)
qed

lemma core_sendToPools: "sendToPools now p ks t = Some t' \<Longrightarrow> core t' = core t"
proof (induction ks arbitrary: t)
  case (Cons k ks)
  then obtain t1 e where "sendToPool now p k t = Some (t1, e)" "sendToPools now p ks t1 = Some t'"
    by (auto simp: option_bind_eq_Some)
  then show ?case using Cons.IH core_sendToPool by metis
qed simp

lemma core_wrap: "tunnelWrap E p t = Some (t', r) \<Longrightarrow> core t' = core t"
  by (auto simp: tunnelWrap_def option_bind_eq_Some)

text \<open>Closing marks the connection.\<close>

lemma core_close:
  "closeConn now i t = Some t' \<Longrightarrow> core t' = core (setTn i ((tnAt t i)\<lparr>tn_closed := True\<rparr>) t)"
  by (auto simp: closeConn_def closeTunnelConn_def option_bind_eq_Some Let_def core_def setTn_def map_update tnView_def
      split: if_splits)

section \<open>Nothing panics\<close>

definition conns_ok :: "tunnel \<Rightarrow> bool" where
  "conns_ok t \<longleftrightarrow> (\<forall>c \<in> set (tu_conns t). tn_closed c \<or> open_queue (tn_queue c))"

lemma conns_ok_at: "conns_ok t \<Longrightarrow> i < length (tu_conns t) \<Longrightarrow> tn_closed (tnAt t i) \<or> open_queue (tn_queue (tnAt t i))"
  by (simp add: conns_ok_def tnAt_def)

lemma conns_ok_set: "conns_ok t \<Longrightarrow> tn_closed c \<or> open_queue (tn_queue c) \<Longrightarrow> conns_ok (setTn i c t)"
  unfolding conns_ok_def setTn_def using set_update_subset_insert [of "tu_conns t" i c] by fastforce

lemma conns_ok_fields [simp]:
  "conns_ok (t\<lparr>tu_auth := a\<rparr>) = conns_ok t" "conns_ok (t\<lparr>tu_stats := st\<rparr>) = conns_ok t"
  "conns_ok (t\<lparr>tu_qstats := qs\<rparr>) = conns_ok t" "conns_ok (setPool k p t) = conns_ok t"
  by (simp_all add: conns_ok_def setPool_def)

lemma write_ok:
  assumes t: "conns_ok t" and i: "i < length (tu_conns t)" and p: "control \<longrightarrow> \<not> pk_noDrop p"
  shows "\<exists>t' ok. tunnelWrite control now i p t = Some (t', ok) \<and> conns_ok t'"
proof (cases "\<not> tn_sock (tnAt t i) \<or> tn_closed (tnAt t i)")
  case True
  then show ?thesis using t conns_ok_set [OF _ conns_ok_at [OF t i]] by (auto simp: tunnelWrite_def tunnelEnqueue_def)
next
  case False
  then have "open_queue ((tn_queue (tnAt t i))\<lparr>tq_stats := tu_qstats t\<rparr>)" using conns_ok_at [OF t i] by simp
  then obtain q ok where q: "tqPush p control now ((tn_queue (tnAt t i))\<lparr>tq_stats := tu_qstats t\<rparr>) = Some (q, ok)" "open_queue q"
    using push_ok p by blast
  then show ?thesis using False t by (auto simp: tunnelWrite_def tunnelEnqueue_def intro!: conns_ok_set)
qed

lemma close_ok:
  assumes t: "conns_ok t" and i: "i < length (tu_conns t)"
  shows "\<exists>t'. closeConn now i t = Some t' \<and> conns_ok t'"
proof (cases "tn_closed (tnAt t i)")
  case True
  then show ?thesis using t conns_ok_set [OF t] by (simp add: closeConn_def closeTunnelConn_def)
next
  case False
  then have "open_queue ((tn_queue (tnAt t i))\<lparr>tq_stats := tu_qstats t\<rparr>)" using conns_ok_at [OF t i] by simp
  then show ?thesis using close_queue_ok False t
    by (fastforce simp: closeConn_def closeTunnelConn_def Let_def intro!: conns_ok_set)
qed

lemma disconnect_ok:
  assumes t: "conns_ok t" and i: "i < length (tu_conns t)"
  shows "\<exists>t'. disconnectListen now i t = Some t' \<and> conns_ok t'" "\<exists>t'. disconnectForward now i t = Some t' \<and> conns_ok t'"
proof -
  have c: "\<exists>t'. closeConn now i u = Some t' \<and> conns_ok t'" if "tu_conns u = tu_conns t" for u
    using close_ok [of u i now] that t i by (simp add: conns_ok_def)
  show "\<exists>t'. disconnectListen now i t = Some t' \<and> conns_ok t'"
    unfolding disconnectListen_def Let_def by (auto split: option.split intro!: c simp: forgetPool_def setPool_def)
  show "\<exists>t'. disconnectForward now i t = Some t' \<and> conns_ok t'"
    unfolding disconnectForward_def Let_def by (auto split: option.split intro!: c simp: forgetPool_def setPool_def)
qed

text \<open>The environment hands out buffers of the pool, which have room for a control message.\<close>

definition env_ok :: "router_config \<Rightarrow> tunnel_env \<Rightarrow> bool" where
  "env_ok c E \<longleftrightarrow> pool_mem c (te_mem E) \<and> pool_mem c (te_mem2 E)
     \<and> (case te_rand E of None \<Rightarrow> True | Some ch \<Rightarrow> length ch = 32)"

definition config_ok :: "router_config \<Rightarrow> bool" where
  "config_ok c \<longleftrightarrow> 0 \<le> rc_bufferOffset c \<and> 96 \<le> rc_bufferSize c"

lemma getPacket_room:
  assumes "pool_mem c m" "config_ok c"
  shows "bufAtOffset (getPacket c m tag) = Some (full_slice (drop (nat (rc_bufferOffset c)) m))"
    "length (drop (nat (rc_bufferOffset c)) m) = nat (rc_bufferSize c)"
proof -
  have len: "length m = nat (rc_bufferSize c) + nat (rc_bufferOffset c)" "0 \<le> rc_bufferOffset c" "0 \<le> rc_bufferSize c"
    using assms by (auto simp: pool_mem_def poolSize_def config_ok_def)
  then show "length (drop (nat (rc_bufferOffset c)) m) = nat (rc_bufferSize c)" by simp
  show "bufAtOffset (getPacket c m tag) = Some (full_slice (drop (nat (rc_bufferOffset c)) m))"
    using len by (simp add: bufAtOffset_def getPacket_def getPacketWithBuffer_def sl_from_def sl_range_def full_slice_def sl_cap_def)
qed

lemma fill_control:
  assumes E: "env_ok c E" and c: "config_ok c" and f: "f = createHeartbeat \<or> f = createHeartbeatAck"
  shows "\<exists>p. fillPacket f (getPacket c (te_mem E) tag) = Some (p, 8) \<and> \<not> pk_noDrop p"
proof -
  have "pool_mem c (te_mem E)" using E by (simp add: env_ok_def)
  note r = getPacket_room [OF this c]
  have "96 \<le> rc_bufferSize c" using c by (simp add: config_ok_def)
  then have "8 \<le> sl_len (full_slice (drop (nat (rc_bufferOffset c)) (te_mem E)))"
    using r(2) by (simp add: full_slice_def)
  then show ?thesis
    using f r(1) by (auto simp: fillPacket_def createHeartbeat_def createHeartbeatAck_def writeHeader_def HeaderSize_def
        full_slice_def getPacket_def getPacketWithBuffer_def sl_cap_def)
qed

lemma control_ok:
  assumes t: "conns_ok t" and i: "i < length (tu_conns t)" and E: "env_ok (tu_config t) E" "config_ok (tu_config t)"
    and f: "f = createHeartbeat \<or> f = createHeartbeatAck"
  shows "\<exists>t' ok. tunnelControl E f True i t = Some (t', ok) \<and> conns_ok t'"
proof -
  obtain p where p: "fillPacket f (getPacket (tu_config t) (te_mem E) (tu_tag t)) = Some (p, 8)" "\<not> pk_noDrop p"
    using fill_control [OF E f] by blast
  then show ?thesis using write_ok [OF t i, of True "p\<lparr>pk_length := 8\<rparr>" "te_now E"] by (simp add: tunnelControl_def)
qed

lemma challenge_ok:
  assumes E: "env_ok (tu_config t) E" "config_ok (tu_config t)" and h: "hmac_laws (te_crypto E)"
  shows "\<exists>am res. challengePacket E ty f p t = Some (am, res) \<and> (te_rand E \<noteq> None \<longrightarrow> (\<exists>q. res = Inr q \<and> pk_length q = 96 \<and> \<not> pk_noDrop q))"
proof -
  define b where "b = full_slice (drop (nat (rc_bufferOffset (tu_config t))) (te_mem E))"
  have "pool_mem (tu_config t) (te_mem E)" using E by (simp add: env_ok_def)
  note r = getPacket_room [OF this E(2)]
  have "96 \<le> rc_bufferSize (tu_config t)" using E(2) by (simp add: config_ok_def)
  then have b: "bufAtOffset (getPacket (tu_config t) (te_mem E) (tu_tag t)) = Some b" "sl_wf b" "96 \<le> sl_len b"
    using r unfolding b_def by (simp_all add: sl_wf_def full_slice_def sl_cap_def)
  show ?thesis
  proof (cases "te_rand E")
    case None
    then show ?thesis using b by (simp add: challengePacket_def createAuthChallenge_def)
  next
    case (Some ch)
    then have "length ch = 32" using E(1) by (simp add: env_ok_def)
    then show ?thesis
      using b Some createAuthChallenge_bytes [of b ch "te_crypto E" "te_now E" ty f p "tu_auth t"] h
      by (simp add: challengePacket_def getPacket_def getPacketWithBuffer_def)
  qed
qed

section \<open>The listener's tables\<close>

text \<open>
  The pools hold exactly the connections that are authenticated and open, each in the pool of its ids; no pool
  of the table is empty, no two entries share one, and the index names only pools of the table.
\<close>

type_synonym conn_view = "(conn_id \<times> conn_id) \<times> bool \<times> bool"

definition entry_ok :: "conn_view list \<Rightarrow> nat list list \<Rightarrow> conn_id \<times> conn_id \<Rightarrow> nat \<Rightarrow> bool" where
  "entry_ok vs ps key k \<longleftrightarrow> k < length ps \<and> ps ! k \<noteq> [] \<and> distinct (ps ! k)
     \<and> (\<forall>i \<in> set (ps ! k). i < length vs \<and> vs ! i = (key, True, False))"

definition pooled :: "conn_view list \<Rightarrow> nat list list \<Rightarrow> ((conn_id \<times> conn_id) \<times> nat) list \<Rightarrow> nat \<Rightarrow> bool" where
  "pooled vs ps tab i \<longleftrightarrow> (\<forall>key. vs ! i = (key, True, False) \<longrightarrow> (\<exists>k. (key, k) \<in> set tab \<and> i \<in> set (ps ! k)))"

lemma pooledD: "pooled vs ps tab i \<Longrightarrow> vs ! i = (key, True, False) \<Longrightarrow> \<exists>k. (key, k) \<in> set tab \<and> i \<in> set (ps ! k)"
  unfolding pooled_def by blast

fun tables_fit :: "conn_view list \<times> nat list list \<times> ((conn_id \<times> conn_id) \<times> nat) list
    \<times> (conn_id \<times> nat) list \<times> (conn_id \<times> nat) list \<Rightarrow> bool" where
  "tables_fit (vs, ps, tab, pm, idx) \<longleftrightarrow> distinct (map fst tab) \<and> distinct (map snd tab)
     \<and> (\<forall>key k. (key, k) \<in> set tab \<longrightarrow> entry_ok vs ps key k)
     \<and> (\<forall>i < length vs. pooled vs ps tab i)
     \<and> snd ` set idx \<subseteq> snd ` set tab"

declare tables_fit.simps [simp del]

lemma fitI:
  assumes "distinct (map fst tab)" "distinct (map snd tab)" "\<And>key k. (key, k) \<in> set tab \<Longrightarrow> entry_ok vs ps key k"
    "\<And>i. i < length vs \<Longrightarrow> pooled vs ps tab i" "snd ` set idx \<subseteq> snd ` set tab"
  shows "tables_fit (vs, ps, tab, pm, idx)"
  using assms by (auto simp: tables_fit.simps)

lemma fitD:
  assumes "tables_fit (vs, ps, tab, pm, idx)"
  shows "distinct (map fst tab)" "distinct (map snd tab)" "(key, k) \<in> set tab \<Longrightarrow> entry_ok vs ps key k"
    "i < length vs \<Longrightarrow> pooled vs ps tab i" "snd ` set idx \<subseteq> snd ` set tab"
  using assms unfolding tables_fit.simps by blast+

definition listen_tables :: "tunnel \<Rightarrow> bool" where
  "listen_tables t \<longleftrightarrow> tables_fit (core t)"

lemma listen_tables_core: "core t' = core t \<Longrightarrow> listen_tables t \<Longrightarrow> listen_tables t'"
  by (simp add: listen_tables_def)

lemma tab_same_key: "distinct (map fst tab) \<Longrightarrow> (key, k) \<in> set tab \<Longrightarrow> (key, k') \<in> set tab \<Longrightarrow> k = k'"
  by (meson eq_key_imp_eq_value)

lemma tab_same_val: "distinct (map snd tab) \<Longrightarrow> (key, k) \<in> set tab \<Longrightarrow> (key', k) \<in> set tab \<Longrightarrow> key = key'"
  by (induction tab) force+

lemma nth_update_if: "xs[i := v] ! j = (if i = j \<and> j < length xs then v else xs ! j)"
  by (cases "i < length xs") (auto simp: list_update_beyond)

lemma delete_entry:
  assumes "distinct (map fst tab)" "distinct (map snd tab)" "(key, k) \<in> set tab"
  shows "(key', k') \<in> set (AList.delete key tab) \<longleftrightarrow> (key', k') \<in> set tab \<and> k' \<noteq> k"
proof -
  have "(key', k') \<in> set (AList.delete key tab) \<longleftrightarrow> (key', k') \<in> set tab \<and> key' \<noteq> key"
    by (auto simp: AList.delete_eq)
  then show ?thesis using tab_same_key [OF assms(1,3)] tab_same_val [OF assms(2,3)] by blast
qed

lemma fit_entry:
  assumes "tables_fit (vs, ps, tab, pm, idx)" "(key, k) \<in> set tab"
  shows "k < length ps" "ps ! k \<noteq> []" "distinct (ps ! k)" "i \<in> set (ps ! k) \<Longrightarrow> i < length vs \<and> vs ! i = (key, True, False)"
  using fitD(3) [OF assms] by (auto simp: entry_ok_def)

text \<open>Only the connection \<open>i\<close> changes, to one that is not open, and no pool has it.\<close>

lemma fit_close:
  assumes f: "tables_fit (vs, ps, tab, pm, idx)" and i: "\<And>key k. (key, k) \<in> set tab \<Longrightarrow> i \<notin> set (ps ! k)"
    and v: "snd v \<noteq> (True, False)"
  shows "tables_fit (vs[i := v], ps, tab, pm, idx)"
proof (rule fitI)
  show "entry_ok (vs[i := v]) ps key k" if t: "(key, k) \<in> set tab" for key k
    using fit_entry [OF f t] i [OF t] by (auto simp: entry_ok_def nth_update_if)
  show "pooled (vs[i := v]) ps tab j" if "j < length (vs[i := v])" for j
    using fitD(4) [OF f, of j] that v by (auto simp: pooled_def nth_update_if)
qed (use fitD [OF f] in auto)

lemma fit_others:
  assumes f: "tables_fit (vs, ps, tab, pm, idx)" and i: "fst (vs ! i) = key" "map_of tab key = Some k"
    and t: "(key', k') \<in> set tab" "k' \<noteq> k"
  shows "i \<notin> set (ps ! k')"
proof
  assume "i \<in> set (ps ! k')"
  then have "key' = key" using fit_entry(4) [OF f t(1)] i(1) by auto
  then show False using tab_same_key [OF fitD(1) [OF f]] t map_of_SomeD [OF i(2)] by blast
qed

lemma fit_remove:
  assumes f: "tables_fit (vs, ps, tab, pm, idx)" and i: "fst (vs ! i) = key"
    and k: "map_of tab key = Some k" "remove1 i (ps ! k) \<noteq> []" and v: "snd v \<noteq> (True, False)"
  shows "tables_fit (vs[i := v], ps[k := remove1 i (ps ! k)], tab, pm, idx)"
proof (rule fitI)
  have kt: "(key, k) \<in> set tab" using map_of_SomeD [OF k(1)] .
  note e = fit_entry [OF f kt]
  show "entry_ok (vs[i := v]) (ps[k := remove1 i (ps ! k)]) key' k'" if t: "(key', k') \<in> set tab" for key' k'
  proof (cases "k' = k")
    case True
    then have "key' = key" using tab_same_val [OF fitD(2) [OF f] t] kt by blast
    then show ?thesis using True e k(2) by (auto simp: entry_ok_def nth_update_if)
  next
    case False
    then show ?thesis using fit_entry [OF f t] fit_others [OF f i k(1) t] by (auto simp: entry_ok_def nth_update_if)
  qed
  show "pooled (vs[i := v]) (ps[k := remove1 i (ps ! k)]) tab j" if j: "j < length (vs[i := v])" for j
    unfolding pooled_def
  proof (intro allI impI)
    fix key' assume a: "vs[i := v] ! j = (key', True, False)"
    then have ji: "j \<noteq> i" using v j by auto
    then obtain k' where k': "(key', k') \<in> set tab" "j \<in> set (ps ! k')" using pooledD [OF fitD(4) [OF f, of j], of key'] a j by auto
    then show "\<exists>k'. (key', k') \<in> set tab \<and> j \<in> set (ps[k := remove1 i (ps ! k)] ! k')"
      using ji e(1) by (intro exI [of _ k']) (auto simp: nth_update_if in_set_remove1)
  qed
qed (use fitD [OF f] in auto)

lemma fit_forget:
  assumes f: "tables_fit (vs, ps, tab, pm, idx)" and i: "fst (vs ! i) = key"
    and k: "map_of tab key = Some k" "remove1 i (ps ! k) = []" and v: "snd v \<noteq> (True, False)"
  shows "tables_fit (vs[i := v], ps[k := remove1 i (ps ! k)], AList.delete key tab, pm, filter (\<lambda>(c, j). j \<noteq> k) idx)"
proof (rule fitI)
  have kt: "(key, k) \<in> set tab" using map_of_SomeD [OF k(1)] .
  note e = fit_entry [OF f kt]
  have only: "ps ! k = [i]" using e(2) k(2) by (cases "ps ! k") (auto split: if_splits)
  have t': "(key', k') \<in> set (AList.delete key tab) \<longleftrightarrow> (key', k') \<in> set tab \<and> k' \<noteq> k" for key' k'
    by (rule delete_entry [OF fitD(1,2) [OF f] kt])
  show "distinct (map fst (AList.delete key tab))" using fitD(1) [OF f] by (rule distinct_delete)
  show "distinct (map snd (AList.delete key tab))"
    using fitD(2) [OF f] by (simp add: AList.delete_eq distinct_map_filter)
  show "entry_ok (vs[i := v]) (ps[k := remove1 i (ps ! k)]) key' k'" if t: "(key', k') \<in> set (AList.delete key tab)" for key' k'
    using fit_entry [OF f, of key' k'] fit_others [OF f i k(1), of key' k'] t
    by (auto simp: t' entry_ok_def nth_update_if)
  show "pooled (vs[i := v]) (ps[k := remove1 i (ps ! k)]) (AList.delete key tab) j" if j: "j < length (vs[i := v])" for j
    unfolding pooled_def
  proof (intro allI impI)
    fix key' assume a: "vs[i := v] ! j = (key', True, False)"
    then have ji: "j \<noteq> i" using v j by auto
    then obtain k' where k': "(key', k') \<in> set tab" "j \<in> set (ps ! k')" using pooledD [OF fitD(4) [OF f, of j], of key'] a j by auto
    then have "k' \<noteq> k" using only ji by auto
    then show "\<exists>k'. (key', k') \<in> set (AList.delete key tab) \<and> j \<in> set (ps[k := remove1 i (ps ! k)] ! k')"
      using k' t' by (intro exI [of _ k']) auto
  qed
  show "snd ` set (filter (\<lambda>(c, j). j \<noteq> k) idx) \<subseteq> snd ` set (AList.delete key tab)"
  proof
    fix m assume "m \<in> snd ` set (filter (\<lambda>(c, j). j \<noteq> k) idx)"
    then have "m \<in> snd ` set idx" "m \<noteq> k" by auto
    then obtain key' where "(key', m) \<in> set tab" using fitD(5) [OF f] by force
    then have "(key', m) \<in> set (AList.delete key tab)" using t' \<open>m \<noteq> k\<close> by simp
    then show "m \<in> snd ` set (AList.delete key tab)" by force
  qed
qed

lemma fit_fresh:
  assumes f: "tables_fit (vs, ps, tab, pm, idx)" and t: "(key, k) \<in> set tab" and i: "vs ! i \<noteq> (key, True, False)"
  shows "i \<notin> set (ps ! k)"
  using fit_entry(4) [OF f t] i by blast

lemma fit_join:
  assumes f: "tables_fit (vs, ps, tab, pm, idx)" and i: "i < length vs" "vs ! i = (key, False, False)"
    and k: "map_of tab key = Some k"
  shows "tables_fit (vs[i := (key, True, False)], ps[k := ps ! k @ [i]], tab, pm, idx)"
proof (rule fitI)
  have kt: "(key, k) \<in> set tab" using map_of_SomeD [OF k] .
  note e = fit_entry [OF f kt]
  have new: "i \<notin> set (ps ! k')" if "(key', k') \<in> set tab" for key' k' using fit_fresh [OF f that] i(2) by simp
  show "entry_ok (vs[i := (key, True, False)]) (ps[k := ps ! k @ [i]]) key' k'" if t: "(key', k') \<in> set tab" for key' k'
  proof (cases "k' = k")
    case True
    then have "key' = key" using tab_same_val [OF fitD(2) [OF f] t] kt by blast
    then show ?thesis using True e new [OF kt] i(1) by (auto simp: entry_ok_def nth_update_if)
  next
    case False
    then show ?thesis using fit_entry [OF f t] new [OF t] by (auto simp: entry_ok_def nth_update_if)
  qed
  show "pooled (vs[i := (key, True, False)]) (ps[k := ps ! k @ [i]]) tab j" if "j < length (vs[i := (key, True, False)])" for j
  proof (cases "j = i")
    case True
    then show ?thesis using kt e(1) i(1) by (auto simp: pooled_def nth_update_if)
  next
    case False
    then have "pooled vs ps tab j" using fitD(4) [OF f, of j] that by simp
    then show ?thesis using False e(1) unfolding pooled_def nth_update_if by fastforce
  qed
qed (use fitD [OF f] in auto)

lemma fit_new:
  assumes f: "tables_fit (vs, ps, tab, pm, idx)" and i: "i < length vs" "vs ! i = (key, False, False)"
    and k: "map_of tab key = None"
  shows "tables_fit (vs[i := (key, True, False)], ps @ [[i]], AList.update key (length ps) tab, pm, idx)"
proof (rule fitI)
  have notin: "key \<notin> fst ` set tab" using k by (simp add: map_of_eq_None_iff)
  then have tab: "AList.update key (length ps) tab = tab @ [(key, length ps)]"
    by (induction tab) auto
  have old: "k' < length ps" if "(key', k') \<in> set tab" for key' k' using fit_entry(1) [OF f that] .
  have new: "i \<notin> set (ps ! k')" if "(key', k') \<in> set tab" for key' k' using fit_fresh [OF f that] i(2) by simp
  show "distinct (map fst (AList.update key (length ps) tab))" using fitD(1) [OF f] notin by (simp add: tab)
  show "distinct (map snd (AList.update key (length ps) tab))" using fitD(2) [OF f] old by (force simp: tab)
  show "entry_ok (vs[i := (key, True, False)]) (ps @ [[i]]) key' k'" if "(key', k') \<in> set (AList.update key (length ps) tab)" for key' k'
  proof (cases "(key', k') \<in> set tab")
    case True
    then show ?thesis using fit_entry [OF f True] new [OF True] by (auto simp: entry_ok_def nth_update_if nth_append)
  next
    case False
    then show ?thesis using that i(1) by (auto simp: tab entry_ok_def)
  qed
  show "pooled (vs[i := (key, True, False)]) (ps @ [[i]]) (AList.update key (length ps) tab) j"
    if j: "j < length (vs[i := (key, True, False)])" for j
  proof (cases "j = i")
    case True
    then show ?thesis using i(1) by (auto simp: pooled_def tab)
  next
    case False
    show ?thesis
      unfolding pooled_def
    proof (intro allI impI)
      fix key' assume "vs[i := (key, True, False)] ! j = (key', True, False)"
      then obtain k' where k': "(key', k') \<in> set tab" "j \<in> set (ps ! k')"
        using pooledD [OF fitD(4) [OF f, of j], of key'] False j by auto
      then show "\<exists>k'. (key', k') \<in> set (AList.update key (length ps) tab) \<and> j \<in> set ((ps @ [[i]]) ! k')"
        using old [OF k'(1)] by (intro exI [of _ k']) (simp add: tab nth_append)
    qed
  qed
  show "snd ` set idx \<subseteq> snd ` set (AList.update key (length ps) tab)" using fitD(5) [OF f] by (auto simp: tab)
qed

lemma fit_accept:
  assumes f: "tables_fit (vs, ps, tab, pm, idx)" and v: "snd v \<noteq> (True, False)"
  shows "tables_fit (vs @ [v], ps, tab, pm, idx)"
proof (rule fitI)
  show "entry_ok (vs @ [v]) ps key k" if t: "(key, k) \<in> set tab" for key k
    using fit_entry [OF f t] by (auto simp: entry_ok_def nth_append less_SucI)
  show "pooled (vs @ [v]) ps tab j" if "j < length (vs @ [v])" for j
    using fitD(4) [OF f, of j] that v by (cases "j < length vs") (auto simp: pooled_def nth_append less_Suc_eq)
qed (use fitD [OF f] in auto)

lemma set_update: "set (AList.update k v xs) \<subseteq> insert (k, v) (set xs)"
  by (induction xs) auto

lemma fit_index:
  assumes f: "tables_fit (vs, ps, tab, pm, idx)" and k: "k \<in> snd ` set tab"
  shows "tables_fit (vs, ps, tab, pm, AList.update c k idx)"
proof (rule fitI)
  have "snd ` set (AList.update c k idx) \<subseteq> insert k (snd ` set idx)" using image_mono [OF set_update [of c k idx], of snd] by simp
  moreover have "insert k (snd ` set idx) \<subseteq> snd ` set tab" using fitD(5) [OF f] k by simp
  ultimately show "snd ` set (AList.update c k idx) \<subseteq> snd ` set tab" by (rule order.trans)
qed (use fitD [OF f] in auto)

lemma fit_index_delete:
  assumes f: "tables_fit (vs, ps, tab, pm, idx)"
  shows "tables_fit (vs, ps, tab, pm, AList.delete c idx)"
proof (rule fitI)
  show "snd ` set (AList.delete c idx) \<subseteq> snd ` set tab"
    using fitD(5) [OF f] by (auto simp: AList.delete_eq)
qed (use fitD [OF f] in auto)

subsection \<open>Every operation of the listener keeps them\<close>

lemma core_close_fit:
  assumes "closeConn now i t = Some t'"
    "tables_fit ((map tnView (tu_conns t))[i := (fst (tnView (tnAt t i)), tn_authed (tnAt t i), True)],
      map pl_conns (tu_pools t), tu_table t, tu_poolMap t, tu_index t)"
  shows "listen_tables t'"
  using assms(2) core_close [OF assms(1)]
  by (simp add: listen_tables_def core_def setTn_def map_update)

lemma listen_disconnect:
  assumes t: "listen_tables t" and i: "i < length (tu_conns t)" and r: "disconnectListen now i t = Some t'"
  shows "listen_tables t'"
proof -
  let ?vs = "map tnView (tu_conns t)" and ?ps = "map pl_conns (tu_pools t)"
  let ?key = "(tn_forwardID (tnAt t i), tn_poolID (tnAt t i))"
  let ?v = "(?key, tn_authed (tnAt t i), True)"
  have f: "tables_fit (?vs, ?ps, tu_table t, tu_poolMap t, tu_index t)" using t by (simp add: listen_tables_def core_def)
  have vi: "?vs ! i = (?key, tn_authed (tnAt t i), tn_closed (tnAt t i))" using i by (simp add: tnAt_def tnView_def)
  have v: "fst (tnView (tnAt t i)) = ?key" by (simp add: tnView_def)
  show ?thesis
  proof (cases "map_of (tu_table t) ?key")
    case None
    have "i \<notin> set (?ps ! k)" if "(key, k) \<in> set (tu_table t)" for key k
    proof
      assume "i \<in> set (?ps ! k)"
      then have "key = ?key" using fit_entry(4) [OF f that, of i] vi by (simp del: nth_map)
      then show False using None that by (auto simp: map_of_eq_None_iff intro: rev_image_eqI)
    qed
    from fit_close [OF f this, where v = ?v] have "tables_fit (?vs[i := ?v], ?ps, tu_table t, tu_poolMap t, tu_index t)" by simp
    then show ?thesis using core_close_fit [of now i t t'] r None v by (simp add: disconnectListen_def Let_def)
  next
    case (Some k)
    have k: "k < length (tu_pools t)" using fit_entry(1) [OF f map_of_SomeD [OF Some]] by simp
    define t1 where "t1 = setPool k (removeConnection i (poolAt t k)) t"
    have c: "pl_conns (removeConnection i (poolAt t k)) = remove1 i (?ps ! k)"
      using k by (simp add: removeConnection_def seq_remove poolAt_def)
    have t1: "tu_conns t1 = tu_conns t" "map pl_conns (tu_pools t1) = ?ps[k := remove1 i (?ps ! k)]" "tnAt t1 i = tnAt t i"
      "tu_table t1 = tu_table t" "tu_poolMap t1 = tu_poolMap t" "tu_index t1 = tu_index t"
      using c by (simp_all add: t1_def setPool_def map_update tnAt_def)
    have fst: "fst (?vs ! i) = ?key" by (simp add: vi)
    show ?thesis
    proof (cases "remove1 i (?ps ! k) = []")
      case True
      let ?t2 = "forgetPool k (t1\<lparr>tu_table := AList.delete ?key (tu_table t1)\<rparr>)"
      have "closeConn now i ?t2 = Some t'"
        using r Some True c by (simp add: disconnectListen_def Let_def t1_def)
      moreover have "tnAt ?t2 i = tnAt t i" using t1(3) by (simp add: forgetPool_def tnAt_def)
      moreover have "tables_fit (?vs[i := ?v], ?ps[k := remove1 i (?ps ! k)], AList.delete ?key (tu_table t), tu_poolMap t,
          filter (\<lambda>(c, j). j \<noteq> k) (tu_index t))"
        using fit_forget [OF f fst Some True, where v = ?v] by simp
      ultimately show ?thesis by (intro core_close_fit [of now i ?t2 t']) (simp_all add: forgetPool_def t1 v)
    next
      case False
      have "closeConn now i t1 = Some t'" using r Some False c by (simp add: disconnectListen_def Let_def t1_def)
      moreover have "tables_fit (?vs[i := ?v], ?ps[k := remove1 i (?ps ! k)], tu_table t, tu_poolMap t, tu_index t)"
        using fit_remove [OF f fst Some False, where v = ?v] by simp
      ultimately show ?thesis by (intro core_close_fit [of now i t1 t']) (simp_all add: t1 v)
    qed
  qed
qed

lemma core_addToPool:
  assumes f: "listen_tables t" and i: "i < length (tu_conns t)" and v: "\<not> tn_authed (tnAt t i)" "\<not> tn_closed (tnAt t i)"
  shows "listen_tables (setTn i ((tnAt (addToPool i t) i)\<lparr>tn_authed := True\<rparr>) (addToPool i t))"
proof -
  let ?vs = "map tnView (tu_conns t)" and ?ps = "map pl_conns (tu_pools t)"
  let ?key = "(tn_forwardID (tnAt t i), tn_poolID (tnAt t i))"
  have f: "tables_fit (?vs, ?ps, tu_table t, tu_poolMap t, tu_index t)" using f by (simp add: listen_tables_def core_def)
  have vi: "?vs ! i = (?key, False, False)" using i v by (simp add: tnAt_def tnView_def)
  have same: "tnAt (addToPool i t) i = tnAt t i" by (simp add: addToPool_def Let_def setPool_def tnAt_def)
  show ?thesis
  proof (cases "map_of (tu_table t) ?key")
    case None
    then have "addToPool i t = t\<lparr>tu_pools := (tu_pools t @ [newPool (snd ?key) 0])[length (tu_pools t) := addConnection i (newPool (snd ?key) 0)],
        tu_table := AList.update ?key (length (tu_pools t)) (tu_table t)\<rparr>"
      by (simp add: addToPool_def Let_def update_conv' setPool_def poolAt_def)
    then have "core (setTn i ((tnAt (addToPool i t) i)\<lparr>tn_authed := True\<rparr>) (addToPool i t)) =
        (?vs[i := (?key, True, False)], ?ps @ [[i]], AList.update ?key (length ?ps) (tu_table t), tu_poolMap t, tu_index t)"
      unfolding same using v by (simp add: core_def setTn_def map_update tnView_def addConnection_def newPool_def seq_add)
    then show ?thesis using fit_new [OF f _ vi None] i by (simp add: listen_tables_def)
  next
    case (Some k)
    have k: "k < length (tu_pools t)" using fit_entry(1) [OF f map_of_SomeD [OF Some]] by simp
    have "addToPool i t = setPool k (addConnection i (poolAt t k)) t" using Some by (simp add: addToPool_def Let_def)
    then have "core (setTn i ((tnAt (addToPool i t) i)\<lparr>tn_authed := True\<rparr>) (addToPool i t)) =
        (?vs[i := (?key, True, False)], ?ps[k := ?ps ! k @ [i]], tu_table t, tu_poolMap t, tu_index t)"
      unfolding same using v k
      by (simp add: core_def setTn_def setPool_def map_update tnView_def addConnection_def poolAt_def seq_add)
    then show ?thesis using fit_join [OF f _ vi Some] i by (simp add: listen_tables_def)
  qed
qed

lemma core_view:
  assumes "core t' = core t"
  shows "length (tu_conns t') = length (tu_conns t)" "i < length (tu_conns t) \<Longrightarrow> tnView (tnAt t' i) = tnView (tnAt t i)"
proof -
  have m: "map tnView (tu_conns t') = map tnView (tu_conns t)" using assms by (simp add: core_def)
  show "length (tu_conns t') = length (tu_conns t)" using map_eq_imp_length_eq [OF m] .
  then show "tnView (tnAt t' i) = tnView (tnAt t i)" if "i < length (tu_conns t)"
    using that m unfolding tnAt_def by (metis nth_map)
qed

lemma closed_refuses: "tn_closed (tnAt t i) \<Longrightarrow> tunnelWrite control now i p t = Some (t', ok) \<Longrightarrow> \<not> ok"
  by (auto simp: tunnelWrite_def tunnelEnqueue_def)

lemma listen_authenticated:
  assumes t: "listen_tables t" and i: "i < length (tu_conns t)" "\<not> tn_authed (tnAt t i)"
    and r: "authenticatedListen E i t = Some (t', ok)"
  shows "listen_tables t'"
proof -
  obtain am res where c: "challengePacket E MsgTypeAuthResponse (tn_forwardID (tnAt t i)) (tn_poolID (tnAt t i)) t = Some (am, res)"
    using r by (auto simp: authenticatedListen_def option_bind_eq_Some)
  let ?t1 = "t\<lparr>tu_auth := am\<rparr>"
  have t1: "listen_tables ?t1" by (rule listen_tables_core [OF _ t]) simp
  show ?thesis
  proof (cases res)
    case (Inl e)
    then show ?thesis using r c t1 by (auto simp: authenticatedListen_def)
  next
    case (Inr p)
    then obtain t2 w where w: "tunnelWrite False (te_now E) i p ?t1 = Some (t2, w)"
      and rest': "(if \<not> w then map_option (\<lambda>t3. (t3, False)) (disconnectListen (te_now E) i t2)
          else Some (setTn i ((tnAt (addToPool i t2) i)\<lparr>tn_authed := True\<rparr>) (addToPool i t2), True)) = Some (t', ok)"
      using r c unfolding authenticatedListen_def Let_def by (auto simp: option_bind_eq_Some)
    have c2: "core t2 = core t" using core_write [OF w] by simp
    have t2: "listen_tables t2" by (rule listen_tables_core [OF c2 t])
    have v: "length (tu_conns t2) = length (tu_conns t)" "tnView (tnAt t2 i) = tnView (tnAt t i)" using core_view [OF c2] i(1) by auto
    show ?thesis
    proof (cases w)
      case False
      then show ?thesis using rest' listen_disconnect [OF t2] i(1) v(1) by auto
    next
      case True
      then have "\<not> tn_closed (tnAt t i)" using closed_refuses [OF _ w] by auto
      then show ?thesis using rest' True core_addToPool [OF t2, of i] i v by (simp add: tnView_def)
    qed
  qed
qed

lemma listen_remember:
  assumes t: "listen_tables t"
  shows "listen_tables (rememberListen c i t)"
proof (cases "c = 0 \<or> map_of (tu_table t) (tn_forwardID (tnAt t i), tn_poolID (tnAt t i)) = None")
  case True
  then show ?thesis using t by (auto simp: rememberListen_def)
next
  case False
  then obtain k where k: "map_of (tu_table t) (tn_forwardID (tnAt t i), tn_poolID (tnAt t i)) = Some k" by auto
  then have "k \<in> snd ` set (tu_table t)" by (force dest: map_of_SomeD)
  then show ?thesis
    using fit_index [of "map tnView (tu_conns t)" "map pl_conns (tu_pools t)" "tu_table t" "tu_poolMap t" "tu_index t" k c] False t k
    by (simp add: listen_tables_def core_def rememberListen_def)
qed

lemma listen_getPool:
  assumes t: "listen_tables t" and r: "getPoolByID c t = (k, t')"
  shows "listen_tables t'"
  using assms fit_index_delete [of "map tnView (tu_conns t)" "map pl_conns (tu_pools t)" "tu_table t" "tu_poolMap t" "tu_index t" c]
  by (auto simp: getPoolByID_def listen_tables_def core_def split: if_splits option.splits)

lemma listen_handlePacket:
  assumes t: "listen_tables t" and r: "handlePacketListen E p t = Some (t', e)"
  shows "listen_tables t'"
proof -
  obtain t1 res where w: "tunnelWrap E p t = Some (t1, res)" using r by (auto simp: handlePacketListen_def option_bind_eq_Some)
  have t1: "listen_tables t1" by (rule listen_tables_core [OF core_wrap [OF w] t])
  show ?thesis
  proof (cases res)
    case (Inl e')
    then show ?thesis using r w t1 by (auto simp: handlePacketListen_def)
  next
    case (Inr q)
    obtain k t2 where g: "getPoolByID (pk_connID q) t1 = (k, t2)" by (cases "getPoolByID (pk_connID q) t1")
    note t2 = listen_getPool [OF t1 g]
    consider "sendToPools (te_now E) q (te_order E (map snd (tu_table t1))) t1 = Some t'" | "t' = t1" | "t' = t2"
      | m where "sendToPool (te_now E) q m t2 = Some (t', e)"
      using r w Inr g by (auto simp: handlePacketListen_def split: if_splits option.splits)
    then show ?thesis
    proof cases
      case 1
      show ?thesis by (rule listen_tables_core [OF core_sendToPools [OF 1] t1])
    next
      case (4 m)
      show ?thesis by (rule listen_tables_core [OF core_sendToPool [OF 4] t2])
    qed (use t1 t2 in auto)
  qed
qed

lemma listen_accept: "listen_tables t \<Longrightarrow> listen_tables (acceptConn E f p t)"
  using fit_accept [of "map tnView (tu_conns t)" "map pl_conns (tu_pools t)" "tu_table t" "tu_poolMap t" "tu_index t" "((f, p), False, False)"]
  by (simp add: listen_tables_def core_def acceptConn_def newTunnelConn_def tnView_def)

lemma listen_ids:
  assumes t: "listen_tables t" and i: "i < length (tu_conns t)" "\<not> tn_authed (tnAt t i)"
  shows "listen_tables (setTn i ((tnAt t i)\<lparr>tn_forwardID := f, tn_poolID := p\<rparr>) t)"
proof -
  let ?vs = "map tnView (tu_conns t)" and ?ps = "map pl_conns (tu_pools t)"
  have fit: "tables_fit (?vs, ?ps, tu_table t, tu_poolMap t, tu_index t)" using t by (simp add: listen_tables_def core_def)
  have "?vs ! i \<noteq> (key, True, False)" for key using i by (simp add: tnAt_def tnView_def)
  then have "i \<notin> set (?ps ! k)" if "(key, k) \<in> set (tu_table t)" for key k using fit_fresh [OF fit that] by simp
  from fit_close [OF fit this, where v = "((f, p), False, tn_closed (tnAt t i))"] show ?thesis
    using i by (simp add: listen_tables_def core_def setTn_def map_update tnView_def)
qed

section \<open>Two connections that authenticate at once\<close>

text \<open>
  The listener's table is an atomic pointer to an immutable map, but unlike the connection data it is written by a load, a
  changed copy and a plain store. A thread is between the two when it has a pending operation and the table it
  loaded; \<open>lw_log\<close> is a ghost, the operations that were stored.
\<close>

record ('s, 'o) load_store =
  lw_cell :: 's
  lw_pending :: "nat \<Rightarrow> ('o \<times> 's) option"
  lw_log :: "'o list"

inductive load_store_step :: "('o \<Rightarrow> 's \<Rightarrow> 's) \<Rightarrow> ('s, 'o) load_store \<Rightarrow> ('s, 'o) load_store \<Rightarrow> bool" for ap where
  load: "lw_pending x t = None \<Longrightarrow> load_store_step ap x (x\<lparr>lw_pending := (lw_pending x)(t := Some (op, lw_cell x))\<rparr>)"
| store: "lw_pending x t = Some (op, s) \<Longrightarrow>
    load_store_step ap x (x\<lparr>lw_cell := ap op s, lw_pending := (lw_pending x)(t := None), lw_log := lw_log x @ [op]\<rparr>)"

inductive load_store_reach :: "('o \<Rightarrow> 's \<Rightarrow> 's) \<Rightarrow> 's \<Rightarrow> ('s, 'o) load_store \<Rightarrow> bool" for ap s0 where
  start: "load_store_reach ap s0 \<lparr>lw_cell = s0, lw_pending = (\<lambda>_. None), lw_log = []\<rparr>"
| step: "load_store_reach ap s0 x \<Longrightarrow> load_store_step ap x y \<Longrightarrow> load_store_reach ap s0 y"

text \<open>What an authentication does to its copy of the table: the pool \<open>k\<close> is entered when its ids are new.\<close>

definition insertPool :: "(conn_id \<times> conn_id) \<times> nat \<Rightarrow> ((conn_id \<times> conn_id) \<times> nat) list \<Rightarrow> ((conn_id \<times> conn_id) \<times> nat) list" where
  "insertPool e tab = (if map_of tab (fst e) = None then AList.update (fst e) (snd e) tab else tab)"

lemma table_addToPool:
  "tu_table (addToPool i t) = insertPool ((tn_forwardID (tnAt t i), tn_poolID (tnAt t i)), length (tu_pools t)) (tu_table t)"
  by (simp add: addToPool_def insertPool_def Let_def setPool_def)

text \<open>C24. The listener of a TCP tunnel can lose a connection: when two connections of different peers authenticate at the
  same time, both are told that all is well, but the table holds only the pool of the second, so that nothing
  is ever sent to the first. The compare-and-swap loops of the connection data do not have this run.\<close>

theorem tunnel_lost_update:
  fixes tab :: "((conn_id \<times> conn_id) \<times> nat) list"
  assumes "map_of tab key1 = None" "map_of tab key2 = None" "key1 \<noteq> key2"
  shows "\<exists>x. load_store_reach insertPool tab x \<and> lw_pending x = (\<lambda>_. None) \<and> lw_log x = [(key1, k1), (key2, k2)]
    \<and> map_of (lw_cell x) key1 = None \<and> map_of (lw_cell x) key2 = Some k2"
proof -
  let ?a = "(key1, k1)" and ?b = "(key2, k2)"
  have r0: "load_store_reach insertPool tab \<lparr>lw_cell = tab, lw_pending = (\<lambda>_. None), lw_log = []\<rparr>"
    by (rule load_store_reach.start)
  have r1: "load_store_reach insertPool tab \<lparr>lw_cell = tab, lw_pending = (\<lambda>_. None)(0 := Some (?a, tab)), lw_log = []\<rparr>"
    using load_store_reach.step [OF r0 load_store_step.load [of _ 0 insertPool ?a]] by simp
  have r2: "load_store_reach insertPool tab \<lparr>lw_cell = tab,
      lw_pending = (\<lambda>_. None)(0 := Some (?a, tab), 1 := Some (?b, tab)), lw_log = []\<rparr>"
    using load_store_reach.step [OF r1 load_store_step.load [of _ 1 insertPool ?b]] by simp
  have r3: "load_store_reach insertPool tab \<lparr>lw_cell = insertPool ?a tab,
      lw_pending = (\<lambda>_. None)(1 := Some (?b, tab)), lw_log = [?a]\<rparr>"
    using load_store_reach.step [OF r2 load_store_step.store [of _ 0 ?a tab insertPool]] by (simp add: fun_upd_twist)
  have "load_store_reach insertPool tab \<lparr>lw_cell = insertPool ?b tab, lw_pending = (\<lambda>_. None), lw_log = [?a, ?b]\<rparr>"
    using load_store_reach.step [OF r3 load_store_step.store [of _ 1 ?b tab insertPool]] by simp
  then show ?thesis
    using assms by (intro exI conjI) (auto simp: insertPool_def update_conv')
qed

theorem tunnel_lost_update_witness:
  "\<exists>x. load_store_reach insertPool [] x \<and> lw_log x = [((1, 1), 0), ((2, 1), 1)] \<and> map_of (lw_cell x) (1, 1) = None"
  using tunnel_lost_update [of "[]" "(1, 1)" "(2, 1)" 0 1] by auto

section \<open>A connection that dies while it is added\<close>

lemma write_pools: "tunnelWrite control now i p t = Some (t', ok) \<Longrightarrow> tu_pools t' = tu_pools t \<and> length (tu_conns t') = length (tu_conns t)"
  by (auto simp: tunnelWrite_def option_bind_eq_Some setTn_def)

lemma close_pools:
  "closeConn now i t = Some t' \<Longrightarrow> tu_pools t' = tu_pools t \<and> tu_qs t' = tu_qs t \<and> (i < length (tu_conns t) \<longrightarrow> tn_closed (tnAt t' i))"
  by (auto simp: closeConn_def closeTunnelConn_def option_bind_eq_Some Let_def setTn_def tnAt_def split: if_splits)

lemma setup_pools:
  assumes "setupConnection E k t = Some (t', Some i)"
  shows "tu_pools t' = tu_pools t \<and> i = length (tu_conns t) \<and> length (tu_conns t') = Suc i"
proof -
  let ?t1 = "acceptConn E (tu_forwardID t) (pl_poolID (poolAt t k)) t"
  obtain am res where c: "challengePacket E MsgTypeAuthChallenge (tu_forwardID t) (pl_poolID (poolAt t k)) ?t1 = Some (am, res)"
    using assms by (auto simp: setupConnection_def Let_def option_bind_eq_Some split: if_splits)
  have dial: "te_dial E" using assms by (auto simp: setupConnection_def split: if_splits)
  show ?thesis
  proof (cases res)
    case (Inl e)
    then show ?thesis using assms c dial by (auto simp: setupConnection_def Let_def)
  next
    case (Inr p)
    then obtain t3 ok where w: "tunnelWrite False (te_now E) (length (tu_conns t)) p (?t1\<lparr>tu_auth := am\<rparr>) = Some (t3, ok)"
      and r: "(if ok then Some (t3, Some (length (tu_conns t)))
          else map_option (\<lambda>t4. (t4, None)) (closeConn (te_now E) (length (tu_conns t)) t3)) = Some (t', Some i)"
      using assms c dial unfolding setupConnection_def Let_def by (auto simp: option_bind_eq_Some)
    then have "t' = t3 \<and> i = length (tu_conns t)" by (auto split: if_splits)
    then show ?thesis using write_pools [OF w] by (simp add: acceptConn_def)
  qed
qed

lemma disconnect_pools:
  assumes "disconnectForward now i t = Some t'" "pl_conns (poolAt t k) = []" "k < length (tu_pools t)" "i < length (tu_conns t)"
  shows "tn_closed (tnAt t' i) \<and> pl_conns (poolAt t' k) = [] \<and> pl_count (poolAt t' k) = pl_count (poolAt t k)
    \<and> length (tu_pools t') = length (tu_pools t)"
proof (cases "map_of (tu_poolMap t) (tn_poolID (tnAt t i))")
  case None
  then show ?thesis using assms close_pools [of now i t t'] by (simp add: disconnectForward_def poolAt_def)
next
  case (Some j)
  define p where "p = removeConnection i (poolAt t j)"
  define t1 where "t1 = (if pl_conns p = [] then forgetPool j (setPool j p t) else setPool j p t)"
  have c: "closeConn now i t1 = Some t'" using assms(1) Some unfolding disconnectForward_def Let_def p_def t1_def by simp
  have t1: "tu_pools t1 = (tu_pools t)[j := p]" "tu_conns t1 = tu_conns t"
    by (simp_all add: t1_def forgetPool_def setPool_def)
  have "pl_conns (poolAt t1 k) = []" "pl_count (poolAt t1 k) = pl_count (poolAt t k)"
    using assms(2,3) by (auto simp: poolAt_def t1(1) nth_update_if p_def removeConnection_def seq_remove)
  then show ?thesis using close_pools [OF c] assms(4) t1 by (simp add: poolAt_def)
qed

text \<open>A pool of the forwarder can lose a slot for good: when the connection that was just dialled is disconnected before it
  is added to its pool, the pool counts it, sends nothing over it, and \<open>ensurePoolConnections\<close> dials no other.\<close>

theorem dead_connection_keeps_slot:
  fixes t :: tunnel
  assumes k: "k < length (tu_pools t)" "pl_conns (poolAt t k) = []" "pl_count (poolAt t k) = 1"
    and sc: "setupConnection E k t = Some (t1, Some i)"
    and dis: "disconnectForward now i t1 = Some t2"
    and t3: "t3 = setPool k (addConnection i (poolAt t2 k)) t2"
  shows "ensurePool Es k t3 = Some t3 \<and> fst (pickFrom n k t3) = None"
proof -
  note s = setup_pools [OF sc]
  have d: "tn_closed (tnAt t2 i)" "pl_conns (poolAt t2 k) = []" "pl_count (poolAt t2 k) = 1" "k < length (tu_pools t2)"
    using disconnect_pools [OF dis, of k] s k by (auto simp: poolAt_def)
  have p: "pl_conns (poolAt t3 k) = [i]" "pl_count (poolAt t3 k) = 1"
    using d by (simp_all add: t3 setPool_def poolAt_def addConnection_def seq_add)
  have "tu_conns t3 = tu_conns t2" by (simp add: t3 setPool_def)
  then have u: "\<not> usable (tu_conns t3 ! i)" using d(1) by (simp add: usable_def tnAt_def)
  have "ensurePool Es k t3 = Some t3" by (cases Es) (simp_all add: p)
  moreover have "fst (pickFrom n k t3) = None"
    using u by (simp add: pickFrom_def pickConn_def p split: prod.split)
  ultimately show ?thesis ..
qed


definition demoTunnel :: tunnel where
  "demoTunnel = newTunnelForward ''t'' [] None None 0 demoConfig (demoManager True []) demoTcpSettings demoTcpStats empty_hb_stats 1 [(5, 1)]"

definition demoTunnelEnv :: tunnel_env where
  "demoTunnelEnv = \<lparr>te_crypto = demoCrypto, te_now = 0, te_rand = Some (replicate 32 9), te_mem = replicate 164 0,
     te_mem2 = replicate 164 0, te_connID = 7, te_dial = True, te_order = (\<lambda>ks. ks)\<rparr>"

lemma demo_env_ok: "env_ok demoConfig demoTunnelEnv" "config_ok demoConfig"
  by (simp_all add: env_ok_def config_ok_def demoTunnelEnv_def pool_mem_def demoConfig_def poolSize_def)

lemma demo_limit: "96 \<le> ts_limit demoTcpSettings"
  by (simp add: demoTcpSettings_def newTcpQueueSettings_def defaultTcpQueueConfig_def exact_floats_def Let_def)

lemma push_fresh:
  assumes "\<not> pk_noDrop p" "pk_length p = 96"
  shows "\<exists>q. tqPush p False now (newTcpTunnelQueue demoTcpSettings st) = Some (q, True)"
proof -
  let ?q = "newTcpTunnelQueue demoTcpSettings st"
  have e: "tq_s ?q = demoTcpSettings" "tq_dataBytes ?q = 0" "\<not> tq_closed ?q"
    by (simp_all add: newTcpTunnelQueue_def tq_dataBytes_def sq_empty_def)
  then have "tqMakeRoom 96 ?q = Some ?q" using demo_limit by (simp add: tqMakeRoom.simps)
  then show ?thesis using assms e demo_limit by (simp add: tqPush_def tqPushed_def Let_def)
qed

theorem dead_connection_keeps_slot_witness:
  "\<exists>t1 t2. setupConnection demoTunnelEnv 0 demoTunnel = Some (t1, Some 0) \<and> disconnectForward 0 0 t1 = Some t2
    \<and> (\<forall>Es. ensurePool Es 0 (setPool 0 (addConnection 0 (poolAt t2 0)) t2) = Some (setPool 0 (addConnection 0 (poolAt t2 0)) t2))"
proof -
  have d: "tu_config demoTunnel = demoConfig" "tu_conns demoTunnel = []" "tu_pools demoTunnel = [newPool 5 1]"
    "tu_forwardID demoTunnel = 1" "tu_qs demoTunnel = demoTcpSettings"
    by (simp_all add: demoTunnel_def newTunnelForward_def newTunnelListen_def)
  let ?t0 = "acceptConn demoTunnelEnv 1 5 demoTunnel"
  have t0: "tu_config ?t0 = demoConfig" by (simp add: acceptConn_def d)
  have rand: "te_rand demoTunnelEnv \<noteq> None" "te_crypto demoTunnelEnv = demoCrypto" by (simp_all add: demoTunnelEnv_def)
  obtain am q where c: "challengePacket demoTunnelEnv MsgTypeAuthChallenge 1 5 ?t0 = Some (am, Inr q)"
      "pk_length q = 96" "\<not> pk_noDrop q"
    using challenge_ok [of ?t0 demoTunnelEnv MsgTypeAuthChallenge 1 5] demo_env_ok demo_laws(2) rand
    unfolding t0 by auto
  let ?t1 = "?t0\<lparr>tu_auth := am\<rparr>"
  have conn: "tn_sock (tnAt ?t1 0)" "\<not> tn_closed (tnAt ?t1 0)"
      "(tn_queue (tnAt ?t1 0))\<lparr>tq_stats := tu_qstats ?t1\<rparr> = newTcpTunnelQueue demoTcpSettings (tu_qstats ?t1)"
    by (simp_all add: acceptConn_def tnAt_def d demoTunnelEnv_def newTunnelConn_def newTcpTunnelQueue_def)
  obtain r where "tqPush q False 0 (newTcpTunnelQueue demoTcpSettings (tu_qstats ?t1)) = Some (r, True)"
    using push_fresh [OF c(3,2)] by blast
  then have "\<exists>t2. tunnelWrite False 0 0 q ?t1 = Some (t2, True)"
    unfolding tunnelWrite_def tunnelEnqueue_def conn(3) using conn(1,2) by simp
  then obtain t2 where w: "tunnelWrite False 0 0 q ?t1 = Some (t2, True)" by blast
  have ok: "conns_ok ?t1" using open_queue_new by (simp add: conns_ok_def acceptConn_def d newTunnelConn_def)
  have s: "setupConnection demoTunnelEnv 0 demoTunnel = Some (t2, Some 0)"
    using c(1) w by (simp add: setupConnection_def Let_def d poolAt_def newPool_def demoTunnelEnv_def)
  have t2: "conns_ok t2" "0 < length (tu_conns t2)"
    using write_ok [OF ok, of 0 False q 0] w setup_pools [OF s] by (auto simp: acceptConn_def d)
  obtain t3 where dis: "disconnectForward 0 0 t2 = Some t3" using disconnect_ok(2) [OF t2] by blast
  show ?thesis
    using s dis dead_connection_keeps_slot [OF _ _ _ s dis refl] d by (auto simp: poolAt_def newPool_def)
qed

end
