(* ===== verification/TunnelRead.thy ===== *)
theory TunnelRead
  imports TunnelMaps Listen
begin

text \<open>
  \<open>readLoop\<close> of \<open>src/tcp_tunnel.go\<close>: the bytes of a TCP connection are collected in a pool buffer, cut into messages
  and handled. The loop is translated with the handler of a message as a parameter, then the handlers. The
  reference it is compared with cuts the same bytes when they come all at once.
\<close>

section \<open>Cutting a stream into messages\<close>

datatype read_flow = KeepReading | StopReading

record read_state =
  rd_buf :: bytes
  rd_used :: int
  rd_expected :: int

text \<open>A data message is handled as a packet, every other one in place.\<close>

datatype message = DataMessage packet | ControlMessage bytes

record 's message_ops =
  mo_authed :: "'s \<Rightarrow> bool"
  mo_fresh :: "'s \<Rightarrow> bytes"
  mo_handle :: "message \<Rightarrow> 's \<Rightarrow> ('s \<times> read_flow) option"

text \<open>The length a header declares, and whether it ends the connection.\<close>

definition frameLength :: "bytes \<Rightarrow> int" where
  "frameLength bs = uint (get_u32 (drop 4 bs))"

lemma frameLength_nonneg [simp]: "0 \<le> frameLength bs" "- 8 < frameLength bs" "0 < 8 + frameLength bs"
  by (simp_all add: frameLength_def order.strict_trans2 [of _ 0] add_pos_nonneg)

definition badLength :: "router_config \<Rightarrow> bool \<Rightarrow> int \<Rightarrow> bool" where
  "badLength c authed n \<longleftrightarrow> (if authed then rc_bufferSize c < n else n \<noteq> HandshakeSize)"

text \<open>
  The message of \<open>n\<close> bytes at \<open>start\<close>, and the buffer to go on with: a data message that ends the data read so far
  takes the buffer along, and a fresh one replaces it; otherwise the message is copied into a packet of its own.
\<close>

definition takeMessage :: "router_config \<Rightarrow> string \<Rightarrow> bytes \<Rightarrow> bool \<Rightarrow> bool \<Rightarrow> int \<Rightarrow> int \<Rightarrow> bytes \<Rightarrow> (message \<times> bytes) option" where
  "takeMessage c tag fresh authed ends start n buf = do {
     m \<leftarrow> sl_range (full_slice buf) start (start + n);
     (if authed \<and> sl_data m ! 1 = MsgTypeData then
        if ends then Some (DataMessage ((getPacketWithBuffer tag (full_slice buf) start)\<lparr>pk_length := n\<rparr>), fresh)
        else do {
          (p, k) \<leftarrow> fillPacket (\<lambda>b. map_option (\<lambda>b'. (b', n)) (sl_copy (sl_data m) b)) (getPacket c fresh tag);
          Some (DataMessage (p\<lparr>pk_length := k\<rparr>), buf)
        }
      else Some (ControlMessage (sl_data m), buf))
   }"

text \<open>The loop over the messages in the buffer; \<open>i\<close> is \<open>processedBytes\<close>.\<close>

function parseMessages :: "'s message_ops \<Rightarrow> router_config \<Rightarrow> string \<Rightarrow> int \<Rightarrow> read_state \<Rightarrow> 's
    \<Rightarrow> (int \<times> read_state \<times> 's \<times> read_flow) option" where
  "parseMessages M c tag i r s =
     (if rd_used r \<le> i then Some (i, r, s, KeepReading)
      else if rd_used r - i < HeaderSize then Some (i, r\<lparr>rd_expected := 0\<rparr>, s, KeepReading)
      else
        (let start = rc_bufferOffset c + i in
         case sl_range (full_slice (rd_buf r)) start (start + HeaderSize) of
           None \<Rightarrow> None
         | Some header \<Rightarrow>
             (let n = HeaderSize + frameLength (sl_data header) in
              if badLength c (mo_authed M s) (frameLength (sl_data header)) then Some (i, r, s, StopReading)
              else if rd_used r - i < n then Some (i, r\<lparr>rd_expected := n\<rparr>, s, KeepReading)
              else case takeMessage c tag (mo_fresh M s) (mo_authed M s) (rd_used r - i = n) start n (rd_buf r) of
                  None \<Rightarrow> None
                | Some (m, buf) \<Rightarrow>
                    (case mo_handle M m s of
                       None \<Rightarrow> None
                     | Some (s', StopReading) \<Rightarrow> Some (i, r\<lparr>rd_buf := buf\<rparr>, s', StopReading)
                     | Some (s', KeepReading) \<Rightarrow>
                         parseMessages M c tag (i + n) (r\<lparr>rd_buf := buf, rd_expected := 0\<rparr>) s'))))"
  by pat_completeness auto
termination
  by (relation "measure (\<lambda>(M, c, tag, i, r, s). nat (rd_used r - i))") (auto simp: HeaderSize_def)

declare parseMessages.simps [simp del]

text \<open>How much one read may bring: the room that is left, or what the message at hand lacks.\<close>

definition readRoom :: "router_config \<Rightarrow> read_state \<Rightarrow> int" where
  "readRoom c r = int (length (rd_buf r)) - (rc_bufferOffset c + rd_used r)"

definition readSize :: "router_config \<Rightarrow> read_state \<Rightarrow> int" where
  "readSize c r = (if 0 < rd_expected r \<and> rd_expected r - rd_used r < readRoom c r then rd_expected r - rd_used r else readRoom c r)"

text \<open>What follows a read that brought \<open>xs\<close>: handle the messages, move the rest to the front.\<close>

definition shiftBuffer :: "router_config \<Rightarrow> int \<Rightarrow> read_state \<Rightarrow> read_state" where
  "shiftBuffer c i r =
     (if 0 < i then
        r\<lparr>rd_buf := (if i < rd_used r
            then blit (rd_buf r) (nat (rc_bufferOffset c)) (take (nat (rd_used r - i)) (drop (nat (rc_bufferOffset c + i)) (rd_buf r)))
            else rd_buf r),
          rd_used := rd_used r - i\<rparr>
      else r)"

definition readPass :: "'s message_ops \<Rightarrow> router_config \<Rightarrow> string \<Rightarrow> bytes \<Rightarrow> read_state \<Rightarrow> 's
    \<Rightarrow> (read_state \<times> 's \<times> read_flow) option" where
  "readPass M c tag xs r s = do {
     let r1 = r\<lparr>rd_buf := blit (rd_buf r) (nat (rc_bufferOffset c + rd_used r)) xs, rd_used := rd_used r + int (length xs)\<rparr>;
     (i, r2, s', flow) \<leftarrow> parseMessages M c tag 0 r1 s;
     (case flow of
        StopReading \<Rightarrow> Some (r2, s', StopReading)
      | KeepReading \<Rightarrow>
          (let r3 = shiftBuffer c i r2 in
           Some (r3, s', if rd_used r3 = int (length (rd_buf r3)) - rc_bufferOffset c \<and> i = 0 then StopReading else KeepReading)))
   }"

text \<open>The loop over the reads. \<open>ns\<close> tells how much the socket gives at a time of the bytes \<open>xs\<close> that arrive; what is not
  read when the loop stops is left.\<close>

primrec readRun :: "'s message_ops \<Rightarrow> router_config \<Rightarrow> string \<Rightarrow> nat list \<Rightarrow> bytes \<Rightarrow> read_state \<Rightarrow> 's
    \<Rightarrow> (bytes \<times> read_state \<times> 's \<times> read_flow) option" where
  "readRun M c tag [] xs r s = Some (xs, r, s, KeepReading)"
| "readRun M c tag (n # ns) xs r s =
     (if readRoom c r \<le> 0 then Some (xs, r, s, StopReading)
      else do {
        let k = min n (nat (readSize c r));
        (r1, s1, flow) \<leftarrow> readPass M c tag (take k xs) r s;
        (case flow of StopReading \<Rightarrow> Some (drop k xs, r1, s1, StopReading)
         | KeepReading \<Rightarrow> readRun M c tag ns (drop k xs) r1 s1)
      })"

definition newReadState :: "bytes \<Rightarrow> read_state" where
  "newReadState buf = \<lparr>rd_buf = buf, rd_used = 0, rd_expected = 0\<rparr>"

section \<open>The reference\<close>

text \<open>A message as a packet in a buffer of its own.\<close>

definition framed :: "router_config \<Rightarrow> string \<Rightarrow> bytes \<Rightarrow> packet" where
  "framed c tag m = (getPacketWithBuffer tag (full_slice (m @ replicate (nat (poolSize c) - length m) 0)) 0)\<lparr>pk_length := int (length m)\<rparr>"

definition messageOf :: "router_config \<Rightarrow> string \<Rightarrow> bool \<Rightarrow> bytes \<Rightarrow> message" where
  "messageOf c tag authed m = (if authed \<and> m ! 1 = MsgTypeData then DataMessage (framed c tag m) else ControlMessage m)"

text \<open>The stream \<open>xs\<close> cut in one go: what is left, and whether the connection goes on. A message that does not fit into
  the buffer ends it once as many bytes as the buffer holds have come.\<close>

function streamSpec :: "'s message_ops \<Rightarrow> router_config \<Rightarrow> string \<Rightarrow> bytes \<Rightarrow> 's \<Rightarrow> (bytes \<times> 's \<times> read_flow) option" where
  "streamSpec M c tag xs s =
     (if length xs < 8 then Some (xs, s, KeepReading)
      else if badLength c (mo_authed M s) (frameLength xs) then Some (xs, s, StopReading)
      else if rc_bufferSize c < 8 + frameLength xs
      then Some (xs, s, if rc_bufferSize c \<le> int (length xs) then StopReading else KeepReading)
      else if int (length xs) < 8 + frameLength xs then Some (xs, s, KeepReading)
      else case mo_handle M (messageOf c tag (mo_authed M s) (take (nat (8 + frameLength xs)) xs)) s of
          None \<Rightarrow> None
        | Some (s', StopReading) \<Rightarrow> Some (drop (nat (8 + frameLength xs)) xs, s', StopReading)
        | Some (s', KeepReading) \<Rightarrow> streamSpec M c tag (drop (nat (8 + frameLength xs)) xs) s')"
  by pat_completeness auto
termination
  by (relation "measure (\<lambda>(M, c, tag, xs, s). length xs)") (auto intro!: diff_less)

declare streamSpec.simps [simp del]

lemma take_get_u32: "4 \<le> n \<Longrightarrow> get_u32 (take n bs) = get_u32 bs"
  by (simp add: get_u32_def min_def)

lemma frameLength_take: "8 \<le> n \<Longrightarrow> frameLength (take n xs) = frameLength xs"
  by (simp add: frameLength_def drop_take take_get_u32)

lemma frameLength_append: "8 \<le> length xs \<Longrightarrow> frameLength (xs @ ys) = frameLength xs"
  using frameLength_take [of 8 "xs @ ys"] frameLength_take [of 8 xs] by simp

text \<open>More bytes only extend what was done.\<close>

lemma streamSpec_append:
  assumes "streamSpec M c tag xs s = Some (left, s1, flow)"
  shows "case flow of StopReading \<Rightarrow> \<exists>l. streamSpec M c tag (xs @ ys) s = Some (l, s1, StopReading)
    | KeepReading \<Rightarrow> streamSpec M c tag (xs @ ys) s = streamSpec M c tag (left @ ys) s1"
  using assms
proof (induction M c tag xs s rule: streamSpec.induct)
  case (1 M c tag xs s)
  let ?n = "8 + frameLength xs"
  let ?h = "mo_handle M (messageOf c tag (mo_authed M s) (take (nat ?n) xs)) s"
  note def = streamSpec.simps [of M c tag "xs @ ys" s]
  consider "length xs < 8" | "8 \<le> length xs" "badLength c (mo_authed M s) (frameLength xs)"
    | "8 \<le> length xs" "\<not> badLength c (mo_authed M s) (frameLength xs)" "rc_bufferSize c < ?n"
    | "8 \<le> length xs" "\<not> badLength c (mo_authed M s) (frameLength xs)" "?n \<le> rc_bufferSize c" "int (length xs) < ?n"
    | (go) "8 \<le> length xs" "\<not> badLength c (mo_authed M s) (frameLength xs)" "?n \<le> rc_bufferSize c" "?n \<le> int (length xs)"
    by linarith
  then show ?case
  proof cases
    case 1
    then show ?thesis using "1.prems" by (simp add: streamSpec.simps [of M c tag xs])
  next
    case 2
    then show ?thesis using "1.prems" def by (simp add: streamSpec.simps [of M c tag xs] frameLength_append)
  next
    case 3
    then show ?thesis using "1.prems" def
      by (cases "rc_bufferSize c \<le> int (length xs)") (auto simp: streamSpec.simps [of M c tag xs] frameLength_append)
  next
    case 4
    then show ?thesis using "1.prems" by (simp add: streamSpec.simps [of M c tag xs])
  next
    case go
    have whole: "take (nat ?n) (xs @ ys) = take (nat ?n) xs" "drop (nat ?n) (xs @ ys) = drop (nat ?n) xs @ ys"
      using go(4) by simp_all
    have ext: "streamSpec M c tag (xs @ ys) s = (case ?h of None \<Rightarrow> None
        | Some (s', StopReading) \<Rightarrow> Some (drop (nat ?n) xs @ ys, s', StopReading)
        | Some (s', KeepReading) \<Rightarrow> streamSpec M c tag (drop (nat ?n) xs @ ys) s')"
      unfolding def frameLength_append [OF go(1)] whole using go by simp
    have now: "streamSpec M c tag xs s = (case ?h of None \<Rightarrow> None
        | Some (s', StopReading) \<Rightarrow> Some (drop (nat ?n) xs, s', StopReading)
        | Some (s', KeepReading) \<Rightarrow> streamSpec M c tag (drop (nat ?n) xs) s')"
      using go by (simp add: streamSpec.simps [of M c tag xs])
    obtain s' f where h: "?h = Some (s', f)" using "1.prems" now by (cases ?h) auto
    show ?thesis
    proof (cases f)
      case StopReading
      then show ?thesis using "1.prems" ext now h by auto
    next
      case KeepReading
      have ih: "streamSpec M c tag (drop (nat ?n) xs) s' = Some (left, s1, flow)" using "1.prems" now h KeepReading by simp
      have "\<not> length xs < 8" "\<not> rc_bufferSize c < ?n" "\<not> int (length xs) < ?n" using go by linarith+
      note next_message = "1.IH" [OF this(1) go(2) this(2,3) h refl KeepReading ih]
      have "streamSpec M c tag (xs @ ys) s = streamSpec M c tag (drop (nat ?n) xs @ ys) s'" using ext h KeepReading by simp
      then show ?thesis using next_message by (simp only:)
    qed
  qed
qed

section \<open>Chunks do not matter\<close>

text \<open>What a packet is apart from where its bytes lie.\<close>

definition pview :: "packet \<Rightarrow> bytes \<times> packet" where
  "pview p = (pk_bytes p, p\<lparr>pk_buf := full_slice [], pk_offset := 0, pk_length := 0\<rparr>)"

fun same_message :: "router_config \<Rightarrow> message \<Rightarrow> message \<Rightarrow> bool" where
  "same_message c (DataMessage p) (DataMessage q) \<longleftrightarrow> pk_full c p \<and> pk_full c q \<and> pview p = pview q"
| "same_message c (ControlMessage m) (ControlMessage m') \<longleftrightarrow> m = m'"
| "same_message c m m' \<longleftrightarrow> False"

lemma framed_full:
  assumes "int (length m) \<le> poolSize c"
  shows "pk_full c (framed c tag m)" "pk_bytes (framed c tag m) = m"
  using assms by (simp_all add: framed_def pk_full_def pk_wf_def pool_mem_def full_slice_def getPacketWithBuffer_def pk_bytes_def)

lemma copied_full:
  assumes c: "config_ok c" and m: "pool_mem c fresh" "int (length xs) \<le> rc_bufferSize c"
  shows "\<exists>p. fillPacket (\<lambda>b. map_option (\<lambda>b'. (b', int (length xs))) (sl_copy xs b)) (getPacket c fresh tag) = Some (p, int (length xs))
    \<and> same_message c (DataMessage (p\<lparr>pk_length := int (length xs)\<rparr>)) (DataMessage (framed c tag xs))"
proof -
  note room = getPacket_room [OF m(1) c]
  let ?o = "nat (rc_bufferOffset c)"
  have pos: "0 \<le> rc_bufferOffset c" "0 \<le> rc_bufferSize c" using c by (auto simp: config_ok_def)
  have len: "length fresh = nat (rc_bufferSize c) + ?o" using m(1) pos by (simp add: pool_mem_def poolSize_def)
  have small: "length xs \<le> length (drop ?o fresh)" using m(2) room(2) by simp
  let ?mem = "take ?o fresh @ xs @ drop (length xs) (drop ?o fresh)"
  let ?p = "(getPacketWithBuffer tag (full_slice ?mem) (rc_bufferOffset c))\<lparr>pk_length := int (length xs)\<rparr>"
  have mem: "length ?mem = length fresh" using small len by simp
  have "fillPacket (\<lambda>b. map_option (\<lambda>b'. (b', int (length xs))) (sl_copy xs b)) (getPacket c fresh tag)
      = Some (?p\<lparr>pk_length := 0\<rparr>, int (length xs))"
    using room(1) [of tag] small mem
    by (simp add: fillPacket_def sl_copy_def full_slice_def blit_fits getPacket_def getPacketWithBuffer_def)
  moreover have "pk_full c ?p"
    using mem m pos by (simp add: pk_full_def pk_wf_def pool_mem_def full_slice_def getPacketWithBuffer_def poolSize_def)
  moreover have "pview ?p = pview (framed c tag xs)"
    using m(2) small len pos framed_full(2) [of xs c tag]
    by (simp add: pview_def framed_def getPacketWithBuffer_def pk_bytes_def full_slice_def poolSize_def)
  moreover have "pk_full c (framed c tag xs)" using m(2) pos by (intro framed_full) (simp add: poolSize_def)
  ultimately show ?thesis by (intro exI [of _ "?p\<lparr>pk_length := 0\<rparr>"]) simp
qed

definition pending :: "router_config \<Rightarrow> int \<Rightarrow> read_state \<Rightarrow> bytes" where
  "pending c i r = take (nat (rd_used r - i)) (drop (nat (rc_bufferOffset c + i)) (rd_buf r))"

lemma pending_length:
  assumes "pool_mem c (rd_buf r)" "config_ok c" "0 \<le> i" "i \<le> rd_used r" "rd_used r \<le> rc_bufferSize c"
  shows "int (length (pending c i r)) = rd_used r - i"
proof -
  have "int (nat (rd_used r - i)) \<le> int (length (rd_buf r)) - int (nat (rc_bufferOffset c + i))"
    using assms by (simp add: pool_mem_def poolSize_def config_ok_def)
  then have "nat (rd_used r - i) \<le> length (rd_buf r) - nat (rc_bufferOffset c + i)" by linarith
  then show ?thesis using assms(4) by (simp add: pending_def min_def)
qed

lemma takeMessage_ok:
  assumes c: "config_ok c" and f: "pool_mem c fresh" and buf: "pool_mem c buf"
    and n: "8 \<le> n" "n \<le> rc_bufferSize c" "rc_bufferOffset c \<le> start" "start + n \<le> poolSize c"
  shows "\<exists>m buf'. takeMessage c tag fresh authed ends start n buf = Some (m, buf') \<and> pool_mem c buf' \<and> (\<not> ends \<longrightarrow> buf' = buf)
    \<and> same_message c m (messageOf c tag authed (take (nat n) (drop (nat start) buf)))"
proof -
  let ?m = "take (nat n) (drop (nat start) buf)"
  have pos: "0 \<le> start" "int (length buf) = poolSize c" using c n buf by (auto simp: config_ok_def pool_mem_def)
  have sl: "sl_range (full_slice buf) start (start + n) = Some \<lparr>sl_mem = drop (nat start) buf, sl_len = n\<rparr>"
    using pos n by (simp add: sl_range_def full_slice_def sl_cap_def)
  have len: "int (length ?m) = n" using pos n by auto
  show ?thesis
  proof (cases "authed \<and> ?m ! 1 = MsgTypeData")
    case False
    then show ?thesis using sl buf by (auto simp: takeMessage_def sl_data_def messageOf_def)
  next
    case True
    show ?thesis
    proof (cases ends)
      case own: True
      let ?p = "(getPacketWithBuffer tag (full_slice buf) start)\<lparr>pk_length := n\<rparr>"
      have "pk_full c ?p"
        using pos n buf by (simp add: pk_full_def pk_wf_def full_slice_def getPacketWithBuffer_def)
      moreover have "pview ?p = pview (framed c tag ?m)"
        using framed_full(2) [of ?m c tag] len n pos
        by (simp add: pview_def framed_def getPacketWithBuffer_def pk_bytes_def full_slice_def)
      moreover have "pk_full c (framed c tag ?m)" using len n pos by (intro framed_full) linarith
      ultimately show ?thesis using True own sl f by (simp add: takeMessage_def sl_data_def messageOf_def)
    next
      case copy: False
      obtain p where "fillPacket (\<lambda>b. map_option (\<lambda>b'. (b', n)) (sl_copy ?m b)) (getPacket c fresh tag) = Some (p, n)"
          "same_message c (DataMessage (p\<lparr>pk_length := n\<rparr>)) (DataMessage (framed c tag ?m))"
        using copied_full [OF c f, of ?m tag] len n(2) by auto
      then show ?thesis using True copy sl buf by (simp add: takeMessage_def sl_data_def messageOf_def del: same_message.simps)
    qed
  qed
qed

text \<open>
  What a handler of messages promises the read loop: it never panics, keeps its invariant \<open>ok\<close>, and for the same
  message and two states of the same \<open>view\<close> it does the same, whatever buffer the message lies in.
\<close>

locale message_handler =
  fixes M :: "'s message_ops" and c :: router_config and tag :: string and ok :: "'s \<Rightarrow> bool" and view :: "'s \<Rightarrow> 'v"
  assumes config: "ok s \<Longrightarrow> config_ok c"
    and fresh: "ok s \<Longrightarrow> pool_mem c (mo_fresh M s)"
    and authed_view: "view s = view s' \<Longrightarrow> mo_authed M s = mo_authed M s'"
    and handle: "ok s \<Longrightarrow> ok s' \<Longrightarrow> view s = view s' \<Longrightarrow> same_message c m m' \<Longrightarrow>
      \<exists>t t' f. mo_handle M m s = Some (t, f) \<and> mo_handle M m' s' = Some (t', f) \<and> ok t \<and> ok t' \<and> view t = view t'"
begin

definition agrees :: "'s \<Rightarrow> 's \<Rightarrow> bool" where
  "agrees s s0 \<longleftrightarrow> ok s \<and> ok s0 \<and> view s = view s0"

lemma parse_spec:
  assumes "agrees s s0" "pool_mem c (rd_buf r)" "0 \<le> i" "i \<le> rd_used r" "rd_used r \<le> rc_bufferSize c"
  shows "\<exists>i' r' s' flow left s1 flow0. parseMessages M c tag i r s = Some (i', r', s', flow)
    \<and> streamSpec M c tag (pending c i r) s0 = Some (left, s1, flow0) \<and> agrees s' s1
    \<and> pool_mem c (rd_buf r') \<and> rd_used r' = rd_used r \<and> i \<le> i' \<and> i' \<le> rd_used r
    \<and> (flow = StopReading \<longrightarrow> flow0 = StopReading)
    \<and> (flow = KeepReading \<longrightarrow> left = pending c i' r'
        \<and> flow0 = (if rc_bufferSize c \<le> int (length left) then StopReading else KeepReading))"
  using assms
proof (induction "nat (rd_used r - i)" arbitrary: i r s s0 rule: less_induct)
  case less
  have s: "ok s" "ok s0" "view s = view s0" using less.prems(1) by (auto simp: agrees_def)
  have au: "mo_authed M s0 = mo_authed M s" using authed_view [OF s(3)] by simp
  have cfg: "0 \<le> rc_bufferOffset c" "96 \<le> rc_bufferSize c" using config [OF s(1)] by (simp_all add: config_ok_def)
  let ?xs = "pending c i r" and ?start = "rc_bufferOffset c + i"
  let ?rest = "drop (nat ?start) (rd_buf r)"
  have buf: "int (length (rd_buf r)) = rc_bufferSize c + rc_bufferOffset c" using less.prems(2) by (simp add: pool_mem_def poolSize_def)
  have len: "int (length ?xs) = rd_used r - i" by (rule pending_length [OF less.prems(2) config [OF s(1)] less.prems(3-5)])
  have wait: "pending c i (r\<lparr>rd_expected := n\<rparr>) = ?xs" for n by (simp add: pending_def)
  show ?case
  proof (cases "rd_used r - i < 8")
    case True
    then have "streamSpec M c tag ?xs s0 = Some (?xs, s0, KeepReading)" using len by (simp add: streamSpec.simps [of M c tag ?xs])
    moreover have "\<not> rc_bufferSize c \<le> int (length ?xs)" using True len cfg by linarith
    moreover have "parseMessages M c tag i r s = Some (i, if rd_used r \<le> i then r else r\<lparr>rd_expected := 0\<rparr>, s, KeepReading)"
      using True by (subst parseMessages.simps) (simp add: HeaderSize_def)
    ultimately show ?thesis
      using less.prems(1-4) wait [of 0] by (cases "rd_used r \<le> i") simp_all
  next
    case False
    let ?L = "frameLength ?rest"
    let ?n = "8 + ?L"
    have hd: "sl_range (full_slice (rd_buf r)) ?start (?start + HeaderSize) = Some \<lparr>sl_mem = ?rest, sl_len = 8\<rparr>"
      using buf cfg False less.prems(3-5) by (simp add: sl_range_def full_slice_def sl_cap_def HeaderSize_def)
    have L: "frameLength (sl_data \<lparr>sl_mem = ?rest, sl_len = 8\<rparr>) = ?L" "frameLength ?xs = ?L"
      using False by (simp_all add: sl_data_def pending_def frameLength_take)
    have parse: "parseMessages M c tag i r s =
       (if badLength c (mo_authed M s) ?L then Some (i, r, s, StopReading)
        else if rd_used r - i < ?n then Some (i, r\<lparr>rd_expected := ?n\<rparr>, s, KeepReading)
        else case takeMessage c tag (mo_fresh M s) (mo_authed M s) (rd_used r - i = ?n) ?start ?n (rd_buf r) of
            None \<Rightarrow> None
          | Some (m, buf) \<Rightarrow>
              (case mo_handle M m s of
                 None \<Rightarrow> None
               | Some (s', StopReading) \<Rightarrow> Some (i, r\<lparr>rd_buf := buf\<rparr>, s', StopReading)
               | Some (s', KeepReading) \<Rightarrow>
                   parseMessages M c tag (i + ?n) (r\<lparr>rd_buf := buf, rd_expected := 0\<rparr>) s'))"
      using False by (simp add: parseMessages.simps [of M c tag i] hd [unfolded HeaderSize_def] L Let_def HeaderSize_def)
    have ge: "\<not> length ?xs < 8" using False len by linarith
    show ?thesis
    proof (cases "badLength c (mo_authed M s) ?L \<or> rd_used r - i < ?n")
      case True
      then show ?thesis
        using parse less.prems wait [of ?n] ge L(2) len by (auto simp: streamSpec.simps [of M c tag ?xs] au)
    next
      case go: False
      then have n: "?n \<le> rd_used r - i" "?n \<le> rc_bufferSize c" using less.prems(3,5) by auto
      obtain m buf' where m: "takeMessage c tag (mo_fresh M s) (mo_authed M s) (rd_used r - i = ?n) ?start ?n (rd_buf r) = Some (m, buf')"
          "pool_mem c buf'" "rd_used r - i \<noteq> ?n \<longrightarrow> buf' = rd_buf r"
          "same_message c m (messageOf c tag (mo_authed M s) (take (nat ?n) ?rest))"
        using takeMessage_ok [OF config [OF s(1)] fresh [OF s(1)] less.prems(2) _ n(2), of ?start tag "mo_authed M s" "rd_used r - i = ?n"]
          less.prems(3,5) n cfg by (auto simp: poolSize_def)
      have same: "take (nat ?n) ?rest = take (nat ?n) ?xs" using n(1) by (simp add: pending_def min_def)
      obtain t t0 f where h: "mo_handle M m s = Some (t, f)" "ok t" "ok t0" "view t = view t0"
          "mo_handle M (messageOf c tag (mo_authed M s0) (take (nat ?n) ?xs)) s0 = Some (t0, f)"
        using handle [OF s m(4)] unfolding same au by blast
      have spec: "streamSpec M c tag ?xs s0 = (case f of StopReading \<Rightarrow> Some (drop (nat ?n) ?xs, t0, StopReading)
          | KeepReading \<Rightarrow> streamSpec M c tag (drop (nat ?n) ?xs) t0)"
        using go n ge len h(5) by (simp add: streamSpec.simps [of M c tag ?xs] L(2) au split: read_flow.split)
      show ?thesis
      proof (cases f)
        case StopReading
        then show ?thesis using parse go m h spec less.prems by (simp add: agrees_def)
      next
        case KeepReading
        let ?r = "r\<lparr>rd_buf := buf', rd_expected := 0\<rparr>"
        have rest: "pending c (i + ?n) ?r = drop (nat ?n) ?xs"
        proof (cases "rd_used r - i = ?n")
          case True
          then show ?thesis using len by (simp add: pending_def)
        next
          case more: False
          have "nat (rc_bufferOffset c + (i + ?n)) = nat ?n + nat ?start"
            using cfg less.prems(3) frameLength_nonneg(1) [of ?rest]
            by (subst nat_add_distrib [symmetric]) (simp_all add: algebra_simps)
          moreover have "nat (rd_used r - (i + ?n)) = nat (rd_used r - i) - nat ?n"
            using n(1) frameLength_nonneg(1) [of ?rest]
            by (subst nat_diff_distrib' [symmetric]) (use less.prems(4) in \<open>simp_all add: diff_diff_eq\<close>)
          ultimately show ?thesis using m(3) more by (simp add: pending_def drop_take)
        qed
        have e: "parseMessages M c tag i r s = parseMessages M c tag (i + ?n) ?r t"
            "streamSpec M c tag ?xs s0 = streamSpec M c tag (pending c (i + ?n) ?r) t0"
          using parse go m(1) h(1) KeepReading spec rest by simp_all
        have "nat (rd_used ?r - (i + ?n)) < nat (rd_used r - i)"
          using n(1) frameLength_nonneg [of ?rest] False by simp
        moreover have "agrees t t0" using h by (simp add: agrees_def)
        moreover have "pool_mem c (rd_buf ?r)" "0 \<le> i + ?n" "i + ?n \<le> rd_used ?r" "rd_used ?r \<le> rc_bufferSize c"
          using m(2) n(1) less.prems(3,5) by simp_all
        ultimately obtain i' r' s' flow left s1 flow0 where ih: "parseMessages M c tag (i + ?n) ?r t = Some (i', r', s', flow)"
            "streamSpec M c tag (pending c (i + ?n) ?r) t0 = Some (left, s1, flow0)" "agrees s' s1" "pool_mem c (rd_buf r')"
            "rd_used r' = rd_used ?r" "i + ?n \<le> i'" "i' \<le> rd_used ?r" "flow = StopReading \<longrightarrow> flow0 = StopReading"
            "flow = KeepReading \<longrightarrow> left = pending c i' r'
              \<and> flow0 = (if rc_bufferSize c \<le> int (length left) then StopReading else KeepReading)"
          using less.hyps [of ?r "i + ?n" t t0] by blast
        have "i \<le> i'" using ih(6) frameLength_nonneg(1) [of ?rest] by linarith
        then show ?thesis unfolding e using ih by (intro exI conjI) simp_all
      qed
    qed
  qed
qed

text \<open>The state between two reads: every message that was there whole is handled.\<close>

definition waiting :: "read_state \<Rightarrow> 's \<Rightarrow> bool" where
  "waiting r s \<longleftrightarrow> pool_mem c (rd_buf r) \<and> 0 \<le> rd_used r \<and> rd_used r < rc_bufferSize c
     \<and> streamSpec M c tag (pending c 0 r) s = Some (pending c 0 r, s, KeepReading)"

lemma streamSpec_rest:
  "streamSpec M c tag xs s = Some (left, s1, KeepReading) \<Longrightarrow> streamSpec M c tag left s1 = Some (left, s1, KeepReading)"
  using streamSpec_append [of M c tag xs s left s1 KeepReading "[]"] by simp

lemma pending_read:
  assumes "pool_mem c (rd_buf r)" "config_ok c" "0 \<le> rd_used r" "rd_used r + int (length xs) \<le> rc_bufferSize c"
  shows "pending c 0 (r\<lparr>rd_buf := blit (rd_buf r) (nat (rc_bufferOffset c + rd_used r)) xs, rd_used := rd_used r + int (length xs)\<rparr>)
    = pending c 0 r @ xs"
proof -
  let ?o = "nat (rc_bufferOffset c)" and ?u = "nat (rd_used r)"
  have pos: "0 \<le> rc_bufferOffset c" using assms(2) by (simp add: config_ok_def)
  have fit: "?o + ?u + length xs \<le> length (rd_buf r)" using assms pos by (simp add: pool_mem_def poolSize_def)
  have "nat (rc_bufferOffset c + rd_used r) = ?o + ?u" "nat (rd_used r + int (length xs)) = ?u + length xs"
    using pos assms(3) by simp_all
  moreover have "min (length (rd_buf r) - ?o) ?u = ?u" using fit by simp
  ultimately show ?thesis
    using fit by (simp add: pending_def blit_fits drop_take)
qed

lemma pending_shift:
  assumes "pool_mem c (rd_buf r)" "config_ok c" "0 \<le> i" "i \<le> rd_used r" "rd_used r \<le> rc_bufferSize c"
  shows "pending c 0 (shiftBuffer c i r) = pending c i r" "pool_mem c (rd_buf (shiftBuffer c i r))"
    "rd_used (shiftBuffer c i r) = rd_used r - i"
proof -
  let ?o = "nat (rc_bufferOffset c)"
  have pos: "0 \<le> rc_bufferOffset c" using assms(2) by (simp add: config_ok_def)
  have len: "length (rd_buf r) = nat (rc_bufferSize c) + ?o" using assms(1,4,5) pos assms(3) by (simp add: pool_mem_def poolSize_def)
  show "pending c 0 (shiftBuffer c i r) = pending c i r"
  proof (cases "0 < i \<and> i < rd_used r")
    case True
    let ?m = "take (nat (rd_used r - i)) (drop (nat (rc_bufferOffset c + i)) (rd_buf r))"
    have m: "length ?m = nat (rd_used r - i)" using pending_length [OF assms] by (simp add: pending_def)
    moreover have "?o + length ?m \<le> length (rd_buf r)" unfolding m len using assms(3,5) by simp
    ultimately show ?thesis using True len assms(3) by (simp add: shiftBuffer_def pending_def blit_fits)
  next
    case False
    then show ?thesis using assms(3,4) by (auto simp: shiftBuffer_def pending_def)
  qed
  show "pool_mem c (rd_buf (shiftBuffer c i r))" "rd_used (shiftBuffer c i r) = rd_used r - i"
    using assms(1,3) by (auto simp: shiftBuffer_def pool_mem_def)
qed

lemma pass_spec:
  assumes a: "agrees s s0" and w: "waiting r s0" and xs: "int (length xs) \<le> readRoom c r"
  shows "\<exists>r' s' flow left s1. readPass M c tag xs r s = Some (r', s', flow) \<and> agrees s' s1
    \<and> streamSpec M c tag (pending c 0 r @ xs) s0 = Some (left, s1, flow)
    \<and> (flow = KeepReading \<longrightarrow> waiting r' s1 \<and> left = pending c 0 r')"
proof -
  have c: "config_ok c" using a config by (auto simp: agrees_def)
  then have cfg: "0 \<le> rc_bufferOffset c" "96 \<le> rc_bufferSize c" by (simp_all add: config_ok_def)
  have r: "pool_mem c (rd_buf r)" "0 \<le> rd_used r" using w by (auto simp: waiting_def)
  have room: "rd_used r + int (length xs) \<le> rc_bufferSize c" using xs r(1) by (simp add: readRoom_def pool_mem_def poolSize_def)
  let ?r = "r\<lparr>rd_buf := blit (rd_buf r) (nat (rc_bufferOffset c + rd_used r)) xs, rd_used := rd_used r + int (length xs)\<rparr>"
  have r1: "pool_mem c (rd_buf ?r)" "0 \<le> rd_used ?r" "rd_used ?r \<le> rc_bufferSize c" using r room by (simp_all add: pool_mem_def)
  obtain i r2 s' flow left s1 flow0 where p: "parseMessages M c tag 0 ?r s = Some (i, r2, s', flow)"
      "streamSpec M c tag (pending c 0 r @ xs) s0 = Some (left, s1, flow0)" "agrees s' s1"
      "pool_mem c (rd_buf r2)" "rd_used r2 = rd_used ?r" "0 \<le> i" "i \<le> rd_used ?r" "flow = StopReading \<longrightarrow> flow0 = StopReading"
      "flow = KeepReading \<longrightarrow> left = pending c i r2 \<and> flow0 = (if rc_bufferSize c \<le> int (length left) then StopReading else KeepReading)"
    using parse_spec [OF a r1(1) _ r1(2,3)] unfolding pending_read [OF r(1) c r(2) room] by auto
  show ?thesis
  proof (cases flow)
    case StopReading
    then show ?thesis using p by (simp add: readPass_def)
  next
    case KeepReading
    let ?r3 = "shiftBuffer c i r2"
    note sh = pending_shift [OF p(4) c p(6), unfolded p(5), OF p(7) r1(3)]
    have buf: "int (length (rd_buf ?r3)) - rc_bufferOffset c = rc_bufferSize c" using sh(2) by (simp add: pool_mem_def poolSize_def)
    have len: "int (length left) = rd_used ?r3"
      using p(9) KeepReading sh(3) pending_length [OF p(4) c p(6)] p(5,7) r1(3) by simp
    have flow0: "flow0 = (if rd_used ?r3 = rc_bufferSize c \<and> i = 0 then StopReading else KeepReading)"
      using p(9) KeepReading len sh(3) p(6) r1(3) by (cases "i = 0") auto
    have pass: "readPass M c tag xs r s = Some (?r3, s', flow0)"
      using p(1) KeepReading by (simp add: readPass_def flow0 Let_def buf)
    have "waiting ?r3 s1 \<and> left = pending c 0 ?r3" if "flow0 = KeepReading"
    proof -
      have "rd_used ?r3 < rc_bufferSize c" using that p(9) KeepReading len by (auto split: if_splits)
      moreover have "left = pending c 0 ?r3" using p(9) KeepReading sh(1) by simp
      ultimately show ?thesis using streamSpec_rest [of "pending c 0 r @ xs" s0 left s1] p(2) that sh p(7) by (simp add: waiting_def)
    qed
    then show ?thesis using pass p(2,3) by blast
  qed
qed

text \<open>However the bytes arrive, the loop does what the reference does with the bytes it has read.\<close>

lemma run_spec:
  assumes "agrees s s0" "waiting r s0"
  shows "\<exists>ys xs' r' s' flow left s1. readRun M c tag ns xs r s = Some (xs', r', s', flow) \<and> xs = ys @ xs' \<and> agrees s' s1
    \<and> streamSpec M c tag (pending c 0 r @ ys) s0 = Some (left, s1, flow)
    \<and> (flow = KeepReading \<longrightarrow> waiting r' s1 \<and> left = pending c 0 r')"
  using assms
proof (induction ns arbitrary: xs r s s0)
  case Nil
  then show ?case by (rule_tac x = "[]" in exI) (simp add: waiting_def)
next
  case (Cons n ns)
  let ?k = "min n (nat (readSize c r))"
  have room: "0 < readRoom c r" using Cons.prems(2) by (simp add: waiting_def readRoom_def pool_mem_def poolSize_def)
  have "int (length (take ?k xs)) \<le> readRoom c r" using room by (auto simp: readSize_def)
  from pass_spec [OF Cons.prems this] obtain r1 s1 flow left t1 where p: "readPass M c tag (take ?k xs) r s = Some (r1, s1, flow)"
      "agrees s1 t1" "streamSpec M c tag (pending c 0 r @ take ?k xs) s0 = Some (left, t1, flow)"
      "flow = KeepReading \<longrightarrow> waiting r1 t1 \<and> left = pending c 0 r1" by blast
  show ?case
  proof (cases flow)
    case StopReading
    then show ?thesis using p room by (rule_tac x = "take ?k xs" in exI) (simp add: Let_def)
  next
    case KeepReading
    obtain ys xs' r' s' flow' left' t' where ih: "readRun M c tag ns (drop ?k xs) r1 s1 = Some (xs', r', s', flow')" "drop ?k xs = ys @ xs'"
        "agrees s' t'" "streamSpec M c tag (pending c 0 r1 @ ys) t1 = Some (left', t', flow')"
        "flow' = KeepReading \<longrightarrow> waiting r' t' \<and> left' = pending c 0 r'"
      using Cons.IH [OF p(2)] p(4) KeepReading by blast
    have "streamSpec M c tag ((pending c 0 r @ take ?k xs) @ ys) s0 = Some (left', t', flow')"
      using streamSpec_append [OF p(3), of ys] KeepReading p(4) ih(4) by simp
    moreover have "xs = (take ?k xs @ ys) @ xs'" using ih(2) by (metis append_assoc append_take_drop_id)
    ultimately show ?thesis using p(1) KeepReading ih room by (rule_tac x = "take ?k xs @ ys" in exI) (simp add: Let_def)
  qed
qed

lemma waiting_new: "ok s \<Longrightarrow> pool_mem c buf \<Longrightarrow> waiting (newReadState buf) s"
  using config [of s] by (simp add: waiting_def newReadState_def pending_def streamSpec.simps config_ok_def)

end

section \<open>What the messages do\<close>

text \<open>
  The part of a component the read loop calls, \<open>TcpTunnelComponent\<close> in the code, and what the loop of the connection
  \<open>i\<close> keeps: the component, the packets given to the router, the connection id that was last remembered with the
  generation of the index, and the number of messages, which picks the environment \<open>Es n\<close> of the next.
\<close>

record tunnel_component =
  tc_mode :: tunnel_mode
  tc_authenticated :: "tunnel_env \<Rightarrow> nat \<Rightarrow> tunnel \<Rightarrow> (tunnel \<times> bool) option"
  tc_disconnect :: "gotime \<Rightarrow> nat \<Rightarrow> tunnel \<Rightarrow> tunnel option"
  tc_remember :: "conn_id \<Rightarrow> nat \<Rightarrow> tunnel \<Rightarrow> tunnel"

definition listenComponent :: tunnel_component where
  "listenComponent = \<lparr>tc_mode = ListenMode, tc_authenticated = authenticatedListen, tc_disconnect = disconnectListen,
     tc_remember = rememberListen\<rparr>"

definition forwardComponent :: tunnel_component where
  "forwardComponent = \<lparr>tc_mode = ForwardMode, tc_authenticated = authenticatedForward, tc_disconnect = disconnectForward,
     tc_remember = rememberForward\<rparr>"

record read_world =
  rw_t :: tunnel
  rw_routed :: "packet list"
  rw_last :: "(conn_id \<times> 64 word) option"
  rw_count :: nat

text \<open>Data: the packet goes to the router; replies to its connection id will take the pool of this connection.\<close>

definition onData :: "tunnel_component \<Rightarrow> tunnel_env \<Rightarrow> addr \<Rightarrow> nat \<Rightarrow> packet \<Rightarrow> read_world \<Rightarrow> read_world option" where
  "onData C E ad i p w = do {
     let t = rw_t w;
     r \<leftarrow> unwrapData (te_crypto E) (tu_config t) (te_now E) (te_mem2 E) (tu_auth t) p;
     let t1 = t\<lparr>tu_auth := ur_am r\<rparr>;
     let q = (if pk_connID (ur_packet r) = 0 then (ur_packet r)\<lparr>pk_connID := tn_connID (tnAt t i)\<rparr> else ur_packet r);
     let remember = (pk_connID q \<noteq> 0 \<and> rw_last w \<noteq> Some (pk_connID q, tu_gen t1));
     Some (if ur_err r \<noteq> None then w\<lparr>rw_t := t1\<rparr>
       else w\<lparr>rw_t := (if remember then tc_remember C (pk_connID q) i t1 else t1),
              rw_routed := rw_routed w @ [q\<lparr>pk_srcAddr := Some ad\<rparr>],
              rw_last := (if remember then Some (pk_connID q, tu_gen t1) else rw_last w)\<rparr>)
   }"

definition tunnelDelay :: "gotime \<Rightarrow> nat \<Rightarrow> tunnel \<Rightarrow> tunnel option" where
  "tunnelDelay now i t =
     (let sent = lastHeartbeatSent (tn_hb (tnAt t i)) in
      if sent = zero_time then Some t
      else map_option (\<lambda>am. t\<lparr>tu_auth := am\<rparr>) (recordDelayMeasurement (time_sub now sent) (tu_auth t)))"

definition tunnelResponse :: "nat \<Rightarrow> tunnel \<Rightarrow> tunnel" where
  "tunnelResponse i t = setTn i ((tnAt t i)\<lparr>tn_hb := markHeartbeatResponse (tn_hb (tnAt t i))\<rparr>) t"

definition tunnelCleared :: "nat \<Rightarrow> tunnel \<Rightarrow> tunnel" where
  "tunnelCleared i t = setTn i ((tnAt t i)\<lparr>tn_hb := clearLastHeartbeatSent (tn_hb (tnAt t i))\<rparr>) t"

definition onHeartbeat :: "tunnel_mode \<Rightarrow> tunnel_env \<Rightarrow> nat \<Rightarrow> tunnel \<Rightarrow> tunnel option" where
  "onHeartbeat mode E i t =
     (case mode of
        ListenMode \<Rightarrow> do {
          (t1, ok) \<leftarrow> tunnelControl E createHeartbeat True i (fst (tnLost (te_now E) i t));
          Some (tnSent (te_now E) i t1)
        }
      | ForwardMode \<Rightarrow> do {
          t1 \<leftarrow> tunnelDelay (te_now E) i (tunnelResponse i t);
          (t2, ok) \<leftarrow> tunnelControl E createHeartbeatAck True i t1;
          Some t2
        })"

definition onTunnelAck :: "tunnel_env \<Rightarrow> nat \<Rightarrow> tunnel \<Rightarrow> tunnel option" where
  "onTunnelAck E i t = do {
     let t1 = tunnelResponse i t;
     t2 \<leftarrow> tunnelDelay (te_now E) i t1;
     Some (if lastHeartbeatSent (tn_hb (tnAt t1 i)) = zero_time then t2 else tunnelCleared i t2)
   }"

text \<open>Messages of an authenticated connection other than data.\<close>

definition onControl :: "tunnel_mode \<Rightarrow> tunnel_env \<Rightarrow> nat \<Rightarrow> bytes \<Rightarrow> tunnel \<Rightarrow> (tunnel \<times> read_flow) option" where
  "onControl mode E i m t =
     (if m ! 1 = MsgTypeHeartbeat then map_option (\<lambda>t'. (t', KeepReading)) (onHeartbeat mode E i t)
      else if m ! 1 = MsgTypeHeartbeatAck then map_option (\<lambda>t'. (t', KeepReading)) (onTunnelAck E i t)
      else if m ! 1 = MsgTypeDisconnect then Some (t, StopReading)
      else Some (t, KeepReading))"

definition handshakeType :: "tunnel_mode \<Rightarrow> byte" where
  "handshakeType mode = (case mode of ListenMode \<Rightarrow> MsgTypeAuthChallenge | ForwardMode \<Rightarrow> MsgTypeAuthResponse)"

text \<open>The first message: a challenge at the listener, the response to one at the forwarder.\<close>

definition onHandshake :: "tunnel_component \<Rightarrow> tunnel_env \<Rightarrow> nat \<Rightarrow> bytes \<Rightarrow> tunnel \<Rightarrow> (tunnel \<times> read_flow) option" where
  "onHandshake C E i m t =
     (if m ! 1 \<noteq> handshakeType (tc_mode C) then Some (t, StopReading)
      else case processAuthChallenge (te_crypto E) (te_now E) (drop 8 m) (tu_auth t) of
          (am, Inl e) \<Rightarrow> Some (t\<lparr>tu_auth := am\<rparr>, StopReading)
        | (am, Inr (f, p)) \<Rightarrow> do {
            (t1, ok) \<leftarrow> tc_authenticated C E i (setTn i ((tnAt t i)\<lparr>tn_forwardID := f, tn_poolID := p\<rparr>) (t\<lparr>tu_auth := am\<rparr>));
            Some (t1, if ok then KeepReading else StopReading)
          })"

definition handleMessage :: "tunnel_component \<Rightarrow> (nat \<Rightarrow> tunnel_env) \<Rightarrow> addr \<Rightarrow> nat \<Rightarrow> message \<Rightarrow> read_world
    \<Rightarrow> (read_world \<times> read_flow) option" where
  "handleMessage C Es ad i msg w0 =
     (let E = Es (rw_count w0); w = w0\<lparr>rw_count := Suc (rw_count w0)\<rparr> in
      case msg of
        DataMessage p \<Rightarrow> map_option (\<lambda>w'. (w', KeepReading)) (onData C E ad i p w)
      | ControlMessage m \<Rightarrow>
          map_option (\<lambda>(t, flow). (w\<lparr>rw_t := t\<rparr>, flow))
            (if tn_authed (tnAt (rw_t w) i) then onControl (tc_mode C) E i m (rw_t w) else onHandshake C E i m (rw_t w)))"

definition readOps :: "tunnel_component \<Rightarrow> (nat \<Rightarrow> tunnel_env) \<Rightarrow> addr \<Rightarrow> nat \<Rightarrow> read_world message_ops" where
  "readOps C Es ad i = \<lparr>mo_authed = (\<lambda>w. tn_authed (tnAt (rw_t w) i)), mo_fresh = (\<lambda>w. te_mem (Es (rw_count w))),
     mo_handle = handleMessage C Es ad i\<rparr>"

text \<open>The loop of a connection, over the reads \<open>ns\<close> of the bytes \<open>xs\<close>, and what it does when it ends.\<close>

definition tunnelReadLoop :: "tunnel_component \<Rightarrow> (nat \<Rightarrow> tunnel_env) \<Rightarrow> addr \<Rightarrow> nat \<Rightarrow> nat list \<Rightarrow> bytes \<Rightarrow> bytes \<Rightarrow> read_world
    \<Rightarrow> (bytes \<times> read_state \<times> read_world \<times> read_flow) option" where
  "tunnelReadLoop C Es ad i ns xs buf w =
     readRun (readOps C Es ad i) (tu_config (rw_t w)) (tu_tag (rw_t w)) ns xs (newReadState buf) w"

definition readEnd :: "tunnel_component \<Rightarrow> gotime \<Rightarrow> nat \<Rightarrow> tunnel \<Rightarrow> tunnel option" where
  "readEnd C now i t = do { t1 \<leftarrow> tc_disconnect C now i t; closeConn now i t1 }"

section \<open>Where the bytes of a packet lie does not matter\<close>

lemma pview_at: "pview p = pview q \<Longrightarrow> \<exists>b off n. q = p\<lparr>pk_buf := b, pk_offset := off, pk_length := n\<rparr>"
  by (cases p; cases q) (simp add: pview_def)

lemma unwrap_same:
  assumes full: "pk_full c p" "pk_full c q" and same: "pview p = pview q" and laws: "gcm_laws cr" and m: "pool_mem c m"
  shows "\<exists>r r'. unwrapData cr c now m am p = Some r \<and> unwrapData cr c now m am q = Some r' \<and> ur_am r = ur_am r'
    \<and> ur_err r = ur_err r' \<and> pview (ur_packet r) = pview (ur_packet r') \<and> pk_wf c (ur_packet r) \<and> pk_wf c (ur_packet r')"
proof -
  obtain r where r: "unwrapData cr c now m am p = Some r" "pk_wf c (ur_packet r)" using unwrap_total [OF laws full(1) m] by blast
  obtain r' where r': "unwrapData cr c now m am q = Some r'" "pk_wf c (ur_packet r')" using unwrap_total [OF laws full(2) m] by blast
  obtain b off n where q: "q = p\<lparr>pk_buf := b, pk_offset := off, pk_length := n\<rparr>" using pview_at [OF same] by blast
  have bytes: "pk_bytes q = pk_bytes p" using same by (simp add: pview_def)
  have wf: "pk_wf c p" "pk_wf c q" using full by (simp_all add: pk_full_def)
  have n: "n = pk_length p" using length_pk_bytes [OF wf(1)] length_pk_bytes [OF wf(2)] bytes by (simp add: q)
  have pay: "pk_bytes (p\<lparr>pk_connID := x, pk_offset := pk_offset p + 8 + 8, pk_length := k\<rparr>) =
      pk_bytes (q\<lparr>pk_connID := x, pk_offset := pk_offset q + 8 + 8, pk_length := k\<rparr>)" if "k + 16 \<le> pk_length p" for x k
  proof -
    have cut: "pk_bytes (u\<lparr>pk_connID := x, pk_offset := pk_offset u + 8 + 8, pk_length := k\<rparr>) = take (nat k) (drop 16 (pk_bytes u))"
      if "pk_wf c u" "k + 16 \<le> pk_length u" for u
    proof -
      have "nat (pk_offset u + 8 + 8) = 16 + nat (pk_offset u)" using that(1) by (simp add: pk_wf_def nat_add_distrib)
      then show ?thesis using that by (simp add: pk_bytes_def drop_take min_def)
    qed
    show ?thesis using cut [OF wf(1) that] cut [OF wf(2)] that n bytes by (simp add: q)
  qed
  have "ur_am r = ur_am r' \<and> ur_err r = ur_err r' \<and> pview (ur_packet r) = pview (ur_packet r')"
  proof (cases "activeKey am")
    case None
    then show ?thesis
      using r(1) r'(1) n pay same unfolding unwrapData_full [OF full(1)] unwrapData_full [OF full(2)] bytes Let_def
      by (auto simp: HeaderSize_def q pview_def split: if_splits)
  next
    case (Some key)
    have enc: "ur_am s = ur_am s' \<and> ur_err s = ur_err s' \<and> pview (ur_packet s) = pview (ur_packet s')"
      if "unwrapEncrypted cr c now m key d h am p = Some s" "unwrapEncrypted cr c now m key d h am q = Some s'" for d h s s'
      using that same by (auto simp: unwrapEncrypted_def Let_def option_bind_eq_Some setBuffer_def q pview_def pk_bytes_def
          split: if_splits option.splits)
    show ?thesis
      using r(1) r'(1) n same Some unfolding unwrapData_full [OF full(1)] unwrapData_full [OF full(2)] bytes Let_def
      by (auto simp: q split: if_splits dest!: enc [unfolded q])
  qed
  then show ?thesis using r r' by blast
qed

lemma pview_fields:
  assumes "pview p = pview q"
  shows "pk_connID p = pk_connID q" "pview (p\<lparr>pk_connID := x\<rparr>) = pview (q\<lparr>pk_connID := x\<rparr>)"
    "pview (p\<lparr>pk_srcAddr := a\<rparr>) = pview (q\<lparr>pk_srcAddr := a\<rparr>)"
  using pview_at [OF assms] assms by (auto simp: pview_def pk_bytes_def)

section \<open>What a component promises the read loop\<close>

definition healthy :: "router_config \<Rightarrow> nat \<Rightarrow> tunnel \<Rightarrow> bool" where
  "healthy c i t \<longleftrightarrow> tu_config t = c \<and> config_ok c \<and> conns_ok t \<and> i < length (tu_conns t)
     \<and> (word_of_int (am_delayWindowSize (tu_auth t)) :: 32 word) \<noteq> 0"

definition fine_env :: "router_config \<Rightarrow> tunnel_env \<Rightarrow> bool" where
  "fine_env c E \<longleftrightarrow> env_ok c E \<and> gcm_laws (te_crypto E) \<and> hmac_laws (te_crypto E)"

text \<open>What no message changes.\<close>

definition frame :: "tunnel \<Rightarrow> router_config \<times> tunnel_mode \<times> nat \<times> int \<times> bytes" where
  "frame t = (tu_config t, tu_mode t, length (tu_conns t), am_delayWindowSize (tu_auth t), am_secret (tu_auth t))"

lemma healthy_frame: "healthy c i t \<Longrightarrow> frame t' = frame t \<Longrightarrow> conns_ok t' \<Longrightarrow> healthy c i t'"
  by (simp add: healthy_def frame_def)

lemma frame_fields [simp]:
  "frame (setTn i x t) = frame t" "frame (setPool k p t) = frame t" "frame (t\<lparr>tu_stats := st\<rparr>) = frame t"
  "frame (t\<lparr>tu_qstats := qs\<rparr>) = frame t" "frame (forgetPool k t) = frame t" "frame (t\<lparr>tu_table := tab\<rparr>) = frame t"
  "frame (t\<lparr>tu_index := ix\<rparr>) = frame t" "frame (rememberConnIDPool cid k t) = frame t" "frame (addToPool i t) = frame t"
  "frame (t\<lparr>tu_auth := (tu_auth t)\<lparr>am_dedup := d\<rparr>\<rparr>) = frame t"
  "frame (t\<lparr>tu_auth := (tu_auth t)\<lparr>am_challengeCache := cc\<rparr>\<rparr>) = frame t"
  by (simp_all add: frame_def setTn_def setPool_def forgetPool_def rememberConnIDPool_def addToPool_def Let_def)

lemma frame_write: "tunnelWrite control now i p t = Some (t', ok) \<Longrightarrow> frame t' = frame t"
  by (auto simp: tunnelWrite_def option_bind_eq_Some)

lemma frame_close: "closeConn now i t = Some t' \<Longrightarrow> frame t' = frame t"
  by (auto simp: closeConn_def option_bind_eq_Some)

lemma frame_lost: "frame (fst (tnLost now i t)) = frame t"
  by (simp add: tnLost_def Let_def split: prod.split)

lemma frame_sent: "frame (tnSent now i t) = frame t"
  by (simp add: tnSent_def Let_def)

lemma frame_control: "tunnelControl E f control i t = Some (t', ok) \<Longrightarrow> frame t' = frame t"
  by (auto simp: tunnelControl_def option_bind_eq_Some frame_write)

lemma frame_disconnectListen: "disconnectListen now i t = Some t' \<Longrightarrow> frame t' = frame t"
  by (auto simp: disconnectListen_def Let_def frame_close split: option.splits if_splits dest!: frame_close)

lemma frame_disconnectForward: "disconnectForward now i t = Some t' \<Longrightarrow> frame t' = frame t"
  by (auto simp: disconnectForward_def Let_def split: option.splits if_splits dest!: frame_close)

lemma conns_ok_same: "tu_conns t' = tu_conns t \<Longrightarrow> conns_ok t' = conns_ok t"
  by (simp add: conns_ok_def)

lemma conns_ok_queue:
  assumes "conns_ok t" "i < length (tu_conns t)" "tn_queue x = tn_queue (tnAt t i)" "tn_closed x = tn_closed (tnAt t i)"
  shows "conns_ok (setTn i x t)"
  using conns_ok_set [OF assms(1), of x i] conns_ok_at [OF assms(1,2)] assms(3,4) by simp

text \<open>The interface: no call panics, and the component stays healthy.\<close>

locale tunnel_interface =
  fixes C :: tunnel_component
  assumes authenticated: "healthy c i t \<Longrightarrow> fine_env c E \<Longrightarrow>
      \<exists>t' b. tc_authenticated C E i t = Some (t', b) \<and> healthy c i t' \<and> frame t' = frame t"
    and disconnect: "healthy c i t \<Longrightarrow> \<exists>t'. tc_disconnect C now i t = Some t' \<and> healthy c i t' \<and> frame t' = frame t"
    and remember: "\<exists>ix. tc_remember C x i t = t\<lparr>tu_index := ix\<rparr>"

lemma healthy_index [simp]: "healthy c i (t\<lparr>tu_index := ix\<rparr>) = healthy c i t"
  by (simp add: healthy_def conns_ok_def)

lemma authenticatedListen_healthy:
  assumes t: "healthy c i t" and E: "fine_env c E"
  shows "\<exists>t' b. authenticatedListen E i t = Some (t', b) \<and> healthy c i t' \<and> frame t' = frame t"
proof -
  have ok: "conns_ok t" "i < length (tu_conns t)" "env_ok (tu_config t) E" "config_ok (tu_config t)" "hmac_laws (te_crypto E)"
    using t E by (auto simp: healthy_def fine_env_def)
  let ?f = "tn_forwardID (tnAt t i)" and ?p = "tn_poolID (tnAt t i)"
  obtain am res where ch: "challengePacket E MsgTypeAuthResponse ?f ?p t = Some (am, res)"
    using challenge_ok [OF ok(3-5)] by blast
  have am: "frame (t\<lparr>tu_auth := am\<rparr>) = frame t"
    using ch by (auto simp: challengePacket_def createAuthChallenge_def Let_def option_bind_eq_Some frame_def split: option.splits)
  let ?t1 = "t\<lparr>tu_auth := am\<rparr>"
  have t1: "conns_ok ?t1" "i < length (tu_conns ?t1)" using ok by simp_all
  show ?thesis
  proof (cases res)
    case (Inl e)
    then show ?thesis using ch am healthy_frame [OF t am] t1(1) by (intro exI [of _ ?t1] exI [of _ False]) (simp add: authenticatedListen_def)
  next
    case (Inr p)
    obtain t2 w where w: "tunnelWrite False (te_now E) i p ?t1 = Some (t2, w)" "conns_ok t2"
      using write_ok [OF t1, of False p "te_now E"] by blast
    have f2: "frame t2 = frame t" using frame_write [OF w(1)] am by simp
    then have i2: "i < length (tu_conns t2)" using ok(2) by (simp add: frame_def)
    show ?thesis
    proof (cases w)
      case False
      obtain t3 where d: "disconnectListen (te_now E) i t2 = Some t3" "conns_ok t3"
        using disconnect_ok(1) [OF w(2) i2] by blast
      have "authenticatedListen E i t = Some (t3, False)"
        using ch Inr w(1) False d(1) by (simp add: authenticatedListen_def Let_def)
      moreover have f3: "frame t3 = frame t" using frame_disconnectListen [OF d(1)] f2 by simp
      moreover note healthy_frame [OF t f3 d(2)]
      ultimately show ?thesis by (intro exI conjI)
    next
      case True
      let ?t3 = "addToPool i t2"
      have same: "tu_conns ?t3 = tu_conns t2" by (simp add: addToPool_def Let_def setPool_def)
      let ?t4 = "setTn i ((tnAt ?t3 i)\<lparr>tn_authed := True\<rparr>) ?t3"
      have c4: "conns_ok ?t4" using w(2) i2 same by (intro conns_ok_queue) (simp_all add: conns_ok_same [OF same])
      have f4: "frame ?t4 = frame t" using f2 by simp
      have "authenticatedListen E i t = Some (?t4, True)"
        using ch Inr w(1) True by (simp add: authenticatedListen_def Let_def)
      then show ?thesis using healthy_frame [OF t f4 c4] f4 by (intro exI conjI)
    qed
  qed
qed

interpretation listener: tunnel_interface listenComponent
proof
  show "\<exists>t' b. tc_authenticated listenComponent E i t = Some (t', b) \<and> healthy c i t' \<and> frame t' = frame t"
    if "healthy c i t" "fine_env c E" for c i t E
    using authenticatedListen_healthy [OF that] by (simp add: listenComponent_def)
  show "\<exists>t'. tc_disconnect listenComponent now i t = Some t' \<and> healthy c i t' \<and> frame t' = frame t" if "healthy c i t" for c i t now
    using disconnect_ok(1) [of t i now] frame_disconnectListen healthy_frame [OF that] that
    by (fastforce simp: listenComponent_def healthy_def)
  have "rememberListen x i t = t\<lparr>tu_index := tu_index (rememberListen x i t)\<rparr>" for i t x
    by (simp add: rememberListen_def split: option.split)
  then show "\<exists>ix. tc_remember listenComponent x i t = t\<lparr>tu_index := ix\<rparr>" for i t x
    unfolding listenComponent_def tunnel_component.simps by blast
qed

interpretation forwarder: tunnel_interface forwardComponent
proof
  show "\<exists>t' b. tc_authenticated forwardComponent E i t = Some (t', b) \<and> healthy c i t' \<and> frame t' = frame t"
    if "healthy c i t" "fine_env c E" for c i t E
    using that conns_ok_queue [of t i "(tnAt t i)\<lparr>tn_authed := True\<rparr>"] healthy_frame [OF that(1)]
    by (intro exI [of _ "setTn i ((tnAt t i)\<lparr>tn_authed := True\<rparr>) t"] exI [of _ True])
      (simp add: forwardComponent_def authenticatedForward_def healthy_def)
  show "\<exists>t'. tc_disconnect forwardComponent now i t = Some t' \<and> healthy c i t' \<and> frame t' = frame t" if "healthy c i t" for c i t now
    using disconnect_ok(2) [of t i now] frame_disconnectForward healthy_frame [OF that] that
    by (fastforce simp: forwardComponent_def healthy_def)
  have "rememberForward x i t = t\<lparr>tu_index := tu_index (rememberForward x i t)\<rparr>" for i t x
    by (simp add: rememberForward_def rememberConnIDPool_def split: option.split)
  then show "\<exists>ix. tc_remember forwardComponent x i t = t\<lparr>tu_index := ix\<rparr>" for i t x
    unfolding forwardComponent_def tunnel_component.simps by blast
qed

text \<open>With such a component the handler of messages keeps its promises.\<close>

definition world_view :: "read_world \<Rightarrow> tunnel \<times> (bytes \<times> packet) list \<times> (conn_id \<times> 64 word) option \<times> nat" where
  "world_view w = (rw_t w, map pview (rw_routed w), rw_last w, rw_count w)"

definition reader_ok :: "(nat \<Rightarrow> tunnel_env) \<Rightarrow> router_config \<Rightarrow> nat \<Rightarrow> read_world \<Rightarrow> bool" where
  "reader_ok Es c i w \<longleftrightarrow> healthy c i (rw_t w) \<and> (\<forall>n. fine_env c (Es n))"

lemma world_view_eq:
  "world_view w = world_view w' \<longleftrightarrow> rw_t w = rw_t w' \<and> map pview (rw_routed w) = map pview (rw_routed w') \<and> rw_last w = rw_last w'
    \<and> rw_count w = rw_count w'"
  by (simp add: world_view_def)

lemma unwrap_frame: "unwrapData cr c now m (tu_auth t) p = Some r \<Longrightarrow> frame (t\<lparr>tu_auth := ur_am r\<rparr>) = frame t"
  using unwrapData_am [of cr c now m "tu_auth t" p r] by (auto simp: frame_def)

lemma process_frame: "processAuthChallenge cr now d (tu_auth t) = (am, r) \<Longrightarrow> frame (t\<lparr>tu_auth := am\<rparr>) = frame t"
  by (auto simp: processAuthChallenge_def frame_def Let_def split: if_splits)

lemma lost_healthy: "healthy c i t \<Longrightarrow> healthy c i (fst (tnLost now i t)) \<and> frame (fst (tnLost now i t)) = frame t"
  using healthy_frame [OF _ frame_lost, of c i t now] conns_ok_queue [of "t\<lparr>tu_stats := st\<rparr>" i for st]
  by (auto simp: frame_lost tnLost_def Let_def healthy_def split: prod.split)

lemma sent_healthy: "healthy c i t \<Longrightarrow> healthy c i (tnSent now i t)"
  using healthy_frame [OF _ frame_sent, of c i t now] conns_ok_queue [of "t\<lparr>tu_stats := st\<rparr>" i for st]
  by (auto simp: tnSent_def Let_def healthy_def)

lemma response_healthy: "healthy c i t \<Longrightarrow> healthy c i (tunnelResponse i t) \<and> healthy c i (tunnelCleared i t)"
  using conns_ok_queue [of t i] healthy_frame [of c i t] by (simp add: tunnelResponse_def tunnelCleared_def healthy_def)

lemma delay_healthy:
  assumes "healthy c i t"
  shows "\<exists>t'. tunnelDelay now i t = Some t' \<and> healthy c i t' \<and> frame t' = frame t"
  using assms by (auto simp: tunnelDelay_def recordDelayMeasurement_def Let_def healthy_def frame_def conns_ok_def)

lemma control_healthy:
  assumes t: "healthy c i t" and E: "fine_env c E" and f: "f = createHeartbeat \<or> f = createHeartbeatAck"
  shows "\<exists>t' b. tunnelControl E f True i t = Some (t', b) \<and> healthy c i t' \<and> frame t' = frame t"
proof -
  obtain t' b where r: "tunnelControl E f True i t = Some (t', b)" "conns_ok t'"
    using control_ok [of t i E f] t E f by (auto simp: healthy_def fine_env_def)
  then show ?thesis using frame_control [OF r(1)] healthy_frame [OF t] by blast
qed

lemma onControl_healthy:
  assumes t: "healthy c i t" and E: "fine_env c E"
  shows "\<exists>t' f. onControl mode E i m t = Some (t', f) \<and> healthy c i t' \<and> frame t' = frame t"
proof -
  have hb: "\<exists>t'. onHeartbeat mode E i t = Some t' \<and> healthy c i t' \<and> frame t' = frame t"
  proof (cases mode)
    case ListenMode
    obtain t1 b where "tunnelControl E createHeartbeat True i (fst (tnLost (te_now E) i t)) = Some (t1, b)" "healthy c i t1"
        "frame t1 = frame t"
      using control_healthy [OF _ E, of i "fst (tnLost (te_now E) i t)" createHeartbeat] lost_healthy [OF t, of "te_now E"] by auto
    then show ?thesis using ListenMode sent_healthy [of c i t1 "te_now E"] frame_sent [of "te_now E" i t1] by (simp add: onHeartbeat_def)
  next
    case ForwardMode
    obtain t1 where t1: "tunnelDelay (te_now E) i (tunnelResponse i t) = Some t1" "healthy c i t1" "frame t1 = frame t"
      using delay_healthy [of c i "tunnelResponse i t" "te_now E"] response_healthy [OF t] by (auto simp: tunnelResponse_def)
    then show ?thesis using ForwardMode control_healthy [OF t1(2) E, of createHeartbeatAck] by (auto simp: onHeartbeat_def)
  qed
  have "\<exists>t'. onTunnelAck E i t = Some t' \<and> healthy c i t' \<and> frame t' = frame t"
  proof -
    obtain t1 where "tunnelDelay (te_now E) i (tunnelResponse i t) = Some t1" "healthy c i t1" "frame t1 = frame t"
      using delay_healthy [of c i "tunnelResponse i t" "te_now E"] response_healthy [OF t] by (auto simp: tunnelResponse_def)
    then show ?thesis using response_healthy [of c i t1] by (auto simp: onTunnelAck_def tunnelCleared_def)
  qed
  then show ?thesis using hb t by (auto simp: onControl_def)
qed

context tunnel_interface
begin

lemma onHandshake_healthy:
  assumes t: "healthy c i t" and E: "fine_env c E"
  shows "\<exists>t' f. onHandshake C E i m t = Some (t', f) \<and> healthy c i t' \<and> frame t' = frame t"
proof -
  obtain am r where p: "processAuthChallenge (te_crypto E) (te_now E) (drop 8 m) (tu_auth t) = (am, r)" by fastforce
  let ?t1 = "t\<lparr>tu_auth := am\<rparr>"
  have f1: "frame ?t1 = frame t" by (rule process_frame [OF p])
  have t1: "healthy c i ?t1" using healthy_frame [OF t f1] t by (simp add: healthy_def)
  show ?thesis
  proof (cases r)
    case (Inl e)
    then show ?thesis using p t t1 f1 by (auto simp: onHandshake_def)
  next
    case (Inr x)
    obtain f pl where x: "x = (f, pl)" by fastforce
    let ?t2 = "setTn i ((tnAt t i)\<lparr>tn_forwardID := f, tn_poolID := pl\<rparr>) ?t1"
    have "healthy c i ?t2" using t1 conns_ok_queue [of ?t1 i] healthy_frame [OF t1, of ?t2] by (simp add: healthy_def)
    from authenticated [OF this E] show ?thesis using p Inr x t f1 by (auto simp: onHandshake_def)
  qed
qed

lemma onData_healthy:
  assumes t: "healthy c i (rw_t w)" and E: "fine_env c E" and v: "world_view w = world_view w'"
    and m: "same_message c (DataMessage p) (DataMessage q)"
  shows "\<exists>x x'. onData C E ad i p w = Some x \<and> onData C E ad i q w' = Some x' \<and> healthy c i (rw_t x) \<and> world_view x = world_view x'
    \<and> frame (rw_t x) = frame (rw_t w)"
proof -
  let ?t = "rw_t w"
  have cfg: "tu_config ?t = c" using t by (simp add: healthy_def)
  have w': "rw_t w' = ?t" "rw_last w' = rw_last w" "map pview (rw_routed w') = map pview (rw_routed w)" "rw_count w' = rw_count w"
    using v by (simp_all add: world_view_eq)
  have full: "pk_full c p" "pk_full c q" "pview p = pview q" using m by simp_all
  have laws: "gcm_laws (te_crypto E)" "pool_mem c (te_mem2 E)" using E by (auto simp: fine_env_def env_ok_def)
  obtain r r' where r: "unwrapData (te_crypto E) c (te_now E) (te_mem2 E) (tu_auth ?t) p = Some r"
      "unwrapData (te_crypto E) c (te_now E) (te_mem2 E) (tu_auth ?t) q = Some r'" "ur_am r' = ur_am r" "ur_err r' = ur_err r"
      "pview (ur_packet r) = pview (ur_packet r')"
    using unwrap_same [OF full laws] by metis
  let ?t1 = "?t\<lparr>tu_auth := ur_am r\<rparr>"
  have f1: "frame ?t1 = frame ?t" by (rule unwrap_frame [OF r(1)])
  moreover have "conns_ok ?t1" using t by (simp add: healthy_def)
  ultimately have t1: "healthy c i ?t1" by (rule healthy_frame [OF t])
  note id = pview_fields [OF r(5)]
  show ?thesis
  proof (cases "ur_err r")
    case (Some e)
    then show ?thesis using r t1 f1 w' by (simp add: onData_def cfg Let_def world_view_eq)
  next
    case None
    let ?q = "\<lambda>r. if pk_connID (ur_packet r) = 0 then (ur_packet r)\<lparr>pk_connID := tn_connID (tnAt ?t i)\<rparr> else ur_packet r"
    have q: "pview (?q r) = pview (?q r')" using id r(5) by simp
    note q' = pview_fields [OF q]
    have rem: "healthy c i (tc_remember C x i ?t1) \<and> frame (tc_remember C x i ?t1) = frame ?t1" for x
      using remember [of x i ?t1] t1 by auto
    show ?thesis
      using r t1 f1 w' None q' rem
      by (simp add: onData_def cfg Let_def world_view_eq)
  qed
qed

lemma message_handled:
  assumes ok: "reader_ok Es c i w" and v: "world_view w = world_view w'" and m: "same_message c a b"
  shows "\<exists>x x' f. handleMessage C Es ad i a w = Some (x, f) \<and> handleMessage C Es ad i b w' = Some (x', f)
    \<and> reader_ok Es c i x \<and> world_view x = world_view x' \<and> frame (rw_t x) = frame (rw_t w)"
proof -
  let ?E = "Es (rw_count w)" and ?w = "w\<lparr>rw_count := Suc (rw_count w)\<rparr>" and ?w' = "w'\<lparr>rw_count := Suc (rw_count w')\<rparr>"
  have E: "fine_env c ?E" "\<forall>n. fine_env c (Es n)" and t: "healthy c i (rw_t w)" using ok by (auto simp: reader_ok_def)
  have vw: "world_view ?w = world_view ?w'" "rw_t w' = rw_t w" "rw_count w' = rw_count w" using v by (simp_all add: world_view_eq)
  show ?thesis
  proof (cases a)
    case (DataMessage p)
    then obtain q where q: "b = DataMessage q" using m by (cases b) auto
    have t': "healthy c i (rw_t ?w)" using t by simp
    from onData_healthy [OF t' E(1) vw(1) m [unfolded DataMessage q], of ad] obtain x x' where
      "onData C ?E ad i p ?w = Some x" "onData C ?E ad i q ?w' = Some x'" "healthy c i (rw_t x)" "world_view x = world_view x'"
      "frame (rw_t x) = frame (rw_t w)" by auto
    then show ?thesis using DataMessage q E(2) vw(3) by (simp add: handleMessage_def Let_def reader_ok_def)
  next
    case (ControlMessage d)
    then have b: "b = ControlMessage d" using m by (cases b) auto
    let ?r = "if tn_authed (tnAt (rw_t w) i) then onControl (tc_mode C) ?E i d (rw_t w) else onHandshake C ?E i d (rw_t w)"
    obtain t' f where r: "?r = Some (t', f)" "healthy c i t'" "frame t' = frame (rw_t w)"
      using onControl_healthy [OF t E(1)] onHandshake_healthy [OF t E(1)] by (cases "tn_authed (tnAt (rw_t w) i)") (simp_all, blast+)
    have same: "rw_t (x\<lparr>rw_count := n\<rparr>) = rw_t x" for x :: read_world and n by simp
    have h: "handleMessage C Es ad i a w = Some (?w\<lparr>rw_t := t'\<rparr>, f)" "handleMessage C Es ad i b w' = Some (?w'\<lparr>rw_t := t'\<rparr>, f)"
      unfolding handleMessage_def Let_def ControlMessage b message.case same vw(2,3) r(1) by simp_all
    show ?thesis unfolding h using r E(2) vw(1) by (simp add: reader_ok_def world_view_eq)
  qed
qed

end

sublocale tunnel_interface \<subseteq> reader: message_handler "readOps C Es ad i" c tag "reader_ok Es c i" world_view for Es ad i c tag
proof
  show "config_ok c" if "reader_ok Es c i w" for w using that by (simp add: reader_ok_def healthy_def)
  show "pool_mem c (mo_fresh (readOps C Es ad i) w)" if "reader_ok Es c i w" for w
    using that by (auto simp: reader_ok_def readOps_def fine_env_def env_ok_def)
  show "mo_authed (readOps C Es ad i) w = mo_authed (readOps C Es ad i) w'" if "world_view w = world_view w'" for w w'
    using that by (simp add: readOps_def world_view_eq)
  show "\<exists>t t' f. mo_handle (readOps C Es ad i) m w = Some (t, f) \<and> mo_handle (readOps C Es ad i) m' w' = Some (t', f)
      \<and> reader_ok Es c i t \<and> reader_ok Es c i t' \<and> world_view t = world_view t'"
    if "reader_ok Es c i w" "reader_ok Es c i w'" "world_view w = world_view w'" "same_message c m m'" for w w' m m'
    using message_handled [OF that(1,3,4), of ad] by (fastforce simp: readOps_def reader_ok_def world_view_eq)
qed

section \<open>Properties of the read loop\<close>

lemma pending_new: "pending c 0 (newReadState buf) = []"
  by (simp add: pending_def newReadState_def)

context tunnel_interface
begin

lemma reading:
  assumes t: "healthy c i (rw_t w)" and E: "\<forall>n. fine_env c (Es n)" and buf: "pool_mem c buf"
  shows "\<exists>ys xs' r x flow left x0. tunnelReadLoop C Es ad i ns xs buf w = Some (xs', r, x, flow) \<and> xs = ys @ xs'
    \<and> streamSpec (readOps C Es ad i) c (tu_tag (rw_t w)) ys w = Some (left, x0, flow) \<and> world_view x = world_view x0
    \<and> healthy c i (rw_t x) \<and> (flow = KeepReading \<longrightarrow> pending c 0 r = left)"
proof -
  have ok: "reader_ok Es c i w" using t E by (simp add: reader_ok_def)
  have a: "reader.agrees Es c i w w" using ok by (simp add: reader.agrees_def)
  note w = reader.waiting_new [OF ok buf, of ad "tu_tag (rw_t w)"]
  obtain ys xs' r x flow left x0 where
    "readRun (readOps C Es ad i) c (tu_tag (rw_t w)) ns xs (newReadState buf) w = Some (xs', r, x, flow)" "xs = ys @ xs'"
    "reader.agrees Es c i x x0" "streamSpec (readOps C Es ad i) c (tu_tag (rw_t w)) ([] @ ys) w = Some (left, x0, flow)"
    "flow = KeepReading \<longrightarrow> left = pending c 0 r"
    using reader.run_spec [OF a w, unfolded pending_new, of ns xs] by blast
  moreover have "tu_config (rw_t w) = c" using t by (simp add: healthy_def)
  ultimately show ?thesis by (auto simp: tunnelReadLoop_def reader.agrees_def reader_ok_def)
qed

end

lemma loop_reading:
  assumes "C = listenComponent \<or> C = forwardComponent" "healthy c i (rw_t w)" "\<forall>n. fine_env c (Es n)" "pool_mem c buf"
  shows "\<exists>ys xs' r x flow left x0. tunnelReadLoop C Es ad i ns xs buf w = Some (xs', r, x, flow) \<and> xs = ys @ xs'
    \<and> streamSpec (readOps C Es ad i) c (tu_tag (rw_t w)) ys w = Some (left, x0, flow) \<and> world_view x = world_view x0
    \<and> healthy c i (rw_t x) \<and> (flow = KeepReading \<longrightarrow> pending c 0 r = left)"
  using listener.reading [OF assms(2-4), of ad ns xs] forwarder.reading [OF assms(2-4), of ad ns xs] assms(1) by blast

text \<open>C5. Reading from a TCP tunnel does not depend on how the bytes are cut up: whatever the socket returns at a time, the read
  loop of the listener and of the forwarder never panics, and the state, the packets given to the router and whether the
  connection goes on are those of a loop that gets all the bytes at once and each message in a buffer of its own.\<close>

theorem reading_ignores_chunks:
  assumes "C = listenComponent \<or> C = forwardComponent" "healthy c i (rw_t w)" "\<forall>n. fine_env c (Es n)" "pool_mem c buf"
  shows "\<exists>ys xs' r x flow left x0. tunnelReadLoop C Es ad i ns xs buf w = Some (xs', r, x, flow) \<and> xs = ys @ xs'
    \<and> streamSpec (readOps C Es ad i) c (tu_tag (rw_t w)) ys w = Some (left, x0, flow) \<and> world_view x = world_view x0
    \<and> (flow = KeepReading \<longrightarrow> pending c 0 r = left)"
  using loop_reading [OF assms, of ad ns xs] by blast

text \<open>The first message of a connection that is not authenticated.\<close>

lemma spec_unauthenticated:
  assumes s: "streamSpec (readOps C Es ad i) c tag ys w = Some (left, x, flow)" and au: "\<not> tn_authed (tnAt (rw_t w) i)"
    and i: "i < length (tu_conns (rw_t w))"
  shows "rw_routed x = rw_routed w \<and> \<not> tn_authed (tnAt (rw_t x) i)
    \<or> 96 \<le> length ys \<and> ys ! 1 = handshakeType (tc_mode C)
      \<and> macOk (te_crypto (Es (rw_count w))) (am_secret (tu_auth (rw_t w))) (take 88 (drop 8 ys))"
proof -
  let ?M = "readOps C Es ad i"
  have au': "\<not> mo_authed ?M w" using au by (simp add: readOps_def)
  show ?thesis
  proof (cases "length ys < 8 \<or> frameLength ys \<noteq> 88 \<or> rc_bufferSize c < 96 \<or> length ys < 96")
    case True
    then have "x = w"
      using s au' by (auto simp: streamSpec.simps [of ?M c tag ys] badLength_def HandshakeSize_def split: if_splits)
    then show ?thesis using au by simp
  next
    case False
    let ?m = "take 96 ys"
    let ?w = "w\<lparr>rw_count := Suc (rw_count w)\<rparr>" and ?E = "Es (rw_count w)"
    have m: "messageOf c tag False ?m = ControlMessage ?m" by (simp add: messageOf_def)
    have h: "handleMessage C Es ad i (ControlMessage ?m) w = map_option (\<lambda>(t, flow). (?w\<lparr>rw_t := t\<rparr>, flow)) (onHandshake C ?E i ?m (rw_t w))"
      using au by (simp add: handleMessage_def)
    have fl: "frameLength ys = 88" using False by simp
    have n96: "nat (8 + 88) = 96" by simp
    have s': "(case handleMessage C Es ad i (ControlMessage ?m) w of None \<Rightarrow> None
        | Some (s', StopReading) \<Rightarrow> Some (drop 96 ys, s', StopReading)
        | Some (s', KeepReading) \<Rightarrow> streamSpec ?M c tag (drop 96 ys) s') = Some (left, x, flow)"
      using s False au' unfolding streamSpec.simps [of ?M c tag ys] fl n96 by (simp add: badLength_def HandshakeSize_def m) (simp add: readOps_def)
    show ?thesis
    proof (cases "?m ! 1 = handshakeType (tc_mode C) \<and> (\<exists>am r. processAuthChallenge (te_crypto ?E) (te_now ?E) (drop 8 ?m) (tu_auth (rw_t w)) = (am, Inr r))")
      case True
      moreover have "drop 8 ?m = take 88 (drop 8 ys)" by (simp add: drop_take)
      ultimately have "macOk (te_crypto ?E) (am_secret (tu_auth (rw_t w))) (take 88 (drop 8 ys))" using processAuth_mac by fastforce
      then show ?thesis using True False by simp
    next
      case bad: False
      then have "\<exists>am. onHandshake C ?E i ?m (rw_t w) = Some ((rw_t w)\<lparr>tu_auth := am\<rparr>, StopReading)"
      proof (cases "?m ! 1 = handshakeType (tc_mode C)")
        case False
        then have "onHandshake C ?E i ?m (rw_t w) = Some ((rw_t w)\<lparr>tu_auth := tu_auth (rw_t w)\<rparr>, StopReading)"
          by (simp add: onHandshake_def)
        then show ?thesis by blast
      next
        case True
        then show ?thesis using bad by (auto simp: onHandshake_def split: prod.split sum.split)
      qed
      then show ?thesis using s' h au by auto
    qed
  qed
qed

text \<open>C4. A TCP tunnel needs the shared secret: whatever bytes arrive on a new connection, in whatever chunks, the read loop
  of the listener and of the forwarder authenticates it or gives a packet of it to the router only if the first message
  is a handshake with a code that is right under the secret.\<close>

theorem tcp_tunnel_needs_secret:
  assumes "C = listenComponent \<or> C = forwardComponent" "healthy c i (rw_t w)" "\<forall>n. fine_env c (Es n)" "pool_mem c buf"
    and new: "\<not> tn_authed (tnAt (rw_t w) i)" "rw_routed w = []"
  shows "\<exists>xs' r x flow. tunnelReadLoop C Es ad i ns xs buf w = Some (xs', r, x, flow)
    \<and> (rw_routed x \<noteq> [] \<or> tn_authed (tnAt (rw_t x) i) \<longrightarrow>
        96 \<le> length xs \<and> xs ! 1 = handshakeType (tc_mode C)
        \<and> macOk (te_crypto (Es (rw_count w))) (am_secret (tu_auth (rw_t w))) (take 88 (drop 8 xs)))"
proof -
  obtain ys xs' r x flow left x0 where r: "tunnelReadLoop C Es ad i ns xs buf w = Some (xs', r, x, flow)" "xs = ys @ xs'"
      "streamSpec (readOps C Es ad i) c (tu_tag (rw_t w)) ys w = Some (left, x0, flow)" "world_view x = world_view x0"
    using loop_reading [OF assms(1-4), of ad ns xs] by blast
  have i: "i < length (tu_conns (rw_t w))" using assms(2) by (simp add: healthy_def)
  have same: "rw_t x = rw_t x0" "rw_routed x = [] \<longleftrightarrow> rw_routed x0 = []" using r(4) by (auto simp: world_view_eq)
  have pre: "xs ! 1 = ys ! 1 \<and> take 88 (drop 8 xs) = take 88 (drop 8 ys)" if "96 \<le> length ys"
    using that by (simp add: r(2) nth_append)
  show ?thesis using r(1,2) spec_unauthenticated [OF r(3) new(1) i] new(2) same pre by auto
qed


section \<open>The tables of the listener\<close>

lemma streamSpec_keeps:
  assumes "\<And>m s s' f. P s \<Longrightarrow> int (length m) \<le> rc_bufferSize c \<Longrightarrow>
      mo_handle M (messageOf c tag (mo_authed M s) m) s = Some (s', f) \<Longrightarrow> P s'"
    and "streamSpec M c tag xs s = Some (left, s1, flow)" and "P s"
  shows "P s1"
  using assms
proof (induction M c tag xs s rule: streamSpec.induct)
  case (1 M c tag xs s)
  let ?n = "8 + frameLength xs"
  let ?h = "mo_handle M (messageOf c tag (mo_authed M s) (take (nat ?n) xs)) s"
  show ?case
  proof (cases "length xs < 8 \<or> badLength c (mo_authed M s) (frameLength xs) \<or> rc_bufferSize c < ?n \<or> int (length xs) < ?n")
    case True
    then show ?thesis using "1.prems"(2,3) by (auto simp: streamSpec.simps [of M c tag xs] split: if_splits)
  next
    case False
    then have now: "streamSpec M c tag xs s = (case ?h of None \<Rightarrow> None
        | Some (s', StopReading) \<Rightarrow> Some (drop (nat ?n) xs, s', StopReading)
        | Some (s', KeepReading) \<Rightarrow> streamSpec M c tag (drop (nat ?n) xs) s')"
      by (simp add: streamSpec.simps [of M c tag xs])
    obtain s' f where h: "?h = Some (s', f)" using "1.prems"(2) now by (cases ?h) auto
    have P: "P s'" by (rule "1.prems"(1) [OF "1.prems"(3) _ h]) (use False in auto)
    show ?thesis
    proof (cases f)
      case StopReading
      then show ?thesis using "1.prems"(2) now h P by simp
    next
      case KeepReading
      have nb: "\<not> length xs < 8" "\<not> badLength c (mo_authed M s) (frameLength xs)" "\<not> rc_bufferSize c < ?n" "\<not> int (length xs) < ?n"
        using False by auto
      show ?thesis using "1.IH" [OF nb h refl KeepReading "1.prems"(1) _ P] "1.prems"(2) now h KeepReading by simp
    qed
  qed
qed

lemma core_response: "core (tunnelResponse i t) = core t" "core (tunnelCleared i t) = core t"
  by (simp_all add: tunnelResponse_def tunnelCleared_def core_setTn)

lemma core_delay: "tunnelDelay now i t = Some t' \<Longrightarrow> core t' = core t"
  by (auto simp: tunnelDelay_def Let_def split: if_splits)

lemma core_onControl:
  assumes "onControl mode E i m t = Some (t', f)"
  shows "core t' = core t"
proof -
  have ack: "core u = core t" if "onTunnelAck E i t = Some u" for u
    using that core_delay [of "te_now E" i "tunnelResponse i t"]
    by (auto simp: onTunnelAck_def Let_def option_bind_eq_Some core_response)
  have hb: "core u = core t" if "onHeartbeat mode E i t = Some u" for u
  proof (cases mode)
    case ListenMode
    obtain t1 n where t1: "tnLost (te_now E) i t = (t1, n)" by fastforce
    then show ?thesis using that ListenMode core_lost [OF t1] core_control [of E createHeartbeat True i t1] core_sent
      by (auto simp: onHeartbeat_def option_bind_eq_Some)
  next
    case ForwardMode
    then show ?thesis using that core_delay [of "te_now E" i "tunnelResponse i t"] core_control [of E createHeartbeatAck True i]
      by (auto simp: onHeartbeat_def option_bind_eq_Some core_response)
  qed
  show ?thesis using assms ack hb by (auto simp: onControl_def split: if_splits)
qed

lemma listen_message:
  assumes t: "listen_tables (rw_t w)" and i: "i < length (tu_conns (rw_t w))"
    and r: "handleMessage listenComponent Es ad i m w = Some (x, f)"
  shows "listen_tables (rw_t x)"
proof -
  let ?E = "Es (rw_count w)" and ?t = "rw_t w"
  show ?thesis
  proof (cases m)
    case (DataMessage p)
    obtain r' where d: "unwrapData (te_crypto ?E) (tu_config ?t) (te_now ?E) (te_mem2 ?E) (tu_auth ?t) p = Some r'"
      using r by (auto simp: DataMessage handleMessage_def onData_def Let_def option_bind_eq_Some)
    let ?t1 = "?t\<lparr>tu_auth := ur_am r'\<rparr>"
    have t1: "listen_tables ?t1" by (rule listen_tables_core [OF _ t]) simp
    have "rw_t x = ?t1 \<or> (\<exists>cid. rw_t x = rememberListen cid i ?t1)"
      using r d by (auto simp: DataMessage handleMessage_def onData_def Let_def listenComponent_def split: if_splits)
    then show ?thesis using t1 listen_remember [OF t1] by auto
  next
    case (ControlMessage d)
    show ?thesis
    proof (cases "tn_authed (tnAt ?t i)")
      case True
      then have "onControl ListenMode ?E i d ?t = Some (rw_t x, f)"
        using r by (auto simp: ControlMessage handleMessage_def listenComponent_def Let_def)
      note c = core_onControl [OF this]
      then show ?thesis using listen_tables_core [OF c t] by simp
    next
      case False
      then have h: "onHandshake listenComponent ?E i d ?t = Some (rw_t x, f)"
        using r by (auto simp: ControlMessage handleMessage_def listenComponent_def Let_def)
      obtain am res where p: "processAuthChallenge (te_crypto ?E) (te_now ?E) (drop 8 d) (tu_auth ?t) = (am, res)" by fastforce
      let ?t1 = "?t\<lparr>tu_auth := am\<rparr>"
      have t1: "listen_tables ?t1" "i < length (tu_conns ?t1)" "\<not> tn_authed (tnAt ?t1 i)"
        using listen_tables_core [OF _ t, of ?t1] i False by simp_all
      consider "rw_t x = ?t" | "rw_t x = ?t1"
        | f' pl b where "authenticatedListen ?E i (setTn i ((tnAt ?t i)\<lparr>tn_forwardID := f', tn_poolID := pl\<rparr>) ?t1) = Some (rw_t x, b)"
        using h p by (auto simp: onHandshake_def listenComponent_def option_bind_eq_Some split: if_splits sum.splits)
      then show ?thesis
      proof cases
        case (3 f' pl b)
        let ?t2 = "setTn i ((tnAt ?t i)\<lparr>tn_forwardID := f', tn_poolID := pl\<rparr>) ?t1"
        have t2: "listen_tables ?t2" using listen_ids [OF t1, of pl f'] by simp
        have i2: "i < length (tu_conns ?t2)" "\<not> tn_authed (tnAt ?t2 i)" using i False by (simp_all add: setTn_def tnAt_def)
        show ?thesis using listen_authenticated [OF t2 i2 3] .
      qed (use t t1 in auto)
    qed
  qed
qed


lemma readEnd_tables:
  assumes t: "healthy c i t" "listen_tables t"
  shows "\<exists>t'. readEnd listenComponent now i t = Some t' \<and> listen_tables t' \<and> (\<forall>key k. (key, k) \<in> set (tu_table t') \<longrightarrow> i \<notin> set (pl_conns (poolAt t' k)))"
proof -
  obtain t1 where d: "disconnectListen now i t = Some t1" "healthy c i t1"
    using listener.disconnect [OF t(1), of now] by (auto simp: listenComponent_def)
  have i: "i < length (tu_conns t)" "i < length (tu_conns t1)" using t(1) d(2) by (auto simp: healthy_def)
  have t1: "listen_tables t1" by (rule listen_disconnect [OF t(2) i(1) d(1)])
  have "\<exists>u. closeConn now i u = Some t1 \<and> i < length (tu_conns u)"
    using d(1) i(1) by (auto simp: disconnectListen_def Let_def forgetPool_def setPool_def split: option.splits if_splits)
  then have closed: "tn_closed (tnAt t1 i)" using close_pools by blast
  then have "closeConn now i t1 = Some t1" by (simp add: closeConn_def closeTunnelConn_def setTn_def tnAt_def)
  then have e: "readEnd listenComponent now i t = Some t1" using d(1) by (simp add: readEnd_def listenComponent_def)
  have "i \<notin> set (pl_conns (poolAt t1 k))" if k: "(key, k) \<in> set (tu_table t1)" for key k
  proof -
    have fit: "tables_fit (map tnView (tu_conns t1), map pl_conns (tu_pools t1), tu_table t1, tu_poolMap t1, tu_index t1)"
      using t1 by (simp add: listen_tables_def core_def)
    have "map tnView (tu_conns t1) ! i \<noteq> (key, True, False)" using closed i(2) by (simp add: tnView_def tnAt_def)
    then show ?thesis using fit_fresh [OF fit k] fit_entry(1) [OF fit k] by (simp add: poolAt_def)
  qed
  then show ?thesis using e t1 by blast
qed

text \<open>While no other connection changes the table of pools, the pools of a listener hold exactly the connections
  that are authenticated and open: whatever a peer sends on a connection, in whatever chunks, the read loop returns,
  the tables agree after it, and after the connection has ended they agree and no pool of the table has it any more.
  Here loading, copying and storing the table is one step; two connections doing it at once can lose a pool
  (\<open>tunnel_lost_update\<close> of \<open>TunnelMaps\<close>).\<close>

theorem listener_tables_survive_reading:
  assumes "healthy c i (rw_t w)" "listen_tables (rw_t w)" "\<forall>n. fine_env c (Es n)" "pool_mem c buf"
  shows "\<exists>xs' r x flow t'. tunnelReadLoop listenComponent Es ad i ns xs buf w = Some (xs', r, x, flow) \<and> listen_tables (rw_t x)
    \<and> readEnd listenComponent now i (rw_t x) = Some t' \<and> listen_tables t'
    \<and> (\<forall>key k. (key, k) \<in> set (tu_table t') \<longrightarrow> i \<notin> set (pl_conns (poolAt t' k)))"
proof -
  obtain ys xs' r x flow left x0 where r: "tunnelReadLoop listenComponent Es ad i ns xs buf w = Some (xs', r, x, flow)"
      "streamSpec (readOps listenComponent Es ad i) c (tu_tag (rw_t w)) ys w = Some (left, x0, flow)" "world_view x = world_view x0"
    using loop_reading [OF _ assms(1,3,4), of listenComponent ad ns xs] by blast
  let ?P = "\<lambda>w. reader_ok Es c i w \<and> listen_tables (rw_t w)"
  let ?M = "readOps listenComponent Es ad i"
  have keep: "?P s'" if P: "?P s" and m: "int (length m) \<le> rc_bufferSize c"
      and h: "mo_handle ?M (messageOf c (tu_tag (rw_t w)) (mo_authed ?M s) m) s = Some (s', f)" for m s s' f
  proof -
    let ?m = "messageOf c (tu_tag (rw_t w)) (mo_authed ?M s) m"
    have "int (length m) \<le> poolSize c" using P m by (auto simp: reader_ok_def healthy_def config_ok_def poolSize_def)
    then have "same_message c ?m ?m" by (simp add: messageOf_def framed_full)
    moreover have "handleMessage listenComponent Es ad i ?m s = Some (s', f)" using h by (simp add: readOps_def)
    moreover have "i < length (tu_conns (rw_t s))" using P by (auto simp: reader_ok_def healthy_def)
    ultimately show ?thesis
      using listener.message_handled [of Es c i s s ?m ?m ad] P listen_message [of s i Es ad ?m s' f] by auto
  qed
  have start: "?P w" using assms(1-3) by (simp add: reader_ok_def)
  have "?P x0" by (rule streamSpec_keeps [where P = ?P, OF _ r(2) start]) (rule keep)
  then have "healthy c i (rw_t x)" "listen_tables (rw_t x)" using r(3) by (simp_all add: world_view_eq reader_ok_def)
  then show ?thesis using readEnd_tables [of c i "rw_t x" now] r(1) by blast
qed

section \<open>Packets that are too large\<close>

lemma sealed_lengths:
  assumes "gcm_laws cr" "length nonce = 12" "length d + 44 < 2 ^ 32"
  shows "length (sealedFrame cr key nonce ts cid d) = length d + 52" "frameLength (sealedFrame cr key nonce ts cid d @ ys) = int (length d) + 44"
    "(sealedFrame cr key nonce ts cid d @ ys) ! 1 = MsgTypeData"
  using assms uint_word_of_nat32 [OF assms(3)]
  by (simp_all add: sealedFrame_def Let_def gcm_laws_def frameLength_def headerBytes_len nth_append headerBytes_nth add.commute)

lemma plain_lengths:
  assumes "length d + 8 < 2 ^ 32"
  shows "length (plainFrame cid d) = length d + 16" "frameLength (plainFrame cid d @ ys) = int (length d) + 8"
    "(plainFrame cid d @ ys) ! 1 = MsgTypeData"
  using assms uint_word_of_nat32 [OF assms]
  by (simp_all add: plainFrame_def frameLength_def headerBytes_len nth_append headerBytes_nth add.commute)

lemma one_read:
  assumes "readRun M c tag [n] xs r s = Some (xs', r', s', flow)" "0 < readRoom c r"
  shows "xs' = drop (min n (nat (readSize c r))) xs"
proof -
  obtain r1 s1 f where "readPass M c tag (take (min n (nat (readSize c r))) xs) r s = Some (r1, s1, f)"
    using assms by (auto simp: Let_def option_bind_eq_Some)
  then show ?thesis using assms by (cases f) (auto simp: Let_def)
qed

text \<open>C23. An encrypted packet of more than the buffer size less 52 bytes takes its TCP tunnel connection down: the sender wraps and
  sends it, but the other end, with the length check that leaves out the header, waits for a message that its buffer
  cannot hold. However the bytes arrive nothing of the packet is handled, and the loop stops
  when it has read as many bytes as the buffer holds.\<close>

theorem oversized_packet_ends_connection:
  assumes "C = listenComponent \<or> C = forwardComponent" "healthy c i (rw_t w)" "\<forall>n. fine_env c (Es n)" "pool_mem c buf"
    and au: "tn_authed (tnAt (rw_t w) i)"
    and key: "activeKey amS = Some key" and p: "stampable cs p" "pk_length p + 52 \<le> poolSize cs" "poolSize cs < 2 ^ 32"
    and m: "pool_mem cs m1" "pool_mem cs m2" and laws: "gcm_laws cr"
    and nonce: "generateNextNonce rand (am_dedup amS) = (dm, Some nonce)" "length nonce = 12"
    and large: "rc_bufferSize c < pk_length p + 52"
  shows "\<exists>amS' q. wrapData cr cs now rand m1 m2 amS p = Some (amS', q, None) \<and>
    (\<forall>ns. \<exists>xs' r x flow. tunnelReadLoop C Es ad i ns (pk_bytes q) buf w = Some (xs', r, x, flow) \<and> world_view x = world_view w
      \<and> (ns = [length (pk_bytes q)] \<longrightarrow> flow = StopReading))"
proof -
  obtain q where q: "wrapEncrypted cr cs now rand m1 m2 key amS p = Some (amS\<lparr>am_dedup := markAsUsed now nonce dm\<rparr>, q, None)"
      "pk_bytes q = sealedFrame cr key nonce (unixMilli now) (pk_connID p) (pk_bytes p)"
    using wrapEncrypted_frame [OF p(1) m laws p(2) nonce] by blast
  have n: "int (length (pk_bytes p)) = pk_length p" using length_pk_bytes p(1) by (auto simp: stampable_def)
  have small: "length (pk_bytes p) + 44 < 2 ^ 32"
  proof -
    have "int (length (pk_bytes p) + 44) < int (2 ^ 32)" using n p(2,3) by simp
    then show ?thesis by (simp only: of_nat_less_iff)
  qed
  have len: "length (pk_bytes q) = length (pk_bytes p) + 52" "frameLength (pk_bytes q) = int (length (pk_bytes p)) + 44"
    using sealed_lengths(1) [OF laws nonce(2) small] sealed_lengths(2) [OF laws nonce(2) small, where ys = "[]"] by (simp_all add: q(2))
  have "\<exists>xs' r x flow. tunnelReadLoop C Es ad i ns (pk_bytes q) buf w = Some (xs', r, x, flow) \<and> world_view x = world_view w
      \<and> (ns = [length (pk_bytes q)] \<longrightarrow> flow = StopReading)" for ns
  proof -
    obtain ys xs' r x flow left x0 where r: "tunnelReadLoop C Es ad i ns (pk_bytes q) buf w = Some (xs', r, x, flow)" "pk_bytes q = ys @ xs'"
        "streamSpec (readOps C Es ad i) c (tu_tag (rw_t w)) ys w = Some (left, x0, flow)" "world_view x = world_view x0"
      using loop_reading [OF assms(1-4), of ad ns "pk_bytes q"] by blast
    have fl: "frameLength ys = int (length (pk_bytes p)) + 44" if "8 \<le> length ys"
      using frameLength_append [OF that, of xs'] len(2) r(2) by simp
    have au': "mo_authed (readOps C Es ad i) w" using au by (simp add: readOps_def)
    have spec: "x0 = w \<and> (rc_bufferSize c \<le> int (length ys) \<longrightarrow> 8 \<le> length ys \<longrightarrow> flow = StopReading)"
      using r(3) fl au' large n by (cases "length ys < 8") (auto simp: streamSpec.simps [of _ c _ ys] split: if_splits)
    have "flow = StopReading" if "ns = [length (pk_bytes q)]"
    proof -
      have cfg: "tu_config (rw_t w) = c" "96 \<le> rc_bufferSize c" "0 \<le> rc_bufferOffset c"
        using assms(2) by (auto simp: healthy_def config_ok_def)
      have room: "readRoom c (newReadState buf) = rc_bufferSize c" "readSize c (newReadState buf) = rc_bufferSize c"
        using assms(4) by (simp_all add: readRoom_def readSize_def newReadState_def pool_mem_def poolSize_def)
      have "readRun (readOps C Es ad i) c (tu_tag (rw_t w)) [length (pk_bytes q)] (pk_bytes q) (newReadState buf) w = Some (xs', r, x, flow)"
        using r(1) that cfg(1) by (simp add: tunnelReadLoop_def del: readRun.simps)
      from one_read [OF this] have "xs' = drop (nat (rc_bufferSize c)) (pk_bytes q)" using room cfg(2) large len(1) n by simp
      then have "int (length ys) = rc_bufferSize c" using arg_cong [OF r(2), of length] large len(1) n cfg(2) by simp
      then show ?thesis using spec cfg(2) by simp
    qed
    then show ?thesis using r(1,4) spec by auto
  qed
  then show ?thesis using q(1) key by (auto simp: wrapData_def)
qed

section \<open>Data arrives complete and in order\<close>

text \<open>
  The frames of \<open>fs\<close>, each with the connection id and the data it carries, as \<open>WrapData\<close> makes them for a receiver whose
  manager is \<open>am\<close> before message \<open>n\<close>: without encryption, or sealed with the common key under a nonce that the receiver has not
  seen and in time.
\<close>

primrec carries :: "(nat \<Rightarrow> tunnel_env) \<Rightarrow> (bytes \<times> conn_id \<times> bytes) list \<Rightarrow> nat \<Rightarrow> auth_manager \<Rightarrow> bool" where
  "carries Es [] n am = True"
| "carries Es (f # fs) n am =
     (case f of (m, cid, d) \<Rightarrow>
       (case activeKey am of
          None \<Rightarrow> m = plainFrame cid d \<and> length d + 8 < 2 ^ 32 \<and> carries Es fs (Suc n) am
        | Some key \<Rightarrow> \<exists>nonce ts. m = sealedFrame (te_crypto (Es n)) key nonce ts cid d \<and> length nonce = 12 \<and> length d + 44 < 2 ^ 32
            \<and> \<not> isDuplicate nonce (am_dedup am) \<and> time_sub (te_now (Es n)) (timeOfMilli ts) \<le> am_dataTimeout am
            \<and> carries Es fs (Suc n) (am\<lparr>am_dedup := markAsUsed (te_now (Es n)) nonce (am_dedup am)\<rparr>)))"

text \<open>The connection id under which the packet of a frame is routed.\<close>

definition routedID :: "conn_id \<Rightarrow> conn_id \<Rightarrow> conn_id" where
  "routedID own cid = (if cid = 0 then own else cid)"

context tunnel_interface
begin

lemma data_frame:
  assumes t: "healthy c i (rw_t w)" and E: "fine_env c (Es (rw_count w))" and m: "int (length m) \<le> poolSize c"
    and f: "carries Es ((m, cid, d) # fs) (rw_count w) (tu_auth (rw_t w))"
  shows "\<exists>x q. handleMessage C Es ad i (DataMessage (framed c tag m)) w = Some (x, KeepReading) \<and> healthy c i (rw_t x)
    \<and> rw_routed x = rw_routed w @ [q] \<and> pk_bytes q = d \<and> pk_connID q = routedID (tn_connID (tnAt (rw_t w) i)) cid
    \<and> rw_count x = Suc (rw_count w) \<and> tu_conns (rw_t x) = tu_conns (rw_t w) \<and> carries Es fs (rw_count x) (tu_auth (rw_t x))"
proof -
  let ?E = "Es (rw_count w)" and ?am = "tu_auth (rw_t w)" and ?w = "w\<lparr>rw_count := Suc (rw_count w)\<rparr>" and ?p = "framed c tag m"
  have cfg: "tu_config (rw_t w) = c" using t by (simp add: healthy_def)
  note full = framed_full [OF m, of tag]
  have laws: "gcm_laws (te_crypto ?E)" "pool_mem c (te_mem2 ?E)" using E by (auto simp: fine_env_def env_ok_def)
  have "\<exists>r. unwrapData (te_crypto ?E) c (te_now ?E) (te_mem2 ?E) ?am ?p = Some r \<and> ur_err r = None \<and> pk_connID (ur_packet r) = cid
      \<and> pk_bytes (ur_packet r) = d \<and> carries Es fs (Suc (rw_count w)) (ur_am r)"
  proof (cases "activeKey ?am")
    case None
    then show ?thesis using f unwrap_plainFrame [OF full(1), of cid d ?am] full(2) by fastforce
  next
    case (Some key)
    then obtain nonce ts where k: "m = sealedFrame (te_crypto ?E) key nonce ts cid d" "length nonce = 12" "length d + 44 < 2 ^ 32"
        "\<not> isDuplicate nonce (am_dedup ?am)" "time_sub (te_now ?E) (timeOfMilli ts) \<le> am_dataTimeout ?am"
        "carries Es fs (Suc (rw_count w)) (?am\<lparr>am_dedup := markAsUsed (te_now ?E) nonce (am_dedup ?am)\<rparr>)"
      using f by auto
    then show ?thesis using unwrap_sealedFrame [OF full(1) _ Some laws(1) k(2) laws(2) k(4,5,3)] full(2) by fastforce
  qed
  then obtain r where r: "unwrapData (te_crypto ?E) c (te_now ?E) (te_mem2 ?E) ?am ?p = Some r" "ur_err r = None"
      "pk_connID (ur_packet r) = cid" "pk_bytes (ur_packet r) = d" "carries Es fs (Suc (rw_count w)) (ur_am r)" by blast
  let ?t1 = "(rw_t w)\<lparr>tu_auth := ur_am r\<rparr>"
  have t1: "healthy c i ?t1" using healthy_frame [OF t unwrap_frame [OF r(1)]] t by (simp add: healthy_def)
  let ?q = "if pk_connID (ur_packet r) = 0 then (ur_packet r)\<lparr>pk_connID := tn_connID (tnAt (rw_t w) i)\<rparr> else ur_packet r"
  define again where "again \<longleftrightarrow> pk_connID ?q \<noteq> 0 \<and> rw_last w \<noteq> Some (pk_connID ?q, tu_gen ?t1)"
  define t2 where "t2 = (if again then tc_remember C (pk_connID ?q) i ?t1 else ?t1)"
  define x where "x = ?w\<lparr>rw_t := t2, rw_routed := rw_routed w @ [?q\<lparr>pk_srcAddr := Some ad\<rparr>],
      rw_last := (if again then Some (pk_connID ?q, tu_gen ?t1) else rw_last w)\<rparr>"
  have e: "onData C ?E ad i ?p ?w = Some x"
    using r(1,2) by (simp add: onData_def cfg Let_def x_def t2_def again_def)
  have "?t1 = ?t1\<lparr>tu_index := tu_index (rw_t w)\<rparr>" by simp
  then obtain ix where t2: "t2 = ?t1\<lparr>tu_index := ix\<rparr>" using remember [of "pk_connID ?q" i ?t1] unfolding t2_def by metis
  have "handleMessage C Es ad i (DataMessage ?p) w = Some (x, KeepReading)" by (simp add: handleMessage_def e)
  moreover have "healthy c i (rw_t x)" "tu_conns (rw_t x) = tu_conns (rw_t w)" "rw_count x = Suc (rw_count w)"
      "carries Es fs (rw_count x) (tu_auth (rw_t x))"
    using t1 r(5) by (simp_all add: x_def t2)
  moreover have "pk_bytes (?q\<lparr>pk_srcAddr := Some ad\<rparr>) = d"
      "pk_connID (?q\<lparr>pk_srcAddr := Some ad\<rparr>) = routedID (tn_connID (tnAt (rw_t w) i)) cid"
    using r(3,4) by (auto simp: pk_bytes_def routedID_def)
  moreover have "rw_routed x = rw_routed w @ [?q\<lparr>pk_srcAddr := Some ad\<rparr>]" by (simp add: x_def)
  ultimately show ?thesis by blast
qed

lemma frame_cut:
  assumes f: "carries Es ((m, cid, d) # fs) n am" and laws: "gcm_laws (te_crypto (Es n))"
  shows "8 \<le> length m" "int (length m) = 8 + frameLength (m @ ys)" "(m @ ys) ! 1 = MsgTypeData"
proof -
  have "8 \<le> length m \<and> int (length m) = 8 + frameLength (m @ ys) \<and> (m @ ys) ! 1 = MsgTypeData"
  proof (cases "activeKey am")
    case None
    then have m: "m = plainFrame cid d" "length d + 8 < 2 ^ 32" using f by auto
    show ?thesis using plain_lengths [OF m(2)] by (simp add: m(1))
  next
    case (Some key)
    then obtain nonce ts where m: "m = sealedFrame (te_crypto (Es n)) key nonce ts cid d" "length nonce = 12" "length d + 44 < 2 ^ 32"
      using f by auto
    show ?thesis using sealed_lengths [OF laws m(2,3)] by (simp add: m(1))
  qed
  then show "8 \<le> length m" "int (length m) = 8 + frameLength (m @ ys)" "(m @ ys) ! 1 = MsgTypeData" by auto
qed

lemma spec_data:
  assumes "healthy c i (rw_t w)" "\<forall>n. fine_env c (Es n)" "tn_authed (tnAt (rw_t w) i)"
    "carries Es fs (rw_count w) (tu_auth (rw_t w))" "\<forall>m \<in> set (map fst fs). int (length m) \<le> rc_bufferSize c"
  shows "\<exists>x qs. streamSpec (readOps C Es ad i) c tag (concat (map fst fs)) w = Some ([], x, KeepReading)
    \<and> rw_routed x = rw_routed w @ qs
    \<and> map (\<lambda>q. (pk_connID q, pk_bytes q)) qs = map (\<lambda>(m, cid, d). (routedID (tn_connID (tnAt (rw_t w) i)) cid, d)) fs"
  using assms
proof (induction fs arbitrary: w)
  case Nil
  then show ?case by (simp add: streamSpec.simps)
next
  case (Cons f fs)
  obtain m cid d where f: "f = (m, cid, d)" by (cases f)
  let ?xs = "concat (map fst (f # fs))" and ?ys = "concat (map fst fs)" and ?M = "readOps C Es ad i"
  have E: "fine_env c (Es (rw_count w))" using Cons.prems(2) by blast
  have laws: "gcm_laws (te_crypto (Es (rw_count w)))" using E by (simp add: fine_env_def)
  note cut = frame_cut(1) [OF Cons.prems(4) [unfolded f] laws] frame_cut(2,3) [OF Cons.prems(4) [unfolded f] laws, where ys = ?ys]
  have c: "0 \<le> rc_bufferOffset c" using Cons.prems(1) by (simp add: healthy_def config_ok_def)
  have mlen: "int (length m) \<le> rc_bufferSize c" "int (length m) \<le> poolSize c" using Cons.prems(5) c by (simp_all add: f poolSize_def)
  obtain x q where h: "handleMessage C Es ad i (DataMessage (framed c tag m)) w = Some (x, KeepReading)" "healthy c i (rw_t x)"
      "rw_routed x = rw_routed w @ [q]" "pk_bytes q = d" "pk_connID q = routedID (tn_connID (tnAt (rw_t w) i)) cid"
      "tu_conns (rw_t x) = tu_conns (rw_t w)" "carries Es fs (rw_count x) (tu_auth (rw_t x))"
    using data_frame [OF Cons.prems(1) E mlen(2) Cons.prems(4) [unfolded f]] by blast
  have same: "tnAt (rw_t x) i = tnAt (rw_t w) i" using h(6) by (simp add: tnAt_def)
  have n: "nat (8 + frameLength (m @ ?ys)) = length m" using cut(2) by linarith
  have parts: "take (length m) (m @ ?ys) = m" "drop (length m) (m @ ?ys) = ?ys" by simp_all
  have xs: "?xs = m @ ?ys" by (simp add: f)
  have au: "mo_authed ?M w" using Cons.prems(3) by (simp add: readOps_def)
  have msg: "messageOf c tag True m = DataMessage (framed c tag m)"
    using cut(1,3) by (simp add: messageOf_def nth_append split: if_splits)
  have "streamSpec ?M c tag ?xs w = (case mo_handle ?M (messageOf c tag True m) w of None \<Rightarrow> None
      | Some (s', StopReading) \<Rightarrow> Some (?ys, s', StopReading) | Some (s', KeepReading) \<Rightarrow> streamSpec ?M c tag ?ys s')"
    using au cut(1,2) mlen(1) unfolding xs streamSpec.simps [of ?M c tag "m @ ?ys"] n parts by (simp add: badLength_def)
  then have "streamSpec ?M c tag ?xs w = streamSpec ?M c tag ?ys x" unfolding msg using h(1) by (simp add: readOps_def)
  moreover obtain x' qs where "streamSpec ?M c tag ?ys x = Some ([], x', KeepReading)" "rw_routed x' = rw_routed x @ qs"
      "map (\<lambda>q. (pk_connID q, pk_bytes q)) qs = map (\<lambda>(m, cid, d). (routedID (tn_connID (tnAt (rw_t x) i)) cid, d)) fs"
    using Cons.IH [OF h(2) Cons.prems(2) _ h(7)] Cons.prems(3,5) same by auto
  ultimately show ?case using h(3-5) same by (intro exI [of _ x'] exI [of _ "q # qs"]) (simp add: f)
qed

end

text \<open>The frames of a stream reach the router: read from an authenticated connection however the
  stream of their bytes is cut up, the packets routed when all bytes are read carry exactly the same
  data in the same order, each under the connection id it was sent with, or that of the connection
  when it had none; and the connection always goes on.\<close>

lemma frames_delivered:
  assumes "C = listenComponent \<or> C = forwardComponent" "healthy c i (rw_t w)" "\<forall>n. fine_env c (Es n)" "pool_mem c buf"
    and w: "tn_authed (tnAt (rw_t w) i)" "rw_routed w = []"
    and fs: "carries Es fs (rw_count w) (tu_auth (rw_t w))" "\<forall>m \<in> set (map fst fs). int (length m) \<le> rc_bufferSize c"
  shows "\<exists>xs' r x. tunnelReadLoop C Es ad i ns (concat (map fst fs)) buf w = Some (xs', r, x, KeepReading)
    \<and> (xs' = [] \<longrightarrow> map (\<lambda>q. (pk_connID q, pk_bytes q)) (rw_routed x)
        = map (\<lambda>(m, cid, d). (routedID (tn_connID (tnAt (rw_t w) i)) cid, d)) fs)"
proof -
  obtain ys xs' r x flow left x0 where r: "tunnelReadLoop C Es ad i ns (concat (map fst fs)) buf w = Some (xs', r, x, flow)"
      "concat (map fst fs) = ys @ xs'" "streamSpec (readOps C Es ad i) c (tu_tag (rw_t w)) ys w = Some (left, x0, flow)"
      "world_view x = world_view x0"
    using loop_reading [OF assms(1-4), of ad ns "concat (map fst fs)"] by blast
  have spec: "\<exists>x qs. streamSpec (readOps C Es ad i) c (tu_tag (rw_t w)) (concat (map fst fs)) w = Some ([], x, KeepReading)
    \<and> rw_routed x = rw_routed w @ qs
    \<and> map (\<lambda>q. (pk_connID q, pk_bytes q)) qs = map (\<lambda>(m, cid, d). (routedID (tn_connID (tnAt (rw_t w) i)) cid, d)) fs"
  proof (cases "C = listenComponent")
    case True
    show ?thesis unfolding True by (rule listener.spec_data [OF assms(2,3) w(1) fs])
  next
    case False
    then have C: "C = forwardComponent" using assms(1) by simp
    show ?thesis unfolding C by (rule forwarder.spec_data [OF assms(2,3) w(1) fs])
  qed
  have view: "map (\<lambda>q. (pk_connID q, pk_bytes q)) ps = map (\<lambda>q. (pk_connID q, pk_bytes q)) qs" if "map pview ps = map pview qs" for ps qs
  proof -
    have e: "map (\<lambda>q. (pk_connID q, pk_bytes q)) xs = map (\<lambda>(b, p). (pk_connID p, b)) (map pview xs)" for xs
      by (simp add: pview_def)
    show ?thesis by (simp only: e that)
  qed
  obtain x1 qs where sp: "streamSpec (readOps C Es ad i) c (tu_tag (rw_t w)) (concat (map fst fs)) w = Some ([], x1, KeepReading)"
      "rw_routed x1 = rw_routed w @ qs"
      "map (\<lambda>q. (pk_connID q, pk_bytes q)) qs = map (\<lambda>(m, cid, d). (routedID (tn_connID (tnAt (rw_t w) i)) cid, d)) fs"
    using spec by (elim exE conjE)
  have flow: "flow = KeepReading"
    using streamSpec_append [OF r(3), of xs'] sp(1) unfolding r(2) by (cases flow) auto
  have whole: "map (\<lambda>q. (pk_connID q, pk_bytes q)) (rw_routed x) = map (\<lambda>(m, cid, d). (routedID (tn_connID (tnAt (rw_t w) i)) cid, d)) fs"
    if "xs' = []"
  proof -
    have "streamSpec (readOps C Es ad i) c (tu_tag (rw_t w)) (concat (map fst fs)) w = Some (left, x0, flow)"
      using r(2,3) that by simp
    then have x0: "map (\<lambda>q. (pk_connID q, pk_bytes q)) (rw_routed x0) =
        map (\<lambda>(m, cid, d). (routedID (tn_connID (tnAt (rw_t w) i)) cid, d)) fs"
      using sp w(2) by simp
    have "map pview (rw_routed x) = map pview (rw_routed x0)" using r(4) by (simp add: world_view_eq)
    from view [OF this] show ?thesis using x0 by simp
  qed
  show ?thesis by (rule exI [of _ xs'], rule exI [of _ r], rule exI [of _ x], rule conjI [OF r(1) [unfolded flow]], rule impI, rule whole)
qed

section \<open>Concrete instances\<close>

definition demoReadWorld :: "bool \<Rightarrow> bool \<Rightarrow> read_world" where
  "demoReadWorld enc authed = \<lparr>rw_t = (newTunnelListen ''t'' [] None None 0 demoConfig (demoManager enc (replicate 8 2)) demoTcpSettings demoTcpStats
     empty_hb_stats)\<lparr>tu_conns := [demoTunnelConn\<lparr>tn_authed := authed\<rparr>]\<rparr>, rw_routed = [], rw_last = None, rw_count = 0\<rparr>"

lemma demo_reader:
  "healthy demoConfig 0 (rw_t (demoReadWorld enc authed))" "tn_authed (tnAt (rw_t (demoReadWorld enc authed)) 0) = authed"
  "tu_auth (rw_t (demoReadWorld enc authed)) = demoManager enc (replicate 8 2)" "rw_routed (demoReadWorld enc authed) = []"
  "tn_connID (tnAt (rw_t (demoReadWorld enc authed)) 0) = 7" "rw_count (demoReadWorld enc authed) = 0"
proof -
  have "am_delayWindowSize (demoManager enc (replicate 8 2)) = 10" by (simp add: demoManager_def newAuthManager_def Let_def demoCrypto_def)
  then show "healthy demoConfig 0 (rw_t (demoReadWorld enc authed))"
    using open_queue_new demo_env_ok(2)
    by (simp add: healthy_def demoReadWorld_def newTunnelListen_def conns_ok_def demoTunnelConn_def newTunnelConn_def)
  show "tn_authed (tnAt (rw_t (demoReadWorld enc authed)) 0) = authed" "tn_connID (tnAt (rw_t (demoReadWorld enc authed)) 0) = 7"
    "tu_auth (rw_t (demoReadWorld enc authed)) = demoManager enc (replicate 8 2)" "rw_routed (demoReadWorld enc authed) = []"
    "rw_count (demoReadWorld enc authed) = 0"
    by (simp_all add: demoReadWorld_def tnAt_def newTunnelListen_def demoTunnelConn_def newTunnelConn_def)
qed

lemma demo_fine: "\<forall>n. fine_env demoConfig ((\<lambda>_. demoTunnelEnv) n)"
  using demo_env_ok(1) demo_laws by (simp add: fine_env_def demoTunnelEnv_def)

lemma demo_tables: "listen_tables (rw_t (demoReadWorld enc False))"
  by (simp add: listen_tables_def core_def demoReadWorld_def newTunnelListen_def tables_fit.simps tnView_def pooled_def)

theorem reading_ignores_chunks_witness:
  "\<exists>ys xs' r x flow left x0. tunnelReadLoop listenComponent (\<lambda>_. demoTunnelEnv) (demoAddr 9) 0 [3, 5, 20] (plainFrame 5 [1, 2, 3])
      (replicate 164 0) (demoReadWorld False True) = Some (xs', r, x, flow) \<and> plainFrame 5 [1, 2, 3] = ys @ xs'
    \<and> streamSpec (readOps listenComponent (\<lambda>_. demoTunnelEnv) (demoAddr 9) 0) demoConfig (tu_tag (rw_t (demoReadWorld False True))) ys
        (demoReadWorld False True) = Some (left, x0, flow)
    \<and> world_view x = world_view x0"
  using reading_ignores_chunks [OF disjI1 [OF refl] demo_reader(1) demo_fine demo_pool] by blast

theorem tcp_tunnel_needs_secret_witness:
  "\<exists>xs' r x flow. tunnelReadLoop listenComponent (\<lambda>_. demoTunnelEnv) (demoAddr 9) 0 [3, 500] (plainFrame 5 [1, 2, 3])
      (replicate 164 0) (demoReadWorld False False) = Some (xs', r, x, flow) \<and> rw_routed x = []"
proof -
  have "length (plainFrame 5 [1, 2, 3]) = 19" by (subst plain_lengths) simp_all
  then show ?thesis
    using tcp_tunnel_needs_secret [OF disjI1 [OF refl] demo_reader(1) demo_fine demo_pool, of False False "demoAddr 9" "[3, 500]" "plainFrame 5 [1, 2, 3]"]
    by (auto simp: demo_reader)
qed

theorem listener_tables_survive_reading_witness:
  "\<exists>xs' r x flow t'. tunnelReadLoop listenComponent (\<lambda>_. demoTunnelEnv) (demoAddr 9) 0 [3, 500] [2, 1, 0, 0, 0, 0, 0, 88, 1] (replicate 164 0)
      (demoReadWorld False False) = Some (xs', r, x, flow)
    \<and> readEnd listenComponent 9 0 (rw_t x) = Some t' \<and> listen_tables t'"
  using listener_tables_survive_reading [OF demo_reader(1) demo_tables demo_fine demo_pool] by blast

theorem oversized_packet_ends_connection_witness:
  "\<exists>amS' q. wrapData demoCrypto demoConfig 5 None (replicate 164 0) (replicate 164 0) (demoManager True (replicate 8 1))
      (demoPacket\<lparr>pk_length := 60\<rparr>) = Some (amS', q, None) \<and>
    (\<exists>xs' r x. tunnelReadLoop listenComponent (\<lambda>_. demoTunnelEnv) (demoAddr 9) 0 [length (pk_bytes q)] (pk_bytes q) (replicate 164 0)
      (demoReadWorld True True) = Some (xs', r, x, StopReading) \<and> rw_routed x = [])"
proof -
  let ?p = "demoPacket\<lparr>pk_length := 60\<rparr>"
  have p: "stampable demoConfig ?p" "pk_length ?p + 52 \<le> poolSize demoConfig" "poolSize demoConfig < 2 ^ 32"
    "rc_bufferSize demoConfig < pk_length ?p + 52"
    using demo_packet by (simp_all add: stampable_def pk_full_def pk_wf_def demoConfig_def poolSize_def)
  have n: "generateNextNonce None (am_dedup (demoManager True (replicate 8 1)))
        = ((newDeduplicationManager (replicate 8 1))\<lparr>dm_currentSeq := 1\<rparr>, Some (replicate 8 1 @ put_u32 0))"
      "length (replicate 8 1 @ put_u32 0) = 12"
    by (simp_all add: demo_manager newDeduplicationManager_def generateNextNonce_def)
  have view: "rw_routed x = []" if "world_view x = world_view (demoReadWorld True True)" for x
    using that by (simp add: world_view_eq demo_reader)
  note t = oversized_packet_ends_connection [OF disjI1 [OF refl] demo_reader(1) demo_fine demo_pool demo_reader(2) [THEN iffD2, OF TrueI]
    demo_manager(1) p(1-3) demo_pool demo_pool demo_laws(1) n p(4), where ad = "demoAddr 9" and now = 5]
  then show ?thesis using view by blast
qed

end
