(* ===== verification/TunnelStream.thy ===== *)
theory TunnelStream
  imports TunnelRead
begin

text \<open>
  One connection of a TCP tunnel from end to end: packets wrapped one after the other by the manager
  of one end (\<open>WrapData\<close> in the \<open>HandlePacket\<close> of \<open>tcp_tunnel_listen.go\<close> and \<open>tcp_tunnel_forward.go\<close>),
  written to the socket in batches (\<open>sendPacketBatch\<close> of \<open>tcp_tunnel.go\<close>) and read by the read loop of
  the other end.
\<close>

section \<open>Wrapping a sequence of packets\<close>

text \<open>What one call of \<open>WrapData\<close> gets: the time, the random source, two buffers of the pool and the packet.\<close>

record wrap_input =
  wi_now :: gotime
  wi_rand :: "bytes option"
  wi_mem :: bytes
  wi_mem2 :: bytes
  wi_packet :: packet

text \<open>A packet whose wrapping fails is not sent.\<close>

fun wrapEach :: "crypto \<Rightarrow> router_config \<Rightarrow> auth_manager \<Rightarrow> wrap_input list \<Rightarrow> (auth_manager \<times> packet list) option" where
  "wrapEach cr c am [] = Some (am, [])"
| "wrapEach cr c am (i # is) = do {
     (am1, q, e) \<leftarrow> wrapData cr c (wi_now i) (wi_rand i) (wi_mem i) (wi_mem2 i) am (wi_packet i);
     (am2, qs) \<leftarrow> wrapEach cr c am1 is;
     Some (am2, if e = None then q # qs else qs)
   }"

text \<open>
  The packets the property is about: inside their buffers with room for the header, and short enough
  that the frame fits the buffer of the reader. A longer one ends the connection
  (\<open>oversized_packet_ends_connection\<close>).
\<close>

definition sendable :: "router_config \<Rightarrow> router_config \<Rightarrow> auth_manager \<Rightarrow> wrap_input \<Rightarrow> bool" where
  "sendable cs c am i \<longleftrightarrow>
     pool_mem cs (wi_mem i) \<and> pool_mem cs (wi_mem2 i) \<and>
     (if activeKey am = None
      then pk_wf cs (wi_packet i) \<and> 16 \<le> pk_offset (wi_packet i) \<and> pk_offset (wi_packet i) \<le> sl_len (pk_buf (wi_packet i))
        \<and> pk_length (wi_packet i) + 16 \<le> rc_bufferSize c
      else stampable cs (wi_packet i) \<and> pk_length (wi_packet i) + 52 \<le> poolSize cs
        \<and> pk_length (wi_packet i) + 52 \<le> rc_bufferSize c)"

text \<open>
  Two managers with the same key or both without: the sender has not used up its current frame of
  nonces and the receiver has not seen the rest of it. Message \<open>n + k\<close> is read in time.
\<close>

definition nextNonce :: "nat \<Rightarrow> dedup \<Rightarrow> bytes" where
  "nextNonce k dm = dm_currentFrame dm @ put_u32 (dm_currentSeq dm + of_nat k)"

definition inStep :: "auth_manager \<Rightarrow> auth_manager \<Rightarrow> nat \<Rightarrow> bool" where
  "inStep amS amR k \<longleftrightarrow> activeKey amS = activeKey amR \<and> dedup_inv (am_dedup amR) \<and>
     length (dm_currentFrame (am_dedup amS)) = 8 \<and> unat (dm_currentSeq (am_dedup amS)) + k \<le> BitmapSize \<and>
     (\<forall>j < k. \<not> isDuplicate (nextNonce j (am_dedup amS)) (am_dedup amR))"

definition readInTime :: "(nat \<Rightarrow> tunnel_env) \<Rightarrow> nat \<Rightarrow> auth_manager \<Rightarrow> wrap_input list \<Rightarrow> bool" where
  "readInTime Es n amR is \<longleftrightarrow>
     (\<forall>k < length is. time_sub (te_now (Es (n + k))) (timeOfMilli (unixMilli (wi_now (is ! k)))) \<le> am_dataTimeout amR)"

lemma nonceKey_next: "length f = 8 \<Longrightarrow> nonceKey (f @ put_u32 x) = (f, x)"
  by (simp add: nonceKey_def nonceFrame_def nonceSeq_def)

lemma inStep_next:
  assumes "inStep amS amR (Suc k)" "activeKey amS = Some key"
    and "amS' = amS\<lparr>am_dedup := markAsUsed t (nextNonce 0 (am_dedup amS)) (fst (generateNextNonce r (am_dedup amS)))\<rparr>"
    and "amR' = amR\<lparr>am_dedup := markAsUsed t' (nextNonce 0 (am_dedup amS)) (am_dedup amR)\<rparr>"
  shows "generateNextNonce r (am_dedup amS) = (fst (generateNextNonce r (am_dedup amS)), Some (nextNonce 0 (am_dedup amS)))"
    and "inStep amS' amR' k"
proof -
  let ?d = "am_dedup amS"
  have s: "length (dm_currentFrame ?d) = 8" "unat (dm_currentSeq ?d) + Suc k \<le> BitmapSize"
    using assms(1) by (simp_all add: inStep_def)
  have g: "generateNextNonce r ?d = (?d\<lparr>dm_currentSeq := dm_currentSeq ?d + 1\<rparr>, Some (nextNonce 0 ?d))"
    using s(2) unfolding generateNextNonce_def nextNonce_def by (subst if_not_P) (arith, simp)
  then show "generateNextNonce r ?d = (fst (generateNextNonce r ?d), Some (nextNonce 0 ?d))" by simp
  let ?d' = "am_dedup amS'"
  have d': "dm_currentFrame ?d' = dm_currentFrame ?d" "dm_currentSeq ?d' = dm_currentSeq ?d + 1"
    by (simp_all add: assms(3) g markAsUsed_def Let_def)
  have succ: "unat (dm_currentSeq ?d + 1) = unat (dm_currentSeq ?d) + 1"
    using s(2) unat_add_lem [of "dm_currentSeq ?d" 1] by (simp add: BitmapSize_def)
  have shift: "nextNonce j ?d' = nextNonce (Suc j) ?d" for j
    by (simp add: nextNonce_def d' add.assoc)
  have other: "\<not> isDuplicate (nextNonce (Suc j) ?d) (am_dedup amR')" if "j < k" for j
  proof -
    have "(of_nat (Suc j) :: 32 word) \<noteq> 0"
      using that s(2) nat_dvd_not_less [of "Suc j" "2 ^ 32"] by (simp add: BitmapSize_def word_of_nat_eq_0_iff del: of_nat_Suc)
    then have "nonceKey (nextNonce (Suc j) ?d) \<noteq> nonceKey (nextNonce 0 ?d)"
      using s(1) by (simp add: nextNonce_def nonceKey_next del: of_nat_Suc)
    moreover have "\<not> isDuplicate (nextNonce (Suc j) ?d) (am_dedup amR)" "dedup_inv (am_dedup amR)"
      using assms(1) that by (simp_all add: inStep_def)
    ultimately show ?thesis by (simp add: assms(4) isDuplicate_abs markAsUsed_abs)
  qed
  show "inStep amS' amR' k"
    using assms(1) other s succ by (simp add: inStep_def d' shift) (simp add: assms(3,4) inv_rules)
qed

section \<open>Frames from packets\<close>

definition sentFrames :: "packet list \<Rightarrow> wrap_input list \<Rightarrow> (bytes \<times> conn_id \<times> bytes) list" where
  "sentFrames qs is = map2 (\<lambda>q i. (pk_bytes q, pk_connID (wi_packet i), pk_bytes (wi_packet i))) qs is"

lemma sent_bytes: "length qs = length is \<Longrightarrow> map fst (sentFrames qs is) = map pk_bytes qs"
  by (induction qs "is" rule: list_induct2) (simp_all add: sentFrames_def)

lemma wrap_plain:
  assumes "sendable cs c am i" "activeKey am = None" "poolSize cs < 2 ^ 32"
  shows "\<exists>q. wrapData cr cs (wi_now i) (wi_rand i) (wi_mem i) (wi_mem2 i) am (wi_packet i) = Some (am, q, None) \<and> pk_wf cs q
    \<and> pk_bytes q = plainFrame (pk_connID (wi_packet i)) (pk_bytes (wi_packet i)) \<and> length (pk_bytes (wi_packet i)) + 8 < 2 ^ 32
    \<and> int (length (pk_bytes q)) \<le> rc_bufferSize c"
proof -
  have p: "pk_wf cs (wi_packet i)" "16 \<le> pk_offset (wi_packet i)" "pk_offset (wi_packet i) \<le> sl_len (pk_buf (wi_packet i))"
      "pk_length (wi_packet i) + 16 \<le> rc_bufferSize c"
    using assms(1,2) by (simp_all add: sendable_def)
  note n = length_pk_bytes [OF p(1)]
  have small: "length (pk_bytes (wi_packet i)) + 8 < 2 ^ 32"
    using n p(1,2) assms(3) by (simp add: pk_wf_def)
  then show ?thesis
    using wrapPlain_frame [OF p(1-3), of "wi_mem i"] assms(2) n p(1,4) plain_lengths(1) [OF small]
    by (fastforce simp: wrapData_def pk_wf_def)
qed

lemma wrap_sealed:
  assumes "sendable cs c am i" "activeKey am = Some key" "poolSize cs < 2 ^ 32" "gcm_laws cr"
    and "generateNextNonce (wi_rand i) (am_dedup am) = (dm, Some nonce)" "length nonce = 12"
  shows "\<exists>q. wrapData cr cs (wi_now i) (wi_rand i) (wi_mem i) (wi_mem2 i) am (wi_packet i)
      = Some (am\<lparr>am_dedup := markAsUsed (wi_now i) nonce dm\<rparr>, q, None) \<and> pk_wf cs q
    \<and> pk_bytes q = sealedFrame cr key nonce (unixMilli (wi_now i)) (pk_connID (wi_packet i)) (pk_bytes (wi_packet i))
    \<and> length (pk_bytes (wi_packet i)) + 44 < 2 ^ 32 \<and> int (length (pk_bytes q)) \<le> rc_bufferSize c"
proof -
  have p: "stampable cs (wi_packet i)" "pool_mem cs (wi_mem i)" "pool_mem cs (wi_mem2 i)" "pk_length (wi_packet i) + 52 \<le> poolSize cs"
      "pk_length (wi_packet i) + 52 \<le> rc_bufferSize c"
    using assms(1,2) by (simp_all add: sendable_def)
  have n: "length (pk_bytes (wi_packet i)) = nat (pk_length (wi_packet i))" "0 \<le> pk_length (wi_packet i)"
    using length_pk_bytes [of cs "wi_packet i"] p(1) by (auto simp: stampable_def pk_wf_def)
  have "length (pk_bytes (wi_packet i)) + 44 < 2 ^ 32" using n p(4) assms(3) by simp
  then show ?thesis
    using wrapEncrypted_frame [OF p(1-3) assms(4) p(4) assms(5,6)] assms(2) n p(5) sealed_lengths(1) [OF assms(4,6)]
    by (fastforce simp: wrapData_def)
qed

lemma sendable_key: "activeKey am' = activeKey am \<Longrightarrow> sendable cs c am' i = sendable cs c am i"
  by (simp add: sendable_def)

lemma wrapEach_carries:
  assumes "\<forall>i \<in> set is. sendable cs c amS i" "poolSize cs < 2 ^ 32" "gcm_laws cr" "\<forall>n. te_crypto (Es n) = cr"
    and "activeKey amS = activeKey amR" "activeKey amS \<noteq> None \<Longrightarrow> inStep amS amR (length is) \<and> readInTime Es n amR is"
  shows "\<exists>amS' qs. wrapEach cr cs amS is = Some (amS', qs) \<and> length qs = length is \<and> carries Es (sentFrames qs is) n amR
    \<and> (\<forall>q \<in> set qs. pk_wf cs q \<and> int (length (pk_bytes q)) \<le> rc_bufferSize c)"
  using assms
proof (induction "is" arbitrary: amS amR n)
  case Nil
  then show ?case by (simp add: sentFrames_def)
next
  case (Cons i js)
  show ?case
  proof (cases "activeKey amS")
    case None
    obtain q where q: "wrapData cr cs (wi_now i) (wi_rand i) (wi_mem i) (wi_mem2 i) amS (wi_packet i) = Some (amS, q, None)"
        "pk_wf cs q" "pk_bytes q = plainFrame (pk_connID (wi_packet i)) (pk_bytes (wi_packet i))"
        "length (pk_bytes (wi_packet i)) + 8 < 2 ^ 32" "int (length (pk_bytes q)) \<le> rc_bufferSize c"
      using wrap_plain [OF _ None Cons.prems(2), where c = c and i = i and cr = cr] Cons.prems(1) by auto
    obtain amS' qs where r: "wrapEach cr cs amS js = Some (amS', qs)" "length qs = length js" "carries Es (sentFrames qs js) (Suc n) amR"
        "\<forall>q \<in> set qs. pk_wf cs q \<and> int (length (pk_bytes q)) \<le> rc_bufferSize c"
      using Cons.IH [of amS amR "Suc n"] Cons.prems None by auto
    have "carries Es (sentFrames (q # qs) (i # js)) n amR"
      using r(3) q(3,4) None Cons.prems(5) by (simp add: sentFrames_def)
    then show ?thesis using q r by (intro exI [of _ amS'] exI [of _ "q # qs"]) simp
  next
    case (Some key)
    let ?nonce = "nextNonce 0 (am_dedup amS)" and ?g = "fst (generateNextNonce (wi_rand i) (am_dedup amS))"
    let ?S = "amS\<lparr>am_dedup := markAsUsed (wi_now i) ?nonce ?g\<rparr>" and ?R = "amR\<lparr>am_dedup := markAsUsed (te_now (Es n)) ?nonce (am_dedup amR)\<rparr>"
    have step: "inStep amS amR (Suc (length js))" "readInTime Es n amR (i # js)" using Cons.prems(6) Some by auto
    note g1 = inStep_next(1) [OF step(1) Some refl refl, where r = "wi_rand i"]
    note g2 = inStep_next(2) [OF step(1) Some refl refl, where t = "wi_now i" and r = "wi_rand i" and t' = "te_now (Es n)"]
    have n12: "length ?nonce = 12" using step(1) by (simp add: inStep_def nextNonce_def)
    obtain q where q: "wrapData cr cs (wi_now i) (wi_rand i) (wi_mem i) (wi_mem2 i) amS (wi_packet i) = Some (?S, q, None)"
        "pk_wf cs q" "pk_bytes q = sealedFrame cr key ?nonce (unixMilli (wi_now i)) (pk_connID (wi_packet i)) (pk_bytes (wi_packet i))"
        "length (pk_bytes (wi_packet i)) + 44 < 2 ^ 32" "int (length (pk_bytes q)) \<le> rc_bufferSize c"
      using wrap_sealed [OF _ Some Cons.prems(2,3) g1 n12, where c = c] Cons.prems(1) by auto
    have time: "time_sub (te_now (Es n)) (timeOfMilli (unixMilli (wi_now i))) \<le> am_dataTimeout amR" "readInTime Es (Suc n) ?R js"
      using step(2) by (auto simp: readInTime_def All_less_Suc2)
    obtain amS' qs where r: "wrapEach cr cs ?S js = Some (amS', qs)" "length qs = length js" "carries Es (sentFrames qs js) (Suc n) ?R"
        "\<forall>q \<in> set qs. pk_wf cs q \<and> int (length (pk_bytes q)) \<le> rc_bufferSize c"
      using Cons.IH [of ?S ?R "Suc n"] Cons.prems g2 time(2) sendable_key [of ?S amS] by auto
    have "\<not> isDuplicate ?nonce (am_dedup amR)" using step(1) by (auto simp: inStep_def)
    then have "carries Es (sentFrames (q # qs) (i # js)) n amR"
      using r(3) q(3,4) Some Cons.prems(4,5) n12 time(1) by (auto simp: sentFrames_def)
    then show ?thesis using q r by (intro exI [of _ amS'] exI [of _ "q # qs"]) simp
  qed
qed

section \<open>Reading gets on\<close>

text \<open>What the read loop waits for lies ahead of what it has, so every read brings something.\<close>

definition awaits :: "int \<Rightarrow> read_state \<Rightarrow> bool" where
  "awaits i r \<longleftrightarrow> rd_expected r \<le> 0 \<or> rd_used r - i < rd_expected r"

lemma parse_awaits:
  "parseMessages M c tag i r s = Some (i', r', s', KeepReading) \<Longrightarrow> i \<le> rd_used r \<Longrightarrow> i < rd_used r \<or> awaits i r
    \<Longrightarrow> rd_used r' = rd_used r \<and> i' \<le> rd_used r \<and> awaits i' r'"
proof (induction M c tag i r s rule: parseMessages.induct)
  case (1 M c tag i r s)
  note def = parseMessages.simps [of M c tag i r s]
  consider "rd_used r \<le> i" | "i < rd_used r" "rd_used r - i < HeaderSize" | (go) "i < rd_used r" "HeaderSize \<le> rd_used r - i" by linarith
  then show ?case
  proof cases
    case 1
    then show ?thesis using "1.prems" def by simp
  next
    case 2
    then show ?thesis using "1.prems"(1) def by (auto simp: awaits_def)
  next
    case go
    let ?start = "rc_bufferOffset c + i"
    obtain header where h: "sl_range (full_slice (rd_buf r)) ?start (?start + HeaderSize) = Some header"
      using "1.prems"(1) def go by (auto simp: Let_def split: option.splits)
    let ?n = "HeaderSize + frameLength (sl_data header)"
    have ok: "\<not> badLength c (mo_authed M s) (frameLength (sl_data header))"
      using "1.prems"(1) def go h by (auto simp: Let_def)
    show ?thesis
    proof (cases "rd_used r - i < ?n")
      case True
      then show ?thesis using "1.prems"(1) def go h ok by (auto simp: Let_def awaits_def)
    next
      case False
      obtain m buf where m: "takeMessage c tag (mo_fresh M s) (mo_authed M s) (rd_used r - i = ?n) ?start ?n (rd_buf r) = Some (m, buf)"
        using "1.prems"(1) def go h ok False by (auto simp: Let_def split: option.splits)
      obtain s1 where s1: "mo_handle M m s = Some (s1, KeepReading)"
        using "1.prems"(1) def go h ok False m by (auto simp: Let_def split: option.splits read_flow.splits)
      have "parseMessages M c tag (i + ?n) (r\<lparr>rd_buf := buf, rd_expected := 0\<rparr>) s1 = Some (i', r', s', KeepReading)"
        using "1.prems"(1) def go h ok False m s1 by (simp add: Let_def)
      moreover have "\<not> rd_used r \<le> i" "\<not> rd_used r - i < HeaderSize" using go by linarith+
      ultimately show ?thesis
        using "1.IH" [OF _ _ refl h refl ok False m refl s1 refl] False by (auto simp: awaits_def)
    qed
  qed
qed

abbreviation able :: "read_state \<Rightarrow> bool" where
  "able r \<equiv> awaits 0 r \<and> 0 \<le> rd_used r"

lemma pass_awaits:
  assumes "readPass M c tag xs r s = Some (r', s', KeepReading)" "able r"
  shows "able r'"
proof -
  let ?r = "r\<lparr>rd_buf := blit (rd_buf r) (nat (rc_bufferOffset c + rd_used r)) xs, rd_used := rd_used r + int (length xs)\<rparr>"
  obtain i r2 s2 flow where p: "parseMessages M c tag 0 ?r s = Some (i, r2, s2, flow)"
    using assms(1) by (cases "parseMessages M c tag 0 ?r s") (auto simp: readPass_def)
  then have k: "flow = KeepReading" "r' = shiftBuffer c i r2" "s2 = s'"
    using assms(1) by (cases flow; simp add: readPass_def Let_def)+
  have "0 < rd_used ?r \<or> awaits 0 ?r" "0 \<le> rd_used ?r"
    using assms(2) by (cases "xs = []"; auto simp: awaits_def)+
  then have "awaits i r2" "i \<le> rd_used r2" "rd_used r2 = rd_used ?r" "0 \<le> rd_used ?r"
    using parse_awaits [OF p [unfolded k(1)]] by simp_all
  then show ?thesis using k(2) by (auto simp: awaits_def shiftBuffer_def)
qed

lemma readRun_progress:
  "readRun M c tag ns xs r s = Some (xs', r', s', KeepReading) \<Longrightarrow> able r \<Longrightarrow> \<forall>n \<in> set ns. 0 < n
    \<Longrightarrow> length xs' \<le> length xs - length ns"
proof (induction ns arbitrary: xs r s)
  case (Cons n ns)
  let ?k = "min n (nat (readSize c r))"
  have room: "0 < readRoom c r" using Cons.prems(1) by (auto split: if_splits)
  then obtain r1 s1 flow where p: "readPass M c tag (take ?k xs) r s = Some (r1, s1, flow)"
    using Cons.prems(1) by (auto simp: Let_def option_bind_eq_Some)
  then have f: "flow = KeepReading" "readRun M c tag ns (drop ?k xs) r1 s1 = Some (xs', r', s', KeepReading)"
    using Cons.prems(1) room by (cases flow; simp add: Let_def)+
  obtain k where k: "k = ?k" by blast
  have "1 \<le> k" using Cons.prems(2,3) room unfolding k by (auto simp: readSize_def awaits_def)
  moreover have "length xs' \<le> length (drop k xs) - length ns"
    using Cons.IH [OF f(2) [folded k]] pass_awaits [OF p [unfolded f(1)] Cons.prems(2)] Cons.prems(3) by simp
  ultimately show ?case by simp
qed simp

lemma new_able: "able (newReadState buf)"
  by (simp add: newReadState_def awaits_def)


section \<open>Batches\<close>

text \<open>The bytes \<open>out\<close> are what the socket gets for a batch that is sent, however its writes are cut short.\<close>

definition batchSent :: "packet list \<Rightarrow> bytes \<Rightarrow> bool" where
  "batchSent qs out \<longleftrightarrow> (\<exists>deadline rs s. sendPacketBatch True deadline rs qs = Some (out, s, BatchSent))"

lemma batch_bytes:
  assumes "batchSent qs out" "\<And>q. q \<in> set qs \<Longrightarrow> readable q"
  shows "out = concat (map pk_bytes qs)"
proof -
  obtain deadline rs s where b: "sendPacketBatch True deadline rs qs = Some (out, s, BatchSent)"
    using assms(1) by (auto simp: batchSent_def)
  obtain ds where ds: "those (map getData qs) = Some ds" "map sl_data ds = map pk_bytes qs"
    using those_readable [OF assms(2)] by blast
  show ?thesis
  proof (cases "qs = [] \<or> \<not> deadline")
    case True
    then show ?thesis using b by (auto simp: sendPacketBatch_def Let_def split: if_split_asm)
  next
    case False
    then have "writeBuffers rs (map pk_bytes qs) (writeStart qs) = Some (out, s, BatchSent)"
      using ds b by (simp add: sendPacketBatch_def Let_def)
    then show ?thesis using writeBuffers_writing [OF writing_start assms(2), of qs "map pk_bytes qs" rs] by auto
  qed
qed

lemma batches_bytes:
  "list_all2 batchSent qss bss \<Longrightarrow> \<forall>q \<in> set (concat qss). readable q \<Longrightarrow> concat bss = concat (map pk_bytes (concat qss))"
  by (induction rule: list_all2_induct) (auto dest!: batch_bytes)


section \<open>Property\<close>

lemma sent_data:
  "length qs = length is \<Longrightarrow> map (\<lambda>(m, cid, d). (routedID own cid, d)) (sentFrames qs is)
    = map (\<lambda>j. (routedID own (pk_connID (wi_packet j)), pk_bytes (wi_packet j))) is"
  by (induction qs "is" rule: list_induct2) (simp_all add: sentFrames_def)

text \<open>C2. A connection of a TCP tunnel carries data from end to end: the packets that one end wraps one after
  the other and writes in batches, however the batches are cut and their writes cut short, are read at the other end,
  however the bytes arrive, and given to its router with exactly the same data in the same order, each under the
  connection id it was sent with, or that of the connection when it had none. The connection always goes on, and as many
  reads as there are bytes bring all of them. The packets have room for the header and fit the buffer of the
  reader (with encryption 52 bytes less than the buffer size: \<open>oversized_packet_ends_connection\<close>); with encryption
  both ends have the same key, the sender's frame of nonces is not used up and the receiver has not seen the rest of it,
  and no packet is older than the data timeout when it is read.\<close>

theorem tunnel_stream_delivers:
  assumes "C = listenComponent \<or> C = forwardComponent" "healthy c i (rw_t w)" "\<forall>n. fine_env c (Es n)" "pool_mem c buf"
    and w: "tn_authed (tnAt (rw_t w) i)" "rw_routed w = []"
    and cr: "gcm_laws cr" "\<forall>n. te_crypto (Es n) = cr"
    and send: "\<forall>j \<in> set is. sendable cs c amS j" "poolSize cs < 2 ^ 32" "activeKey amS = activeKey (tu_auth (rw_t w))"
    and key: "activeKey amS \<noteq> None \<Longrightarrow> inStep amS (tu_auth (rw_t w)) (length is) \<and> readInTime Es (rw_count w) (tu_auth (rw_t w)) is"
  shows "\<exists>amS' qs. wrapEach cr cs amS is = Some (amS', qs) \<and> length qs = length is
    \<and> (\<forall>qss bss ns. concat qss = qs \<and> list_all2 batchSent qss bss \<longrightarrow>
        (\<exists>xs' r x. tunnelReadLoop C Es ad i ns (concat bss) buf w = Some (xs', r, x, KeepReading)
          \<and> ((\<forall>n \<in> set ns. 0 < n) \<and> length (concat bss) \<le> length ns \<longrightarrow> xs' = [])
          \<and> (xs' = [] \<longrightarrow> map (\<lambda>q. (pk_connID q, pk_bytes q)) (rw_routed x)
              = map (\<lambda>j. (routedID (tn_connID (tnAt (rw_t w) i)) (pk_connID (wi_packet j)), pk_bytes (wi_packet j))) is)))"
proof -
  obtain amS' qs where q: "wrapEach cr cs amS is = Some (amS', qs)" "length qs = length is"
      "carries Es (sentFrames qs is) (rw_count w) (tu_auth (rw_t w))" "\<forall>q \<in> set qs. pk_wf cs q \<and> int (length (pk_bytes q)) \<le> rc_bufferSize c"
    using wrapEach_carries [OF send(1,2) cr send(3) key] by blast
  have fit: "\<forall>m \<in> set (map fst (sentFrames qs is)). int (length m) \<le> rc_bufferSize c"
    using q(4) sent_bytes [OF q(2)] by simp
  have read: "\<exists>xs' r x. tunnelReadLoop C Es ad i ns (concat bss) buf w = Some (xs', r, x, KeepReading)
      \<and> ((\<forall>n \<in> set ns. 0 < n) \<and> length (concat bss) \<le> length ns \<longrightarrow> xs' = [])
      \<and> (xs' = [] \<longrightarrow> map (\<lambda>q. (pk_connID q, pk_bytes q)) (rw_routed x)
          = map (\<lambda>j. (routedID (tn_connID (tnAt (rw_t w) i)) (pk_connID (wi_packet j)), pk_bytes (wi_packet j))) is)"
    if b: "concat qss = qs" "list_all2 batchSent qss bss" for qss bss ns
  proof -
    have "\<forall>q \<in> set (concat qss). readable q" using q(4) b(1) getData_wf by (auto simp: readable_def)
    then have bytes: "concat bss = concat (map fst (sentFrames qs is))"
      using batches_bytes [OF b(2)] b(1) sent_bytes [OF q(2)] by simp
    obtain xs' r x where l: "tunnelReadLoop C Es ad i ns (concat bss) buf w = Some (xs', r, x, KeepReading)"
        "xs' = [] \<longrightarrow> map (\<lambda>q. (pk_connID q, pk_bytes q)) (rw_routed x)
          = map (\<lambda>(m, cid, d). (routedID (tn_connID (tnAt (rw_t w) i)) cid, d)) (sentFrames qs is)"
      using frames_delivered [OF assms(1-4) w q(3) fit, of ad ns] unfolding bytes by blast
    have "xs' = []" if "\<forall>n \<in> set ns. 0 < n" "length (concat bss) \<le> length ns"
      using readRun_progress [OF l(1) [unfolded tunnelReadLoop_def] new_able that(1)] that(2) by simp
    then show ?thesis using l unfolding sent_data [OF q(2)] by blast
  qed
  show ?thesis using q(1,2) read by blast
qed


lemma batch_whole:
  assumes "\<forall>q \<in> set qs. readable q"
  shows "batchSent qs (concat (map pk_bytes qs))"
proof (cases "qs = []")
  case True
  then show ?thesis by (auto simp: batchSent_def sendPacketBatch_def Let_def)
next
  case False
  obtain ds where ds: "those (map getData qs) = Some ds" "map sl_data ds = map pk_bytes qs"
    using those_readable [of qs] assms by blast
  obtain s where s: "writeBuffers [] (map pk_bytes qs) (writeStart qs) = Some (concat (map pk_bytes qs), s, BatchSent)"
    using writeSome_writing [OF writing_start, of qs "map pk_bytes qs" "length (concat (map pk_bytes qs))"] assms
    using False by (auto simp: batchEnds_def)
  have "sendPacketBatch True True [] qs = Some (concat (map pk_bytes qs), s, BatchSent)"
    using False ds s by (simp add: sendPacketBatch_def Let_def del: writeBuffers.simps)
  then show ?thesis unfolding batchSent_def by blast
qed

definition demoInput :: "conn_id \<Rightarrow> wrap_input" where
  "demoInput cid = \<lparr>wi_now = 0, wi_rand = None, wi_mem = replicate 164 0, wi_mem2 = replicate 164 0,
     wi_packet = demoPacket\<lparr>pk_connID := cid\<rparr>\<rparr>"

lemma demo_sendable: "sendable demoConfig demoConfig am (demoInput cid)"
proof -
  have "pk_wf demoConfig (demoPacket\<lparr>pk_connID := cid\<rparr>)" using demo_packet(1) by (simp add: pk_full_def pk_wf_def)
  then show ?thesis
    using demo_packet demo_pool by (simp add: sendable_def demoInput_def stampable_def) (simp add: demoConfig_def)
qed

text \<open>Two packets over an encrypted connection, the second without a connection id, a byte at a time.\<close>

theorem tunnel_stream_delivers_witness:
  "\<exists>amS' qs r x. wrapEach demoCrypto demoConfig (demoManager True (replicate 8 1)) [demoInput 5, demoInput 0] = Some (amS', qs)
    \<and> tunnelReadLoop listenComponent (\<lambda>_. demoTunnelEnv) (demoAddr 9) 0 (replicate 200 1) (concat (map pk_bytes qs)) (replicate 164 0)
        (demoReadWorld True True) = Some ([], r, x, KeepReading)
    \<and> map (\<lambda>q. (pk_connID q, pk_bytes q)) (rw_routed x) = [(5, [7, 8, 9]), (7, [7, 8, 9])]"
proof -
  let ?S = "demoManager True (replicate 8 1)" and ?is = "[demoInput 5, demoInput 0]" and ?w = "demoReadWorld True True"
  have send: "\<forall>j \<in> set ?is. sendable demoConfig demoConfig ?S j" "poolSize demoConfig < 2 ^ 32"
      "activeKey ?S = activeKey (tu_auth (rw_t ?w))" "\<forall>n::nat. te_crypto demoTunnelEnv = demoCrypto"
    by (simp_all add: demo_sendable demo_reader demo_manager demoTunnelEnv_def)
  have key: "inStep ?S (tu_auth (rw_t ?w)) (length ?is) \<and> readInTime (\<lambda>_. demoTunnelEnv) (rw_count ?w) (tu_auth (rw_t ?w)) ?is"
    by (simp add: inStep_def demo_reader demo_manager new_inv [unfolded newDeduplicationManager_def] BitmapSize_def isDuplicate_def newDeduplicationManager_def
        readInTime_def demoTunnelEnv_def demoInput_def All_less_Suc time_sub_def timeOfMilli_def unixMilli_def
        DefaultDataTimeout_def ns_milli_def ns_second_def min_i64_def max_i64_def)
  obtain amS' qs where q: "wrapEach demoCrypto demoConfig ?S ?is = Some (amS', qs)" "length qs = length ?is"
      "\<forall>q \<in> set qs. pk_wf demoConfig q \<and> int (length (pk_bytes q)) \<le> rc_bufferSize demoConfig"
    using wrapEach_carries [OF send(1,2) demo_laws(1) send(4) send(3) key] by blast
  obtain q1 q2 where two: "qs = [q1, q2]" using q(2) by (auto simp: length_Suc_conv)
  have len: "length (concat [concat (map pk_bytes qs)]) \<le> length (replicate 200 (1::nat))"
    using q(3) by (simp add: two demoConfig_def)
  have sent: "concat [qs] = qs \<and> list_all2 batchSent [qs] [concat (map pk_bytes qs)]"
    using batch_whole [of qs] q(3) getData_wf by (auto simp: readable_def)
  obtain amT qs' where t: "wrapEach demoCrypto demoConfig ?S ?is = Some (amT, qs')"
      "\<And>qss bss ns. concat qss = qs' \<and> list_all2 batchSent qss bss \<Longrightarrow>
        (\<exists>xs' r x. tunnelReadLoop listenComponent (\<lambda>_. demoTunnelEnv) (demoAddr 9) 0 ns (concat bss) (replicate 164 0) ?w = Some (xs', r, x, KeepReading)
          \<and> ((\<forall>n \<in> set ns. 0 < n) \<and> length (concat bss) \<le> length ns \<longrightarrow> xs' = [])
          \<and> (xs' = [] \<longrightarrow> map (\<lambda>q. (pk_connID q, pk_bytes q)) (rw_routed x)
              = map (\<lambda>j. (routedID (tn_connID (tnAt (rw_t ?w) 0)) (pk_connID (wi_packet j)), pk_bytes (wi_packet j))) ?is))"
    using tunnel_stream_delivers [OF disjI1 [OF refl] demo_reader(1) demo_fine demo_pool demo_reader(2) [THEN iffD2, OF TrueI] demo_reader(4)
        demo_laws(1) send(4) send(1-3) key, of "demoAddr 9"] by blast
  have "qs' = qs" using t(1) q(1) by simp
  from t(2) [OF sent [folded this], of "replicate 200 1"]
  obtain xs' r x where l: "tunnelReadLoop listenComponent (\<lambda>_. demoTunnelEnv) (demoAddr 9) 0 (replicate 200 1) (concat [concat (map pk_bytes qs)])
        (replicate 164 0) ?w = Some (xs', r, x, KeepReading)"
      "(\<forall>n \<in> set (replicate 200 1). 0 < (n::nat)) \<and> length (concat [concat (map pk_bytes qs)]) \<le> length (replicate 200 (1::nat)) \<longrightarrow> xs' = []"
      "xs' = [] \<longrightarrow> map (\<lambda>q. (pk_connID q, pk_bytes q)) (rw_routed x)
        = map (\<lambda>j. (routedID (tn_connID (tnAt (rw_t ?w) 0)) (pk_connID (wi_packet j)), pk_bytes (wi_packet j))) ?is"
    unfolding \<open>qs' = qs\<close> by (elim exE conjE)
  have empty: "xs' = []" using l(2) len by simp
  have r: "tunnelReadLoop listenComponent (\<lambda>_. demoTunnelEnv) (demoAddr 9) 0 (replicate 200 1) (concat (map pk_bytes qs))
        (replicate 164 0) ?w = Some (xs', r, x, KeepReading)" "xs' = []"
      "map (\<lambda>q. (pk_connID q, pk_bytes q)) (rw_routed x)
        = map (\<lambda>j. (routedID (tn_connID (tnAt (rw_t ?w) 0)) (pk_connID (wi_packet j)), pk_bytes (wi_packet j))) ?is"
    using l(1) l(3) empty by simp_all
  have "pk_bytes (demoPacket\<lparr>pk_connID := cid\<rparr>) = [7, 8, 9]" for cid using demo_packet(2) by (simp add: pk_bytes_def)
  then have "map (\<lambda>q. (pk_connID q, pk_bytes q)) (rw_routed x) = [(5, [7, 8, 9]), (7, [7, 8, 9])]"
    using r(3) by (simp add: demoInput_def routedID_def demo_reader)
  then show ?thesis using q(1) r(1) [unfolded r(2)] by (intro exI conjI)
qed

end
