(* ===== verification/UdpBatch.thy ===== *)
theory UdpBatch
  imports Listen
begin

text \<open>
  The batched UDP sockets of \<open>udp_batch.go\<close>. The writer builds one message per datagram, or one
  per run of equal-sized datagrams to the same address (GSO), hands the messages to the kernel in
  as few calls as it can, and adapts when the kernel rejects a run. The reader cuts what the kernel
  coalesced (GRO) back into datagrams, each in a buffer of the pool.

  The kernel is a parameter: \<open>udp_kernel\<close> holds what \<open>WriteBatch\<close> and \<open>WriteTo\<close> answer in a kernel
  state and the datagrams that state has taken, and \<open>kernel_laws\<close> states the documented behaviour of
  \<open>sendmmsg\<close> and of the \<open>UDP_SEGMENT\<close> option. The two slices \<open>data\<close> and \<open>addrs\<close> of the code, which its
  callers always fill together, are one list of pairs; a nil \<open>addrs\<close> is a list without addresses.
\<close>

section \<open>Options, messages and the writer\<close>

definition defaultUDPBatchSize :: int where "defaultUDPBatchSize = 64"
definition udpGROBufSize :: nat where "udpGROBufSize = 65535"
definition udpGROMaxBatch :: int where "udpGROMaxBatch = 16"
definition udpGSOMaxSegs :: nat where "udpGSOMaxSegs = 64"
definition udpGSOMaxPayload :: nat where "udpGSOMaxPayload = 65000"
definition udpGSOMaxSegSize :: nat where "udpGSOMaxSegSize = 1452"

record udp_io_options =
  uo_batchSize :: int
  uo_offload :: bool

text \<open>\<open>supported\<close> is \<open>udpBatchSupported\<close>, a constant of the operating system's build.\<close>

definition newUDPIOOptions :: "bool \<Rightarrow> int \<Rightarrow> bool option \<Rightarrow> udp_io_options" where
  "newUDPIOOptions supported batch off =
     (if \<not> supported then \<lparr>uo_batchSize = 1, uo_offload = False\<rparr>
      else \<lparr>uo_batchSize = (if batch \<le> 0 then defaultUDPBatchSize else batch),
            uo_offload = (case off of None \<Rightarrow> True | Some b \<Rightarrow> b)\<rparr>)"

datatype udp_error = EIO | EINVAL | EMSGSIZE | ENOPROTOOPT | EOPNOTSUPP | NoProgress | OtherError string

fun isUDPGSOError :: "udp_error \<Rightarrow> bool" where
  "isUDPGSOError EIO = True"
| "isUDPGSOError EINVAL = True"
| "isUDPGSOError EMSGSIZE = True"
| "isUDPGSOError ENOPROTOOPT = True"
| "isUDPGSOError EOPNOTSUPP = True"
| "isUDPGSOError _ = False"

fun isUDPGSOSizeError :: "udp_error \<Rightarrow> bool" where
  "isUDPGSOSizeError EINVAL = True"
| "isUDPGSOSizeError EMSGSIZE = True"
| "isUDPGSOSizeError _ = False"

text \<open>A datagram and where it goes.\<close>

type_synonym datagram = "bytes \<times> addr option"

text \<open>
  A message for the kernel: the buffers, the address, the segment size of its control message, and
  the entry of \<open>starts\<close> for it, the index of its first datagram.
\<close>

record batch_msg =
  bm_bufs :: "bytes list"
  bm_addr :: "addr option"
  bm_seg :: "16 word option"
  bm_start :: nat

record udp_writer =
  uw_slots :: nat
  uw_gso :: bool
  uw_maxSeg :: nat
  uw_shrink :: nat

definition newUDPBatchWriter :: "udp_io_options \<Rightarrow> udp_writer" where
  "newUDPBatchWriter opts =
     \<lparr>uw_slots = (if 1 < uo_batchSize opts \<or> uo_offload opts then nat (max (uo_batchSize opts) 1) else 0),
      uw_gso = uo_offload opts, uw_maxSeg = udpGSOMaxSegSize, uw_shrink = 0\<rparr>"

definition maxBatch :: "udp_writer \<Rightarrow> nat" where
  "maxBatch w = max (uw_slots w) 1"

text \<open>
  Two interface values are equal when they are both nil or hold the same pointer; the second
  disjunct covers equal pointers to a \<open>UDPAddr\<close>.
\<close>

definition sameUDPAddr :: "addr option \<Rightarrow> addr option \<Rightarrow> bool" where
  "sameUDPAddr a b \<longleftrightarrow> a = b \<or>
     (case (a, b) of
        (Some (UDPAddr ip1 port1 zone1), Some (UDPAddr ip2 port2 zone2)) \<Rightarrow>
          port1 = port2 \<and> ipEqual ip1 ip2 \<and> zone1 = zone2
      | _ \<Rightarrow> False)"

section \<open>Building the messages\<close>

text \<open>
  The inner loop of \<open>Write\<close>: the datagrams that join a run of segments of size \<open>seg\<close> to \<open>a\<close>, of
  which \<open>tot\<close> bytes in \<open>k\<close> buffers are there, and the datagrams after it.
\<close>

fun growRun :: "nat \<Rightarrow> addr option \<Rightarrow> nat \<Rightarrow> nat \<Rightarrow> datagram list \<Rightarrow> bytes list \<times> datagram list" where
  "growRun seg a tot k [] = ([], [])"
| "growRun seg a tot k ((d, b) # ds) =
     (if udpGSOMaxSegs \<le> k then ([], (d, b) # ds)
      else if length d = 0 \<or> seg < length d \<or> udpGSOMaxPayload < tot + length d \<or> \<not> sameUDPAddr b a
      then ([], (d, b) # ds)
      else if length d < seg then ([d], ds)
      else (let (run, after) = growRun seg a (tot + length d) (k + 1) ds in (d # run, after)))"

text \<open>The condition of that loop that does not change while it runs.\<close>

definition takeRun :: "udp_writer \<Rightarrow> bytes \<Rightarrow> addr option \<Rightarrow> datagram list \<Rightarrow> bytes list \<times> datagram list" where
  "takeRun w d a ds =
     (if uw_gso w \<and> 0 < length d \<and> length d \<le> uw_maxSeg w then growRun (length d) a (length d) 1 ds else ([], ds))"

text \<open>The outer loop: \<open>slots\<close> messages are free and \<open>i\<close> is the index of the first datagram left.\<close>

fun buildMsgs :: "udp_writer \<Rightarrow> nat \<Rightarrow> nat \<Rightarrow> datagram list \<Rightarrow> batch_msg list" where
  "buildMsgs w 0 i ds = []"
| "buildMsgs w (Suc slots) i [] = []"
| "buildMsgs w (Suc slots) i ((d, a) # ds) =
     (let (run, after) = takeRun w d a ds;
          m = \<lparr>bm_bufs = d # run, bm_addr = a,
               bm_seg = (if run = [] then None else Some (word_of_nat (length d))), bm_start = i\<rparr>
      in m # buildMsgs w slots (i + 1 + length run) after)"

section \<open>Handing the messages over\<close>

record 'k udp_kernel =
  uk_batch :: "batch_msg list \<Rightarrow> 'k \<Rightarrow> 'k \<times> int \<times> udp_error option"
  uk_write :: "datagram \<Rightarrow> 'k \<Rightarrow> 'k \<times> udp_error option"
  uk_taken :: "'k \<Rightarrow> datagram list"

text \<open>The loop over \<open>WriteBatch\<close>: the message at which it stopped and why, if it did.\<close>

function sendMsgs :: "('k, 'x) udp_kernel_scheme \<Rightarrow> batch_msg list \<Rightarrow> 'k \<Rightarrow> 'k \<times> (batch_msg \<times> udp_error) option" where
  "sendMsgs K [] k = (k, None)"
| "sendMsgs K (m # ms) k =
     (case uk_batch K (m # ms) k of (k', n, err) \<Rightarrow>
        (case err of Some e \<Rightarrow> (k', Some (m, e))
         | None \<Rightarrow> if n \<le> 0 then (k', Some (m, NoProgress)) else sendMsgs K (drop (nat n) (m # ms)) k'))"
  by pat_completeness auto
termination
  by (relation "measure (\<lambda>(K, ms, k). length ms)") auto

definition onGSOError :: "nat \<Rightarrow> udp_error \<Rightarrow> udp_writer \<Rightarrow> udp_writer" where
  "onGSOError seg e w =
     (if isUDPGSOSizeError e \<and> uw_shrink w < 8 \<and> 576 < seg
      then w\<lparr>uw_maxSeg := seg - 1, uw_shrink := uw_shrink w + 1\<rparr>
      else w\<lparr>uw_gso := False\<rparr>)"

text \<open>The unbatched writer: one call per datagram, up to the first error.\<close>

fun writeEach :: "('k, 'x) udp_kernel_scheme \<Rightarrow> datagram list \<Rightarrow> nat \<Rightarrow> 'k \<Rightarrow> 'k \<times> nat \<times> udp_error option" where
  "writeEach K [] i k = (k, i, None)"
| "writeEach K (d # ds) i k =
     (case uk_write K d k of (k', err) \<Rightarrow>
        (case err of Some e \<Rightarrow> (k', i, Some e) | None \<Rightarrow> writeEach K ds (i + 1) k'))"

lemma sendMsgs_stops_in: "sendMsgs K ms k = (k', Some (m, e)) \<Longrightarrow> m \<in> set ms"
proof (induction K ms k rule: sendMsgs.induct)
  case (2 K m0 ms k)
  show ?case
  proof (rule ccontr)
    assume n: "m \<notin> set (m0 # ms)"
    then have "m \<notin> set (drop j (m0 # ms))" for j using in_set_dropD by metis
    then show False using 2 n by (auto split: prod.splits option.splits if_splits)
  qed
qed simp

lemma buildMsgs_Cons:
  "takeRun w d a ds = (run, after) \<Longrightarrow> buildMsgs w (Suc slots) i ((d, a) # ds)
     = \<lparr>bm_bufs = d # run, bm_addr = a, bm_seg = (if run = [] then None else Some (word_of_nat (length d))), bm_start = i\<rparr>
       # buildMsgs w slots (i + 1 + length run) after"
  by (simp add: Let_def)

lemma buildMsgs_induct [case_names none empty msg]:
  assumes "\<And>i ds. P 0 i ds" "\<And>slots i. P (Suc slots) i []"
    "\<And>slots i d a ds run after. takeRun w d a ds = (run, after) \<Longrightarrow> P slots (i + 1 + length run) after \<Longrightarrow> P (Suc slots) i ((d, a) # ds)"
  shows "P slots i ds"
proof (induction slots arbitrary: i ds)
  case 0
  show ?case by (rule assms(1))
next
  case (Suc slots i ds)
  show ?case
  proof (cases ds)
    case Nil
    then show ?thesis using assms(2) by simp
  next
    case (Cons p ds')
    obtain d a where "p = (d, a)" by (cases p)
    moreover obtain run after where "takeRun w d a ds' = (run, after)" by (cases "takeRun w d a ds'")
    ultimately show ?thesis using assms(3) Suc Cons by simp
  qed
qed

lemma takeRun_gso: "takeRun w d a ds = (run, after) \<Longrightarrow> run \<noteq> [] \<Longrightarrow> uw_gso w \<and> length d \<le> uw_maxSeg w"
  by (auto simp: takeRun_def split: if_splits)

lemma buildMsgs_run_gso: "m \<in> set (buildMsgs w slots i ds) \<Longrightarrow> 1 < length (bm_bufs m) \<Longrightarrow> uw_gso w"
proof (induction slots i ds rule: buildMsgs_induct [where w = w])
  case (msg slots i d a ds run after)
  then show ?case using takeRun_gso [OF msg(1)] by (auto simp: buildMsgs_Cons [OF msg(1)] simp del: buildMsgs.simps)
qed simp_all

lemma buildMsgs_Nil_iff: "buildMsgs w slots i ds = [] \<longleftrightarrow> slots = 0 \<or> ds = []"
  by (cases "(w, slots, i, ds)" rule: buildMsgs.cases) (auto simp: Let_def split: prod.splits)

lemma buildMsgs_nonempty: "m \<in> set (buildMsgs w slots i ds) \<Longrightarrow> bm_bufs m \<noteq> []"
proof (induction slots i ds rule: buildMsgs_induct [where w = w])
  case (msg slots i d a ds run after)
  then show ?case by (auto simp: buildMsgs_Cons [OF msg(1)] simp del: buildMsgs.simps)
qed simp_all

text \<open>How often \<open>Write\<close> can still call itself because a run was rejected.\<close>

definition gso_retries :: "udp_writer \<Rightarrow> nat" where
  "gso_retries w = (if uw_gso w then 9 - min 8 (uw_shrink w) else 0)"

lemma onGSOError_retries: "uw_gso w \<Longrightarrow> gso_retries (onGSOError seg e w) < gso_retries w"
  by (auto simp: onGSOError_def gso_retries_def)

lemma rejected_run_retries:
  "ms = buildMsgs w slots i ds \<Longrightarrow> (k', Some (m, e)) = sendMsgs K ms k \<Longrightarrow> 1 < length (bm_bufs m)
    \<Longrightarrow> gso_retries (onGSOError seg e' w) < gso_retries w"
  using buildMsgs_run_gso sendMsgs_stops_in onGSOError_retries by metis

lemma length_buildMsgs: "length (buildMsgs w slots i ds) \<le> slots"
proof (induction slots i ds rule: buildMsgs_induct [where w = w])
  case (msg slots i d a ds run after)
  then show ?case by (simp add: buildMsgs_Cons [OF msg(1)] del: buildMsgs.simps)
qed simp_all

lemma buildMsgs_last: "ms = buildMsgs w slots i ds \<Longrightarrow> ms \<noteq> [] \<Longrightarrow> 0 < length (bm_bufs (last ms))"
  using buildMsgs_nonempty last_in_set by blast

function udpWrite :: "('k, 'x) udp_kernel_scheme \<Rightarrow> udp_writer \<Rightarrow> datagram list \<Rightarrow> 'k
    \<Rightarrow> 'k \<times> udp_writer \<times> nat \<times> udp_error option" where
  "udpWrite K w ds k =
     (if uw_slots w = 0
      then (case writeEach K ds 0 k of (k', n, err) \<Rightarrow> (k', w, n, err))
      else
        (let ms = buildMsgs w (uw_slots w) 0 ds in
         case sendMsgs K ms k of (k', stop) \<Rightarrow>
           (case stop of
              Some (m, e) \<Rightarrow>
                if 1 < length (bm_bufs m) \<and> isUDPGSOError e
                then (case udpWrite K (onGSOError (length (hd (bm_bufs m))) e w) (drop (bm_start m) ds) k' of
                        (k2, w2, n, err) \<Rightarrow> (k2, w2, bm_start m + n, err))
                else (k', w, bm_start m, Some e)
            | None \<Rightarrow>
                if ms \<noteq> [] \<and> bm_start (last ms) + length (bm_bufs (last ms)) < length ds
                then (case udpWrite K w (drop (bm_start (last ms) + length (bm_bufs (last ms))) ds) k' of
                        (k2, w2, n, err) \<Rightarrow> (k2, w2, bm_start (last ms) + length (bm_bufs (last ms)) + n, err))
                else (k', w, length ds, None))))"
  by pat_completeness auto
termination
proof (relation "measures [\<lambda>(K, w, ds, k). length ds, \<lambda>(K, w, ds, k). gso_retries w]", goal_cases)
  case 1
  show ?case by simp
next
  case 2
  then show ?case using buildMsgs_last [OF 2(2)] by (simp del: length_greater_0_conv)
next
  case 3
  then show ?case using rejected_run_retries [OF 3(2)] by fastforce
qed

declare udpWrite.simps [simp del]

section \<open>What the kernel makes of a message\<close>

text \<open>A \<open>UDP_SEGMENT\<close> send is cut into datagrams of the given size, of which the last may be shorter.\<close>

function segments :: "nat \<Rightarrow> bytes \<Rightarrow> bytes list" where
  "segments s bs = (if s = 0 \<or> length bs \<le> s then [bs] else take s bs # segments s (drop s bs))"
  by pat_completeness auto
termination
  by (relation "measure (\<lambda>(s, bs). length bs)") auto

declare segments.simps [simp del]

definition msgDatagrams :: "batch_msg \<Rightarrow> datagram list" where
  "msgDatagrams m =
     (case bm_seg m of None \<Rightarrow> [(concat (bm_bufs m), bm_addr m)]
      | Some s \<Rightarrow> map (\<lambda>x. (x, bm_addr m)) (segments (unat s) (concat (bm_bufs m))))"

abbreviation allDatagrams :: "batch_msg list \<Rightarrow> datagram list" where
  "allDatagrams ms \<equiv> concat (map msgDatagrams ms)"

text \<open>
  \<open>sendmmsg\<close> takes a prefix of the messages and tells its length, or fails at the first one;
  \<open>sendto\<close> takes the datagram or fails.
\<close>

definition kernel_laws :: "('k, 'x) udp_kernel_scheme \<Rightarrow> bool" where
  "kernel_laws K \<longleftrightarrow>
     (\<forall>ms k k' n. uk_batch K ms k = (k', n, None) \<longrightarrow>
        n \<le> int (length ms) \<and> uk_taken K k' = uk_taken K k @ allDatagrams (take (nat n) ms))
   \<and> (\<forall>ms k k' n e. uk_batch K ms k = (k', n, Some e) \<longrightarrow> uk_taken K k' = uk_taken K k)
   \<and> (\<forall>d k k'. uk_write K d k = (k', None) \<longrightarrow> uk_taken K k' = uk_taken K k @ [d])
   \<and> (\<forall>d k k' e. uk_write K d k = (k', Some e) \<longrightarrow> uk_taken K k' = uk_taken K k)"

text \<open>The same bytes to the same address; the IPv4 and the mapped IPv6 form of an address are the same.\<close>

definition sameDatagram :: "datagram \<Rightarrow> datagram \<Rightarrow> bool" where
  "sameDatagram x y \<longleftrightarrow> fst x = fst y \<and> sameUDPAddr (snd y) (snd x)"

lemma sameDatagram_refl [simp]: "sameDatagram x x"
  by (simp add: sameDatagram_def sameUDPAddr_def)

lemma sameDatagrams_refl [simp]: "list_all2 sameDatagram xs xs"
  by (simp add: list_all2_refl)

definition writer_ok :: "udp_writer \<Rightarrow> bool" where
  "writer_ok w \<longleftrightarrow> uw_maxSeg w \<le> udpGSOMaxSegSize"

text \<open>The segments of a run: full ones, and a last one that may be shorter.\<close>

fun run_shape :: "nat \<Rightarrow> bytes list \<Rightarrow> bool" where
  "run_shape s [] \<longleftrightarrow> True"
| "run_shape s [d] \<longleftrightarrow> 0 < length d \<and> length d \<le> s"
| "run_shape s (d # d' # ds) \<longleftrightarrow> length d = s \<and> run_shape s (d' # ds)"

lemma run_shape_Cons: "run_shape s run \<Longrightarrow> length d = s \<Longrightarrow> 0 < s \<Longrightarrow> run_shape s (d # run)"
  by (cases run) auto

lemma run_shape_nonempty: "run_shape s run \<Longrightarrow> run \<noteq> [] \<Longrightarrow> concat run \<noteq> []"
  by (induction s run rule: run_shape.induct) auto

lemma run_shape_pos: "run_shape s run \<Longrightarrow> run \<noteq> [] \<Longrightarrow> 0 < s"
proof (induction s run rule: run_shape.induct)
  case (2 s d)
  then show ?case by (metis less_le_trans run_shape.simps(2))
qed auto

lemma segments_run: "run_shape s ds \<Longrightarrow> ds \<noteq> [] \<Longrightarrow> segments s (concat ds) = ds"
proof (induction s ds rule: run_shape.induct)
  case (2 s d)
  then show ?case by (simp add: segments.simps)
next
  case (3 s d d' ds)
  have "concat (d' # ds) \<noteq> []" using 3(2) run_shape_nonempty [of s "d' # ds"] by auto
  then have "segments s (concat (d # d' # ds)) = d # segments s (concat (d' # ds))"
    using 3 run_shape_pos [OF 3(2)] by (subst segments.simps) auto
  then show ?case using 3 by simp
qed simp

lemma growRun_spec:
  "growRun s a n k ds = (run, after) \<Longrightarrow> 0 < s
    \<Longrightarrow> run_shape s run \<and> (\<exists>joined. ds = joined @ after \<and> map fst joined = run \<and> (\<forall>x\<in>set joined. sameUDPAddr (snd x) a))"
proof (induction s a n k ds arbitrary: run rule: growRun.induct)
  case (2 s a n k d b ds)
  consider (no) "run = []" "after = (d, b) # ds"
    | (short) "run = [d]" "after = ds" "0 < length d" "length d < s" "sameUDPAddr b a"
    | (full) run' where "growRun s a (n + length d) (k + 1) ds = (run', after)" "run = d # run'" "length d = s" "sameUDPAddr b a"
      "\<not> udpGSOMaxSegs \<le> k" "\<not> (length d = 0 \<or> s < length d \<or> udpGSOMaxPayload < n + length d \<or> \<not> sameUDPAddr b a)" "\<not> length d < s"
    using 2(2) by (auto split: if_splits prod.splits)
  then show ?case
  proof cases
    case no
    then show ?thesis by simp
  next
    case short
    then show ?thesis by (auto intro: exI [of _ "[(d, b)]"])
  next
    case full
    from 2(1) [OF full(5,6,7) full(1) 2(3)] obtain joined where
      j: "run_shape s run'" "ds = joined @ after" "map fst joined = run'" "\<forall>x\<in>set joined. sameUDPAddr (snd x) a" by blast
    then show ?thesis using full(2-4) 2(3) by (auto simp: run_shape_Cons intro!: exI [of _ "(d, b) # joined"])
  qed
qed simp

lemma takeRun_spec:
  assumes "takeRun w d a ds = (run, after)"
  shows "\<exists>joined. ds = joined @ after \<and> map fst joined = run \<and> (\<forall>x\<in>set joined. sameUDPAddr (snd x) a)"
    and "run \<noteq> [] \<Longrightarrow> 0 < length d \<and> length d \<le> uw_maxSeg w \<and> run_shape (length d) (d # run)"
  using assms growRun_spec by (auto simp: takeRun_def run_shape_Cons split: if_splits)

text \<open>The kernel undoes the coalescing: the message of a run is the datagrams it was built from.\<close>

lemma run_datagrams:
  assumes "takeRun w d a ds = (run, after)" "writer_ok w"
  shows "msgDatagrams \<lparr>bm_bufs = d # run, bm_addr = a, bm_seg = (if run = [] then None else Some (word_of_nat (length d))), bm_start = i\<rparr>
    = map (\<lambda>x. (x, a)) (d # run)"
proof (cases "run = []")
  case True
  then show ?thesis by (simp add: msgDatagrams_def)
next
  case False
  then have r: "run_shape (length d) (d # run)" "length d \<le> 1452" using takeRun_spec(2) [OF assms(1)] assms(2)
    by (auto simp: writer_ok_def udpGSOMaxSegSize_def)
  then have "unat (word_of_nat (length d) :: 16 word) = length d" by (simp add: unat_of_nat)
  then show ?thesis using False segments_run [OF r(1)] by (simp add: msgDatagrams_def)
qed

lemma buildMsgs_prefix:
  assumes "writer_ok w"
  shows "buildMsgs w slots i ds = ms1 @ ms2 \<Longrightarrow>
    (\<exists>ds1 ds2. ds = ds1 @ ds2 \<and> list_all2 sameDatagram (allDatagrams ms1) ds1
       \<and> (ms2 \<noteq> [] \<longrightarrow> ds2 \<noteq> [] \<and> bm_start (hd ms2) = i + length ds1))"
proof (induction slots i ds arbitrary: ms1 rule: buildMsgs_induct [where w = w])
  case (none i ds)
  then show ?case by (intro exI [of _ "[]"] exI [of _ ds]) simp
next
  case (empty slots i)
  then show ?case by simp
next
  case (msg slots i d a ds run after)
  show ?case
  proof (cases ms1)
    case Nil
    then show ?thesis using msg(3) by (intro exI [of _ "[]"] exI [of _ "(d, a) # ds"]) (auto simp: buildMsgs_Cons [OF msg(1)] simp del: buildMsgs.simps)
  next
    case (Cons m ms1')
    have m: "m = \<lparr>bm_bufs = d # run, bm_addr = a, bm_seg = (if run = [] then None else Some (word_of_nat (length d))), bm_start = i\<rparr>"
      "buildMsgs w slots (i + 1 + length run) after = ms1' @ ms2" using msg(3) Cons by (auto simp: buildMsgs_Cons [OF msg(1)] simp del: buildMsgs.simps)
    obtain joined where j: "ds = joined @ after" "map fst joined = run" "\<forall>x\<in>set joined. sameUDPAddr (snd x) a"
      using takeRun_spec(1) [OF msg(1)] by blast
    obtain ds1 ds2 where r: "after = ds1 @ ds2" "list_all2 sameDatagram (allDatagrams ms1') ds1"
      "ms2 \<noteq> [] \<longrightarrow> ds2 \<noteq> [] \<and> bm_start (hd ms2) = i + 1 + length run + length ds1" using msg(2) [OF m(2)] by blast
    have "list_all2 sameDatagram (map (\<lambda>x. (x, a)) run) joined" using j(2,3)
      by (auto simp: list_all2_conv_all_nth sameDatagram_def)
    then have "list_all2 sameDatagram (allDatagrams ms1) ((d, a) # joined @ ds1)"
      using r(2) by (simp add: Cons m(1) run_datagrams [OF msg(1) assms] list_all2_appendI)
    moreover have "length run = length joined" using j(2) by auto
    ultimately show ?thesis using r(1,3) j(1) by (intro exI [of _ "(d, a) # joined @ ds1"] exI [of _ ds2]) auto
  qed
qed

lemma buildMsgs_lengths:
  assumes "writer_ok w"
  shows "m \<in> set (buildMsgs w slots i ds) \<Longrightarrow> length (msgDatagrams m) = length (bm_bufs m)"
proof (induction slots i ds rule: buildMsgs_induct [where w = w])
  case (msg slots i d a ds run after)
  then show ?case using run_datagrams [OF msg(1) assms] by (auto simp: buildMsgs_Cons [OF msg(1)] simp del: buildMsgs.simps)
qed simp_all

lemma buildMsgs_done:
  assumes w: "writer_ok w" and ms: "ms = buildMsgs w slots 0 ds" "ms \<noteq> []"
  shows "\<exists>ds1 ds2. ds = ds1 @ ds2 \<and> list_all2 sameDatagram (allDatagrams ms) ds1
    \<and> bm_start (last ms) + length (bm_bufs (last ms)) = length ds1"
proof -
  have "buildMsgs w slots 0 ds = ms @ []" "buildMsgs w slots 0 ds = butlast ms @ [last ms]" using ms by simp_all
  note p = this [THEN buildMsgs_prefix [OF w]]
  obtain ds1 ds2 where a: "ds = ds1 @ ds2" "list_all2 sameDatagram (allDatagrams ms) ds1" using p(1) by blast
  obtain es where b: "list_all2 sameDatagram (allDatagrams (butlast ms)) es" "bm_start (last ms) = length es" using p(2) by auto
  have "allDatagrams (butlast ms @ [last ms]) = allDatagrams (butlast ms) @ msgDatagrams (last ms)" by simp
  then have "allDatagrams ms = allDatagrams (butlast ms) @ msgDatagrams (last ms)" using ms(2) by simp
  moreover have "length (msgDatagrams (last ms)) = length (bm_bufs (last ms))"
    by (rule buildMsgs_lengths [OF w, of _ slots 0 ds]) (use ms last_in_set in blast)
  moreover have "length (allDatagrams ms) = length ds1" "length (allDatagrams (butlast ms)) = length es"
    using a b by (auto dest: list_all2_lengthD)
  ultimately show ?thesis using a b by (intro exI [of _ ds1] exI [of _ ds2]) simp
qed

lemma kernel_lawsD:
  assumes "kernel_laws K"
  shows "uk_batch K ms k = (k', n, None) \<Longrightarrow> n \<le> int (length ms) \<and> uk_taken K k' = uk_taken K k @ allDatagrams (take (nat n) ms)"
    and "uk_batch K ms k = (k', n, Some e) \<Longrightarrow> uk_taken K k' = uk_taken K k"
    and "uk_write K d k = (k', None) \<Longrightarrow> uk_taken K k' = uk_taken K k @ [d]"
    and "uk_write K d k = (k', Some e) \<Longrightarrow> uk_taken K k' = uk_taken K k"
  using assms unfolding kernel_laws_def by blast+

lemma sendMsgs_prefix:
  "sendMsgs K ms k = (k', stop) \<Longrightarrow> kernel_laws K \<Longrightarrow>
    \<exists>ms1 ms2. ms = ms1 @ ms2 \<and> uk_taken K k' = uk_taken K k @ allDatagrams ms1
      \<and> (case stop of None \<Rightarrow> ms2 = [] | Some (m, e) \<Rightarrow> ms2 \<noteq> [] \<and> hd ms2 = m)"
proof (induction K ms k rule: sendMsgs.induct)
  case (1 K k)
  then show ?case by simp
next
  case (2 K m ms k)
  obtain k1 n err where b: "uk_batch K (m # ms) k = (k1, n, err)" by (cases "uk_batch K (m # ms) k") auto
  note step = 2(2) [simplified sendMsgs.simps b prod.case]
  show ?case
  proof (cases err)
    case (Some e)
    then have "uk_taken K k' = uk_taken K k" "stop = Some (m, e)" using kernel_lawsD(2) [OF 2(3), of "m # ms" k k1 n e] b step by auto
    then show ?thesis by (intro exI [of _ "[]"] exI [of _ "m # ms"]) simp
  next
    case None
    then have t: "n \<le> int (length (m # ms))" "uk_taken K k1 = uk_taken K k @ allDatagrams (take (nat n) (m # ms))"
      using kernel_lawsD(1) [OF 2(3)] b by blast+
    show ?thesis
    proof (cases "n \<le> 0")
      case True
      then show ?thesis using step None t by (intro exI [of _ "[]"] exI [of _ "m # ms"]) auto
    next
      case False
      then have "sendMsgs K (drop (nat n) (m # ms)) k1 = (k', stop)" using step None by simp
      from 2(1) [OF b [symmetric] refl None False this 2(3)] obtain ms1 ms2 where
        r: "drop (nat n) (m # ms) = ms1 @ ms2" "uk_taken K k' = uk_taken K k1 @ allDatagrams ms1"
          "case stop of None \<Rightarrow> ms2 = [] | Some (m, e) \<Rightarrow> ms2 \<noteq> [] \<and> hd ms2 = m" by blast
      then have "m # ms = (take (nat n) (m # ms) @ ms1) @ ms2" by (metis append_assoc append_take_drop_id)
      then show ?thesis using r t by (intro exI [of _ "take (nat n) (m # ms) @ ms1"] exI [of _ ms2]) simp
    qed
  qed
qed

lemma writeEach_prefix:
  "writeEach K ds i k = (k', n, err) \<Longrightarrow> kernel_laws K \<Longrightarrow>
    \<exists>ds1 ds2. ds = ds1 @ ds2 \<and> uk_taken K k' = uk_taken K k @ ds1 \<and> n = i + length ds1 \<and> (err = None \<longleftrightarrow> ds2 = [])"
proof (induction K ds i k rule: writeEach.induct)
  case (2 K d ds i k)
  obtain k1 er where b: "uk_write K d k = (k1, er)" by (cases "uk_write K d k") auto
  show ?case
  proof (cases er)
    case (Some e)
    then have "uk_taken K k1 = uk_taken K k" using kernel_lawsD(4) [OF 2(3)] b by blast
    then show ?thesis using 2(2) b Some by (intro exI [of _ "[]"] exI [of _ "d # ds"]) auto
  next
    case None
    then have "writeEach K ds (i + 1) k1 = (k', n, err)" using 2(2) b by simp
    from 2(1) [OF b [symmetric] None this 2(3)] obtain ds1 ds2 where
      "ds = ds1 @ ds2" "uk_taken K k' = uk_taken K k1 @ ds1" "n = i + 1 + length ds1" "err = None \<longleftrightarrow> ds2 = []" by blast
    then show ?thesis using kernel_lawsD(3) [OF 2(3), of d k k1] b None by (intro exI [of _ "d # ds1"] exI [of _ ds2]) auto
  qed
qed simp

lemma onGSOError_ok: "writer_ok w \<Longrightarrow> seg \<le> uw_maxSeg w \<Longrightarrow> writer_ok (onGSOError seg e w)"
  by (auto simp: onGSOError_def writer_ok_def)

text \<open>What \<open>Write\<close> reports: how much of the data the kernel took, all of it when there is no error.\<close>

definition wrote :: "('k, 'x) udp_kernel_scheme \<Rightarrow> 'k \<Rightarrow> datagram list \<Rightarrow> 'k \<Rightarrow> nat \<Rightarrow> udp_error option \<Rightarrow> bool" where
  "wrote K k ds k' n err \<longleftrightarrow>
     (\<exists>xs ds1 ds2. ds = ds1 @ ds2 \<and> n = length ds1 \<and> uk_taken K k' = uk_taken K k @ xs
        \<and> list_all2 sameDatagram xs ds1 \<and> (err = None \<longleftrightarrow> ds2 = []))"

lemma wroteI:
  "ds = ds1 @ ds2 \<Longrightarrow> n = length ds1 \<Longrightarrow> uk_taken K k' = uk_taken K k @ xs \<Longrightarrow> list_all2 sameDatagram xs ds1
    \<Longrightarrow> (err = None \<longleftrightarrow> ds2 = []) \<Longrightarrow> wrote K k ds k' n err"
  unfolding wrote_def by blast

lemma wrote_more:
  assumes "wrote K k1 (drop i ds) k' n err" "uk_taken K k1 = uk_taken K k @ xs" "list_all2 sameDatagram xs (take i ds)" "i \<le> length ds"
  shows "wrote K k ds k' (i + n) err"
proof -
  obtain ys ds1 ds2 where r: "drop i ds = ds1 @ ds2" "n = length ds1" "uk_taken K k' = uk_taken K k1 @ ys"
    "list_all2 sameDatagram ys ds1" "err = None \<longleftrightarrow> ds2 = []" using assms(1) by (auto simp: wrote_def)
  have "ds = (take i ds @ ds1) @ ds2" using r(1) by (metis append_assoc append_take_drop_id)
  moreover have "i + n = length (take i ds @ ds1)" using r(2) assms(4) by simp
  moreover have "uk_taken K k' = uk_taken K k @ xs @ ys" using r(3) assms(2) by simp
  ultimately show ?thesis using list_all2_appendI [OF assms(3) r(4)] r(5) by (rule wroteI)
qed

lemma buildMsgs_seg: "m \<in> set (buildMsgs w slots i ds) \<Longrightarrow> 1 < length (bm_bufs m) \<Longrightarrow> length (hd (bm_bufs m)) \<le> uw_maxSeg w"
proof (induction slots i ds rule: buildMsgs_induct [where w = w])
  case (msg slots i d a ds run after)
  then show ?case using takeRun_gso [OF msg(1)] by (auto simp: buildMsgs_Cons [OF msg(1)] simp del: buildMsgs.simps)
qed simp_all

lemma udpWrite_wrote:
  "udpWrite K w ds k = (k', w', n, err) \<Longrightarrow> kernel_laws K \<Longrightarrow> writer_ok w \<Longrightarrow> wrote K k ds k' n err \<and> writer_ok w'"
proof (induction K w ds k arbitrary: n err rule: udpWrite.induct)
  case (1 K w ds k)
  note laws = 1(4) and w = 1(5)
  show ?case
  proof (cases "uw_slots w = 0")
    case True
    then have "writeEach K ds 0 k = (k', n, err)" "w' = w" using 1(3) by (auto simp: udpWrite.simps [of K w ds k] split: prod.splits)
    then show ?thesis using writeEach_prefix [OF _ laws] w unfolding wrote_def by fastforce
  next
    case False
    define ms where "ms = buildMsgs w (uw_slots w) 0 ds"
    obtain k1 stop where s: "sendMsgs K ms k = (k1, stop)" by (cases "sendMsgs K ms k")
    obtain ms1 ms2 where p: "ms = ms1 @ ms2" "uk_taken K k1 = uk_taken K k @ allDatagrams ms1"
      "case stop of None \<Rightarrow> ms2 = [] | Some (m, e) \<Rightarrow> ms2 \<noteq> [] \<and> hd ms2 = m" using sendMsgs_prefix [OF s laws] by blast
    obtain ds1 ds2 where d: "ds = ds1 @ ds2" "list_all2 sameDatagram (allDatagrams ms1) ds1"
      "ms2 \<noteq> [] \<longrightarrow> ds2 \<noteq> [] \<and> bm_start (hd ms2) = length ds1"
      using buildMsgs_prefix [OF w p(1) [unfolded ms_def]] by auto
    note step = 1(3) [unfolded udpWrite.simps [of K w ds k], simplified False if_False Let_def, folded ms_def, unfolded s prod.case]
    note ih = 1(1,2) [OF False ms_def s [symmetric]]
    show ?thesis
    proof (cases stop)
      case (Some me)
      obtain m e where me: "me = (m, e)" by (cases me)
      have i: "bm_start m = length ds1" "ds2 \<noteq> []" using p(3) d(3) Some me by auto
      have mem: "m \<in> set ms" using sendMsgs_stops_in [of K ms k k1 m e] s Some me by simp
      show ?thesis
      proof (cases "1 < length (bm_bufs m) \<and> isUDPGSOError e")
        case True
        obtain k2 w2 n2 err2 where r: "udpWrite K (onGSOError (length (hd (bm_bufs m))) e w) (drop (bm_start m) ds) k1 = (k2, w2, n2, err2)"
          by (rule prod_cases4)
        then have e: "k2 = k'" "w2 = w'" "n = bm_start m + n2" "err2 = err" using step Some me True by simp_all
        have "writer_ok (onGSOError (length (hd (bm_bufs m))) e w)"
          using onGSOError_ok [OF w buildMsgs_seg] mem True unfolding ms_def by blast
        with ih(2) [OF Some me [symmetric] True r [unfolded e] laws] have "wrote K k1 (drop (bm_start m) ds) k' n2 err" "writer_ok w'" by simp_all
        then show ?thesis using wrote_more [of K k1 "length ds1" ds k' n2 err k] p(2) d(1,2) i(1) e(3) by simp
      next
        case no: False
        then have "k' = k1" "w' = w" "n = length ds1" "err = Some e" using step Some me i by (auto split: if_splits)
        then show ?thesis using wroteI [OF d(1) _ p(2) d(2), of n err] i(2) w by simp
      qed
    next
      case None
      then have all: "ms2 = []" "ms1 = ms" using p by simp_all
      show ?thesis
      proof (cases "ms \<noteq> [] \<and> bm_start (last ms) + length (bm_bufs (last ms)) < length ds")
        case True
        define i where "i = bm_start (last ms) + length (bm_bufs (last ms))"
        obtain es1 es2 where e: "ds = es1 @ es2" "list_all2 sameDatagram (allDatagrams ms) es1" "i = length es1"
          using buildMsgs_done [OF w ms_def] True unfolding i_def by blast
        obtain k2 w2 n2 err2 where r: "udpWrite K w (drop i ds) k1 = (k2, w2, n2, err2)" by (rule prod_cases4)
        then have f: "k2 = k'" "w2 = w'" "n = i + n2" "err2 = err" using step None True by (simp_all add: i_def)
        have "wrote K k1 (drop i ds) k' n2 err" "writer_ok w'" using ih(1) [OF None True, folded i_def, OF r [unfolded f] laws w] by simp_all
        then show ?thesis using wrote_more [of K k1 i ds k' n2 err k] p(2) e f(3) all by simp
      next
        case no: False
        then have e: "k' = k1" "w' = w" "n = length ds" "err = None" using step None by (auto split: if_splits)
        have "list_all2 sameDatagram (allDatagrams ms) ds"
        proof (cases "ms = []")
          case True
          then have "ds = []" using False buildMsgs_Nil_iff [of w "uw_slots w" 0 ds] ms_def by simp
          then show ?thesis using True by simp
        next
          case ne: False
          obtain es1 es2 where e: "ds = es1 @ es2" "list_all2 sameDatagram (allDatagrams ms) es1"
            "bm_start (last ms) + length (bm_bufs (last ms)) = length es1" using buildMsgs_done [OF w ms_def ne] by blast
          then have "es2 = []" using no ne by simp
          then show ?thesis using e by simp
        qed
        then show ?thesis using wroteI [of ds ds "[]" n K k' k "allDatagrams ms" err] p(2) e w all by simp
      qed
    qed
  qed
qed

section \<open>The flush of the listener's send loop\<close>

lemma growRun_length: "growRun s a n k ds = (run, after) \<Longrightarrow> length run + length after = length ds"
  by (induction s a n k ds arbitrary: run rule: growRun.induct) (auto split: if_splits prod.splits)

lemma buildMsgs_within: "m \<in> set (buildMsgs w slots i ds) \<Longrightarrow> bm_start m + length (bm_bufs m) \<le> i + length ds"
proof (induction slots i ds rule: buildMsgs_induct [where w = w])
  case (msg slots i d a ds run after)
  have "length run + length after = length ds" using growRun_length msg(1) by (auto simp: takeRun_def split: if_splits)
  then show ?case using msg by (auto simp: buildMsgs_Cons [OF msg(1)] simp del: buildMsgs.simps)
qed simp_all

lemma writeEach_all: "writeEach K ds i k = (k', n, None) \<Longrightarrow> n = i + length ds"
  by (induction K ds i k rule: writeEach.induct) (auto split: prod.splits option.splits)

lemma udpWrite_all: "udpWrite K w ds k = (k', w', n, None) \<Longrightarrow> n = length ds"
proof (induction K w ds k arbitrary: n rule: udpWrite.induct)
  case (1 K w ds k)
  show ?case
  proof (cases "uw_slots w = 0")
    case True
    then show ?thesis using 1(3) writeEach_all by (fastforce simp: udpWrite.simps [of K w ds k] split: prod.splits)
  next
    case False
    define ms where "ms = buildMsgs w (uw_slots w) 0 ds"
    obtain k1 stop where s: "sendMsgs K ms k = (k1, stop)" by (cases "sendMsgs K ms k")
    note step = 1(3) [unfolded udpWrite.simps [of K w ds k], simplified False if_False Let_def, folded ms_def, unfolded s prod.case]
    note ih = 1(1,2) [OF False ms_def s [symmetric]]
    show ?thesis
    proof (cases stop)
      case None
      then show ?thesis using step ih(1) [OF None] by (fastforce split: if_splits prod.splits)
    next
      case (Some me)
      obtain m e where me: "me = (m, e)" by (cases me)
      have "m \<in> set ms" using sendMsgs_stops_in [of K ms k k1 m e] s Some me by simp
      then have "bm_start m \<le> length ds" using buildMsgs_within unfolding ms_def by fastforce
      then show ?thesis using step ih(2) [OF Some me [symmetric]] Some me by (fastforce split: if_splits prod.splits)
    qed
  qed
qed

text \<open>
  The loop of \<open>flush\<close> in \<open>runSendLoop\<close> (\<open>listen.go\<close>): a datagram that failed is skipped, like a single
  write would. The result has the errors that were logged, one per skipped datagram.
\<close>

function flushDatagrams :: "('k, 'x) udp_kernel_scheme \<Rightarrow> udp_writer \<Rightarrow> datagram list \<Rightarrow> 'k
    \<Rightarrow> 'k \<times> udp_writer \<times> udp_error list" where
  "flushDatagrams K w [] k = (k, w, [])"
| "flushDatagrams K w (d # ds) k =
     (case udpWrite K w (d # ds) k of (k', w', n, err) \<Rightarrow>
        (case err of
           None \<Rightarrow> flushDatagrams K w' (drop n (d # ds)) k'
         | Some e \<Rightarrow> (case flushDatagrams K w' (drop (n + 1) (d # ds)) k' of (k2, w2, errs) \<Rightarrow> (k2, w2, e # errs))))"
  by pat_completeness auto
termination
proof (relation "measure (\<lambda>(K, w, ds, k). length ds)", goal_cases)
  case 2
  then show ?case by (auto dest!: udpWrite_all [OF sym])
qed auto

text \<open>
  The listener of \<open>Listen\<close> writes with \<open>writeFrom\<close>, which takes what each call of the writer achieved as an argument.
  This loop over the modelled writer implements it.
\<close>

lemma flushDatagrams_writeFrom:
  "flushDatagrams K w ds k = (k', w', errs) \<Longrightarrow> kernel_laws K \<Longrightarrow> writer_ok w \<Longrightarrow>
    \<exists>xs wres. uk_taken K k' = uk_taken K k @ xs \<and> list_all2 sameDatagram xs (writeFrom wres ds)
      \<and> length wres = length errs \<and> length xs + length errs = length ds"
proof (induction K w ds k arbitrary: errs rule: flushDatagrams.induct)
  case (1 K w k)
  then show ?case by (intro exI [of _ "[]"] exI [of _ "[] :: nat option list"]) simp
next
  case (2 K w d ds k)
  obtain k1 w1 n err where r: "udpWrite K w (d # ds) k = (k1, w1, n, err)" by (rule prod_cases4)
  from udpWrite_wrote [OF r 2(4,5)] obtain xs ds1 ds2 where
    a: "d # ds = ds1 @ ds2" "n = length ds1" "uk_taken K k1 = uk_taken K k @ xs" "list_all2 sameDatagram xs ds1"
      "err = None \<longleftrightarrow> ds2 = []" "writer_ok w1" by (auto simp: wrote_def)
  have len: "length xs = length ds1" using a(4) by (rule list_all2_lengthD)
  show ?case
  proof (cases err)
    case None
    then have "drop n (d # ds) = []" using a(1,2,5) by simp
    then have "uk_taken K k' = uk_taken K k @ xs" "errs = []" using 2(3) r None a(3) by (auto simp del: drop_Suc_Cons)
    then show ?thesis using a None len by (intro exI [of _ xs] exI [of _ "[] :: nat option list"]) simp
  next
    case (Some e)
    then obtain f ds3 where f: "ds2 = f # ds3" using a(5) by (cases ds2) auto
    then have d: "drop (n + 1) (d # ds) = ds3" "take n (d # ds) = ds1" using a(1,2) by simp_all
    obtain k2 w2 errs' where s: "flushDatagrams K w1 ds3 k1 = (k2, w2, errs')" by (rule prod_cases3)
    then have e: "k2 = k'" "w2 = w'" "errs = e # errs'" using 2(3) r Some d(1) by (simp_all del: drop_Suc_Cons)
    from 2(2) [OF r [symmetric] refl refl Some, unfolded d(1), OF s [unfolded e] 2(4) a(6)] obtain xs' wres where
      b: "uk_taken K k' = uk_taken K k1 @ xs'" "list_all2 sameDatagram xs' (writeFrom wres ds3)"
        "length wres = length errs'" "length xs' + length errs' = length ds3" by blast
    have w: "writeFrom (Some n # wres) (d # ds) = ds1 @ writeFrom wres ds3" unfolding writeFrom.simps(1) using d by simp
    have "length (d # ds) = length ds1 + 1 + length ds3" unfolding a(1) f by simp
    then have "length (xs @ xs') + length errs = length (d # ds)" using len b(4) e(3) by simp
    moreover have "list_all2 sameDatagram (xs @ xs') (writeFrom (Some n # wres) (d # ds))"
      unfolding w by (rule list_all2_appendI [OF a(4) b(2)])
    moreover have "uk_taken K k' = uk_taken K k @ (xs @ xs')" "length (Some n # wres) = length errs" using a(3) b(1,3) e(3) by simp_all
    ultimately show ?thesis by blast
  qed
qed

section \<open>The reader\<close>

record udp_item =
  it_buf :: slice
  it_n :: int
  it_addr :: "addr option"

text \<open>
  The reader owns one buffer per message slot. \<open>rd_batched\<close> tells whether \<open>pc\<close> is set; without it
  datagrams are read one at a time.
\<close>

record udp_reader =
  rd_gro :: bool
  rd_batched :: bool
  rd_bufs :: "slice list"
  rd_items :: "udp_item list"
  rd_batch :: "64 word"

text \<open>\<open>gro\<close> is the answer of \<open>enableUDPGRO\<close>, \<open>mem\<close> the memory of the buffers the pool hands out.\<close>

definition newUDPBatchReader :: "udp_io_options \<Rightarrow> bool \<Rightarrow> (nat \<Rightarrow> bytes) \<Rightarrow> udp_reader" where
  "newUDPBatchReader opts gro mem =
     (let on = uo_offload opts \<and> gro;
          n = nat (if on then min (max (uo_batchSize opts) 1) udpGROMaxBatch else uo_batchSize opts)
      in \<lparr>rd_gro = on, rd_batched = (1 < uo_batchSize opts \<or> on),
          rd_bufs = (if on then replicate n (full_slice (replicate udpGROBufSize 0))
                     else map (\<lambda>i. full_slice (mem i)) [0..<n]),
          rd_items = [], rd_batch = 0\<rparr>)"

text \<open>
  What the kernel received for a slot: one datagram or, with GRO, coalesced ones, the source address, and the
  segment size that the control message holds, 0 when there is none. It writes the bytes to the slot's
  buffer, at the offset of packets unless the buffer is a GRO buffer, and drops what does not fit.
\<close>

record udp_received =
  rm_data :: bytes
  rm_addr :: "addr option"
  rm_seg :: int

definition fillSlot :: "int \<Rightarrow> bytes \<Rightarrow> slice \<Rightarrow> (slice \<times> int) option" where
  "fillSlot off d b = do { b' \<leftarrow> sl_at b off (sl_copy d); Some (b', min (int (length d)) (sl_len b - off)) }"

text \<open>\<open>handoff\<close>: the \<open>j\<close>-th buffer that \<open>Read\<close> takes from the pool belongs to item \<open>j\<close> or replaces its buffer.\<close>

definition handoff :: "router_config \<Rightarrow> (nat \<Rightarrow> bytes) \<Rightarrow> nat \<Rightarrow> slice \<Rightarrow> int \<Rightarrow> addr option \<Rightarrow> udp_reader \<Rightarrow> udp_reader option" where
  "handoff c mem i b n a r = do {
     _ \<leftarrow> sl_from (full_slice (mem (length (rd_items r)))) (rc_bufferOffset c);
     Some (r\<lparr>rd_items := rd_items r @ [\<lparr>it_buf = b, it_n = n, it_addr = a\<rparr>],
             rd_bufs := (rd_bufs r)[i := full_slice (mem (length (rd_items r)))]\<rparr>)
   }"

text \<open>The body of the loop of \<open>Read\<close> without GRO; a slot that does not exist is an index out of range.\<close>

definition readPlain :: "router_config \<Rightarrow> (nat \<Rightarrow> bytes) \<Rightarrow> nat \<Rightarrow> udp_received \<Rightarrow> udp_reader \<Rightarrow> udp_reader option" where
  "readPlain c mem i m r =
     (if length (rd_bufs r) \<le> i then None
      else do {
        (b, n) \<leftarrow> fillSlot (rc_bufferOffset c) (rm_data m) (rd_bufs r ! i);
        handoff c mem i b n (rm_addr m) r
      })"

text \<open>
  The loop over the segments of a GRO message of \<open>length bs\<close> bytes, from \<open>start\<close> on. With a segment size of
  zero it would never end, which is \<open>None\<close> here; \<open>Read\<close> never passes one.
\<close>

function groLoop :: "router_config \<Rightarrow> (nat \<Rightarrow> bytes) \<Rightarrow> bytes \<Rightarrow> addr option \<Rightarrow> nat \<Rightarrow> nat \<Rightarrow> udp_item list \<Rightarrow> udp_item list option" where
  "groLoop c mem bs a seg start items =
     (if start < max (length bs) 1 then
        if seg = 0 then None
        else (let stop = min (start + seg) (length bs);
                  n = min (int (stop - start)) (rc_bufferSize c);
                  off = rc_bufferOffset c
              in case sl_in (full_slice (mem (length items))) off (off + n) (sl_copy (take (nat n) (drop start bs))) of
                   None \<Rightarrow> None
                 | Some b \<Rightarrow> groLoop c mem bs a seg (start + seg) (items @ [\<lparr>it_buf = b, it_n = n, it_addr = a\<rparr>]))
      else Some items)"
  by pat_completeness auto
termination
  by (relation "measure (\<lambda>(c, mem, bs, a, seg, start, items). max (length bs) 1 - start)") auto

declare groLoop.simps [simp del]

definition groSegment :: "int \<Rightarrow> int \<Rightarrow> nat" where
  "groSegment n s = nat (if 0 < s \<and> s < n then s else max n 1)"

definition readGRO :: "router_config \<Rightarrow> (nat \<Rightarrow> bytes) \<Rightarrow> nat \<Rightarrow> udp_received \<Rightarrow> udp_reader \<Rightarrow> udp_reader option" where
  "readGRO c mem i m r =
     (if length (rd_bufs r) \<le> i then None
      else do {
        (b, n) \<leftarrow> fillSlot 0 (rm_data m) (rd_bufs r ! i);
        items \<leftarrow> groLoop c mem (take (nat n) (sl_mem b)) (rm_addr m) (groSegment n (rm_seg m)) 0 (rd_items r);
        Some (r\<lparr>rd_items := items, rd_bufs := (rd_bufs r)[i := b]\<rparr>)
      })"

fun readMsgs :: "router_config \<Rightarrow> (nat \<Rightarrow> bytes) \<Rightarrow> nat \<Rightarrow> udp_received list \<Rightarrow> udp_reader \<Rightarrow> udp_reader option" where
  "readMsgs c mem i [] r = Some r"
| "readMsgs c mem i (m # ms) r = do {
     r' \<leftarrow> (if rd_gro r then readGRO c mem i m r else readPlain c mem i m r);
     readMsgs c mem (i + 1) ms r'
   }"

text \<open>
  \<open>Read\<close>: \<open>batch\<close> is the answer of \<open>NextBatchID\<close>, the sum the error of the socket or what the kernel received.
  Without \<open>pc\<close> a single datagram is read into the first slot.
\<close>

definition udpRead :: "router_config \<Rightarrow> (nat \<Rightarrow> bytes) \<Rightarrow> 64 word \<Rightarrow> udp_error + udp_received list \<Rightarrow> udp_reader
    \<Rightarrow> (udp_reader \<times> (udp_error + nat)) option" where
  "udpRead c mem batch res r0 =
     (let r = r0\<lparr>rd_items := [], rd_batch := batch\<rparr> in
      case res of
        Inl e \<Rightarrow> Some (r, Inl e)
      | Inr ms \<Rightarrow>
          if rd_batched r then do { r' \<leftarrow> readMsgs c mem 0 ms r; Some (r', Inr (length (rd_items r'))) }
          else do { r' \<leftarrow> readPlain c mem 0 (hd ms) r; Some (r', Inr 1) })"

definition takeItem :: "router_config \<Rightarrow> nat \<Rightarrow> string \<Rightarrow> udp_reader \<Rightarrow> (packet \<times> addr option) option" where
  "takeItem c i tag r =
     (if length (rd_items r) \<le> i then None
      else Some ((getPacketWithBuffer tag (it_buf (rd_items r ! i)) (rc_bufferOffset c))
        \<lparr>pk_length := it_n (rd_items r ! i), pk_batchID := rd_batch r\<rparr>, it_addr (rd_items r ! i)))"

text \<open>\<open>Close\<close> gives the buffers that the reader still owns back to the pool.\<close>

definition closeReader :: "router_config \<Rightarrow> udp_reader \<Rightarrow> (udp_reader \<times> slice list) option" where
  "closeReader c r =
     (if rd_gro r then Some (r, [])
      else if \<exists>b\<in>set (rd_bufs r). putBuffer c b = None then None
      else Some (r\<lparr>rd_bufs := []\<rparr>, rd_bufs r))"

section \<open>What is read\<close>

definition reader_ok :: "router_config \<Rightarrow> udp_reader \<Rightarrow> bool" where
  "reader_ok c r \<longleftrightarrow>
     (\<forall>b\<in>set (rd_bufs r). sl_len b = int (length (sl_mem b)) \<and>
        (if rd_gro r then length (sl_mem b) = udpGROBufSize else pool_mem c (sl_mem b)))
     \<and> (rd_gro r \<longrightarrow> rd_batched r)"

text \<open>An item whose packet is well formed and carries at most a buffer of the datagram.\<close>

definition itemHolds :: "router_config \<Rightarrow> udp_item \<Rightarrow> datagram \<Rightarrow> bool" where
  "itemHolds c x d \<longleftrightarrow>
     (let p = (getPacketWithBuffer [] (it_buf x) (rc_bufferOffset c))\<lparr>pk_length := it_n x\<rparr>
      in pk_full c p \<and> pk_bytes p = take (nat (rc_bufferSize c)) (fst d) \<and> it_addr x = snd d)"

text \<open>
  What the kernel may put into a slot for the datagrams \<open>run\<close>: with GRO a run of equal-sized ones,
  of which the last may be shorter, with the size in the control message; otherwise one datagram.
\<close>

definition coalesced :: "udp_received \<Rightarrow> datagram list \<Rightarrow> bool" where
  "coalesced m run \<longleftrightarrow>
     rm_data m = concat (map fst run) \<and> length (rm_data m) \<le> udpGROBufSize \<and> (\<forall>x\<in>set run. snd x = rm_addr m)
     \<and> (if length run = 1 then rm_seg m \<le> 0 \<or> int (length (rm_data m)) \<le> rm_seg m
        else 1 < length run \<and> 0 \<le> rm_seg m \<and> run_shape (nat (rm_seg m)) (map fst run))"

definition receives :: "bool \<Rightarrow> udp_received \<Rightarrow> datagram list \<Rightarrow> bool" where
  "receives gro m run \<longleftrightarrow> (if gro then coalesced m run else run = [(rm_data m, rm_addr m)])"

definition udp_config_ok :: "router_config \<Rightarrow> bool" where
  "udp_config_ok c \<longleftrightarrow> 0 < rc_bufferSize c \<and> 0 \<le> rc_bufferOffset c"

lemma take_min_length: "take (nat (min (int (length d)) k)) d = take (nat k) d"
  by (cases "int (length d) \<le> k") (auto simp: min_def)

lemma itemHolds_intro:
  assumes c: "udp_config_ok c" and m: "pool_mem c m"
  shows "itemHolds c \<lparr>it_buf = (full_slice m)\<lparr>sl_mem := blit m (nat (rc_bufferOffset c)) (take (nat (rc_bufferSize c)) d)\<rparr>,
           it_n = min (int (length d)) (rc_bufferSize c), it_addr = a\<rparr> (d, a)"
proof -
  let ?o = "nat (rc_bufferOffset c)" and ?x = "take (nat (rc_bufferSize c)) d"
  have len: "length m = ?o + nat (rc_bufferSize c)" using c m by (auto simp: udp_config_ok_def pool_mem_def poolSize_def)
  then have f: "?o + length ?x \<le> length m" by simp
  have lx: "nat (min (int (length d)) (rc_bufferSize c)) = length ?x" by auto
  have "drop ?o (blit m ?o ?x) = ?x @ drop (?o + length ?x) m" using f len by (simp add: blit_fits)
  then have "take (nat (min (int (length d)) (rc_bufferSize c))) (drop ?o (blit m ?o ?x)) = ?x"
    unfolding lx by (metis append_eq_conv_conj)
  moreover have "length (blit m ?o ?x) = length m" using f by (simp add: blit_fits)
  ultimately show ?thesis using c m
    by (auto simp: itemHolds_def Let_def pk_full_def pk_wf_def pk_bytes_def pool_mem_def poolSize_def getPacketWithBuffer_def full_slice_def udp_config_ok_def)
qed

lemma groLoop_stops: "max (length bs) 1 \<le> start \<Longrightarrow> groLoop c mem bs a seg start items = Some items"
  by (subst groLoop.simps, subst if_not_P) (simp_all only: not_less simp_thms)

lemma groLoop_step:
  assumes c: "udp_config_ok c" and m: "\<forall>j. pool_mem c (mem j)" and s: "start < max (length bs) 1" "0 < seg"
  shows "\<exists>x. groLoop c mem bs a seg start items = groLoop c mem bs a seg (start + seg) (items @ [x])
    \<and> itemHolds c x (take seg (drop start bs), a)"
proof -
  let ?m = "mem (length items)" and ?d = "take seg (drop start bs)"
  define n where "n = min (int (length ?d)) (rc_bufferSize c)"
  have le: "start \<le> length bs" using s by (auto simp: max_def split: if_splits)
  then have n: "min (int (min (start + seg) (length bs) - start)) (rc_bufferSize c) = n" by (auto simp: n_def min_def)
  have cap: "sl_cap (full_slice ?m) = rc_bufferOffset c + rc_bufferSize c" using m by (simp add: pool_mem_def poolSize_def)
  have x: "take (nat n) (take (nat n) (drop start bs)) = take (nat (rc_bufferSize c)) ?d"
  proof -
    have "nat n \<le> seg" using c by (auto simp: n_def udp_config_ok_def)
    then have "take (nat n) (drop start bs) = take (nat n) ?d" by simp
    also have "\<dots> = take (nat (rc_bufferSize c)) ?d" unfolding n_def by (rule take_min_length)
    finally show ?thesis unfolding take_take min.idem .
  qed
  have sl: "sl_in (full_slice ?m) (rc_bufferOffset c) (rc_bufferOffset c + n) (sl_copy (take (nat n) (drop start bs)))
    = Some ((full_slice ?m)\<lparr>sl_mem := blit ?m (nat (rc_bufferOffset c)) (take (nat (rc_bufferSize c)) ?d)\<rparr>)"
    using sl_in_copy [of "rc_bufferOffset c" "rc_bufferOffset c + n" "full_slice ?m" "take (nat n) (drop start bs)"] c cap x
    by (auto simp: udp_config_ok_def n_def full_slice_def)
  have "groLoop c mem bs a seg start items = groLoop c mem bs a seg (start + seg) (items @
      [\<lparr>it_buf = (full_slice ?m)\<lparr>sl_mem := blit ?m (nat (rc_bufferOffset c)) (take (nat (rc_bufferSize c)) ?d)\<rparr>, it_n = n, it_addr = a\<rparr>])"
    by (subst groLoop.simps) (use s in \<open>simp only: n Let_def sl option.case if_True simp_thms neq0_conv if_False less_irrefl\<close>, simp)
  then show ?thesis using itemHolds_intro [OF c m [rule_format], of "length items" ?d a] unfolding n_def by blast
qed

lemma groLoop_run:
  assumes c: "udp_config_ok c" and m: "\<forall>j. pool_mem c (mem j)"
  shows "run_shape seg ds \<Longrightarrow> drop start bs = concat ds \<Longrightarrow> (ds = [] \<Longrightarrow> max (length bs) 1 \<le> start) \<Longrightarrow>
    \<exists>xs. groLoop c mem bs a seg start items = Some (items @ xs) \<and> list_all2 (itemHolds c) xs (map (\<lambda>d. (d, a)) ds)"
proof (induction seg ds arbitrary: start items rule: run_shape.induct)
  case (1 s)
  then show ?case by (simp add: groLoop_stops)
next
  case (2 s d)
  then have "start < length bs" "0 < s" "take s (drop start bs) = d" using run_shape_pos [OF 2(1)]
    by (auto intro: ccontr)
  moreover have "length bs \<le> start + s" using 2 by (metis concat.simps append_Nil2 drop_eq_Nil length_drop nat_add_left_cancel_le le_diff_conv add.commute run_shape.simps(2))
  ultimately obtain x where "groLoop c mem bs a s start items = groLoop c mem bs a s (start + s) (items @ [x])" "itemHolds c x (d, a)"
    using groLoop_step [OF c m, of start bs s a items] by auto
  moreover have "groLoop c mem bs a s (start + s) (items @ [x]) = Some (items @ [x])"
    using \<open>length bs \<le> start + s\<close> \<open>0 < s\<close> by (intro groLoop_stops) simp
  ultimately show ?case by (intro exI [of _ "[x]"]) simp
next
  case (3 s d d' ds)
  then have l: "length d = s" "0 < s" using run_shape_pos [OF 3(2)] by auto
  then have t: "take s (drop start bs) = d" "start < length bs" using 3(3) by (auto intro: ccontr)
  obtain x where x: "groLoop c mem bs a s start items = groLoop c mem bs a s (start + s) (items @ [x])" "itemHolds c x (d, a)"
    using groLoop_step [OF c m, of start bs s a items] t l by auto
  have "drop (start + s) bs = drop s (drop start bs)" by (simp add: add.commute)
  also have "\<dots> = concat (d' # ds)" using 3(3) l by simp
  finally obtain xs where "groLoop c mem bs a s (start + s) (items @ [x]) = Some ((items @ [x]) @ xs)"
    "list_all2 (itemHolds c) xs (map (\<lambda>d. (d, a)) (d' # ds))" using 3(1) [of "start + s" "items @ [x]"] 3(2) by auto
  then show ?case using x by (intro exI [of _ "x # xs"]) simp
qed

lemma groLoop_coalesced:
  assumes c: "udp_config_ok c" and m: "\<forall>j. pool_mem c (mem j)" and co: "coalesced r run"
  shows "\<exists>xs. groLoop c mem (rm_data r) (rm_addr r) (groSegment (int (length (rm_data r))) (rm_seg r)) 0 items = Some (items @ xs)
    \<and> list_all2 (itemHolds c) xs run"
proof -
  have run: "map (\<lambda>d. (d, rm_addr r)) (map fst run) = run"
    using co by (auto simp: coalesced_def intro!: map_idI)
  have ds: "drop 0 (rm_data r) = concat (map fst run)" using co by (simp add: coalesced_def)
  show ?thesis
  proof (cases "length run = 1")
    case True
    then obtain d where d: "map fst run = [d]" by (auto simp: length_Suc_conv)
    have seg: "groSegment (int (length (rm_data r))) (rm_seg r) = max (length (rm_data r)) 1"
      using co True by (auto simp: coalesced_def groSegment_def)
    show ?thesis
    proof (cases "d = []")
      case d0: True
      then have "rm_data r = []" using ds d by simp
      then obtain x where "groLoop c mem [] (rm_addr r) 1 0 items = groLoop c mem [] (rm_addr r) 1 1 (items @ [x])" "itemHolds c x ([], rm_addr r)"
        using groLoop_step [OF c m, of 0 "[]" 1 "rm_addr r" items] by auto
      moreover have "run = [([], rm_addr r)]" using run d d0 by simp
      ultimately show ?thesis using \<open>rm_data r = []\<close> seg groLoop_stops [of "[]" 1 c mem "rm_addr r" 1 "items @ [x]"]
        by (intro exI [of _ "[x]"]) simp
    next
      case False
      then have "run_shape (max (length (rm_data r)) 1) (map fst run)" "map fst run \<noteq> []" using d ds by auto
      then show ?thesis using groLoop_run [OF c m _ ds, of _ "rm_addr r" items] unfolding seg run by blast
    qed
  next
    case False
    then have sh: "run_shape (nat (rm_seg r)) (map fst run)" "1 < length run" "0 \<le> rm_seg r" using co by (auto simp: coalesced_def)
    then obtain d d' ds' where d: "map fst run = d # d' # ds'" by (cases run; cases "tl run") auto
    then have l: "length d = nat (rm_seg r)" "0 < nat (rm_seg r)" and ne: "concat (d' # ds') \<noteq> []"
      using sh(1) run_shape_pos [OF sh(1)] run_shape_nonempty [of "nat (rm_seg r)" "d' # ds'"] by auto
    have "length (rm_data r) = length d + length (concat (d' # ds'))" using ds d by simp
    moreover have "0 < length (concat (d' # ds'))" by (rule ne [folded length_greater_0_conv])
    ultimately have "0 < rm_seg r" "rm_seg r < int (length (rm_data r))" using l by linarith+
    then have seg: "groSegment (int (length (rm_data r))) (rm_seg r) = nat (rm_seg r)" by (simp add: groSegment_def)
    have "map fst run \<noteq> []" using d by simp
    then show ?thesis using groLoop_run [OF c m sh(1) ds, of "rm_addr r" items] unfolding seg run by blast
  qed
qed

text \<open>One message has been read: what the reader has gained and what it keeps.\<close>

definition readOne :: "router_config \<Rightarrow> udp_reader \<Rightarrow> datagram list \<Rightarrow> udp_reader \<Rightarrow> bool" where
  "readOne c r run r' \<longleftrightarrow>
     (\<exists>xs. rd_items r' = rd_items r @ xs \<and> list_all2 (itemHolds c) xs run) \<and> reader_ok c r'
     \<and> length (rd_bufs r') = length (rd_bufs r) \<and> rd_gro r' = rd_gro r \<and> rd_batched r' = rd_batched r \<and> rd_batch r' = rd_batch r"

lemma fillSlot_full:
  assumes "0 \<le> off" "off \<le> int (length m)"
  shows "fillSlot off d (full_slice m) = Some ((full_slice m)\<lparr>sl_mem := blit m (nat off) (take (nat (int (length m) - off)) d)\<rparr>,
    min (int (length d)) (int (length m) - off))"
  using assms sl_in_copy [of off "int (length m)" "full_slice m" d]
  by (simp add: fillSlot_def sl_at_def full_slice_def sl_cap_def)

lemma slice_full: "sl_len b = int (length (sl_mem b)) \<Longrightarrow> b = full_slice (sl_mem b)"
  by (simp add: full_slice_def)

lemma reader_ok_update:
  "reader_ok c r \<Longrightarrow> sl_len b = int (length (sl_mem b)) \<Longrightarrow>
    (if rd_gro r then length (sl_mem b) = udpGROBufSize else pool_mem c (sl_mem b))
    \<Longrightarrow> reader_ok c (r\<lparr>rd_items := items, rd_bufs := (rd_bufs r)[i := b]\<rparr>)"
  unfolding reader_ok_def using set_update_subset_insert [of "rd_bufs r" i b] by (auto dest!: subsetD)

lemma readPlain_reads:
  assumes c: "udp_config_ok c" and m: "\<forall>j. pool_mem c (mem j)" and r: "reader_ok c r" "\<not> rd_gro r" "i < length (rd_bufs r)"
  shows "\<exists>r'. readPlain c mem i x r = Some r' \<and> readOne c r [(rm_data x, rm_addr x)] r'"
proof -
  define b where "b = rd_bufs r ! i"
  have b: "b = full_slice (sl_mem b)" "pool_mem c (sl_mem b)" using r slice_full nth_mem unfolding b_def reader_ok_def by metis+
  have l: "int (length (sl_mem b)) - rc_bufferOffset c = rc_bufferSize c" "0 \<le> rc_bufferOffset c" "rc_bufferOffset c \<le> int (length (sl_mem b))"
    using b(2) c by (auto simp: pool_mem_def poolSize_def udp_config_ok_def)
  let ?b = "(full_slice (sl_mem b))\<lparr>sl_mem := blit (sl_mem b) (nat (rc_bufferOffset c)) (take (nat (rc_bufferSize c)) (rm_data x))\<rparr>"
  let ?n = "min (int (length (rm_data x))) (rc_bufferSize c)"
  let ?m = "mem (length (rd_items r))"
  have f: "fillSlot (rc_bufferOffset c) (rm_data x) b = Some (?b, ?n)"
    using fillSlot_full [OF l(2,3), of "rm_data x"] unfolding l(1) b(1) [symmetric] .
  have p: "pool_mem c ?m" using m by blast
  have h: "sl_from (full_slice ?m) (rc_bufferOffset c) \<noteq> None"
    using p c by (simp add: sl_from_def sl_range_def sl_cap_def full_slice_def pool_mem_def poolSize_def udp_config_ok_def)
  have e: "readPlain c mem i x r = Some (r\<lparr>rd_items := rd_items r @ [\<lparr>it_buf = ?b, it_n = ?n, it_addr = rm_addr x\<rparr>],
      rd_bufs := (rd_bufs r)[i := full_slice ?m]\<rparr>)"
    using r(3) h f by (auto simp: readPlain_def handoff_def b_def)
  have "reader_ok c (r\<lparr>rd_items := rd_items r @ [\<lparr>it_buf = ?b, it_n = ?n, it_addr = rm_addr x\<rparr>], rd_bufs := (rd_bufs r)[i := full_slice ?m]\<rparr>)"
    by (rule reader_ok_update [OF r(1)]) (use p r(2) in \<open>simp_all add: full_slice_def\<close>)
  then show ?thesis unfolding e using itemHolds_intro [OF c b(2), of "rm_data x" "rm_addr x"] by (simp add: readOne_def)
qed

lemma readGRO_reads:
  assumes c: "udp_config_ok c" and m: "\<forall>j. pool_mem c (mem j)" and r: "reader_ok c r" "rd_gro r" "i < length (rd_bufs r)"
    and x: "coalesced x run"
  shows "\<exists>r'. readGRO c mem i x r = Some r' \<and> readOne c r run r'"
proof -
  define b where "b = rd_bufs r ! i"
  have b: "b = full_slice (sl_mem b)" "length (sl_mem b) = udpGROBufSize" using r slice_full nth_mem unfolding b_def reader_ok_def by metis+
  let ?b = "(full_slice (sl_mem b))\<lparr>sl_mem := blit (sl_mem b) 0 (rm_data x)\<rparr>"
  have l: "length (rm_data x) \<le> length (sl_mem b)" using x unfolding coalesced_def b(2) by blast
  have f: "fillSlot 0 (rm_data x) b = Some (?b, int (length (rm_data x)))"
    using fillSlot_full [of 0 "sl_mem b" "rm_data x"] l unfolding b(1) [symmetric] by simp
  have t: "take (length (rm_data x)) (sl_mem ?b) = rm_data x" using l by (simp add: blit_fits)
  obtain xs where g: "groLoop c mem (rm_data x) (rm_addr x) (groSegment (int (length (rm_data x))) (rm_seg x)) 0 (rd_items r) = Some (rd_items r @ xs)"
    "list_all2 (itemHolds c) xs run" using groLoop_coalesced [OF c m x] by blast
  have e: "readGRO c mem i x r = Some (r\<lparr>rd_items := rd_items r @ xs, rd_bufs := (rd_bufs r)[i := ?b]\<rparr>)"
    using r(3) f g(1) t by (auto simp: readGRO_def b_def)
  have "reader_ok c (r\<lparr>rd_items := rd_items r @ xs, rd_bufs := (rd_bufs r)[i := ?b]\<rparr>)"
    by (rule reader_ok_update [OF r(1)]) (use b(2) r(2) in \<open>simp_all add: full_slice_def length_blit\<close>)
  then show ?thesis unfolding e using g(2) by (simp add: readOne_def)
qed

lemma readOne_trans: "readOne c r run r1 \<Longrightarrow> readOne c r1 runs r2 \<Longrightarrow> readOne c r (run @ runs) r2"
  unfolding readOne_def by (auto intro: list_all2_appendI)

lemma readMsgs_reads:
  assumes c: "udp_config_ok c" and m: "\<forall>j. pool_mem c (mem j)"
  shows "reader_ok c r \<Longrightarrow> list_all2 (receives (rd_gro r)) ms runs \<Longrightarrow> i + length ms \<le> length (rd_bufs r) \<Longrightarrow>
    \<exists>r'. readMsgs c mem i ms r = Some r' \<and> readOne c r (concat runs) r'"
proof (induction ms arbitrary: i r runs)
  case Nil
  then show ?case by (simp add: readOne_def)
next
  case (Cons x ms)
  then obtain run runs' where rs: "runs = run # runs'" "receives (rd_gro r) x run" "list_all2 (receives (rd_gro r)) ms runs'"
    by (cases runs) auto
  have i: "i < length (rd_bufs r)" using Cons(4) by simp
  obtain r1 where r1: "(if rd_gro r then readGRO c mem i x r else readPlain c mem i x r) = Some r1" "readOne c r run r1"
    using readGRO_reads [OF c m Cons(2) _ i] readPlain_reads [OF c m Cons(2) _ i] rs(2) by (cases "rd_gro r") (auto simp: receives_def)
  then have "reader_ok c r1" "list_all2 (receives (rd_gro r1)) ms runs'" "(i + 1) + length ms \<le> length (rd_bufs r1)"
    using rs(3) Cons(4) by (auto simp: readOne_def)
  from Cons(1) [OF this] obtain r2 where "readMsgs c mem (i + 1) ms r1 = Some r2" "readOne c r1 (concat runs') r2" by blast
  then show ?case using r1 rs(1) readOne_trans by auto
qed

text \<open>What the caller gets from \<open>Take\<close> for a datagram.\<close>

definition takenAs :: "router_config \<Rightarrow> string \<Rightarrow> 64 word \<Rightarrow> (packet \<times> addr option) option \<Rightarrow> datagram \<Rightarrow> bool" where
  "takenAs c tag batch res d \<longleftrightarrow>
     (\<exists>p. res = Some (p, snd d) \<and> pk_full c p \<and> pk_bytes p = take (nat (rc_bufferSize c)) (fst d)
        \<and> pk_batchID p = batch \<and> pk_srcTag p = tag)"

lemma takeItem_holds:
  assumes "i < length (rd_items r)" "itemHolds c (rd_items r ! i) d"
  shows "takenAs c tag (rd_batch r) (takeItem c i tag r) d"
  using assms by (auto simp: takenAs_def takeItem_def itemHolds_def Let_def getPacketWithBuffer_def pk_full_def pk_wf_def pk_bytes_def)

lemma udpRead_reads:
  assumes c: "udp_config_ok c" and m: "\<forall>j. pool_mem c (mem j)" and r: "reader_ok c r" "length ms \<le> length (rd_bufs r)"
    and ms: "list_all2 (receives (rd_gro r)) ms runs" and one: "\<not> rd_batched r \<Longrightarrow> length ms = 1"
  shows "\<exists>r'. udpRead c mem batch (Inr ms) r = Some (r', Inr (length (concat runs))) \<and> reader_ok c r'
    \<and> list_all2 (takenAs c tag batch) (map (\<lambda>i. takeItem c i tag r') [0..<length (concat runs)]) (concat runs)"
proof -
  let ?r = "r\<lparr>rd_items := [], rd_batch := batch\<rparr>"
  have r0: "reader_ok c ?r" using r(1) by (simp add: reader_ok_def)
  obtain r' where r': "udpRead c mem batch (Inr ms) r = Some (r', Inr (length (rd_items r')))" "readOne c ?r (concat runs) r'"
  proof (cases "rd_batched r")
    case True
    from readMsgs_reads [OF c m r0, of ms runs 0] ms r(2) obtain r' where
      "readMsgs c mem 0 ms ?r = Some r'" "readOne c ?r (concat runs) r'" by auto
    then show ?thesis using that True by (simp add: udpRead_def)
  next
    case False
    then have ng: "\<not> rd_gro ?r" using r(1) by (auto simp: reader_ok_def)
    obtain x where x: "ms = [x]" using one [OF False] by (auto simp: length_Suc_conv)
    then have runs: "concat runs = [(rm_data x, rm_addr x)]" using ms ng by (auto simp: list_all2_Cons1 receives_def)
    have "0 < length (rd_bufs ?r)" using x r(2) by (cases "rd_bufs r") auto
    from readPlain_reads [OF c m r0 ng this, of x] obtain r' where
      "readPlain c mem 0 x ?r = Some r'" "readOne c ?r [(rm_data x, rm_addr x)] r'" by blast
    moreover from this(2) have "length (rd_items r') = 1" by (auto simp: readOne_def dest: list_all2_lengthD)
    ultimately show ?thesis using that False x runs by (simp add: udpRead_def)
  qed
  have it: "list_all2 (itemHolds c) (rd_items r') (concat runs)" "reader_ok c r'" "rd_batch r' = batch" using r'(2) by (auto simp: readOne_def)
  have len: "length (rd_items r') = length (concat runs)" using it(1) by (rule list_all2_lengthD)
  have "list_all2 (takenAs c tag batch) (map (\<lambda>i. takeItem c i tag r') [0..<length (concat runs)]) (concat runs)"
    using takeItem_holds [of _ r' c _ tag] it len by (simp add: list_all2_conv_all_nth)
  then show ?thesis using r'(1) it(2) len by auto
qed

lemma newUDPBatchReader_ok: "\<forall>j. pool_mem c (mem j) \<Longrightarrow> reader_ok c (newUDPBatchReader opts gro mem)"
  by (auto simp: newUDPBatchReader_def reader_ok_def Let_def full_slice_def)

section \<open>From a writer to a reader\<close>

text \<open>The message as the kernel of the receiver may hand it over, still coalesced, from the address \<open>src\<close>.\<close>

definition arriving :: "addr option \<Rightarrow> batch_msg \<Rightarrow> udp_received" where
  "arriving src m = \<lparr>rm_data = concat (bm_bufs m), rm_addr = src,
     rm_seg = (case bm_seg m of None \<Rightarrow> 0 | Some s \<Rightarrow> int (unat s))\<rparr>"

lemma growRun_bounded:
  "growRun s a n k ds = (run, after) \<Longrightarrow> n \<le> udpGSOMaxPayload \<Longrightarrow> n + length (concat run) \<le> udpGSOMaxPayload"
proof (induction s a n k ds arbitrary: run rule: growRun.induct)
  case (2 s a n k d b ds)
  then show ?case by (fastforce split: if_splits prod.splits)
qed simp

lemma takeRun_bounded:
  assumes "takeRun w d a ds = (run, after)" "writer_ok w" "length d \<le> udpGROBufSize"
  shows "length (concat (d # run)) \<le> udpGROBufSize"
proof (cases "run = []")
  case True
  then show ?thesis using assms(3) by simp
next
  case False
  then have "length d \<le> udpGSOMaxPayload" "growRun (length d) a (length d) 1 ds = (run, after)"
    using assms by (auto simp: takeRun_def writer_ok_def udpGSOMaxSegSize_def udpGSOMaxPayload_def split: if_splits)
  then show ?thesis using growRun_bounded by (fastforce simp: udpGROBufSize_def udpGSOMaxPayload_def)
qed

lemma buildMsgs_coalesced:
  assumes "writer_ok w"
  shows "\<forall>d\<in>set ds. length (fst d) \<le> udpGROBufSize \<Longrightarrow>
    list_all2 coalesced (map (arriving src) (buildMsgs w slots i ds)) (map (\<lambda>m. map (\<lambda>d. (d, src)) (bm_bufs m)) (buildMsgs w slots i ds))"
proof (induction slots i ds rule: buildMsgs_induct [where w = w])
  case (msg slots i d a ds run after)
  define m where "m = \<lparr>bm_bufs = d # run, bm_addr = a, bm_seg = (if run = [] then None else Some (word_of_nat (length d))), bm_start = i\<rparr>"
  obtain joined where j: "ds = joined @ after" using takeRun_spec(1) [OF msg(1)] by blast
  have len: "length (concat (d # run)) \<le> udpGROBufSize" using takeRun_bounded [OF msg(1) assms] msg(3) by simp
  have "coalesced (arriving src m) (map (\<lambda>d. (d, src)) (d # run))"
  proof (cases "run = []")
    case True
    then show ?thesis using len by (simp add: coalesced_def arriving_def m_def)
  next
    case False
    then have r: "run_shape (length d) (d # run)" "length d \<le> 1452" using takeRun_spec(2) [OF msg(1)] assms
      by (auto simp: writer_ok_def udpGSOMaxSegSize_def)
    then have "unat (word_of_nat (length d) :: 16 word) = length d" by (simp add: unat_of_nat)
    moreover have "map fst (map (\<lambda>d. (d, src)) (d # run)) = d # run" by (simp add: comp_def)
    ultimately show ?thesis using False r(1) len unfolding coalesced_def arriving_def m_def by simp
  qed
  moreover have "\<forall>d\<in>set after. length (fst d) \<le> udpGROBufSize" using msg(3) j by simp
  ultimately show ?case using msg(2) by (simp add: buildMsgs_Cons [OF msg(1)] m_def del: buildMsgs.simps)
qed simp_all

lemma buildMsgs_all: "length ds \<le> slots \<Longrightarrow> concat (map bm_bufs (buildMsgs w slots i ds)) = map fst ds"
proof (induction slots i ds rule: buildMsgs_induct [where w = w])
  case (msg slots i d a ds run after)
  obtain joined where j: "ds = joined @ after" "map fst joined = run" using takeRun_spec(1) [OF msg(1)] by blast
  then have "length after \<le> slots" "map fst ds = run @ map fst after" using msg(3) by auto
  then show ?case using msg(2) by (simp add: buildMsgs_Cons [OF msg(1)] del: buildMsgs.simps)
qed simp_all

section \<open>Properties\<close>

text \<open>C13. The batched writer sends exactly a prefix of what it is given. Whatever the kernel accepts and
  rejects, the datagrams it has taken after \<open>Write\<close> are the first \<open>n\<close> of the data, each once, in order, unchanged and to
  its own address, where \<open>n\<close> is the number \<open>Write\<close> returns: coalescing them for the kernel, adapting after a rejected run and
  sending more datagrams than there are message slots show in nothing else. An error is returned exactly
  when something is left.\<close>

theorem udp_write_sends_prefix:
  assumes "kernel_laws K" "writer_ok w" "udpWrite K w ds k = (k', w', n, err)"
  shows "\<exists>xs. uk_taken K k' = uk_taken K k @ xs \<and> list_all2 sameDatagram xs (take n ds) \<and> n \<le> length ds
    \<and> (err = None \<longleftrightarrow> n = length ds) \<and> writer_ok w'"
proof -
  from udpWrite_wrote [OF assms(3,1,2)] obtain xs ds1 ds2 where
    "ds = ds1 @ ds2" "n = length ds1" "uk_taken K k' = uk_taken K k @ xs" "list_all2 sameDatagram xs ds1"
    "err = None \<longleftrightarrow> ds2 = []" "writer_ok w'" unfolding wrote_def by blast
  then show ?thesis by auto
qed

text \<open>
  A kernel for the examples: its state is what it has taken and the errors of its next calls; it takes one
  message per call.
\<close>

definition demoKernel :: "(datagram list \<times> udp_error option list) udp_kernel" where
  "demoKernel = \<lparr>
     uk_batch = (\<lambda>ms k. if snd k \<noteq> [] \<and> hd (snd k) \<noteq> None then ((fst k, tl (snd k)), 0, hd (snd k))
       else ((fst k @ allDatagrams (take 1 ms), tl (snd k)), int (length (take 1 ms)), None)),
     uk_write = (\<lambda>d k. if snd k \<noteq> [] \<and> hd (snd k) \<noteq> None then ((fst k, tl (snd k)), hd (snd k))
       else ((fst k @ [d], tl (snd k)), None)),
     uk_taken = fst\<rparr>"

lemma demoKernel_laws: "kernel_laws demoKernel"
proof -
  have "take (min (length ms) (Suc 0)) ms = take (Suc 0) ms" for ms :: "batch_msg list" by (simp add: min_def)
  then show ?thesis by (auto simp: kernel_laws_def demoKernel_def split: if_splits)
qed

definition demoWriter :: udp_writer where
  "demoWriter = newUDPBatchWriter (newUDPIOOptions True 2 None)"

lemma demoWriter_eq: "demoWriter = \<lparr>uw_slots = 2, uw_gso = True, uw_maxSeg = 1452, uw_shrink = 0\<rparr>"
  by (simp add: demoWriter_def newUDPBatchWriter_def newUDPIOOptions_def udpGSOMaxSegSize_def)

lemma demoWriter_ok: "writer_ok demoWriter"
  by (simp add: demoWriter_def newUDPBatchWriter_def writer_ok_def)

abbreviation demoDatagrams :: "datagram list" where
  "demoDatagrams \<equiv> [([1, 2], None), ([3, 4], None), ([5], None), ([], None), ([6, 7, 8], None)]"

text \<open>
  The first run is rejected, so the writer stops coalescing and sends one by one; the third of these fails.
\<close>

theorem udp_write_sends_prefix_witness:
  "\<exists>xs. fst (fst (udpWrite demoKernel demoWriter demoDatagrams ([], [Some EIO, None, None, Some EMSGSIZE]))) = xs
    \<and> list_all2 sameDatagram xs (take 2 demoDatagrams)
    \<and> snd (snd (snd (udpWrite demoKernel demoWriter demoDatagrams ([], [Some EIO, None, None, Some EMSGSIZE])))) = Some EMSGSIZE"
proof -
  let ?k = "([], [Some EIO, None, None, Some EMSGSIZE]) :: datagram list \<times> udp_error option list"
  have w: "udpWrite demoKernel demoWriter demoDatagrams ?k = ((take 2 demoDatagrams, []), demoWriter\<lparr>uw_gso := False\<rparr>, 2, Some EMSGSIZE)"
    by (simp add: udpWrite.simps Let_def numeral_2_eq_2 demoWriter_eq demoKernel_def takeRun_def sameUDPAddr_def onGSOError_def msgDatagrams_def
      udpGSOMaxSegs_def udpGSOMaxPayload_def)
  from udp_write_sends_prefix [OF demoKernel_laws demoWriter_ok w] show ?thesis
    unfolding w by (simp add: demoKernel_def)
qed

text \<open>C12. Splitting what was coalesced gives the datagrams back. For a writer with room for all its data, a kernel that
  carries the messages of one \<open>Write\<close> as they are, and a reader with GRO, \<open>Read\<close> never panics and hands out exactly
  the datagrams that were written, in order and with their boundaries, each in a well-formed packet of its own that is cut
  only where a buffer ends, with the address of the sender and the number of the batch.\<close>

theorem udp_gro_inverts_gso:
  assumes "udp_config_ok c" "\<forall>j. pool_mem c (mem j)" "writer_ok w" "length ds \<le> uw_slots w"
    and "\<forall>d\<in>set ds. length (fst d) \<le> udpGROBufSize"
    and "reader_ok c r" "rd_gro r" "length (buildMsgs w (uw_slots w) 0 ds) \<le> length (rd_bufs r)"
  shows "\<exists>r'. udpRead c mem batch (Inr (map (arriving src) (buildMsgs w (uw_slots w) 0 ds))) r = Some (r', Inr (length ds))
    \<and> reader_ok c r'
    \<and> list_all2 (takenAs c tag batch) (map (\<lambda>i. takeItem c i tag r') [0..<length ds]) (map (\<lambda>d. (fst d, src)) ds)"
proof -
  let ?ms = "buildMsgs w (uw_slots w) 0 ds"
  let ?runs = "map (\<lambda>m. map (\<lambda>d. (d, src)) (bm_bufs m)) ?ms"
  have "concat ?runs = map (\<lambda>d. (d, src)) (concat (map bm_bufs ?ms))" by (simp add: map_concat comp_def)
  then have runs: "concat ?runs = map (\<lambda>d. (fst d, src)) ds" using buildMsgs_all [OF assms(4)] by (simp add: comp_def)
  have "list_all2 (receives (rd_gro r)) (map (arriving src) ?ms) ?runs"
    using buildMsgs_coalesced [OF assms(3,5)] assms(7) by (simp add: receives_def [abs_def])
  moreover have "rd_batched r" using assms(6,7) by (simp add: reader_ok_def)
  ultimately have "\<exists>r'. udpRead c mem batch (Inr (map (arriving src) ?ms)) r = Some (r', Inr (length (concat ?runs))) \<and> reader_ok c r'
    \<and> list_all2 (takenAs c tag batch) (map (\<lambda>i. takeItem c i tag r') [0..<length (concat ?runs)]) (concat ?runs)"
    using udpRead_reads [OF assms(1,2,6), of "map (arriving src) ?ms" ?runs batch tag] assms(8) by simp
  then show ?thesis unfolding runs by simp
qed

text \<open>\<open>Read\<close> loses and mixes nothing, in any of its modes. Whatever the kernel puts into the slots (one datagram each,
  or with GRO runs of equal-sized ones), \<open>Read\<close> never panics, reports as many datagrams as were
  sent, and \<open>Take\<close> hands them out in order in well-formed packets that own a whole buffer of the pool; the reader has
  refilled every slot, so it can read again.\<close>

theorem udp_read_delivers:
  assumes "udp_config_ok c" "\<forall>j. pool_mem c (mem j)" "reader_ok c r" "length ms \<le> length (rd_bufs r)"
    and "list_all2 (receives (rd_gro r)) ms runs" "rd_batched r \<or> length ms = 1"
  shows "\<exists>r'. udpRead c mem batch (Inr ms) r = Some (r', Inr (length (concat runs))) \<and> reader_ok c r'
    \<and> list_all2 (takenAs c tag batch) (map (\<lambda>i. takeItem c i tag r') [0..<length (concat runs)]) (concat runs)"
  using udpRead_reads [OF assms(1-5)] assms(6) by blast

text \<open>C17. The flush of the listener's send loop over the batched writer refines the loop of the listener's model: the kernel
  ends up with what \<open>writeFrom\<close> writes when each of its calls achieves what the writer reported. Every queued
  datagram is attempted once; those the kernel refused are skipped, each with one logged error, and the others are sent in order,
  unchanged and to their own addresses.\<close>

theorem listen_flush_refines:
  assumes "kernel_laws K" "writer_ok w" "flushDatagrams K w ds k = (k', w', errs)"
  shows "\<exists>xs wres. uk_taken K k' = uk_taken K k @ xs \<and> list_all2 sameDatagram xs (writeFrom wres ds)
    \<and> length wres = length errs \<and> length xs + length errs = length ds"
  using flushDatagrams_writeFrom [OF assms(3,1,2)] .

theorem listen_flush_refines_witness:
  "\<exists>wres. list_all2 sameDatagram (fst (fst (flushDatagrams demoKernel demoWriter demoDatagrams ([], [Some EIO, None, None, Some EMSGSIZE]))))
    (writeFrom wres demoDatagrams) \<and> length wres = 1"
proof -
  let ?k = "([], [Some EIO, None, None, Some EMSGSIZE]) :: datagram list \<times> udp_error option list"
  have w: "udpWrite demoKernel demoWriter demoDatagrams ?k = ((take 2 demoDatagrams, []), demoWriter\<lparr>uw_gso := False\<rparr>, 2, Some EMSGSIZE)"
    by (simp add: udpWrite.simps Let_def numeral_2_eq_2 demoWriter_eq demoKernel_def takeRun_def sameUDPAddr_def onGSOError_def msgDatagrams_def
      udpGSOMaxSegs_def udpGSOMaxPayload_def)
  have w2: "udpWrite demoKernel (demoWriter\<lparr>uw_gso := False\<rparr>) (drop 3 demoDatagrams) (take 2 demoDatagrams, [])
    = ((take 2 demoDatagrams @ drop 3 demoDatagrams, []), demoWriter\<lparr>uw_gso := False\<rparr>, 2, None)"
    by (simp add: udpWrite.simps Let_def numeral_2_eq_2 demoWriter_eq demoKernel_def takeRun_def msgDatagrams_def)
  have f: "flushDatagrams demoKernel demoWriter demoDatagrams ?k = ((take 2 demoDatagrams @ drop 3 demoDatagrams, []), demoWriter\<lparr>uw_gso := False\<rparr>, [EMSGSIZE])"
    using w w2 by simp
  from listen_flush_refines [OF demoKernel_laws demoWriter_ok f] show ?thesis unfolding f by (simp add: demoKernel_def)
qed

definition demoReader :: "bool \<Rightarrow> udp_reader" where
  "demoReader gro = newUDPBatchReader (newUDPIOOptions True 4 None) gro (\<lambda>i. replicate 164 0)"

lemma demo_udp_config: "udp_config_ok demoConfig" "\<forall>j. pool_mem demoConfig ((\<lambda>i. replicate 164 0) j)"
  by (simp_all add: udp_config_ok_def demoConfig_def pool_mem_def poolSize_def)

lemma demoReader_ok: "reader_ok demoConfig (demoReader gro)"
  unfolding demoReader_def by (rule newUDPBatchReader_ok [OF demo_udp_config(2)])

lemma demoReader_slots: "rd_gro (demoReader gro) = gro" "rd_batched (demoReader gro)" "length (rd_bufs (demoReader gro)) = 4"
  by (cases gro; simp add: demoReader_def newUDPBatchReader_def newUDPIOOptions_def udpGROMaxBatch_def Let_def)+

theorem udp_gro_inverts_gso_witness:
  "\<exists>r'. udpRead demoConfig (\<lambda>i. replicate 164 0) 7 (Inr (map (arriving None)
        (buildMsgs (newUDPBatchWriter (newUDPIOOptions True 4 None)) 4 0 [([1, 2], None), ([3, 4], None), ([5], None), ([], None)])))
      (demoReader True) = Some (r', Inr 4) \<and> takenAs demoConfig [] 7 (takeItem demoConfig 2 [] r') ([5], None)"
proof -
  let ?w = "newUDPBatchWriter (newUDPIOOptions True 4 None)" and ?ds = "[([1, 2], None), ([3, 4], None), ([5], None), ([], None)] :: datagram list"
  have w: "writer_ok ?w" "uw_slots ?w = 4"
    by (simp_all add: newUDPBatchWriter_def newUDPIOOptions_def writer_ok_def)
  have ms: "length (buildMsgs ?w (uw_slots ?w) 0 ?ds) \<le> length (rd_bufs (demoReader True))"
    unfolding demoReader_slots w(2) by (rule length_buildMsgs)
  have "length ?ds \<le> uw_slots ?w" "\<forall>d\<in>set ?ds. length (fst d) \<le> udpGROBufSize" by (simp_all add: w(2) udpGROBufSize_def)
  from udp_gro_inverts_gso [OF demo_udp_config w(1) this demoReader_ok _ ms, of 7 None "[]"] show ?thesis unfolding w(2) by (simp add: demoReader_slots eval_nat_numeral del: buildMsgs.simps) blast
qed

theorem udp_read_delivers_witness:
  "\<exists>r'. udpRead demoConfig (\<lambda>i. replicate 164 0) 7 (Inr [\<lparr>rm_data = [1, 2], rm_addr = None, rm_seg = 0\<rparr>, \<lparr>rm_data = [], rm_addr = None, rm_seg = 0\<rparr>])
      (demoReader False) = Some (r', Inr 2)"
proof -
  let ?ms = "[\<lparr>rm_data = [1, 2], rm_addr = None, rm_seg = 0\<rparr>, \<lparr>rm_data = [], rm_addr = None, rm_seg = 0\<rparr>] :: udp_received list"
  let ?runs = "[[([1, 2], None)], [([], None)]] :: datagram list list"
  have "length ?ms \<le> length (rd_bufs (demoReader False))" "list_all2 (receives (rd_gro (demoReader False))) ?ms ?runs"
    "rd_batched (demoReader False) \<or> length ?ms = 1" by (simp_all add: receives_def demoReader_slots)
  from udp_read_delivers [OF demo_udp_config demoReader_ok this, of 7 "[]"] show ?thesis by (simp add: numeral_2_eq_2) blast
qed

end
