(* ===== verification/NetSetup.thy ===== *)
theory NetSetup
  imports IpRouter "HOL-Library.Multiset"
begin

text \<open>
  The network setup of TUN interfaces, \<open>tun_netconfig.go\<close>: addresses and routes of an interface, forwarding,
  TCP MSS clamping, policy routes and masquerading, applied by running \<open>ip\<close> and \<open>iptables\<close> and undone in
  reverse order. The host is a parameter: a state \<open>'k\<close> and what a command does to it. \<open>host_laws\<close> states
  what the commands do to the rules and routes the host has, which may hold a rule more than once;
  any command may fail, the deletions too.
\<close>

section \<open>Configuration and errors\<close>

type_synonym command = "string list"

record policy_route =
  pr_from :: "string list"
  pr_table :: int
  pr_priority :: int
  pr_dev :: string
  pr_routes :: "string list"

record masquerade =
  mq_source :: string
  mq_out :: string

record net_config =
  nc_forward :: bool
  nc_mss :: bool
  nc_policy :: "policy_route list"
  nc_masq :: "masquerade list"

datatype net_error = NotLinux | NoInterface | SysctlFailed string | CommandFailed command string | BadTable | NoFrom
  | BadPrefix string | NoDefaultInterface string

text \<open>
  What the code asks of the host and of Go's libraries: \<open>runNetCommand\<close> and \<open>ensureSysctl\<close> with their error
  texts, \<open>lookupDefaultInterface\<close> (which only reads), and \<open>netip.ParsePrefix\<close> followed by \<open>Masked\<close>, as the
  text of the prefix and whether it is an IPv6 one. \<open>nh_entries\<close> is not used by the code: it is what
  the host has, each rule and route named by the command that deletes it, with its multiplicity.
\<close>

record 'k net_host =
  nh_linux :: bool
  nh_run :: "command \<Rightarrow> 'k \<Rightarrow> 'k \<times> string option"
  nh_sysctl :: "string \<Rightarrow> 'k \<Rightarrow> 'k \<times> string option"
  nh_prefix :: "string \<Rightarrow> (string \<times> bool) option"
  nh_default :: "bool \<Rightarrow> 'k \<Rightarrow> string + string"
  nh_entries :: "'k \<Rightarrow> command multiset"

text \<open>The host and the list \<open>undo\<close>.\<close>

type_synonym 'k setup_state = "'k \<times> command list"
type_synonym 'k net_step = "'k setup_state \<Rightarrow> 'k setup_state \<times> net_error option"

section \<open>Sequences with early return\<close>

definition andThen :: "'k net_step \<Rightarrow> 'k net_step \<Rightarrow> 'k net_step" where
  "andThen f g s = (case f s of (s', err) \<Rightarrow> (case err of None \<Rightarrow> g s' | Some e \<Rightarrow> (s', Some e)))"

fun foreach :: "('a \<Rightarrow> 'k net_step) \<Rightarrow> 'a list \<Rightarrow> 'k net_step" where
  "foreach f [] s = (s, None)"
| "foreach f (x # xs) s = andThen (f x) (foreach f xs) s"

definition skip :: "'k net_step" where
  "skip s = (s, None)"

definition failWith :: "net_error \<Rightarrow> 'k net_step" where
  "failWith e s = (s, Some e)"

text \<open>Run a command and, when it succeeds, remember how to undo it.\<close>

definition runCmd :: "('k, 'x) net_host_scheme \<Rightarrow> command \<Rightarrow> command list \<Rightarrow> 'k net_step" where
  "runCmd H c un s = (case nh_run H c (fst s) of (k', err) \<Rightarrow>
     (case err of None \<Rightarrow> ((k', snd s @ un), None) | Some e \<Rightarrow> ((k', snd s), Some (CommandFailed c e))))"

definition runIgnoring :: "('k, 'x) net_host_scheme \<Rightarrow> command \<Rightarrow> 'k net_step" where
  "runIgnoring H c s = ((fst (nh_run H c (fst s)), snd s), None)"

section \<open>Texts\<close>

fun natToa :: "nat \<Rightarrow> string" where
  "natToa n = (if n < 10 then [char_of (48 + n)] else natToa (n div 10) @ [char_of (48 + n mod 10)])"

definition itoa :: "int \<Rightarrow> string" where
  "itoa i = (if i < 0 then CHR ''-'' # natToa (nat (- i)) else natToa (nat i))"

fun hasPrefix :: "string \<Rightarrow> string \<Rightarrow> bool" where
  "hasPrefix [] s = True"
| "hasPrefix (p # ps) [] = False"
| "hasPrefix (p # ps) (c # s) = (p = c \<and> hasPrefix ps s)"

fun containsText :: "string \<Rightarrow> string \<Rightarrow> bool" where
  "containsText p [] = (p = [])"
| "containsText p (c # s) = (hasPrefix p (c # s) \<or> containsText p s)"

definition isIPAlreadyExists :: "string \<Rightarrow> bool" where
  "isIPAlreadyExists e = containsText ''File exists'' e"

definition ipFamilyArgs :: "string \<Rightarrow> string list" where
  "ipFamilyArgs p = (if CHR '':'' \<in> set p then [''-6''] else [])"

definition iptablesBinaries :: "bool \<Rightarrow> bool \<Rightarrow> string list" where
  "iptablesBinaries v4 v6 = (if v4 then [''iptables''] else []) @ (if v6 then [''ip6tables''] else [])"

fun splitLines :: "string \<Rightarrow> string list" where
  "splitLines [] = [[]]"
| "splitLines (c # s) = (if c = CHR ''\<newline>'' then [] # splitLines s
     else (case splitLines s of [] \<Rightarrow> [[c]] | l # ls \<Rightarrow> (c # l) # ls))"

text \<open>\<open>countIptablesRules\<close> on the output of the save command, and the choice of the backend from both counts.\<close>

definition countIptablesRules :: "string option \<Rightarrow> int" where
  "countIptablesRules output = (case output of None \<Rightarrow> - 1
     | Some s \<Rightarrow> int (length (filter (hasPrefix ''-A '') (splitLines s))))"

definition iptablesBackend :: "string \<Rightarrow> int \<Rightarrow> int \<Rightarrow> string" where
  "iptablesBackend env legacy nft =
     (if map toLower (trimSpace env) = ''legacy'' \<or> map toLower (trimSpace env) = ''nft'' then map toLower (trimSpace env)
      else if legacy < 0 \<and> nft < 0 then ''''
      else if nft < legacy then ''legacy'' else ''nft'')"

definition iptablesBinary :: "string \<Rightarrow> (string \<Rightarrow> bool) \<Rightarrow> string \<Rightarrow> string" where
  "iptablesBinary backend installed name =
     (if backend = '''' then name
      else if installed (name @ ''-'' @ backend) then name @ ''-'' @ backend else name)"

text \<open>The interface after the first \<open>dev\<close> among the fields that \<open>ip route show default\<close> prints.\<close>

fun defaultDev :: "string list \<Rightarrow> string option" where
  "defaultDev (f # g # fs) = (if f = ''dev'' then Some g else defaultDev (g # fs))"
| "defaultDev _ = None"

section \<open>The interface\<close>

definition addAddress :: "('k, 'x) net_host_scheme \<Rightarrow> string \<Rightarrow> string \<Rightarrow> 'k net_step" where
  "addAddress H iface raw s =
     (let address = trimSpace raw; c = [''ip'', ''address'', ''add'', address, ''dev'', iface] in
      if address = [] then skip s
      else (case nh_run H c (fst s) of (k', err) \<Rightarrow>
        (case err of None \<Rightarrow> ((k', snd s), None)
         | Some e \<Rightarrow> ((k', snd s), if isIPAlreadyExists e then None else Some (CommandFailed c e)))))"

definition addRoute :: "('k, 'x) net_host_scheme \<Rightarrow> string \<Rightarrow> string \<Rightarrow> 'k net_step" where
  "addRoute H iface route = runCmd H (''ip'' # ipFamilyArgs route @ [''route'', ''replace'', route, ''dev'', iface]) []"

definition configureTunInterface :: "('k, 'x) net_host_scheme \<Rightarrow> string \<Rightarrow> int \<Rightarrow> string list \<Rightarrow> string list \<Rightarrow> 'k net_step" where
  "configureTunInterface H iface mtu addresses routes =
     (if \<not> nh_linux H then failWith NotLinux
      else if iface = [] then failWith NoInterface
      else andThen (if 0 < mtu then runCmd H [''ip'', ''link'', ''set'', ''dev'', iface, ''mtu'', itoa mtu] [] else skip)
        (andThen (foreach (addAddress H iface) addresses)
        (andThen (runCmd H [''ip'', ''link'', ''set'', ''dev'', iface, ''up''] [])
          (foreach (addRoute H iface) routes))))"

section \<open>Rules, policy routes and masquerading\<close>

definition ruleCmd :: "string \<Rightarrow> string \<Rightarrow> string \<Rightarrow> string \<Rightarrow> string list \<Rightarrow> command" where
  "ruleCmd bin table op chain rule = [bin, ''-t'', table, op, chain] @ rule"

definition addRule :: "('k, 'x) net_host_scheme \<Rightarrow> string \<Rightarrow> string \<Rightarrow> string \<Rightarrow> string \<Rightarrow> string list \<Rightarrow> 'k net_step" where
  "addRule H bin table chain op rule s =
     (case nh_run H (ruleCmd bin table ''-C'' chain rule) (fst s) of (k1, missing) \<Rightarrow>
        if missing \<noteq> None
        then runCmd H (ruleCmd bin table op chain rule) [ruleCmd bin table ''-D'' chain rule] (k1, snd s)
        else ((k1, snd s @ [ruleCmd bin table ''-D'' chain rule]), None))"

abbreviation insertRule :: "('k, 'x) net_host_scheme \<Rightarrow> string \<Rightarrow> string \<Rightarrow> string \<Rightarrow> string list \<Rightarrow> 'k net_step" where
  "insertRule H bin table chain \<equiv> addRule H bin table chain ''-I''"

abbreviation appendRule :: "('k, 'x) net_host_scheme \<Rightarrow> string \<Rightarrow> string \<Rightarrow> string \<Rightarrow> string list \<Rightarrow> 'k net_step" where
  "appendRule H bin table chain \<equiv> addRule H bin table chain ''-A''"

fun parseFroms :: "('k, 'x) net_host_scheme \<Rightarrow> string list \<Rightarrow> string + (string \<times> bool) list" where
  "parseFroms H [] = Inr []"
| "parseFroms H (raw # raws) =
     (case nh_prefix H (trimSpace raw) of None \<Rightarrow> Inl raw
      | Some p \<Rightarrow> (case parseFroms H raws of Inl e \<Rightarrow> Inl e | Inr ps \<Rightarrow> Inr (p # ps)))"

text \<open>The default destinations: one per family, in the order in which the families appear.\<close>

fun defaultDests :: "bool list \<Rightarrow> (string \<times> bool) list \<Rightarrow> string list" where
  "defaultDests seen [] = []"
| "defaultDests seen ((p, six) # froms) =
     (if six \<in> set seen then defaultDests seen froms
      else (if six then ''::/0'' else ''0.0.0.0/0'') # defaultDests (six # seen) froms)"

definition destStep :: "('k, 'x) net_host_scheme \<Rightarrow> string \<Rightarrow> string \<Rightarrow> string \<Rightarrow> 'k net_step" where
  "destStep H dev table raw =
     (let dest = trimSpace raw; family = ipFamilyArgs dest in
      runCmd H (''ip'' # family @ [''route'', ''replace'', dest, ''dev'', dev, ''table'', table])
        [''ip'' # family @ [''route'', ''del'', dest, ''dev'', dev, ''table'', table]])"

definition fromStep :: "('k, 'x) net_host_scheme \<Rightarrow> string \<Rightarrow> int \<Rightarrow> string \<times> bool \<Rightarrow> 'k net_step" where
  "fromStep H table priority p =
     (let from = fst p; family = ipFamilyArgs from;
          rule = family @ [''rule'', ''add'', ''from'', from, ''lookup'', table]
            @ (if 0 < priority then [''priority'', itoa priority] else []);
          del = (''ip'' # rule)[length family + 2 := ''del'']
      in andThen (runCmd H (''ip'' # family @ [''route'', ''replace'', ''throw'', from, ''table'', table])
            [''ip'' # family @ [''route'', ''del'', ''throw'', from, ''table'', table]])
        (andThen (runIgnoring H del) (runCmd H (''ip'' # rule) [del])))"

definition applyPolicyRoute :: "('k, 'x) net_host_scheme \<Rightarrow> string \<Rightarrow> policy_route \<Rightarrow> 'k net_step" where
  "applyPolicyRoute H iface r =
     (if pr_table r \<le> 0 then failWith BadTable
      else if pr_from r = [] then failWith NoFrom
      else (let dev = (if trimSpace (pr_dev r) = [] then iface else trimSpace (pr_dev r)); table = itoa (pr_table r) in
        case parseFroms H (pr_from r) of
          Inl raw \<Rightarrow> failWith (BadPrefix raw)
        | Inr froms \<Rightarrow>
            andThen (foreach (destStep H dev table) (if pr_routes r = [] then defaultDests [] froms else pr_routes r))
              (foreach (fromStep H table (pr_priority r)) froms)))"

definition applyMasquerade :: "('k, 'x) net_host_scheme \<Rightarrow> masquerade \<Rightarrow> 'k net_step" where
  "applyMasquerade H m s =
     (case nh_prefix H (trimSpace (mq_source m)) of
        None \<Rightarrow> failWith (BadPrefix (mq_source m)) s
      | Some (p, six) \<Rightarrow>
          (case (if trimSpace (mq_out m) = ''auto'' then nh_default H six (fst s) else Inr (trimSpace (mq_out m))) of
             Inl e \<Rightarrow> failWith (NoDefaultInterface e) s
           | Inr out \<Rightarrow>
               appendRule H (if six then ''ip6tables'' else ''iptables'') ''nat'' ''POSTROUTING''
                 ([''-s'', p] @ (if out \<noteq> [] then [''-o'', out] else [''!'', ''-d'', p]) @ [''-j'', ''MASQUERADE'']) s))"

definition ensureSysctl :: "('k, 'x) net_host_scheme \<Rightarrow> string \<Rightarrow> 'k net_step" where
  "ensureSysctl H name s = (case nh_sysctl H name (fst s) of (k', err) \<Rightarrow>
     ((k', snd s), case err of None \<Rightarrow> None | Some e \<Rightarrow> Some (SysctlFailed name)))"

definition applyForward :: "('k, 'x) net_host_scheme \<Rightarrow> string \<Rightarrow> bool \<Rightarrow> bool \<Rightarrow> 'k net_step" where
  "applyForward H iface v4 v6 =
     andThen (if v4 then ensureSysctl H ''net/ipv4/ip_forward'' else skip)
       (andThen (if v6 then ensureSysctl H ''net/ipv6/conf/all/forwarding'' else skip)
         (foreach (\<lambda>bin. andThen (insertRule H bin ''filter'' ''FORWARD'' [''-i'', iface, ''-j'', ''ACCEPT''])
            (insertRule H bin ''filter'' ''FORWARD'' [''-o'', iface, ''-j'', ''ACCEPT'']))
          (iptablesBinaries v4 v6)))"

definition applyClamp :: "('k, 'x) net_host_scheme \<Rightarrow> string \<Rightarrow> bool \<Rightarrow> bool \<Rightarrow> 'k net_step" where
  "applyClamp H iface v4 v6 =
     foreach (\<lambda>bin. foreach (\<lambda>direction. insertRule H bin ''mangle'' ''FORWARD'' [direction, iface,
         ''-p'', ''tcp'', ''--tcp-flags'', ''SYN,RST'', ''SYN'', ''-j'', ''TCPMSS'', ''--clamp-mss-to-pmtu'']) [''-i'', ''-o''])
       (iptablesBinaries v4 v6)"

definition applyAll :: "('k, 'x) net_host_scheme \<Rightarrow> string \<Rightarrow> net_config \<Rightarrow> bool \<Rightarrow> bool \<Rightarrow> 'k net_step" where
  "applyAll H iface cfg v4 v6 =
     andThen (if nc_forward cfg then applyForward H iface v4 v6 else skip)
       (andThen (if nc_mss cfg then applyClamp H iface v4 v6 else skip)
         (andThen (foreach (applyPolicyRoute H iface) (nc_policy cfg))
           (foreach (applyMasquerade H) (nc_masq cfg))))"

definition emptyConfig :: "net_config \<Rightarrow> bool" where
  "emptyConfig cfg \<longleftrightarrow> \<not> nc_forward cfg \<and> \<not> nc_mss cfg \<and> nc_policy cfg = [] \<and> nc_masq cfg = []"

text \<open>\<open>families\<close>: a text that names an address or a prefix is IPv6 when it holds a colon; without any, IPv4 is used.\<close>

definition families :: "net_config \<Rightarrow> string list \<Rightarrow> bool \<times> bool" where
  "families cfg addresses =
     (let raws = filter (\<lambda>t. t \<noteq> []) (map trimSpace (addresses @ concat (map pr_from (nc_policy cfg)) @ map mq_source (nc_masq cfg)));
          v6 = (\<exists>t\<in>set raws. CHR '':'' \<in> set t); v4 = (\<exists>t\<in>set raws. CHR '':'' \<notin> set t)
      in if \<not> v4 \<and> \<not> v6 then (True, False) else (v4, v6))"

fun undoAll :: "('k, 'x) net_host_scheme \<Rightarrow> command list \<Rightarrow> 'k \<Rightarrow> 'k" where
  "undoAll H [] k = k"
| "undoAll H (c # cs) k = undoAll H cs (fst (nh_run H c k))"

text \<open>The commands of an undoing that fail: \<open>teardown\<close> writes them to the log and goes on.\<close>

fun undoFailed :: "('k, 'x) net_host_scheme \<Rightarrow> command list \<Rightarrow> 'k \<Rightarrow> command list" where
  "undoFailed H [] k = []"
| "undoFailed H (c # cs) k =
     (if snd (nh_run H c k) = None then [] else [c]) @ undoFailed H cs (fst (nh_run H c k))"

definition teardownLog :: "('k, 'x) net_host_scheme \<Rightarrow> 'k setup_state \<Rightarrow> command list" where
  "teardownLog H s = undoFailed H (rev (snd s)) (fst s)"

definition teardown :: "('k, 'x) net_host_scheme \<Rightarrow> 'k setup_state \<Rightarrow> 'k setup_state" where
  "teardown H s = (undoAll H (rev (snd s)) (fst s), [])"

definition applySetup :: "('k, 'x) net_host_scheme \<Rightarrow> string \<Rightarrow> net_config \<Rightarrow> string list \<Rightarrow> 'k net_step" where
  "applySetup H iface cfg addresses s =
     (if emptyConfig cfg then (s, None)
      else if \<not> nh_linux H then (s, Some NotLinux)
      else (case families cfg addresses of (v4, v6) \<Rightarrow>
        (case applyAll H iface cfg v4 v6 s of (s', err) \<Rightarrow>
          (case err of None \<Rightarrow> (s', None) | Some e \<Rightarrow> (teardown H s', Some e)))))"

text \<open>What \<open>apply\<close> logs when it undoes its work after an error.\<close>

definition applyLog :: "('k, 'x) net_host_scheme \<Rightarrow> string \<Rightarrow> net_config \<Rightarrow> string list \<Rightarrow> 'k setup_state \<Rightarrow> command list" where
  "applyLog H iface cfg addresses s =
     (if emptyConfig cfg \<or> \<not> nh_linux H then []
      else (case families cfg addresses of (v4, v6) \<Rightarrow>
        (case applyAll H iface cfg v4 v6 s of (s', err) \<Rightarrow>
          (case err of None \<Rightarrow> [] | Some e \<Rightarrow> teardownLog H s'))))"

section \<open>Nothing is left behind\<close>

text \<open>The commands that add something, and those that delete it again.\<close>

inductive undone_by :: "command \<Rightarrow> command \<Rightarrow> bool" where
  rule: "op = ''-I'' \<or> op = ''-A'' \<Longrightarrow> bin = ''iptables'' \<or> bin = ''ip6tables'' \<Longrightarrow> undone_by (ruleCmd bin table op chain r) (ruleCmd bin table ''-D'' chain r)"
| route: "family = [] \<or> family = [''-6''] \<Longrightarrow> undone_by (''ip'' # family @ ''route'' # ''replace'' # r) (''ip'' # family @ ''route'' # ''del'' # r)"
| policy: "family = [] \<or> family = [''-6''] \<Longrightarrow> undone_by (''ip'' # family @ ''rule'' # ''add'' # r) (''ip'' # family @ ''rule'' # ''del'' # r)"

text \<open>
  An addition adds at most its own entry once, and nothing when it fails (a replaced route may go); a
  deletion that succeeds takes one such entry away, one that fails adds nothing; checks and \<open>sysctl\<close>
  add nothing.
\<close>

definition host_laws :: "('k, 'x) net_host_scheme \<Rightarrow> bool" where
  "host_laws H \<longleftrightarrow>
     (\<forall>c d k. undone_by c d \<longrightarrow>
        nh_entries H (fst (nh_run H c k)) \<subseteq># (if snd (nh_run H c k) = None then add_mset d (nh_entries H k) else nh_entries H k)
        \<and> nh_entries H (fst (nh_run H d k)) \<subseteq># (if snd (nh_run H d k) = None then nh_entries H k - {#d#} else nh_entries H k))
   \<and> (\<forall>bin table chain r k. bin = ''iptables'' \<or> bin = ''ip6tables'' \<longrightarrow> nh_entries H (fst (nh_run H (ruleCmd bin table ''-C'' chain r) k)) \<subseteq># nh_entries H k)
   \<and> (\<forall>name k. nh_entries H (fst (nh_sysctl H name k)) \<subseteq># nh_entries H k)"

text \<open>All that the host has and did not have at first can be undone.\<close>

definition covered :: "('k, 'x) net_host_scheme \<Rightarrow> command multiset \<Rightarrow> 'k setup_state \<Rightarrow> bool" where
  "covered H E s \<longleftrightarrow> nh_entries H (fst s) \<subseteq># E + mset (snd s) \<and> (\<forall>d\<in>set (snd s). \<exists>c. undone_by c d)"

definition keeps :: "('k, 'x) net_host_scheme \<Rightarrow> command multiset \<Rightarrow> 'k net_step \<Rightarrow> bool" where
  "keeps H E f \<longleftrightarrow> (\<forall>s. covered H E s \<longrightarrow> covered H E (fst (f s)))"

named_theorems keeps_intros \<open>steps after which everything new can be undone\<close>

lemma keepsD: "keeps H E f \<Longrightarrow> covered H E s \<Longrightarrow> covered H E (fst (f s))"
  unfolding keeps_def by blast

lemma keeps_skip [keeps_intros]: "keeps H E skip" "keeps H E (failWith e)"
  by (simp_all add: keeps_def skip_def failWith_def)

lemma keeps_andThen [keeps_intros]: "keeps H E f \<Longrightarrow> keeps H E g \<Longrightarrow> keeps H E (andThen f g)"
  unfolding keeps_def andThen_def by (force split: prod.splits option.splits)

lemma keeps_foreach [keeps_intros]: "(\<And>x. x \<in> set xs \<Longrightarrow> keeps H E (f x)) \<Longrightarrow> keeps H E (foreach f xs)"
proof (induction xs)
  case Nil
  then show ?case by (simp add: keeps_def)
next
  case (Cons x xs)
  then have "keeps H E (andThen (f x) (foreach f xs))" by (intro keeps_andThen) auto
  then show ?case by (simp add: keeps_def)
qed

lemma keeps_if [keeps_intros]: "(b \<Longrightarrow> keeps H E f) \<Longrightarrow> (\<not> b \<Longrightarrow> keeps H E g) \<Longrightarrow> keeps H E (if b then f else g)"
  by simp

lemma host_laws_run:
  assumes "host_laws H" "undone_by c d"
  shows "nh_entries H (fst (nh_run H c k)) \<subseteq># (if snd (nh_run H c k) = None then add_mset d (nh_entries H k) else nh_entries H k)"
    and "nh_entries H (fst (nh_run H d k)) \<subseteq># (if snd (nh_run H d k) = None then nh_entries H k - {#d#} else nh_entries H k)"
  using assms(1) [unfolded host_laws_def, THEN conjunct1, rule_format, OF assms(2), of k] by auto

lemma host_laws_check:
  assumes "host_laws H" "bin = ''iptables'' \<or> bin = ''ip6tables''"
  shows "nh_entries H (fst (nh_run H (ruleCmd bin table ''-C'' chain r) k)) \<subseteq># nh_entries H k"
  by (rule assms(1) [unfolded host_laws_def, THEN conjunct2, THEN conjunct1, rule_format, OF assms(2)])

lemma host_laws_sysctl: "host_laws H \<Longrightarrow> nh_entries H (fst (nh_sysctl H name k)) \<subseteq># nh_entries H k"
  by (simp add: host_laws_def)

lemma covered_less: "covered H E s \<Longrightarrow> nh_entries H k \<subseteq># nh_entries H (fst s) \<Longrightarrow> covered H E (k, snd s)"
  unfolding covered_def by (auto intro: subset_mset.order_trans)

lemma keeps_runCmd [keeps_intros]:
  assumes "host_laws H" "undone_by c d"
  shows "keeps H E (runCmd H c [d])"
  unfolding keeps_def
proof (intro allI impI)
  fix s assume s: "covered H E s"
  obtain k err where k: "nh_run H c (fst s) = (k, err)" by force
  show "covered H E (fst (runCmd H c [d] s))"
  proof (cases err)
    case None
    then have "nh_entries H k \<subseteq># add_mset d (nh_entries H (fst s))"
      using host_laws_run(1) [OF assms, of "fst s"] k by simp
    also have "\<dots> \<subseteq># add_mset d (E + mset (snd s))" using s by (simp add: covered_def)
    finally show ?thesis using s assms(2) None k by (auto simp: covered_def runCmd_def)
  next
    case (Some e)
    then show ?thesis using covered_less [OF s, of k] host_laws_run(1) [OF assms, of "fst s"] k by (simp add: runCmd_def)
  qed
qed

lemma host_laws_delete:
  "host_laws H \<Longrightarrow> undone_by c d \<Longrightarrow> nh_entries H (fst (nh_run H d k)) \<subseteq># nh_entries H k"
  using host_laws_run(2) [of H c d k] by (auto split: if_split_asm intro: subset_mset.order_trans [OF _ diff_subset_eq_self])

lemma keeps_delete [keeps_intros]:
  assumes "host_laws H" "undone_by c d"
  shows "keeps H E (runIgnoring H d)"
  using covered_less host_laws_delete [OF assms] unfolding keeps_def runIgnoring_def by fastforce

lemma keeps_sysctl [keeps_intros]:
  assumes "host_laws H"
  shows "keeps H E (ensureSysctl H name)"
  unfolding keeps_def
proof (intro allI impI)
  fix s assume s: "covered H E s"
  have "nh_entries H (fst (nh_sysctl H name (fst s))) \<subseteq># nh_entries H (fst s)"
    by (rule host_laws_sysctl [OF assms])
  then show "covered H E (fst (ensureSysctl H name s))" using covered_less [OF s]
    by (cases "nh_sysctl H name (fst s)") (simp add: ensureSysctl_def)
qed

lemma covered_undo: "covered H E (k, u) \<Longrightarrow> undone_by c d \<Longrightarrow> covered H E (k, u @ [d])"
  unfolding covered_def using subset_mset.order_trans [OF _ mset_subset_eq_add_left [of "E + mset u" "{#d#}"]]
  by auto

lemma keeps_addRule [keeps_intros]:
  assumes "host_laws H" "op = ''-I'' \<or> op = ''-A''" "bin = ''iptables'' \<or> bin = ''ip6tables''"
  shows "keeps H E (addRule H bin table chain op r)"
  unfolding keeps_def
proof (intro allI impI)
  fix s assume s: "covered H E s"
  let ?check = "ruleCmd bin table ''-C'' chain r" and ?d = "ruleCmd bin table ''-D'' chain r"
  have u: "undone_by (ruleCmd bin table op chain r) ?d" using assms(2,3) by (rule undone_by.rule)
  obtain k1 err where k: "nh_run H ?check (fst s) = (k1, err)" by (cases "nh_run H ?check (fst s)")
  have "nh_entries H (fst (nh_run H ?check (fst s))) \<subseteq># nh_entries H (fst s)"
    by (rule host_laws_check [OF assms(1,3)])
  then have c: "covered H E (k1, snd s)" using covered_less [OF s] unfolding k by simp
  show "covered H E (fst (addRule H bin table chain op r s))"
  proof (cases err)
    case None
    then show ?thesis using covered_undo [OF c u] by (simp add: addRule_def k)
  next
    case (Some e)
    then show ?thesis using keepsD [OF keeps_runCmd [OF assms(1) u] c] by (simp add: addRule_def k)
  qed
qed

lemma ipFamilyArgs_cases: "ipFamilyArgs p = [] \<or> ipFamilyArgs p = [''-6'']"
  by (simp add: ipFamilyArgs_def)

lemma keeps_destStep [keeps_intros]: "host_laws H \<Longrightarrow> keeps H E (destStep H dev table raw)"
  unfolding destStep_def Let_def by (rule keeps_runCmd [OF _ undone_by.route [OF ipFamilyArgs_cases]])

lemma keeps_fromStep [keeps_intros]:
  assumes "host_laws H"
  shows "keeps H E (fromStep H table priority p)"
proof -
  let ?f = "ipFamilyArgs (fst p)"
  let ?r = "[''from'', fst p, ''lookup'', table] @ (if 0 < priority then [''priority'', itoa priority] else [])"
  have "(''ip'' # ?f @ ''rule'' # ''add'' # ?r)[length ?f + 2 := ''del''] = ''ip'' # ?f @ ''rule'' # ''del'' # ?r"
    by (simp add: list_update_append)
  then show ?thesis unfolding fromStep_def Let_def
    using keeps_runCmd [OF assms undone_by.route [OF ipFamilyArgs_cases], of E "fst p" "''throw'' # [fst p, ''table'', table]"]
      keeps_runCmd [OF assms undone_by.policy [OF ipFamilyArgs_cases], of E "fst p" ?r] keeps_delete [OF assms undone_by.policy [OF ipFamilyArgs_cases], of E "fst p" ?r]
    by (auto intro!: keeps_andThen)
qed

lemma keeps_policyRoute [keeps_intros]: "host_laws H \<Longrightarrow> keeps H E (applyPolicyRoute H iface r)"
  unfolding applyPolicyRoute_def Let_def
  by (auto split: sum.split intro!: keeps_intros)

lemma keeps_masquerade [keeps_intros]:
  assumes "host_laws H"
  shows "keeps H E (applyMasquerade H m)"
  unfolding keeps_def
proof (intro allI impI)
  fix s assume s: "covered H E s"
  have a: "covered H E (fst (appendRule H (if six then ''ip6tables'' else ''iptables'') table chain r s))" for six table chain r
    by (rule keepsD [OF keeps_addRule [OF assms] s]) simp_all
  let ?out = "\<lambda>six. if trimSpace (mq_out m) = ''auto'' then nh_default H six (fst s) else Inr (trimSpace (mq_out m))"
  show "covered H E (fst (applyMasquerade H m s))"
  proof (cases "nh_prefix H (trimSpace (mq_source m))")
    case None
    then show ?thesis using s by (simp add: applyMasquerade_def failWith_def)
  next
    case (Some p)
    obtain t six where p: "p = (t, six)" by (cases p)
    show ?thesis
      using a s by (cases "?out six") (simp_all add: applyMasquerade_def failWith_def Some p del: append_Cons)
  qed
qed

lemma iptablesBinaries_names: "bin \<in> set (iptablesBinaries v4 v6) \<Longrightarrow> bin = ''iptables'' \<or> bin = ''ip6tables''"
  by (auto simp: iptablesBinaries_def split: if_splits)

lemma keeps_forward [keeps_intros]: "host_laws H \<Longrightarrow> keeps H E (applyForward H iface v4 v6)"
  unfolding applyForward_def using iptablesBinaries_names by (auto intro!: keeps_intros)

lemma keeps_clamp [keeps_intros]: "host_laws H \<Longrightarrow> keeps H E (applyClamp H iface v4 v6)"
  unfolding applyClamp_def using iptablesBinaries_names by (auto intro!: keeps_intros)

lemma keeps_applyAll: "host_laws H \<Longrightarrow> keeps H E (applyAll H iface cfg v4 v6)"
  unfolding applyAll_def by (auto intro!: keeps_intros)

lemma undoAll_removes:
  assumes "host_laws H"
  shows "nh_entries H k \<subseteq># E + mset cs \<Longrightarrow> \<forall>d\<in>set cs. \<exists>c. undone_by c d \<Longrightarrow>
    nh_entries H (undoAll H cs k) \<subseteq># E + mset (undoFailed H cs k)"
proof (induction cs arbitrary: k E)
  case (Cons d cs)
  then obtain c where "undone_by c d" by auto
  note run = host_laws_run(2) [OF assms this, of k]
  obtain k' err where k': "nh_run H d k = (k', err)" by force
  show ?case
  proof (cases err)
    case None
    then have "nh_entries H k' \<subseteq># E + mset cs"
      using run k' Cons.prems(1) by (auto simp: subset_eq_diff_conv intro: subset_mset.order_trans)
    then show ?thesis using Cons.IH [of k' E] Cons.prems(2) None k' by simp
  next
    case (Some e)
    then have "nh_entries H k' \<subseteq># add_mset d E + mset cs"
      using run k' subset_mset.order_trans [OF _ Cons.prems(1)] by simp
    then show ?thesis using Cons.IH [of k' "add_mset d E"] Cons.prems(2) Some k' by simp
  qed
qed simp

lemma teardown_restores:
  assumes "host_laws H" "covered H E s"
  shows "nh_entries H (fst (teardown H s)) \<subseteq># E + mset (teardownLog H s)"
  using undoAll_removes [OF assms(1), of "fst s" E "rev (snd s)"] assms(2)
  by (simp add: covered_def teardown_def teardownLog_def)

section \<open>Properties\<close>

text \<open>C16. A network setup leaves behind only what cannot be deleted. Whatever command fails and wherever it
  fails, \<open>apply\<close> ends with nothing left to undo, and every rule and route the host has then was there
  before or is one whose own delete command failed (such a failure is only logged); after a success
  the same holds of \<open>teardown\<close>. So when no delete command fails, the host never ends up with an
  entry, or a second copy of one, that it did not have before.\<close>

theorem net_setup_leaves_nothing:
  assumes "host_laws H" "applySetup H iface cfg addresses (k, []) = (s', err)"
  shows "(err = None \<or> snd s' = [] \<and> nh_entries H (fst s') \<subseteq># nh_entries H k + mset (applyLog H iface cfg addresses (k, [])))
    \<and> nh_entries H (fst (teardown H s'))
        \<subseteq># nh_entries H k + mset (applyLog H iface cfg addresses (k, [])) + mset (teardownLog H s')"
proof -
  have start: "covered H (nh_entries H k) (k, [])" by (simp add: covered_def)
  obtain v4 v6 where f: "families cfg addresses = (v4, v6)" by (cases "families cfg addresses")
  obtain s1 err1 where a: "applyAll H iface cfg v4 v6 (k, []) = (s1, err1)" by (cases "applyAll H iface cfg v4 v6 (k, [])")
  then have c: "covered H (nh_entries H k) s1" using keepsD [OF keeps_applyAll [OF assms(1)] start, of iface cfg v4 v6] by simp
  note e = teardown_restores [OF assms(1)]
  consider "s' = (k, [])" "applyLog H iface cfg addresses (k, []) = []"
    | "s' = s1" "err = None" "applyLog H iface cfg addresses (k, []) = []"
    | "s' = teardown H s1" "err = err1" "applyLog H iface cfg addresses (k, []) = teardownLog H s1"
    using assms(2) a f by (auto simp: applySetup_def applyLog_def split: if_splits option.splits)
  then show ?thesis
  proof cases
    case 1
    then show ?thesis using e [OF start] by simp
  next
    case 2
    then show ?thesis using e [OF c] by simp
  next
    case 3
    have "teardown H (teardown H s1) = teardown H s1" "teardownLog H (teardown H s1) = []"
      by (simp_all add: teardown_def teardownLog_def)
    then show ?thesis using 3 e [OF c] by (simp add: teardown_def)
  qed
qed

text \<open>A host for the examples, which refuses the commands \<open>bad\<close>; its state is the list of its entries, which
  may hold a rule of \<open>iptables\<close> more than once.\<close>

definition addedEntry :: "command \<Rightarrow> command option" where
  "addedEntry c =
     (if hd c = ''ip'' then
        (let i = (if c ! 1 = ''-6'' then 2 else 1) in
         if c ! i = ''route'' \<and> c ! (i + 1) = ''replace'' \<or> c ! i = ''rule'' \<and> c ! (i + 1) = ''add''
         then Some (c[i + 1 := ''del'']) else None)
      else if c ! 3 = ''-I'' \<or> c ! 3 = ''-A'' then Some (c[3 := ''-D'']) else None)"

definition demoHost :: "command list \<Rightarrow> command list net_host" where
  "demoHost bad = \<lparr>
     nh_linux = True,
     nh_run = (\<lambda>c k. if c \<in> set bad then (k, Some ''refused'')
       else (case addedEntry c of Some d \<Rightarrow> (if hd c = ''ip'' then List.insert d k else d # k, None)
         | None \<Rightarrow> if hd c \<noteq> ''ip'' \<and> c ! 3 = ''-C'' then (k, if c[3 := ''-D''] \<in> set k then None else Some ''no such rule'')
           else if c \<in> set k then (remove1 c k, None) else (k, Some ''no such entry''))),
     nh_sysctl = (\<lambda>name k. (k, None)),
     nh_prefix = (\<lambda>raw. if raw = [] then None else Some (raw, CHR '':'' \<in> set raw)),
     nh_default = (\<lambda>six k. Inr ''eth0''),
     nh_entries = mset\<rparr>"

lemma addedEntry_add: "undone_by c d \<Longrightarrow> addedEntry c = Some d \<and> addedEntry d = None \<and> (hd d = ''ip'' \<or> d ! 3 = ''-D'')"
proof (induction rule: undone_by.induct)
  case (rule op bin table chain r)
  then show ?case by (elim disjE) (simp_all add: addedEntry_def ruleCmd_def eval_nat_numeral)
next
  case (route family r)
  then show ?case by (elim disjE) (simp_all add: addedEntry_def eval_nat_numeral)
next
  case (policy family r)
  then show ?case by (elim disjE) (simp_all add: addedEntry_def eval_nat_numeral)
qed

lemma demoHost_laws: "host_laws (demoHost bad)"
proof -
  have run: "mset (fst (nh_run (demoHost bad) c k)) \<subseteq># (if snd (nh_run (demoHost bad) c k) = None then add_mset d (mset k) else mset k)
    \<and> mset (fst (nh_run (demoHost bad) d k)) \<subseteq># (if snd (nh_run (demoHost bad) d k) = None then mset k - {#d#} else mset k)"
    if u: "undone_by c d" for c d k
  proof -
    have c: "addedEntry c = Some d" and d: "addedEntry d = None" "\<not> (hd d \<noteq> ''ip'' \<and> d ! 3 = ''-C'')"
      using addedEntry_add [OF u] by auto
    have "nh_run (demoHost bad) d k = (if d \<in> set bad then (k, Some ''refused'')
        else if d \<in> set k then (remove1 d k, None) else (k, Some ''no such entry''))"
      using d by (cases "hd d = ''ip''") (simp_all add: demoHost_def)
    moreover have "nh_run (demoHost bad) c k = (if c \<in> set bad then (k, Some ''refused'')
        else (if hd c = ''ip'' then List.insert d k else d # k, None))"
      using c by (simp add: demoHost_def)
    ultimately show ?thesis by (simp add: List.insert_def)
  qed
  have check: "mset (fst (nh_run (demoHost bad) (ruleCmd bin table ''-C'' chain r) k)) \<subseteq># mset k"
    if b: "bin = ''iptables'' \<or> bin = ''ip6tables''" for bin table chain r k
  proof -
    have "hd (ruleCmd bin table ''-C'' chain r) \<noteq> ''ip''" "ruleCmd bin table ''-C'' chain r ! 3 = ''-C''"
      using b by (auto simp: ruleCmd_def eval_nat_numeral)
    moreover from this have "addedEntry (ruleCmd bin table ''-C'' chain r) = None" by (simp add: addedEntry_def)
    ultimately have "fst (nh_run (demoHost bad) (ruleCmd bin table ''-C'' chain r) k) = k" by (simp add: demoHost_def)
    then show ?thesis by simp
  qed
  have e: "nh_entries (demoHost bad) = mset" "nh_sysctl (demoHost bad) = (\<lambda>name k. (k, None))" by (simp_all add: demoHost_def)
  show ?thesis unfolding host_laws_def e using run check by simp
qed

definition demoNet :: net_config where
  "demoNet = \<lparr>nc_forward = True, nc_mss = True,
     nc_policy = [\<lparr>pr_from = [''10.8.0.0/24''], pr_table = 100, pr_priority = 1000, pr_dev = ''wg1'', pr_routes = []\<rparr>],
     nc_masq = [\<lparr>mq_source = ''10.8.0.0/24'', mq_out = ''auto''\<rparr>]\<rparr>"

abbreviation refusedRule :: command where
  "refusedRule \<equiv> [''ip'', ''rule'', ''add'', ''from'', ''10.8.0.0/24'', ''lookup'', ''100'', ''priority'', ''1000'']"

text \<open>In the witness the policy rule is refused, and so is the deletion of the route set before it: that
  route is all that stays, and it is in the log.\<close>

abbreviation stuckRoute :: command where
  "stuckRoute \<equiv> [''ip'', ''route'', ''del'', ''throw'', ''10.8.0.0/24'', ''table'', ''100'']"

theorem net_setup_leaves_nothing_witness:
  "snd (applySetup (demoHost [refusedRule, stuckRoute]) ''wg0'' demoNet [] ([], [])) = Some (CommandFailed refusedRule ''refused'')
   \<and> nh_entries (demoHost [refusedRule, stuckRoute]) (fst (fst (applySetup (demoHost [refusedRule, stuckRoute]) ''wg0'' demoNet [] ([], []))))
       \<subseteq># {#stuckRoute#}"
proof -
  have r: "snd (applySetup (demoHost [refusedRule, stuckRoute]) ''wg0'' demoNet [] ([], [])) = Some (CommandFailed refusedRule ''refused'')"
    "applyLog (demoHost [refusedRule, stuckRoute]) ''wg0'' demoNet [] ([], []) = [stuckRoute]"
    by code_simp+
  obtain s' err where a: "applySetup (demoHost [refusedRule, stuckRoute]) ''wg0'' demoNet [] ([], []) = (s', err)" by (rule prod.exhaust)
  from net_setup_leaves_nothing [OF demoHost_laws a] show ?thesis using r unfolding a by (simp add: demoHost_def)
qed

text \<open>Undoing takes along what was there before. A rule that the host already had is not added, but it is recorded for
  undoing like an added one: when a later step fails, \<open>apply\<close> removes a rule that somebody else had put there.\<close>

theorem net_setup_takes_foreign_rule:
  "applySetup (demoHost []) ''wg0'' \<lparr>nc_forward = True, nc_mss = False, nc_policy = [\<lparr>pr_from = [], pr_table = 100, pr_priority = 0, pr_dev = '''', pr_routes = []\<rparr>], nc_masq = []\<rparr> []
     ([ruleCmd ''iptables'' ''filter'' ''-D'' ''FORWARD'' [''-i'', ''wg0'', ''-j'', ''ACCEPT'']], [])
   = (([], []), Some NoFrom)"
  by code_simp

end
