(* ===== verification/ConfigText.thy ===== *)
theory ConfigText
  imports NetSetup
begin

text \<open>
  Reading a JSON configuration: \<open>stripJSONComments\<close> of \<open>main.go\<close>. Text is a list of characters; \<open>bufio.Scanner\<close>
  gives its lines without the line ends and stops with an error at a line of 64 KiB or more.
\<close>

section \<open>Stripping comments\<close>

definition newline :: char where
  "newline = CHR ''\<newline>''"

definition carriageReturn :: char where
  "carriageReturn = CHR 0x0D"

abbreviation quote :: char where
  "quote \<equiv> CHR 0x22"

abbreviation backslash :: char where
  "backslash \<equiv> CHR 0x5C"

text \<open>The lines of \<open>bufio.ScanLines\<close>: an empty last one is not a line, and a carriage return at the end goes too.\<close>

definition scanLines :: "string \<Rightarrow> string list" where
  "scanLines s = (let ls = splitLines s in if last ls = [] then butlast ls else ls)"

definition dropCR :: "string \<Rightarrow> string" where
  "dropCR l = (if l \<noteq> [] \<and> last l = carriageReturn then butlast l else l)"

definition maxScanToken :: nat where
  "maxScanToken = 65536"

text \<open>What follows the first end of a block comment in a line.\<close>

fun afterClose :: "string \<Rightarrow> string option" where
  "afterClose (a # b # s) = (if a = CHR ''*'' \<and> b = CHR ''/'' then Some s else afterClose (b # s))"
| "afterClose _ = None"

text \<open>The loop over the characters of a line: what it keeps, and whether a block comment was opened.\<close>

fun cleanLine :: "string \<Rightarrow> bool \<Rightarrow> bool \<Rightarrow> string \<times> bool" where
  "cleanLine [] inString escaped = ([], False)"
| "cleanLine (c # cs) inString escaped =
     (if escaped then (case cleanLine cs inString False of (out, multi) \<Rightarrow> (c # out, multi))
      else if c = backslash \<and> inString then (case cleanLine cs inString True of (out, multi) \<Rightarrow> (c # out, multi))
      else if c = quote then (case cleanLine cs (\<not> inString) False of (out, multi) \<Rightarrow> (c # out, multi))
      else if \<not> inString \<and> c = CHR ''/'' \<and> take 1 cs = ''/'' then ([], False)
      else if \<not> inString \<and> c = CHR ''/'' \<and> take 1 cs = ''*'' then (fst (cleanLine (drop 1 cs) inString False), True)
      else (case cleanLine cs inString False of (out, multi) \<Rightarrow> (c # out, multi)))"

fun stripLines :: "bool \<Rightarrow> string list \<Rightarrow> string" where
  "stripLines inComment [] = []"
| "stripLines inComment (l # ls) =
     (case (if inComment then afterClose l else Some l) of
        None \<Rightarrow> stripLines True ls
      | Some l' \<Rightarrow> (case cleanLine l' False False of (out, multi) \<Rightarrow>
          (if out \<noteq> [] \<or> \<not> multi then trimSpace out @ [newline] else []) @ stripLines multi ls))"

text \<open>The result and whether the scanner failed.\<close>

definition stripJSONComments :: "string \<Rightarrow> string \<times> bool" where
  "stripJSONComments s =
     (let ls = scanLines s in
      (stripLines False (map dropCR (takeWhile (\<lambda>l. length l < maxScanToken) ls)), \<exists>l\<in>set ls. maxScanToken \<le> length l))"

section \<open>Documents with comments\<close>

text \<open>
  The text of a line is made of string literals, whose elements are plain characters and escapes, and of
  other text. A document is lines of it that may end in a line comment, and block comments that open at the end of a line
  and close on a later one, whose rest continues the document.
\<close>

datatype str_elem = Chr char | Esc char

datatype piece = Literal "str_elem list" | Other string

datatype doc_line =
  Code "piece list" "string option"
| Block "piece list" "string list" string

fun elemText :: "str_elem \<Rightarrow> string" where
  "elemText (Chr c) = [c]"
| "elemText (Esc c) = [backslash, c]"

fun pieceText :: "piece \<Rightarrow> string" where
  "pieceText (Literal es) = quote # concat (map elemText es) @ [quote]"
| "pieceText (Other s) = s"

abbreviation textOf :: "piece list \<Rightarrow> string" where
  "textOf ps \<equiv> concat (map pieceText ps)"

fun docLines :: "string \<Rightarrow> doc_line list \<Rightarrow> string list" where
  "docLines pre [] = (if pre = [] then [] else [pre])"
| "docLines pre (Code ps c # ds) = (pre @ textOf ps @ (case c of None \<Rightarrow> [] | Some t \<Rightarrow> ''//'' @ t)) # docLines [] ds"
| "docLines pre (Block ps inner close # ds) = (pre @ textOf ps @ ''/*'') # inner @ docLines (close @ ''*/'') ds"

text \<open>The document without its comments, each line trimmed.\<close>

fun bareLines :: "bool \<Rightarrow> doc_line list \<Rightarrow> string list" where
  "bareLines closing [] = (if closing then [[]] else [])"
| "bareLines closing (Code ps c # ds) = trimSpace (textOf ps) # bareLines False ds"
| "bareLines closing (Block ps inner close # ds) =
     (if textOf ps = [] then [] else [trimSpace (textOf ps)]) @ bareLines True ds"

fun wfElem :: "str_elem \<Rightarrow> bool" where
  "wfElem (Chr c) \<longleftrightarrow> c \<noteq> quote \<and> c \<noteq> backslash"
| "wfElem (Esc c) \<longleftrightarrow> True"

fun wfPiece :: "piece \<Rightarrow> bool" where
  "wfPiece (Literal es) \<longleftrightarrow> (\<forall>e\<in>set es. wfElem e)"
| "wfPiece (Other s) \<longleftrightarrow> quote \<notin> set s \<and> CHR ''/'' \<notin> set s"

fun wfLine :: "doc_line \<Rightarrow> bool" where
  "wfLine (Code ps c) \<longleftrightarrow> (\<forall>p\<in>set ps. wfPiece p)"
| "wfLine (Block ps inner close) \<longleftrightarrow> (\<forall>p\<in>set ps. wfPiece p) \<and> (\<forall>l\<in>set inner. afterClose l = None) \<and> afterClose close = None"

lemma clean_elems:
  "\<forall>e\<in>set es. wfElem e \<Longrightarrow> cleanLine (concat (map elemText es) @ quote # s) True False
    = (concat (map elemText es) @ quote # fst (cleanLine s False False), snd (cleanLine s False False))"
proof (induction es)
  case Nil
  then show ?case by (simp split: prod.split)
next
  case (Cons e es)
  then show ?case by (cases e) (simp_all split: prod.split)
qed

lemma clean_other:
  "quote \<notin> set t \<Longrightarrow> CHR ''/'' \<notin> set t \<Longrightarrow> cleanLine (t @ s) False False
    = (t @ fst (cleanLine s False False), snd (cleanLine s False False))"
  by (induction t) (auto split: prod.split)

lemma clean_piece:
  "wfPiece p \<Longrightarrow> cleanLine (pieceText p @ s) False False
    = (pieceText p @ fst (cleanLine s False False), snd (cleanLine s False False))"
  by (cases p) (simp_all add: clean_elems clean_other)

lemma clean_text:
  "\<forall>p\<in>set ps. wfPiece p \<Longrightarrow> cleanLine (textOf ps @ s) False False
    = (textOf ps @ fst (cleanLine s False False), snd (cleanLine s False False))"
  by (induction ps) (simp_all add: clean_piece)

lemma clean_comment: "cleanLine (''//'' @ t) False False = ([], False)" "cleanLine ''/*'' False False = ([], True)"
  by simp_all

lemma afterClose_close: "afterClose t = None \<Longrightarrow> afterClose (t @ ''*/'' @ s) = Some s"
proof (induction t rule: afterClose.induct)
  case (1 a b t)
  then show ?case by (auto split: if_splits)
qed simp_all

lemma stripLines_inner: "\<forall>l\<in>set inner. afterClose l = None \<Longrightarrow> stripLines True (inner @ ls) = stripLines True ls"
  by (induction inner) simp_all

abbreviation unlines :: "string list \<Rightarrow> string" where
  "unlines ls \<equiv> concat (map (\<lambda>l. l @ [newline]) ls)"

text \<open>The prefix of a line that ends a block comment, and none otherwise.\<close>

definition starts :: "bool \<Rightarrow> string \<Rightarrow> bool" where
  "starts inComment pre \<longleftrightarrow> (if inComment then \<exists>t. pre = t @ ''*/'' \<and> afterClose t = None else pre = [])"

lemma starts_rest: "starts m pre \<Longrightarrow> (if m then afterClose (pre @ s) else Some (pre @ s)) = Some s"
  using afterClose_close by (auto simp: starts_def)

lemma stripLines_doc:
  "starts m pre \<Longrightarrow> \<forall>d\<in>set ds. wfLine d \<Longrightarrow> stripLines m (docLines pre ds) = unlines (bareLines m ds)"
proof (induction ds arbitrary: m pre)
  case Nil
  then show ?case using starts_rest [of m pre "[]"] by (auto simp: starts_def trimSpace_def)
next
  case (Cons d ds)
  show ?case
  proof (cases d)
    case (Code ps c)
    let ?comment = "case c of None \<Rightarrow> [] | Some t \<Rightarrow> ''//'' @ t"
    have "cleanLine ?comment False False = ([], False)" by (cases c) (simp_all only: option.case clean_comment cleanLine.simps(1))
    then have "cleanLine (textOf ps @ ?comment) False False = (textOf ps, False)"
      using clean_text [of ps ?comment] Cons(3) Code by simp
    moreover have "stripLines False (docLines [] ds) = unlines (bareLines False ds)" using Cons by (simp add: starts_def)
    ultimately show ?thesis using starts_rest [OF Cons(2), of "textOf ps @ ?comment"] by (simp add: Code)
  next
    case (Block ps inner close)
    have "cleanLine (textOf ps @ ''/*'') False False = (textOf ps, True)"
      using clean_text [of ps "''/*''"] Cons(3) Block by (simp add: clean_comment(2))
    moreover have "stripLines True (docLines (close @ ''*/'') ds) = unlines (bareLines True ds)"
      using Cons(3) Block by (intro Cons(1)) (auto simp: starts_def)
    ultimately show ?thesis using starts_rest [OF Cons(2), of "textOf ps @ ''/*''"] Cons(3)
      by (simp add: Block stripLines_inner)
  qed
qed

lemma splitLines_unlines:
  assumes "\<forall>l\<in>set ls. newline \<notin> set l"
  shows "splitLines (unlines ls) = ls @ [[]]"
proof -
  have one: "newline \<notin> set l \<Longrightarrow> splitLines (l @ newline # s) = l # splitLines s" for l s
    by (induction l) (auto simp: newline_def)
  show ?thesis using assms one by (induction ls) (simp_all add: one)
qed

section \<open>Properties\<close>

text \<open>C27. Stripping comments keeps a document whose block comments each open at the end of a line and close on a
  later one (line comments may end any line): the result is the document without its comments, every string literal
  survives with its escapes, also one that holds comment marks or quotes, and so does everything else up to blanks at the
  ends of lines. For a block comment within a line this is false (\<open>inline_block_comment_kept\<close>).\<close>

theorem strip_comments_keeps_document:
  assumes "\<forall>d\<in>set ds. wfLine d"
    and "\<forall>l\<in>set (docLines [] ds). newline \<notin> set l \<and> carriageReturn \<notin> set l \<and> length l < maxScanToken"
  shows "stripJSONComments (concat (map (\<lambda>l. l @ [newline]) (docLines [] ds)))
    = (concat (map (\<lambda>l. l @ [newline]) (bareLines False ds)), False)"
proof -
  let ?ls = "docLines [] ds"
  have "scanLines (unlines ?ls) = ?ls" using splitLines_unlines [of ?ls] assms(2) by (simp add: scanLines_def)
  moreover have "takeWhile (\<lambda>l. length l < maxScanToken) ?ls = ?ls" using assms(2) by (simp add: takeWhile_eq_all_conv)
  moreover have "map dropCR ?ls = ?ls"
  proof (rule map_idI)
    fix l assume "l \<in> set ?ls"
    then have "carriageReturn \<notin> set l" using assms(2) by blast
    then show "dropCR l = l" by (metis dropCR_def last_in_set)
  qed
  moreover have "\<not> (\<exists>l\<in>set ?ls. maxScanToken \<le> length l)" using assms(2) by auto
  moreover have "stripLines False ?ls = unlines (bareLines False ds)"
    using stripLines_doc [of False "[]" ds] assms(1) by (simp add: starts_def)
  ultimately show ?thesis unfolding stripJSONComments_def Let_def by (simp only:)
qed

abbreviation demoDoc :: "doc_line list" where
  "demoDoc \<equiv> [Code [Other ''{''] (Some '' open''), Block [Other '' ''] ['' one'', ''two''] ''end'',
     Code [Other '' '', Literal [Chr CHR ''a'', Esc CHR 0x22, Chr CHR ''/'', Chr CHR ''/''], Other '': 1 }''] None]"

theorem strip_comments_keeps_document_witness:
  "snd (stripJSONComments (concat (map (\<lambda>l. l @ [newline]) (docLines [] demoDoc)))) = False
   \<and> length (fst (stripJSONComments (concat (map (\<lambda>l. l @ [newline]) (docLines [] demoDoc))))) = 16"
proof -
  have "\<forall>d\<in>set demoDoc. wfLine d" by code_simp
  moreover have "\<forall>l\<in>set (docLines [] demoDoc). newline \<notin> set l \<and> carriageReturn \<notin> set l \<and> length l < maxScanToken"
    by (simp add: newline_def carriageReturn_def maxScanToken_def)
  ultimately have r: "stripJSONComments (concat (map (\<lambda>l. l @ [newline]) (docLines [] demoDoc)))
      = (concat (map (\<lambda>l. l @ [newline]) (bareLines False demoDoc)), False)"
    by (rule strip_comments_keeps_document)
  have "length (concat (map (\<lambda>l. l @ [newline]) (bareLines False demoDoc))) = 16" by code_simp
  then show ?thesis unfolding r by simp
qed

text \<open>A block comment within a line breaks the configuration. The code notes that a comment was opened but goes on copying the rest of
  the line, and then takes all that follows for comment: the text of the comment stays and the next lines are gone.\<close>

theorem inline_block_comment_kept:
  "stripJSONComments (''{ /* port */ :1'' @ [newline] @ ''lost }'' @ [newline]) = (''{  port */ :1'' @ [newline], False)"
  by (simp add: stripJSONComments_def scanLines_def newline_def maxScanToken_def dropCR_def carriageReturn_def Let_def
    trimSpace_def isSpace_def)

end
