(* ===== verification/PacketQueue.thy ===== *)
theory PacketQueue
  imports Listen
begin

text \<open>
  What the bind of the WireGuard component and the pipe of the OpenVPN component share: a bounded queue of packets
  between the router, which hands a packet over and goes on, and a library, which takes it later. Every place in the
  queue has a counted reference of its own. The locale \<open>packet_bind\<close> is the contract of one step of such a
  queue, and what follows from it for all sequences of steps.
\<close>

section \<open>Clearing a table\<close>

lemma map_of_filter_snd:
  "distinct (map fst xs) \<Longrightarrow> map_of (filter (\<lambda>e. P (snd e)) xs) k = (case map_of xs k of Some v \<Rightarrow> if P v then Some v else None | None \<Rightarrow> None)"
proof (induction xs)
  case (Cons x xs)
  have "fst x \<notin> set (map fst xs)" using Cons(2) by simp
  then have "map_of xs (fst x) = None" by (simp add: map_of_eq_None_iff)
  then show ?case using Cons by (cases x) (auto split: option.split)
qed simp

section \<open>References of a queue\<close>

text \<open>The references of the callers and of the queue.\<close>

definition owners :: "(nat \<Rightarrow> nat) \<Rightarrow> nat list \<Rightarrow> nat \<Rightarrow> nat" where
  "owners X as a = X a + count_list as a"

text \<open>The queue fits, and no count can reach the limit of its 32 bits.\<close>

definition queue_ok :: "(nat \<Rightarrow> nat) \<Rightarrow> nat \<Rightarrow> nat list \<Rightarrow> world \<Rightarrow> bool" where
  "queue_ok X cap as w \<longleftrightarrow> refs_inv (owners X as) w \<and> length as \<le> cap \<and> (\<forall>a. X a + heldCount w a + cap + 1 < 2 ^ 31)"

lemma held_refRelease: "refRelease a w = Some w' \<Longrightarrow> heldCount w' b = heldCount w b"
  by (auto simp: refRelease_def heldCount_def option_bind_eq_Some split: if_splits)

lemma held_refAdd: "heldCount (refAdd a w) b = heldCount w b"
  by (simp add: refAdd_def)

lemma owners_eq: "owners X as = (\<lambda>a. X a + count_list as a)"
  by (simp add: owners_def fun_eq_iff)

lemma owners_take: "0 < X a \<Longrightarrow> owners (X(a := X a - 1)) as = (owners X as)(a := owners X as a - 1)"
  by (auto simp: owners_def fun_eq_iff)

lemma owners_Cons: "owners X as = (owners X (a # as))(a := owners X (a # as) a - 1)"
  by (auto simp: owners_def fun_eq_iff)

lemma owners_snoc: "owners X (as @ [a]) = (owners X as)(a := owners X as a + 1)"
  by (auto simp: owners_def fun_eq_iff count_list_append)

text \<open>A caller gives its reference back.\<close>

lemma queue_release_caller:
  assumes "queue_ok X cap as w" "0 < X a"
  shows "\<exists>w'. refRelease a w = Some w' \<and> queue_ok (X(a := X a - 1)) cap as w'"
proof -
  have "refs_inv (owners X as) w" "0 < owners X as a" using assms by (simp_all add: queue_ok_def owners_def)
  from refRelease_ok [OF this] obtain w' where w': "refRelease a w = Some w'" "refs_inv (owners (X(a := X a - 1)) as) w'"
    using owners_take assms(2) by metis
  moreover have "(X(a := X a - 1)) b + heldCount w' b + cap + 1 < 2 ^ 31" for b
  proof -
    have "(X(a := X a - 1)) b \<le> X b" by simp
    moreover have "X b + heldCount w b + cap + 1 < 2 ^ 31" using assms(1) by (simp add: queue_ok_def)
    ultimately show ?thesis using held_refRelease [OF w'(1), of b] by linarith
  qed
  ultimately show ?thesis using assms(1) unfolding queue_ok_def by blast
qed

text \<open>Whoever has a reference can read the packet.\<close>

lemma queue_data:
  assumes "queue_ok X cap as w" "0 < X a"
  shows "\<exists>d. getData (pkAt w a) = Some d"
proof -
  have "pk_wf (w_config w) (pkAt w a)"
    using assms live(3) [of "owners X as" w a] by (auto simp: queue_ok_def packet_ok_def owners_def refs_def)
  then show ?thesis using getData_wf by blast
qed

text \<open>A caller adds a reference for the queue, which takes the packet, or gives it back when the queue is full.\<close>

lemma queue_offer:
  assumes "queue_ok X cap as w" "0 < X a"
  shows "if length as < cap then queue_ok X cap (as @ [a]) (refAdd a w)
    else \<exists>w'. refRelease a (refAdd a w) = Some w' \<and> queue_ok X cap as w'"
proof -
  have r: "refs_inv (owners X as) w" "0 < owners X as a" using assms by (simp_all add: queue_ok_def owners_def)
  have b: "X a + heldCount w a + cap + 1 < 2 ^ 31" "length as \<le> cap" using assms(1) by (simp_all add: queue_ok_def)
  have "refs (owners X as) w a + 1 < 2 ^ 31" using b count_le_length [of as a] by (simp add: refs_heldCount owners_def)
  from refAdd_ok [OF r this] have i: "refs_inv (owners X (as @ [a])) (refAdd a w)" unfolding owners_snoc by blast
  let ?R = "owners X (as @ [a])"
  have "?R(a := ?R a - 1) = owners X as" by (auto simp: owners_snoc fun_eq_iff)
  then obtain w' where w': "refRelease a (refAdd a w) = Some w'" "refs_inv (owners X as) w'"
    using refRelease_ok [OF i, of a] by (auto simp: owners_def)
  then show ?thesis using i assms(1) held_refRelease [OF w'(1)] by (auto simp: queue_ok_def held_refAdd)
qed

text \<open>The reader takes the head of the queue, reads it and releases it.\<close>

lemma queue_take:
  assumes "queue_ok X cap (a # as) w"
  shows "\<exists>d w'. getData (pkAt w a) = Some d \<and> sl_data d = pk_bytes (pkAt w a) \<and> refRelease a w = Some w'
    \<and> queue_ok X cap as w' \<and> frame 0 a w w'"
proof -
  have r: "refs_inv (owners X (a # as)) w" and o: "0 < owners X (a # as) a" using assms by (simp_all add: queue_ok_def owners_def)
  have "pk_wf (w_config w) (pkAt w a)" using live [of _ w a, OF r o] by (auto simp: packet_ok_def)
  then obtain d where d: "getData (pkAt w a) = Some d" using getData_wf by blast
  obtain w' where w': "refRelease a w = Some w'" "refs_inv (owners X as) w'" "frame 0 a w w'"
    using refRelease_ok [OF r o] owners_Cons by metis
  have "queue_ok X cap as w'" using assms w'(2) held_refRelease [OF w'(1)] by (simp add: queue_ok_def)
  then show ?thesis using d w' sl_data_getData by blast
qed

lemma queue_live: "queue_ok X cap as w \<Longrightarrow> a \<in> set as \<Longrightarrow> a < length (w_heap w)"
  using live(1) [of "owners X as" w a] count_list_0_iff [of as a] by (auto simp: queue_ok_def owners_def)

text \<open>Closing releases what is left.\<close>

lemma queue_drain: "queue_ok X cap as w \<Longrightarrow> \<exists>w'. releaseAll as w = Some w' \<and> queue_ok X cap [] w'"
proof (induction as arbitrary: w)
  case (Cons a as)
  obtain w1 where "refRelease a w = Some w1" "queue_ok X cap as w1" using queue_take [OF Cons(2)] by blast
  then show ?case using Cons(1) by fastforce
qed simp

section \<open>The contract\<close>

fun runSteps :: "('e \<Rightarrow> 's \<Rightarrow> 's option) \<Rightarrow> 'e list \<Rightarrow> 's \<Rightarrow> 's option" where
  "runSteps step [] s = Some s"
| "runSteps step (ev # evs) s = do { s' \<leftarrow> step ev s; runSteps step evs s' }"

text \<open>
  A component with a queue: its steps, the queue and its bound in its state, the packets an event hands over with one
  reference each, the events the library may cause, and what
  the component keeps of its own state.
\<close>

locale packet_bind =
  fixes step :: "'e \<Rightarrow> 's \<times> world \<Rightarrow> ('s \<times> world) option"
    and queued :: "'s \<Rightarrow> nat list"
    and bound :: "'s \<Rightarrow> nat"
    and handed :: "'e \<Rightarrow> nat list"
    and allowed :: "'e \<Rightarrow> bool"
    and sane :: "'s \<Rightarrow> bool"
  assumes step_keeps: "queue_ok X (bound g) (queued g) w \<Longrightarrow> sane g \<Longrightarrow> allowed ev \<Longrightarrow> \<forall>a. count_list (handed ev) a \<le> X a \<Longrightarrow>
    \<exists>g' w'. step ev (g, w) = Some (g', w') \<and> queue_ok (\<lambda>a. X a - count_list (handed ev) a) (bound g') (queued g') w' \<and> sane g'"
begin

lemma run_keeps:
  "queue_ok X (bound g) (queued g) w \<Longrightarrow> sane g \<Longrightarrow> list_all allowed evs \<Longrightarrow> \<forall>a. count_list (concat (map handed evs)) a \<le> X a \<Longrightarrow>
    \<exists>g' w'. runSteps step evs (g, w) = Some (g', w')
      \<and> queue_ok (\<lambda>a. X a - count_list (concat (map handed evs)) a) (bound g') (queued g') w' \<and> sane g'"
proof (induction evs arbitrary: X g w)
  case (Cons ev evs)
  let ?X = "\<lambda>a. X a - count_list (handed ev) a"
  have c: "count_list (handed ev) a + count_list (concat (map handed evs)) a \<le> X a" for a
    using Cons(5) by (simp add: count_list_append)
  have "\<forall>a. count_list (handed ev) a \<le> X a" using c add_leD1 by blast
  then obtain g1 w1 where s: "step ev (g, w) = Some (g1, w1)" "queue_ok ?X (bound g1) (queued g1) w1" "sane g1"
    using step_keeps [OF Cons(2,3), of ev] Cons(4) by auto
  have "\<forall>a. count_list (concat (map handed evs)) a \<le> ?X a" using c by (metis add.commute le_diff_conv2 add_leD1)
  then obtain g' w' where "runSteps step evs (g1, w1) = Some (g', w')"
    "queue_ok (\<lambda>a. ?X a - count_list (concat (map handed evs)) a) (bound g') (queued g') w'" "sane g'"
    using Cons(1) [OF s(2,3)] Cons(4) by auto
  then show ?case using s(1) by (auto simp: count_list_append diff_diff_left)
qed simp

text \<open>In particular every packet the callers gave away that is not in the queue is back in the pool.\<close>

lemma run_references:
  assumes "queue_ok X (bound g) (queued g) w" "sane g" "list_all allowed evs" "\<forall>a. count_list (concat (map handed evs)) a \<le> X a"
  shows "\<exists>g' w'. runSteps step evs (g, w) = Some (g', w') \<and> length (queued g') \<le> bound g'
    \<and> refs_inv (\<lambda>a. X a - count_list (concat (map handed evs)) a + count_list (queued g') a) w'"
  using run_keeps [OF assms] by (auto simp: queue_ok_def owners_eq)

end

end
