(* ===== verification/WireGuard.thy ===== *)
theory WireGuard
  imports PacketQueue NetSetup "HOL-Library.AList"
begin

text \<open>
  The WireGuard component, \<open>wireguard.go\<close>, around the WireGuard library: the datagrams that arrive from other components
  wait in a queue, with a counted reference each, until the library receives them; what the library sends is
  wrapped into packets and routed. Copies of handshake messages are dropped. Also the texts the component
  exchanges with the library: keys, the configuration and its state.
\<close>

section \<open>Copies of handshake messages\<close>

definition wireGuardHandshakeDedupWindow :: duration where
  "wireGuardHandshakeDedupWindow = 10 * ns_second"

text \<open>Message types 1 to 3 are handshake messages, 4 is data.\<close>

definition isHandshake :: "bytes \<Rightarrow> bool" where
  "isHandshake msg \<longleftrightarrow> 4 \<le> length msg \<and> 1 \<le> hd msg \<and> hd msg \<le> 3"

text \<open>\<open>hash\<close> is SHA-256. The table is cleared of old entries when it is full; a clock that went back keeps them.\<close>

definition duplicate :: "(bytes \<Rightarrow> 'd) \<Rightarrow> bytes \<Rightarrow> gotime \<Rightarrow> ('d \<times> gotime) list \<Rightarrow> ('d \<times> gotime) list \<times> bool" where
  "duplicate hash msg now seen =
     (if \<not> isHandshake msg then (seen, False)
      else case map_of seen (hash msg) of
          Some t \<Rightarrow> if time_sub now t < wireGuardHandshakeDedupWindow then (seen, True)
            else (AList.update (hash msg) now
              (if 256 \<le> length seen then filter (\<lambda>e. time_sub now (snd e) < wireGuardHandshakeDedupWindow) seen else seen), False)
        | None \<Rightarrow> (AList.update (hash msg) now
              (if 256 \<le> length seen then filter (\<lambda>e. time_sub now (snd e) < wireGuardHandshakeDedupWindow) seen else seen), False))"

text \<open>A stream of messages with their times of arrival, and which of them pass.\<close>

fun passed :: "(bytes \<Rightarrow> 'd) \<Rightarrow> (bytes \<times> gotime) list \<Rightarrow> ('d \<times> gotime) list \<Rightarrow> bool list" where
  "passed hash [] seen = []"
| "passed hash ((msg, now) # ms) seen = (case duplicate hash msg now seen of (seen', dup) \<Rightarrow> (\<not> dup) # passed hash ms seen')"

text \<open>The reference: \<open>before\<close> are the handshake messages that passed, the latest first.\<close>

fun passedSpec :: "(bytes \<times> gotime) list \<Rightarrow> (bytes \<times> gotime) list \<Rightarrow> bool list" where
  "passedSpec [] before = []"
| "passedSpec ((msg, now) # ms) before =
     (let copy = isHandshake msg \<and> (\<exists>(m, t)\<in>set before. m = msg \<and> time_sub now t < wireGuardHandshakeDedupWindow)
      in (\<not> copy) # passedSpec ms (if isHandshake msg \<and> \<not> copy then (msg, now) # before else before))"

text \<open>The table knows the last passing of every message, unless that is longer ago than the window.\<close>

definition seen_ok :: "(bytes \<Rightarrow> 'd) \<Rightarrow> bytes set \<Rightarrow> gotime \<Rightarrow> (bytes \<times> gotime) list \<Rightarrow> ('d \<times> gotime) list \<Rightarrow> bool" where
  "seen_ok hash M now before seen \<longleftrightarrow>
     (\<forall>msg\<in>M. \<forall>t. map_of seen (hash msg) = Some t \<longrightarrow> (msg, t) \<in> set before) \<and> fst ` set before \<subseteq> M
     \<and> (\<forall>(msg, t)\<in>set before. time_sub now t < wireGuardHandshakeDedupWindow \<longrightarrow> map_of seen (hash msg) = Some t)
     \<and> distinct (map fst seen)"

lemma time_sub_later: "now \<le> now' \<Longrightarrow> time_sub now' t < d \<Longrightarrow> time_sub now t < d"
  using time_sub_mono [of now now' t] by linarith

lemma seen_ok_later: "seen_ok hash M now before seen \<Longrightarrow> now \<le> now' \<Longrightarrow> seen_ok hash M now' before seen"
  unfolding seen_ok_def using time_sub_later by fast

lemma seen_ok_cleared:
  assumes "seen_ok hash M now before seen"
  shows "seen_ok hash M now before (filter (\<lambda>e. time_sub now (snd e) < wireGuardHandshakeDedupWindow) seen)"
proof -
  have d: "distinct (map fst seen)" using assms by (simp add: seen_ok_def)
  note f = map_of_filter_snd [OF d, of "\<lambda>t. time_sub now t < wireGuardHandshakeDedupWindow"]
  have known: "(msg, t) \<in> set before" if "msg \<in> M" "map_of seen (hash msg) = Some t" for msg t
    using assms that by (simp add: seen_ok_def)
  have fresh: "map_of seen (hash msg) = Some t" if "(msg, t) \<in> set before" "time_sub now t < wireGuardHandshakeDedupWindow" for msg t
    using assms that by (auto simp: seen_ok_def)
  have "fst ` set before \<subseteq> M" using assms by (simp add: seen_ok_def)
  then show ?thesis unfolding seen_ok_def f
    using d by (auto simp: known fresh distinct_map_filter split: option.splits if_splits)
qed

lemma seen_ok_pass:
  assumes "seen_ok hash M now before seen" "inj_on hash M" "msg \<in> M" "\<forall>(m, t)\<in>set before. m = msg \<longrightarrow> \<not> time_sub now t < wireGuardHandshakeDedupWindow"
  shows "seen_ok hash M now ((msg, now) # before) (AList.update (hash msg) now seen)"
proof -
  have known: "\<forall>m\<in>M. \<forall>t. map_of seen (hash m) = Some t \<longrightarrow> (m, t) \<in> set before"
    and fresh: "\<forall>(m, t)\<in>set before. time_sub now t < wireGuardHandshakeDedupWindow \<longrightarrow> map_of seen (hash m) = Some t"
    and M: "fst ` set before \<subseteq> M" and d: "distinct (map fst seen)"
    using assms(1) unfolding seen_ok_def by blast+
  have m: "map_of (AList.update (hash msg) now seen) (hash m) = (if m = msg then Some now else map_of seen (hash m))" if "m \<in> M" for m
    using assms(2,3) that by (auto simp: AList.update_conv' inj_on_eq_iff)
  have "map_of (AList.update (hash msg) now seen) (hash m) = Some t"
    if "(m, t) \<in> set before" "time_sub now t < wireGuardHandshakeDedupWindow" for m t
  proof -
    have "m \<in> M" using M that(1) by force
    moreover have "m \<noteq> msg" using assms(4) that by blast
    ultimately show ?thesis using fresh that m by auto
  qed
  moreover have "(m, t) \<in> set ((msg, now) # before)" if "m \<in> M" "map_of (AList.update (hash msg) now seen) (hash m) = Some t" for m t
    using known m [OF that(1)] that by (auto split: if_splits)
  ultimately show ?thesis using M d assms(3) m [OF assms(3)] unfolding seen_ok_def by (auto simp: distinct_update)
qed

lemma passed_spec:
  assumes "inj_on hash M"
  shows "sorted (t0 # map snd ms) \<Longrightarrow> fst ` set ms \<subseteq> M \<Longrightarrow> seen_ok hash M t0 before seen \<Longrightarrow> passed hash ms seen = passedSpec ms before"
proof (induction ms arbitrary: t0 before seen)
  case (Cons m ms)
  obtain msg now where m: "m = (msg, now)" by (cases m)
  have s: "sorted (now # map snd ms)" "fst ` set ms \<subseteq> M" "seen_ok hash M now before seen" and M: "msg \<in> M"
    using Cons(2-4) seen_ok_later by (auto simp: m)
  define copy where "copy \<longleftrightarrow> (\<exists>(m, t)\<in>set before. m = msg \<and> time_sub now t < wireGuardHandshakeDedupWindow)"
  have copy: "copy \<longleftrightarrow> (\<exists>t. map_of seen (hash msg) = Some t \<and> time_sub now t < wireGuardHandshakeDedupWindow)"
    using s(3) M unfolding copy_def seen_ok_def by fastforce
  show ?case
  proof (cases "isHandshake msg \<and> \<not> copy")
    case True
    define seen1 where "seen1 = (if 256 \<le> length seen then filter (\<lambda>e. time_sub now (snd e) < wireGuardHandshakeDedupWindow) seen else seen)"
    have d: "duplicate hash msg now seen = (AList.update (hash msg) now seen1, False)"
      using True copy unfolding duplicate_def seen1_def by (auto split: option.split)
    have "seen_ok hash M now before seen1" using s(3) seen_ok_cleared [OF s(3)] by (simp add: seen1_def)
    then have "seen_ok hash M now ((msg, now) # before) (AList.update (hash msg) now seen1)"
      using True assms M by (intro seen_ok_pass) (auto simp: copy_def)
    then show ?thesis using Cons(1) [OF s(1,2)] True d by (simp add: m copy_def)
  next
    case False
    then have "duplicate hash msg now seen = (seen, isHandshake msg)"
      using copy by (auto simp: duplicate_def)
    then show ?thesis using Cons(1) [OF s] False by (auto simp: m copy_def [symmetric] Let_def)
  qed
qed simp

section \<open>Endpoints\<close>

text \<open>
  What the component asks of Go's libraries: SHA-256, the text of an address, the parsers of
  \<open>netip\<close> (an address is its bytes) and the hexadecimal text of a connection id.
\<close>

record wg_libs =
  wl_sha256 :: "bytes \<Rightarrow> bytes"
  wl_addrText :: "addr \<Rightarrow> string"
  wl_parseAddrPort :: "string \<Rightarrow> bytes option"
  wl_parseAddr :: "string \<Rightarrow> bytes option"
  wl_hexID :: "conn_id \<Rightarrow> string"

record wg_endpoint =
  we_raw :: string
  we_connID :: conn_id
  we_routeTags :: "string list"
  we_dstIP :: "bytes option"
  we_srcIP :: "bytes option"
  we_dstBytes :: bytes

definition textBytes :: "string \<Rightarrow> bytes" where
  "textBytes s = map (\<lambda>c. word_of_nat (of_char c)) s"

definition unmapIP :: "bytes \<Rightarrow> bytes" where
  "unmapIP ip = (if length ip = 16 \<and> take 12 ip = v4InV6Prefix then drop 12 ip else ip)"

definition addrFromSlice :: "bytes \<Rightarrow> bytes option" where
  "addrFromSlice ip = (if length ip = 4 \<or> length ip = 16 then Some ip else None)"

text \<open>\<open>AddrPort.MarshalBinary\<close>: the address, then the port, low byte first.\<close>

definition marshalAddrPort :: "bytes \<Rightarrow> int \<Rightarrow> bytes" where
  "marshalAddrPort ip port = ip @ [word_of_int port, word_of_int (port div 256)]"

definition endpointBytesFromAddr :: "addr option \<Rightarrow> bytes" where
  "endpointBytesFromAddr a = (case a of
     Some (UDPAddr ip port zone) \<Rightarrow> (case addrFromSlice ip of Some x \<Rightarrow> marshalAddrPort (unmapIP x) port | None \<Rightarrow> [])
   | Some (TCPAddr ip port zone) \<Rightarrow> (case addrFromSlice ip of Some x \<Rightarrow> marshalAddrPort (unmapIP x) port | None \<Rightarrow> [])
   | _ \<Rightarrow> [])"

definition endpointBytes :: "wg_libs \<Rightarrow> string \<Rightarrow> conn_id \<Rightarrow> bytes" where
  "endpointBytes L raw cid = wl_sha256 L (if cid = 0 then textBytes raw else textBytes raw @ [0] @ put_u64 cid)"

definition parsedEndpointAddr :: "wg_libs \<Rightarrow> string \<Rightarrow> bytes option" where
  "parsedEndpointAddr L raw = (case wl_parseAddrPort L raw of Some ip \<Rightarrow> Some ip | None \<Rightarrow> wl_parseAddr L raw)"

definition addrToIP :: "wg_libs \<Rightarrow> addr option \<Rightarrow> bytes option" where
  "addrToIP L a = (case a of
     None \<Rightarrow> None
   | Some (UDPAddr ip port zone) \<Rightarrow> addrFromSlice ip
   | Some (TCPAddr ip port zone) \<Rightarrow> addrFromSlice ip
   | Some other \<Rightarrow> wl_parseAddrPort L (wl_addrText L other))"

definition endpointIP :: "wg_libs \<Rightarrow> string \<Rightarrow> conn_id \<Rightarrow> bytes" where
  "endpointIP L raw cid = (case parsedEndpointAddr L raw of Some ip \<Rightarrow> ip
     | None \<Rightarrow> 127 # take 3 (wl_sha256 L (endpointBytes L raw cid)))"

definition newWireGuardEndpoint :: "wg_libs \<Rightarrow> string \<Rightarrow> conn_id \<Rightarrow> string \<Rightarrow> addr option \<Rightarrow> wg_endpoint" where
  "newWireGuardEndpoint L raw0 cid srcTag srcAddr =
     (let raw = (if trimSpace raw0 = [] then ''wireguard-peer'' else trimSpace raw0);
          addr = (case addrToIP L srcAddr of Some ip \<Rightarrow> Some ip | None \<Rightarrow> parsedEndpointAddr L raw)
      in \<lparr>we_raw = raw, we_connID = cid, we_routeTags = (if srcTag = [] then [] else [srcTag]),
          we_dstIP = (case addr of Some ip \<Rightarrow> Some ip | None \<Rightarrow> Some (endpointIP L raw cid)), we_srcIP = addr,
          we_dstBytes = (if endpointBytesFromAddr srcAddr = [] then endpointBytes L raw cid else endpointBytesFromAddr srcAddr)\<rparr>)"

definition parseEndpoint :: "wg_libs \<Rightarrow> string \<Rightarrow> wg_endpoint option" where
  "parseEndpoint L s = (if trimSpace s = [] then None else Some (newWireGuardEndpoint L (trimSpace s) 0 [] None))"

section \<open>The queue of the bind\<close>

record wg =
  wg_tag :: string
  wg_native :: bool
  wg_reuse :: bool
  wg_detour :: "string list"
  wg_bound :: bool
  wg_open :: bool
  wg_port :: nat
  wg_cap :: nat
  wg_queue :: "(nat \<times> wg_endpoint) list"
  wg_seen :: "(bytes \<times> gotime) list"

datatype wg_error = NativeMode | NoBind | BindClosed | QueueFull | AlreadyOpen | NoDetour

type_synonym wg_world = "wg \<times> world"

definition endpointFromPacket :: "wg_libs \<Rightarrow> wg \<Rightarrow> packet \<Rightarrow> wg_endpoint" where
  "endpointFromPacket L g p =
     (let text = (case pk_srcAddr p of None \<Rightarrow> [] | Some a \<Rightarrow> wl_addrText L a);
          raw = (if text = [] then ''conn:'' @ wl_hexID L (pk_connID p) else text)
      in newWireGuardEndpoint L raw (pk_connID p) (if wg_reuse g then pk_srcTag p else []) (pk_srcAddr p))"

definition openBind :: "nat \<Rightarrow> wg \<Rightarrow> wg \<times> wg_error option" where
  "openBind port g =
     (if wg_open g then (g, Some AlreadyOpen)
      else (g\<lparr>wg_open := True, wg_port := (if port \<noteq> 0 then port else wg_port g)\<rparr>, None))"

text \<open>\<open>Enqueue\<close> with the check of the close channel: an open bind is not closed while it runs.\<close>

definition enqueueWG :: "nat \<Rightarrow> wg_endpoint \<Rightarrow> wg_world \<Rightarrow> (wg_world \<times> wg_error option) option" where
  "enqueueWG a e gw = (case gw of (g, w) \<Rightarrow>
     (if \<not> wg_open g then Some ((g, w), Some BindClosed)
      else (let w1 = refAdd a w in
        if length (wg_queue g) < wg_cap g then Some ((g\<lparr>wg_queue := wg_queue g @ [(a, e)]\<rparr>, w1), None)
        else do { w2 \<leftarrow> refRelease a w1; Some ((g, w2), Some QueueFull) })))"

definition acceptWG :: "wg_libs \<Rightarrow> gotime \<Rightarrow> nat \<Rightarrow> wg_world \<Rightarrow> (wg_world \<times> wg_error option) option" where
  "acceptWG L now a gw = (case gw of (g, w) \<Rightarrow>
     (if wg_native g then Some ((g, w), Some NativeMode)
      else if \<not> wg_bound g then Some ((g, w), Some NoBind)
      else do {
        d \<leftarrow> getData (pkAt w a);
        let (seen, dup) = duplicate (wl_sha256 L) (sl_data d) now (wg_seen g);
        let g1 = g\<lparr>wg_seen := seen\<rparr>;
        if dup then Some ((g1, w), None) else enqueueWG a (endpointFromPacket L g1 (pkAt w a)) (g1, w)
      }))"

text \<open>\<open>HandlePacket\<close>, with its deferred release.\<close>

definition handlePacketWG :: "wg_libs \<Rightarrow> gotime \<Rightarrow> nat \<Rightarrow> wg_world \<Rightarrow> (wg_world \<times> wg_error option) option" where
  "handlePacketWG L now a gw = do {
     ((g, w), err) \<leftarrow> acceptWG L now a gw;
     w' \<leftarrow> refRelease a w;
     Some ((g, w'), err)
   }"

text \<open>
  The receive function of the library: it waits until something is queued, which is not a step here, and then takes what there
  is, up to the number of buffers it was given; \<open>caps\<close> are their lengths. Without a buffer its index is out of range.
\<close>

fun readQueued :: "nat list \<Rightarrow> (nat \<times> wg_endpoint) list \<Rightarrow> world \<Rightarrow> ((bytes \<times> wg_endpoint) list \<times> (nat \<times> wg_endpoint) list \<times> world) option" where
  "readQueued [] q w = Some ([], q, w)"
| "readQueued (n # caps) [] w = Some ([], [], w)"
| "readQueued (n # caps) ((a, e) # q) w = do {
     d \<leftarrow> getData (pkAt w a);
     w1 \<leftarrow> refRelease a w;
     (rs, q', w') \<leftarrow> readQueued caps q w1;
     Some ((take n (sl_data d), e) # rs, q', w')
   }"

definition receiveWG :: "nat list \<Rightarrow> wg_world \<Rightarrow> (wg_world \<times> (bytes \<times> wg_endpoint) list) option" where
  "receiveWG caps gw = (case gw of (g, w) \<Rightarrow>
     (if caps = [] \<and> wg_queue g \<noteq> [] then None
      else do { (rs, q, w') \<leftarrow> readQueued caps (wg_queue g) w; Some ((g\<lparr>wg_queue := q\<rparr>, w'), rs) }))"

definition closeBind :: "wg_world \<Rightarrow> wg_world option" where
  "closeBind gw = (case gw of (g, w) \<Rightarrow>
     (if \<not> wg_open g then Some (g, w)
      else do { w' \<leftarrow> releaseAll (map fst (wg_queue g)) w; Some (g\<lparr>wg_open := False, wg_queue := []\<rparr>, w') }))"

section \<open>Sending\<close>

text \<open>The packet for a datagram of the library, in a buffer \<open>m\<close> of the pool.\<close>

definition wgPacket :: "router_config \<Rightarrow> bytes \<Rightarrow> string \<Rightarrow> conn_id \<Rightarrow> 64 word \<Rightarrow> bytes \<Rightarrow> packet option" where
  "wgPacket c m tag cid batch d = do {
     (p, n) \<leftarrow> fillPacket (\<lambda>b. do { b' \<leftarrow> sl_copy d b; Some (b', int (length d)) }) (getPacket c m tag);
     Some (p\<lparr>pk_length := n, pk_connID := cid, pk_batchID := batch\<rparr>)
   }"

fun sendBufs :: "routing \<Rightarrow> (nat \<Rightarrow> bytes) \<Rightarrow> string \<Rightarrow> conn_id \<Rightarrow> 64 word \<Rightarrow> string list \<Rightarrow> bytes list \<Rightarrow> world \<Rightarrow> world option" where
  "sendBufs r mem tag cid batch tags [] w = Some w"
| "sendBufs r mem tag cid batch tags (d # ds) w = do {
     p \<leftarrow> wgPacket (w_config w) (mem (length (w_heap w))) tag cid batch d;
     w1 \<leftarrow> r (length (w_heap w)) tags (w\<lparr>w_heap := w_heap w @ [p], w_bufferRef := w_bufferRef w + 1\<rparr>);
     w2 \<leftarrow> refRelease (length (w_heap w)) w1;
     sendBufs r mem tag cid batch tags ds w2
   }"

definition sendWG :: "routing \<Rightarrow> (nat \<Rightarrow> bytes) \<Rightarrow> 64 word \<Rightarrow> bytes list \<Rightarrow> wg_endpoint \<Rightarrow> wg_world \<Rightarrow> (wg_world \<times> wg_error option) option" where
  "sendWG r mem batch ds e gw = (case gw of (g, w) \<Rightarrow>
     (let tags = (if we_routeTags e = [] then wg_detour g else we_routeTags e) in
      if tags = [] then Some ((g, w), Some NoDetour)
      else do { w' \<leftarrow> sendBufs r mem (wg_tag g) (we_connID e) batch tags ds w; Some ((g, w'), None) }))"

section \<open>References\<close>

text \<open>The bind meets the contract of \<open>packet_bind\<close>: each of its operations accounts for the references of the queue.\<close>

abbreviation bind_ok :: "(nat \<Rightarrow> nat) \<Rightarrow> wg \<Rightarrow> world \<Rightarrow> bool" where
  "bind_ok X g w \<equiv> queue_ok X (wg_cap g) (map fst (wg_queue g)) w"

lemma enqueueWG_ok:
  assumes "bind_ok X g w" "0 < X a"
  shows "\<exists>g' w' err. enqueueWG a e (g, w) = Some ((g', w'), err) \<and> bind_ok X g' w'"
  using queue_offer [OF assms] assms(1) by (auto simp: enqueueWG_def Let_def split: if_splits)

lemma handlePacketWG_ok:
  assumes "bind_ok X g w" "0 < X a"
  shows "\<exists>g' w' err. handlePacketWG L now a (g, w) = Some ((g', w'), err) \<and> bind_ok (X(a := X a - 1)) g' w'"
proof -
  have "\<exists>g' w' err. acceptWG L now a (g, w) = Some ((g', w'), err) \<and> bind_ok X g' w'"
  proof (cases "wg_native g \<or> \<not> wg_bound g")
    case True
    then show ?thesis using assms(1) by (auto simp: acceptWG_def)
  next
    case False
    obtain d where d: "getData (pkAt w a) = Some d" using queue_data [OF assms] by blast
    obtain seen dup where s: "duplicate (wl_sha256 L) (sl_data d) now (wg_seen g) = (seen, dup)" by (cases "duplicate (wl_sha256 L) (sl_data d) now (wg_seen g)")
    have g1: "bind_ok X (g\<lparr>wg_seen := seen\<rparr>) w" using assms(1) by simp
    show ?thesis
      using False d s g1 enqueueWG_ok [OF g1 assms(2), of "endpointFromPacket L (g\<lparr>wg_seen := seen\<rparr>) (pkAt w a)"]
      by (cases dup) (auto simp: acceptWG_def)
  qed
  then obtain g1 w1 err where a: "acceptWG L now a (g, w) = Some ((g1, w1), err)" "bind_ok X g1 w1" by blast
  then show ?thesis using queue_release_caller [OF a(2) assms(2)] by (auto simp: handlePacketWG_def)
qed

lemma readQueued_ok:
  "queue_ok X cap (map fst q) w \<Longrightarrow> \<exists>rs q' w'. readQueued caps q w = Some (rs, q', w') \<and> queue_ok X cap (map fst q') w'
    \<and> q' = drop (length caps) q \<and> rs = map (\<lambda>(n, a, e). (take n (pk_bytes (pkAt w a)), e)) (zip caps q)"
proof (induction caps q w rule: readQueued.induct)
  case (3 n caps a e q w)
  have "queue_ok X cap (a # map fst q) w" using 3(2) by simp
  from queue_take [OF this] obtain d w1 where d: "getData (pkAt w a) = Some d" "sl_data d = pk_bytes (pkAt w a)" "refRelease a w = Some w1"
    "queue_ok X cap (map fst q) w1" "frame 0 a w w1" by blast
  obtain rs q' w' where r: "readQueued caps q w1 = Some (rs, q', w')" "queue_ok X cap (map fst q') w'"
    "q' = drop (length caps) q" "rs = map (\<lambda>(n, a, e). (take n (pk_bytes (pkAt w1 a)), e)) (zip caps q)" using 3(1) [OF d(1,3,4)] by blast
  have "pk_bytes (pkAt w1 b) = pk_bytes (pkAt w b)" if "b \<in> fst ` set q" for b
    using d(5) queue_live [OF 3(2), of b] that by (simp add: frame_def payload_def)
  then have "rs = map (\<lambda>(n, a, e). (take n (pk_bytes (pkAt w a)), e)) (zip caps q)"
    unfolding r(4) by (fastforce dest: set_zip_rightD)
  then show ?case using d r by simp
qed simp_all

text \<open>What happens to a bind: packets arrive, the library receives, opens and closes it.\<close>

datatype wg_event = Arrive nat gotime | Receive "nat list" | OpenIt nat | CloseIt

fun wgStep :: "wg_libs \<Rightarrow> wg_event \<Rightarrow> wg_world \<Rightarrow> wg_world option" where
  "wgStep L (Arrive a now) gw = map_option fst (handlePacketWG L now a gw)"
| "wgStep L (Receive caps) gw = map_option fst (receiveWG caps gw)"
| "wgStep L (OpenIt port) gw = Some (fst (openBind port (fst gw)), snd gw)"
| "wgStep L CloseIt gw = closeBind gw"

definition wgRun :: "wg_libs \<Rightarrow> wg_event list \<Rightarrow> wg_world \<Rightarrow> wg_world option" where
  "wgRun L = runSteps (wgStep L)"

fun arrival :: "wg_event \<Rightarrow> nat list" where
  "arrival (Arrive a now) = [a]"
| "arrival _ = []"

abbreviation arrivals :: "wg_event list \<Rightarrow> nat list" where
  "arrivals evs \<equiv> concat (map arrival evs)"

lemma wgStep_ok:
  assumes "bind_ok X g w" "ev \<noteq> Receive []" "\<forall>a. count_list (arrival ev) a \<le> X a"
  shows "\<exists>g' w'. wgStep L ev (g, w) = Some (g', w') \<and> bind_ok (\<lambda>a. X a - count_list (arrival ev) a) g' w'"
proof (cases ev)
  case (Arrive a now)
  have "(\<lambda>b. X b - count_list (arrival ev) b) = X(a := X a - 1)" by (auto simp: Arrive fun_eq_iff)
  moreover have "0 < X a" using assms(3) [rule_format, of a] Arrive by simp
  ultimately show ?thesis using handlePacketWG_ok [OF assms(1), of a L now] Arrive by auto
next
  case (Receive caps)
  then show ?thesis using readQueued_ok [OF assms(1), of caps] assms(1,2)
    by (auto simp: receiveWG_def)
next
  case (OpenIt port)
  then show ?thesis using assms(1) by (auto simp: openBind_def)
next
  case CloseIt
  then show ?thesis using queue_drain [OF assms(1)] assms(1) by (auto simp: closeBind_def)
qed

interpretation wg_bind: packet_bind "wgStep L" "\<lambda>g. map fst (wg_queue g)" wg_cap arrival "\<lambda>ev. ev \<noteq> Receive []" "\<lambda>g. True" for L
  by unfold_locales (simp add: wgStep_ok)

section \<open>Keys\<close>

definition hexLetter :: "nat \<Rightarrow> char" where
  "hexLetter n = (if n < 10 then char_of (48 + n) else char_of (87 + n))"

definition hexText :: "bytes \<Rightarrow> string" where
  "hexText bs = concat (map (\<lambda>b. [hexLetter (unat b div 16), hexLetter (unat b mod 16)]) bs)"

definition isHexString :: "string \<Rightarrow> bool" where
  "isHexString s \<longleftrightarrow> list_all (\<lambda>c. let n = (of_char c :: nat) in 48 \<le> n \<and> n \<le> 57 \<or> 97 \<le> n \<and> n \<le> 102 \<or> 65 \<le> n \<and> n \<le> 70) s"

text \<open>\<open>base64.StdEncoding\<close>: the value of a letter, and decoding, which skips line ends and wants full padding.\<close>

definition base64Value :: "char \<Rightarrow> nat option" where
  "base64Value c =
     (let n = (of_char c :: nat) in
      if 65 \<le> n \<and> n \<le> 90 then Some (n - 65) else if 97 \<le> n \<and> n \<le> 122 then Some (n - 71)
      else if 48 \<le> n \<and> n \<le> 57 then Some (n + 4) else if n = 43 then Some 62 else if n = 47 then Some 63 else None)"

definition base64Letter :: "nat \<Rightarrow> char" where
  "base64Letter v = char_of (if v < 26 then v + 65 else if v < 52 then v + 71 else if v < 62 then v - 4 else if v = 62 then 43 else 47)"

definition fullGroup :: "char \<Rightarrow> char \<Rightarrow> char \<Rightarrow> char \<Rightarrow> bytes option" where
  "fullGroup a b c d = do {
     x \<leftarrow> base64Value a; y \<leftarrow> base64Value b; z \<leftarrow> base64Value c; v \<leftarrow> base64Value d;
     Some [word_of_nat (x * 4 + y div 16), word_of_nat (y mod 16 * 16 + z div 4), word_of_nat (z mod 4 * 64 + v)]
   }"

text \<open>The last group may be padded; the unused bits are not checked.\<close>

definition lastGroup :: "char \<Rightarrow> char \<Rightarrow> char \<Rightarrow> char \<Rightarrow> bytes option" where
  "lastGroup a b c d =
     (if d \<noteq> CHR ''='' then fullGroup a b c d
      else if c \<noteq> CHR ''='' then do {
        x \<leftarrow> base64Value a; y \<leftarrow> base64Value b; z \<leftarrow> base64Value c;
        Some [word_of_nat (x * 4 + y div 16), word_of_nat (y mod 16 * 16 + z div 4)]
      }
      else do { x \<leftarrow> base64Value a; y \<leftarrow> base64Value b; Some [word_of_nat (x * 4 + y div 16)] })"

fun base64Groups :: "string \<Rightarrow> bytes option" where
  "base64Groups [] = Some []"
| "base64Groups (a # b # c # d # s) =
     (if s = [] then lastGroup a b c d
      else do { g \<leftarrow> fullGroup a b c d; bs \<leftarrow> base64Groups s; Some (g @ bs) })"
| "base64Groups _ = None"

definition base64Decode :: "string \<Rightarrow> bytes option" where
  "base64Decode s = base64Groups (filter (\<lambda>c. c \<noteq> CHR 0x0A \<and> c \<noteq> CHR 0x0D) s)"

definition normalizeWGKey :: "string \<Rightarrow> string" where
  "normalizeWGKey raw =
     (let v = trimSpace raw in
      if v = [] then v
      else if length v = 64 \<and> isHexString v then map toLower v
      else (case base64Decode v of None \<Rightarrow> v | Some bs \<Rightarrow> if length bs \<noteq> 32 then v else hexText bs))"

text \<open>The encoding that users paste.\<close>

fun base64Encode :: "bytes \<Rightarrow> string" where
  "base64Encode [] = []"
| "base64Encode [a] = [base64Letter (unat a div 4), base64Letter (unat a mod 4 * 16), CHR ''='', CHR ''='']"
| "base64Encode [a, b] = [base64Letter (unat a div 4), base64Letter (unat a mod 4 * 16 + unat b div 16),
     base64Letter (unat b mod 16 * 4), CHR ''='']"
| "base64Encode (a # b # c # bs) = [base64Letter (unat a div 4), base64Letter (unat a mod 4 * 16 + unat b div 16),
     base64Letter (unat b mod 16 * 4 + unat c div 64), base64Letter (unat c mod 64)] @ base64Encode bs"

lemma base64Letter_value: "v < 64 \<Longrightarrow> base64Value (base64Letter v) = Some v"
  by (auto simp: base64Letter_def base64Value_def Let_def)

lemma base64Letter_not: "v < 64 \<Longrightarrow> base64Letter v \<noteq> CHR ''='' \<and> base64Letter v \<noteq> CHR 0x0A \<and> base64Letter v \<noteq> CHR 0x0D \<and> \<not> isSpace (base64Letter v)"
proof -
  assume "v < 64"
  then have "(of_char (base64Letter v) :: nat) \<in> {43, 47} \<union> {48..57} \<union> {65..90} \<union> {97..122}"
    by (auto simp: base64Letter_def)
  then show ?thesis by (auto simp: isSpace_def)
qed

lemma unat_byte_parts: "unat (a :: byte) div 4 < 64" "unat a mod 4 * 16 + unat (b :: byte) div 16 < 64" "unat b mod 16 * 4 + unat (c :: byte) div 64 < 64"
    "unat c mod 64 < 64" "unat a mod 4 * 16 < 64" "unat b mod 16 * 4 < 64"
proof -
  have b: "x div 4 < 64" "x div 16 < 16" "x div 64 < 4" "x mod 4 < 4" "x mod 16 < 16" "x mod 64 < 64" if "x < 256" for x :: nat
    using that by (auto simp: less_mult_imp_div_less)
  note A = b [OF unat_byte_less [of a]] and B = b [OF unat_byte_less [of b]] and C = b [OF unat_byte_less [of c]]
  show "unat a div 4 < 64" "unat c mod 64 < 64" using A C by simp_all
  show "unat a mod 4 * 16 + unat b div 16 < 64" using A(4) B(2) by linarith
  show "unat b mod 16 * 4 + unat c div 64 < 64" using B(5) C(3) by linarith
  show "unat a mod 4 * 16 < 64" "unat b mod 16 * 4 < 64" using A(4) B(5) by linarith+
qed

lemma group_bytes:
  "word_of_nat (unat (a :: byte) div 4 * 4 + (unat a mod 4 * 16 + unat (b :: byte) div 16) div 16) = a"
  "word_of_nat ((unat a mod 4 * 16 + unat b div 16) mod 16 * 16 + (unat b mod 16 * 4 + unat (c :: byte) div 64) div 4) = b"
  "word_of_nat ((unat b mod 16 * 4 + unat c div 64) mod 4 * 64 + unat c mod 64) = c"
proof -
  have n: "unat a div 4 * 4 + (unat a mod 4 * 16 + unat b div 16) div 16 = unat a"
    "(unat a mod 4 * 16 + unat b div 16) mod 16 * 16 + (unat b mod 16 * 4 + unat c div 64) div 4 = unat b"
    "(unat b mod 16 * 4 + unat c div 64) mod 4 * 64 + unat c mod 64 = unat c"
  proof -
    have d: "(p * 16 + q) div 16 = p" "(p * 16 + q) mod 16 = q" if "q < 16" for p q :: nat using that by simp_all
    have e: "(p * 4 + q) div 4 = p" "(p * 4 + q) mod 4 = q" if "q < 4" for p q :: nat using that by simp_all
    have "unat b div 16 < 16" "unat c div 64 < 4" using unat_byte_less [of b] unat_byte_less [of c] by (simp_all add: less_mult_imp_div_less)
    then show "unat a div 4 * 4 + (unat a mod 4 * 16 + unat b div 16) div 16 = unat a"
      "(unat a mod 4 * 16 + unat b div 16) mod 16 * 16 + (unat b mod 16 * 4 + unat c div 64) div 4 = unat b"
      "(unat b mod 16 * 4 + unat c div 64) mod 4 * 64 + unat c mod 64 = unat c"
      by (simp_all only: d e div_mult_mod_eq)
  qed
  show "word_of_nat (unat a div 4 * 4 + (unat a mod 4 * 16 + unat b div 16) div 16) = a"
    "word_of_nat ((unat a mod 4 * 16 + unat b div 16) mod 16 * 16 + (unat b mod 16 * 4 + unat c div 64) div 4) = b"
    "word_of_nat ((unat b mod 16 * 4 + unat c div 64) mod 4 * 64 + unat c mod 64) = c"
    unfolding n by simp_all
qed

text \<open>Groups of three bytes as groups of four letters.\<close>

lemma fullGroup_letters:
  "fullGroup (base64Letter (unat a div 4)) (base64Letter (unat a mod 4 * 16 + unat b div 16))
     (base64Letter (unat b mod 16 * 4 + unat c div 64)) (base64Letter (unat c mod 64)) = Some [a, b, c]"
  unfolding fullGroup_def base64Letter_value [OF unat_byte_parts(1)] base64Letter_value [OF unat_byte_parts(2)]
    base64Letter_value [OF unat_byte_parts(3)] base64Letter_value [OF unat_byte_parts(4)] Option.bind.bind_lunit
    group_bytes ..

lemma lastGroup_letters:
  "lastGroup (base64Letter (unat a div 4)) (base64Letter (unat a mod 4 * 16 + unat b div 16))
     (base64Letter (unat b mod 16 * 4)) CHR ''='' = Some [a, b]"
  "lastGroup (base64Letter (unat a div 4)) (base64Letter (unat a mod 4 * 16)) CHR ''='' CHR ''='' = Some [a]"
proof -
  have v: "base64Letter (unat b mod 16 * 4) \<noteq> CHR ''=''" using base64Letter_not unat_byte_parts(6) [of b] by blast
  have n: "unat b mod 16 * 4 = unat b mod 16 * 4 + unat (0 :: byte) div 64" "unat a mod 4 * 16 = unat a mod 4 * 16 + unat (0 :: byte) div 16" by simp_all
  have g: "word_of_nat ((unat a mod 4 * 16 + unat b div 16) mod 16 * 16 + unat b mod 16 * 4 div 4) = b"
    using group_bytes(2) [of a b 0, folded n(1)] .
  show "lastGroup (base64Letter (unat a div 4)) (base64Letter (unat a mod 4 * 16 + unat b div 16))
     (base64Letter (unat b mod 16 * 4)) CHR ''='' = Some [a, b]"
    unfolding lastGroup_def base64Letter_value [OF unat_byte_parts(1)] base64Letter_value [OF unat_byte_parts(2)]
      base64Letter_value [OF unat_byte_parts(6)] Option.bind.bind_lunit group_bytes(1) g using v by simp
  have h: "word_of_nat (unat a div 4 * 4 + unat a mod 4 * 16 div 16) = a"
    using group_bytes(1) [of a 0, folded n(2)] .
  show "lastGroup (base64Letter (unat a div 4)) (base64Letter (unat a mod 4 * 16)) CHR ''='' CHR ''='' = Some [a]"
    unfolding lastGroup_def base64Letter_value [OF unat_byte_parts(1)] base64Letter_value [OF unat_byte_parts(5)]
      Option.bind.bind_lunit h by simp
qed

lemma base64_roundtrip: "base64Groups (base64Encode bs) = Some bs"
proof (induction bs rule: base64Encode.induct)
  case (4 a b c bs)
  have d: "base64Letter (unat c mod 64) \<noteq> CHR ''=''" using base64Letter_not unat_byte_parts(4) by blast
  have "base64Encode bs = [] \<longleftrightarrow> bs = []" by (cases bs rule: base64Encode.cases) auto
  then show ?case using fullGroup_letters [of a b c] d 4 by (auto simp: lastGroup_def)
qed (simp_all add: lastGroup_letters)

definition inText :: "char \<Rightarrow> bool" where
  "inText c \<longleftrightarrow> \<not> isSpace c \<and> c \<noteq> CHR 0x0A \<and> c \<noteq> CHR 0x0D"

lemma inText_letter: "v < 64 \<Longrightarrow> inText (base64Letter v)" "inText CHR ''=''"
  using base64Letter_not by (simp_all add: inText_def isSpace_def)

lemma base64_letters: "list_all inText (base64Encode bs)"
  by (induction bs rule: base64Encode.induct) (simp_all add: inText_letter unat_byte_parts)

lemma length_base64Encode: "length (base64Encode bs) = (length bs + 2) div 3 * 4"
proof (induction bs rule: base64Encode.induct)
  case (4 a b c bs)
  have "(length (a # b # c # bs) + 2) div 3 = (length bs + 2) div 3 + 1" by simp
  then show ?case using 4 by simp
qed simp_all

lemma trimSpace_id: "\<forall>c\<in>set s. \<not> isSpace c \<Longrightarrow> trimSpace s = s"
proof -
  assume s: "\<forall>c\<in>set s. \<not> isSpace c"
  then have "dropWhile isSpace s = s" "dropWhile isSpace (rev s) = rev s"
    using hd_in_set [of s] hd_in_set [of "rev s"] by (auto simp: dropWhile_eq_self_iff)
  then show ?thesis by (simp add: trimSpace_def)
qed

lemma hexLetter_hex: "n < 16 \<Longrightarrow> (of_char (hexLetter n) :: nat) \<in> {48..57} \<union> {97..102} \<and> toLower (hexLetter n) = hexLetter n"
  by (auto simp: hexLetter_def toLower_def Let_def)

lemma hexText_chars: "c \<in> set (hexText bs) \<Longrightarrow> (of_char c :: nat) \<in> {48..57} \<union> {97..102} \<and> toLower c = c"
proof -
  assume "c \<in> set (hexText bs)"
  then obtain b where "c = hexLetter (unat (b :: byte) div 16) \<or> c = hexLetter (unat b mod 16)" by (auto simp: hexText_def)
  moreover have "unat b div 16 < 16" using unat_byte_less [of b] by (simp add: less_mult_imp_div_less)
  ultimately show ?thesis using hexLetter_hex [of "unat b div 16"] hexLetter_hex [of "unat b mod 16"] by auto
qed

lemma length_hexText: "length (hexText bs) = 2 * length bs"
  by (induction bs) (simp_all add: hexText_def)

lemma normalize_hex:
  assumes "length bs = 32"
  shows "normalizeWGKey (hexText bs) = hexText bs"
proof -
  note h = hexText_chars [of _ bs]
  have "trimSpace (hexText bs) = hexText bs" by (rule trimSpace_id) (use h in \<open>fastforce simp: isSpace_def\<close>)
  moreover have "isHexString (hexText bs)" using h by (fastforce simp: isHexString_def list_all_iff Let_def)
  moreover have "map toLower (hexText bs) = hexText bs" using h by (intro map_idI) blast
  moreover have "hexText bs \<noteq> []" using length_hexText [of bs] assms by (cases "hexText bs") simp_all
  ultimately show ?thesis using length_hexText [of bs] assms by (simp add: normalizeWGKey_def)
qed

lemma normalize_base64:
  assumes "length bs = 32"
  shows "normalizeWGKey (base64Encode bs) = hexText bs"
proof -
  have "trimSpace (base64Encode bs) = base64Encode bs" using base64_letters [of bs] by (intro trimSpace_id) (simp add: list_all_iff inText_def)
  moreover have l: "length (base64Encode bs) = 44" by (simp add: length_base64Encode assms)
  moreover have "filter (\<lambda>c. c \<noteq> CHR 0x0A \<and> c \<noteq> CHR 0x0D) (base64Encode bs) = base64Encode bs"
    using base64_letters [of bs] by (intro filter_True) (simp add: list_all_iff inText_def)
  moreover have "base64Encode bs \<noteq> []" using l by auto
  ultimately show ?thesis using base64_roundtrip [of bs] assms by (simp add: normalizeWGKey_def base64Decode_def)
qed

section \<open>The configuration of the library and its state\<close>

record wg_peer =
  wp_publicKey :: string
  wp_presharedKey :: string
  wp_endpoint :: string
  wp_allowedIPs :: "string list"
  wp_keepalive :: int

record wg_config =
  wc_tag :: string
  wc_interfaceName :: string
  wc_detour :: "string list"
  wc_privateKey :: string
  wc_listenPort :: int
  wc_addresses :: "string list"
  wc_routes :: "string list"
  wc_mtu :: int
  wc_peers :: "wg_peer list"
  wc_routeAllowedIPs :: "bool option"
  wc_reuse :: "bool option"
  wc_bindMode :: string

text \<open>
  The fields \<open>NewWireGuardComponent\<close> sets: the trimmed key, the port as a \<open>uint16\<close>, the defaults, and the state of a bind
  that is not there yet.
\<close>

record wg_component =
  wk_interfaceName :: string
  wk_privateKey :: string
  wk_listenPort :: "16 word"
  wk_addresses :: "string list"
  wk_routes :: "string list"
  wk_mtu :: int
  wk_peers :: "wg_peer list"
  wk_routeAllowedIPs :: bool
  wk_bindMode :: string
  wk_bind :: wg

definition newWireGuard :: "wg_config \<Rightarrow> wg_component" where
  "newWireGuard cfg =
     (let mode = map toLower (trimSpace (wc_bindMode cfg)); mode' = (if mode = [] then ''udplex'' else mode);
          name = trimSpace (wc_interfaceName cfg)
      in \<lparr>wk_interfaceName = (if name = [] then wc_tag cfg else name), wk_privateKey = trimSpace (wc_privateKey cfg),
          wk_listenPort = word_of_int (wc_listenPort cfg), wk_addresses = wc_addresses cfg, wk_routes = wc_routes cfg,
          wk_mtu = (if wc_mtu cfg \<le> 0 then 1420 else wc_mtu cfg), wk_peers = wc_peers cfg,
          wk_routeAllowedIPs = (case wc_routeAllowedIPs cfg of None \<Rightarrow> False | Some b \<Rightarrow> b), wk_bindMode = mode',
          wk_bind = \<lparr>wg_tag = wc_tag cfg, wg_native = (mode' = ''native''),
            wg_reuse = (case wc_reuse cfg of None \<Rightarrow> True | Some b \<Rightarrow> b), wg_detour = wc_detour cfg,
            wg_bound = False, wg_open = False, wg_port = 0, wg_cap = 0, wg_queue = [], wg_seen = []\<rparr>\<rparr>)"

definition newWireGuardBind :: "router_config \<Rightarrow> wg_component \<Rightarrow> wg" where
  "newWireGuardBind c k = (wk_bind k)\<lparr>wg_bound := True, wg_port := unat (wk_listenPort k),
     wg_cap := nat (if rc_queueSize c \<le> 0 then 1024 else rc_queueSize c), wg_queue := []\<rparr>"

datatype wg_start_error = KeyRequired | PortRequired | UnknownMode string

text \<open>The checks of \<open>Start\<close> before it creates the interface, and the bind it creates.\<close>

definition startChecks :: "router_config \<Rightarrow> wg_component \<Rightarrow> wg_start_error + wg" where
  "startChecks c k =
     (if wk_privateKey k = [] then Inl KeyRequired
      else if wk_bindMode k = ''udplex'' then Inr (newWireGuardBind c k)
      else if wk_bindMode k = ''native'' then (if wk_listenPort k = 0 then Inl PortRequired else Inr (wk_bind k))
      else Inl (UnknownMode (wk_bindMode k)))"

definition line :: "string \<Rightarrow> string \<Rightarrow> string" where
  "line key v = key @ ''='' @ v @ ''\<newline>''"

definition peerConfig :: "wg_peer \<Rightarrow> string" where
  "peerConfig p =
     line ''public_key'' (normalizeWGKey (wp_publicKey p)) @ line ''replace_allowed_ips'' ''true''
     @ (if trimSpace (wp_presharedKey p) \<noteq> [] then line ''preshared_key'' (normalizeWGKey (trimSpace (wp_presharedKey p))) else [])
     @ (if trimSpace (wp_endpoint p) \<noteq> [] then line ''endpoint'' (trimSpace (wp_endpoint p)) else [])
     @ (if 0 < wp_keepalive p then line ''persistent_keepalive_interval'' (itoa (wp_keepalive p)) else [])
     @ concat (map (\<lambda>ip. line ''allowed_ip'' (trimSpace ip)) (wp_allowedIPs p))"

definition buildIPCConfig :: "wg_component \<Rightarrow> string" where
  "buildIPCConfig k =
     line ''private_key'' (normalizeWGKey (wk_privateKey k))
     @ (if wk_listenPort k \<noteq> 0 then line ''listen_port'' (itoa (uint (wk_listenPort k))) else [])
     @ line ''replace_peers'' ''true'' @ concat (map peerConfig (wk_peers k)) @ ''\<newline>''"

fun uniqueRoutes :: "string list \<Rightarrow> string list \<Rightarrow> string list" where
  "uniqueRoutes seen [] = []"
| "uniqueRoutes seen (r # rs) =
     (let route = trimSpace r in
      if route = [] \<or> route \<in> set seen then uniqueRoutes seen rs else route # uniqueRoutes (route # seen) rs)"

definition collectRoutes :: "wg_component \<Rightarrow> string list" where
  "collectRoutes k = uniqueRoutes [] (wk_routes k @ (if wk_routeAllowedIPs k then concat (map wp_allowedIPs (wk_peers k)) else []))"

text \<open>Warm-up: \<open>parse\<close> is \<open>netip.ParsePrefix\<close> with \<open>Addr\<close>, an address of 4 or 16 bytes.\<close>

fun lastIPv4 :: "(string \<Rightarrow> bytes option) \<Rightarrow> bytes option \<Rightarrow> string list \<Rightarrow> bytes option" where
  "lastIPv4 parse found [] = found"
| "lastIPv4 parse found (a # as) = lastIPv4 parse
     (case parse (trimSpace a) of Some ip \<Rightarrow> if length ip = 4 then Some ip else found | None \<Rightarrow> found) as"

fun firstTarget :: "(string \<Rightarrow> bytes option) \<Rightarrow> bytes option \<Rightarrow> string list \<Rightarrow> (bytes \<times> bytes) option" where
  "firstTarget parse src [] = None"
| "firstTarget parse src (a # as) =
     (case (parse (trimSpace a), src) of
        (Some dst, Some s) \<Rightarrow> if length dst = 4 then Some (s, dst) else firstTarget parse src as
      | _ \<Rightarrow> firstTarget parse src as)"

definition buildWarmupTargets :: "(string \<Rightarrow> bytes option) \<Rightarrow> wg_component \<Rightarrow> (bytes \<times> bytes \<times> string) list" where
  "buildWarmupTargets parse k =
     List.map_filter (\<lambda>p. if trimSpace (wp_endpoint p) = [] then None
       else map_option (\<lambda>(src, dst). (src, dst, normalizeWGKey (wp_publicKey p)))
         (firstTarget parse (lastIPv4 parse None (wk_addresses k)) (wp_allowedIPs p))) (wk_peers k)"

text \<open>The state the library prints: the last handshake of each key. \<open>parseInt\<close> is \<open>strconv.ParseInt\<close>.\<close>

fun handshakeTimes :: "(string \<Rightarrow> int option) \<Rightarrow> string \<Rightarrow> string list \<Rightarrow> (string \<times> int) list \<Rightarrow> (string \<times> int) list" where
  "handshakeTimes parseInt key [] acc = acc"
| "handshakeTimes parseInt key (raw # ls) acc =
     (let l = trimSpace raw in
      if hasPrefix ''public_key='' l then handshakeTimes parseInt (trimSpace (drop 11 l)) ls acc
      else if hasPrefix ''last_handshake_time_sec='' l \<and> key \<noteq> []
      then handshakeTimes parseInt key ls
        (case parseInt (trimSpace (drop 24 l)) of Some s \<Rightarrow> AList.update key s acc | None \<Rightarrow> acc)
      else handshakeTimes parseInt key ls acc)"

definition hasEstablishedHandshakes :: "(string \<Rightarrow> int option) \<Rightarrow> string option \<Rightarrow> (bytes \<times> bytes \<times> string) list \<Rightarrow> bool" where
  "hasEstablishedHandshakes parseInt state targets =
     (case state of None \<Rightarrow> False
      | Some s \<Rightarrow> (let times = handshakeTimes parseInt [] (splitLines s) [] in
          \<forall>(src, dst, key)\<in>set targets. case map_of times key of Some t \<Rightarrow> 0 < t | None \<Rightarrow> False))"

section \<open>Properties\<close>

text \<open>C15. The filter for handshake copies is exact. However long a stream of messages is and however often the table
  is cleared, a message is dropped exactly when it is a handshake message of which a copy passed less than ten seconds before; data and everything
  else passes always. This needs a clock that does not go back and messages whose hashes do not collide.\<close>

theorem wg_handshake_copies_dropped:
  assumes "inj_on hash (fst ` set ms)" "sorted (map snd ms)"
  shows "passed hash ms [] = passedSpec ms []"
proof -
  have "seen_ok hash (fst ` set ms) t [] []" for t by (simp add: seen_ok_def)
  moreover have "sorted ((if ms = [] then 0 else snd (hd ms)) # map snd ms)" using assms(2) by (cases ms) auto
  ultimately show ?thesis using passed_spec [OF assms(1)] by (meson order_refl)
qed

theorem wg_handshake_copies_dropped_witness:
  "passed id [([1, 0, 0, 0, 9], 0), ([4, 0, 0, 0], 1), ([1, 0, 0, 0, 9], 2), ([4, 0, 0, 0], 3), ([1, 0, 0, 0, 9], 20 * ns_second)] []
   = [True, True, False, True, True]"
proof -
  let ?ms = "[([1, 0, 0, 0, 9], 0), ([4, 0, 0, 0], 1), ([1, 0, 0, 0, 9], 2), ([4, 0, 0, 0], 3), ([1, 0, 0, 0, 9], 20 * ns_second)] :: (bytes \<times> gotime) list"
  have "passed id ?ms [] = passedSpec ?ms []"
    by (rule wg_handshake_copies_dropped) (simp_all add: ns_second_def)
  also have "\<dots> = [True, True, False, True, True]"
    by (simp add: isHandshake_def Let_def wireGuardHandshakeDedupWindow_def ns_second_def time_sub_def max_i64_def min_i64_def)
  finally show ?thesis .
qed

text \<open>C14. The bind of WireGuard never panics, loses no buffer and releases none twice: whatever arrives, however many buffers the library
  receives into and whenever it opens and closes the bind, each packet's count is the number of its references, one per owner
  and one per place in the queue, which stays within its bound.\<close>

theorem wg_bind_accounts_for_packets:
  assumes "refs_inv (\<lambda>a. X a + count_list (map fst (wg_queue g)) a) w" "length (wg_queue g) \<le> wg_cap g"
    and "\<forall>a. X a + heldCount w a + wg_cap g + 1 < 2 ^ 31" "\<forall>a. count_list (arrivals evs) a \<le> X a" "Receive [] \<notin> set evs"
  shows "\<exists>g' w'. wgRun L evs (g, w) = Some (g', w') \<and> length (wg_queue g') \<le> wg_cap g'
    \<and> refs_inv (\<lambda>a. X a - count_list (arrivals evs) a + count_list (map fst (wg_queue g')) a) w'"
proof -
  have "queue_ok X (wg_cap g) (map fst (wg_queue g)) w" using assms(1-3) by (simp add: queue_ok_def owners_eq)
  moreover have "list_all (\<lambda>ev. ev \<noteq> Receive []) evs" using assms(5) by (auto simp: list_all_iff)
  ultimately show ?thesis using wg_bind.run_references [of X g w evs L] assms(4) by (simp add: wgRun_def)
qed

text \<open>Keys reach the library in its own form: the base64 text that the WireGuard tools print and the hexadecimal text of a key are
  both turned into the same lower case hexadecimal text, whatever the 32 bytes are.\<close>

theorem wg_key_normalized:
  assumes "length key = 32"
  shows "normalizeWGKey (base64Encode key) = hexText key \<and> normalizeWGKey (hexText key) = hexText key"
  using normalize_base64 [OF assms] normalize_hex [OF assms] ..

theorem wg_key_normalized_witness:
  "normalizeWGKey (base64Encode (replicate 32 255)) = hexText (replicate 32 255)"
  using wg_key_normalized [of "replicate 32 255"] by simp

definition sizes_ok :: "router_config \<Rightarrow> bool" where
  "sizes_ok c \<longleftrightarrow> 0 < rc_bufferSize c \<and> 0 \<le> rc_bufferOffset c"

text \<open>What the library sends is routed exactly as long as it fits a buffer: the packet then carries exactly the datagram, with the
  connection it answers and the number of its batch. The length is not checked, so a longer datagram becomes a packet whose
  length lies beyond its buffer, and the first component that reads its data panics.\<close>

theorem wg_packet_exact_or_panics:
  assumes "sizes_ok c" "pool_mem c m"
  shows "\<exists>p. wgPacket c m tag cid batch d = Some p \<and> pk_connID p = cid \<and> pk_batchID p = batch \<and> pk_srcTag p = tag
    \<and> (if int (length d) \<le> rc_bufferSize c then pk_full c p \<and> pk_bytes p = d else getData p = None)"
proof -
  let ?o = "nat (rc_bufferOffset c)"
  have len: "length m = ?o + nat (rc_bufferSize c)" "0 \<le> rc_bufferOffset c" "0 < rc_bufferSize c" "sl_len (full_slice m) = int (length m)"
    using assms by (auto simp: sizes_ok_def pool_mem_def poolSize_def full_slice_def)
  let ?d = "take (nat (rc_bufferSize c)) d"
  have mem: "take ?o m @ blit (drop ?o m) 0 ?d = blit m ?o ?d" using len(1) by (simp add: blit_def add.commute)
  have b: "bufAtOffset (getPacket c m tag) = Some \<lparr>sl_mem = drop ?o m, sl_len = rc_bufferSize c\<rparr>"
    using len by (simp add: bufAtOffset_def getPacket_def getPacketWithBuffer_def sl_from_def sl_range_def sl_cap_def full_slice_def)
  define p where "p = (getPacket c m tag)\<lparr>pk_buf := (full_slice m)\<lparr>sl_mem := blit m ?o ?d\<rparr>, pk_length := int (length d), pk_connID := cid, pk_batchID := batch\<rparr>"
  have w: "wgPacket c m tag cid batch d = Some p"
    using b mem by (simp add: wgPacket_def fillPacket_def sl_copy_def p_def getPacket_def getPacketWithBuffer_def full_slice_def)
  have f: "?o + length ?d \<le> length m" using len(1) by simp
  have lb: "length (blit m ?o ?d) = length m" using f by (simp add: blit_fits)
  show ?thesis
  proof (cases "int (length d) \<le> rc_bufferSize c")
    case True
    then have "?d = d" by simp
    then have "pk_bytes p = d" "pk_full c p"
      using f lb len assms(2) True
      by (simp_all add: p_def pk_bytes_def pk_full_def pk_wf_def getPacket_def getPacketWithBuffer_def pool_mem_def full_slice_def blit_fits poolSize_def)
    then show ?thesis using w True by (simp add: p_def getPacket_def getPacketWithBuffer_def)
  next
    case False
    then have "getData p = None" using lb len by (simp add: getData_def sl_range_def p_def getPacket_def getPacketWithBuffer_def sl_cap_def)
    then show ?thesis using w False by (simp add: p_def getPacket_def getPacketWithBuffer_def)
  qed
qed

theorem wg_packet_exact_or_panics_witness:
  "\<exists>p. wgPacket demoConfig (replicate 164 0) ''wg'' 5 6 (replicate 101 1) = Some p \<and> getData p = None"
proof -
  have "sizes_ok demoConfig" "pool_mem demoConfig (replicate 164 0)" by (simp_all add: sizes_ok_def demoConfig_def pool_mem_def poolSize_def)
  from wg_packet_exact_or_panics [OF this, of "''wg''" 5 6 "replicate 101 1"] show ?thesis by (auto simp: demoConfig_def)
qed

definition demoBind :: wg where
  "demoBind = \<lparr>wg_tag = ''wg'', wg_native = False, wg_reuse = True, wg_detour = [], wg_bound = True, wg_open = True, wg_port = 0,
     wg_cap = 2, wg_queue = [], wg_seen = []\<rparr>"

definition demoLibs :: wg_libs where
  "demoLibs = \<lparr>wl_sha256 = (\<lambda>d. take 32 (d @ replicate 32 0)), wl_addrText = (\<lambda>_. ''10.0.0.1:7000''),
     wl_parseAddrPort = (\<lambda>s. if s = ''10.0.0.1:7000'' then Some [10, 0, 0, 1] else None),
     wl_parseAddr = (\<lambda>s. if s = ''10.0.0.1'' then Some [10, 0, 0, 1] else None), wl_hexID = (\<lambda>_. ''0000000000000001'')\<rparr>"

theorem wg_bind_accounts_for_packets_witness:
  "\<exists>g' w'. wgRun demoLibs [Arrive 0 5, Receive [100], CloseIt] (demoBind, demoWorld []) = Some (g', w') \<and> length (wg_queue g') \<le> wg_cap g'"
proof -
  let ?X = "\<lambda>a. if a = 0 then 1 else 0 :: nat"
  let ?evs = "[Arrive 0 5, Receive [100], CloseIt]"
  have x: "((\<lambda>_. 0)(0 := 1)) = ?X" by auto
  have r: "refs_inv (\<lambda>a. ?X a + count_list (map fst (wg_queue demoBind)) a) (demoWorld [])"
    using demoWorld_ok(1) [of "[]"] unfolding x by (simp add: demoBind_def)
  have h: "\<forall>a. ?X a + heldCount (demoWorld []) a + wg_cap demoBind + 1 < 2 ^ 31"
    by (simp add: demoBind_def heldCount_def demoWorld_def)
  have c: "length (wg_queue demoBind) \<le> wg_cap demoBind" "\<forall>a. count_list (arrivals ?evs) a \<le> ?X a" "Receive [] \<notin> set ?evs"
    by (simp_all add: demoBind_def)
  from wg_bind_accounts_for_packets [OF r c(1) h c(2,3), of demoLibs] show ?thesis by blast
qed

end
