(* ===== verification/OpenVPN.thy ===== *)
theory OpenVPN
  imports PacketQueue NetSetup "HOL-Library.AList"
begin

text \<open>
  The OpenVPN component, \<open>openvpn.go\<close>, around the OpenVPN library: the options the server is started with, the pipe
  that carries its datagrams through other components and remembers where each client came from, and the queues
  that hand its data packets to the clients.
\<close>

section \<open>Options of the server\<close>

record ovpn_user =
  ou_username :: string
  ou_password :: string

record ovpn_config =
  oc_tag :: string
  oc_bindMode :: string
  oc_proto :: string
  oc_listenAddr :: string
  oc_detour :: "string list"
  oc_reuse :: "bool option"
  oc_sendTimeout :: int
  oc_interfaceName :: string
  oc_mtu :: int
  oc_addresses :: "string list"
  oc_routes :: "string list"
  oc_topology :: string
  oc_setupInterface :: "bool option"
  oc_maxClients :: int
  oc_ca :: string
  oc_cert :: string
  oc_key :: string
  oc_tlsCrypt :: string
  oc_tlsCryptV2 :: string
  oc_tlsAuth :: string
  oc_keyDirection :: "int option"
  oc_verify :: string
  oc_crlVerify :: string
  oc_users :: "ovpn_user list"
  oc_duplicateCN :: bool
  oc_dataCiphers :: "string list"
  oc_dataCiphersFallback :: string
  oc_auth :: string
  oc_pushRoutes :: "string list"
  oc_pushDNS :: "string list"
  oc_redirectGateway :: bool
  oc_keepaliveInterval :: int
  oc_keepaliveTimeout :: int
  oc_netConfig :: net_config

text \<open>Inline PEM text or the path of a file, as the library has them.\<close>

record material =
  mt_content :: string
  mt_path :: string

definition openVPNMaterial :: "string \<Rightarrow> material" where
  "openVPNMaterial raw = (let v = trimSpace raw in
     if v = [] then \<lparr>mt_content = [], mt_path = []\<rparr>
     else if containsText ''-----BEGIN'' v then \<lparr>mt_content = v @ ''\<newline>'', mt_path = []\<rparr>
     else \<lparr>mt_content = [], mt_path = v\<rparr>)"

text \<open>
  Go's \<open>netip.ParsePrefix\<close> (the bytes of the address, 4 or 16, and the number of bits), \<open>netip.ParseAddr\<close>, and the library's \<open>IsSet\<close>.
\<close>

record ovpn_libs =
  ol_prefix :: "string \<Rightarrow> (bytes \<times> nat) option"
  ol_addr :: "string \<Rightarrow> bytes option"
  ol_isSet :: "material \<Rightarrow> bool"

datatype ovpn_error = ListenAddrRequired | UnknownProto string | UdplexNeedsUdp | UnknownBindMode string
  | NoAddresses | BadAddress string | TwoIPv4Pools | TwoIPv6Pools | CertRequired | BadVerify string | CARequired
  | BadKeyDirection | SeveralWraps | BadPushRoute string | BadPushDNS string

record ovpn_options =
  so_keyDirection :: int
  so_protocol :: string
  so_maxClients :: int
  so_mtu :: "32 word"
  so_ciphers :: "string list"
  so_fallbackCipher :: string
  so_dataAuth :: string
  so_ca :: material
  so_cert :: material
  so_key :: material
  so_tlsAuth :: "material option"
  so_tlsCrypt :: "material option"
  so_tlsCryptV2 :: "material option"
  so_verify :: string
  so_remoteTLS :: string
  so_crlVerify :: string
  so_authenticator :: "(string \<Rightarrow> string \<Rightarrow> bool) option"
  so_duplicateCN :: bool
  so_pingInterval :: duration
  so_pingRestart :: duration
  so_pools :: "(bytes \<times> nat) list"
  so_topology :: string
  so_localAddress :: "(bytes \<times> nat) list"
  so_pushPingInterval :: duration
  so_pushPingRestart :: duration
  so_pushRoutes :: "(bytes \<times> nat) list"
  so_pushDNS :: "bytes list"
  so_redirectFlags :: "string list option"

text \<open>The authenticator: a later account of the same name replaces an earlier one. True is the nil error.\<close>

definition openVPNAuthenticator :: "ovpn_user list \<Rightarrow> (string \<Rightarrow> string \<Rightarrow> bool) option" where
  "openVPNAuthenticator users =
     (if users = [] then None
      else Some (\<lambda>name pass. case map_of (rev (map (\<lambda>u. (ou_username u, ou_password u)) users)) name of
          None \<Rightarrow> False | Some expected \<Rightarrow> expected = pass))"

text \<open>The pools of the clients; \<open>has4\<close> and \<open>has6\<close> tell which families were there before. Also returns whether there is an IPv6 pool.\<close>

fun parsePools :: "ovpn_libs \<Rightarrow> bool \<Rightarrow> bool \<Rightarrow> string list \<Rightarrow> ovpn_error + (bytes \<times> nat) list \<times> bool" where
  "parsePools L has4 has6 [] = Inr ([], has6)"
| "parsePools L has4 has6 (raw # raws) =
     (case ol_prefix L (trimSpace raw) of
        None \<Rightarrow> Inl (BadAddress raw)
      | Some p \<Rightarrow>
          if length (fst p) = 4 \<and> has4 then Inl TwoIPv4Pools
          else if length (fst p) \<noteq> 4 \<and> has6 then Inl TwoIPv6Pools
          else (case parsePools L (has4 \<or> length (fst p) = 4) (has6 \<or> length (fst p) \<noteq> 4) raws of
              Inl e \<Rightarrow> Inl e | Inr (ps, h) \<Rightarrow> Inr (p # ps, h)))"

definition verifyMode :: "ovpn_config \<Rightarrow> ovpn_error + string" where
  "verifyMode c = (let v = trimSpace (oc_verify c) in
     if v \<notin> set ['''', ''require'', ''optional'', ''none''] then Inl (BadVerify v)
     else if trimSpace (oc_ca c) = [] \<and> v \<noteq> ''none''
     then (if oc_users c = [] then Inl CARequired else Inr ''none'')
     else Inr v)"

definition keyDirection :: "ovpn_config \<Rightarrow> ovpn_error + int" where
  "keyDirection c =
     (if oc_tlsAuth c = [] then Inr (- 1)
      else case oc_keyDirection c of None \<Rightarrow> Inr (- 1)
        | Some d \<Rightarrow> if d \<noteq> 0 \<and> d \<noteq> 1 then Inl BadKeyDirection else Inr d)"

definition wrapCount :: "ovpn_config \<Rightarrow> nat" where
  "wrapCount c = length (filter (\<lambda>s. s \<noteq> []) [oc_tlsAuth c, oc_tlsCrypt c, oc_tlsCryptV2 c])"

fun parseAll :: "(string \<Rightarrow> 'a option) \<Rightarrow> (string \<Rightarrow> ovpn_error) \<Rightarrow> string list \<Rightarrow> ovpn_error + 'a list" where
  "parseAll f e [] = Inr []"
| "parseAll f e (raw # raws) =
     (case f (trimSpace raw) of None \<Rightarrow> Inl (e raw)
      | Some x \<Rightarrow> (case parseAll f e raws of Inl err \<Rightarrow> Inl err | Inr xs \<Rightarrow> Inr (x # xs)))"

definition orDefault :: "int \<Rightarrow> int \<Rightarrow> int" where
  "orDefault v d = (if v \<le> 0 then d else v)"

text \<open>The options once every check has passed. Durations are products of 64-bit integers.\<close>

definition serverOptions :: "ovpn_config \<Rightarrow> string \<Rightarrow> int \<Rightarrow> (bytes \<times> nat) list \<Rightarrow> bool \<Rightarrow> string \<Rightarrow> int
    \<Rightarrow> (bytes \<times> nat) list \<Rightarrow> bytes list \<Rightarrow> ovpn_options" where
  "serverOptions c proto mtu pools v6 verify dir rts dns =
     (let interval = orDefault (oc_keepaliveInterval c) 10; timeout = orDefault (oc_keepaliveTimeout c) 60;
          opt = (\<lambda>s. if s = [] then None else Some (openVPNMaterial s)) in
      \<lparr>so_keyDirection = dir, so_protocol = proto, so_maxClients = oc_maxClients c, so_mtu = word_of_int mtu,
       so_ciphers = oc_dataCiphers c, so_fallbackCipher = oc_dataCiphersFallback c, so_dataAuth = oc_auth c,
       so_ca = openVPNMaterial (oc_ca c), so_cert = openVPNMaterial (oc_cert c), so_key = openVPNMaterial (oc_key c),
       so_tlsAuth = opt (oc_tlsAuth c), so_tlsCrypt = opt (oc_tlsCrypt c), so_tlsCryptV2 = opt (oc_tlsCryptV2 c),
       so_verify = verify, so_remoteTLS = (if verify \<noteq> ''none'' then ''client'' else []), so_crlVerify = trimSpace (oc_crlVerify c),
       so_authenticator = openVPNAuthenticator (oc_users c), so_duplicateCN = oc_duplicateCN c,
       so_pingInterval = i64 (interval * ns_second), so_pingRestart = i64 (i64 (timeout * 2) * ns_second),
       so_pools = pools, so_topology = (if trimSpace (oc_topology c) = [] then ''subnet'' else trimSpace (oc_topology c)),
       so_localAddress = map (\<lambda>p. (fst p, 8 * length (fst p))) pools,
       so_pushPingInterval = i64 (interval * ns_second), so_pushPingRestart = i64 (timeout * ns_second),
       so_pushRoutes = rts, so_pushDNS = dns,
       so_redirectFlags = (if oc_redirectGateway c then Some (''def1'' # (if v6 then [''ipv6''] else [])) else None)\<rparr>)"

definition buildOpenVPNServerOptions :: "ovpn_libs \<Rightarrow> ovpn_config \<Rightarrow> string \<Rightarrow> int \<Rightarrow> ovpn_error + ovpn_options" where
  "buildOpenVPNServerOptions L c proto mtu =
     (if oc_addresses c = [] then Inl NoAddresses
      else case parsePools L False False (oc_addresses c) of Inl e \<Rightarrow> Inl e | Inr (pools, v6) \<Rightarrow>
        if \<not> ol_isSet L (openVPNMaterial (oc_cert c)) \<or> \<not> ol_isSet L (openVPNMaterial (oc_key c)) then Inl CertRequired
        else case verifyMode c of Inl e \<Rightarrow> Inl e | Inr verify \<Rightarrow>
        case keyDirection c of Inl e \<Rightarrow> Inl e | Inr dir \<Rightarrow>
        if 1 < wrapCount c then Inl SeveralWraps
        else case parseAll (ol_prefix L) BadPushRoute (oc_pushRoutes c) of Inl e \<Rightarrow> Inl e | Inr rts \<Rightarrow>
        case parseAll (ol_addr L) BadPushDNS (oc_pushDNS c) of Inl e \<Rightarrow> Inl e | Inr dns \<Rightarrow>
        Inr (serverOptions c proto mtu pools v6 verify dir rts dns))"

text \<open>The component. \<open>timeDurationOrDefault\<close> is that of \<open>wireguard.go\<close>.\<close>

record ovpn_component =
  ok_tag :: string
  ok_bindMode :: string
  ok_proto :: string
  ok_listenAddr :: string
  ok_detour :: "string list"
  ok_reuse :: bool
  ok_interfaceName :: string
  ok_mtu :: int
  ok_addresses :: "string list"
  ok_routes :: "string list"
  ok_setupInterface :: bool
  ok_netConfig :: net_config
  ok_sendTimeout :: duration
  ok_options :: ovpn_options

definition timeDurationOrDefault :: "int \<Rightarrow> int \<Rightarrow> duration" where
  "timeDurationOrDefault ms d = i64 ((if ms \<le> 0 then d else ms) * ns_milli)"

definition checkMode :: "ovpn_config \<Rightarrow> string \<Rightarrow> string \<Rightarrow> ovpn_error option" where
  "checkMode c mode proto =
     (if mode = ''native''
      then (if trimSpace (oc_listenAddr c) = [] then Some ListenAddrRequired
            else if proto \<noteq> ''udp'' \<and> proto \<noteq> ''tcp'' then Some (UnknownProto proto) else None)
      else if mode = ''udplex'' then (if proto \<noteq> ''udp'' then Some UdplexNeedsUdp else None)
      else Some (UnknownBindMode mode))"

definition lowerOr :: "string \<Rightarrow> string \<Rightarrow> string" where
  "lowerOr s d = (let v = map toLower (trimSpace s) in if v = [] then d else v)"

definition newOpenVPNComponent :: "ovpn_libs \<Rightarrow> ovpn_config \<Rightarrow> ovpn_error + ovpn_component" where
  "newOpenVPNComponent L c =
     (let mode = lowerOr (oc_bindMode c) ''native''; proto = lowerOr (oc_proto c) ''udp'';
          mtu = orDefault (oc_mtu c) 1500; name = trimSpace (oc_interfaceName c) in
      case checkMode c mode proto of Some e \<Rightarrow> Inl e | None \<Rightarrow>
      case buildOpenVPNServerOptions L c proto mtu of Inl e \<Rightarrow> Inl e | Inr opts \<Rightarrow>
      Inr \<lparr>ok_tag = oc_tag c, ok_bindMode = mode, ok_proto = proto, ok_listenAddr = trimSpace (oc_listenAddr c),
           ok_detour = oc_detour c, ok_reuse = (case oc_reuse c of None \<Rightarrow> True | Some b \<Rightarrow> b),
           ok_interfaceName = (if name = [] then oc_tag c else name), ok_mtu = mtu, ok_addresses = oc_addresses c,
           ok_routes = oc_routes c, ok_setupInterface = (case oc_setupInterface c of None \<Rightarrow> True | Some b \<Rightarrow> b),
           ok_netConfig = oc_netConfig c, ok_sendTimeout = timeDurationOrDefault (oc_sendTimeout c) 500, ok_options = opts\<rparr>)"

section \<open>The pipe\<close>

text \<open>The datagrams that wait for the library, and for each connection the component it last came from, with the time.\<close>

type_synonym return_table = "(conn_id \<times> (string \<times> gotime)) list"

record ovpn_pipe =
  op_tag :: string
  op_reuse :: bool
  op_detour :: "string list"
  op_cap :: nat
  op_rx :: "nat list"
  op_closed :: bool
  op_deadline :: "gotime option"
  op_return :: return_table

definition newOpenVPNPipeConn :: "router_config \<Rightarrow> ovpn_component \<Rightarrow> ovpn_pipe" where
  "newOpenVPNPipeConn c k =
     \<lparr>op_tag = ok_tag k, op_reuse = ok_reuse k, op_detour = ok_detour k,
      op_cap = nat (if rc_queueSize c \<le> 0 then 1024 else rc_queueSize c), op_rx = [], op_closed = False,
      op_deadline = None, op_return = []\<rparr>"

definition rememberReturnPath :: "conn_id \<Rightarrow> string \<Rightarrow> gotime \<Rightarrow> return_table \<Rightarrow> return_table" where
  "rememberReturnPath cid tag now m =
     (let m' = AList.update cid (tag, now)
            (if 4096 \<le> length m then filter (\<lambda>(i, t, seen). \<not> 10 * ns_minute < time_sub now seen) m else m)
      in case map_of m cid of
           Some (t, seen) \<Rightarrow> if t = tag \<and> time_sub now seen < ns_second then m else m'
         | None \<Rightarrow> m')"

definition returnPath :: "ovpn_pipe \<Rightarrow> conn_id \<Rightarrow> string list" where
  "returnPath p cid =
     (if op_reuse p then (case map_of (op_return p) cid of Some (tag, seen) \<Rightarrow> [tag] | None \<Rightarrow> op_detour p)
      else op_detour p)"

datatype pipe_error = NotRunning | NativeBind | NoConnID | PipeClosed | RxFull | WrongPeer | NoReturnPath | TooLong

definition enqueuePipe :: "gotime \<Rightarrow> nat \<Rightarrow> ovpn_pipe \<times> world \<Rightarrow> ((ovpn_pipe \<times> world) \<times> pipe_error option) option" where
  "enqueuePipe now a pw = (case pw of (p, w) \<Rightarrow>
     (let k = pkAt w a in
      if pk_connID k = 0 then Some ((p, w), Some NoConnID)
      else (let p1 = (if op_reuse p \<and> pk_srcTag k \<noteq> []
                      then p\<lparr>op_return := rememberReturnPath (pk_connID k) (pk_srcTag k) now (op_return p)\<rparr> else p) in
        if op_closed p1 then Some ((p1, w), Some PipeClosed)
        else (let w1 = refAdd a w in
          if length (op_rx p1) < op_cap p1 then Some ((p1\<lparr>op_rx := op_rx p1 @ [a]\<rparr>, w1), None)
          else do { w2 \<leftarrow> refRelease a w1; Some ((p1, w2), Some RxFull) }))))"

text \<open>
  \<open>ReadFrom\<close>, which waits when nothing is there; \<open>n\<close> is the length of the buffer it is given. A closed pipe is empty, so
  its choice between both cannot be random.
\<close>

datatype read_result = Got bytes conn_id | ReadClosed | DeadlineExceeded | Waits

definition readFromPipe :: "gotime \<Rightarrow> nat \<Rightarrow> ovpn_pipe \<times> world \<Rightarrow> ((ovpn_pipe \<times> world) \<times> read_result) option" where
  "readFromPipe now n pw = (case pw of (p, w) \<Rightarrow>
     (if (case op_deadline p of None \<Rightarrow> False | Some t \<Rightarrow> time_sub t now \<le> 0) then Some ((p, w), DeadlineExceeded)
      else if op_closed p then Some ((p, w), ReadClosed)
      else case op_rx p of
          [] \<Rightarrow> Some ((p, w), Waits)
        | a # rx \<Rightarrow> do {
            d \<leftarrow> getData (pkAt w a);
            w' \<leftarrow> refRelease a w;
            Some ((p\<lparr>op_rx := rx\<rparr>, w'), Got (take n (sl_data d)) (pk_connID (pkAt w a)))
          }))"

text \<open>\<open>WriteTo\<close>: \<open>peer\<close> is None for an address of another kind. Routing \<open>r\<close> is that of \<open>Router\<close>, and \<open>m\<close> a buffer of the pool.\<close>

definition writeToPipe :: "routing \<Rightarrow> bytes \<Rightarrow> bytes \<Rightarrow> conn_id option \<Rightarrow> ovpn_pipe \<Rightarrow> world \<Rightarrow> (world \<times> pipe_error option) option" where
  "writeToPipe r m d peer p w =
     (case peer of None \<Rightarrow> Some (w, Some WrongPeer)
      | Some cid \<Rightarrow>
          if op_closed p then Some (w, Some PipeClosed)
          else if returnPath p cid = [] then Some (w, Some NoReturnPath)
          else (case newPacket m (op_tag p) w of (a, w1) \<Rightarrow> do {
            b \<leftarrow> bufAtOffset (pkAt w1 a);
            if sl_len b < int (length d) then do { w2 \<leftarrow> refRelease a w1; Some (w2, Some TooLong) }
            else do {
              (k, n) \<leftarrow> fillPacket (\<lambda>b. do { b' \<leftarrow> sl_copy d b; Some (b', int (length d)) }) (pkAt w1 a);
              w2 \<leftarrow> r a (returnPath p cid) (setPk a (k\<lparr>pk_length := n, pk_connID := cid\<rparr>) w1);
              w3 \<leftarrow> refRelease a w2;
              Some (w3, None)
            }
          }))"

definition closePipe :: "ovpn_pipe \<times> world \<Rightarrow> (ovpn_pipe \<times> world) option" where
  "closePipe pw = (case pw of (p, w) \<Rightarrow>
     (if op_closed p then Some (p, w)
      else do { w' \<leftarrow> releaseAll (op_rx p) w; Some (p\<lparr>op_closed := True, op_rx := []\<rparr>, w') }))"

text \<open>The zero time takes the deadline away.\<close>

definition setReadDeadline :: "gotime \<Rightarrow> ovpn_pipe \<Rightarrow> ovpn_pipe" where
  "setReadDeadline t p = p\<lparr>op_deadline := (if t = zero_time then None else Some t)\<rparr>"

text \<open>A running component: its bind mode and its pipe, if it has one; its operations.\<close>

record ovpn =
  ov_native :: bool
  ov_pipe :: "ovpn_pipe option"

definition handlePacketOV :: "gotime \<Rightarrow> nat \<Rightarrow> ovpn \<times> world \<Rightarrow> ((ovpn \<times> world) \<times> pipe_error option) option" where
  "handlePacketOV now a ow = (case ow of (v, w) \<Rightarrow> do {
     ((v1, w1), err) \<leftarrow> (case ov_pipe v of
         None \<Rightarrow> Some ((v, w), Some (if ov_native v then NativeBind else NotRunning))
       | Some p \<Rightarrow> map_option (\<lambda>((p', w'), err). ((v\<lparr>ov_pipe := Some p'\<rparr>, w'), err)) (enqueuePipe now a (p, w)));
     w2 \<leftarrow> refRelease a w1;
     Some ((v1, w2), err)
   })"

definition closeRuntimeOV :: "ovpn \<times> world \<Rightarrow> (ovpn \<times> world) option" where
  "closeRuntimeOV ow = (case ow of (v, w) \<Rightarrow>
     (case ov_pipe v of None \<Rightarrow> Some (v, w)
      | Some p \<Rightarrow> do { (p', w') \<leftarrow> closePipe (p, w); Some (v\<lparr>ov_pipe := None\<rparr>, w') }))"

text \<open>What happens to a running component: packets arrive, the library reads, sets deadlines and closes the pipe, the component stops.\<close>

datatype ovpn_event = PacketIn nat gotime | ReadOne nat gotime | Deadline gotime | ClosePipe | StopIt

definition onPipe :: "(ovpn_pipe \<times> world \<Rightarrow> (ovpn_pipe \<times> world) option) \<Rightarrow> ovpn \<times> world \<Rightarrow> (ovpn \<times> world) option" where
  "onPipe f ow = (case ow of (v, w) \<Rightarrow> (case ov_pipe v of None \<Rightarrow> Some (v, w)
     | Some p \<Rightarrow> map_option (\<lambda>(p', w'). (v\<lparr>ov_pipe := Some p'\<rparr>, w')) (f (p, w))))"

fun ovpnStep :: "ovpn_event \<Rightarrow> ovpn \<times> world \<Rightarrow> (ovpn \<times> world) option" where
  "ovpnStep (PacketIn a now) ow = map_option fst (handlePacketOV now a ow)"
| "ovpnStep (ReadOne n now) ow = onPipe (\<lambda>pw. map_option fst (readFromPipe now n pw)) ow"
| "ovpnStep (Deadline t) ow = onPipe (\<lambda>(p, w). Some (setReadDeadline t p, w)) ow"
| "ovpnStep ClosePipe ow = onPipe closePipe ow"
| "ovpnStep StopIt ow = closeRuntimeOV ow"

fun packetsIn :: "ovpn_event \<Rightarrow> nat list" where
  "packetsIn (PacketIn a now) = [a]"
| "packetsIn _ = []"

definition pipeQueue :: "ovpn \<Rightarrow> nat list" where
  "pipeQueue v = (case ov_pipe v of None \<Rightarrow> [] | Some p \<Rightarrow> op_rx p)"

definition pipeBound :: "ovpn \<Rightarrow> nat" where
  "pipeBound v = (case ov_pipe v of None \<Rightarrow> 0 | Some p \<Rightarrow> op_cap p)"

abbreviation pipe_ok :: "(nat \<Rightarrow> nat) \<Rightarrow> ovpn_pipe \<Rightarrow> world \<Rightarrow> bool" where
  "pipe_ok X p w \<equiv> queue_ok X (op_cap p) (op_rx p) w"

lemma enqueuePipe_ok:
  assumes "pipe_ok X p w" "0 < X a"
  shows "\<exists>p' w' err. enqueuePipe now a (p, w) = Some ((p', w'), err) \<and> pipe_ok X p' w'"
proof -
  define p1 where "p1 = (if op_reuse p \<and> pk_srcTag (pkAt w a) \<noteq> []
    then p\<lparr>op_return := rememberReturnPath (pk_connID (pkAt w a)) (pk_srcTag (pkAt w a)) now (op_return p)\<rparr> else p)"
  have p1: "op_cap p1 = op_cap p" "op_rx p1 = op_rx p" by (simp_all add: p1_def)
  show ?thesis
    using queue_offer [OF assms] assms(1) p1 unfolding enqueuePipe_def prod.case Let_def p1_def [symmetric]
    by (auto split: if_splits)
qed

lemma readFromPipe_ok:
  assumes "pipe_ok X p w"
  shows "\<exists>p' w' res. readFromPipe now n (p, w) = Some ((p', w'), res) \<and> pipe_ok X p' w'"
proof (cases "op_rx p")
  case (Cons a rx)
  then show ?thesis using queue_take [of X "op_cap p" a rx w] assms by (auto simp: readFromPipe_def)
qed (use assms in \<open>auto simp: readFromPipe_def\<close>)

lemma closePipe_ok:
  assumes "pipe_ok X p w"
  shows "\<exists>p' w'. closePipe (p, w) = Some (p', w') \<and> pipe_ok X p' w' \<and> (op_closed p \<or> op_rx p' = [])"
  using queue_drain [OF assms] assms by (auto simp: closePipe_def)

lemma queue_ok_none: "queue_ok X cap [] w \<Longrightarrow> queue_ok X 0 [] w"
proof -
  assume q: "queue_ok X cap [] w"
  then have "X a + heldCount w a + cap + 1 < 2 ^ 31" for a by (simp add: queue_ok_def)
  then have "X a + heldCount w a + 0 + 1 < 2 ^ 31" for a by (meson add_le_mono le_less_trans le_refl zero_le)
  then show ?thesis using q by (simp add: queue_ok_def)
qed

lemma onPipe_ok:
  assumes "queue_ok X (pipeBound v) (pipeQueue v) w" "\<And>p. pipe_ok X p w \<Longrightarrow> \<exists>p' w'. f (p, w) = Some (p', w') \<and> pipe_ok X p' w'"
  shows "\<exists>v' w'. onPipe f (v, w) = Some (v', w') \<and> queue_ok X (pipeBound v') (pipeQueue v') w'"
proof (cases "ov_pipe v")
  case None
  then show ?thesis using assms(1) by (simp add: onPipe_def)
next
  case (Some p)
  then have "pipe_ok X p w" using assms(1) by (simp add: pipeBound_def pipeQueue_def)
  then show ?thesis using assms(2) [of p] Some by (auto simp: onPipe_def pipeBound_def pipeQueue_def)
qed

lemma handlePacketOV_ok:
  assumes "queue_ok X (pipeBound v) (pipeQueue v) w" "0 < X a"
  shows "\<exists>v' w' err. handlePacketOV now a (v, w) = Some ((v', w'), err) \<and> queue_ok (X(a := X a - 1)) (pipeBound v') (pipeQueue v') w'"
proof -
  have "\<exists>v1 w1 err. (case ov_pipe v of
         None \<Rightarrow> Some ((v, w), Some (if ov_native v then NativeBind else NotRunning))
       | Some p \<Rightarrow> map_option (\<lambda>((p', w'), err). ((v\<lparr>ov_pipe := Some p'\<rparr>, w'), err)) (enqueuePipe now a (p, w))) = Some ((v1, w1), err)
      \<and> queue_ok X (pipeBound v1) (pipeQueue v1) w1"
  proof (cases "ov_pipe v")
    case None
    then show ?thesis using assms(1) by simp
  next
    case (Some p)
    then have "pipe_ok X p w" using assms(1) by (simp add: pipeBound_def pipeQueue_def)
    then show ?thesis using enqueuePipe_ok [of X p w a now] assms(2) Some by (auto simp: pipeBound_def pipeQueue_def)
  qed
  then obtain v1 w1 err where e: "(case ov_pipe v of
         None \<Rightarrow> Some ((v, w), Some (if ov_native v then NativeBind else NotRunning))
       | Some p \<Rightarrow> map_option (\<lambda>((p', w'), err). ((v\<lparr>ov_pipe := Some p'\<rparr>, w'), err)) (enqueuePipe now a (p, w))) = Some ((v1, w1), err)"
    and q: "queue_ok X (pipeBound v1) (pipeQueue v1) w1" by blast
  show ?thesis using queue_release_caller [OF q assms(2)] unfolding handlePacketOV_def prod.case e by auto
qed

lemma closeRuntimeOV_ok:
  assumes "queue_ok X (pipeBound v) (pipeQueue v) w" "\<And>p. ov_pipe v = Some p \<Longrightarrow> op_closed p \<Longrightarrow> op_rx p = []"
  shows "\<exists>v' w'. closeRuntimeOV (v, w) = Some (v', w') \<and> queue_ok X (pipeBound v') (pipeQueue v') w'"
proof (cases "ov_pipe v")
  case None
  then show ?thesis using assms(1) by (simp add: closeRuntimeOV_def)
next
  case (Some p)
  then have p: "pipe_ok X p w" using assms(1) by (simp add: pipeBound_def pipeQueue_def)
  obtain p' w' where c: "closePipe (p, w) = Some (p', w')" "pipe_ok X p' w'" "op_closed p \<or> op_rx p' = []" using closePipe_ok [OF p] by blast
  have "op_rx p' = []" using c assms(2) [OF Some] by (auto simp: closePipe_def split: if_splits)
  then have "queue_ok X 0 [] w'" using c(2) queue_ok_none by auto
  then show ?thesis using c(1) Some by (simp add: closeRuntimeOV_def pipeBound_def pipeQueue_def)
qed

text \<open>A closed pipe is empty.\<close>

definition pipe_sane :: "ovpn \<Rightarrow> bool" where
  "pipe_sane v \<longleftrightarrow> (case ov_pipe v of None \<Rightarrow> True | Some p \<Rightarrow> op_closed p \<longrightarrow> op_rx p = [])"

lemma ovpnStep_sane:
  assumes "pipe_sane v" "ovpnStep ev (v, w) = Some (v', w')"
  shows "pipe_sane v'"
proof (cases "ov_pipe v")
  case None
  then show ?thesis using assms
    by (cases ev) (auto simp: pipe_sane_def onPipe_def handlePacketOV_def closeRuntimeOV_def option_bind_eq_Some)
next
  case (Some p)
  then show ?thesis using assms
    by (cases ev) (auto simp: pipe_sane_def onPipe_def handlePacketOV_def closeRuntimeOV_def option_bind_eq_Some enqueuePipe_def
        readFromPipe_def closePipe_def setReadDeadline_def Let_def split: if_splits list.splits)
qed

lemma ovpnStep_ok:
  assumes "queue_ok X (pipeBound v) (pipeQueue v) w" "pipe_sane v" "\<forall>a. count_list (packetsIn ev) a \<le> X a"
  shows "\<exists>v' w'. ovpnStep ev (v, w) = Some (v', w')
    \<and> queue_ok (\<lambda>a. X a - count_list (packetsIn ev) a) (pipeBound v') (pipeQueue v') w' \<and> pipe_sane v'"
proof -
  have "\<exists>v' w'. ovpnStep ev (v, w) = Some (v', w') \<and> queue_ok (\<lambda>a. X a - count_list (packetsIn ev) a) (pipeBound v') (pipeQueue v') w'"
  proof (cases ev)
    case (PacketIn a now)
    have "(\<lambda>b. X b - count_list (packetsIn ev) b) = X(a := X a - 1)" by (auto simp: PacketIn fun_eq_iff)
    moreover have "0 < X a" using assms(3) [rule_format, of a] PacketIn by simp
    ultimately show ?thesis using handlePacketOV_ok [OF assms(1), of a now] PacketIn by auto
  next
    case (ReadOne n now)
    have "\<exists>v' w'. onPipe (\<lambda>pw. map_option fst (readFromPipe now n pw)) (v, w) = Some (v', w') \<and> queue_ok X (pipeBound v') (pipeQueue v') w'"
      by (rule onPipe_ok [OF assms(1)]) (use readFromPipe_ok in fastforce)
    then show ?thesis using ReadOne by simp
  next
    case (Deadline t)
    have "\<exists>v' w'. onPipe (\<lambda>(p, w). Some (setReadDeadline t p, w)) (v, w) = Some (v', w') \<and> queue_ok X (pipeBound v') (pipeQueue v') w'"
      by (rule onPipe_ok [OF assms(1)]) (simp add: setReadDeadline_def)
    then show ?thesis using Deadline by simp
  next
    case ClosePipe
    have "\<exists>v' w'. onPipe closePipe (v, w) = Some (v', w') \<and> queue_ok X (pipeBound v') (pipeQueue v') w'"
      by (rule onPipe_ok [OF assms(1)]) (use closePipe_ok in blast)
    then show ?thesis using ClosePipe by simp
  next
    case StopIt
    moreover have "op_rx p = []" if "ov_pipe v = Some p" "op_closed p" for p using assms(2) that by (simp add: pipe_sane_def)
    ultimately show ?thesis using closeRuntimeOV_ok [OF assms(1)] by simp
  qed
  then show ?thesis using ovpnStep_sane [OF assms(2)] by blast
qed

interpretation ovpn_pipe: packet_bind ovpnStep pipeQueue pipeBound packetsIn "\<lambda>ev. True" pipe_sane
  by unfold_locales (rule ovpnStep_ok)

section \<open>Where replies go\<close>

text \<open>Packets from connections, with the component they came through and the time, and the table after them.\<close>

fun remembered :: "(conn_id \<times> string \<times> gotime) list \<Rightarrow> return_table \<Rightarrow> return_table" where
  "remembered [] m = m"
| "remembered ((cid, tag, now) # evs) m = remembered evs (rememberReturnPath cid tag now m)"

text \<open>The reference: the latest packet of a connection.\<close>

definition lastSeen :: "(conn_id \<times> string \<times> gotime) list \<Rightarrow> conn_id \<Rightarrow> (string \<times> gotime) option" where
  "lastSeen evs cid = map_of (rev evs) cid"

text \<open>
  The table has the latest component of a connection, and a time within a second of its latest packet; it
  forgets only what is old.
\<close>

definition return_ok :: "(conn_id \<Rightarrow> (string \<times> gotime) option) \<Rightarrow> gotime \<Rightarrow> return_table \<Rightarrow> bool" where
  "return_ok seen now m \<longleftrightarrow> distinct (map fst m)
     \<and> (\<forall>cid tag s. map_of m cid = Some (tag, s) \<longrightarrow> (\<exists>t. seen cid = Some (tag, t) \<and> s \<le> t \<and> t \<le> now \<and> t - s < ns_second))
     \<and> (\<forall>cid tag t. map_of m cid = None \<longrightarrow> seen cid = Some (tag, t) \<longrightarrow> t \<le> now \<and> 10 * ns_minute - ns_second < now - t)"

lemma return_okD:
  assumes "return_ok seen now m"
  shows "distinct (map fst m)"
    and "map_of m cid = Some (tag, s) \<Longrightarrow> \<exists>t. seen cid = Some (tag, t) \<and> s \<le> t \<and> t \<le> now \<and> t - s < ns_second"
    and "map_of m cid = None \<Longrightarrow> seen cid = Some (tag, t) \<Longrightarrow> t \<le> now \<and> 10 * ns_minute - ns_second < now - t"
  using assms unfolding return_ok_def by blast+

lemma return_okI:
  assumes "distinct (map fst m)"
    and "\<And>cid tag s. map_of m cid = Some (tag, s) \<Longrightarrow> \<exists>t. seen cid = Some (tag, t) \<and> s \<le> t \<and> t \<le> now \<and> t - s < ns_second"
    and "\<And>cid tag t. map_of m cid = None \<Longrightarrow> seen cid = Some (tag, t) \<Longrightarrow> t \<le> now \<and> 10 * ns_minute - ns_second < now - t"
  shows "return_ok seen now m"
  unfolding return_ok_def using assms by blast

lemma return_ok_later: "return_ok seen now m \<Longrightarrow> now \<le> now' \<Longrightarrow> return_ok seen now' m"
proof -
  assume r: "return_ok seen now m" and l: "now \<le> now'"
  show ?thesis
  proof (rule return_okI)
    show "distinct (map fst m)" by (rule return_okD(1) [OF r])
  next
    show "\<exists>t. seen cid = Some (tag, t) \<and> s \<le> t \<and> t \<le> now' \<and> t - s < ns_second" if "map_of m cid = Some (tag, s)" for cid tag s
      using return_okD(2) [OF r that] l by auto
  next
    show "t \<le> now' \<and> 10 * ns_minute - ns_second < now' - t" if "map_of m cid = None" "seen cid = Some (tag, t)" for cid tag t
      using return_okD(3) [OF r that] l by simp
  qed
qed

lemma return_ok_cleared:
  assumes "return_ok seen now m"
  shows "return_ok seen now (filter (\<lambda>(i, t, s). \<not> 10 * ns_minute < time_sub now s) m)"
proof -
  define P where "P = (\<lambda>e :: string \<times> gotime. \<not> 10 * ns_minute < time_sub now (snd e))"
  have f: "filter (\<lambda>(i, t, s). \<not> 10 * ns_minute < time_sub now s) m = filter (\<lambda>e. P (snd e)) m"
    by (rule filter_cong) (auto simp: P_def)
  have m: "map_of (filter (\<lambda>e. P (snd e)) m) cid = (case map_of m cid of Some v \<Rightarrow> if P v then Some v else None | None \<Rightarrow> None)" for cid
    by (rule map_of_filter_snd [OF return_okD(1) [OF assms]])
  have old: "P (tag, s) \<longleftrightarrow> now - s \<le> 10 * ns_minute" for tag s
    using time_sub_le_iff [of "10 * ns_minute" now s] by (auto simp: P_def ns_minute_def min_i64_def max_i64_def)
  show ?thesis unfolding f
  proof (rule return_okI)
    show "distinct (map fst (filter (\<lambda>e. P (snd e)) m))"
      using return_okD(1) [OF assms] by (rule distinct_map_filter)
  next
    fix cid tag s
    assume "map_of (filter (\<lambda>e. P (snd e)) m) cid = Some (tag, s)"
    then have "map_of m cid = Some (tag, s)" unfolding m by (cases "map_of m cid") (simp_all split: if_splits)
    then show "\<exists>t. seen cid = Some (tag, t) \<and> s \<le> t \<and> t \<le> now \<and> t - s < ns_second" by (rule return_okD(2) [OF assms])
  next
    fix cid tag t
    assume n: "map_of (filter (\<lambda>e. P (snd e)) m) cid = None" and t: "seen cid = Some (tag, t)"
    show "t \<le> now \<and> 10 * ns_minute - ns_second < now - t"
    proof (cases "map_of m cid")
      case None
      then show ?thesis using return_okD(3) [OF assms _ t] by blast
    next
      case (Some e)
      obtain tag' s where e: "e = (tag', s)" by (cases e)
      then have "\<not> P (tag', s)" using n Some unfolding m by (simp split: if_splits)
      then have "10 * ns_minute < now - s" unfolding old by simp
      moreover obtain t' where "seen cid = Some (tag', t')" "t' \<le> now" "t' - s < ns_second"
        using return_okD(2) [OF assms, of cid tag' s] Some e by blast
      ultimately show ?thesis using t by simp
    qed
  qed
qed

lemma return_ok_remember:
  assumes "return_ok seen now m"
  shows "return_ok (seen(cid \<mapsto> (tag, now))) now (rememberReturnPath cid tag now m)"
proof -
  define m1 where "m1 = (if 4096 \<le> length m then filter (\<lambda>(i, t, s). \<not> 10 * ns_minute < time_sub now s) m else m)"
  have m1: "return_ok seen now m1" using assms return_ok_cleared by (simp add: m1_def)
  have u: "map_of (AList.update cid (tag, now) m1) c = (if c = cid then Some (tag, now) else map_of m1 c)" for c
    by (simp add: AList.update_conv')
  have upd: "return_ok (seen(cid \<mapsto> (tag, now))) now (AList.update cid (tag, now) m1)"
  proof (rule return_okI)
    show "distinct (map fst (AList.update cid (tag, now) m1))" using return_okD(1) [OF m1] by (simp add: distinct_update)
  next
    show "\<exists>t. (seen(cid \<mapsto> (tag, now))) c = Some (tag', t) \<and> s \<le> t \<and> t \<le> now \<and> t - s < ns_second"
      if "map_of (AList.update cid (tag, now) m1) c = Some (tag', s)" for c tag' s
      using that return_okD(2) [OF m1, of c tag' s] unfolding u by (cases "c = cid") (auto simp: ns_second_def)
  next
    show "t \<le> now \<and> 10 * ns_minute - ns_second < now - t"
      if "map_of (AList.update cid (tag, now) m1) c = None" "(seen(cid \<mapsto> (tag, now))) c = Some (tag', t)" for c tag' t
      using that return_okD(3) [OF m1, of c tag' t] unfolding u by (auto split: if_splits)
  qed
  have skip: "return_ok (seen(cid \<mapsto> (tag, now))) now m"
    if "map_of m cid = Some (tag, s)" "time_sub now s < ns_second" for s
  proof (rule return_okI)
    show "distinct (map fst m)" by (rule return_okD(1) [OF assms])
  next
    have "now - s < ns_second" using that(2) time_sub_less_iff [of ns_second now s] by (simp add: ns_second_def min_i64_def max_i64_def)
    moreover have "s \<le> now" using return_okD(2) [OF assms that(1)] by auto
    ultimately show "\<exists>t. (seen(cid \<mapsto> (tag, now))) c = Some (tag', t) \<and> s' \<le> t \<and> t \<le> now \<and> t - s' < ns_second"
      if "map_of m c = Some (tag', s')" for c tag' s'
      using return_okD(2) [OF assms that] \<open>map_of m cid = Some (tag, s)\<close> that by (cases "c = cid") auto
  next
    show "t \<le> now \<and> 10 * ns_minute - ns_second < now - t"
      if "map_of m c = None" "(seen(cid \<mapsto> (tag, now))) c = Some (tag', t)" for c tag' t
      using return_okD(3) [OF assms that(1)] that \<open>map_of m cid = Some (tag, s)\<close> by (auto split: if_splits)
  qed
  have "rememberReturnPath cid tag now m = (case map_of m cid of
      Some (t, s) \<Rightarrow> if t = tag \<and> time_sub now s < ns_second then m else AList.update cid (tag, now) m1
    | None \<Rightarrow> AList.update cid (tag, now) m1)"
    by (simp only: rememberReturnPath_def Let_def m1_def)
  then show ?thesis using upd skip by (auto split: option.split)
qed

lemma lastSeen_snoc: "lastSeen (evs @ [(cid, tag, now)]) = (lastSeen evs)(cid \<mapsto> (tag, now))"
  by (simp add: lastSeen_def fun_eq_iff)

lemma remembered_ok:
  "sorted (now # map (\<lambda>e. snd (snd e)) evs) \<Longrightarrow> return_ok (lastSeen before) now m \<Longrightarrow>
    return_ok (lastSeen (before @ evs)) (last (now # map (\<lambda>e. snd (snd e)) evs)) (remembered evs m)"
proof (induction evs arbitrary: now before m)
  case (Cons e evs)
  obtain cid tag t where e: "e = (cid, tag, t)" by (cases e)
  have "return_ok (lastSeen before) t m" using Cons(2,3) return_ok_later e by auto
  then have "return_ok (lastSeen (before @ [e])) t (rememberReturnPath cid tag t m)"
    using return_ok_remember by (simp add: e lastSeen_snoc)
  then show ?case using Cons(1) [of t "before @ [e]"] Cons(2) by (simp add: e)
qed simp

text \<open>What a packet does to the table.\<close>

lemma enqueuePipe_return:
  assumes "enqueuePipe now a (p, w) = Some ((p', w'), err)"
  shows "op_return p' = remembered (if pk_connID (pkAt w a) = 0 \<or> \<not> op_reuse p \<or> pk_srcTag (pkAt w a) = [] then []
    else [(pk_connID (pkAt w a), pk_srcTag (pkAt w a), now)]) (op_return p)"
  using assms by (auto simp: enqueuePipe_def Let_def option_bind_eq_Some split: if_splits)

section \<open>Accepted configurations\<close>

text \<open>The account of a user: the last one in the list.\<close>

fun account :: "ovpn_user list \<Rightarrow> string \<Rightarrow> string option" where
  "account [] name = None"
| "account (u # us) name = (case account us name of Some p \<Rightarrow> Some p
     | None \<Rightarrow> if name = ou_username u then Some (ou_password u) else None)"

lemma map_of_accounts: "map_of (rev (map (\<lambda>u. (ou_username u, ou_password u)) users)) name = account users name"
  by (induction users) (auto simp: map_add_def split: option.split)

lemma openVPNAuthenticator_account:
  "openVPNAuthenticator users = Some auth \<Longrightarrow> auth name pass \<longleftrightarrow> account users name = Some pass"
  unfolding openVPNAuthenticator_def map_of_accounts by (cases "account users name") (auto split: if_splits)

lemma parsePools_ok:
  "parsePools L has4 has6 raws = Inr (ps, v6) \<Longrightarrow>
    list_all2 (\<lambda>raw p. ol_prefix L (trimSpace raw) = Some p) raws ps
    \<and> length (filter (\<lambda>p. length (fst p) = 4) ps) \<le> (if has4 then 0 else 1)
    \<and> length (filter (\<lambda>p. length (fst p) \<noteq> 4) ps) \<le> (if has6 then 0 else 1)
    \<and> (v6 \<longleftrightarrow> has6 \<or> (\<exists>p\<in>set ps. length (fst p) \<noteq> 4))"
proof (induction L has4 has6 raws arbitrary: ps v6 rule: parsePools.induct)
  case (2 L has4 has6 raw raws)
  from 2(2) obtain p where p: "ol_prefix L (trimSpace raw) = Some p" by (auto split: option.splits)
  from 2(2) have n: "\<not> (length (fst p) = 4 \<and> has4)" "\<not> (length (fst p) \<noteq> 4 \<and> has6)" by (auto simp: p split: if_splits)
  from 2(2) obtain ps' where ps: "parsePools L (has4 \<or> length (fst p) = 4) (has6 \<or> length (fst p) \<noteq> 4) raws = Inr (ps', v6)" "ps = p # ps'"
    using n by (auto simp: p split: sum.splits if_splits)
  show ?case using 2(1) [OF p n ps(1)] n p by (auto simp: ps(2))
qed auto

lemma parseAll_ok: "parseAll f e raws = Inr xs \<Longrightarrow> list_all2 (\<lambda>raw x. f (trimSpace raw) = Some x) raws xs"
  by (induction raws arbitrary: xs) (auto split: option.splits sum.splits)

lemma verifyMode_ok:
  assumes "verifyMode c = Inr v"
  shows "(v \<in> {[], ''require''} \<and> trimSpace (oc_ca c) \<noteq> []) \<or> (v = ''none'' \<and> oc_users c \<noteq> [])
    \<or> (v = trimSpace (oc_verify c) \<and> v \<in> {''optional'', ''none''})"
  using assms by (auto simp: verifyMode_def Let_def split: if_splits)

lemma buildOptions_Inr:
  assumes "buildOpenVPNServerOptions L c proto mtu = Inr so"
  shows "\<exists>pools v6 v dir rts dns. so = serverOptions c proto mtu pools v6 v dir rts dns
    \<and> oc_addresses c \<noteq> [] \<and> parsePools L False False (oc_addresses c) = Inr (pools, v6)
    \<and> ol_isSet L (openVPNMaterial (oc_cert c)) \<and> ol_isSet L (openVPNMaterial (oc_key c))
    \<and> verifyMode c = Inr v \<and> keyDirection c = Inr dir \<and> wrapCount c \<le> 1
    \<and> parseAll (ol_prefix L) BadPushRoute (oc_pushRoutes c) = Inr rts \<and> parseAll (ol_addr L) BadPushDNS (oc_pushDNS c) = Inr dns"
  using assms unfolding buildOpenVPNServerOptions_def
  by (auto split: if_splits sum.splits prod.splits)

section \<open>The queues of the clients\<close>

text \<open>
  The packets for a client wait in batches for the goroutine that encrypts and sends them. \<open>'b\<close> is a buffer of the library. A writer
  checks whether the queue is closed and then, in a second step, puts its batch in; \<open>oq_pending\<close> are the batches between
  the two, \<open>oq_phase\<close> is where the goroutine is. What was written and what was released are recorded.
\<close>

datatype run_phase = Running | Draining | Returned

record 'b out_queue =
  oq_batches :: "'b list list"
  oq_pending :: "'b list list"
  oq_done :: bool
  oq_phase :: run_phase
  oq_written :: "'b list list"
  oq_released :: "'b list"
  oq_tx :: "64 word"
  oq_dropped :: "64 word"
  oq_active :: "64 word"

definition openVPNOutboundQueueSize :: nat where
  "openVPNOutboundQueueSize = 256"

definition newOutboundQueue :: "64 word \<Rightarrow> 'b out_queue" where
  "newOutboundQueue active = \<lparr>oq_batches = [], oq_pending = [], oq_done = False, oq_phase = Running, oq_written = [], oq_released = [],
     oq_tx = 0, oq_dropped = 0, oq_active = active + 1\<rparr>"

definition writeCheck :: "'b list \<Rightarrow> 'b out_queue \<Rightarrow> 'b out_queue" where
  "writeCheck b q = (if oq_done q then q\<lparr>oq_released := oq_released q @ b\<rparr> else q\<lparr>oq_pending := oq_pending q @ [b]\<rparr>)"

definition writePush :: "'b list \<Rightarrow> 'b out_queue \<Rightarrow> 'b out_queue" where
  "writePush b q =
     (if length (oq_batches q) < openVPNOutboundQueueSize
      then q\<lparr>oq_pending := remove1 b (oq_pending q), oq_batches := oq_batches q @ [b]\<rparr>
      else q\<lparr>oq_pending := remove1 b (oq_pending q), oq_dropped := oq_dropped q + of_nat (length b), oq_released := oq_released q @ b\<rparr>)"

definition writeBuffers :: "'b list \<Rightarrow> 'b out_queue \<Rightarrow> 'b out_queue" where
  "writeBuffers b q = (let q1 = writeCheck b q in if oq_done q then q1 else writePush b q1)"

definition runWrite :: "'b out_queue \<Rightarrow> 'b out_queue" where
  "runWrite q = (case oq_batches q of [] \<Rightarrow> q
     | b # bs \<Rightarrow> q\<lparr>oq_batches := bs, oq_tx := oq_tx q + of_nat (length b), oq_written := oq_written q @ [b]\<rparr>)"

definition runDrain :: "'b out_queue \<Rightarrow> 'b out_queue" where
  "runDrain q = (case oq_batches q of [] \<Rightarrow> q\<lparr>oq_phase := Returned\<rparr>
     | b # bs \<Rightarrow> q\<lparr>oq_batches := bs, oq_released := oq_released q @ b\<rparr>)"

definition closeQueue :: "'b out_queue \<Rightarrow> 'b out_queue" where
  "closeQueue q = (if oq_done q then q else q\<lparr>oq_done := True, oq_active := oq_active q - 1\<rparr>)"

text \<open>The queues that can be reached, with the batches they were given: writers, the goroutine and \<open>Close\<close> interleave freely.\<close>

inductive oq_run :: "64 word \<Rightarrow> 'b list list \<Rightarrow> 'b out_queue \<Rightarrow> bool" for active where
  new: "oq_run active [] (newOutboundQueue active)"
| given: "oq_run active gs q \<Longrightarrow> oq_run active (gs @ [b]) (writeCheck b q)"
| push: "oq_run active gs q \<Longrightarrow> b \<in> set (oq_pending q) \<Longrightarrow> oq_run active gs (writePush b q)"
| sent: "oq_run active gs q \<Longrightarrow> oq_phase q = Running \<Longrightarrow> oq_batches q \<noteq> [] \<Longrightarrow> oq_run active gs (runWrite q)"
| stop: "oq_run active gs q \<Longrightarrow> oq_phase q = Running \<Longrightarrow> oq_done q \<Longrightarrow> oq_run active gs (q\<lparr>oq_phase := Draining\<rparr>)"
| drain: "oq_run active gs q \<Longrightarrow> oq_phase q = Draining \<Longrightarrow> oq_run active gs (runDrain q)"
| close: "oq_run active gs q \<Longrightarrow> oq_run active gs (closeQueue q)"

definition queue_accounts :: "64 word \<Rightarrow> 'b list list \<Rightarrow> 'b out_queue \<Rightarrow> bool" where
  "queue_accounts active gs q \<longleftrightarrow>
     mset (concat gs) = mset (concat (oq_written q)) + mset (oq_released q) + mset (concat (oq_batches q)) + mset (concat (oq_pending q))
     \<and> length (oq_batches q) \<le> openVPNOutboundQueueSize \<and> oq_tx q = of_nat (length (concat (oq_written q)))
     \<and> oq_active q = (if oq_done q then active else active + 1) \<and> (oq_phase q \<noteq> Running \<longrightarrow> oq_done q)"

lemma mset_concat_remove1: "b \<in> set bs \<Longrightarrow> mset (concat bs) = mset b + mset (concat (remove1 b bs))"
  by (induction bs) auto

lemma queue_accounts_push:
  assumes "queue_accounts active gs q" "b \<in> set (oq_pending q)"
  shows "queue_accounts active gs (writePush b q)"
  using assms(1) mset_concat_remove1 [OF assms(2)] by (simp add: queue_accounts_def writePush_def ac_simps)

lemma oq_run_accounts: "oq_run active gs q \<Longrightarrow> queue_accounts active gs q"
proof (induction rule: oq_run.induct)
  case (push gs q b)
  then show ?case by (rule_tac queue_accounts_push)
next
  case (sent gs q)
  then show ?case by (cases "oq_batches q") (simp_all add: queue_accounts_def runWrite_def ac_simps)
next
  case (drain gs q)
  then show ?case by (cases "oq_batches q") (simp_all add: queue_accounts_def runDrain_def ac_simps)
qed (auto simp: queue_accounts_def newOutboundQueue_def writeCheck_def closeQueue_def ac_simps)

section \<open>Between the server and the interface\<close>

text \<open>
  A buffer of the library: the bytes in front of its data, and its data. \<open>fresh\<close> are the bytes of a new one. The interface is
  given each packet behind the room it needs, which it must skip.
\<close>

definition openVPNTunOffset :: nat where
  "openVPNTunOffset = 16"

record ovpn_buf =
  ob_room :: bytes
  ob_data :: bytes

definition withRoom :: "bytes \<Rightarrow> ovpn_buf \<Rightarrow> ovpn_buf" where
  "withRoom fresh b = (if length (ob_room b) < openVPNTunOffset then \<lparr>ob_room = fresh, ob_data = ob_data b\<rparr> else b)"

definition extendHeader :: "nat \<Rightarrow> ovpn_buf \<Rightarrow> ovpn_buf" where
  "extendHeader n b = \<lparr>ob_room = take (length (ob_room b) - n) (ob_room b), ob_data = drop (length (ob_room b) - n) (ob_room b) @ ob_data b\<rparr>"

definition tunWrites :: "bytes \<Rightarrow> ovpn_buf list \<Rightarrow> bytes list" where
  "tunWrites fresh bs = map (\<lambda>b. ob_data (extendHeader openVPNTunOffset (withRoom fresh b))) bs"

lemma tunWrites_data:
  "length fresh = openVPNTunOffset \<Longrightarrow> map (drop openVPNTunOffset) (tunWrites fresh bs) = map ob_data bs"
  by (auto simp: tunWrites_def extendHeader_def withRoom_def)

text \<open>The packets of one read of the interface, out of the buffers it filled, with their sizes.\<close>

definition tunPackets :: "(bytes \<times> int) list \<Rightarrow> bytes list option" where
  "tunPackets rs = those (map (\<lambda>(b, n). map_option sl_data (sl_range (full_slice b) (int openVPNTunOffset) (int openVPNTunOffset + n))) rs)"

text \<open>One round of each loop: \<open>wrote\<close> is whether the interface took the packets, \<open>misses\<close> how many had no client.\<close>

definition serverToTun :: "bytes \<Rightarrow> bool \<Rightarrow> ovpn_buf list \<Rightarrow> 64 word \<Rightarrow> bytes list \<times> 64 word" where
  "serverToTun fresh wrote bs rx = (tunWrites fresh bs, if wrote then rx + of_nat (length bs) else rx)"

definition tunToServer :: "(bytes list \<Rightarrow> nat) \<Rightarrow> (bytes \<times> int) list \<Rightarrow> 64 word \<Rightarrow> (bytes list \<times> 64 word) option" where
  "tunToServer misses rs n = do { ps \<leftarrow> tunPackets rs; Some (ps, n + of_nat (misses ps)) }"

section \<open>Properties\<close>

text \<open>C19. Replies follow the client. For a component that reuses incoming paths, the reply to a connection goes to the component
  its latest packet came through, never to an earlier one, however often the connection changed and whenever the table was cleared. Only
  a connection that was silent for almost ten minutes may be forgotten, whose replies take the configured path, as those of one never seen.\<close>

theorem openvpn_replies_follow_client:
  assumes "op_reuse p" "op_return p = remembered evs []" "sorted (map (\<lambda>e. snd (snd e)) evs)"
  shows "case lastSeen evs cid of
      None \<Rightarrow> returnPath p cid = op_detour p
    | Some (tag, t) \<Rightarrow> returnPath p cid = [tag]
        \<or> returnPath p cid = op_detour p \<and> 10 * ns_minute - ns_second < snd (snd (last evs)) - t"
proof -
  let ?now = "if evs = [] then 0 else snd (snd (hd evs))"
  have s: "sorted (?now # map (\<lambda>e. snd (snd e)) evs)" using assms(3) by (cases evs) auto
  have "return_ok (lastSeen []) ?now []" by (rule return_okI) (simp_all add: lastSeen_def)
  from remembered_ok [OF s this]
  have r: "return_ok (lastSeen evs) (last (?now # map (\<lambda>e. snd (snd e)) evs)) (op_return p)" by (simp add: assms(2))
  have l: "last (?now # map (\<lambda>e. snd (snd e)) evs) = snd (snd (last evs))" if "evs \<noteq> []" using that by (simp add: last_map)
  show ?thesis
  proof (cases "map_of (op_return p) cid")
    case None
    then have d: "returnPath p cid = op_detour p" by (simp add: returnPath_def)
    have "10 * ns_minute - ns_second < snd (snd (last evs)) - t" if "lastSeen evs cid = Some (tag, t)" for tag t
      using return_okD(3) [OF r None that] l that by (cases "evs = []") (auto simp: lastSeen_def)
    then show ?thesis using d by (auto split: option.split)
  next
    case (Some e)
    obtain tag s where e: "e = (tag, s)" by (cases e)
    obtain t where "lastSeen evs cid = Some (tag, t)" using return_okD(2) [OF r Some [unfolded e]] by blast
    then show ?thesis using assms(1) Some e by (simp add: returnPath_def)
  qed
qed

definition demoPipe :: ovpn_pipe where
  "demoPipe = \<lparr>op_tag = ''ovpn'', op_reuse = True, op_detour = [''out''], op_cap = 2, op_rx = [], op_closed = False,
     op_deadline = None, op_return = []\<rparr>"

theorem openvpn_replies_follow_client_witness:
  "let p = demoPipe\<lparr>op_return := remembered [(7, ''wg'', 0), (8, ''udp'', 5), (7, ''tcp'', 10)] []\<rparr>
   in returnPath p 7 = [''tcp''] \<and> returnPath p 9 = [''out'']"
proof -
  let ?evs = "[(7, ''wg'', 0), (8, ''udp'', 5), (7, ''tcp'', 10)] :: (conn_id \<times> string \<times> gotime) list"
  let ?p = "demoPipe\<lparr>op_return := remembered ?evs []\<rparr>"
  have p: "op_reuse ?p" "op_return ?p = remembered ?evs []" "sorted (map (\<lambda>e. snd (snd e)) ?evs)" by (simp_all add: demoPipe_def)
  from openvpn_replies_follow_client [OF p, of 7] have "returnPath ?p 7 = [''tcp'']"
    by (auto simp: lastSeen_def ns_minute_def ns_second_def)
  moreover from openvpn_replies_follow_client [OF p, of 9] have "returnPath ?p 9 = [''out'']"
    by (simp add: lastSeen_def demoPipe_def)
  ultimately show ?thesis by (simp add: Let_def)
qed

text \<open>The pipe never panics, loses no packet and releases none twice. Whatever arrives, whatever the library reads and whenever the
  pipe or the component is closed, each packet's count is the number of its references, one per
  owner and one per place in the queue, which stays within its bound; a stopped component holds none.\<close>

theorem openvpn_pipe_accounts_for_packets:
  assumes "refs_inv (\<lambda>a. X a + count_list (pipeQueue v) a) w" "length (pipeQueue v) \<le> pipeBound v" "pipe_sane v"
    and "\<forall>a. X a + heldCount w a + pipeBound v + 1 < 2 ^ 31" "\<forall>a. count_list (concat (map packetsIn evs)) a \<le> X a"
  shows "\<exists>v' w'. runSteps ovpnStep evs (v, w) = Some (v', w') \<and> length (pipeQueue v') \<le> pipeBound v'
    \<and> refs_inv (\<lambda>a. X a - count_list (concat (map packetsIn evs)) a + count_list (pipeQueue v') a) w'"
proof -
  have "queue_ok X (pipeBound v) (pipeQueue v) w" using assms(1,2,4) by (simp add: queue_ok_def owners_eq)
  then show ?thesis using ovpn_pipe.run_references assms(3,5) by (simp add: list_all_iff)
qed

theorem openvpn_pipe_accounts_for_packets_witness:
  "\<exists>v' w'. runSteps ovpnStep [PacketIn 0 5, ReadOne 100 6, ClosePipe, StopIt] (\<lparr>ov_native = False, ov_pipe = Some demoPipe\<rparr>, demoWorld []) = Some (v', w')
    \<and> length (pipeQueue v') \<le> pipeBound v'"
proof -
  let ?X = "\<lambda>a. if a = 0 then 1 else 0 :: nat"
  let ?v = "\<lparr>ov_native = False, ov_pipe = Some demoPipe\<rparr>"
  let ?evs = "[PacketIn 0 5, ReadOne 100 6, ClosePipe, StopIt]"
  have x: "((\<lambda>_. 0)(0 := 1)) = ?X" by auto
  have r: "refs_inv (\<lambda>a. ?X a + count_list (pipeQueue ?v) a) (demoWorld [])"
    using demoWorld_ok(1) [of "[]"] unfolding x by (simp add: demoPipe_def pipeQueue_def)
  have h: "\<forall>a. ?X a + heldCount (demoWorld []) a + pipeBound ?v + 1 < 2 ^ 31"
    by (simp add: demoPipe_def pipeBound_def heldCount_def demoWorld_def)
  have c: "length (pipeQueue ?v) \<le> pipeBound ?v" "pipe_sane ?v" "\<forall>a. count_list (concat (map packetsIn ?evs)) a \<le> ?X a"
    by (simp_all add: demoPipe_def pipeQueue_def pipeBound_def pipe_sane_def)
  from openvpn_pipe_accounts_for_packets [OF r c(1,2) h c(3)] show ?thesis by blast
qed

text \<open>C18. Whom an accepted configuration lets in. Unless it says \<open>none\<close> or \<open>optional\<close> itself, the server
  asks every client for a certificate of the configured authority, or for the password of an account, the last one of that name; leaving the
  authority out never opens the server. The pools are the configured addresses, at most one of each family, the
  keys for the control channel are of at most one kind, and the server waits twice the time it pushes to its clients.\<close>

theorem openvpn_options_sound:
  assumes "buildOpenVPNServerOptions L c proto mtu = Inr so"
  shows "(so_verify so \<in> {[], ''require''} \<and> so_remoteTLS so = ''client'' \<and> trimSpace (oc_ca c) \<noteq> []
      \<or> (\<exists>auth. so_authenticator so = Some auth \<and> (\<forall>name pass. auth name pass = (account (oc_users c) name = Some pass)))
      \<or> so_verify so = trimSpace (oc_verify c) \<and> so_verify so \<in> {''optional'', ''none''})
    \<and> so_pools so \<noteq> [] \<and> list_all2 (\<lambda>raw p. ol_prefix L (trimSpace raw) = Some p) (oc_addresses c) (so_pools so)
    \<and> length (filter (\<lambda>p. length (fst p) = 4) (so_pools so)) \<le> 1 \<and> length (filter (\<lambda>p. length (fst p) \<noteq> 4) (so_pools so)) \<le> 1
    \<and> length (filter (\<lambda>m. m \<noteq> None) [so_tlsAuth so, so_tlsCrypt so, so_tlsCryptV2 so]) \<le> 1
    \<and> so_keyDirection so \<in> {- 1, 0, 1} \<and> (so_keyDirection so = - 1 \<or> so_tlsAuth so \<noteq> None)
    \<and> (oc_keepaliveTimeout c \<le> 10 ^ 9 \<longrightarrow> so_pingRestart so = 2 * so_pushPingRestart so)"
proof -
  obtain pools v6 v dir rts dns where so: "so = serverOptions c proto mtu pools v6 v dir rts dns"
    and a: "oc_addresses c \<noteq> []" and p: "parsePools L False False (oc_addresses c) = Inr (pools, v6)"
    and v: "verifyMode c = Inr v" and d: "keyDirection c = Inr dir" and n: "wrapCount c \<le> 1"
    using buildOptions_Inr [OF assms] by blast
  note f = so serverOptions_def Let_def
  have auth: "\<exists>auth. so_authenticator so = Some auth \<and> (\<forall>name pass. auth name pass = (account (oc_users c) name = Some pass))"
    if "oc_users c \<noteq> []"
  proof -
    have "openVPNAuthenticator (oc_users c) \<noteq> None" using that by (simp add: openVPNAuthenticator_def)
    then show ?thesis using openVPNAuthenticator_account by (auto simp: f)
  qed
  have "so_verify so = v" "so_remoteTLS so = (if v \<noteq> ''none'' then ''client'' else [])" by (simp_all add: f)
  then have "so_verify so \<in> {[], ''require''} \<and> so_remoteTLS so = ''client'' \<and> trimSpace (oc_ca c) \<noteq> []
      \<or> (\<exists>auth. so_authenticator so = Some auth \<and> (\<forall>name pass. auth name pass = (account (oc_users c) name = Some pass)))
      \<or> so_verify so = trimSpace (oc_verify c) \<and> so_verify so \<in> {''optional'', ''none''}"
    using verifyMode_ok [OF v] auth by auto
  moreover have "so_pools so \<noteq> [] \<and> list_all2 (\<lambda>raw p. ol_prefix L (trimSpace raw) = Some p) (oc_addresses c) (so_pools so)
    \<and> length (filter (\<lambda>p. length (fst p) = 4) (so_pools so)) \<le> 1 \<and> length (filter (\<lambda>p. length (fst p) \<noteq> 4) (so_pools so)) \<le> 1"
    using parsePools_ok [OF p] a by (auto simp: f)
  moreover have "length (filter (\<lambda>m. m \<noteq> None) [so_tlsAuth so, so_tlsCrypt so, so_tlsCryptV2 so]) \<le> 1"
    using n unfolding f wrapCount_def by (cases "oc_tlsAuth c"; cases "oc_tlsCrypt c"; cases "oc_tlsCryptV2 c") simp_all
  moreover have "so_keyDirection so \<in> {- 1, 0, 1} \<and> (so_keyDirection so = - 1 \<or> so_tlsAuth so \<noteq> None)"
    using d by (auto simp: f keyDirection_def split: if_splits option.splits)
  moreover have "so_pingRestart so = 2 * so_pushPingRestart so" if "oc_keepaliveTimeout c \<le> 10 ^ 9"
  proof -
    define t where "t = orDefault (oc_keepaliveTimeout c) 60"
    have t: "0 < t" "t \<le> 10 ^ 9" using that by (auto simp: t_def orDefault_def)
    then have "i64 (t * 2) = t * 2" "i64 (t * 2 * ns_second) = t * 2 * ns_second" "i64 (t * ns_second) = t * ns_second"
      by (auto intro!: i64_id simp: ns_second_def min_i64_def max_i64_def)
    then show ?thesis by (simp add: f t_def [symmetric])
  qed
  ultimately show ?thesis by blast
qed

text \<open>C20. Packets for the clients are accounted for. However writers, the goroutine of a client and \<open>Close\<close> interleave, every
  buffer given to its queue is exactly once written, released, in one of the at most 256 batches that wait, or with a writer;
  the counters agree, the client is counted as active exactly until it is closed, and the goroutine only returns after
  that.\<close>

theorem openvpn_queue_accounts:
  assumes "oq_run active gs q"
  shows "mset (concat gs) = mset (concat (oq_written q)) + mset (oq_released q) + mset (concat (oq_batches q)) + mset (concat (oq_pending q))
    \<and> length (oq_batches q) \<le> openVPNOutboundQueueSize \<and> oq_tx q = of_nat (length (concat (oq_written q)))
    \<and> oq_active q = (if oq_done q then active else active + 1) \<and> (oq_phase q = Running \<or> oq_done q)"
  using oq_run_accounts [OF assms] by (auto simp: queue_accounts_def)

theorem openvpn_queue_accounts_witness:
  "oq_active (closeQueue (runWrite (writePush [1, 2] (writeCheck [1, 2] (newOutboundQueue 3))))) = (3 :: 64 word)"
proof -
  let ?q1 = "writeCheck [1, 2 :: nat] (newOutboundQueue 3)"
  have r: "oq_run 3 ([] @ [[1, 2]]) ?q1" by (rule oq_run.given [OF oq_run.new])
  then have r: "oq_run 3 ([] @ [[1, 2]]) (writePush [1, 2] ?q1)"
    by (rule oq_run.push) (simp add: writeCheck_def newOutboundQueue_def)
  then have r: "oq_run 3 ([] @ [[1, 2]]) (runWrite (writePush [1, 2] ?q1))"
    by (rule oq_run.sent) (simp_all add: writeCheck_def writePush_def newOutboundQueue_def openVPNOutboundQueueSize_def)
  then have "oq_run 3 ([] @ [[1, 2]]) (closeQueue (runWrite (writePush [1, 2] ?q1)))" by (rule oq_run.close)
  from openvpn_queue_accounts [OF this] show ?thesis
    by (simp add: writeCheck_def writePush_def newOutboundQueue_def openVPNOutboundQueueSize_def runWrite_def closeQueue_def)
qed

definition demoOVPNLibs :: ovpn_libs where
  "demoOVPNLibs = \<lparr>ol_prefix = (\<lambda>s. if s = ''10.9.0.1/24'' then Some ([10, 9, 0, 1], 24) else None), ol_addr = (\<lambda>s. None),
     ol_isSet = (\<lambda>m. mt_content m \<noteq> [] \<or> mt_path m \<noteq> [])\<rparr>"

definition demoOVPNConfig :: ovpn_config where
  "demoOVPNConfig = \<lparr>oc_tag = ''ovpn'', oc_bindMode = ''udplex'', oc_proto = [], oc_listenAddr = [], oc_detour = [''out''], oc_reuse = None,
     oc_sendTimeout = 0, oc_interfaceName = [], oc_mtu = 0, oc_addresses = ['' 10.9.0.1/24''], oc_routes = [], oc_topology = [],
     oc_setupInterface = None, oc_maxClients = 0, oc_ca = [], oc_cert = ''c.pem'', oc_key = ''k.pem'', oc_tlsCrypt = [], oc_tlsCryptV2 = [],
     oc_tlsAuth = ''ta.key'', oc_keyDirection = Some 1, oc_verify = ''require'', oc_crlVerify = [],
     oc_users = [\<lparr>ou_username = ''u'', ou_password = ''old''\<rparr>, \<lparr>ou_username = ''u'', ou_password = ''pw''\<rparr>], oc_duplicateCN = False,
     oc_dataCiphers = [], oc_dataCiphersFallback = [], oc_auth = [], oc_pushRoutes = [], oc_pushDNS = [], oc_redirectGateway = False,
     oc_keepaliveInterval = 0, oc_keepaliveTimeout = 0, oc_netConfig = \<lparr>nc_forward = False, nc_mss = False, nc_policy = [], nc_masq = []\<rparr>\<rparr>"

theorem openvpn_options_sound_witness:
  "\<exists>so auth. buildOpenVPNServerOptions demoOVPNLibs demoOVPNConfig ''udp'' 1500 = Inr so \<and> so_authenticator so = Some auth
    \<and> auth ''u'' ''pw'' \<and> \<not> auth ''u'' ''old'' \<and> so_pingRestart so = 2 * so_pushPingRestart so"
proof -
  have "\<exists>so. buildOpenVPNServerOptions demoOVPNLibs demoOVPNConfig ''udp'' 1500 = Inr so"
    by (simp add: buildOpenVPNServerOptions_def demoOVPNConfig_def demoOVPNLibs_def verifyMode_def keyDirection_def wrapCount_def
        openVPNMaterial_def Let_def trimSpace_def isSpace_def)
  then obtain so where so: "buildOpenVPNServerOptions demoOVPNLibs demoOVPNConfig ''udp'' 1500 = Inr so" by blast
  have v: "trimSpace (oc_verify demoOVPNConfig) = ''require''" "trimSpace (oc_ca demoOVPNConfig) = []"
    by (simp_all add: demoOVPNConfig_def trimSpace_def isSpace_def)
  from openvpn_options_sound [OF so] v obtain auth where "so_authenticator so = Some auth"
    "\<forall>name pass. auth name pass = (account (oc_users demoOVPNConfig) name = Some pass)" by auto
  moreover have "so_pingRestart so = 2 * so_pushPingRestart so"
    using openvpn_options_sound [OF so] by (simp add: demoOVPNConfig_def)
  ultimately show ?thesis using so by (auto simp: demoOVPNConfig_def)
qed

end
