(* ===== verification/Spec2Isabelle.thy ===== *)
theory Spec2Isabelle
  imports Heartbeat Auth AuthCalls Autorate Codel Shaper TcpQueue TcpStream TcpStreamSys Detector LoadBalancer IpRouter Router ConnData Listen Forward UdpTunnel TunnelConn TunnelMaps TunnelRead TunnelStream UdpBatch NetSetup ConfigText PacketQueue WireGuard OpenVPN
begin

text \<open>
  UDPlex (\<open>src/src\<close>) is a UDP multiplexer: a router connects components that receive, filter, balance and
  forward datagrams over UDP, over authenticated tunnels on UDP or TCP, and over reliable streams on top of them.
  This development translates the code that decides what happens to a packet into definitions and
  proves what they promise.

  How the parts fit together. A component gets a packet from the router (\<open>HandlePacket\<close>) and passes packets
  on by \<open>Router.Route\<close>; a packet owns a buffer of the pool and counts its references. \<open>listen.go\<close> and
  \<open>forward.go\<close> are the two ends of a UDP tunnel, \<open>tcp_tunnel_listen.go\<close> and \<open>tcp_tunnel_forward.go\<close> those of a
  TCP tunnel; both wrap data with \<open>auth_protocol.go\<close>, which rejects replays, and count heartbeats with
  \<open>heartbeat_tracker.go\<close>. \<open>shaper.go\<close>, \<open>codel.go\<close>, \<open>autorate.go\<close> and \<open>tcp_tunnel_queue.go\<close> pace and drop;
  \<open>load_balancer.go\<close>, \<open>ip_router.go\<close>, \<open>filter.go\<close> and \<open>protocol_detector.go\<close> choose where a packet goes;
  \<open>tcp_stream.go\<close> carries TCP connections over the datagrams.

  The theories, in the order of their imports:

  \<^item> \<open>Prelude\<close>: bytes, Go's integer and time arithmetic, floats with a rounding parameter, slices, queues
    as a locale.
  \<^item> \<open>Packet\<close>: \<open>packet.go\<close>, the buffer pool of \<open>router.go\<close>, connection ids and the delay window of \<open>component.go\<close>.
  \<^item> \<open>Heartbeat\<close>: both trackers of \<open>heartbeat_tracker.go\<close>; their minute buckets count exactly.
  \<^item> \<open>Dedup\<close>, \<open>Auth\<close>: \<open>auth_protocol.go\<close>; replays are rejected, wrapping and unwrapping are inverse,
    no input panics \<open>UnwrapData\<close>.
  \<^item> \<open>AuthCalls\<close>: concurrent calls of \<open>UnwrapData\<close>, whose look at the replay window and whose mark are separate lock sections,
    as steps that interleave: no copy is accepted after a mark, but two copies at once are.
  \<^item> \<open>Autorate\<close>, \<open>Codel\<close>, \<open>Shaper\<close>: the pacing of a path; rates, bursts and drops are bounded, packets accounted for.
  \<^item> \<open>TcpQueue\<close>: the send queue of a TCP tunnel connection; reliable packets leave complete and in order.
  \<^item> \<open>TcpStream\<close>, \<open>TcpStreamSys\<close>: the reliable streams, and two of their ends over a network that loses, doubles and
    reorders frames, as a step relation with invariants by rule induction.
  \<^item> \<open>Detector\<close>, \<open>LoadBalancer\<close>, \<open>IpRouter\<close>: the decisions on a packet against their documented meaning.
  \<^item> \<open>Router\<close>: routing through a network of components with reference counts over a store of packets; the recursion
    is bounded by the rank of an acyclic network, which is enough fuel, and a loop never returns.
  \<^item> \<open>ConnData\<close>: the copy-on-write table of connection data, and compare-and-swap loops as a step relation.
  \<^item> \<open>Listen\<close>, \<open>Forward\<close>, \<open>UdpTunnel\<close>: the two ends of the UDP tunnel and their composition.
  \<^item> \<open>TunnelConn\<close>: the connections and pools of \<open>tcp_tunnel.go\<close>, the choice of a connection and the write loop.
  \<^item> \<open>TunnelMaps\<close>: \<open>tcp_tunnel_listen.go\<close> and \<open>tcp_tunnel_forward.go\<close>, their tables of pools and
    of connection ids, with concurrent authentications as a step relation.
  \<^item> \<open>TunnelRead\<close>: the read loop of \<open>tcp_tunnel.go\<close> over a buffer of the pool, against \<open>streamSpec\<close>, which has all bytes
    at once; the handlers of both ends are instances of the locales \<open>message_handler\<close> and \<open>tunnel_interface\<close>. The fuel of the loop is the
    number of chunks and of bytes, which bounds its rounds.
  \<^item> \<open>TunnelStream\<close>: one connection from end to end, from \<open>WrapData\<close> and the write loop of one end to the read loop and the
    router of the other.
  \<^item> \<open>UdpBatch\<close>: \<open>udp_batch.go\<close>, the batched writer and reader of datagrams with segmentation offload, over a kernel that is a
    record with laws; \<open>udpWrite\<close> ends because each round sends a datagram or gives up a fallback.
  \<^item> \<open>NetSetup\<close>: \<open>tun_netconfig.go\<close>, the commands that configure addresses, policy routes and masquerading, and their undo list,
    over a host whose entries are a multiset and whose commands, the deletions too, may fail.
  \<^item> \<open>ConfigText\<close>: the stripping of comments in \<open>main.go\<close>, against documents built of literals, text and comments.
  \<^item> \<open>WireGuard\<close>: \<open>wireguard.go\<close>, the bind between the router and the WireGuard library, its endpoints, the filter for copies of
    handshake messages and the texts the library is configured with. \<open>PacketQueue\<close> is what its queue of packets shares with that
    of OpenVPN, as the contract \<open>packet_bind\<close>.
  \<^item> \<open>OpenVPN\<close>: \<open>openvpn.go\<close>, the options of the server, the pipe with its return paths, and the queues of the clients as a step
    relation.

  State and operations. A Go struct is a record, a pointer an index into a store of records, a Go map an association
  list whose iteration order is a parameter. Every function returns an option, \<open>None\<close> being a panic. The code
  under a lock, or one goroutine between two waits, is one step. Where other goroutines can come in between, the
  steps are smaller and interleave freely: the writers of connection data (\<open>ConnData\<close>), the calls of \<open>UnwrapData\<close>
  (\<open>AuthCalls\<close>), the connections that change the table of pools (\<open>TunnelMaps\<close>) and the queues of OpenVPN clients; the other
  theories that use these operations run one of them at a time. Clock, random bytes, the contents of pool buffers, dials and
  socket writes come from an environment record. AES-GCM and HMAC are parameters with the laws \<open>gcm_laws\<close> and
  \<open>hmac_laws\<close>; the expression language of the balancer is one with its own record. The heartbeat and
  statistics counters keep Go's width.

  Not modelled: the HTTP API (\<open>api_server.go\<close>), the start-up and logging code, the
  WireGuard and OpenVPN libraries and TUN devices, the sockets around the streams (\<open>tcp_listen.go\<close>, \<open>tcp_forward.go\<close>), socket options and control
  messages (\<open>tcp_sockopt*.go\<close>, most of \<open>udp_batch_linux.go\<close>), the binding to interfaces and parsing of target addresses
  (\<open>outbound_interface.go\<close>), read deadlines, and the
  shaped send loops of \<open>listen.go\<close> and \<open>forward.go\<close>, which run the modelled shaper and autotuner on timers.
\<close>

end
